(* ===== verification/Prelude.thy ===== *)
theory Prelude
  imports Main "HOL-Library.Word"
begin

text \<open>
  Shared ground of the development: the status codes of \<^verbatim>\<open>k_err.h\<close>, the outcome type in
  which every kernel routine returns (a value, or the reason why control never comes back),
  the total-correctness predicate \<open>ok\<close> with its calculus, and the list lemmas the
  components use (ordered insertion, removal, rotation).
\<close>

section \<open>Status codes\<close>

datatype (plugins only: code size) kstat =
    RHINO_SUCCESS | RHINO_SYS_FATAL_ERR | RHINO_SYS_SP_ERR | RHINO_RUNNING | RHINO_STOPPED
  | RHINO_INV_PARAM | RHINO_NULL_PTR | RHINO_INV_ALIGN | RHINO_KOBJ_TYPE_ERR
  | RHINO_KOBJ_DEL_ERR | RHINO_KOBJ_DOCKER_EXIST | RHINO_KOBJ_BLK | RHINO_KOBJ_SET_FULL
  | RHINO_NOTIFY_FUNC_EXIST
  | RHINO_MM_POOL_SIZE_ERR | RHINO_MM_ALLOC_SIZE_ERR | RHINO_MM_FREE_ADDR_ERR
  | RHINO_MM_CORRUPT_ERR | RHINO_DYN_MEM_PROC_ERR | RHINO_NO_MEM | RHINO_RINGBUF_FULL
  | RHINO_RINGBUF_EMPTY
  | RHINO_SCHED_DISABLE | RHINO_SCHED_ALREADY_ENABLED | RHINO_SCHED_LOCK_COUNT_OVF
  | RHINO_INV_SCHED_WAY
  | RHINO_TASK_INV_STACK_SIZE | RHINO_TASK_NOT_SUSPENDED | RHINO_TASK_DEL_NOT_ALLOWED
  | RHINO_TASK_SUSPEND_NOT_ALLOWED | RHINO_SUSPENDED_COUNT_OVF | RHINO_BEYOND_MAX_PRI
  | RHINO_PRI_CHG_NOT_ALLOWED | RHINO_INV_TASK_STATE | RHINO_IDLE_TASK_EXIST
  | RHINO_NO_PEND_WAIT | RHINO_BLK_ABORT | RHINO_BLK_TIMEOUT | RHINO_BLK_DEL
  | RHINO_BLK_INV_STATE | RHINO_BLK_POOL_SIZE_ERR
  | RHINO_TIMER_STATE_INV
  | RHINO_NO_THIS_EVENT_OPT
  | RHINO_BUF_QUEUE_INV_SIZE | RHINO_BUF_QUEUE_SIZE_ZERO | RHINO_BUF_QUEUE_FULL
  | RHINO_BUF_QUEUE_MSG_SIZE_OVERFLOW | RHINO_QUEUE_FULL | RHINO_QUEUE_NOT_FULL
  | RHINO_SEM_OVF | RHINO_SEM_TASK_WAITING
  | RHINO_MUTEX_NOT_RELEASED_BY_OWNER | RHINO_MUTEX_OWNER_NESTED | RHINO_MUTEX_NESTED_OVF
  | RHINO_INTRPT_NESTED_LEVEL_OVERFLOW | RHINO_INV_INTRPT_NESTED_LEVEL
  | RHINO_NOT_CALLED_BY_INTRPT | RHINO_TRY_AGAIN
  | RHINO_WORKQUEUE_EXIST | RHINO_WORKQUEUE_NOT_EXIST | RHINO_WORKQUEUE_WORK_EXIST
  | RHINO_WORKQUEUE_BUSY | RHINO_WORKQUEUE_WORK_RUNNING
  | RHINO_TASK_STACK_OVF | RHINO_INTRPT_STACK_OVF

text \<open>The kinds of kernel objects (\<^verbatim>\<open>k_obj.h\<close>).\<close>

datatype (plugins only: code size) kobj_type =
    RHINO_OBJ_TYPE_NONE | RHINO_SEM_OBJ_TYPE | RHINO_MUTEX_OBJ_TYPE | RHINO_QUEUE_OBJ_TYPE
  | RHINO_BUF_QUEUE_OBJ_TYPE | RHINO_TIMER_OBJ_TYPE | RHINO_EVENT_OBJ_TYPE
  | RHINO_MM_BLK_OBJ_TYPE | RHINO_MM_OBJ_TYPE

section \<open>Outcomes\<close>

text \<open>
  A kernel routine either returns (\<open>Inr\<close>) or control never comes back to its caller
  (\<open>Inl\<close>): \<open>Halt e\<close> is the call of \<open>k_err_proc(e)\<close>, whose installed handler
  \<open>soc_err_proc\<close> prints a message and spins for ever; \<open>BadAccess\<close> is a NULL
  dereference or an array access out of range; \<open>Diverge\<close> is a loop that has used up the
  iteration bound of its model.
\<close>

datatype fault = Halt kstat | BadAccess | Diverge

type_synonym 'a outcome = "fault + 'a"

fun soc_err_proc :: "kstat \<Rightarrow> 'a outcome" where
  "soc_err_proc e = Inl (Halt e)"

fun k_err_proc :: "kstat \<Rightarrow> 'a outcome" where
  "k_err_proc e = soc_err_proc e"

fun bnd :: "'e + 'a \<Rightarrow> ('a \<Rightarrow> 'e + 'b) \<Rightarrow> 'e + 'b" where
  "bnd (Inl e) f = Inl e"
| "bnd (Inr x) f = f x"

text \<open>Reading a pointer: \<open>None\<close> is NULL.\<close>

fun deref :: "'a option \<Rightarrow> 'a outcome" where
  "deref None = Inl BadAccess"
| "deref (Some x) = Inr x"

named_theorems ok_rules "introduction rules of the total-correctness predicate"

text \<open>\<open>ok m P\<close>: the routine returns, and what it returns satisfies \<open>P\<close>.\<close>

fun ok :: "'e + 'a \<Rightarrow> ('a \<Rightarrow> bool) \<Rightarrow> bool" where
  "ok (Inl e) P = False"
| "ok (Inr x) P = P x"

lemma ok_bnd [simp]: "ok (bnd m f) Q = ok m (\<lambda>x. ok (f x) Q)"
  by (cases m) auto

lemma ok_iff: "ok m P \<longleftrightarrow> (\<exists>x. m = Inr x \<and> P x)"
  by (cases m) auto

lemma ok_mono: "ok m P \<Longrightarrow> (\<And>x. P x \<Longrightarrow> Q x) \<Longrightarrow> ok m Q"
  by (cases m) auto

lemma ok_if: "ok (if b then m else n) P \<longleftrightarrow> (if b then ok m P else ok n P)"
  by simp

lemma ok_conj: "ok m P \<Longrightarrow> ok m Q \<Longrightarrow> ok m (\<lambda>x. P x \<and> Q x)"
  by (cases m) auto

lemma bnd_eq_Inr: "bnd m f = Inr y \<longleftrightarrow> (\<exists>x. m = Inr x \<and> f x = Inr y)"
  by (cases m) auto

lemma bnd_Inr_right [simp]: "bnd m Inr = m"
  by (cases m) auto

lemma deref_eq_Inr [simp]: "deref p = Inr x \<longleftrightarrow> p = Some x"
  by (cases p) auto

lemma ok_deref [simp]: "ok (deref p) P \<longleftrightarrow> (\<exists>x. p = Some x \<and> P x)"
  by (cases p) auto

section \<open>Lists kept in order\<close>

text \<open>
  The priority and time lists of the kernel are kept in order by the same loop: walk from
  the head to the first element whose key is greater, and insert before it. Equal keys keep
  their arrival order.
\<close>

fun insert_before :: "('a \<Rightarrow> bool) \<Rightarrow> 'a \<Rightarrow> 'a list \<Rightarrow> 'a list" where
  "insert_before P x [] = [x]"
| "insert_before P x (y # ys) = (if P y then x # y # ys else y # insert_before P x ys)"

lemma set_insert_before [simp]: "set (insert_before P x ys) = insert x (set ys)"
  by (induction ys) auto

lemma insert_before_nonempty [simp]: "insert_before P x ys \<noteq> []"
  by (cases ys) auto

lemma length_insert_before [simp]: "length (insert_before P x ys) = Suc (length ys)"
  by (induction ys) auto

lemma distinct_insert_before [simp]:
  "distinct (insert_before P x ys) \<longleftrightarrow> x \<notin> set ys \<and> distinct ys"
  by (induction ys) auto

lemma insert_before_split:
  "insert_before P x ys = takeWhile (\<lambda>y. \<not> P y) ys @ x # dropWhile (\<lambda>y. \<not> P y) ys"
  by (induction ys) auto

lemma insert_before_cong:
  "(\<And>y. y \<in> set ys \<Longrightarrow> P y = Q y) \<Longrightarrow> insert_before P x ys = insert_before Q x ys"
  by (induction ys) auto

lemma sorted_insert_before:
  fixes key :: "'a \<Rightarrow> 'k::linorder"
  assumes "sorted (map key ys)" and "\<And>y. y \<in> set ys \<Longrightarrow> P y \<longleftrightarrow> key y > key x"
  shows "sorted (map key (insert_before P x ys))"
  using assms by (induction ys) auto


lemma hd_insert_before_le:
  fixes key :: "'a \<Rightarrow> 'k::linorder"
  assumes "\<And>y. y \<in> set ys \<Longrightarrow> P y \<longleftrightarrow> key y > key x"
  shows "key (hd (insert_before P x ys)) \<le> key x"
  using assms by (cases ys) auto

lemma sorted_map_key_remove1:
  "sorted (map key xs) \<Longrightarrow> sorted (map key (remove1 x xs))"
  by (induction xs) (auto dest: set_remove1_subset [THEN subsetD])

lemma set_remove1_distinct [simp]:
  "distinct xs \<Longrightarrow> set (remove1 x xs) = set xs - {x}"
  by simp

lemma remove1_hd: "xs \<noteq> [] \<Longrightarrow> remove1 (hd xs) xs = tl xs"
  by (cases xs) auto

lemma sorted_hd_min:
  "sorted (map key xs) \<Longrightarrow> x \<in> set xs \<Longrightarrow> key (hd xs) \<le> key x"
  by (cases xs) auto

lemma takeWhile_sorted_le:
  fixes key :: "'a \<Rightarrow> 'k::linorder"
  assumes "sorted (map key xs)"
  shows "set (takeWhile (\<lambda>x. key x \<le> k) xs) = {x \<in> set xs. key x \<le> k}"
  using assms by (induction xs) auto

end
