(* ===== verification/KList.thy ===== *)
theory KList
  imports Prelude
begin

text \<open>
  The intrusive doubly linked lists of \<^verbatim>\<open>k_list.h\<close> at the level of their pointers, and the
  refinement that lets the rest of the development treat a kernel list as a HOL list: a
  ring of nodes \<open>l # xs\<close> (list head \<open>l\<close>, elements \<open>xs\<close>) is laid out by \<open>next\<close> and
  \<open>prev\<close>, insertion before a node, insertion after the head and removal are the list
  operations, and nodes of other rings keep their links.
\<close>

section \<open>The pointer operations\<close>

record 'n links =
  nxt :: "'n \<Rightarrow> 'n"
  prv :: "'n \<Rightarrow> 'n"

definition set_nxt :: "'n \<Rightarrow> 'n \<Rightarrow> 'n links \<Rightarrow> 'n links" where
  "set_nxt x y h = h\<lparr>nxt := (nxt h)(x := y)\<rparr>"

definition set_prv :: "'n \<Rightarrow> 'n \<Rightarrow> 'n links \<Rightarrow> 'n links" where
  "set_prv x y h = h\<lparr>prv := (prv h)(x := y)\<rparr>"

definition klist_init :: "'n \<Rightarrow> 'n links \<Rightarrow> 'n links" where
  "klist_init l h = set_prv l l (set_nxt l l h)"

definition is_klist_empty :: "'n \<Rightarrow> 'n links \<Rightarrow> bool" where
  "is_klist_empty l h \<longleftrightarrow> nxt h l = l"

definition klist_insert :: "'n \<Rightarrow> 'n \<Rightarrow> 'n links \<Rightarrow> 'n links" where
  "klist_insert head element h =
     (let h1 = set_prv element (prv h head) h;
          h2 = set_nxt element head h1;
          h3 = set_nxt (prv h2 head) element h2
      in set_prv head element h3)"

definition klist_add :: "'n \<Rightarrow> 'n \<Rightarrow> 'n links \<Rightarrow> 'n links" where
  "klist_add head element h =
     (let h1 = set_prv element head h;
          h2 = set_nxt element (nxt h1 head) h1;
          h3 = set_prv (nxt h2 head) element h2
      in set_nxt head element h3)"

definition klist_rm :: "'n \<Rightarrow> 'n links \<Rightarrow> 'n links" where
  "klist_rm element h =
     (let h1 = set_nxt (prv h element) (nxt h element) h
      in set_prv (nxt h1 element) (prv h1 element) h1)"

definition klist_rm_init :: "'n \<Rightarrow> 'n links \<Rightarrow> 'n links" where
  "klist_rm_init element h =
     (let h1 = set_nxt (prv h element) (nxt h element) h;
          h2 = set_prv (nxt h1 element) (prv h1 element) h1
      in set_nxt element element (set_prv element element h2))"

lemma links_simps [simp]:
  "nxt (set_nxt x y h) = (nxt h)(x := y)" "prv (set_nxt x y h) = prv h"
  "prv (set_prv x y h) = (prv h)(x := y)" "nxt (set_prv x y h) = nxt h"
  by (simp_all add: set_nxt_def set_prv_def)

section \<open>Rings\<close>

text \<open>\<open>seg h a xs b\<close>: following \<open>next\<close> from \<open>a\<close> visits \<open>xs\<close> and then \<open>b\<close>, and
  every \<open>prev\<close> on the way points back.\<close>

fun seg :: "'n links \<Rightarrow> 'n \<Rightarrow> 'n list \<Rightarrow> 'n \<Rightarrow> bool" where
  "seg h a [] b \<longleftrightarrow> nxt h a = b \<and> prv h b = a"
| "seg h a (x # xs) b \<longleftrightarrow> nxt h a = x \<and> prv h x = a \<and> seg h x xs b"

fun ring :: "'n links \<Rightarrow> 'n list \<Rightarrow> bool" where
  "ring h [] \<longleftrightarrow> False"
| "ring h (x # xs) \<longleftrightarrow> distinct (x # xs) \<and> seg h x xs x"

lemma seg_append [simp]: "seg h a (xs @ y # ys) b \<longleftrightarrow> seg h a xs y \<and> seg h y ys b"
  by (induction xs arbitrary: a) auto

lemma seg_cong:
  assumes "seg h a xs b"
    and "\<And>x. x \<in> set (a # xs) \<Longrightarrow> nxt h' x = nxt h x"
    and "\<And>x. x \<in> set (xs @ [b]) \<Longrightarrow> prv h' x = prv h x"
  shows "seg h' a xs b"
  using assms by (induction xs arbitrary: a) auto

lemma ring_rotate: "ring h (x # xs @ y # ys) \<Longrightarrow> ring h (y # ys @ x # xs)"
  by auto

lemma ring_rotate1: "ring h xs \<Longrightarrow> ring h (rotate1 xs)"
proof (cases xs)
  case (Cons x ys)
  assume "ring h xs"
  with Cons show ?thesis by (cases ys) auto
qed simp

lemma ring_frame:
  assumes "ring h xs" and "\<And>x. x \<in> set xs \<Longrightarrow> nxt h' x = nxt h x \<and> prv h' x = prv h x"
  shows "ring h' xs"
proof (cases xs)
  case (Cons x ys)
  with assms(1) have "distinct (x # ys)" and "seg h x ys x" by simp_all
  moreover from this(2) have "seg h' x ys x"
    by (rule seg_cong) (use assms(2) Cons in auto)
  ultimately show ?thesis using Cons by simp
qed (use assms in simp)

lemma ring_prv_last: "ring h (x # xs) \<Longrightarrow> prv h x = last (x # xs)"
  by (cases xs rule: rev_cases) auto

lemma ring_nxt_hd: "ring h (x # xs) \<Longrightarrow> nxt h x = hd (xs @ [x])"
  by (cases xs) auto

lemma klist_rm_frame:
  "x \<noteq> nxt h e \<Longrightarrow> prv (klist_rm e h) x = prv h x"
  "x \<noteq> prv h e \<Longrightarrow> nxt (klist_rm e h) x = nxt h x"
  by (auto simp: klist_rm_def Let_def)

text \<open>Insertion before the node a ring starts with.\<close>

lemma ring_klist_insert:
  assumes r: "ring h (q # zs)" and e: "e \<notin> set (q # zs)"
  shows "ring (klist_insert q e h) (e # q # zs)"
proof (cases zs rule: rev_cases)
  case Nil
  with r e show ?thesis by (auto simp: klist_insert_def Let_def)
next
  case (snoc zs' p)
  let ?h = "klist_insert q e h"
  from r snoc have s: "seg h q zs' p" "nxt h p = q" "prv h q = p" "distinct (q # zs' @ [p])"
    by auto
  have fields: "nxt ?h = (nxt h)(e := q, p := e)" "prv ?h = (prv h)(e := p, q := e)"
    using s e snoc by (auto simp: klist_insert_def Let_def)
  from s(1) have "seg ?h q zs' p"
    by (rule seg_cong) (use s e snoc in \<open>auto simp: fields\<close>)
  then show ?thesis using s e snoc by (auto simp: fields)
qed

lemma ring_klist_rm:
  assumes r: "ring h (e # z # zs)"
  shows "ring (klist_rm e h) (z # zs)"
proof (cases zs rule: rev_cases)
  case Nil
  with r show ?thesis by (auto simp: klist_rm_def Let_def)
next
  case (snoc zs' p)
  let ?h = "klist_rm e h"
  from r snoc have s: "seg h z zs' p" "nxt h e = z" "prv h e = p" "distinct (e # z # zs' @ [p])"
    by auto
  have fields: "nxt ?h = (nxt h)(p := z)" "prv ?h = (prv h)(z := p)"
    using s by (auto simp: klist_rm_def Let_def)
  from s(1) have "seg ?h z zs' p"
    by (rule seg_cong) (use s in \<open>auto simp: fields\<close>)
  then show ?thesis using s snoc by (auto simp: fields)
qed

section \<open>Lists with a head node\<close>

text \<open>\<open>klist_repr h l xs\<close>: the list with head node \<open>l\<close> holds the elements \<open>xs\<close>.\<close>

definition klist_repr :: "'n links \<Rightarrow> 'n \<Rightarrow> 'n list \<Rightarrow> bool" where
  "klist_repr h l xs \<longleftrightarrow> ring h (l # xs)"

lemma klist_init_repr: "klist_repr (klist_init l h) l []"
  by (simp add: klist_repr_def klist_init_def)

lemma is_klist_empty_repr: "klist_repr h l xs \<Longrightarrow> is_klist_empty l h \<longleftrightarrow> xs = []"
  by (cases xs) (auto simp: klist_repr_def is_klist_empty_def)

lemma klist_insert_repr:
  assumes "klist_repr h l xs" and "e \<notin> set (l # xs)"
  shows "klist_repr (klist_insert l e h) l (xs @ [e])"
proof -
  have "ring (klist_insert l e h) (e # [] @ l # xs)"
    using ring_klist_insert [of h l xs e] assms unfolding klist_repr_def by simp
  from ring_rotate [OF this] show ?thesis by (simp add: klist_repr_def)
qed

lemma klist_insert_mid_repr:
  assumes "klist_repr h l (ys @ q # zs)" and "e \<notin> set (l # ys @ q # zs)"
  shows "klist_repr (klist_insert q e h) l (ys @ e # q # zs)"
proof -
  have "ring h (q # zs @ l # ys)"
    using assms(1) ring_rotate [of h l ys q zs] by (simp add: klist_repr_def)
  then have "ring (klist_insert q e h) (e # (q # zs) @ l # ys)"
    using ring_klist_insert [of h q "zs @ l # ys" e] assms(2) by auto
  from ring_rotate [OF this] show ?thesis by (simp add: klist_repr_def)
qed

lemma klist_rm_repr:
  assumes "klist_repr h l (ys @ e # zs)"
  shows "klist_repr (klist_rm e h) l (ys @ zs)"
proof -
  from assms have r: "ring h (e # zs @ l # ys)"
    using ring_rotate [of h l ys e zs] by (simp add: klist_repr_def)
  have "ring (klist_rm e h) (zs @ l # ys)"
  proof (cases zs)
    case Nil
    with r show ?thesis using ring_klist_rm [of h e l ys] by simp
  next
    case (Cons z zs')
    with r show ?thesis using ring_klist_rm [of h e z "zs' @ l # ys"] by simp
  qed
  then show ?thesis
    by (cases zs) (auto simp: klist_repr_def dest: ring_rotate)
qed

lemma klist_add_insert:
  assumes "klist_repr h l (x # xs)" and "e \<notin> set (l # x # xs)"
  shows "klist_add l e h = klist_insert x e h"
  using assms by (auto simp: klist_repr_def klist_add_def klist_insert_def Let_def set_nxt_def
      set_prv_def fun_upd_twist)

lemma klist_add_repr:
  assumes "klist_repr h l xs" and "e \<notin> set (l # xs)"
  shows "klist_repr (klist_add l e h) l (e # xs)"
proof (cases xs)
  case Nil
  with assms show ?thesis by (auto simp: klist_repr_def klist_add_def Let_def)
next
  case (Cons x ys)
  with assms show ?thesis
    using klist_add_insert [of h l x ys e] klist_insert_mid_repr [of h l "[]" x ys e] by simp
qed

lemma klist_rm_init_repr:
  assumes "klist_repr h l (ys @ e # zs)"
  shows "klist_repr (klist_rm_init e h) l (ys @ zs) \<and> klist_repr (klist_rm_init e h) e []"
proof -
  have e: "e \<notin> set (l # ys @ zs)" using assms by (auto simp: klist_repr_def)
  have eq: "klist_rm_init e h = set_nxt e e (set_prv e e (klist_rm e h))"
    by (simp add: klist_rm_init_def klist_rm_def Let_def)
  have "klist_repr (klist_rm_init e h) l (ys @ zs)"
    using klist_rm_repr [OF assms] e unfolding klist_repr_def eq
    by (elim ring_frame) auto
  moreover have "klist_repr (klist_rm_init e h) e []"
    by (simp add: eq klist_repr_def)
  ultimately show ?thesis by blast
qed

section \<open>The ordered insertion loop\<close>

text \<open>
  The loop \<open>for (q = head->next; q != head; q = q->next) if (P(q)) break;\<close> shared by
  \<open>pend_list_add\<close>, \<open>tick_list_pri_insert\<close> and \<open>timer_list_pri_insert\<close>, with a bound
  on its iterations.
\<close>

fun klist_walk :: "nat \<Rightarrow> ('n \<Rightarrow> bool) \<Rightarrow> 'n \<Rightarrow> 'n \<Rightarrow> 'n links \<Rightarrow> 'n outcome" where
  "klist_walk 0 P q head h = Inl Diverge"
| "klist_walk (Suc n) P q head h =
     (if q = head \<or> P q then Inr q else klist_walk n P (nxt h q) head h)"

lemma klist_walk_seg:
  assumes "seg h a ys l" and "l \<notin> set ys" and "length ys < n"
  shows "klist_walk n P (nxt h a) l h = Inr (hd (dropWhile (\<lambda>y. \<not> P y) ys @ [l]))"
  using assms
proof (induction ys arbitrary: a n)
  case Nil
  then show ?case by (cases n) auto
next
  case (Cons y ys)
  then show ?case by (cases n) auto
qed

text \<open>
  C37. Ordered insertion on the pointer structure is ordered insertion on lists: on a list
  with head \<open>l\<close> holding \<open>xs\<close>, the walk terminates within \<open>length xs + 1\<close> iterations, and
  \<open>klist_insert\<close> at the node it stops at links \<open>e\<close> before the first element satisfying
  \<open>P\<close> and behind all the others.
\<close>

theorem klist_ordered_insert_refines:
  assumes "klist_repr h l xs" and "e \<notin> set (l # xs)" and "length xs < n"
  shows "\<exists>q. klist_walk n P (nxt h l) l h = Inr q \<and>
     klist_repr (klist_insert q e h) l (insert_before P e xs)"
proof -
  let ?ys = "takeWhile (\<lambda>y. \<not> P y) xs" and ?zs = "dropWhile (\<lambda>y. \<not> P y) xs"
  from assms(1) have seg: "seg h l xs l" and "l \<notin> set xs" by (auto simp: klist_repr_def)
  then have walk: "klist_walk n P (nxt h l) l h = Inr (hd (?zs @ [l]))"
    using assms(3) by (rule klist_walk_seg)
  have "klist_repr (klist_insert (hd (?zs @ [l])) e h) l (insert_before P e xs)"
  proof (cases ?zs)
    case Nil
    then have "insert_before P e xs = xs @ [e]"
      by (metis append_Nil2 insert_before_split takeWhile_dropWhile_id)
    then show ?thesis
      using klist_insert_repr [OF assms(1,2)] unfolding Nil by (simp only: append_Nil list.sel)
  next
    case (Cons z zs)
    then have "xs = ?ys @ z # zs" by (metis takeWhile_dropWhile_id)
    then show ?thesis
      using klist_insert_mid_repr [of h l ?ys z zs e] assms(1,2) Cons
      by (simp add: insert_before_split)
  qed
  with walk show ?thesis by blast
qed

theorem klist_ordered_insert_refines_witness:
  "\<exists>h. klist_repr h (0::nat) [1, 3] \<and> (\<exists>q. klist_walk 3 (\<lambda>y. y > 2) (nxt h 0) 0 h = Inr q \<and>
     klist_repr (klist_insert q 2 h) 0 [1, 2, 3])"
proof
  let ?h = "klist_insert (0::nat) 3 (klist_insert 0 1 (klist_init 0 \<lparr>nxt = id, prv = id\<rparr>))"
  have r: "klist_repr ?h 0 [1, 3]"
    by (simp add: klist_repr_def klist_insert_def klist_init_def Let_def)
  show "klist_repr ?h 0 [1, 3] \<and> (\<exists>q. klist_walk 3 (\<lambda>y. y > 2) (nxt ?h 0) 0 ?h = Inr q \<and>
     klist_repr (klist_insert q 2 ?h) 0 [1, 2, 3])"
    using r klist_ordered_insert_refines [OF r, of 2 3 "\<lambda>y. y > 2"] by simp
qed

text \<open>
  C38. Unlinking a node removes exactly that element from the list that holds it, and the
  list keeps its order; every other list, whose nodes are disjoint from it, is untouched.
\<close>

theorem klist_rm_refines:
  assumes "klist_repr h l xs" and "e \<in> set xs"
  shows "klist_repr (klist_rm e h) l (remove1 e xs) \<and>
     (\<forall>l' ys. klist_repr h l' ys \<and> set (l' # ys) \<inter> set (l # xs) = {} \<longrightarrow>
        klist_repr (klist_rm e h) l' ys)"
proof -
  from assms(2) obtain ys zs where xs: "xs = ys @ e # zs" and "e \<notin> set ys"
    by (auto dest: split_list_first)
  then have rm: "remove1 e xs = ys @ zs" by (simp add: remove1_append)
  have e: "ring h (e # zs @ l # ys)"
    using assms(1) xs ring_rotate [of h l ys e zs] by (simp add: klist_repr_def)
  then have nx: "nxt h e \<in> set (l # xs)" using ring_nxt_hd [OF e] xs by (cases zs) auto
  have pv: "prv h e \<in> set (l # xs)"
    using ring_prv_last [OF e] xs by (cases ys rule: rev_cases) auto
  have "klist_repr (klist_rm e h) l' ys'"
    if "klist_repr h l' ys'" "set (l' # ys') \<inter> set (l # xs) = {}" for l' ys'
  proof -
    have "ring h (l' # ys')" using that(1) by (simp add: klist_repr_def)
    then have "ring (klist_rm e h) (l' # ys')"
    proof (rule ring_frame)
      fix x assume "x \<in> set (l' # ys')"
      with that(2) have "x \<notin> set (l # xs)" by blast
      with nx pv have "x \<noteq> nxt h e" "x \<noteq> prv h e" by metis+
      then show "nxt (klist_rm e h) x = nxt h x \<and> prv (klist_rm e h) x = prv h x"
        by (simp add: klist_rm_frame)
    qed
    then show ?thesis by (simp add: klist_repr_def)
  qed
  then show ?thesis
    using klist_rm_repr [of h l ys e zs] assms(1) xs rm by auto
qed

theorem klist_rm_refines_witness:
  "\<exists>h. klist_repr h (0::nat) [1, 3] \<and> klist_repr (klist_rm 1 h) 0 [3] \<and>
     (\<forall>l' ys. klist_repr h l' ys \<and> set (l' # ys) \<inter> set [0, 1, 3] = {} \<longrightarrow>
        klist_repr (klist_rm 1 h) l' ys)"
proof
  let ?h = "klist_insert (0::nat) 3 (klist_insert 0 1 (klist_init 0 \<lparr>nxt = id, prv = id\<rparr>))"
  have r: "klist_repr ?h 0 [1, 3]"
    by (simp add: klist_repr_def klist_insert_def klist_init_def Let_def)
  show "klist_repr ?h 0 [1, 3] \<and> klist_repr (klist_rm 1 ?h) 0 [3] \<and>
     (\<forall>l' ys. klist_repr ?h l' ys \<and> set (l' # ys) \<inter> set [0, 1, 3] = {} \<longrightarrow>
        klist_repr (klist_rm 1 ?h) l' ys)"
  proof -
    have rm: "remove1 (1::nat) [1, 3] = [3]" by simp
    have m: "(1::nat) \<in> set [1, 3]" by simp
    show ?thesis using r klist_rm_refines [OF r m] unfolding rm by (rule conjI)
  qed
qed

end
