(* ===== verification/Ring.thy ===== *)
theory Ring
  imports Prelude
begin

text \<open>
  Byte memory and circular storage, shared by the ring buffer and the byte FIFO: copying
  into memory, reading a run of a circular region, and the two facts on which both
  components rest (a contiguous write behind the contents appends to them, a run splits
  anywhere). The locale \<open>msg_fifo\<close> is the contract of a bounded first-in first-out store;
  its client lemma shows that a whole sequence of puts and gets behaves as on a list.
\<close>

section \<open>Memory\<close>

type_synonym byte = "8 word"
type_synonym memory = "nat \<Rightarrow> byte"

definition memcpy :: "memory \<Rightarrow> nat \<Rightarrow> (nat \<Rightarrow> byte) \<Rightarrow> nat \<Rightarrow> memory" where
  "memcpy mem dst src n = (\<lambda>a. if dst \<le> a \<and> a < dst + n then src (a - dst) else mem a)"

definition read_bytes :: "memory \<Rightarrow> nat \<Rightarrow> nat \<Rightarrow> byte list" where
  "read_bytes mem src n = map (\<lambda>i. mem (src + i)) [0..<n]"

lemma memcpy_0 [simp]: "memcpy mem dst src 0 = mem"
  by (rule ext) (auto simp: memcpy_def)

lemma memcpy_cong: "(\<And>i. i < n \<Longrightarrow> src i = src' i) \<Longrightarrow> memcpy mem dst src n = memcpy mem dst src' n"
  by (auto simp: memcpy_def fun_eq_iff)

section \<open>Circular regions\<close>

text \<open>The \<open>n\<close> bytes from offset \<open>p\<close> on in the circular region \<open>[b, b + c)\<close>.\<close>

definition ring_get :: "memory \<Rightarrow> nat \<Rightarrow> nat \<Rightarrow> nat \<Rightarrow> nat \<Rightarrow> byte list" where
  "ring_get mem b c p n = map (\<lambda>i. mem (b + (p + i) mod c)) [0..<n]"

lemma length_ring_get [simp]: "length (ring_get mem b c p n) = n"
  by (simp add: ring_get_def)

lemma ring_get_0 [simp]: "ring_get mem b c p 0 = []"
  by (simp add: ring_get_def)

lemma nth_ring_get [simp]: "i < n \<Longrightarrow> ring_get mem b c p n ! i = mem (b + (p + i) mod c)"
  by (simp add: ring_get_def)

lemma ring_get_add:
  "ring_get mem b c p (m + n) = ring_get mem b c p m @ ring_get mem b c (p + m) n"
  by (rule nth_equalityI) (auto simp: nth_append add.assoc)

lemma ring_get_mod [simp]: "ring_get mem b c (p mod c) n = ring_get mem b c p n"
  by (simp add: ring_get_def mod_add_left_eq)

lemma ring_get_cong_mod:
  "p mod c = q mod c \<Longrightarrow> ring_get mem b c p n = ring_get mem b c q n"
  by (metis ring_get_mod)

lemma read_bytes_ring_get:
  "p + n \<le> c \<Longrightarrow> read_bytes mem (b + p) n = ring_get mem b c p n"
  by (simp add: read_bytes_def ring_get_def add.assoc)

lemma add_mod_inj:
  fixes h i j c :: nat
  assumes "(h + i) mod c = (h + j) mod c" "i < c" "j < c"
  shows "i = j"
proof -
  have *: "x = y" if "(h + x) mod c = (h + y) mod c" "x < c" "y < c" "x \<le> y" for x y
  proof -
    have "c dvd y - x"
      using that mod_eq_dvd_iff_nat [of "h + x" "h + y" c] by simp
    then show ?thesis
      using that by (metis diff_is_0_eq dvd_imp_le le_antisym less_imp_diff_less not_gr_zero not_less)
  qed
  show ?thesis
    using * [of i j] * [of j i] assms by (cases "i \<le> j") auto
qed

lemma ring_get_append_write:
  assumes "t < c" "t + k \<le> c" "u + k \<le> c" "t = (h + u) mod c"
  shows "ring_get (memcpy mem (b + t) src k) b c h (u + k)
         = ring_get mem b c h u @ map src [0..<k]"
proof (rule nth_equalityI)
  fix i assume "i < length (ring_get (memcpy mem (b + t) src k) b c h (u + k))"
  then have i: "i < u + k" by simp
  show "ring_get (memcpy mem (b + t) src k) b c h (u + k) ! i
        = (ring_get mem b c h u @ map src [0..<k]) ! i"
  proof (cases "i < u")
    case True
    have "\<not> (t \<le> (h + i) mod c \<and> (h + i) mod c < t + k)"
    proof
      assume a: "t \<le> (h + i) mod c \<and> (h + i) mod c < t + k"
      then obtain j where j: "(h + i) mod c = t + j" "j < k"
        by (metis le_Suc_ex add_less_cancel_left)
      then have "(h + i) mod c = (h + (u + j)) mod c"
        using assms by (metis (no_types, lifting) a add.assoc less_le_trans mod_add_left_eq mod_less)
      then show False
        using add_mod_inj [of h i c "u + j"] True j assms by simp
    qed
    then show ?thesis
      using True i by (auto simp: memcpy_def nth_append)
  next
    case False
    then obtain j where j: "i = u + j" "j < k"
      using i by (metis le_Suc_ex add_less_cancel_left linorder_not_less)
    then have "(h + i) mod c = t + j"
      using assms by (metis (no_types, lifting) add.assoc add_less_cancel_left less_le_trans mod_add_left_eq mod_less)
    then show ?thesis
      using False i j by (simp add: memcpy_def nth_append)
  qed
qed simp

section \<open>The contract of a first-in first-out store\<close>

datatype 'm fifo_op = Put 'm | Get

text \<open>Runs a sequence of operations; returns the final store, the messages that were accepted
  and the messages that came out, each in order.\<close>

fun fifo_run :: "('s \<Rightarrow> 'm \<Rightarrow> bool \<times> 's) \<Rightarrow> ('s \<Rightarrow> 'm option \<times> 's) \<Rightarrow> 's \<Rightarrow> 'm fifo_op list
    \<Rightarrow> 's \<times> 'm list \<times> 'm list" where
  "fifo_run put get s [] = (s, [], [])"
| "fifo_run put get s (Put m # ops) =
     (let r = put s m; rest = fifo_run put get (snd r) ops
      in (fst rest, (if fst r then [m] else []) @ fst (snd rest), snd (snd rest)))"
| "fifo_run put get s (Get # ops) =
     (let r = get s; rest = fifo_run put get (snd r) ops
      in (fst rest, fst (snd rest), (case fst r of None \<Rightarrow> [] | Some m \<Rightarrow> [m]) @ snd (snd rest)))"

locale msg_fifo =
  fixes rep :: "'s \<Rightarrow> 'm list \<Rightarrow> bool"
    and put :: "'s \<Rightarrow> 'm \<Rightarrow> bool \<times> 's"
    and get :: "'s \<Rightarrow> 'm option \<times> 's"
  assumes put_accepted: "rep s q \<Longrightarrow> fst (put s m) \<Longrightarrow> rep (snd (put s m)) (q @ [m])"
    and put_refused: "rep s q \<Longrightarrow> \<not> fst (put s m) \<Longrightarrow> snd (put s m) = s"
    and get_empty: "rep s [] \<Longrightarrow> get s = (None, s)"
    and get_head: "rep s (m # q) \<Longrightarrow> fst (get s) = Some m \<and> rep (snd (get s)) q"
begin

lemma run_fifo:
  assumes "rep s q" and "fifo_run put get s ops = (s', acc, got)"
  shows "\<exists>q'. rep s' q' \<and> q @ acc = got @ q'"
  using assms
proof (induction ops arbitrary: s q s' acc got)
  case Nil
  then show ?case by auto
next
  case (Cons op ops)
  show ?case
  proof (cases op)
    case (Put m)
    then show ?thesis
      using Cons put_accepted [OF Cons.prems(1), of m] put_refused [OF Cons.prems(1), of m]
      by (cases "fst (put s m)")
        (fastforce simp: Let_def prod_eq_iff split: prod.splits)+
  next
    case Get
    then show ?thesis
      using Cons get_empty [of s] get_head [of s]
      by (cases q) (fastforce simp: Let_def prod_eq_iff split: prod.splits)+
  qed
qed

lemma drain:
  "rep s q \<Longrightarrow> snd (snd (fifo_run put get s (replicate (length q) Get))) = q"
proof (induction q arbitrary: s)
  case (Cons m q)
  then show ?case
    using get_head [OF Cons.prems] by (simp add: Let_def)
qed simp

lemma run_fifo_drain:
  assumes "rep s []" and "fifo_run put get s ops = (s', acc, got)"
  shows "\<exists>q. acc = got @ q \<and> snd (snd (fifo_run put get s' (replicate (length q) Get))) = q"
  using run_fifo [OF assms] drain by auto

end

end
