(* ===== verification/Fifo.thy ===== *)
theory Fifo
  imports Ring
begin

unbundle bit_operations_syntax

text \<open>
  The byte FIFO of \<^verbatim>\<open>k_fifo.c\<close>: a power-of-two buffer with free-running 32-bit indices that
  wrap around. The theorems: \<open>is_power_of_2\<close> is what it says, \<open>fifo_in\<close> appends the
  longest prefix that fits, \<open>fifo_out\<close> and \<open>fifo_out_all\<close> remove from the front,
  \<open>fifo_out_peek\<close> only reads, for every value of the indices, wrapped or not.
\<close>

section \<open>Definitions\<close>

record k_fifo =
  f_in :: "32 word"
  f_out :: "32 word"
  f_mask :: "32 word"
  f_data :: nat
  free_bytes :: "32 word"
  f_size :: "32 word"

definition fifo_min :: "32 word \<Rightarrow> 32 word \<Rightarrow> 32 word" where
  "fifo_min x y = (if x > y then y else x)"

definition fifo_unused :: "k_fifo \<Rightarrow> 32 word" where
  "fifo_unused fifo = (f_mask fifo + 1) - (f_in fifo - f_out fifo)"

definition is_power_of_2 :: "32 word \<Rightarrow> bool" where
  "is_power_of_2 n \<longleftrightarrow> n \<noteq> 0 \<and> n AND (n - 1) = 0"

text \<open>The result is the return value: 0 on success, 1 when the size is refused.\<close>

definition fifo_init :: "k_fifo \<Rightarrow> nat \<Rightarrow> 32 word \<Rightarrow> 8 word \<times> k_fifo" where
  "fifo_init fifo buffer sz =
     (if \<not> is_power_of_2 sz then (1, fifo)
      else (let fifo = fifo\<lparr>f_in := 0, f_out := 0, f_data := buffer\<rparr>
            in if sz < 2 then (1, fifo\<lparr>f_mask := 0\<rparr>)
               else (0, fifo\<lparr>f_mask := sz - 1, free_bytes := sz, f_size := sz\<rparr>)))"

definition fifo_copy_in :: "memory \<Rightarrow> k_fifo \<Rightarrow> (nat \<Rightarrow> byte) \<Rightarrow> 32 word \<Rightarrow> 32 word \<Rightarrow> memory" where
  "fifo_copy_in mem fifo src len off =
     (let sz = f_mask fifo + 1;
          off = off AND f_mask fifo;
          l = fifo_min len (sz - off);
          mem = memcpy mem (f_data fifo + unat off) src (unat l)
      in memcpy mem (f_data fifo) (\<lambda>i. src (unat l + i)) (unat (len - l)))"

definition fifo_in :: "memory \<Rightarrow> k_fifo \<Rightarrow> (nat \<Rightarrow> byte) \<Rightarrow> 32 word \<Rightarrow> 32 word \<times> memory \<times> k_fifo" where
  "fifo_in mem fifo buf len =
     (let l = fifo_unused fifo;
          len = (if len > l then l else len)
      in (len, fifo_copy_in mem fifo buf len (f_in fifo),
          fifo\<lparr>f_in := f_in fifo + len, free_bytes := free_bytes fifo - len\<rparr>))"

text \<open>The bytes written at \<open>dst\<close>.\<close>

definition kfifo_copy_out :: "memory \<Rightarrow> k_fifo \<Rightarrow> 32 word \<Rightarrow> 32 word \<Rightarrow> byte list" where
  "kfifo_copy_out mem fifo len off =
     (let sz = f_mask fifo + 1;
          off = off AND f_mask fifo;
          l = fifo_min len (sz - off)
      in read_bytes mem (f_data fifo + unat off) (unat l) @
         read_bytes mem (f_data fifo) (unat (len - l)))"

definition internal_fifo_out_peek :: "memory \<Rightarrow> k_fifo \<Rightarrow> 32 word \<Rightarrow> 32 word \<times> byte list" where
  "internal_fifo_out_peek mem fifo len =
     (let l = f_in fifo - f_out fifo;
          len = (if len > l then l else len)
      in (len, kfifo_copy_out mem fifo len (f_out fifo)))"

definition fifo_out_peek :: "memory \<Rightarrow> k_fifo \<Rightarrow> 32 word \<Rightarrow> 32 word \<times> byte list" where
  "fifo_out_peek mem fifo len = internal_fifo_out_peek mem fifo len"

definition fifo_out :: "memory \<Rightarrow> k_fifo \<Rightarrow> 32 word \<Rightarrow> 32 word \<times> byte list \<times> k_fifo" where
  "fifo_out mem fifo len =
     (case internal_fifo_out_peek mem fifo len of (len, out) \<Rightarrow>
       (len, out, fifo\<lparr>f_out := f_out fifo + len, free_bytes := free_bytes fifo + len\<rparr>))"

definition fifo_out_all :: "memory \<Rightarrow> k_fifo \<Rightarrow> 32 word \<times> byte list \<times> k_fifo" where
  "fifo_out_all mem fifo =
     (let len = f_size fifo - free_bytes fifo
      in if len = 0 then (0, [], fifo)
         else (case internal_fifo_out_peek mem fifo len of (len, out) \<Rightarrow>
           (len, out, fifo\<lparr>f_out := f_out fifo + len, free_bytes := free_bytes fifo + len\<rparr>)))"

section \<open>Powers of two\<close>

lemma and_pred_power:
  fixes n :: nat
  assumes "0 < n" "n AND (n - 1) = 0"
  shows "\<exists>k. n = 2 ^ k"
  using assms
proof (induction n rule: less_induct)
  case (less n)
  show ?case
  proof (cases "even n")
    case True
    then obtain m where m: "n = 2 * m" by (auto elim: evenE)
    then have "n AND (n - 1) = 2 * (m AND (m - 1))"
    proof -
      have "(2 * m - 1) div 2 = m - 1" "odd (2 * m - 1)"
        using less.prems m by auto
      then show ?thesis
        using m by (subst and_rec) auto
    qed
    then have "m AND (m - 1) = 0" "0 < m" "m < n"
      using less.prems m by auto
    then obtain k where "m = 2 ^ k"
      using less.IH by blast
    then show ?thesis
      using m by (metis power_Suc)
  next
    case False
    then obtain m where m: "n = 2 * m + 1" by (auto elim: oddE)
    then have "n AND (n - 1) = 2 * m"
      by (subst and_rec) auto
    then have "n = 2 ^ 0" using less.prems m by simp
    then show ?thesis by blast
  qed
qed

lemma is_power_of_2_iff: "is_power_of_2 n \<longleftrightarrow> (\<exists>k < 32. n = 2 ^ k)"
proof
  assume a: "is_power_of_2 n"
  then have n: "n \<noteq> 0" "n AND (n - 1) = 0"
    by (auto simp: is_power_of_2_def)
  then have "unat n AND unat (n - 1) = 0"
    by (simp flip: unsigned_and_eq)
  then have "0 < unat n" "unat n AND (unat n - 1) = 0"
    using n(1) by (simp_all add: unat_gt_0 unat_minus_one)
  then obtain k where k: "unat n = 2 ^ k"
    using and_pred_power by blast
  then have "(2 :: nat) ^ k < 2 ^ 32"
    using unsigned_less [of n, where 'a = nat] by simp
  then have "k < 32"
    using power_less_imp_less_exp [of "2 :: nat" k 32] by simp
  moreover have "n = 2 ^ k"
  proof -
    have "n = of_nat (unat n)" by simp
    also have "\<dots> = 2 ^ k" unfolding k by simp
    finally show ?thesis .
  qed
  ultimately show "\<exists>k < 32. n = 2 ^ k"
    by blast
next
  assume "\<exists>k < 32. n = 2 ^ k"
  then obtain k where k: "k < 32" "n = 2 ^ k" by blast
  have "n - 1 = mask k"
    using k by (simp add: mask_eq_exp_minus_1)
  then have "n AND (n - 1) = take_bit k (2 ^ k)"
    using k by (simp add: take_bit_eq_mask)
  also have "\<dots> = 0"
    by (simp add: take_bit_eq_mod)
  finally show "is_power_of_2 n"
    using k by (simp add: is_power_of_2_def)
qed

section \<open>The indices modulo the size\<close>

definition fifo_wf :: "k_fifo \<Rightarrow> nat \<Rightarrow> bool" where
  "fifo_wf f k \<longleftrightarrow> 0 < k \<and> k < 32 \<and> f_mask f = mask k \<and> unat (f_in f - f_out f) \<le> 2 ^ k \<and>
     f_size f = 2 ^ k \<and> free_bytes f = 2 ^ k - (f_in f - f_out f)"

definition fifo_contents :: "memory \<Rightarrow> k_fifo \<Rightarrow> nat \<Rightarrow> byte list" where
  "fifo_contents mem f k =
     ring_get mem (f_data f) (2 ^ k) (unat (f_out f)) (unat (f_in f - f_out f))"

lemma unat_two_power:
  assumes "k < 32"
  shows "unat (2 ^ k :: 32 word) = 2 ^ k"
proof -
  have "(2 :: nat) ^ k < 2 ^ 32"
    using assms by (intro power_strict_increasing) auto
  then have "unat (of_nat (2 ^ k) :: 32 word) = 2 ^ k"
    unfolding unat_of_nat by (intro mod_less) simp
  then show ?thesis
    by simp
qed

lemma unat_and_mask: "unat (w AND mask k :: 32 word) = unat w mod 2 ^ k"
  by (simp add: take_bit_eq_mask [symmetric] unsigned_take_bit_eq) (simp add: take_bit_eq_mod)

lemma unat_add_mod_power:
  assumes "k \<le> 32"
  shows "unat (x + y :: 32 word) mod 2 ^ k = (unat x + unat y) mod 2 ^ k"
  using assms le_imp_power_dvd [of k 32 "2 :: nat"] by (simp add: unat_word_ariths mod_mod_cancel)

lemma fifo_in_offset:
  assumes "fifo_wf f k"
  shows "unat (f_in f) mod 2 ^ k = (unat (f_out f) + unat (f_in f - f_out f)) mod 2 ^ k"
  using assms unat_add_mod_power [of k "f_out f" "f_in f - f_out f"] by (simp add: fifo_wf_def)

lemma unat_fifo_min: "unat (fifo_min x y) = min (unat x) (unat y)"
  by (auto simp: fifo_min_def word_less_nat_alt)

lemma copy_len:
  assumes "k < 32" "off = w AND mask k" "l = fifo_min len (2 ^ k - off)"
  shows "unat off < 2 ^ k" "unat l = min (unat len) (2 ^ k - unat off)"
    "unat (len - l) = unat len - unat l"
proof -
  show o: "unat off < 2 ^ k"
    using assms by (simp add: unat_and_mask)
  then have "unat (2 ^ k - off) = 2 ^ k - unat off"
    using assms unat_two_power [of k] by (subst unat_sub) (auto simp: word_le_nat_alt)
  then show l: "unat l = min (unat len) (2 ^ k - unat off)"
    using assms unat_fifo_min by simp
  show "unat (len - l) = unat len - unat l"
    using l by (intro unat_sub) (simp add: word_le_nat_alt)
qed

section \<open>Reading and writing\<close>

lemma fifo_copy_in_contents:
  assumes wf: "fifo_wf f k" and fit: "unat (f_in f - f_out f) + unat len \<le> 2 ^ k"
  shows "ring_get (fifo_copy_in mem f src len (f_in f)) (f_data f) (2 ^ k) (unat (f_out f))
           (unat (f_in f - f_out f) + unat len)
         = fifo_contents mem f k @ map src [0..<unat len]"
proof -
  define u where "u = unat (f_in f - f_out f)"
  define off where "off = f_in f AND mask k"
  define l where "l = fifo_min len (2 ^ k - off)"
  have k: "k < 32" "0 < k" and m: "f_mask f = mask k" "f_mask f + 1 = 2 ^ k"
    using wf by (auto simp: fifo_wf_def mask_eq_exp_minus_1)
  note c = copy_len [OF k(1) off_def l_def]
  have off: "unat off = (unat (f_out f) + u) mod 2 ^ k"
    using fifo_in_offset [OF wf] by (simp add: off_def u_def unat_and_mask)
  let ?m1 = "memcpy mem (f_data f + unat off) src (unat l)"
  have 1: "ring_get ?m1 (f_data f) (2 ^ k) (unat (f_out f)) (u + unat l)
      = fifo_contents mem f k @ map src [0..<unat l]"
    unfolding fifo_contents_def u_def [symmetric]
    using c(1,2) fit by (intro ring_get_append_write) (auto simp: u_def [symmetric] off [symmetric])
  have ci: "fifo_copy_in mem f src len (f_in f)
      = memcpy ?m1 (f_data f + 0) (\<lambda>i. src (unat l + i)) (unat len - unat l)"
    unfolding fifo_copy_in_def Let_def m(1) l_def off_def
    using m c(3) by (simp add: mask_eq_exp_minus_1 l_def off_def)
  show ?thesis
  proof (cases "unat len = unat l")
    case True
    then show ?thesis
      using 1 ci by (simp add: u_def)
  next
    case False
    then have l: "unat l = 2 ^ k - unat off" "unat l \<le> unat len"
      using c by auto
    let ?m2 = "memcpy ?m1 (f_data f + 0) (\<lambda>i. src (unat l + i)) (unat len - unat l)"
    have "0 = (unat (f_out f) + (u + unat l)) mod 2 ^ k"
      using off l(1) c(1) mod_add_left_eq [of "unat (f_out f) + u" "2 ^ k" "unat l"]
      by (simp add: add.assoc)
    then have "ring_get ?m2 (f_data f) (2 ^ k) (unat (f_out f)) (u + unat l + (unat len - unat l))
        = ring_get ?m1 (f_data f) (2 ^ k) (unat (f_out f)) (u + unat l)
          @ map (\<lambda>i. src (unat l + i)) [0..<unat len - unat l]"
      using c l fit by (intro ring_get_append_write) (auto simp: u_def)
    moreover have "map src [0..<unat len]
        = map src [0..<unat l] @ map (\<lambda>i. src (unat l + i)) [0..<unat len - unat l]"
      using l(2) by (intro nth_equalityI) (auto simp: nth_append)
    ultimately show ?thesis
      using 1 l(2) ci by (simp add: u_def add.assoc)
  qed
qed

lemma kfifo_copy_out_contents:
  assumes wf: "fifo_wf f k" and fit: "unat len \<le> unat (f_in f - f_out f)"
  shows "kfifo_copy_out mem f len (f_out f) = take (unat len) (fifo_contents mem f k)"
proof -
  define off where "off = f_out f AND mask k"
  define l where "l = fifo_min len (2 ^ k - off)"
  define r where "r = unat len - unat l"
  have k: "k < 32" and m: "f_mask f = mask k" "f_mask f + 1 = 2 ^ k"
    and sz: "unat len \<le> 2 ^ k"
    using wf fit by (auto simp: fifo_wf_def mask_eq_exp_minus_1)
  note c = copy_len [OF k off_def l_def]
  have 1: "read_bytes mem (f_data f + unat off) (unat l)
      = ring_get mem (f_data f) (2 ^ k) (unat (f_out f)) (unat l)"
  proof -
    have "unat off + unat l \<le> 2 ^ k"
      using c(1,2) by simp
    then show ?thesis
      using read_bytes_ring_get [of "unat off" "unat l" "2 ^ k" mem "f_data f"]
      by (simp add: off_def unat_and_mask)
  qed
  have 2: "read_bytes mem (f_data f) r
      = ring_get mem (f_data f) (2 ^ k) (unat (f_out f) + unat l) r"
  proof (cases "r = 0")
    case False
    then have l: "unat l = 2 ^ k - unat off" 
      using c by (auto simp: r_def)
    then have "(unat (f_out f) + unat l) mod 2 ^ k = 0 mod 2 ^ k"
      using c(1) mod_add_left_eq [of "unat (f_out f)" "2 ^ k" "unat l"]
      by (simp add: off_def unat_and_mask)
    then show ?thesis
      using ring_get_cong_mod [of "unat (f_out f) + unat l" "2 ^ k" 0 mem "f_data f" r]
        read_bytes_ring_get [of 0 r "2 ^ k" mem "f_data f"] sz by (simp add: r_def)
  qed (simp add: read_bytes_def)
  have "kfifo_copy_out mem f len (f_out f)
      = ring_get mem (f_data f) (2 ^ k) (unat (f_out f)) (unat l + r)"
  proof -
    have "kfifo_copy_out mem f len (f_out f) = read_bytes mem (f_data f + unat off) (unat l) @
        read_bytes mem (f_data f) r"
      unfolding kfifo_copy_out_def Let_def m(1) r_def l_def off_def
      using m c(3) by (simp add: mask_eq_exp_minus_1 l_def off_def)
    then show ?thesis
      unfolding 1 2 ring_get_add .
  qed
  also have "unat l + r = unat len"
    using c by (simp add: r_def)
  finally show ?thesis
    using fit ring_get_add [of mem "f_data f" "2 ^ k" "unat (f_out f)" "unat len" "unat (f_in f - f_out f) - unat len"]
    by (simp add: fifo_contents_def)
qed

section \<open>The operations\<close>

lemma unat_fifo_unused:
  assumes "fifo_wf f k"
  shows "unat (fifo_unused f) = 2 ^ k - unat (f_in f - f_out f)"
  using assms unat_two_power [of k]
  by (simp add: fifo_wf_def fifo_unused_def mask_eq_exp_minus_1 unat_sub word_le_nat_alt)

lemma unat_add_small:
  "unat x + unat y \<le> 2 ^ k \<Longrightarrow> k < 32 \<Longrightarrow> unat (x + y :: 32 word) = unat x + unat y"
proof -
  assume a: "unat x + unat y \<le> 2 ^ k" "k < 32"
  then have "(2 :: nat) ^ k < 2 ^ 32"
    by (intro power_strict_increasing) auto
  then show ?thesis
    using a unat_word_ariths(1) [of x y] by simp
qed

lemma fifo_in_ok:
  assumes wf: "fifo_wf f k"
    and res: "fifo_in mem f src len = (n, mem', f')"
  shows "unat n = min (unat len) (2 ^ k - length (fifo_contents mem f k)) \<and> fifo_wf f' k \<and>
    fifo_contents mem' f' k = fifo_contents mem f k @ map src [0..<unat n]"
proof -
  have n: "n = (if len > fifo_unused f then fifo_unused f else len)"
    and m': "mem' = fifo_copy_in mem f src n (f_in f)"
    and f': "f' = f\<lparr>f_in := f_in f + n, free_bytes := free_bytes f - n\<rparr>"
    using res by (auto simp: fifo_in_def Let_def)
  have un: "unat n = min (unat len) (2 ^ k - unat (f_in f - f_out f))"
    using n unat_fifo_unused [OF wf] by (auto simp: word_less_nat_alt)
  then have fit: "unat (f_in f - f_out f) + unat n \<le> 2 ^ k"
    using wf by (auto simp: fifo_wf_def)
  have io: "f_in f' - f_out f' = (f_in f - f_out f) + n"
    using f' by simp
  have u: "unat (f_in f' - f_out f') = unat (f_in f - f_out f) + unat n"
    unfolding io using fit wf by (intro unat_add_small) (auto simp: fifo_wf_def)
  then have "fifo_wf f' k"
    using wf fit f' by (simp add: fifo_wf_def)
  moreover have "fifo_contents mem' f' k = fifo_contents mem f k @ map src [0..<unat n]"
    using fifo_copy_in_contents [OF wf fit, of mem src] u m' f' by (simp add: fifo_contents_def)
  ultimately show ?thesis
    using un by (simp add: fifo_contents_def)
qed

lemma internal_fifo_out_peek_ok:
  assumes wf: "fifo_wf f k"
    and res: "internal_fifo_out_peek mem f len = (n, out)"
  shows "unat n = min (unat len) (length (fifo_contents mem f k)) \<and>
    out = take (unat n) (fifo_contents mem f k)"
proof -
  have n: "n = (if len > f_in f - f_out f then f_in f - f_out f else len)"
    and o: "out = kfifo_copy_out mem f n (f_out f)"
    using res by (auto simp: internal_fifo_out_peek_def Let_def)
  have un: "unat n = min (unat len) (unat (f_in f - f_out f))"
    using n by (auto simp: word_less_nat_alt)
  then show ?thesis
    using o kfifo_copy_out_contents [OF wf, of n mem] by (simp add: fifo_contents_def)
qed

lemma fifo_advance:
  assumes wf: "fifo_wf f k" and n: "unat n \<le> unat (f_in f - f_out f)"
    and f': "f' = f\<lparr>f_out := f_out f + n, free_bytes := free_bytes f + n\<rparr>"
  shows "fifo_wf f' k" "fifo_contents mem f' k = drop (unat n) (fifo_contents mem f k)"
proof -
  have io: "f_in f' - f_out f' = (f_in f - f_out f) - n"
    using f' by simp
  have u: "unat (f_in f' - f_out f') = unat (f_in f - f_out f) - unat n"
    unfolding io using n by (intro unat_sub) (simp add: word_le_nat_alt)
  then show "fifo_wf f' k"
    using wf f' by (auto simp: fifo_wf_def)
  have "unat (f_out f + n) mod 2 ^ k = (unat (f_out f) + unat n) mod 2 ^ k"
    using wf by (intro unat_add_mod_power) (simp add: fifo_wf_def)
  then show "fifo_contents mem f' k = drop (unat n) (fifo_contents mem f k)"
    using u f' n ring_get_add [of mem "f_data f" "2 ^ k" "unat (f_out f)" "unat n" "unat (f_in f - f_out f) - unat n"]
      ring_get_cong_mod [of "unat (f_out f + n)" "2 ^ k" "unat (f_out f) + unat n" mem "f_data f"]
    by (simp add: fifo_contents_def)
qed

lemma fifo_out_ok:
  assumes wf: "fifo_wf f k" and res: "fifo_out mem f len = (n, out, f')"
  shows "unat n = min (unat len) (length (fifo_contents mem f k)) \<and> fifo_wf f' k \<and>
    fifo_contents mem f k = out @ fifo_contents mem f' k \<and> length out = unat n"
proof -
  obtain p: "internal_fifo_out_peek mem f len = (n, out)"
    and f': "f' = f\<lparr>f_out := f_out f + n, free_bytes := free_bytes f + n\<rparr>"
    using res by (auto simp: fifo_out_def split: prod.splits)
  note k = internal_fifo_out_peek_ok [OF wf p]
  then have "unat n \<le> unat (f_in f - f_out f)"
    by (simp add: fifo_contents_def)
  from fifo_advance [OF wf this f'] k show ?thesis
    by simp
qed

section \<open>The contract of a bounded byte stream\<close>

datatype stream_op = SWrite "byte list" | SRead "32 word" | SPeek "32 word" | SReadAll

datatype stream_res = Accepted nat | Bytes "byte list"

text \<open>Runs a sequence of operations on a store and collects the result of each.\<close>

fun stream_run :: "('s \<Rightarrow> byte list \<Rightarrow> nat \<times> 's) \<Rightarrow> ('s \<Rightarrow> 32 word \<Rightarrow> byte list \<times> 's)
    \<Rightarrow> ('s \<Rightarrow> 32 word \<Rightarrow> byte list) \<Rightarrow> ('s \<Rightarrow> byte list \<times> 's) \<Rightarrow> 's \<Rightarrow> stream_op list
    \<Rightarrow> stream_res list \<times> 's" where
  "stream_run wr rd pk ra s [] = ([], s)"
| "stream_run wr rd pk ra s (SWrite bs # ops) =
     (let r = wr s bs; rest = stream_run wr rd pk ra (snd r) ops
      in (Accepted (fst r) # fst rest, snd rest))"
| "stream_run wr rd pk ra s (SRead n # ops) =
     (let r = rd s n; rest = stream_run wr rd pk ra (snd r) ops
      in (Bytes (fst r) # fst rest, snd rest))"
| "stream_run wr rd pk ra s (SPeek n # ops) =
     (let rest = stream_run wr rd pk ra s ops in (Bytes (pk s n) # fst rest, snd rest))"
| "stream_run wr rd pk ra s (SReadAll # ops) =
     (let r = ra s; rest = stream_run wr rd pk ra (snd r) ops
      in (Bytes (fst r) # fst rest, snd rest))"

text \<open>The bounded queue of bytes the operations implement.\<close>

definition stream_write :: "nat \<Rightarrow> byte list \<Rightarrow> byte list \<Rightarrow> nat \<times> byte list" where
  "stream_write cap q bs = (let n = min (length bs) (cap - length q) in (n, q @ take n bs))"

definition stream_read :: "byte list \<Rightarrow> 32 word \<Rightarrow> byte list \<times> byte list" where
  "stream_read q n = (take (unat n) q, drop (unat n) q)"

definition stream_peek :: "byte list \<Rightarrow> 32 word \<Rightarrow> byte list" where
  "stream_peek q n = take (unat n) q"

definition stream_read_all :: "byte list \<Rightarrow> byte list \<times> byte list" where
  "stream_read_all q = (q, [])"

text \<open>The bytes a run took in, and those it handed out for good, each in order.\<close>

fun bytes_accepted :: "stream_op list \<Rightarrow> stream_res list \<Rightarrow> byte list" where
  "bytes_accepted (SWrite bs # ops) (Accepted n # rs) = take n bs @ bytes_accepted ops rs"
| "bytes_accepted (op # ops) (r # rs) = bytes_accepted ops rs"
| "bytes_accepted ops rs = []"

fun bytes_returned :: "stream_op list \<Rightarrow> stream_res list \<Rightarrow> byte list" where
  "bytes_returned (SRead n # ops) (Bytes bs # rs) = bs @ bytes_returned ops rs"
| "bytes_returned (SReadAll # ops) (Bytes bs # rs) = bs @ bytes_returned ops rs"
| "bytes_returned (op # ops) (r # rs) = bytes_returned ops rs"
| "bytes_returned ops rs = []"

lemmas stream_defs = stream_write_def stream_read_def stream_peek_def stream_read_all_def Let_def

lemma stream_order:
  "stream_run (stream_write cap) stream_read stream_peek stream_read_all q ops = (rs, q') \<Longrightarrow>
   q @ bytes_accepted ops rs = bytes_returned ops rs @ q'"
proof (induction ops arbitrary: q rs)
  case (Cons op ops)
  show ?case
  proof (cases op)
    case (SWrite bs)
    then show ?thesis
      using Cons.prems Cons.IH [of "snd (stream_write cap q bs)"] by (auto simp: stream_defs prod_eq_iff)
  next
    case (SRead n)
    then obtain rs' where "rs = Bytes (take (unat n) q) # rs'" and
      r: "stream_run (stream_write cap) stream_read stream_peek stream_read_all (drop (unat n) q) ops = (rs', q')"
      using Cons.prems by (auto simp: stream_read_def [of q n] Let_def prod_eq_iff)
    moreover have "q @ x = take (unat n) q @ drop (unat n) q @ x" for x
      by simp
    ultimately show ?thesis
      using Cons.IH [OF r] SRead by (metis append_assoc bytes_accepted.simps(2) bytes_returned.simps(1))
  next
    case (SPeek n)
    then show ?thesis
      using Cons.prems Cons.IH [of q] by (auto simp: stream_defs prod_eq_iff)
  next
    case SReadAll
    then show ?thesis
      using Cons.prems Cons.IH [of "[]"] by (auto simp: stream_defs prod_eq_iff)
  qed
qed auto

locale byte_stream =
  fixes rep :: "'s \<Rightarrow> byte list \<Rightarrow> bool"
    and cap :: nat
    and wr :: "'s \<Rightarrow> byte list \<Rightarrow> nat \<times> 's"
    and rd :: "'s \<Rightarrow> 32 word \<Rightarrow> byte list \<times> 's"
    and pk :: "'s \<Rightarrow> 32 word \<Rightarrow> byte list"
    and ra :: "'s \<Rightarrow> byte list \<times> 's"
  assumes write_law: "rep s q \<Longrightarrow> length bs < 2 ^ 32 \<Longrightarrow>
      fst (wr s bs) = fst (stream_write cap q bs) \<and> rep (snd (wr s bs)) (snd (stream_write cap q bs))"
    and read_law: "rep s q \<Longrightarrow>
      fst (rd s n) = fst (stream_read q n) \<and> rep (snd (rd s n)) (snd (stream_read q n))"
    and peek_law: "rep s q \<Longrightarrow> pk s n = stream_peek q n"
    and read_all_law: "rep s q \<Longrightarrow> fst (ra s) = q \<and> rep (snd (ra s)) []"
begin

lemma run_refines:
  assumes "rep s q" and "\<forall>bs. SWrite bs \<in> set ops \<longrightarrow> length bs < 2 ^ 32"
    and "stream_run wr rd pk ra s ops = (rs, s')"
  shows "\<exists>q'. stream_run (stream_write cap) stream_read stream_peek stream_read_all q ops = (rs, q') \<and>
    rep s' q'"
  using assms
proof (induction ops arbitrary: s q rs)
  case (Cons op ops)
  have fits: "\<forall>bs. SWrite bs \<in> set ops \<longrightarrow> length bs < 2 ^ 32"
    using Cons.prems(2) by simp
  obtain rs' where rs': "rs = hd rs # rs'"
    using Cons.prems(3) by (cases op) (auto simp: Let_def)
  show ?case
  proof (cases op)
    case (SWrite bs)
    then show ?thesis
      using Cons.IH [OF _ fits, of "snd (wr s bs)" "snd (stream_write cap q bs)" rs'] Cons.prems rs'
        write_law [OF Cons.prems(1), of bs]
      by (auto simp: Let_def prod_eq_iff)
  next
    case (SRead n)
    then show ?thesis
      using Cons.IH [OF _ fits, of "snd (rd s n)" "snd (stream_read q n)" rs'] Cons.prems rs'
        read_law [OF Cons.prems(1), of n]
      by (auto simp: Let_def prod_eq_iff)
  next
    case (SPeek n)
    then show ?thesis
      using Cons.IH [OF _ fits, of s q rs'] Cons.prems rs' peek_law [OF Cons.prems(1), of n]
      by (auto simp: Let_def prod_eq_iff)
  next
    case SReadAll
    then show ?thesis
      using Cons.IH [OF _ fits, of "snd (ra s)" "[]" rs'] Cons.prems rs' read_all_law [OF Cons.prems(1)]
      by (auto simp: Let_def prod_eq_iff stream_read_all_def)
  qed
qed auto

end

text \<open>The calls of \<^verbatim>\<open>k_fifo.c\<close> as operations of such a stream: the caller's buffer as the list of its
  bytes, and the bytes handed out as the result.\<close>

definition fifo_rep :: "nat \<Rightarrow> memory \<times> k_fifo \<Rightarrow> byte list \<Rightarrow> bool" where
  "fifo_rep k st q \<longleftrightarrow> fifo_wf (snd st) k \<and> fifo_contents (fst st) (snd st) k = q"

definition fifo_write :: "memory \<times> k_fifo \<Rightarrow> byte list \<Rightarrow> nat \<times> memory \<times> k_fifo" where
  "fifo_write st bs =
     (case fifo_in (fst st) (snd st) (\<lambda>i. bs ! i) (of_nat (length bs)) of (n, st') \<Rightarrow> (unat n, st'))"

definition fifo_read :: "memory \<times> k_fifo \<Rightarrow> 32 word \<Rightarrow> byte list \<times> memory \<times> k_fifo" where
  "fifo_read st len = (case fifo_out (fst st) (snd st) len of (n, out, f') \<Rightarrow> (take (unat n) out, fst st, f'))"

definition fifo_peek :: "memory \<times> k_fifo \<Rightarrow> 32 word \<Rightarrow> byte list" where
  "fifo_peek st len = (case fifo_out_peek (fst st) (snd st) len of (n, out) \<Rightarrow> take (unat n) out)"

definition fifo_read_all :: "memory \<times> k_fifo \<Rightarrow> byte list \<times> memory \<times> k_fifo" where
  "fifo_read_all st = (case fifo_out_all (fst st) (snd st) of (n, out, f') \<Rightarrow> (take (unat n) out, fst st, f'))"

lemma fifo_init_ok:
  assumes "fifo_init f0 buf sz = (0, f)"
  shows "\<exists>k. fifo_wf f k \<and> unat sz = 2 ^ k \<and> fifo_contents mem f k = []"
proof -
  have p: "is_power_of_2 sz" "\<not> sz < 2" and f: "f = f0\<lparr>f_in := 0, f_out := 0, f_data := buf,
      f_mask := sz - 1, free_bytes := sz, f_size := sz\<rparr>"
    using assms by (auto simp: fifo_init_def Let_def split: if_splits)
  then obtain k where k: "k < 32" "sz = 2 ^ k"
    using is_power_of_2_iff by blast
  moreover have "0 < k"
    using p(2) k by (cases k) auto
  ultimately show ?thesis
    using f unat_two_power [of k] by (auto simp: fifo_wf_def fifo_contents_def mask_eq_exp_minus_1)
qed

text \<open>\<open>fifo_out_all\<close> empties the queue.\<close>

lemma fifo_out_all_ok:
  assumes wf: "fifo_wf f k" and res: "fifo_out_all mem f = (n, out, f')"
  shows "out = fifo_contents mem f k \<and> unat n = length out \<and> fifo_wf f' k \<and>
    fifo_contents mem f' k = []"
proof -
  have len: "f_size f - free_bytes f = f_in f - f_out f"
    using wf by (simp add: fifo_wf_def)
  show ?thesis
  proof (cases "f_in f - f_out f = 0")
    case True
    then show ?thesis
      using res len wf by (auto simp: fifo_out_all_def fifo_contents_def)
  next
    case False
    then have "fifo_out mem f (f_in f - f_out f) = (n, out, f')"
      using res len by (simp add: fifo_out_all_def fifo_out_def)
    note r = fifo_out_ok [OF wf this]
    have "length (fifo_contents mem f k) = length out + length (fifo_contents mem f' k)"
      using r by (metis length_append)
    moreover have "length (fifo_contents mem f k) = unat (f_in f - f_out f)"
      by (simp add: fifo_contents_def)
    ultimately have "fifo_contents mem f' k = []"
      using r by (metis add_diff_cancel_left' diff_self_eq_0 length_0_conv min.idem)
    then show ?thesis
      using r by (metis append_Nil2)
  qed
qed

lemma fifo_write_ok:
  assumes "fifo_rep k st q" and len: "length bs < 2 ^ 32"
  shows "fst (fifo_write st bs) = fst (stream_write (2 ^ k) q bs) \<and>
    fifo_rep k (snd (fifo_write st bs)) (snd (stream_write (2 ^ k) q bs))"
proof -
  obtain n mem' f' where r: "fifo_in (fst st) (snd st) (\<lambda>i. bs ! i) (of_nat (length bs)) = (n, mem', f')"
    using prod_cases3 by blast
  have "unat (of_nat (length bs) :: 32 word) = length bs"
    using len by (simp add: unsigned_of_nat take_bit_nat_eq_self_iff)
  moreover have "map ((!) bs) [0..<m] = take m bs" if "m \<le> length bs" for m
    using that by (simp add: list_eq_iff_nth_eq)
  ultimately show ?thesis
    using assms fifo_in_ok [OF _ r, of k] r by (simp add: fifo_rep_def fifo_write_def stream_defs)
qed

lemma take_min_length: "take (min n (length xs)) xs = take n xs"
  by (simp add: min_def)

lemma drop_min_length: "drop (min n (length xs)) xs = drop n xs"
  by (simp add: min_def)

lemma fifo_read_ok:
  assumes "fifo_rep k st q"
  shows "fst (fifo_read st len) = fst (stream_read q len) \<and>
    fifo_rep k (snd (fifo_read st len)) (snd (stream_read q len))"
proof -
  obtain n out f' where r: "fifo_out (fst st) (snd st) len = (n, out, f')"
    using prod_cases3 by blast
  have k: "q = out @ fifo_contents (fst st) f' k" "length out = min (unat len) (length q)"
    "unat n = length out" "fifo_wf f' k"
    using assms fifo_out_ok [OF _ r, of k] unfolding fifo_rep_def by metis+
  have t: "take (unat len) q = take (length out) q" "drop (unat len) q = drop (length out) q"
    unfolding k(2) by (simp_all add: take_min_length drop_min_length)
  show ?thesis
    unfolding stream_read_def fst_conv snd_conv t
    using k(1,3,4) r by (simp add: fifo_rep_def fifo_read_def)
qed

lemma fifo_peek_ok:
  assumes "fifo_rep k st q"
  shows "fifo_peek st len = stream_peek q len"
proof -
  obtain n out where p: "internal_fifo_out_peek (fst st) (snd st) len = (n, out)"
    by fastforce
  then show ?thesis
    using assms internal_fifo_out_peek_ok [OF _ p, of k]
    by (auto simp: fifo_rep_def fifo_peek_def fifo_out_peek_def stream_defs take_min_length)
qed

lemma fifo_read_all_ok:
  assumes "fifo_rep k st q"
  shows "fst (fifo_read_all st) = q \<and> fifo_rep k (snd (fifo_read_all st)) []"
proof -
  obtain n out f' where r: "fifo_out_all (fst st) (snd st) = (n, out, f')"
    using prod_cases3 by blast
  then show ?thesis
    using assms fifo_out_all_ok [OF _ r, of k] by (simp add: fifo_rep_def fifo_read_all_def)
qed

interpretation bytes: byte_stream "fifo_rep k" "2 ^ k" fifo_write fifo_read fifo_peek fifo_read_all for k
  using fifo_write_ok fifo_read_ok fifo_peek_ok fifo_read_all_ok by unfold_locales blast+

text \<open>
  C34. On a freshly initialised FIFO every sequence of writes, reads, peeks and drains of any
  lengths gives, result by result, what a bounded queue of bytes of the buffer's size gives: a
  write takes the longest prefix that fits, a read hands out the oldest bytes, a peek only looks.
  The bytes accepted are the bytes handed out followed by those still held, in order, and
  \<open>fifo_out_all\<close> then returns exactly the latter. A write is of fewer than \<open>2 ^ 32\<close> bytes,
  the range of its length parameter.
\<close>

theorem fifo_byte_order:
  assumes "fifo_init f0 buf sz = (0, f)"
    and "\<forall>bs. SWrite bs \<in> set ops \<longrightarrow> length bs < 2 ^ 32"
    and "stream_run fifo_write fifo_read fifo_peek fifo_read_all (mem, f) ops = (rs, mem', f')"
  shows "\<exists>rest. stream_run (stream_write (unat sz)) stream_read stream_peek stream_read_all [] ops
      = (rs, rest) \<and>
    bytes_accepted ops rs = bytes_returned ops rs @ rest \<and>
    fst (snd (fifo_out_all mem' f')) = rest"
proof -
  obtain k where k: "fifo_rep k (mem, f) []" "unat sz = 2 ^ k"
    using fifo_init_ok [OF assms(1)] by (auto simp: fifo_rep_def)
  obtain rest where r: "stream_run (stream_write (2 ^ k)) stream_read stream_peek stream_read_all [] ops
      = (rs, rest)" and rep: "fifo_rep k (mem', f') rest"
    using bytes.run_refines [OF k(1) assms(2,3)] by blast
  obtain n out f2 where "fifo_out_all mem' f' = (n, out, f2)"
    using prod_cases3 by blast
  then have "fst (snd (fifo_out_all mem' f')) = rest"
    using fifo_out_all_ok [of f' k mem' n out f2] rep by (simp add: fifo_rep_def)
  then show ?thesis
    using r stream_order [OF r] k(2) by simp
qed

text \<open>A FIFO of four bytes: five are offered and four taken, three read, three more written across
  the end of the buffer, and the rest drained in two reads.\<close>

theorem fifo_byte_order_witness:
  "\<exists>f mem' f'.
     fifo_init \<lparr>f_in = 9, f_out = 9, f_mask = 9, f_data = 0, free_bytes = 9, f_size = 9\<rparr> 0 4 = (0, f) \<and>
     stream_run fifo_write fifo_read fifo_peek fifo_read_all (\<lambda>a. 0, f)
       [SWrite [1, 2, 3, 4, 5], SRead 3, SWrite [6, 7, 8], SRead 2] =
       ([Accepted 4, Bytes [1, 2, 3], Accepted 3, Bytes [4, 6]], mem', f') \<and>
     fst (snd (fifo_out_all mem' f')) = [7, 8]"
proof -
  let ?f0 = "\<lparr>f_in = 9, f_out = 9, f_mask = 9, f_data = 0, free_bytes = 9, f_size = 9\<rparr> :: k_fifo"
  let ?ops = "[SWrite [1, 2, 3, 4, 5], SRead 3, SWrite [6, 7, 8], SRead 2]"
  have "is_power_of_2 4"
    by (simp add: is_power_of_2_def)
  then obtain f where i: "fifo_init ?f0 0 4 = (0, f)"
    by (simp add: fifo_init_def)
  obtain rs mem' f' where r: "stream_run fifo_write fifo_read fifo_peek fifo_read_all (\<lambda>a. 0, f) ?ops
      = (rs, mem', f')"
    using prod_cases3 by blast
  have fit: "\<forall>bs. SWrite bs \<in> set ?ops \<longrightarrow> length bs < 2 ^ 32"
    by simp
  have "stream_run (stream_write 4) stream_read stream_peek stream_read_all [] ?ops
      = ([Accepted 4, Bytes [1, 2, 3], Accepted 3, Bytes [4, 6]], [7, 8])"
    by (simp add: stream_defs)
  then show ?thesis
    using fifo_byte_order [OF i fit r] i r by auto
qed

text \<open>
  \<open>fifo_in\<close> appends exactly the longest prefix of the caller's bytes that fits and
  returns its length; the indices may have wrapped around any number of times.
\<close>

theorem fifo_in_appends:
  assumes "fifo_wf f k" and "fifo_in mem f src len = (n, mem', f')"
  shows "unat n = min (unat len) (2 ^ k - length (fifo_contents mem f k)) \<and> fifo_wf f' k \<and>
    fifo_contents mem' f' k = fifo_contents mem f k @ map src [0..<unat n]"
  using fifo_in_ok [OF assms] .

theorem fifo_in_appends_witness:
  "\<exists>n mem' f'. fifo_in (\<lambda>a. 0) \<lparr>f_in = 0xffffffff, f_out = 0xffffffff, f_mask = 3, f_data = 0,
       free_bytes = 4, f_size = 4\<rparr> (\<lambda>i. of_nat i) 6 = (n, mem', f') \<and>
     unat n = 4 \<and> fifo_contents mem' f' 2 = [0, 1, 2, 3]"
proof -
  let ?f = "\<lparr>f_in = 0xffffffff, f_out = 0xffffffff, f_mask = 3, f_data = 0,
       free_bytes = 4, f_size = 4\<rparr> :: k_fifo"
  obtain n mem' f' where r: "fifo_in (\<lambda>a. 0) ?f (\<lambda>i. of_nat i) 6 = (n, mem', f')"
    using prod_cases3 by blast
  have w: "fifo_wf ?f 2"
    by (simp add: fifo_wf_def mask_eq_exp_minus_1)
  have "unat n = 4 \<and> fifo_contents mem' f' 2 = map of_nat [0..<unat n]"
    using fifo_in_appends [OF w r] by (simp add: fifo_contents_def)
  moreover have "map of_nat [0..<4] = [0, 1, 2, 3 :: byte]"
    by (simp add: upt_rec)
  ultimately show ?thesis
    using r by simp
qed

text \<open>
  \<open>fifo_out\<close> removes the oldest bytes, as many as asked for and available, and returns
  them in order.
\<close>

theorem fifo_out_removes:
  assumes "fifo_wf f k" and "fifo_out mem f len = (n, out, f')"
  shows "unat n = min (unat len) (length (fifo_contents mem f k)) \<and> fifo_wf f' k \<and>
    fifo_contents mem f k = out @ fifo_contents mem f' k \<and> length out = unat n"
  using fifo_out_ok [OF assms] .

theorem fifo_out_removes_witness:
  "\<exists>n out f'. fifo_out (\<lambda>a. of_nat a) \<lparr>f_in = 1, f_out = 0xffffffff, f_mask = 3, f_data = 0,
       free_bytes = 2, f_size = 4\<rparr> 1 = (n, out, f') \<and> unat n = 1 \<and> length out = 1"
proof -
  let ?f = "\<lparr>f_in = 1, f_out = 0xffffffff, f_mask = 3, f_data = 0,
       free_bytes = 2, f_size = 4\<rparr> :: k_fifo"
  obtain n out f' where r: "fifo_out (\<lambda>a. of_nat a) ?f 1 = (n, out, f')"
    using prod_cases3 by blast
  have w: "fifo_wf ?f 2"
    by (simp add: fifo_wf_def mask_eq_exp_minus_1)
  show ?thesis
    using fifo_out_removes [OF w r] r by (simp add: fifo_contents_def)
qed

end
