(* ===== verification/RingBuf.thy ===== *)
theory RingBuf
  imports Ring
begin

unbundle bit_operations_syntax

text \<open>
  The ring buffer of \<^verbatim>\<open>k_ringbuf.c\<close>: fixed-size blocks, or messages of varying length
  behind a length header of one to three bytes. Pointers and sizes are natural numbers,
  the memory is a function from addresses to bytes, and the source of a copy is the function
  giving the bytes found at the source pointer. The theorems: the header code is a round
  trip, and push and pop implement a FIFO queue of messages for both buffer types. The kernel
  itself calls the unguarded \<open>ringbuf_push\<close> and \<open>ringbuf_pop\<close>; the guarded \<open>krhino_ringbuf_\<close> functions around
  them are the vendor's interface, compiled in only with \<^verbatim>\<open>RHINO_CONFIG_RINGBUF_VENDOR\<close>.
\<close>

section \<open>The length header\<close>

definition krhino_ntohl :: "32 word \<Rightarrow> 32 word" where
  "krhino_ntohl x = push_bit 24 (x AND 0x000000ff) OR push_bit 8 (x AND 0x0000ff00) OR
     drop_bit 8 (x AND 0x00ff0000) OR drop_bit 24 (x AND 0xff000000)"

text \<open>The bytes of a 32-bit variable as they lie in little-endian memory.\<close>

definition le_byte :: "32 word \<Rightarrow> nat \<Rightarrow> byte" where
  "le_byte w i = ucast (drop_bit (8 * i) w)"

definition le_word :: "byte list \<Rightarrow> 32 word" where
  "le_word bs = ucast (bs ! 0) OR push_bit 8 (ucast (bs ! 1)) OR
     push_bit 16 (ucast (bs ! 2)) OR push_bit 24 (ucast (bs ! 3))"

definition COMPRESS_LEN :: "nat \<Rightarrow> nat" where
  "COMPRESS_LEN x = (if x \<le> 0x7f then 1 else if x \<le> 0x3fff then 2
     else if x \<le> 0x3fffff then 3 else 5)"

definition ringbuf_headlen_compress :: "nat \<Rightarrow> nat \<times> byte list" where
  "ringbuf_headlen_compress head_len =
     (let p_len = le_byte (krhino_ntohl (of_nat head_len));
          len_bytes = COMPRESS_LEN head_len
      in (len_bytes,
          if len_bytes = 1 then [0x7f AND p_len 3, 0, 0]
          else if len_bytes = 2 then [0x80 OR p_len 2, p_len 3, 0]
          else if len_bytes = 3 then [0xC0 OR p_len 1, p_len 2, p_len 3]
          else [0, 0, 0]))"

definition ringbuf_headlen_decompress :: "nat \<Rightarrow> byte list \<Rightarrow> nat" where
  "ringbuf_headlen_decompress buf_len cmp_buf =
     (let len_buf = replicate (4 - buf_len) 0 @ take buf_len cmp_buf;
          len_buf = (if buf_len > 1
            then len_buf[4 - buf_len := (len_buf ! (4 - buf_len)) AND 0x3f] else len_buf)
      in unat (krhino_ntohl (le_word len_buf)))"

section \<open>The ring buffer\<close>

datatype ringbuf_type = RINGBUF_TYPE_FIX | RINGBUF_TYPE_DYN

record k_ringbuf =
  rb_buf :: nat
  rb_end :: nat
  rb_head :: nat
  rb_tail :: nat
  freesize :: nat
  rb_type :: ringbuf_type
  rb_blk_size :: nat

definition ringbuf_reset :: "k_ringbuf \<Rightarrow> k_ringbuf" where
  "ringbuf_reset rb =
     rb\<lparr>rb_head := rb_buf rb, rb_tail := rb_buf rb, freesize := rb_end rb - rb_buf rb\<rparr>"

definition ringbuf_init :: "k_ringbuf \<Rightarrow> nat \<Rightarrow> nat \<Rightarrow> ringbuf_type \<Rightarrow> nat \<Rightarrow> k_ringbuf" where
  "ringbuf_init rb buf len type block_size =
     ringbuf_reset (rb\<lparr>rb_type := type, rb_buf := buf, rb_end := buf + len,
       rb_blk_size := block_size\<rparr>)"

definition ringbuf_is_full :: "k_ringbuf \<Rightarrow> bool" where
  "ringbuf_is_full rb \<longleftrightarrow>
     (rb_type rb = RINGBUF_TYPE_DYN \<and> freesize rb < 2) \<or>
     (rb_type rb = RINGBUF_TYPE_FIX \<and> freesize rb < rb_blk_size rb)"

definition ringbuf_is_empty :: "k_ringbuf \<Rightarrow> bool" where
  "ringbuf_is_empty rb \<longleftrightarrow> freesize rb = rb_end rb - rb_buf rb"

definition wrap_tail :: "k_ringbuf \<Rightarrow> k_ringbuf" where
  "wrap_tail rb = (if rb_tail rb = rb_end rb then rb\<lparr>rb_tail := rb_buf rb\<rparr> else rb)"

definition wrap_head :: "k_ringbuf \<Rightarrow> k_ringbuf" where
  "wrap_head rb = (if rb_head rb = rb_end rb then rb\<lparr>rb_head := rb_buf rb\<rparr> else rb)"

text \<open>
  The two copies of the dynamic branch of \<open>ringbuf_push\<close> (lines 94 to 109 for the header,
  112 to 130 for the data) are the same code over different sources: split at the end of the
  buffer when the tail is at or behind the head and the run does not fit, then copy the rest.
\<close>

definition push_copy :: "memory \<Rightarrow> k_ringbuf \<Rightarrow> (nat \<Rightarrow> byte) \<Rightarrow> nat \<Rightarrow> memory \<times> k_ringbuf" where
  "push_copy mem rb src n =
     (let split_len = rb_end rb - rb_tail rb in
      if rb_tail rb \<ge> rb_head rb \<and> split_len < n \<and> split_len > 0
      then (let mem1 = memcpy mem (rb_tail rb) src split_len;
                rb1 = rb\<lparr>rb_tail := rb_buf rb, freesize := freesize rb - split_len\<rparr>;
                rest = n - split_len
            in (memcpy mem1 (rb_tail rb1) (\<lambda>i. src (split_len + i)) rest,
                rb1\<lparr>rb_tail := rb_tail rb1 + rest, freesize := freesize rb1 - rest\<rparr>))
      else (memcpy mem (rb_tail rb) src n,
            rb\<lparr>rb_tail := rb_tail rb + n, freesize := freesize rb - n\<rparr>))"

definition ringbuf_push ::
  "memory \<Rightarrow> k_ringbuf \<Rightarrow> (nat \<Rightarrow> byte) \<Rightarrow> nat \<Rightarrow> kstat \<times> memory \<times> k_ringbuf" where
  "ringbuf_push mem rb data len =
     (if ringbuf_is_full rb then (RHINO_RINGBUF_FULL, mem, rb)
      else if rb_type rb = RINGBUF_TYPE_FIX
      then (let rb1 = wrap_tail rb
            in (RHINO_SUCCESS, memcpy mem (rb_tail rb1) data (rb_blk_size rb1),
                rb1\<lparr>rb_tail := rb_tail rb1 + rb_blk_size rb1,
                     freesize := freesize rb1 - rb_blk_size rb1\<rparr>))
      else (let hc = ringbuf_headlen_compress len;
                len_bytes = fst hc;
                c_len = snd hc
            in if len_bytes = 0 \<or> len_bytes > 3 then (RHINO_INV_PARAM, mem, rb)
               else if freesize rb < len_bytes + len then (RHINO_RINGBUF_FULL, mem, rb)
               else (let m1 = push_copy mem (wrap_tail rb) (\<lambda>i. c_len ! i) len_bytes;
                         m2 = push_copy (fst m1) (wrap_tail (snd m1)) data len
                     in (RHINO_SUCCESS, fst m2, snd m2))))"

text \<open>
  Reading the header (lines 184 to 199) splits at the end of the buffer whenever the run
  does not fit; reading the data (207 to 218) only when the head is beyond the tail.
\<close>

definition pop_copy :: "memory \<Rightarrow> k_ringbuf \<Rightarrow> bool \<Rightarrow> nat \<Rightarrow> byte list \<times> k_ringbuf" where
  "pop_copy mem rb may_split n =
     (let split_len = rb_end rb - rb_head rb in
      if may_split \<and> split_len < n
      then (let out1 = read_bytes mem (rb_head rb) split_len;
                rb1 = rb\<lparr>rb_head := rb_buf rb, freesize := freesize rb + split_len\<rparr>;
                rest = n - split_len
            in (out1 @ read_bytes mem (rb_head rb1) rest,
                rb1\<lparr>rb_head := rb_head rb1 + rest, freesize := freesize rb1 + rest\<rparr>))
      else (read_bytes mem (rb_head rb) n,
            rb\<lparr>rb_head := rb_head rb + n, freesize := freesize rb + n\<rparr>))"

text \<open>\<open>ringbuf_pop\<close> returns the status, the bytes stored at \<open>pdata\<close> (their number is
  what \<open>*plen\<close> receives), and the buffer.\<close>

definition ringbuf_pop :: "memory \<Rightarrow> k_ringbuf \<Rightarrow> kstat \<times> byte list \<times> k_ringbuf" where
  "ringbuf_pop mem rb =
     (if ringbuf_is_empty rb then (RHINO_RINGBUF_EMPTY, [], rb)
      else if rb_type rb = RINGBUF_TYPE_FIX
      then (let rb1 = wrap_head rb
            in (RHINO_SUCCESS, read_bytes mem (rb_head rb1) (rb_blk_size rb1),
                rb1\<lparr>rb_head := rb_head rb1 + rb_blk_size rb1,
                     freesize := freesize rb1 + rb_blk_size rb1\<rparr>))
      else (let rb1 = wrap_head rb;
                b = mem (rb_head rb1);
                len_bytes = (if b AND 0x80 = 0 then 1 else if b AND 0xC0 = 0x80 then 2
                             else if b AND 0xC0 = 0xC0 then 3 else 0)
            in if len_bytes = 0 then (RHINO_INV_PARAM, [], rb1)
               else (let c = pop_copy mem rb1 (rb_end rb1 - rb_head rb1 > 0) len_bytes;
                         len = ringbuf_headlen_decompress len_bytes (fst c);
                         rb2 = wrap_head (snd c);
                         d = pop_copy mem rb2 (rb_head rb2 > rb_tail rb2) len
                     in (RHINO_SUCCESS, fst d, snd d))))"

section \<open>The guarded interface\<close>

text \<open>A pointer argument is an option, NULL is \<open>None\<close>.\<close>

definition ringbuf_type_of :: "nat \<Rightarrow> ringbuf_type option" where
  "ringbuf_type_of type = (if type = 0 then Some RINGBUF_TYPE_FIX
     else if type = 1 then Some RINGBUF_TYPE_DYN else None)"

definition krhino_ringbuf_init ::
  "k_ringbuf option \<Rightarrow> nat option \<Rightarrow> nat \<Rightarrow> nat \<Rightarrow> nat \<Rightarrow> kstat \<times> k_ringbuf option" where
  "krhino_ringbuf_init p_ringbuf buf len type block_size =
     (case (p_ringbuf, buf) of
        (Some rb, Some b) \<Rightarrow>
          (if len = 0 then (RHINO_INV_PARAM, p_ringbuf)
           else (case ringbuf_type_of type of
                   None \<Rightarrow> (RHINO_INV_PARAM, p_ringbuf)
                 | Some ty \<Rightarrow>
                     if ty = RINGBUF_TYPE_FIX \<and> (len = 0 \<or> block_size = 0 \<or> len mod block_size \<noteq> 0)
                     then (RHINO_INV_PARAM, p_ringbuf)
                     else (RHINO_SUCCESS, Some (ringbuf_init rb b len ty block_size))))
      | _ \<Rightarrow> (RHINO_NULL_PTR, p_ringbuf))"

definition krhino_ringbuf_reset :: "k_ringbuf option \<Rightarrow> kstat \<times> k_ringbuf option" where
  "krhino_ringbuf_reset p_ringbuf =
     (case p_ringbuf of None \<Rightarrow> (RHINO_NULL_PTR, None)
      | Some rb \<Rightarrow> (RHINO_SUCCESS, Some (ringbuf_reset rb)))"

definition krhino_ringbuf_push ::
  "memory \<Rightarrow> k_ringbuf option \<Rightarrow> (nat \<Rightarrow> byte) option \<Rightarrow> nat \<Rightarrow> kstat \<times> memory \<times> k_ringbuf option" where
  "krhino_ringbuf_push mem p_ringbuf data len =
     (case (p_ringbuf, data) of
        (Some rb, Some src) \<Rightarrow>
          (if len \<le> 0 \<or> len > 0x3fffff \<or> (rb_type rb = RINGBUF_TYPE_FIX \<and> len \<noteq> rb_blk_size rb)
           then (RHINO_INV_PARAM, mem, p_ringbuf)
           else (case ringbuf_push mem rb src len of (err, mem', rb') \<Rightarrow> (err, mem', Some rb')))
      | _ \<Rightarrow> (RHINO_NULL_PTR, mem, p_ringbuf))"

definition krhino_ringbuf_pop ::
  "memory \<Rightarrow> k_ringbuf option \<Rightarrow> bool \<Rightarrow> bool \<Rightarrow> kstat \<times> byte list \<times> k_ringbuf option" where
  "krhino_ringbuf_pop mem p_ringbuf pdata_null plen_null =
     (case p_ringbuf of
        None \<Rightarrow> (RHINO_NULL_PTR, [], None)
      | Some rb \<Rightarrow>
          (if pdata_null then (RHINO_NULL_PTR, [], p_ringbuf)
           else if rb_type rb = RINGBUF_TYPE_DYN \<and> plen_null then (RHINO_INV_PARAM, [], p_ringbuf)
           else (case ringbuf_pop mem rb of (err, out, rb') \<Rightarrow> (err, out, Some rb'))))"

section \<open>The header code is a round trip\<close>

lemma bit_byte_high [simp]: "8 \<le> n \<Longrightarrow> \<not> bit (b :: byte) n"
  using bit_imp_le_length [of b n] by auto

lemma le_byte_ntohl:
  "le_byte (krhino_ntohl x) 3 = le_byte x 0" "le_byte (krhino_ntohl x) 2 = le_byte x 1"
  "le_byte (krhino_ntohl x) 1 = le_byte x 2" "le_byte (krhino_ntohl x) 0 = le_byte x 3"
  unfolding le_byte_def krhino_ntohl_def
  by (rule bit_word_eqI; simp add: bit_simps; auto simp: less_Suc_eq numeral_eq_Suc)+

lemma bit_le_byte [simp]: "bit (le_byte x i) n \<longleftrightarrow> n < 8 \<and> bit x (8 * i + n)"
  by (auto simp: le_byte_def bit_simps)

lemma word_eq_by_bytes:
  assumes "le_byte x 0 = le_byte y 0" "le_byte x 1 = le_byte y 1"
    "le_byte x 2 = le_byte y 2" "le_byte x 3 = le_byte y 3"
  shows "x = y"
proof (rule bit_word_eqI)
  fix n assume "n < LENGTH(32)"
  then have i: "n div 8 \<in> {0, 1, 2, 3}" by (simp, presburger)
  have "bit w n \<longleftrightarrow> bit (le_byte w (n div 8)) (n mod 8)" for w :: "32 word"
    by simp
  moreover have "le_byte x (n div 8) = le_byte y (n div 8)"
    using assms i by auto
  ultimately show "bit x n = bit y n"
    by metis
qed

lemma le_byte_le_word [simp]:
  "le_byte (le_word [a, b, c, d]) 0 = a" "le_byte (le_word [a, b, c, d]) 1 = b"
  "le_byte (le_word [a, b, c, d]) (Suc 0) = b"
  "le_byte (le_word [a, b, c, d]) 2 = c" "le_byte (le_word [a, b, c, d]) 3 = d"
  by (rule bit_word_eqI; auto simp: le_word_def bit_simps)+

lemma ntohl_le_word: "krhino_ntohl (le_word [a, b, c, d]) = le_word [d, c, b, a]"
  by (rule word_eq_by_bytes) (simp_all add: le_byte_ntohl le_byte_ntohl [simplified])

lemma bit_numeral_byte:
  "bit (0x7f :: int) n \<longleftrightarrow> n < 7" "bit (0x3f :: int) n \<longleftrightarrow> n < 6"
  "bit (0x80 :: int) n \<longleftrightarrow> n = 7" "bit (0xC0 :: int) n \<longleftrightarrow> n = 6 \<or> n = 7"
proof -
  have eqs: "(0x7f :: int) = mask 7" "(0x3f :: int) = mask 6" "(0x80 :: int) = 2 ^ 7"
    "(0xC0 :: int) = 2 ^ 6 OR 2 ^ 7"
    by (simp_all add: mask_eq_exp_minus_1)
  have two: "bit (2 ^ k :: int) n \<longleftrightarrow> n = k" for k
    by (auto simp: bit_exp_iff)
  show "bit (0x7f :: int) n \<longleftrightarrow> n < 7" "bit (0x3f :: int) n \<longleftrightarrow> n < 6"
    "bit (0x80 :: int) n \<longleftrightarrow> n = 7" "bit (0xC0 :: int) n \<longleftrightarrow> n = 6 \<or> n = 7"
    unfolding eqs by (auto simp only: two bit_mask_iff bit_or_iff) simp_all
qed

lemma le_word_header:
  "le_word [0x7f AND le_byte x 0, 0, 0, 0] = take_bit 7 x"
  "le_word [le_byte x 0, (0x80 OR le_byte x 1) AND 0x3f, 0, 0] = take_bit 14 x"
  "le_word [le_byte x 0, le_byte x 1, (0xC0 OR le_byte x 2) AND 0x3f, 0] = take_bit 22 x"
  by (rule word_eq_by_bytes; simp; rule bit_word_eqI; auto simp: bit_simps bit_numeral_byte)+

definition hdr :: "nat \<Rightarrow> byte list" where
  "hdr n = take (COMPRESS_LEN n) (snd (ringbuf_headlen_compress n))"

lemma unat_take_bit_of_nat:
  "n < 2 ^ k \<Longrightarrow> k \<le> 32 \<Longrightarrow> unat (take_bit k (of_nat n :: 32 word)) = n"
proof -
  assume "n < 2 ^ k" "k \<le> 32"
  then have "n < 2 ^ 32" using less_le_trans [OF _ power_increasing [of k 32 "2 :: nat"]] by simp
  then show "unat (take_bit k (of_nat n :: 32 word)) = n"
    using \<open>n < 2 ^ k\<close> 
    by (simp add: unsigned_take_bit_eq unat_of_nat take_bit_nat_eq_self)
qed

lemma headlen_round_trip:
  assumes "n \<le> 0x3fffff"
  shows "ringbuf_headlen_decompress (COMPRESS_LEN n) (hdr n) = n"
proof -
  note defs = ringbuf_headlen_decompress_def hdr_def ringbuf_headlen_compress_def
    COMPRESS_LEN_def Let_def
  note eval = le_byte_ntohl le_byte_ntohl [simplified] ntohl_le_word le_word_header
    le_word_header [simplified]
  have rep3: "replicate 3 (0 :: byte) = [0, 0, 0]"
    by (simp add: numeral_3_eq_3)
  have rep2: "replicate 2 (0 :: byte) = [0, 0]"
    by (simp add: numeral_2_eq_2)
  consider "n \<le> 0x7f" | "0x7f < n" "n \<le> 0x3fff" | "0x3fff < n" by linarith
  then show ?thesis
  proof cases
    case 1
    then show ?thesis
      using unat_take_bit_of_nat [of n 7]
      by (simp add: defs eval rep3)
  next
    case 2
    then show ?thesis
      using unat_take_bit_of_nat [of n 14]
      by (simp add: defs eval rep2)
  next
    case 3
    then show ?thesis
      using assms unat_take_bit_of_nat [of n 22]
      by (simp add: defs eval rep2)
  qed
qed

lemma length_hdr [simp]: "n \<le> 0x3fffff \<Longrightarrow> length (hdr n) = COMPRESS_LEN n"
  by (simp add: hdr_def COMPRESS_LEN_def ringbuf_headlen_compress_def Let_def)

text \<open>The two high bits of the first byte tell the length of the header.\<close>

definition header_bytes :: "byte \<Rightarrow> nat" where
  "header_bytes b = (if b AND 0x80 = 0 then 1 else if b AND 0xC0 = 0x80 then 2
     else if b AND 0xC0 = 0xC0 then 3 else 0)"

lemma byte_eq_iff: "(a :: byte) = b \<longleftrightarrow> (\<forall>n<8. bit a n = bit b n)"
  by (auto intro: bit_word_eqI)

lemma byte_and_80: "(b :: byte) AND 0x80 = 0 \<longleftrightarrow> \<not> bit b 7"
  by (auto simp: byte_eq_iff bit_simps bit_numeral_byte dest: spec [where x = 6] spec [where x = 7])

lemma byte_and_C0:
  "(b :: byte) AND 0xC0 = 0x80 \<longleftrightarrow> bit b 7 \<and> \<not> bit b 6"
  "(b :: byte) AND 0xC0 = 0xC0 \<longleftrightarrow> bit b 7 \<and> bit b 6"
  by (auto simp: byte_eq_iff bit_simps bit_numeral_byte dest: spec [where x = 6] spec [where x = 7])

lemma header_bytes_hdr:
  assumes "n \<le> 0x3fffff"
  shows "header_bytes (hdr n ! 0) = COMPRESS_LEN n"
proof -
  have *: "\<not> bit (of_nat n :: 32 word) k" if "n < 2 ^ k" for k
    using that by (simp add: bit_simps) (simp add: bit_iff_odd)
  show ?thesis
    using assms * [of 7] * [of 14]
    by (auto simp: header_bytes_def hdr_def COMPRESS_LEN_def ringbuf_headlen_compress_def Let_def
      byte_and_80 byte_and_C0 le_byte_ntohl bit_simps bit_numeral_byte)
qed

section \<open>Copies into and out of the ring\<close>

definition cap :: "k_ringbuf \<Rightarrow> nat" where
  "cap rb = rb_end rb - rb_buf rb"

definition used :: "k_ringbuf \<Rightarrow> nat" where
  "used rb = cap rb - freesize rb"

definition ring_wf :: "k_ringbuf \<Rightarrow> bool" where
  "ring_wf rb \<longleftrightarrow> rb_buf rb < rb_end rb \<and> freesize rb \<le> cap rb \<and>
     rb_buf rb \<le> rb_head rb \<and> rb_head rb \<le> rb_end rb \<and>
     rb_buf rb \<le> rb_tail rb \<and> rb_tail rb \<le> rb_end rb \<and>
     (rb_tail rb - rb_buf rb) mod cap rb = (rb_head rb - rb_buf rb + used rb) mod cap rb"

definition contents :: "memory \<Rightarrow> k_ringbuf \<Rightarrow> byte list" where
  "contents mem rb = ring_get mem (rb_buf rb) (cap rb) (rb_head rb - rb_buf rb) (used rb)"

text \<open>Offsets instead of pointers.\<close>

lemma ring_offsets:
  assumes "ring_wf rb"
  obtains b c h t u where "c > 0" "h \<le> c" "t \<le> c" "u \<le> c" "t mod c = (h + u) mod c"
    "rb_buf rb = b" "rb_end rb = b + c" "rb_head rb = b + h" "rb_tail rb = b + t"
    "freesize rb = c - u"
proof -
  show ?thesis
    using assms
    by (intro that [of "cap rb" "rb_head rb - rb_buf rb" "rb_tail rb - rb_buf rb" "used rb"])
      (auto simp: ring_wf_def cap_def used_def)
qed

lemma ring_offsets_intro:
  assumes "c > 0" "h \<le> c" "t \<le> c" "u \<le> c" "t mod c = (h + u) mod c"
    "rb_buf rb = b" "rb_end rb = b + c" "rb_head rb = b + h" "rb_tail rb = b + t"
    "freesize rb = c - u"
  shows "ring_wf rb \<and> contents mem rb = ring_get mem b c h u"
  using assms by (simp_all add: ring_wf_def contents_def cap_def used_def)

lemma map_upt_add:
  "m \<le> n \<Longrightarrow> map f [0..<n] = map f [0..<m] @ map (\<lambda>i. f (m + i)) [0..<n - m]"
  by (intro nth_equalityI) (auto simp: nth_append)

lemma wrap_offset:
  fixes h u c t :: nat
  assumes "(h + u) mod c = t" "t < c"
  shows "(h + u + (c - t)) mod c = 0"
  using assms mod_add_left_eq [of "h + u" c "c - t"] by simp

lemma push_copy_ok:
  assumes "ring_wf rb" "rb_tail rb < rb_end rb" "n \<le> freesize rb"
    and res: "push_copy mem rb src n = (mem', rb')"
  shows "ring_wf rb' \<and> contents mem' rb' = contents mem rb @ map src [0..<n] \<and>
    (\<exists>x. rb' = rb\<lparr>rb_tail := x, freesize := freesize rb - n\<rparr>)"
proof -
  obtain b c h t u where o: "c > 0" "h \<le> c" "t \<le> c" "u \<le> c" "t mod c = (h + u) mod c"
    and f: "rb_buf rb = b" "rb_end rb = b + c" "rb_head rb = b + h" "rb_tail rb = b + t"
    "freesize rb = c - u"
    using assms(1) by (rule ring_offsets)
  have t: "t < c" "u + n \<le> c" "(h + u) mod c = t"
    using assms(2,3) o f by auto
  have old: "contents mem rb = ring_get mem b c h u"
    using o f by (rule ring_offsets_intro [THEN conjunct2])
  show ?thesis
  proof (cases "h \<le> t \<and> c - t < n")
    case True
    define s where "s = c - t"
    define r where "r = n - s"
    have sr: "n = s + r" "t + s = c" "s \<le> n" "0 < s" "u + s + r \<le> c" "r \<le> c"
      using True t unfolding s_def r_def by auto
    have w0: "(h + (u + s)) mod c = 0"
      using wrap_offset [OF t(3,1)] by (simp add: s_def add.assoc)
    let ?m1 = "memcpy mem (b + t) src s"
    let ?m2 = "memcpy ?m1 (b + 0) (\<lambda>i. src (s + i)) r"
    have eqs: "mem' = ?m2" "rb' = rb\<lparr>rb_tail := b + r, freesize := freesize rb - n\<rparr>"
    proof -
      have sl: "rb_end rb - rb_tail rb = s" "rb_tail rb \<ge> rb_head rb" "s < n" "n - s = r"
        using True t f by (auto simp: s_def r_def)
      have "push_copy mem rb src n = (?m2, rb\<lparr>rb_tail := b + r, freesize := freesize rb - s - r\<rparr>)"
        unfolding push_copy_def Let_def sl(1) using sl sr(4) f by simp
      moreover have "freesize rb - s - r = freesize rb - n"
        using sr(1) by simp
      ultimately show "mem' = ?m2" "rb' = rb\<lparr>rb_tail := b + r, freesize := freesize rb - n\<rparr>"
        using res by simp_all
    qed
    have "ring_get ?m1 b c h (u + s) = ring_get mem b c h u @ map src [0..<s]"
      using t sr by (intro ring_get_append_write) auto
    moreover have "ring_get ?m2 b c h (u + s + r)
        = ring_get ?m1 b c h (u + s) @ map (\<lambda>i. src (s + i)) [0..<r]"
      using o sr w0 by (intro ring_get_append_write) auto
    ultimately have c: "ring_get mem' b c h (u + n) = contents mem rb @ map src [0..<n]"
      using map_upt_add [OF sr(3), of src] sr(1) by (simp add: eqs old add.assoc)
    have "r mod c = (h + (u + n)) mod c"
      using mod_add_left_eq [of "h + (u + s)" c r] w0 sr by (simp add: add.assoc)
    then have "ring_wf rb' \<and> contents mem' rb' = ring_get mem' b c h (u + n)"
      using o f t sr(6) eqs by (intro ring_offsets_intro [of c h r "u + n"]) simp_all
    then show ?thesis
      using c eqs(2) by auto
  next
    case False
    have fit: "t + n \<le> c"
    proof (cases "h \<le> t")
      case True
      then show ?thesis using False t by linarith
    next
      case False
      then have "c \<le> h + u"
        using t(3) by (metis add_leD1 le_refl mod_less not_le)
      then have "t = (h + u - c) mod c"
        using t(3) by (simp add: le_mod_geq)
      then have "t \<le> u"
        using mod_less_eq_dividend [of "h + u - c" c] o(2) by linarith
      then show ?thesis using t(2) by linarith
    qed
    have eqs: "mem' = memcpy mem (b + t) src n"
      "rb' = rb\<lparr>rb_tail := b + (t + n), freesize := freesize rb - n\<rparr>"
      using res False t f fit by (auto simp: push_copy_def Let_def)
    have "ring_get mem' b c h (u + n) = ring_get mem b c h u @ map src [0..<n]"
      unfolding eqs using t fit by (intro ring_get_append_write) auto
    moreover have "(t + n) mod c = (h + (u + n)) mod c"
      using mod_add_left_eq [of "h + u" c n] t by (simp add: add.assoc)
    ultimately show ?thesis
      using ring_offsets_intro [of c h "t + n" "u + n" rb' b mem'] o f t fit eqs old by auto
  qed
qed

lemma wrap_tail_ok:
  assumes "ring_wf rb"
  shows "ring_wf (wrap_tail rb)" "contents mem (wrap_tail rb) = contents mem rb"
    "rb_tail (wrap_tail rb) < rb_end (wrap_tail rb)" "freesize (wrap_tail rb) = freesize rb"
    "\<exists>x. wrap_tail rb = rb\<lparr>rb_tail := x\<rparr>"
proof -
  obtain b c h t u where o: "c > 0" "h \<le> c" "t \<le> c" "u \<le> c" "t mod c = (h + u) mod c"
    and f: "rb_buf rb = b" "rb_end rb = b + c" "rb_head rb = b + h" "rb_tail rb = b + t"
    "freesize rb = c - u"
    using assms by (rule ring_offsets)
  define t' where "t' = (if t = c then 0 else t)"
  have w: "wrap_tail rb = rb\<lparr>rb_tail := b + t'\<rparr>"
    using f by (auto simp: wrap_tail_def t'_def)
  have t': "t' < c" "t' mod c = (h + u) mod c"
    using o by (auto simp: t'_def)
  show "ring_wf (wrap_tail rb)" "contents mem (wrap_tail rb) = contents mem rb"
    using ring_offsets_intro [of c h t' u "wrap_tail rb" b mem]
      ring_offsets_intro [of c h t u rb b mem] o f w t' by auto
  show "rb_tail (wrap_tail rb) < rb_end (wrap_tail rb)" "freesize (wrap_tail rb) = freesize rb"
    "\<exists>x. wrap_tail rb = rb\<lparr>rb_tail := x\<rparr>"
    using w t' f by auto
qed

lemma wrap_head_ok:
  assumes "ring_wf rb"
  shows "ring_wf (wrap_head rb)" "contents mem (wrap_head rb) = contents mem rb"
    "rb_head (wrap_head rb) < rb_end (wrap_head rb)" "freesize (wrap_head rb) = freesize rb"
    "\<exists>x. wrap_head rb = rb\<lparr>rb_head := x\<rparr>"
proof -
  obtain b c h t u where o: "c > 0" "h \<le> c" "t \<le> c" "u \<le> c" "t mod c = (h + u) mod c"
    and f: "rb_buf rb = b" "rb_end rb = b + c" "rb_head rb = b + h" "rb_tail rb = b + t"
    "freesize rb = c - u"
    using assms by (rule ring_offsets)
  define h' where "h' = (if h = c then 0 else h)"
  have w: "wrap_head rb = rb\<lparr>rb_head := b + h'\<rparr>"
    using f by (auto simp: wrap_head_def h'_def)
  have h': "h' < c" "h' mod c = h mod c" "t mod c = (h' + u) mod c"
    using o by (auto simp: h'_def)
  show "ring_wf (wrap_head rb)" "contents mem (wrap_head rb) = contents mem rb"
    using ring_offsets_intro [of c h' t u "wrap_head rb" b mem]
      ring_offsets_intro [of c h t u rb b mem] ring_get_cong_mod [OF h'(2)] o f w h' by auto
  show "rb_head (wrap_head rb) < rb_end (wrap_head rb)" "freesize (wrap_head rb) = freesize rb"
    "\<exists>x. wrap_head rb = rb\<lparr>rb_head := x\<rparr>"
    using w h' f by auto
qed

lemma pop_copy_ok:
  assumes "ring_wf rb" "rb_head rb < rb_end rb" "n \<le> used rb"
    and sp: "sp \<or> (rb_head rb \<le> rb_tail rb \<and> used rb < cap rb)"
    and res: "pop_copy mem rb sp n = (out, rb')"
  shows "ring_wf rb' \<and> out = take n (contents mem rb) \<and> contents mem rb' = drop n (contents mem rb) \<and>
    (\<exists>x. rb' = rb\<lparr>rb_head := x, freesize := freesize rb + n\<rparr>)"
proof -
  obtain b c h t u where o: "c > 0" "h \<le> c" "t \<le> c" "u \<le> c" "t mod c = (h + u) mod c"
    and f: "rb_buf rb = b" "rb_end rb = b + c" "rb_head rb = b + h" "rb_tail rb = b + t"
    "freesize rb = c - u"
    using assms(1) by (rule ring_offsets)
  have h: "h < c" and n: "n \<le> u" and sp': "sp \<or> h \<le> t \<and> u < c"
    using assms(2,3) sp o f by (auto simp: used_def cap_def)
  have old: "contents mem rb = ring_get mem b c h u"
    using o f by (rule ring_offsets_intro [THEN conjunct2])
  have split: "ring_get mem b c h u = ring_get mem b c h n @ ring_get mem b c (h + n) (u - n)"
    using ring_get_add [of mem b c h n "u - n"] n by simp
  show ?thesis
  proof (cases "sp \<and> c - h < n")
    case True
    define s where "s = c - h"
    define r where "r = n - s"
    have sr: "n = s + r" "h + s = c" "s \<le> n" "r \<le> c"
      using True h n o unfolding s_def r_def by auto
    have eqs: "out = read_bytes mem (b + h) s @ read_bytes mem (b + 0) r"
      "rb' = rb\<lparr>rb_head := b + r, freesize := freesize rb + n\<rparr>"
    proof -
      have sl: "rb_end rb - rb_head rb = s" "sp \<and> s < n" "n - s = r"
        using True f by (auto simp: s_def r_def)
      have "pop_copy mem rb sp n = (read_bytes mem (b + h) s @ read_bytes mem (b + 0) r,
          rb\<lparr>rb_head := b + r, freesize := freesize rb + s + r\<rparr>)"
        unfolding pop_copy_def Let_def sl(1) using sl f by simp
      then show "out = read_bytes mem (b + h) s @ read_bytes mem (b + 0) r"
        "rb' = rb\<lparr>rb_head := b + r, freesize := freesize rb + n\<rparr>"
        using res sr(1) by (simp_all add: add.assoc)
    qed
    have "h + n = c + r" "h + u = c + (r + (u - n))"
      using sr n by simp_all
    then have m: "(h + n) mod c = r mod c" "t mod c = (r + (u - n)) mod c"
      using o(5) by (simp, metis mod_add_self1)
    have "out = ring_get mem b c h n"
      using sr ring_get_add [of mem b c h s r] ring_get_cong_mod [of c c 0 mem b r]
        read_bytes_ring_get [of h s c mem b] read_bytes_ring_get [of 0 r c mem b]
      unfolding eqs(1) by simp
    then show ?thesis
      using ring_offsets_intro [of c r t "u - n" rb' b mem] ring_get_cong_mod [OF m(1), of mem b "u - n"]
        o f sr n eqs old split m(2) by auto
  next
    case False
    have fit: "h + n \<le> c"
    proof (rule ccontr)
      assume "\<not> h + n \<le> c"
      then have lt: "c < h + u" "h + u < c + c" "h \<le> t" "u < c"
        using False sp' n h by auto
      then have "t mod c = h + u - c"
        using o(5) by (simp add: mod_if)
      then show False
        using lt o(3) by (cases "t = c") auto
    qed
    have eqs: "out = read_bytes mem (b + h) n"
      "rb' = rb\<lparr>rb_head := b + (h + n), freesize := freesize rb + n\<rparr>"
      using res False f by (auto simp: pop_copy_def Let_def)
    have "t mod c = (h + n + (u - n)) mod c"
      using o n by simp
    then show ?thesis
      using ring_offsets_intro [of c "h + n" t "u - n" rb' b mem] o f n fit eqs old split
      by (auto simp: read_bytes_ring_get)
  qed
qed

section \<open>Push and pop implement a queue of messages\<close>

lemma ringbuf_pop_DYN:
  "\<not> ringbuf_is_empty rb \<Longrightarrow> rb_type rb = RINGBUF_TYPE_DYN \<Longrightarrow>
   ringbuf_pop mem rb =
     (let rb1 = wrap_head rb; len_bytes = header_bytes (mem (rb_head rb1))
      in if len_bytes = 0 then (RHINO_INV_PARAM, [], rb1)
         else (let c = pop_copy mem rb1 (rb_end rb1 - rb_head rb1 > 0) len_bytes;
                   len = ringbuf_headlen_decompress len_bytes (fst c);
                   rb2 = wrap_head (snd c);
                   d = pop_copy mem rb2 (rb_head rb2 > rb_tail rb2) len
               in (RHINO_SUCCESS, fst d, snd d)))"
  by (simp add: ringbuf_pop_def header_bytes_def Let_def)

definition enc :: "byte list \<Rightarrow> byte list" where
  "enc m = hdr (length m) @ m"

definition dyn_rep :: "memory \<times> k_ringbuf \<Rightarrow> byte list list \<Rightarrow> bool" where
  "dyn_rep st q \<longleftrightarrow> ring_wf (snd st) \<and> rb_type (snd st) = RINGBUF_TYPE_DYN \<and>
     contents (fst st) (snd st) = concat (map enc q) \<and> (\<forall>m \<in> set q. length m \<le> 0x3fffff)"

definition fix_rep :: "memory \<times> k_ringbuf \<Rightarrow> byte list list \<Rightarrow> bool" where
  "fix_rep st q \<longleftrightarrow> ring_wf (snd st) \<and> rb_type (snd st) = RINGBUF_TYPE_FIX \<and>
     0 < rb_blk_size (snd st) \<and> rb_blk_size (snd st) dvd cap (snd st) \<and>
     rb_blk_size (snd st) dvd (rb_head (snd st) - rb_buf (snd st)) \<and>
     contents (fst st) (snd st) = concat q \<and> (\<forall>m \<in> set q. length m = rb_blk_size (snd st))"

lemma used_contents: "length (contents mem rb) = used rb"
  by (simp add: contents_def)

lemma map_nth_take: "k \<le> length xs \<Longrightarrow> map ((!) xs) [0..<k] = take k xs"
  by (intro nth_equalityI) auto

lemma ringbuf_push_dyn:
  assumes rep: "dyn_rep (mem, rb) q" and len: "length m \<le> 0x3fffff"
  shows "if freesize rb < 2 \<or> freesize rb < COMPRESS_LEN (length m) + length m
         then ringbuf_push mem rb ((!) m) (length m) = (RHINO_RINGBUF_FULL, mem, rb)
         else (\<exists>mem' rb'. ringbuf_push mem rb ((!) m) (length m) = (RHINO_SUCCESS, mem', rb') \<and>
               dyn_rep (mem', rb') (q @ [m]) \<and> cap rb' = cap rb)"
proof -
  have wf: "ring_wf rb" and ty: "rb_type rb = RINGBUF_TYPE_DYN"
    and c: "contents mem rb = concat (map enc q)" and ls: "\<forall>m \<in> set q. length m \<le> 0x3fffff"
    using rep by (auto simp: dyn_rep_def)
  let ?k = "COMPRESS_LEN (length m)" and ?cl = "snd (ringbuf_headlen_compress (length m))"
  have k: "fst (ringbuf_headlen_compress (length m)) = ?k" "\<not> (?k = 0 \<or> ?k > 3)" "?k \<le> 3"
    "length ?cl = 3"
    using len by (auto simp: ringbuf_headlen_compress_def COMPRESS_LEN_def Let_def)
  show ?thesis
  proof (cases "freesize rb < 2 \<or> freesize rb < ?k + length m")
    case True
    then show ?thesis
      using ty k by (auto simp: ringbuf_push_def ringbuf_is_full_def Let_def)
  next
    case False
    obtain m1 rb1 where p1: "push_copy mem (wrap_tail rb) (\<lambda>i. ?cl ! i) ?k = (m1, rb1)"
      by fastforce
    have "ring_wf rb1 \<and> contents m1 rb1 = contents mem (wrap_tail rb) @ map ((!) ?cl) [0..<?k] \<and>
        (\<exists>x. rb1 = wrap_tail rb\<lparr>rb_tail := x, freesize := freesize (wrap_tail rb) - ?k\<rparr>)"
      using push_copy_ok [OF _ _ _ p1] wrap_tail_ok [OF wf] False by simp
    then have w1: "ring_wf rb1" and c1: "contents m1 rb1 = contents mem rb @ hdr (length m)"
      and f1: "\<exists>x. rb1 = rb\<lparr>rb_tail := x, freesize := freesize rb - ?k\<rparr>"
      using wrap_tail_ok [OF wf] k by (auto simp: hdr_def map_nth_take)
    obtain m2 rb2 where p2: "push_copy m1 (wrap_tail rb1) ((!) m) (length m) = (m2, rb2)"
      by fastforce
    have "ring_wf rb2 \<and> contents m2 rb2 = contents m1 (wrap_tail rb1) @ m \<and>
        (\<exists>x. rb2 = wrap_tail rb1\<lparr>rb_tail := x, freesize := freesize (wrap_tail rb1) - length m\<rparr>)"
      using push_copy_ok [OF _ _ _ p2] wrap_tail_ok [OF w1] False f1
      by (auto simp: map_nth)
    then have "ring_wf rb2" "contents m2 rb2 = contents mem rb @ enc m" "rb_type rb2 = rb_type rb"
        "cap rb2 = cap rb"
      using wrap_tail_ok [OF w1] c1 f1 by (auto simp: enc_def cap_def)
    moreover have "ringbuf_push mem rb ((!) m) (length m) = (RHINO_SUCCESS, m2, rb2)"
      using False ty k p1 p2 by (simp add: ringbuf_push_def ringbuf_is_full_def Let_def)
    ultimately show ?thesis
      using False c ls len ty by (auto simp: dyn_rep_def)
  qed
qed

lemma contents_hd:
  assumes "ring_wf rb" "rb_head rb < rb_end rb" "0 < used rb"
  shows "contents mem rb ! 0 = mem (rb_head rb)"
  using assms by (auto simp: contents_def ring_wf_def cap_def)

lemma ringbuf_pop_empty:
  assumes "ring_wf rb" "contents mem rb = []"
  shows "ringbuf_pop mem rb = (RHINO_RINGBUF_EMPTY, [], rb)"
proof -
  have "used rb = 0"
    using assms(2) used_contents [of mem rb] by simp
  then show ?thesis
    using assms(1) by (auto simp: ringbuf_pop_def ringbuf_is_empty_def used_def cap_def ring_wf_def)
qed

lemma nonempty_used:
  assumes "contents mem rb \<noteq> []"
  shows "0 < used rb \<and> \<not> ringbuf_is_empty rb"
proof -
  have "0 < used rb"
    using assms used_contents [of mem rb] by (metis length_greater_0_conv)
  then show ?thesis
    by (auto simp: ringbuf_is_empty_def used_def cap_def)
qed

lemma used_mono: "ring_wf rb \<Longrightarrow> used rb = length (contents mem rb) \<and> used rb \<le> cap rb"
  by (simp add: used_contents) (simp add: used_def)

lemma ringbuf_pop_dyn:
  assumes rep: "dyn_rep (mem, rb) (m # q)"
  shows "\<exists>rb'. ringbuf_pop mem rb = (RHINO_SUCCESS, m, rb') \<and> dyn_rep (mem, rb') q \<and> cap rb' = cap rb"
proof -
  have wf: "ring_wf rb" and ty: "rb_type rb = RINGBUF_TYPE_DYN"
    and c: "contents mem rb = hdr (length m) @ m @ concat (map enc q)"
    and ls: "\<forall>m \<in> set (m # q). length m \<le> 0x3fffff"
    using rep by (auto simp: dyn_rep_def enc_def)
  let ?k = "COMPRESS_LEN (length m)"
  have k: "length (hdr (length m)) = ?k" "0 < ?k"
    using ls by (auto simp: COMPRESS_LEN_def)
  then have k': "hdr (length m) \<noteq> []"
    by auto
  note w = wrap_head_ok [OF wf]
  have ne: "contents mem (wrap_head rb) \<noteq> []"
    using w(2) c k' by auto
  have hb: "header_bytes (mem (rb_head (wrap_head rb))) = ?k"
    using contents_hd [OF w(1,3), of mem] nonempty_used [OF ne] header_bytes_hdr [of "length m"]
      w(2) c k ls by (simp add: nth_append)
  obtain out1 rb1 where p1: "pop_copy mem (wrap_head rb) True ?k = (out1, rb1)"
    by fastforce
  have "ring_wf rb1 \<and> out1 = take ?k (contents mem (wrap_head rb)) \<and>
      contents mem rb1 = drop ?k (contents mem (wrap_head rb)) \<and>
      (\<exists>x. rb1 = wrap_head rb\<lparr>rb_head := x, freesize := freesize (wrap_head rb) + ?k\<rparr>)"
    using w(1,3) used_mono [OF w(1), of mem] c k w(2) by (intro pop_copy_ok [OF _ _ _ _ p1]) auto
  then have w1: "ring_wf rb1" and o1: "out1 = hdr (length m)"
    and c1: "contents mem rb1 = m @ concat (map enc q)"
    and f1: "\<exists>x. rb1 = rb\<lparr>rb_head := x, freesize := freesize rb + ?k\<rparr>"
    using w c k by auto
  have u1: "used rb1 < cap rb1"
    using f1 k(2) wf by (auto simp: used_def cap_def ring_wf_def)
  note w2 = wrap_head_ok [OF w1]
  have geo: "used (wrap_head rb1) = used rb1" "cap (wrap_head rb1) = cap rb1"
    using w2(4,5) by (auto simp: used_def cap_def)
  obtain out2 rb2 where p2: "pop_copy mem (wrap_head rb1)
      (rb_head (wrap_head rb1) > rb_tail (wrap_head rb1)) (length m) = (out2, rb2)"
    by fastforce
  have "ring_wf rb2 \<and> out2 = take (length m) (contents mem (wrap_head rb1)) \<and>
      contents mem rb2 = drop (length m) (contents mem (wrap_head rb1)) \<and>
      (\<exists>x. rb2 = wrap_head rb1\<lparr>rb_head := x, freesize := freesize (wrap_head rb1) + length m\<rparr>)"
    using w2(1,3) used_mono [OF w2(1), of mem] c1 w2(2) u1 geo
    by (intro pop_copy_ok [OF _ _ _ _ p2]) auto
  then have r2: "ring_wf rb2" "out2 = m" "contents mem rb2 = concat (map enc q)"
    "rb_type rb2 = rb_type rb" "cap rb2 = cap rb"
    using w2(2,5) c1 f1 by (auto simp: cap_def)
  have "ringbuf_pop mem rb = (RHINO_SUCCESS, m, rb2)"
    using ringbuf_pop_DYN [of rb mem] nonempty_used [of mem rb] ty c k k' hb p1 p2 o1 r2 w(3) ls
      headlen_round_trip [of "length m"] by (simp add: Let_def)
  then show ?thesis
    using r2 ty ls by (auto simp: dyn_rep_def)
qed

lemma length_concat_const: "\<forall>m \<in> set q. length m = k \<Longrightarrow> length (concat q) = k * length q"
  by (induction q) auto

lemma fix_geometry:
  assumes "fix_rep (mem, rb) q"
  shows "used rb = rb_blk_size rb * length q" "rb_blk_size rb dvd (rb_tail rb - rb_buf rb)"
proof -
  show u: "used rb = rb_blk_size rb * length q"
    using assms used_contents [of mem rb] length_concat_const [of q "rb_blk_size rb"]
    by (auto simp: fix_rep_def)
  have "rb_blk_size rb dvd (rb_head rb - rb_buf rb + used rb) mod cap rb"
    using assms u by (auto simp: fix_rep_def intro: dvd_mod)
  then have "rb_blk_size rb dvd (rb_tail rb - rb_buf rb) mod cap rb"
    using assms by (auto simp: fix_rep_def ring_wf_def)
  then show "rb_blk_size rb dvd (rb_tail rb - rb_buf rb)"
    using assms by (auto simp: fix_rep_def dvd_mod_iff)
qed

lemma ringbuf_push_fix:
  assumes rep: "fix_rep (mem, rb) q" and len: "length m = rb_blk_size rb"
  shows "if freesize rb < rb_blk_size rb
         then ringbuf_push mem rb ((!) m) n = (RHINO_RINGBUF_FULL, mem, rb)
         else (\<exists>mem' rb'. ringbuf_push mem rb ((!) m) n = (RHINO_SUCCESS, mem', rb') \<and>
               fix_rep (mem', rb') (q @ [m]) \<and> cap rb' = cap rb \<and> rb_blk_size rb' = rb_blk_size rb)"
proof -
  have r: "ring_wf rb" "rb_type rb = RINGBUF_TYPE_FIX" "0 < rb_blk_size rb" "rb_blk_size rb dvd cap rb"
    "rb_blk_size rb dvd (rb_head rb - rb_buf rb)" "contents mem rb = concat q"
    "\<forall>m \<in> set q. length m = rb_blk_size rb"
    using rep by (auto simp: fix_rep_def)
  show ?thesis
  proof (cases "freesize rb < rb_blk_size rb")
    case True
    then show ?thesis
      using r by (auto simp: ringbuf_push_def ringbuf_is_full_def)
  next
    case False
    let ?rb = "wrap_tail rb"
    note w = wrap_tail_ok [OF r(1)]
    have "fix_rep (mem, ?rb) q"
      using w r by (auto simp: fix_rep_def cap_def)
    then have "rb_blk_size ?rb dvd cap ?rb" "rb_blk_size ?rb dvd rb_tail ?rb - rb_buf ?rb"
      using fix_geometry(2) [of mem ?rb q] by (auto simp: fix_rep_def)
    then have "rb_blk_size ?rb dvd cap ?rb - (rb_tail ?rb - rb_buf ?rb)"
      by (rule dvd_diff_nat)
    then have "rb_blk_size ?rb \<le> rb_end ?rb - rb_tail ?rb"
      using w(1,3) dvd_imp_le by (fastforce simp: ring_wf_def cap_def)
    then have p: "push_copy mem ?rb ((!) m) (rb_blk_size ?rb) =
        (memcpy mem (rb_tail ?rb) ((!) m) (rb_blk_size ?rb),
         ?rb\<lparr>rb_tail := rb_tail ?rb + rb_blk_size ?rb, freesize := freesize ?rb - rb_blk_size ?rb\<rparr>)"
      by (simp add: push_copy_def Let_def)
    then have "ringbuf_push mem rb ((!) m) n = (RHINO_SUCCESS, push_copy mem ?rb ((!) m) (rb_blk_size ?rb))"
      using False r by (simp add: ringbuf_push_def ringbuf_is_full_def Let_def)
    moreover obtain mem' rb' where p': "push_copy mem ?rb ((!) m) (rb_blk_size ?rb) = (mem', rb')"
      by fastforce
    moreover have "ring_wf rb' \<and> contents mem' rb' = contents mem ?rb @ map ((!) m) [0..<rb_blk_size ?rb] \<and>
        (\<exists>x. rb' = ?rb\<lparr>rb_tail := x, freesize := freesize ?rb - rb_blk_size ?rb\<rparr>)"
      using w(1,3,4,5) False by (intro push_copy_ok [OF _ _ _ p']) auto
    then have "fix_rep (mem', rb') (q @ [m]) \<and> cap rb' = cap rb \<and> rb_blk_size rb' = rb_blk_size rb"
      using w(2,5) r map_nth [of m] by (auto simp: fix_rep_def cap_def len)
    ultimately show ?thesis
      using False by auto
  qed
qed

lemma ringbuf_pop_fix:
  assumes rep: "fix_rep (mem, rb) (m # q)"
  shows "\<exists>rb'. ringbuf_pop mem rb = (RHINO_SUCCESS, m, rb') \<and> fix_rep (mem, rb') q \<and>
    cap rb' = cap rb \<and> rb_blk_size rb' = rb_blk_size rb"
proof -
  have r: "ring_wf rb" "rb_type rb = RINGBUF_TYPE_FIX" "0 < rb_blk_size rb" "rb_blk_size rb dvd cap rb"
    "rb_blk_size rb dvd (rb_head rb - rb_buf rb)" "contents mem rb = m @ concat q"
    "\<forall>m \<in> set q. length m = rb_blk_size rb" "length m = rb_blk_size rb"
    using rep by (auto simp: fix_rep_def)
  let ?rb = "wrap_head rb"
  note w = wrap_head_ok [OF r(1)]
  have al: "rb_blk_size ?rb dvd (rb_head ?rb - rb_buf ?rb)" "rb_blk_size ?rb dvd cap ?rb"
    using r by (auto simp: wrap_head_def cap_def)
  then have "rb_blk_size ?rb dvd cap ?rb - (rb_head ?rb - rb_buf ?rb)"
    using dvd_diff_nat by blast
  then have "rb_blk_size ?rb \<le> rb_end ?rb - rb_head ?rb"
    using w(1,3) dvd_imp_le by (fastforce simp: ring_wf_def cap_def)
  then have p: "pop_copy mem ?rb True (rb_blk_size ?rb) = (read_bytes mem (rb_head ?rb) (rb_blk_size ?rb),
      ?rb\<lparr>rb_head := rb_head ?rb + rb_blk_size ?rb, freesize := freesize ?rb + rb_blk_size ?rb\<rparr>)"
    by (simp add: pop_copy_def Let_def)
  obtain out rb' where p': "pop_copy mem ?rb True (rb_blk_size ?rb) = (out, rb')"
    by fastforce
  have "ring_wf rb' \<and> out = take (rb_blk_size ?rb) (contents mem ?rb) \<and>
      contents mem rb' = drop (rb_blk_size ?rb) (contents mem ?rb) \<and>
      (\<exists>x. rb' = ?rb\<lparr>rb_head := x, freesize := freesize ?rb + rb_blk_size ?rb\<rparr>)"
    using w used_mono [OF w(1), of mem] r by (intro pop_copy_ok [OF _ _ _ _ p']) auto
  moreover have "rb_blk_size rb' dvd (rb_head rb' - rb_buf rb')"
  proof -
    have "rb_buf ?rb \<le> rb_head ?rb"
      using w(1) by (simp add: ring_wf_def)
    then have "rb_head rb' - rb_buf rb' = (rb_head ?rb - rb_buf ?rb) + rb_blk_size ?rb"
      using p p' by auto
    then show ?thesis
      using p p' al(1) by auto
  qed
  ultimately have "out = m" "fix_rep (mem, rb') q \<and> cap rb' = cap rb \<and> rb_blk_size rb' = rb_blk_size rb"
    using w(2,5) r by (auto simp: fix_rep_def cap_def)
  moreover have "m \<noteq> []"
    using r(3,8) by auto
  then have "ringbuf_pop mem rb = (RHINO_SUCCESS, out, rb')"
    using p p' r(2,6) nonempty_used [of mem rb] by (simp add: ringbuf_pop_def Let_def)
  ultimately show ?thesis
    by auto
qed

section \<open>Both buffer types meet the queue contract\<close>

definition rb_put :: "memory \<times> k_ringbuf \<Rightarrow> byte list \<Rightarrow> bool \<times> memory \<times> k_ringbuf" where
  "rb_put st m = (case krhino_ringbuf_push (fst st) (Some (snd st)) (Some ((!) m)) (length m) of
     (err, mem', p) \<Rightarrow> (err = RHINO_SUCCESS, mem', the p))"

definition rb_get :: "memory \<times> k_ringbuf \<Rightarrow> byte list option \<times> memory \<times> k_ringbuf" where
  "rb_get st = (case krhino_ringbuf_pop (fst st) (Some (snd st)) False False of
     (err, out, p) \<Rightarrow> (if err = RHINO_SUCCESS then Some out else None, fst st, the p))"

lemma rb_put_cases:
  "rb_put (mem, rb) m =
     (if length m = 0 \<or> length m > 0x3fffff \<or>
         (rb_type rb = RINGBUF_TYPE_FIX \<and> length m \<noteq> rb_blk_size rb) then (False, mem, rb)
      else (case ringbuf_push mem rb ((!) m) (length m) of
        (err, mem', rb') \<Rightarrow> (err = RHINO_SUCCESS, mem', rb')))"
  by (auto simp: rb_put_def krhino_ringbuf_push_def split: prod.splits)

lemma rb_get_cases:
  "rb_get (mem, rb) = (case ringbuf_pop mem rb of
     (err, out, rb') \<Rightarrow> (if err = RHINO_SUCCESS then Some out else None, mem, rb'))"
  by (auto simp: rb_get_def krhino_ringbuf_pop_def split: prod.splits)

interpretation dynq: msg_fifo dyn_rep rb_put rb_get
proof
  fix s :: "memory \<times> k_ringbuf" and q :: "byte list list" and m :: "byte list"
  obtain mem rb where s: "s = (mem, rb)" by fastforce
  show "dyn_rep (snd (rb_put s m)) (q @ [m])"
    if "dyn_rep s q" "fst (rb_put s m)"
    using that ringbuf_push_dyn [of mem rb q m] s
    by (auto simp: rb_put_cases split: if_splits prod.splits)
  show "snd (rb_put s m) = s" if "dyn_rep s q" "\<not> fst (rb_put s m)"
    using that ringbuf_push_dyn [of mem rb q m] s
    by (auto simp: rb_put_cases split: if_splits prod.splits)
  show "rb_get s = (None, s)" if "dyn_rep s []"
    using that ringbuf_pop_empty [of rb mem] s by (auto simp: rb_get_cases dyn_rep_def)
  show "fst (rb_get s) = Some m \<and> dyn_rep (snd (rb_get s)) q" if "dyn_rep s (m # q)"
    using that ringbuf_pop_dyn [of mem rb m q] s by (auto simp: rb_get_cases)
qed

interpretation fixq: msg_fifo fix_rep rb_put rb_get
proof
  fix s :: "memory \<times> k_ringbuf" and q :: "byte list list" and m :: "byte list"
  obtain mem rb where s: "s = (mem, rb)" by fastforce
  have ty: "rb_type rb = RINGBUF_TYPE_FIX" if "fix_rep s q" for q
    using that s by (simp add: fix_rep_def)
  show "fix_rep (snd (rb_put s m)) (q @ [m])" if "fix_rep s q" "fst (rb_put s m)"
    using that ringbuf_push_fix [of mem rb q m "length m"] s ty
    by (auto simp: rb_put_cases split: if_splits prod.splits)
  show "snd (rb_put s m) = s" if "fix_rep s q" "\<not> fst (rb_put s m)"
    using that ringbuf_push_fix [of mem rb q m "length m"] s ty
    by (auto simp: rb_put_cases split: if_splits prod.splits)
  show "rb_get s = (None, s)" if "fix_rep s []"
    using that ringbuf_pop_empty [of rb mem] s by (auto simp: rb_get_cases fix_rep_def)
  show "fst (rb_get s) = Some m \<and> fix_rep (snd (rb_get s)) q" if "fix_rep s (m # q)"
    using that ringbuf_pop_fix [of mem rb m q] s by (auto simp: rb_get_cases)
qed

lemma init_rep:
  assumes "krhino_ringbuf_init (Some rb0) (Some b) len type bs = (RHINO_SUCCESS, Some rb)"
  shows "dyn_rep (mem, rb) [] \<or> fix_rep (mem, rb) []"
  using assms
  by (auto simp: krhino_ringbuf_init_def ringbuf_init_def ringbuf_reset_def dyn_rep_def fix_rep_def
    ring_wf_def cap_def used_def contents_def ringbuf_type_of_def split: if_splits option.splits)

text \<open>
  C31. From an initialised ring buffer of either type, through any sequence of pushes and pops
  of the guarded interface, the messages come out unchanged and in the order in which they
  were accepted, and every message accepted and not yet popped is still there: popping on
  returns exactly those.
\<close>

theorem ringbuf_fifo_order:
  assumes "krhino_ringbuf_init (Some rb0) (Some b) len type bs = (RHINO_SUCCESS, Some rb)"
    and "fifo_run rb_put rb_get (mem, rb) ops = (s', acc, got)"
  shows "\<exists>rest. acc = got @ rest \<and>
    snd (snd (fifo_run rb_put rb_get s' (replicate (length rest) Get))) = rest"
  using init_rep [OF assms(1), of mem] dynq.run_fifo_drain [OF _ assms(2)] fixq.run_fifo_drain [OF _ assms(2)]
  by fastforce

definition rb_zero :: k_ringbuf where
  "rb_zero = \<lparr>rb_buf = 0, rb_end = 0, rb_head = 0, rb_tail = 0, freesize = 0,
     rb_type = RINGBUF_TYPE_FIX, rb_blk_size = 0\<rparr>"

theorem ringbuf_fifo_order_witness:
  "\<exists>rb s' acc got rest. krhino_ringbuf_init (Some rb_zero) (Some 0) 2 0 1 = (RHINO_SUCCESS, Some rb) \<and>
     fifo_run rb_put rb_get (\<lambda>a. 0, rb) [Put [1], Put [2], Put [3], Get, Put [4]] = (s', acc, got) \<and>
     acc = [[1], [2], [4]] \<and> got = [[1]] \<and>
     acc = got @ rest \<and>
     snd (snd (fifo_run rb_put rb_get s' (replicate (length rest) Get))) = rest"
proof -
  let ?rb = "ringbuf_init rb_zero 0 2 RINGBUF_TYPE_FIX 1"
  let ?ops = "[Put [1], Put [2], Put [3], Get, Put [4]] :: byte list fifo_op list"
  have i: "krhino_ringbuf_init (Some rb_zero) (Some 0) 2 0 1 = (RHINO_SUCCESS, Some ?rb)"
    by (simp add: krhino_ringbuf_init_def ringbuf_type_of_def)
  have r: "snd (fifo_run rb_put rb_get (\<lambda>a. 0, ?rb) ?ops) = ([[1], [2], [4]], [[1]])"
    by (simp add: rb_put_cases rb_get_cases ringbuf_push_def ringbuf_pop_def Let_def rb_zero_def
      ringbuf_is_full_def ringbuf_is_empty_def ringbuf_init_def ringbuf_reset_def wrap_tail_def
      wrap_head_def read_bytes_def memcpy_def)
  obtain s' where "fifo_run rb_put rb_get (\<lambda>a. 0, ?rb) ?ops = (s', [[1], [2], [4]], [[1]])"
    using r by (metis prod.collapse)
  with ringbuf_fifo_order [OF i this] i show ?thesis
    by blast
qed

text \<open>
  The length header is a round trip: for every length the code can represent, the header
  bytes that compression writes are decoded to that length, and the first of them tells how
  many there are.
\<close>

theorem ringbuf_headlen_round_trip:
  assumes "n \<le> 0x3fffff"
  shows "let (k, bs) = ringbuf_headlen_compress n
         in header_bytes (bs ! 0) = k \<and> ringbuf_headlen_decompress k (take k bs) = n"
  using headlen_round_trip [OF assms] header_bytes_hdr [OF assms]
  by (auto simp: hdr_def ringbuf_headlen_compress_def Let_def COMPRESS_LEN_def split: if_splits)

theorem ringbuf_headlen_round_trip_witness:
  "let (k, bs) = ringbuf_headlen_compress 20000
   in header_bytes (bs ! 0) = k \<and> ringbuf_headlen_decompress k (take k bs) = 20000"
  using ringbuf_headlen_round_trip [of 20000] by simp

text \<open>
  A push on a buffer of varying-length messages succeeds exactly when at least two bytes
  are free and header and message fit, and then appends the message; otherwise it reports
  that the buffer is full and changes nothing.
\<close>

theorem ringbuf_push_accepts:
  assumes "dyn_rep (mem, rb) q" and "length m \<le> 0x3fffff"
  shows "if 2 \<le> freesize rb \<and> COMPRESS_LEN (length m) + length m \<le> freesize rb
         then \<exists>mem' rb'. ringbuf_push mem rb ((!) m) (length m) = (RHINO_SUCCESS, mem', rb') \<and>
                dyn_rep (mem', rb') (q @ [m])
         else ringbuf_push mem rb ((!) m) (length m) = (RHINO_RINGBUF_FULL, mem, rb)"
  using ringbuf_push_dyn [OF assms] by (auto split: if_splits)

theorem ringbuf_push_accepts_witness:
  "let rb = ringbuf_init rb_zero 100 8 RINGBUF_TYPE_DYN 0 in
   (\<exists>mem' rb'. ringbuf_push (\<lambda>a. 0) rb ((!) [1, 2, 3]) 3 = (RHINO_SUCCESS, mem', rb') \<and>
                dyn_rep (mem', rb') [[1, 2, 3]])"
proof -
  let ?rb = "ringbuf_init rb_zero 100 8 RINGBUF_TYPE_DYN 0"
  have "dyn_rep (\<lambda>a. 0, ?rb) []"
    by (simp add: dyn_rep_def ringbuf_init_def ringbuf_reset_def ring_wf_def cap_def used_def
      contents_def rb_zero_def)
  then show ?thesis
    using ringbuf_push_accepts [of "\<lambda>a. 0" ?rb "[]" "[1, 2, 3]"]
    by (simp add: ringbuf_init_def ringbuf_reset_def rb_zero_def COMPRESS_LEN_def numeral_3_eq_3)
qed

end
