(* ===== verification/Bitmap.thy ===== *)
theory Bitmap
  imports Prelude
begin

unbundle bit_operations_syntax

text \<open>
  The priority bitmap of \<^verbatim>\<open>k_bitmap.h\<close> (an array of 32-bit words, priority 0 at the most
  significant bit of word 0) and the bit searches of \<^verbatim>\<open>k_ffs.c\<close>. The theorems: setting and
  clearing change exactly one bit, and the shift-and-test search returns the least set index,
  that is, the highest ready priority.
\<close>

section \<open>Operations\<close>

definition BITMAP_MASK :: "nat \<Rightarrow> 32 word" where
  "BITMAP_MASK nr = push_bit (32 - 1 - nr mod 32) 1"

definition BITMAP_WORD :: "nat \<Rightarrow> nat" where
  "BITMAP_WORD nr = drop_bit 5 nr"

definition krhino_bitmap_set :: "32 word list \<Rightarrow> nat \<Rightarrow> 32 word list outcome" where
  "krhino_bitmap_set bitmap nr =
     (if BITMAP_WORD nr < length bitmap
      then Inr (bitmap[BITMAP_WORD nr := (bitmap ! BITMAP_WORD nr) OR BITMAP_MASK nr])
      else Inl BadAccess)"

definition krhino_bitmap_clear :: "32 word list \<Rightarrow> nat \<Rightarrow> 32 word list outcome" where
  "krhino_bitmap_clear bitmap nr =
     (if BITMAP_WORD nr < length bitmap
      then Inr (bitmap[BITMAP_WORD nr := (bitmap ! BITMAP_WORD nr) AND NOT (BITMAP_MASK nr)])
      else Inl BadAccess)"

text \<open>One of the five normalisation steps: \<open>if (!(tmp & m)) { tmp <<= k; nr += k; }\<close>.\<close>

definition shift_step :: "32 word \<Rightarrow> nat \<Rightarrow> 32 word \<times> nat \<Rightarrow> 32 word \<times> nat" where
  "shift_step m k p = (if fst p AND m = 0 then (push_bit k (fst p), snd p + k) else p)"

definition find_first_bit_word :: "32 word \<Rightarrow> nat" where
  "find_first_bit_word tmp =
     (let p = shift_step 0xC0000000 2 (shift_step 0xF0000000 4
                (shift_step 0xFF000000 8 (shift_step 0xFFFF0000 16 (tmp, 0))))
      in if fst p AND 0x80000000 = 0 then snd p + 1 else snd p)"

text \<open>
  The loop over the words does not stop at the end of the array: on an all-zero bitmap it
  reads past it.
\<close>

fun krhino_find_first_bit :: "32 word list \<Rightarrow> nat outcome" where
  "krhino_find_first_bit [] = Inl BadAccess"
| "krhino_find_first_bit (w # ws) =
     (if w = 0 then bnd (krhino_find_first_bit ws) (\<lambda>nr. Inr (32 + nr))
      else Inr (find_first_bit_word w))"

definition ffs32_msb :: "32 word \<Rightarrow> nat outcome" where
  "ffs32_msb bitmap =
     (if bitmap = 0 then Inr 0
      else bnd (krhino_find_first_bit [bitmap]) (\<lambda>n. Inr (32 - n)))"

definition ffs32_lsb :: "32 word \<Rightarrow> nat outcome" where
  "ffs32_lsb bitmap =
     (if bitmap = 0 then Inr 0
      else (let x = bitmap AND (- bitmap)
            in bnd (krhino_find_first_bit [x]) (\<lambda>lsbit. Inr (32 - lsbit))))"

section \<open>Specification\<close>

text \<open>Priority \<open>nr\<close> is marked in the bitmap.\<close>

definition bitmap_test :: "32 word list \<Rightarrow> nat \<Rightarrow> bool" where
  "bitmap_test bm nr \<longleftrightarrow> nr div 32 < length bm \<and> bit (bm ! (nr div 32)) (31 - nr mod 32)"

lemma BITMAP_WORD_eq [simp]: "BITMAP_WORD nr = nr div 32"
  by (simp add: BITMAP_WORD_def drop_bit_eq_div)

lemma bit_BITMAP_MASK: "bit (BITMAP_MASK nr) n \<longleftrightarrow> n = 31 - nr mod 32"
  unfolding BITMAP_MASK_def by (auto simp: bit_simps)

lemma same_index:
  fixes a b :: nat
  assumes "a div 32 = b div 32" and "31 - a mod 32 = 31 - b mod 32"
  shows "a = b"
proof -
  have "a mod 32 < 32" and "b mod 32 < 32" by simp_all
  with assms(2) have "a mod 32 = b mod 32" by linarith
  with assms(1) show ?thesis by (metis div_mult_mod_eq)
qed

lemma bitmap_test_nth:
  "nr div 32 < length bm \<Longrightarrow> bitmap_test bm nr = bit (bm ! (nr div 32)) (31 - nr mod 32)"
  by (simp add: bitmap_test_def)

lemma bitmap_set_ok:
  assumes "nr div 32 < length bm"
  shows "ok (krhino_bitmap_set bm nr) (\<lambda>bm'. length bm' = length bm \<and>
     (\<forall>m. bitmap_test bm' m \<longleftrightarrow> m = nr \<or> bitmap_test bm m))"
  using assms
  by (auto simp: krhino_bitmap_set_def bitmap_test_def nth_list_update bit_or_iff
      bit_BITMAP_MASK dest: same_index)

lemma bitmap_clear_ok:
  assumes "nr div 32 < length bm"
  shows "ok (krhino_bitmap_clear bm nr) (\<lambda>bm'. length bm' = length bm \<and>
     (\<forall>m. bitmap_test bm' m \<longleftrightarrow> m \<noteq> nr \<and> bitmap_test bm m))"
  using assms
  by (auto simp: krhino_bitmap_clear_def bitmap_test_def nth_list_update bit_and_iff
      bit_not_iff bit_BITMAP_MASK dest: same_index)

section \<open>The search\<close>

text \<open>\<open>top_clear k t\<close>: the \<open>k\<close> most significant bits are zero.\<close>

definition top_clear :: "nat \<Rightarrow> 32 word \<Rightarrow> bool" where
  "top_clear k t \<longleftrightarrow> (\<forall>i<k. \<not> bit t (31 - i))"

lemma top_clear_mask:
  assumes "k \<le> 32"
  shows "t AND push_bit (32 - k) (mask k) = 0 \<longleftrightarrow> top_clear k t"
proof
  assume eq: "t AND push_bit (32 - k) (mask k) = 0"
  show "top_clear k t"
    unfolding top_clear_def
  proof (intro allI impI)
    fix i assume "i < k"
    have "\<not> bit (t AND push_bit (32 - k) (mask k)) (31 - i)" by (simp add: eq)
    with \<open>i < k\<close> assms show "\<not> bit t (31 - i)" by (auto simp: bit_simps)
  qed
next
  assume tc: "top_clear k t"
  show "t AND push_bit (32 - k) (mask k) = 0"
  proof (rule bit_word_eqI)
    fix n assume "n < LENGTH(32)"
    then have n: "n = 31 - (31 - n)" by simp
    have "bit t n \<Longrightarrow> \<not> 31 - n < k"
      using tc n unfolding top_clear_def by metis
    then show "bit (t AND push_bit (32 - k) (mask k)) n = bit 0 n"
      using \<open>n < LENGTH(32)\<close> assms by (auto simp: bit_simps)
  qed
qed

lemma top_clear_push:
  assumes "a + b \<le> 32" and "top_clear a w"
  shows "top_clear b (push_bit a w) \<longleftrightarrow> top_clear (a + b) w"
proof
  assume l: "top_clear b (push_bit a w)"
  show "top_clear (a + b) w"
    unfolding top_clear_def
  proof (intro allI impI)
    fix i assume i: "i < a + b"
    show "\<not> bit w (31 - i)"
    proof (cases "i < a")
      case True
      with assms(2) show ?thesis by (simp add: top_clear_def)
    next
      case False
      then have "i - a < b" using i by linarith
      with l have "\<not> bit (push_bit a w) (31 - (i - a))" unfolding top_clear_def by blast
      moreover have "31 - (i - a) - a = 31 - i" using False i assms(1) by linarith
      ultimately show ?thesis using False i assms(1) by (auto simp: bit_simps)
    qed
  qed
next
  assume r: "top_clear (a + b) w"
  show "top_clear b (push_bit a w)"
    unfolding top_clear_def
  proof (intro allI impI)
    fix i assume "i < b"
    with r have "\<not> bit w (31 - (a + i))" by (simp add: top_clear_def)
    moreover have "31 - i - a = 31 - (a + i)" by linarith
    ultimately show "\<not> bit (push_bit a w) (31 - i)" by (simp add: bit_simps)
  qed
qed

text \<open>
  The state of the search: \<open>n\<close> leading zeros have been shifted out, and the first set bit
  is among the next \<open>k\<close>.
\<close>

definition search_inv :: "32 word \<Rightarrow> nat \<Rightarrow> 32 word \<times> nat \<Rightarrow> bool" where
  "search_inv w k p \<longleftrightarrow> fst p = push_bit (snd p) w \<and> top_clear (snd p) w \<and>
     \<not> top_clear (snd p + k) w \<and> snd p + k \<le> 32"

lemma search_step:
  assumes "search_inv w (k + k) p" and "m = push_bit (32 - k) (mask k)"
  shows "search_inv w k (shift_step m k p)"
proof -
  from assms(1) have p: "fst p = push_bit (snd p) w" "top_clear (snd p) w"
    "\<not> top_clear (snd p + (k + k)) w" "snd p + (k + k) \<le> 32"
    by (simp_all add: search_inv_def)
  have c: "fst p AND m = 0 \<longleftrightarrow> top_clear (snd p + k) w"
    using top_clear_mask [of k "fst p"] top_clear_push [of "snd p" k w] p assms(2) by simp
  show ?thesis
    using p c by (auto simp: shift_step_def search_inv_def add.assoc add.commute [of k "snd p"])
qed

lemma top_clear_Suc: "top_clear (Suc n) w \<longleftrightarrow> top_clear n w \<and> \<not> bit w (31 - n)"
  by (auto simp: top_clear_def less_Suc_eq)

lemma top_clear_32: "top_clear 32 w \<longleftrightarrow> w = 0"
proof
  assume tc: "top_clear 32 w"
  show "w = 0"
  proof (rule bit_word_eqI)
    fix n assume "n < LENGTH(32)"
    then have "31 - (31 - n) = n" and "31 - n < 32" by simp_all
    with tc show "bit w n = bit 0 n" unfolding top_clear_def by (metis bit_0_eq bot_apply bot_bool_def)
  qed
qed (simp add: top_clear_def)

lemma find_first_bit_word_correct:
  assumes "w \<noteq> 0"
  shows "bit w (31 - find_first_bit_word w)" and "top_clear (find_first_bit_word w) w"
    and "find_first_bit_word w < 32"
proof -
  have "search_inv w 32 (w, 0)"
    using assms by (simp add: search_inv_def top_clear_32) (simp add: top_clear_def)
  then have "search_inv w 16 (shift_step 0xFFFF0000 16 (w, 0))"
    by (intro search_step) (simp_all add: mask_eq_exp_minus_1 push_bit_eq_mult)
  then have "search_inv w 8 (shift_step 0xFF000000 8 (shift_step 0xFFFF0000 16 (w, 0)))"
    by (intro search_step) (simp_all add: mask_eq_exp_minus_1 push_bit_eq_mult)
  then have "search_inv w 4 (shift_step 0xF0000000 4 (shift_step 0xFF000000 8
      (shift_step 0xFFFF0000 16 (w, 0))))"
    by (intro search_step) (simp_all add: mask_eq_exp_minus_1 push_bit_eq_mult)
  then have "search_inv w 2 (shift_step 0xC0000000 2 (shift_step 0xF0000000 4
      (shift_step 0xFF000000 8 (shift_step 0xFFFF0000 16 (w, 0)))))"
    by (intro search_step) (simp_all add: mask_eq_exp_minus_1 push_bit_eq_mult)
  then have "search_inv w 1 (shift_step 0x80000000 1 (shift_step 0xC0000000 2
      (shift_step 0xF0000000 4 (shift_step 0xFF000000 8 (shift_step 0xFFFF0000 16 (w, 0))))))"
    by (intro search_step) (simp_all add: mask_eq_exp_minus_1 push_bit_eq_mult numeral_2_eq_2)
  moreover have "find_first_bit_word w = snd (shift_step 0x80000000 1 (shift_step 0xC0000000 2
      (shift_step 0xF0000000 4 (shift_step 0xFF000000 8 (shift_step 0xFFFF0000 16 (w, 0))))))"
    by (simp add: find_first_bit_word_def shift_step_def Let_def)
  ultimately show "bit w (31 - find_first_bit_word w)" "top_clear (find_first_bit_word w) w"
    "find_first_bit_word w < 32"
    by (auto simp: search_inv_def top_clear_Suc)
qed

lemma bitmap_test_Cons:
  "bitmap_test (w # ws) nr \<longleftrightarrow>
     (if nr < 32 then bit w (31 - nr) else bitmap_test ws (nr - 32))"
  by (auto simp: bitmap_test_def nth_Cons' le_div_geq le_mod_geq)

lemma bitmap_test_Nil [simp]: "\<not> bitmap_test [] nr"
  by (simp add: bitmap_test_def)

lemma top_clear_test: "n < 32 \<Longrightarrow> top_clear n w \<longleftrightarrow> (\<forall>m<n. \<not> bitmap_test (w # ws) m)"
  by (auto simp: top_clear_def bitmap_test_Cons)

lemma find_first_bit_ok:
  assumes "bitmap_test bm k"
  shows "ok (krhino_find_first_bit bm)
     (\<lambda>nr. bitmap_test bm nr \<and> (\<forall>m<nr. \<not> bitmap_test bm m))"
  using assms
proof (induction bm arbitrary: k)
  case Nil
  then show ?case by simp
next
  case (Cons w ws)
  show ?case
  proof (cases "w = 0")
    case True
    with Cons.prems have "bitmap_test ws (k - 32)" by (simp add: bitmap_test_Cons split: if_splits)
    then obtain nr where "krhino_find_first_bit ws = Inr nr" "bitmap_test ws nr"
      "\<forall>m<nr. \<not> bitmap_test ws m"
      using Cons.IH by (auto simp: ok_iff)
    with True show ?thesis by (auto simp: bitmap_test_Cons)
  next
    case False
    from find_first_bit_word_correct [OF this] False show ?thesis
      by (simp add: top_clear_test [of _ w ws] bitmap_test_Cons)
  qed
qed

lemma find_first_bit_fails:
  "(\<forall>k. \<not> bitmap_test bm k) \<Longrightarrow> krhino_find_first_bit bm = Inl BadAccess"
proof (induction bm)
  case Nil
  then show ?case by simp
next
  case (Cons w ws)
  have "\<not> bit w (31 - i)" if "i < 32" for i
    using Cons.prems [rule_format, of i] that by (simp add: bitmap_test_Cons)
  then have "top_clear 32 w" by (simp add: top_clear_def)
  then have "w = 0" by (simp add: top_clear_32)
  moreover have "\<forall>k. \<not> bitmap_test ws k"
  proof
    fix k show "\<not> bitmap_test ws k" using Cons.prems [rule_format, of "k + 32"] by (simp add: bitmap_test_Cons)
  qed
  ultimately show ?case using Cons.IH by simp
qed

text \<open>
  C36. The optimised bitmap search agrees with its reference definition: it returns \<open>nr\<close>
  exactly when \<open>nr\<close> is the least index set in the bitmap (the highest ready priority), and
  it fails to return, reading past the array, exactly when no bit is set.
\<close>

theorem krhino_find_first_bit_least:
  "(krhino_find_first_bit bm = Inr nr \<longleftrightarrow>
      bitmap_test bm nr \<and> nr = (LEAST m. bitmap_test bm m)) \<and>
   (krhino_find_first_bit bm = Inl BadAccess \<longleftrightarrow> \<not> (\<exists>m. bitmap_test bm m))"
proof (cases "\<exists>k. bitmap_test bm k")
  case True
  then obtain k where "bitmap_test bm k" by blast
  from find_first_bit_ok [OF this] obtain n where
    n: "krhino_find_first_bit bm = Inr n" "bitmap_test bm n" "\<forall>m<n. \<not> bitmap_test bm m"
    by (auto simp: ok_iff)
  then have "(LEAST m. bitmap_test bm m) = n"
    by (intro Least_equality) (auto simp: not_less [symmetric])
  with n True show ?thesis by auto
next
  case False
  then show ?thesis using find_first_bit_fails [of bm] by auto
qed

section \<open>Most and least significant bit\<close>

lemma find_first_bit_single:
  "w \<noteq> 0 \<Longrightarrow> krhino_find_first_bit [w] = Inr (find_first_bit_word w)"
  by simp

lemma find_first_bit_word_single_bit:
  assumes "w \<noteq> 0" and "\<And>i. bit w i \<longleftrightarrow> i = k"
  shows "find_first_bit_word w = 31 - k \<and> k < 32"
proof -
  from assms have "bit w k" by simp
  then have "k < 32" using bit_imp_le_length by fastforce
  moreover have "31 - find_first_bit_word w = k" and "find_first_bit_word w < 32"
    using find_first_bit_word_correct [OF assms(1)] assms(2) by auto
  ultimately show ?thesis by auto
qed

lemma bit_lowest_isolated:
  fixes w :: "32 word"
  assumes "bit w k" and "\<forall>i<k. \<not> bit w i"
  shows "bit (w AND - w) i \<longleftrightarrow> i = k"
proof -
  have k: "k < 32" using assms(1) bit_imp_le_length by fastforce
  have "w - 1 = (w - 2 ^ k) + (2 ^ k - 1)" by simp
  also have "w - 2 ^ k = unset_bit k w" using assms(1) by (simp add: unset_bit_eq)
  also have "(2 ^ k - 1 :: 32 word) = mask k" by (simp add: mask_eq_exp_minus_1)
  also have "unset_bit k w + mask k = unset_bit k w OR mask k"
    using assms(2) by (intro disjunctive_add_eq_or) (auto intro!: bit_word_eqI simp: bit_simps)
  finally have pred: "w - 1 = unset_bit k w OR mask k" .
  have "- w = NOT (w - 1)" by (simp add: minus_eq_not_minus_1)
  then show ?thesis
    using pred assms k bit_imp_le_length [of w i] by (auto simp: bit_simps)
qed

text \<open>
  \<open>ffs32_msb\<close> and \<open>ffs32_lsb\<close> number the bits of a non-zero word from 1 and return
  the position of its most significant and of its least significant set bit.
\<close>

theorem ffs32_positions:
  assumes "w \<noteq> 0"
  shows "\<exists>m l. ffs32_msb w = Inr (m + 1) \<and> ffs32_lsb w = Inr (l + 1) \<and>
     bit w m \<and> (\<forall>i>m. \<not> bit w i) \<and> bit w l \<and> (\<forall>i<l. \<not> bit w i)"
proof -
  let ?n = "find_first_bit_word w"
  note n = find_first_bit_word_correct [OF assms]
  define l where "l = (LEAST i. bit w i)"
  have bl: "bit w l" unfolding l_def by (rule LeastI [of _ "31 - ?n"]) (rule n(1))
  have ll: "\<forall>i<l. \<not> bit w i" unfolding l_def using not_less_Least by blast
  let ?x = "w AND - w"
  note x = bit_lowest_isolated [OF bl ll]
  have "?x \<noteq> 0" using x [of l] by auto
  with x have fx: "find_first_bit_word ?x = 31 - l \<and> l < 32"
    by (intro find_first_bit_word_single_bit) auto
  have hi: "\<not> bit w i" if "i > 31 - ?n" for i
  proof (cases "i < 32")
    case True
    then have "31 - i < ?n" and "31 - (31 - i) = i" using that n(3) by linarith+
    then show ?thesis using n(2) unfolding top_clear_def by metis
  next
    case False
    then show ?thesis using bit_imp_le_length [of w i] by auto
  qed
  have "ffs32_msb w = Inr (31 - ?n + 1)" using assms n(3) by (simp add: ffs32_msb_def)
  moreover have "ffs32_lsb w = Inr (l + 1)"
    using assms fx \<open>?x \<noteq> 0\<close> by (simp add: ffs32_lsb_def Let_def)
  ultimately show ?thesis using n(1) hi bl ll by blast
qed

theorem ffs32_positions_witness:
  "(20 :: 32 word) \<noteq> 0 \<and> (\<exists>m l. ffs32_msb 20 = Inr (m + 1) \<and> ffs32_lsb 20 = Inr (l + 1) \<and>
     bit (20 :: 32 word) m \<and> (\<forall>i>m. \<not> bit (20 :: 32 word) i) \<and>
     bit (20 :: 32 word) l \<and> (\<forall>i<l. \<not> bit (20 :: 32 word) i))"
proof -
  have h: "(20 :: 32 word) \<noteq> 0" by simp
  show ?thesis using h ffs32_positions [OF h] by (intro conjI)
qed

end
