(* ===== verification/KState.thy ===== *)
theory KState
  imports RingBuf Bitmap
begin

text \<open>
  The state of the Rhino kernel (\<^verbatim>\<open>k_obj.c\<close>, \<^verbatim>\<open>k_obj.h\<close>, \<^verbatim>\<open>k_task.h\<close> and the object headers) for
  one CPU (\<^verbatim>\<open>RHINO_CONFIG_CPU_NUM\<close> is 1). A pointer to a task control block or to a kernel object
  is its identifier, NULL is \<open>None\<close>. The intrusive lists are HOL lists of identifiers, in
  the order of the links (theory \<open>KList\<close> justifies this); as a task is linked into at most one
  of them through \<open>task_list\<close>, taking it off its list is removing it from every block list. The
  block object is the first member of each object struct, so it lives under the same identifier.
\<close>

section \<open>Configuration\<close>

type_synonym tid = nat
type_synonym oid = nat
type_synonym tick = "64 word"

definition RHINO_CONFIG_PRI_MAX :: nat where [simp]: "RHINO_CONFIG_PRI_MAX = 62"
definition RHINO_IDLE_PRI :: nat where [simp]: "RHINO_IDLE_PRI = RHINO_CONFIG_PRI_MAX - 1"
definition RHINO_WAIT_FOREVER :: tick where "RHINO_WAIT_FOREVER = -1"
definition RHINO_NO_WAIT :: tick where "RHINO_NO_WAIT = 0"
definition SCHED_MAX_LOCK_COUNT :: "8 word" where "SCHED_MAX_LOCK_COUNT = 200"
definition RHINO_CONFIG_INTRPT_MAX_NESTED_LEVEL :: "8 word" where
  "RHINO_CONFIG_INTRPT_MAX_NESTED_LEVEL = 188"
definition RHINO_CONFIG_TIME_SLICE_DEFAULT :: "32 word" where "RHINO_CONFIG_TIME_SLICE_DEFAULT = 50"
definition RHINO_CONFIG_TICKS_PER_SECOND :: nat where "RHINO_CONFIG_TICKS_PER_SECOND = 100"
definition RHINO_CONFIG_TASK_INFO_NUM :: nat where "RHINO_CONFIG_TASK_INFO_NUM = 2"
definition KSCHED_FIFO :: "8 word" where "KSCHED_FIFO = 0"
definition KSCHED_RR :: "8 word" where "KSCHED_RR = 1"
definition K_OBJ_STATIC_ALLOC :: "8 word" where "K_OBJ_STATIC_ALLOC = 1"
definition K_OBJ_DYN_ALLOC :: "8 word" where "K_OBJ_DYN_ALLOC = 2"

section \<open>Data\<close>

datatype (plugins only: code size) task_stat =
  K_SEED | K_RDY | K_PEND | K_SUSPENDED | K_PEND_SUSPENDED | K_SLEEP | K_SLEEP_SUSPENDED | K_DELETED

datatype (plugins only: code size) blk_state =
  BLK_FINISH | BLK_ABORT | BLK_TIMEOUT | BLK_DEL | BLK_INVALID

datatype (plugins only: code size) blk_policy = BLK_POLICY_PRI | BLK_POLICY_FIFO

text \<open>\<open>t_mutex_list\<close> is the singly linked chain of held mutexes, most recent first; \<open>tick_head\<close>
  tells whether the pointer of that name is \<open>&g_tick_head\<close> or NULL.\<close>

record ktask =
  task_stack_base :: nat
  user_info :: "nat list"
  stack_size :: nat
  suspend_count :: "8 word"
  t_mutex_list :: "oid list"
  tick_match :: tick
  tick_remain :: tick
  tick_head :: bool
  msg :: nat
  bq_msg_size :: nat
  task_name :: "string option"
  task_state :: task_stat
  t_blk_state :: blk_state
  blk_obj :: "oid option"
  task_sem_obj :: "oid option"
  time_slice :: "32 word"
  time_total :: "32 word"
  pend_flags :: "32 word"
  pend_info :: nat
  pend_option :: "8 word"
  sched_policy :: "8 word"
  prio :: nat
  b_prio :: nat
  t_mm_alloc_flag :: "8 word"

record blk_obj_t =
  blk_list :: "tid list"
  blk_name :: "string option"
  blk_policy :: blk_policy
  obj_type :: kobj_type

record ksem =
  count :: "32 word"
  peak_count :: "32 word"
  sem_alloc_flag :: "8 word"

record kmutex =
  mutex_task :: "tid option"
  owner_nested :: "32 word"
  mutex_alloc_flag :: "8 word"

record kevent =
  flags :: "32 word"
  event_alloc_flag :: "8 word"

record kqueue =
  q_ringbuf :: k_ringbuf
  queue_start :: nat
  q_size :: nat
  q_cur_num :: nat
  q_peak_num :: nat
  queue_alloc_flag :: "8 word"

record kbuf_queue =
  bq_buf :: nat
  bq_ringbuf :: k_ringbuf
  max_msg_size :: nat
  bq_cur_num :: nat
  bq_peak_num :: nat
  min_free_buf_size :: nat
  bq_alloc_flag :: "8 word"

text \<open>\<open>cur_list_item p\<close> is the circular list of ready tasks of priority \<open>p\<close> read from the current
  item on; the empty list is the NULL pointer.\<close>

record runqueue =
  cur_list_item :: "nat \<Rightarrow> tid list"
  task_bit_map :: "32 word list"
  highest_pri :: nat

record kobj_list =
  task_head :: "tid list"
  mutex_head :: "oid list"
  sem_head :: "oid list"
  queue_head :: "oid list"
  event_head :: "oid list"
  buf_queue_head :: "oid list"

text \<open>A resource to be freed by the memory task: the words found in its \<open>res\<close> array, of which the
  first \<open>cnt\<close> count.\<close>

record res_free =
  res_cnt :: nat
  res :: "nat list"

record kstate =
  g_sys_stat :: kstat
  g_idle_task_spawned :: "8 word"
  g_ready_queue :: runqueue
  g_sched_lock :: "8 word"
  g_intrpt_nested_level :: "8 word"
  g_preferred_ready_task :: "tid option"
  g_active_task :: "tid option"
  g_tick_count :: tick
  g_tick_head :: "tid list"
  g_kobj_list :: kobj_list
  g_res_list :: "res_free list"
  tasks :: "tid \<Rightarrow> ktask"
  blks :: "oid \<Rightarrow> blk_obj_t"
  sems :: "oid \<Rightarrow> ksem"
  mutexes :: "oid \<Rightarrow> kmutex"
  events :: "oid \<Rightarrow> kevent"
  queues :: "oid \<Rightarrow> kqueue"
  buf_queues :: "oid \<Rightarrow> kbuf_queue"
  mem :: memory
  cells :: "nat \<Rightarrow> 32 word"

text \<open>The addresses of the kernel's own static objects.\<close>

definition g_idle_task :: tid where "g_idle_task = 0"
definition g_dyn_task :: tid where "g_dyn_task = 1"
definition g_timer_task :: tid where "g_timer_task = 2"
definition g_cpu_usage_task :: tid where "g_cpu_usage_task = 3"
definition g_res_sem :: oid where "g_res_sem = 0"
definition g_timer_queue :: oid where "g_timer_queue = 1"

section \<open>Field updates\<close>

definition upd_task :: "tid \<Rightarrow> (ktask \<Rightarrow> ktask) \<Rightarrow> kstate \<Rightarrow> kstate" where
  "upd_task t f s = s\<lparr>tasks := (tasks s)(t := f (tasks s t))\<rparr>"

definition upd_blk :: "oid \<Rightarrow> (blk_obj_t \<Rightarrow> blk_obj_t) \<Rightarrow> kstate \<Rightarrow> kstate" where
  "upd_blk b f s = s\<lparr>blks := (blks s)(b := f (blks s b))\<rparr>"

definition upd_kobj :: "(kobj_list \<Rightarrow> kobj_list) \<Rightarrow> kstate \<Rightarrow> kstate" where
  "upd_kobj f s = s\<lparr>g_kobj_list := f (g_kobj_list s)\<rparr>"

text \<open>\<open>klist_rm(&task->task_list)\<close> of a task that is on a block list.\<close>

definition blk_list_rm :: "tid \<Rightarrow> kstate \<Rightarrow> kstate" where
  "blk_list_rm t s = s\<lparr>blks := (\<lambda>b. (blks s b)\<lparr>blk_list := remove1 t (blk_list (blks s b))\<rparr>)\<rparr>"

text \<open>The task running on the CPU; reading through a NULL pointer is a bad access.\<close>

definition active :: "kstate \<Rightarrow> tid outcome" where
  "active s = deref (g_active_task s)"

text \<open>Views of the state: the fields of all tasks and objects as functions.\<close>

definition st :: "kstate \<Rightarrow> tid \<Rightarrow> task_stat" where "st s t = task_state (tasks s t)"
definition pri :: "kstate \<Rightarrow> tid \<Rightarrow> nat" where "pri s t = prio (tasks s t)"
definition bo :: "kstate \<Rightarrow> tid \<Rightarrow> oid option" where "bo s t = blk_obj (tasks s t)"
definition held :: "kstate \<Rightarrow> tid \<Rightarrow> oid list" where "held s t = t_mutex_list (tasks s t)"
definition tkh :: "kstate \<Rightarrow> tid \<Rightarrow> bool" where "tkh s t = tick_head (tasks s t)"
definition tkm :: "kstate \<Rightarrow> tid \<Rightarrow> tick" where "tkm s t = tick_match (tasks s t)"
definition bl :: "kstate \<Rightarrow> oid \<Rightarrow> tid list" where "bl s b = blk_list (blks s b)"
definition pol :: "kstate \<Rightarrow> oid \<Rightarrow> blk_policy" where "pol s b = blk_policy (blks s b)"
definition ty :: "kstate \<Rightarrow> oid \<Rightarrow> kobj_type" where "ty s b = obj_type (blks s b)"
definition own :: "kstate \<Rightarrow> oid \<Rightarrow> tid option" where "own s m = mutex_task (mutexes s m)"

lemmas view_defs = st_def pri_def bo_def held_def tkh_def tkm_def bl_def pol_def ty_def own_def

end
