(* ===== verification/Sched.thy ===== *)
theory Sched
  imports KState
begin

text \<open>
  The scheduler of \<^verbatim>\<open>k_sched.c\<close>: the ready queue (one circular list per priority, a bitmap of the
  non-empty ones, the highest priority), the choice of the next task, the scheduler lock and
  round robin. The locale \<open>ready_queue\<close> is the contract the rest of the kernel relies on; it is
  interpreted by the routines of the source.
\<close>

section \<open>The ready queue\<close>

definition runqueue_init :: "runqueue \<Rightarrow> runqueue" where
  "runqueue_init rq = rq\<lparr>highest_pri := RHINO_CONFIG_PRI_MAX,
     cur_list_item := (\<lambda>p. if p < RHINO_CONFIG_PRI_MAX then [] else cur_list_item rq p)\<rparr>"

text \<open>\<open>rq->cur_list_item[pri]\<close>; an index beyond the array is a bad access.\<close>

definition ready_item :: "runqueue \<Rightarrow> nat \<Rightarrow> tid list outcome" where
  "ready_item rq p = (if p < RHINO_CONFIG_PRI_MAX then Inr (cur_list_item rq p) else Inl BadAccess)"

definition set_item :: "runqueue \<Rightarrow> nat \<Rightarrow> tid list \<Rightarrow> runqueue" where
  "set_item rq p xs = rq\<lparr>cur_list_item := (cur_list_item rq)(p := xs)\<rparr>"

definition ready_list_init :: "runqueue \<Rightarrow> tid \<Rightarrow> nat \<Rightarrow> runqueue outcome" where
  "ready_list_init rq task p =
     bnd (krhino_bitmap_set (task_bit_map rq) p) (\<lambda>bm.
       let rq = (set_item rq p [task])\<lparr>task_bit_map := bm\<rparr>
       in Inr (if p < highest_pri rq then rq\<lparr>highest_pri := p\<rparr> else rq))"

definition is_ready_list_empty :: "runqueue \<Rightarrow> nat \<Rightarrow> bool outcome" where
  "is_ready_list_empty rq p = bnd (ready_item rq p) (\<lambda>xs. Inr (xs = []))"

definition ready_list_add_tail_rq :: "runqueue \<Rightarrow> tid \<Rightarrow> nat \<Rightarrow> runqueue outcome" where
  "ready_list_add_tail_rq rq task p =
     bnd (is_ready_list_empty rq p) (\<lambda>e.
       if e then ready_list_init rq task p
       else Inr (set_item rq p (cur_list_item rq p @ [task])))"

definition ready_list_add_head_rq :: "runqueue \<Rightarrow> tid \<Rightarrow> nat \<Rightarrow> runqueue outcome" where
  "ready_list_add_head_rq rq task p =
     bnd (is_ready_list_empty rq p) (\<lambda>e.
       if e then ready_list_init rq task p
       else Inr (set_item rq p (task # cur_list_item rq p)))"

definition ready_list_rm_rq :: "runqueue \<Rightarrow> tid \<Rightarrow> nat \<Rightarrow> runqueue outcome" where
  "ready_list_rm_rq rq task p =
     bnd (ready_item rq p) (\<lambda>xs.
       if xs = [] then Inl BadAccess
       else if tl xs \<noteq> []
       then Inr (if hd xs = task then set_item rq p (tl xs) else set_item rq p (remove1 task xs))
       else bnd (krhino_bitmap_clear (task_bit_map rq) p) (\<lambda>bm.
         let rq = (set_item rq p [])\<lparr>task_bit_map := bm\<rparr>
         in if p \<noteq> highest_pri rq then Inr rq
            else bnd (krhino_find_first_bit (task_bit_map rq)) (\<lambda>i. Inr (rq\<lparr>highest_pri := i\<rparr>))))"

definition ready_list_head_to_tail_rq :: "runqueue \<Rightarrow> nat \<Rightarrow> runqueue outcome" where
  "ready_list_head_to_tail_rq rq p =
     bnd (ready_item rq p) (\<lambda>xs.
       if xs = [] then Inl BadAccess else Inr (set_item rq p (rotate1 xs)))"

definition preferred_of :: "runqueue \<Rightarrow> tid outcome" where
  "preferred_of rq =
     bnd (ready_item rq (highest_pri rq)) (\<lambda>xs. if xs = [] then Inl BadAccess else Inr (hd xs))"

section \<open>On the kernel state\<close>

definition with_rq :: "(runqueue \<Rightarrow> runqueue outcome) \<Rightarrow> kstate \<Rightarrow> kstate outcome" where
  "with_rq f s = bnd (f (g_ready_queue s)) (\<lambda>rq. Inr (s\<lparr>g_ready_queue := rq\<rparr>))"

definition ready_list_add_tail :: "tid \<Rightarrow> kstate \<Rightarrow> kstate outcome" where
  "ready_list_add_tail t s = with_rq (\<lambda>rq. ready_list_add_tail_rq rq t (pri s t)) s"

definition ready_list_add_head :: "tid \<Rightarrow> kstate \<Rightarrow> kstate outcome" where
  "ready_list_add_head t s = with_rq (\<lambda>rq. ready_list_add_head_rq rq t (pri s t)) s"

definition ready_list_add :: "tid \<Rightarrow> kstate \<Rightarrow> kstate outcome" where
  "ready_list_add t s =
     bnd (active s) (\<lambda>a.
       if pri s t = pri s a then ready_list_add_tail t s else ready_list_add_head t s)"

definition ready_list_rm :: "tid \<Rightarrow> kstate \<Rightarrow> kstate outcome" where
  "ready_list_rm t s = with_rq (\<lambda>rq. ready_list_rm_rq rq t (pri s t)) s"

definition ready_list_head_to_tail :: "tid \<Rightarrow> kstate \<Rightarrow> kstate outcome" where
  "ready_list_head_to_tail t s = with_rq (\<lambda>rq. ready_list_head_to_tail_rq rq (pri s t)) s"

definition preferred_cpu_ready_task_get :: "kstate \<Rightarrow> kstate outcome" where
  "preferred_cpu_ready_task_get s =
     bnd (preferred_of (g_ready_queue s)) (\<lambda>t. Inr (s\<lparr>g_preferred_ready_task := Some t\<rparr>))"

text \<open>The context switch of the port (\<^verbatim>\<open>port_s.S\<close>) makes the preferred task the active one.\<close>

definition cpu_task_switch :: "kstate \<Rightarrow> kstate" where
  "cpu_task_switch s = s\<lparr>g_active_task := g_preferred_ready_task s\<rparr>"

definition core_sched :: "kstate \<Rightarrow> kstate outcome" where
  "core_sched s =
     (if g_intrpt_nested_level s > 0 then Inr s
      else if g_sched_lock s > 0 then Inr s
      else bnd (preferred_cpu_ready_task_get s) (\<lambda>s.
        if g_preferred_ready_task s = g_active_task s then Inr s else Inr (cpu_task_switch s)))"

definition krhino_sched_disable :: "kstate \<Rightarrow> kstat \<times> kstate" where
  "krhino_sched_disable s =
     (if g_intrpt_nested_level s > 0 then (RHINO_NOT_CALLED_BY_INTRPT, s)
      else if g_sched_lock s \<ge> SCHED_MAX_LOCK_COUNT then (RHINO_SCHED_LOCK_COUNT_OVF, s)
      else (RHINO_SUCCESS, s\<lparr>g_sched_lock := g_sched_lock s + 1\<rparr>))"

text \<open>Leaving a critical section with \<open>RHINO_CRITICAL_EXIT_SCHED\<close> and returning a status.\<close>

definition exit_sched :: "kstat \<Rightarrow> kstate \<Rightarrow> (kstat \<times> kstate) outcome" where
  "exit_sched e s = bnd (core_sched s) (\<lambda>s. Inr (e, s))"

definition krhino_sched_enable :: "kstate \<Rightarrow> (kstat \<times> kstate) outcome" where
  "krhino_sched_enable s =
     (if g_intrpt_nested_level s > 0 then Inr (RHINO_NOT_CALLED_BY_INTRPT, s)
      else if g_sched_lock s = 0 then Inr (RHINO_SCHED_ALREADY_ENABLED, s)
      else (let s = s\<lparr>g_sched_lock := g_sched_lock s - 1\<rparr>
            in if g_sched_lock s > 0 then Inr (RHINO_SCHED_DISABLE, s)
               else exit_sched RHINO_SUCCESS s))"

definition sched_time_slice_update :: "kstate \<Rightarrow> kstate outcome" where
  "sched_time_slice_update s =
     bnd (active s) (\<lambda>a.
     bnd (ready_item (g_ready_queue s) (pri s a)) (\<lambda>xs.
       if xs = [] then Inr s
       else (let task = hd xs in
         if sched_policy (tasks s task) = KSCHED_FIFO then Inr s
         else if tl xs = [] then Inr s
         else (let s = (if time_slice (tasks s task) > 0
                        then upd_task task (\<lambda>k. k\<lparr>time_slice := time_slice k - 1\<rparr>) s else s)
               in if time_slice (tasks s task) > 0 then Inr s
                  else bnd (ready_list_head_to_tail task s) (\<lambda>s.
                    Inr (upd_task task (\<lambda>k. k\<lparr>time_slice := time_total k\<rparr>) s))))))"

section \<open>The contract of a ready queue\<close>

locale ready_queue =
  fixes inv :: "'r \<Rightarrow> bool" and items :: "'r \<Rightarrow> nat \<Rightarrow> 'a list" and top :: nat
    and add_tail :: "'r \<Rightarrow> 'a \<Rightarrow> nat \<Rightarrow> 'r outcome"
    and add_head :: "'r \<Rightarrow> 'a \<Rightarrow> nat \<Rightarrow> 'r outcome"
    and remove :: "'r \<Rightarrow> 'a \<Rightarrow> nat \<Rightarrow> 'r outcome"
    and rotate :: "'r \<Rightarrow> nat \<Rightarrow> 'r outcome"
    and best :: "'r \<Rightarrow> 'a outcome"
  assumes items_range: "inv r \<Longrightarrow> items r p \<noteq> [] \<Longrightarrow> p < top"
    and items_distinct: "inv r \<Longrightarrow> distinct (items r p)"
    and add_tail: "inv r \<Longrightarrow> p < top \<Longrightarrow> t \<notin> set (items r p) \<Longrightarrow>
      ok (add_tail r t p) (\<lambda>r'. inv r' \<and> items r' = (items r)(p := items r p @ [t]))"
    and add_head: "inv r \<Longrightarrow> p < top \<Longrightarrow> t \<notin> set (items r p) \<Longrightarrow>
      ok (add_head r t p) (\<lambda>r'. inv r' \<and> items r' = (items r)(p := t # items r p))"
    and remove: "inv r \<Longrightarrow> t \<in> set (items r p) \<Longrightarrow> u \<in> set (items r q) \<Longrightarrow> (u, q) \<noteq> (t, p) \<Longrightarrow>
      ok (remove r t p) (\<lambda>r'. inv r' \<and> items r' = (items r)(p := remove1 t (items r p)))"
    and rotate: "inv r \<Longrightarrow> items r p \<noteq> [] \<Longrightarrow>
      ok (rotate r p) (\<lambda>r'. inv r' \<and> items r' = (items r)(p := rotate1 (items r p)))"
    and best: "inv r \<Longrightarrow> items r p \<noteq> [] \<Longrightarrow> (\<forall>q<p. items r q = []) \<Longrightarrow> best r = Inr (hd (items r p))"
begin

lemma best_highest:
  assumes "inv r" "items r q \<noteq> []"
  shows "\<exists>p. best r = Inr (hd (items r p)) \<and> items r p \<noteq> [] \<and> (\<forall>q. items r q \<noteq> [] \<longrightarrow> p \<le> q)"
proof -
  define p where "p = (LEAST p. items r p \<noteq> [])"
  have p: "items r p \<noteq> []" "\<forall>q<p. items r q = []" "\<forall>q. items r q \<noteq> [] \<longrightarrow> p \<le> q"
    unfolding p_def using LeastI [of "\<lambda>p. items r p \<noteq> []", OF assms(2)]
    by (auto dest: not_less_Least intro: Least_le)
  with best [OF assms(1) p(1,2)] show ?thesis by blast
qed

text \<open>A task added at a priority above all others is the next to run.\<close>

lemma add_tail_preempts:
  assumes "inv r" "p < top" "\<And>q. items r q \<noteq> [] \<Longrightarrow> p < q"
  shows "ok (add_tail r t p) (\<lambda>r'. best r' = Inr t)"
proof -
  have e: "items r p = []" using assms(3) [of p] by auto
  have "ok (add_tail r t p) (\<lambda>r'. inv r' \<and> items r' = (items r)(p := [t]))"
    using add_tail [OF assms(1,2), of t] e by simp
  then show ?thesis
  proof (rule ok_mono)
    fix r' assume r': "inv r' \<and> items r' = (items r)(p := [t])"
    have "items r q = []" if "q < p" for q
      using assms(3) [of q] that by auto
    then show "best r' = Inr t"
      using best [of r' p] r' by simp
  qed
qed

end

definition rq_inv :: "runqueue \<Rightarrow> bool" where
  "rq_inv rq \<longleftrightarrow> length (task_bit_map rq) = 2 \<and>
     (\<forall>p. bitmap_test (task_bit_map rq) p \<longleftrightarrow> cur_list_item rq p \<noteq> []) \<and>
     (\<forall>p. cur_list_item rq p \<noteq> [] \<longrightarrow> p < RHINO_CONFIG_PRI_MAX) \<and>
     (\<forall>p. distinct (cur_list_item rq p)) \<and>
     (\<forall>p. cur_list_item rq p \<noteq> [] \<longrightarrow> highest_pri rq \<le> p \<and> cur_list_item rq (highest_pri rq) \<noteq> []) \<and>
     ((\<forall>p. cur_list_item rq p = []) \<longrightarrow> highest_pri rq = RHINO_CONFIG_PRI_MAX)"

lemma rq_invD:
  assumes "rq_inv rq"
  shows "length (task_bit_map rq) = 2" "\<And>p. bitmap_test (task_bit_map rq) p \<longleftrightarrow> cur_list_item rq p \<noteq> []"
    "\<And>p. cur_list_item rq p \<noteq> [] \<Longrightarrow> p < 62" "\<And>p. distinct (cur_list_item rq p)"
    "\<And>p. cur_list_item rq p \<noteq> [] \<Longrightarrow> highest_pri rq \<le> p"
    "\<And>p. cur_list_item rq p \<noteq> [] \<Longrightarrow> cur_list_item rq (highest_pri rq) \<noteq> []"
    "(\<forall>p. cur_list_item rq p = []) \<Longrightarrow> highest_pri rq = 62"
  using assms by (auto simp: rq_inv_def)

lemma ready_item_ok: "p < 62 \<Longrightarrow> ready_item rq p = Inr (cur_list_item rq p)"
  by (simp add: ready_item_def)

lemma ready_list_init_ok:
  assumes "rq_inv rq" "p < 62" "cur_list_item rq p = []"
  shows "ok (ready_list_init rq t p) (\<lambda>rq'. rq_inv rq' \<and> cur_list_item rq' = (cur_list_item rq)(p := [t]))"
proof -
  note d = rq_invD [OF assms(1)]
  have "ok (krhino_bitmap_set (task_bit_map rq) p) (\<lambda>bm'. length bm' = 2 \<and>
     (\<forall>m. bitmap_test bm' m \<longleftrightarrow> m = p \<or> bitmap_test (task_bit_map rq) m))"
    using bitmap_set_ok [of p "task_bit_map rq"] assms(2) d(1) by simp
  then show ?thesis
    unfolding ready_list_init_def ok_bnd
  proof (rule ok_mono)
    fix bm assume bm: "length bm = 2 \<and> (\<forall>m. bitmap_test bm m \<longleftrightarrow> m = p \<or> bitmap_test (task_bit_map rq) m)"
    show "ok (let rq = (set_item rq p [t])\<lparr>task_bit_map := bm\<rparr>
       in Inr (if p < highest_pri rq then rq\<lparr>highest_pri := p\<rparr> else rq))
       (\<lambda>rq'. rq_inv rq' \<and> cur_list_item rq' = (cur_list_item rq)(p := [t]))"
    proof (cases "\<forall>q. cur_list_item rq q = []")
      case True
      then show ?thesis
        using bm d assms by (simp add: set_item_def Let_def rq_inv_def)
    next
      case False
      then obtain q where q: "cur_list_item rq q \<noteq> []" by blast
      then have h: "cur_list_item rq (highest_pri rq) \<noteq> []" "highest_pri rq \<noteq> p"
        using d(6) assms(3) by metis+
      show ?thesis
        using bm d assms h by (auto simp: set_item_def Let_def rq_inv_def dest: d(5) intro: less_imp_le order.trans)
    qed
  qed
qed

lemma set_item_inv:
  assumes "rq_inv rq" "cur_list_item rq p \<noteq> []" "xs \<noteq> []" "distinct xs"
  shows "rq_inv (set_item rq p xs) \<and> cur_list_item (set_item rq p xs) = (cur_list_item rq)(p := xs)"
  using assms rq_invD [OF assms(1)] by (auto simp: set_item_def rq_inv_def)

lemma ready_list_add_tail_rq_ok:
  assumes "rq_inv rq" "p < 62" "t \<notin> set (cur_list_item rq p)"
  shows "ok (ready_list_add_tail_rq rq t p)
    (\<lambda>rq'. rq_inv rq' \<and> cur_list_item rq' = (cur_list_item rq)(p := cur_list_item rq p @ [t]))"
  using ready_list_init_ok [OF assms(1,2), of t] set_item_inv [OF assms(1), of p "cur_list_item rq p @ [t]"]
    assms rq_invD(4) [OF assms(1)]
  by (cases "cur_list_item rq p = []")
    (simp_all add: ready_list_add_tail_rq_def is_ready_list_empty_def ready_item_ok)

lemma ready_list_add_head_rq_ok:
  assumes "rq_inv rq" "p < 62" "t \<notin> set (cur_list_item rq p)"
  shows "ok (ready_list_add_head_rq rq t p)
    (\<lambda>rq'. rq_inv rq' \<and> cur_list_item rq' = (cur_list_item rq)(p := t # cur_list_item rq p))"
  using ready_list_init_ok [OF assms(1,2), of t] set_item_inv [OF assms(1), of p "t # cur_list_item rq p"]
    assms rq_invD(4) [OF assms(1)]
  by (cases "cur_list_item rq p = []")
    (simp_all add: ready_list_add_head_rq_def is_ready_list_empty_def ready_item_ok)

lemma ready_list_rm_rq_ok:
  assumes inv: "rq_inv rq" and t: "t \<in> set (cur_list_item rq p)"
    and u: "u \<in> set (cur_list_item rq q)" "(u, q) \<noteq> (t, p)"
  shows "ok (ready_list_rm_rq rq t p)
    (\<lambda>rq'. rq_inv rq' \<and> cur_list_item rq' = (cur_list_item rq)(p := remove1 t (cur_list_item rq p)))"
proof -
  note d = rq_invD [OF inv]
  let ?xs = "cur_list_item rq p"
  have ne: "?xs \<noteq> []" using t by auto
  have p: "p < 62" using ne by (rule d(3))
  show ?thesis
  proof (cases "tl ?xs = []")
    case False
    then have r: "remove1 t ?xs \<noteq> []" "distinct (remove1 t ?xs)" "hd ?xs = t \<Longrightarrow> tl ?xs = remove1 t ?xs"
      using ne d(4) [of p] by (cases ?xs; cases "tl ?xs"; auto)+
    then show ?thesis
      using set_item_inv [OF inv ne r(1,2)] ne p False
      by (auto simp: ready_list_rm_rq_def ready_item_ok)
  next
    case True
    then have xs: "?xs = [t]" using t ne by (cases ?xs) auto
    then have q: "q \<noteq> p" "cur_list_item rq q \<noteq> []" using u by auto
    have bm: "ok (krhino_bitmap_clear (task_bit_map rq) p) (\<lambda>bm'. length bm' = 2 \<and>
       (\<forall>m. bitmap_test bm' m \<longleftrightarrow> m \<noteq> p \<and> bitmap_test (task_bit_map rq) m))"
      using bitmap_clear_ok [of p "task_bit_map rq"] p d(1) by simp
    have "ok (let rq = (set_item rq p [])\<lparr>task_bit_map := bm\<rparr>
         in if p \<noteq> highest_pri rq then Inr rq
            else bnd (krhino_find_first_bit (task_bit_map rq)) (\<lambda>i. Inr (rq\<lparr>highest_pri := i\<rparr>)))
        (\<lambda>rq'. rq_inv rq' \<and> cur_list_item rq' = (cur_list_item rq)(p := []))"
      if b: "length bm = 2 \<and> (\<forall>m. bitmap_test bm m \<longleftrightarrow> m \<noteq> p \<and> bitmap_test (task_bit_map rq) m)" for bm
    proof (cases "p = highest_pri rq")
      case False
      have "cur_list_item rq (highest_pri rq) \<noteq> []" using q(2) by (rule d(6))
      then show ?thesis
        using b d(1-5) q False by (auto simp: Let_def set_item_def rq_inv_def)
    next
      case True
      have "bitmap_test bm q"
        using b d(2) q by simp
      then have "ok (krhino_find_first_bit bm) (\<lambda>nr. bitmap_test bm nr \<and> (\<forall>m<nr. \<not> bitmap_test bm m))"
        by (rule find_first_bit_ok)
      then show ?thesis
        using True q b d(1-4) unfolding Let_def
        by (auto simp: ok_iff set_item_def rq_inv_def not_less [symmetric])
    qed
    then show ?thesis
      using ok_mono [OF bm] xs p by (simp add: ready_list_rm_rq_def ready_item_ok)
  qed
qed

interpretation rq: ready_queue rq_inv cur_list_item RHINO_CONFIG_PRI_MAX ready_list_add_tail_rq
  ready_list_add_head_rq ready_list_rm_rq ready_list_head_to_tail_rq preferred_of
proof
  fix r p and t :: tid
  assume inv: "rq_inv r"
  note d = rq_invD [OF inv]
  show "distinct (cur_list_item r p)" using d(4) .
  show "p < RHINO_CONFIG_PRI_MAX" if "cur_list_item r p \<noteq> []"
    using d(3) [OF that] by simp
  show "ok (ready_list_add_tail_rq r t p)
      (\<lambda>r'. rq_inv r' \<and> cur_list_item r' = (cur_list_item r)(p := cur_list_item r p @ [t]))"
    if "p < RHINO_CONFIG_PRI_MAX" "t \<notin> set (cur_list_item r p)"
    using ready_list_add_tail_rq_ok [OF inv] that by simp
  show "ok (ready_list_add_head_rq r t p)
      (\<lambda>r'. rq_inv r' \<and> cur_list_item r' = (cur_list_item r)(p := t # cur_list_item r p))"
    if "p < RHINO_CONFIG_PRI_MAX" "t \<notin> set (cur_list_item r p)"
    using ready_list_add_head_rq_ok [OF inv] that by simp
  show "ok (ready_list_head_to_tail_rq r p)
      (\<lambda>r'. rq_inv r' \<and> cur_list_item r' = (cur_list_item r)(p := rotate1 (cur_list_item r p)))"
    if "cur_list_item r p \<noteq> []"
    using set_item_inv [OF inv that, of "rotate1 (cur_list_item r p)"] d(3) [OF that] d(4) that
    by (simp add: ready_list_head_to_tail_rq_def ready_item_ok)
  show "preferred_of r = Inr (hd (cur_list_item r p))"
    if "cur_list_item r p \<noteq> []" "\<forall>q<p. cur_list_item r q = []"
  proof -
    have "highest_pri r = p"
      using d(5) [OF that(1)] d(6) [OF that(1)] that(2) by (metis le_neq_implies_less)
    then show ?thesis
      using that(1) d(3) [OF that(1)] by (simp add: preferred_of_def ready_item_ok)
  qed
  show "ok (ready_list_rm_rq r t p)
      (\<lambda>r'. rq_inv r' \<and> cur_list_item r' = (cur_list_item r)(p := remove1 t (cur_list_item r p)))"
    if "t \<in> set (cur_list_item r p)" "u \<in> set (cur_list_item r q)" "(u, q) \<noteq> (t, p)" for u q
    using ready_list_rm_rq_ok [OF inv that] .
qed

end
