(* ===== verification/Pend.thy ===== *)
theory Pend
  imports Sched
begin

text \<open>
  Blocking and waking (\<^verbatim>\<open>k_pend.c\<close>) with the two primitives of the time list they use
  (\<^verbatim>\<open>tick_list_insert\<close> and \<^verbatim>\<open>tick_list_rm\<close> of \<^verbatim>\<open>k_tick.c\<close>). A call that blocks is modelled in two
  halves: the first ends with the context switch (\<open>Pending\<close>), the second, run when the task is
  scheduled again, reads the reason of the wake-up (\<open>pend_state_end_proc\<close>).
\<close>

datatype (plugins only: code size) kret = Ret kstat | Pending

section \<open>The time list\<close>

definition tick_list_pri_insert :: "tid \<Rightarrow> kstate \<Rightarrow> kstate" where
  "tick_list_pri_insert task s =
     (let val = tick_remain (tasks s task)
      in s\<lparr>g_tick_head := insert_before (\<lambda>q. tick_match (tasks s q) - g_tick_count s > val) task (g_tick_head s)\<rparr>)"

definition tick_list_insert :: "tid \<Rightarrow> tick \<Rightarrow> kstate \<Rightarrow> kstate" where
  "tick_list_insert task time s =
     (if time > 0
      then (let s = upd_task task (\<lambda>k. k\<lparr>tick_match := g_tick_count s + time, tick_remain := time\<rparr>) s;
                s = tick_list_pri_insert task s
            in upd_task task (\<lambda>k. k\<lparr>tick_head := True\<rparr>) s)
      else s)"

definition tick_list_rm :: "tid \<Rightarrow> kstate \<Rightarrow> kstate" where
  "tick_list_rm task s =
     (if tick_head (tasks s task)
      then upd_task task (\<lambda>k. k\<lparr>tick_head := False\<rparr>) (s\<lparr>g_tick_head := remove1 task (g_tick_head s)\<rparr>)
      else s)"

section \<open>Blocking and waking\<close>

definition pend_list_add :: "oid \<Rightarrow> tid \<Rightarrow> kstate \<Rightarrow> kstate" where
  "pend_list_add b task s =
     upd_blk b (\<lambda>ob. ob\<lparr>blk_list := insert_before (\<lambda>q. pri s q > pri s task) task (blk_list ob)\<rparr>) s"

definition set_state :: "tid \<Rightarrow> task_stat \<Rightarrow> kstate \<Rightarrow> kstate" where
  "set_state t x s = upd_task t (\<lambda>k. k\<lparr>task_state := x\<rparr>) s"

text \<open>The part common to \<open>pend_task_wakeup\<close> and \<open>pend_task_rm\<close>: the switch on the state, the
  time list, and the two final assignments, with the reason as argument.\<close>

definition pend_task_end :: "blk_state \<Rightarrow> tid \<Rightarrow> kstate \<Rightarrow> kstate outcome" where
  "pend_task_end reason task s =
     bnd (case st s task of
            K_PEND \<Rightarrow> bnd (ready_list_add task (blk_list_rm task s)) (\<lambda>s. Inr (set_state task K_RDY s))
          | K_PEND_SUSPENDED \<Rightarrow> Inr (set_state task K_SUSPENDED (blk_list_rm task s))
          | _ \<Rightarrow> k_err_proc RHINO_SYS_FATAL_ERR)
       (\<lambda>s. Inr (upd_task task (\<lambda>k. k\<lparr>t_blk_state := reason, blk_obj := None\<rparr>) (tick_list_rm task s)))"

definition pend_task_wakeup :: "tid \<Rightarrow> kstate \<Rightarrow> kstate outcome" where
  "pend_task_wakeup task s = pend_task_end BLK_FINISH task s"

definition pend_task_rm :: "tid \<Rightarrow> kstate \<Rightarrow> kstate outcome" where
  "pend_task_rm task s = pend_task_end BLK_DEL task s"

definition pend_to_blk_obj :: "oid \<Rightarrow> tid \<Rightarrow> tick \<Rightarrow> kstate \<Rightarrow> kstate outcome" where
  "pend_to_blk_obj b task timeout s =
     (let s = upd_task task (\<lambda>k. k\<lparr>blk_obj := Some b\<rparr>) s;
          s = (if timeout \<noteq> RHINO_WAIT_FOREVER then tick_list_insert task timeout s else s);
          s = set_state task K_PEND s
      in bnd (ready_list_rm task s) (\<lambda>s.
           if blk_policy (blks s b) = BLK_POLICY_FIFO
           then Inr (upd_blk b (\<lambda>ob. ob\<lparr>blk_list := blk_list ob @ [task]\<rparr>) s)
           else Inr (pend_list_add b task s)))"

definition pend_list_reorder :: "tid \<Rightarrow> kstate \<Rightarrow> kstate outcome" where
  "pend_list_reorder task s =
     bnd (deref (blk_obj (tasks s task))) (\<lambda>b.
       if blk_policy (blks s b) = BLK_POLICY_PRI
       then Inr (pend_list_add b task (blk_list_rm task s))
       else Inr s)"

definition pend_state_end_proc :: "tid \<Rightarrow> kstate \<Rightarrow> kstat outcome" where
  "pend_state_end_proc task s =
     (case t_blk_state (tasks s task) of
        BLK_FINISH \<Rightarrow> Inr RHINO_SUCCESS
      | BLK_ABORT \<Rightarrow> Inr RHINO_BLK_ABORT
      | BLK_TIMEOUT \<Rightarrow> Inr RHINO_BLK_TIMEOUT
      | BLK_DEL \<Rightarrow> Inr RHINO_BLK_DEL
      | BLK_INVALID \<Rightarrow> k_err_proc RHINO_BLK_INV_STATE)"

text \<open>Blocking the active task on an object and switching away.\<close>

definition block_active :: "oid \<Rightarrow> tick \<Rightarrow> kstate \<Rightarrow> (kret \<times> kstate) outcome" where
  "block_active b ticks s =
     bnd (active s) (\<lambda>a.
     bnd (pend_to_blk_obj b a ticks s) (\<lambda>s.
     bnd (core_sched s) (\<lambda>s. Inr (Pending, s))))"

text \<open>The second half of a blocking call, run by the task that has become active again.\<close>

definition pend_resume :: "kstate \<Rightarrow> kstat outcome" where
  "pend_resume s = bnd (active s) (\<lambda>a. pend_state_end_proc a s)"

text \<open>\<open>while (!is_klist_empty(head)) pend_task_rm(first)\<close>: every task blocked on the object is
  released. Each round takes the first task off the list, so as many rounds as the list is long
  at the start are enough.\<close>

fun pend_rm_loop :: "nat \<Rightarrow> oid \<Rightarrow> kstate \<Rightarrow> kstate outcome" where
  "pend_rm_loop 0 b s = (if blk_list (blks s b) = [] then Inr s else Inl Diverge)"
| "pend_rm_loop (Suc n) b s =
     (case blk_list (blks s b) of
        [] \<Rightarrow> Inr s
      | t # _ \<Rightarrow> bnd (pend_task_rm t s) (pend_rm_loop n b))"

definition pend_rm_all :: "oid \<Rightarrow> kstate \<Rightarrow> kstate outcome" where
  "pend_rm_all b s = pend_rm_loop (length (blk_list (blks s b))) b s"

fun pend_wakeup_loop :: "nat \<Rightarrow> (tid \<Rightarrow> kstate \<Rightarrow> kstate) \<Rightarrow> oid \<Rightarrow> kstate \<Rightarrow> kstate outcome" where
  "pend_wakeup_loop 0 f b s = (if blk_list (blks s b) = [] then Inr s else Inl Diverge)"
| "pend_wakeup_loop (Suc n) f b s =
     (case blk_list (blks s b) of
        [] \<Rightarrow> Inr s
      | t # _ \<Rightarrow> bnd (pend_task_wakeup t (f t s)) (pend_wakeup_loop n f b))"

definition pend_wakeup_all :: "(tid \<Rightarrow> kstate \<Rightarrow> kstate) \<Rightarrow> oid \<Rightarrow> kstate \<Rightarrow> kstate outcome" where
  "pend_wakeup_all f b s = pend_wakeup_loop (length (blk_list (blks s b))) f b s"

end
