(* ===== verification/MutexPri.thy ===== *)
theory MutexPri
  imports Pend
begin

text \<open>
  Priority inheritance: \<^verbatim>\<open>mutex_pri_limit\<close>, \<^verbatim>\<open>mutex_pri_look\<close>, \<^verbatim>\<open>mutex_release\<close> and
  \<^verbatim>\<open>mutex_task_pri_reset\<close> of \<^verbatim>\<open>k_mutex.c\<close> with the loop \<^verbatim>\<open>task_pri_change\<close> of \<^verbatim>\<open>k_task.c\<close> that
  carries a change of priority along the chain of mutex owners. They are used by the time list as
  well as by the mutex and task services.
\<close>

section \<open>The highest waiter\<close>

text \<open>The running value \<open>pri\<close> of the loops: the priority of the first waiter of a mutex that has
  waiters, and what it was before otherwise.\<close>

definition first_pri :: "kstate \<Rightarrow> oid \<Rightarrow> nat \<Rightarrow> nat" where
  "first_pri s m p = (case blk_list (blks s m) of [] \<Rightarrow> p | t # _ \<Rightarrow> pri s t)"

fun pri_limit_loop :: "kstate \<Rightarrow> oid list \<Rightarrow> nat \<Rightarrow> nat \<Rightarrow> nat" where
  "pri_limit_loop s [] p high_pri = high_pri"
| "pri_limit_loop s (m # ms) p high_pri =
     (let p = first_pri s m p
      in pri_limit_loop s ms p (if p < high_pri then p else high_pri))"

definition mutex_pri_limit :: "kstate \<Rightarrow> tid \<Rightarrow> nat \<Rightarrow> nat" where
  "mutex_pri_limit s task p = pri_limit_loop s (t_mutex_list (tasks s task)) p p"

text \<open>\<open>mutex_pri_look\<close> also unlinks the mutex being released from the owner's chain.\<close>

fun pri_look_loop :: "kstate \<Rightarrow> oid option \<Rightarrow> oid list \<Rightarrow> nat \<Rightarrow> nat \<Rightarrow> nat \<times> oid list" where
  "pri_look_loop s rel [] p new_pri = (new_pri, [])"
| "pri_look_loop s rel (m # ms) p new_pri =
     (if Some m = rel then pri_look_loop s rel ms p new_pri
      else (let p = first_pri s m p;
                r = pri_look_loop s rel ms p (if new_pri > p then p else new_pri)
            in (fst r, m # snd r)))"

definition mutex_pri_look :: "tid \<Rightarrow> oid option \<Rightarrow> kstate \<Rightarrow> nat \<times> kstate" where
  "mutex_pri_look task rel s =
     (let r = pri_look_loop s rel (t_mutex_list (tasks s task)) (b_prio (tasks s task)) (b_prio (tasks s task))
      in (fst r, upd_task task (\<lambda>k. k\<lparr>t_mutex_list := snd r\<rparr>) s))"

section \<open>Changing a priority along the owner chain\<close>

definition set_prio :: "tid \<Rightarrow> nat \<Rightarrow> kstate \<Rightarrow> kstate" where
  "set_prio t p s = upd_task t (\<lambda>k. k\<lparr>prio := p\<rparr>) s"

text \<open>One round of the loop of \<open>task_pri_change\<close> for a task whose priority differs: the new state
  and the task and priority to go on with, if any.\<close>

definition pri_change_step :: "tid \<Rightarrow> nat \<Rightarrow> kstate \<Rightarrow> ((tid \<times> nat) option \<times> kstate) outcome" where
  "pri_change_step task new_pri s =
     (case st s task of
        K_RDY \<Rightarrow>
          bnd (ready_list_rm task s) (\<lambda>s.
            let s = set_prio task new_pri s
            in if g_active_task s = Some task
               then bnd (ready_list_add_head task s) (\<lambda>s. Inr (None, s))
               else bnd (ready_list_add_tail task s) (\<lambda>s. Inr (None, s)))
      | K_SLEEP \<Rightarrow> Inr (None, set_prio task new_pri s)
      | K_SUSPENDED \<Rightarrow> Inr (None, set_prio task new_pri s)
      | K_SLEEP_SUSPENDED \<Rightarrow> Inr (None, set_prio task new_pri s)
      | K_SEED \<Rightarrow> k_err_proc RHINO_INV_TASK_STATE
      | K_DELETED \<Rightarrow> k_err_proc RHINO_INV_TASK_STATE
      | _ \<Rightarrow>
          (let old_pri = pri s task
           in bnd (pend_list_reorder task (set_prio task new_pri s)) (\<lambda>s.
              bnd (deref (blk_obj (tasks s task))) (\<lambda>b.
                if obj_type (blks s b) = RHINO_MUTEX_OBJ_TYPE
                then bnd (deref (mutex_task (mutexes s b))) (\<lambda>owner.
                  if pri s owner > pri s task then Inr (Some (owner, new_pri), s)
                  else if pri s owner = old_pri
                  then (let r = mutex_pri_look owner None s
                        in if fst r \<noteq> pri (snd r) owner then Inr (Some (owner, fst r), snd r)
                           else Inr (None, snd r))
                  else Inr (None, s))
                else Inr (None, s)))))"

fun pri_change_loop :: "nat \<Rightarrow> tid \<Rightarrow> nat \<Rightarrow> kstate \<Rightarrow> (kstat \<times> kstate) outcome" where
  "pri_change_loop fuel task new_pri s =
     (if pri s task \<noteq> new_pri
      then (case fuel of
              0 \<Rightarrow> Inl Diverge
            | Suc fuel' \<Rightarrow>
                bnd (pri_change_step task new_pri s) (\<lambda>r.
                  case fst r of
                    None \<Rightarrow> Inr (RHINO_SUCCESS, snd r)
                  | Some tp \<Rightarrow> pri_change_loop fuel' (fst tp) (snd tp) (snd r)))
      else Inr (RHINO_SUCCESS, s))"

declare pri_change_loop.simps [simp del]

text \<open>Along a chain of waiting owners without a cycle every task is visited at most once, so the
  number of live tasks bounds the rounds.\<close>

definition pri_change_fuel :: "kstate \<Rightarrow> nat" where
  "pri_change_fuel s = Suc (length (task_head (g_kobj_list s)))"

definition task_pri_change :: "tid \<Rightarrow> nat \<Rightarrow> kstate \<Rightarrow> (kstat \<times> kstate) outcome" where
  "task_pri_change task new_pri s = pri_change_loop (pri_change_fuel s) task new_pri s"

definition mutex_release :: "tid \<Rightarrow> oid option \<Rightarrow> kstate \<Rightarrow> kstate outcome" where
  "mutex_release task rel s =
     (let r = mutex_pri_look task rel s
      in if fst r \<noteq> pri (snd r) task
         then bnd (task_pri_change task (fst r) (snd r)) (\<lambda>(e, s). Inr s)
         else Inr (snd r))"

definition mutex_task_pri_reset :: "tid \<Rightarrow> kstate \<Rightarrow> kstate outcome" where
  "mutex_task_pri_reset task s =
     bnd (deref (blk_obj (tasks s task))) (\<lambda>b.
       if obj_type (blks s b) = RHINO_MUTEX_OBJ_TYPE
       then bnd (deref (mutex_task (mutexes s b))) (\<lambda>owner.
         if pri s owner = pri s task then mutex_release owner None s else Inr s)
       else Inr s)"

end
