(* ===== verification/KInv.thy ===== *)
theory KInv
  imports MutexPri
begin

text \<open>
  The invariant of the scheduling structures. \<open>core_inv A\<close> relates the ready queue and the block
  lists to the state, priority and block object of the tasks in \<open>A\<close>; a task outside \<open>A\<close> is
  detached: it is on no list and its fields are free. Every kernel operation is a sequence of
  detaching a task, changing its fields and attaching it again.
\<close>

section \<open>The invariant over views\<close>

abbreviation pending_state :: "task_stat \<Rightarrow> bool" where
  "pending_state x \<equiv> x = K_PEND \<or> x = K_PEND_SUSPENDED"

definition core_inv :: "tid set \<Rightarrow> runqueue \<Rightarrow> (tid \<Rightarrow> task_stat) \<Rightarrow> (tid \<Rightarrow> nat) \<Rightarrow> (tid \<Rightarrow> oid option)
    \<Rightarrow> (oid \<Rightarrow> tid list) \<Rightarrow> (oid \<Rightarrow> blk_policy) \<Rightarrow> bool" where
  "core_inv A rq stf prf bof blf polf \<longleftrightarrow>
     rq_inv rq \<and>
     (\<forall>p t. t \<in> set (cur_list_item rq p) \<longleftrightarrow> t \<in> A \<and> stf t = K_RDY \<and> prf t = p) \<and>
     (\<forall>b t. t \<in> set (blf b) \<longleftrightarrow> t \<in> A \<and> pending_state (stf t) \<and> bof t = Some b) \<and>
     (\<forall>b. distinct (blf b)) \<and>
     (\<forall>b. polf b = BLK_POLICY_PRI \<longrightarrow> sorted (map prf (blf b))) \<and>
     (\<forall>t \<in> A. prf t < RHINO_CONFIG_PRI_MAX \<and> stf t \<noteq> K_SEED \<and> stf t \<noteq> K_DELETED \<and>
        (pending_state (stf t) \<longrightarrow> bof t \<noteq> None)) \<and>
     g_idle_task \<in> A \<and> stf g_idle_task = K_RDY \<and> prf g_idle_task = RHINO_IDLE_PRI"

lemma core_invD:
  assumes "core_inv A rq stf prf bof blf polf"
  shows "rq_inv rq" "\<And>p t. t \<in> set (cur_list_item rq p) \<longleftrightarrow> t \<in> A \<and> stf t = K_RDY \<and> prf t = p"
    "\<And>b t. t \<in> set (blf b) \<longleftrightarrow> t \<in> A \<and> pending_state (stf t) \<and> bof t = Some b"
    "\<And>b. distinct (blf b)" "\<And>b. polf b = BLK_POLICY_PRI \<Longrightarrow> sorted (map prf (blf b))"
    "\<And>t. t \<in> A \<Longrightarrow> prf t < 62" "\<And>t. t \<in> A \<Longrightarrow> stf t \<noteq> K_SEED \<and> stf t \<noteq> K_DELETED"
    "\<And>t. t \<in> A \<Longrightarrow> pending_state (stf t) \<Longrightarrow> bof t \<noteq> None"
    "g_idle_task \<in> A" "stf g_idle_task = K_RDY" "prf g_idle_task = 61"
  using assms unfolding core_inv_def by (simp_all, blast+)

lemma detach_ready:
  assumes inv: "core_inv A rq stf prf bof blf polf" and t: "t \<in> A" "stf t = K_RDY" "t \<noteq> g_idle_task"
  shows "ok (ready_list_rm_rq rq t (prf t)) (\<lambda>rq'. core_inv (A - {t}) rq' stf prf bof blf polf)"
proof -
  note d = core_invD [OF inv]
  have "t \<in> set (cur_list_item rq (prf t))" "g_idle_task \<in> set (cur_list_item rq 61)"
    using d(2,9-11) t by simp_all
  then have "ok (ready_list_rm_rq rq t (prf t))
      (\<lambda>rq'. rq_inv rq' \<and> cur_list_item rq' = (cur_list_item rq)(prf t := remove1 t (cur_list_item rq (prf t))))"
    using rq.remove [OF d(1), of t "prf t" g_idle_task 61] t(3) by auto
  then show ?thesis
  proof (rule ok_mono)
    fix rq' assume "rq_inv rq' \<and> cur_list_item rq' = (cur_list_item rq)(prf t := remove1 t (cur_list_item rq (prf t)))"
    then show "core_inv (A - {t}) rq' stf prf bof blf polf"
      using inv t rq.items_distinct [OF d(1)] unfolding core_inv_def by auto
  qed
qed

lemma detach_pending:
  assumes inv: "core_inv A rq stf prf bof blf polf" and t: "pending_state (stf t)"
  shows "core_inv (A - {t}) rq stf prf bof (\<lambda>b. remove1 t (blf b)) polf"
  using assms core_invD(4,10) [OF inv]
  unfolding core_inv_def by (auto intro: sorted_map_key_remove1)

lemma detach_other:
  assumes "core_inv A rq stf prf bof blf polf" "stf t \<noteq> K_RDY" "\<not> pending_state (stf t)"
  shows "core_inv (A - {t}) rq stf prf bof blf polf"
  using assms unfolding core_inv_def by auto

lemma upd_detached:
  assumes "core_inv A rq stf prf bof blf polf" "t \<notin> A"
  shows "core_inv A rq (stf(t := x)) (prf(t := y)) (bof(t := z)) blf polf"
proof -
  have "map (prf(t := y)) (blf b) = map prf (blf b)" for b
    using assms core_invD(3) [OF assms(1), of t b] by simp
  then show ?thesis
    using assms unfolding core_inv_def by auto
qed

lemma attach_ready_tail:
  assumes inv: "core_inv A rq stf prf bof blf polf" and t: "t \<notin> A" "stf t = K_RDY" "prf t < 62"
  shows "ok (ready_list_add_tail_rq rq t (prf t)) (\<lambda>rq'. core_inv (insert t A) rq' stf prf bof blf polf \<and>
    cur_list_item rq' = (cur_list_item rq)(prf t := cur_list_item rq (prf t) @ [t]))"
proof -
  note d = core_invD [OF inv]
  have "ok (ready_list_add_tail_rq rq t (prf t))
      (\<lambda>rq'. rq_inv rq' \<and> cur_list_item rq' = (cur_list_item rq)(prf t := cur_list_item rq (prf t) @ [t]))"
    using t d(2) by (intro rq.add_tail [OF d(1)]) auto
  then show ?thesis
    by (rule ok_mono) (use inv t in \<open>auto simp: core_inv_def\<close>)
qed

lemma attach_ready_head:
  assumes inv: "core_inv A rq stf prf bof blf polf" and t: "t \<notin> A" "stf t = K_RDY" "prf t < 62"
  shows "ok (ready_list_add_head_rq rq t (prf t)) (\<lambda>rq'. core_inv (insert t A) rq' stf prf bof blf polf \<and>
    cur_list_item rq' = (cur_list_item rq)(prf t := t # cur_list_item rq (prf t)))"
proof -
  note d = core_invD [OF inv]
  have "ok (ready_list_add_head_rq rq t (prf t))
      (\<lambda>rq'. rq_inv rq' \<and> cur_list_item rq' = (cur_list_item rq)(prf t := t # cur_list_item rq (prf t)))"
    using t d(2) by (intro rq.add_head [OF d(1)]) auto
  then show ?thesis
    by (rule ok_mono) (use inv t in \<open>auto simp: core_inv_def\<close>)
qed

lemma attach_other:
  assumes "core_inv A rq stf prf bof blf polf" "t \<notin> A"
    "stf t \<in> {K_SUSPENDED, K_SLEEP, K_SLEEP_SUSPENDED}" "prf t < 62"
  shows "core_inv (insert t A) rq stf prf bof blf polf"
  using assms unfolding core_inv_def by auto

lemma attach_pending_pri:
  assumes inv: "core_inv A rq stf prf bof blf polf" and t: "t \<notin> A" "pending_state (stf t)"
    "bof t = Some b" "prf t < 62"
  shows "core_inv (insert t A) rq stf prf bof
    (blf(b := insert_before (\<lambda>q. prf q > prf t) t (blf b))) polf"
proof -
  have "sorted (map prf (insert_before (\<lambda>q. prf q > prf t) t (blf b)))" if "polf b = BLK_POLICY_PRI"
    using core_invD(5) [OF inv that] by (intro sorted_insert_before) auto
  then show ?thesis
    using inv t core_invD(3) [OF inv, of t b] unfolding core_inv_def by auto
qed

lemma attach_pending_fifo:
  assumes inv: "core_inv A rq stf prf bof blf polf" and t: "t \<notin> A" "pending_state (stf t)"
    "bof t = Some b" "prf t < 62" "polf b = BLK_POLICY_FIFO"
  shows "core_inv (insert t A) rq stf prf bof (blf(b := blf b @ [t])) polf"
  using inv t core_invD(3) [OF inv, of t b] unfolding core_inv_def by auto

section \<open>Views of updated states\<close>

lemma view_upd_task [simp]:
  "bl (upd_task t f s) = bl s" "pol (upd_task t f s) = pol s" "ty (upd_task t f s) = ty s"
  "own (upd_task t f s) = own s" "g_ready_queue (upd_task t f s) = g_ready_queue s"
  "g_active_task (upd_task t f s) = g_active_task s" "g_tick_head (upd_task t f s) = g_tick_head s"
  "g_tick_count (upd_task t f s) = g_tick_count s" "g_kobj_list (upd_task t f s) = g_kobj_list s"
  "blks (upd_task t f s) = blks s" "mutexes (upd_task t f s) = mutexes s"
  "g_sched_lock (upd_task t f s) = g_sched_lock s"
  "g_intrpt_nested_level (upd_task t f s) = g_intrpt_nested_level s"
  by (simp_all add: upd_task_def view_defs fun_eq_iff)

lemma tasks_upd_task [simp]: "tasks (upd_task t f s) = (tasks s)(t := f (tasks s t))"
  by (simp add: upd_task_def)

lemma view_tasks_upd_task:
  "st (upd_task t f s) = (st s)(t := task_state (f (tasks s t)))"
  "pri (upd_task t f s) = (pri s)(t := prio (f (tasks s t)))"
  "bo (upd_task t f s) = (bo s)(t := blk_obj (f (tasks s t)))"
  "held (upd_task t f s) = (held s)(t := t_mutex_list (f (tasks s t)))"
  "tkh (upd_task t f s) = (tkh s)(t := tick_head (f (tasks s t)))"
  "tkm (upd_task t f s) = (tkm s)(t := tick_match (f (tasks s t)))"
  by (simp_all add: view_defs fun_eq_iff)

lemma fun_upd_view [simp]:
  "(st s)(t := task_state (tasks s t)) = st s" "(pri s)(t := prio (tasks s t)) = pri s"
  "(bo s)(t := blk_obj (tasks s t)) = bo s" "(held s)(t := t_mutex_list (tasks s t)) = held s"
  "(tkh s)(t := tick_head (tasks s t)) = tkh s" "(tkm s)(t := tick_match (tasks s t)) = tkm s"
  by (simp_all add: view_defs fun_eq_iff)

lemma view_blk_list_rm [simp]:
  "bl (blk_list_rm t s) = (\<lambda>b. remove1 t (bl s b))" "pol (blk_list_rm t s) = pol s"
  "ty (blk_list_rm t s) = ty s" "own (blk_list_rm t s) = own s" "tasks (blk_list_rm t s) = tasks s"
  "mutexes (blk_list_rm t s) = mutexes s"
  "g_ready_queue (blk_list_rm t s) = g_ready_queue s" "g_active_task (blk_list_rm t s) = g_active_task s"
  "g_tick_head (blk_list_rm t s) = g_tick_head s" "g_tick_count (blk_list_rm t s) = g_tick_count s"
  "g_kobj_list (blk_list_rm t s) = g_kobj_list s" "g_sched_lock (blk_list_rm t s) = g_sched_lock s"
  "g_intrpt_nested_level (blk_list_rm t s) = g_intrpt_nested_level s"
  "st (blk_list_rm t s) = st s" "pri (blk_list_rm t s) = pri s" "bo (blk_list_rm t s) = bo s"
  "held (blk_list_rm t s) = held s" "tkh (blk_list_rm t s) = tkh s" "tkm (blk_list_rm t s) = tkm s"
  by (simp_all add: blk_list_rm_def view_defs fun_eq_iff)

lemma view_rq [simp]:
  "bl (s\<lparr>g_ready_queue := r\<rparr>) = bl s" "pol (s\<lparr>g_ready_queue := r\<rparr>) = pol s"
  "ty (s\<lparr>g_ready_queue := r\<rparr>) = ty s" "own (s\<lparr>g_ready_queue := r\<rparr>) = own s"
  "st (s\<lparr>g_ready_queue := r\<rparr>) = st s" "pri (s\<lparr>g_ready_queue := r\<rparr>) = pri s"
  "bo (s\<lparr>g_ready_queue := r\<rparr>) = bo s" "held (s\<lparr>g_ready_queue := r\<rparr>) = held s"
  "tkh (s\<lparr>g_ready_queue := r\<rparr>) = tkh s" "tkm (s\<lparr>g_ready_queue := r\<rparr>) = tkm s"
  by (simp_all add: view_defs fun_eq_iff)

lemma view_tick_list [simp]:
  "bl (s\<lparr>g_tick_head := r\<rparr>) = bl s" "pol (s\<lparr>g_tick_head := r\<rparr>) = pol s"
  "ty (s\<lparr>g_tick_head := r\<rparr>) = ty s" "own (s\<lparr>g_tick_head := r\<rparr>) = own s"
  "st (s\<lparr>g_tick_head := r\<rparr>) = st s" "pri (s\<lparr>g_tick_head := r\<rparr>) = pri s"
  "bo (s\<lparr>g_tick_head := r\<rparr>) = bo s" "held (s\<lparr>g_tick_head := r\<rparr>) = held s"
  "tkh (s\<lparr>g_tick_head := r\<rparr>) = tkh s" "tkm (s\<lparr>g_tick_head := r\<rparr>) = tkm s"
  by (simp_all add: view_defs fun_eq_iff)

lemma view_upd_blk [simp]:
  "st (upd_blk b f s) = st s" "pri (upd_blk b f s) = pri s" "bo (upd_blk b f s) = bo s"
  "held (upd_blk b f s) = held s" "tkh (upd_blk b f s) = tkh s" "tkm (upd_blk b f s) = tkm s"
  "own (upd_blk b f s) = own s" "tasks (upd_blk b f s) = tasks s" "mutexes (upd_blk b f s) = mutexes s"
  "g_ready_queue (upd_blk b f s) = g_ready_queue s" "g_active_task (upd_blk b f s) = g_active_task s"
  "g_tick_head (upd_blk b f s) = g_tick_head s" "g_tick_count (upd_blk b f s) = g_tick_count s"
  "g_kobj_list (upd_blk b f s) = g_kobj_list s" "g_sched_lock (upd_blk b f s) = g_sched_lock s"
  "g_intrpt_nested_level (upd_blk b f s) = g_intrpt_nested_level s"
  "bl (upd_blk b f s) = (bl s)(b := blk_list (f (blks s b)))"
  "pol (upd_blk b f s) = (pol s)(b := blk_policy (f (blks s b)))"
  "ty (upd_blk b f s) = (ty s)(b := obj_type (f (blks s b)))"
  by (simp_all add: upd_blk_def view_defs fun_eq_iff)

lemma fun_upd_blk_view [simp]:
  "(bl s)(b := blk_list (blks s b)) = bl s" "(pol s)(b := blk_policy (blks s b)) = pol s"
  "(ty s)(b := obj_type (blks s b)) = ty s"
  by (simp_all add: view_defs fun_eq_iff)

section \<open>The invariant of a state\<close>

definition kinv :: "tid set \<Rightarrow> kstate \<Rightarrow> bool" where
  "kinv A s \<longleftrightarrow> core_inv A (g_ready_queue s) (st s) (pri s) (bo s) (bl s) (pol s)"

definition live :: "kstate \<Rightarrow> tid set" where
  "live s = set (task_head (g_kobj_list s))"

lemma kinv_D:
  assumes "kinv A s"
  shows "\<And>t. t \<in> A \<Longrightarrow> pri s t < 62" "\<And>t. t \<in> A \<Longrightarrow> st s t \<noteq> K_SEED \<and> st s t \<noteq> K_DELETED"
    "\<And>b t. t \<in> set (bl s b) \<longleftrightarrow> t \<in> A \<and> pending_state (st s t) \<and> bo s t = Some b"
    "\<And>b. distinct (bl s b)" "g_idle_task \<in> A" "st s g_idle_task = K_RDY" "pri s g_idle_task = 61"
    "\<And>t. t \<in> A \<Longrightarrow> pending_state (st s t) \<Longrightarrow> \<exists>b. bo s t = Some b"
    "\<And>p t. t \<in> set (cur_list_item (g_ready_queue s) p) \<longleftrightarrow> t \<in> A \<and> st s t = K_RDY \<and> pri s t = p"
  using core_invD [OF assms [unfolded kinv_def]] by auto

text \<open>The scheduler finds the first task of the highest priority that is ready.\<close>

definition best_ready :: "tid set \<Rightarrow> kstate \<Rightarrow> tid \<Rightarrow> bool" where
  "best_ready A s t \<longleftrightarrow> t \<in> A \<and> st s t = K_RDY \<and> (\<forall>u \<in> A. st s u = K_RDY \<longrightarrow> pri s t \<le> pri s u) \<and>
     t = hd (cur_list_item (g_ready_queue s) (pri s t))"

lemma preferred_ok:
  assumes "kinv A s"
  shows "\<exists>t. preferred_of (g_ready_queue s) = Inr t \<and> best_ready A s t"
proof -
  note d = core_invD [OF assms [unfolded kinv_def]]
  have "cur_list_item (g_ready_queue s) 61 \<noteq> []"
    using d(2) [of g_idle_task 61] d(9-11) by auto
  then obtain p where p: "preferred_of (g_ready_queue s) = Inr (hd (cur_list_item (g_ready_queue s) p))"
    "cur_list_item (g_ready_queue s) p \<noteq> []"
    "\<forall>q. cur_list_item (g_ready_queue s) q \<noteq> [] \<longrightarrow> p \<le> q"
    using rq.best_highest [OF d(1)] by blast
  let ?t = "hd (cur_list_item (g_ready_queue s) p)"
  have "?t \<in> set (cur_list_item (g_ready_queue s) p)" using p(2) by simp
  then have "?t \<in> A" "st s ?t = K_RDY" "pri s ?t = p" using d(2) by auto
  moreover have "p \<le> pri s u" if "u \<in> A" "st s u = K_RDY" for u
  proof -
    have "u \<in> set (cur_list_item (g_ready_queue s) (pri s u))"
      using d(2) [of u "pri s u"] that by simp
    then have "cur_list_item (g_ready_queue s) (pri s u) \<noteq> []" by auto
    then show ?thesis
      using p(3) by simp
  qed
  ultimately show ?thesis
    using p(1) by (auto simp: best_ready_def)
qed

definition waiting_state :: "task_stat \<Rightarrow> bool" where
  "waiting_state x \<longleftrightarrow> x \<in> {K_PEND, K_PEND_SUSPENDED, K_SLEEP, K_SLEEP_SUSPENDED}"

text \<open>The ticks left to a task on the time list.\<close>

definition rem :: "kstate \<Rightarrow> tid \<Rightarrow> nat" where
  "rem s t = unat (tkm s t - g_tick_count s)"

text \<open>The time list holds exactly the live tasks whose \<open>tick_head\<close> is set, all of them waiting, and
  every sleeping task is on it; it is sorted by the ticks left, which are below half the range of the
  tick count.\<close>

definition tick_ok :: "tid set \<Rightarrow> kstate \<Rightarrow> bool" where
  "tick_ok L s \<longleftrightarrow> distinct (g_tick_head s) \<and> (\<forall>t. t \<in> set (g_tick_head s) \<longleftrightarrow> t \<in> L \<and> tkh s t) \<and>
     (\<forall>t \<in> L. (tkh s t \<longrightarrow> waiting_state (st s t)) \<and> (st s t \<in> {K_SLEEP, K_SLEEP_SUSPENDED} \<longrightarrow> tkh s t)) \<and>
     sorted (map (rem s) (g_tick_head s)) \<and> (\<forall>t \<in> set (g_tick_head s). rem s t < 2 ^ 63)"

text \<open>The chains of held mutexes agree with the owners, a mutex with waiters has an owner, the idle
  task owns none, and base priorities are in range.\<close>

definition mutex_ok :: "tid set \<Rightarrow> kstate \<Rightarrow> bool" where
  "mutex_ok L s \<longleftrightarrow>
     (\<forall>b. ty s b = RHINO_MUTEX_OBJ_TYPE \<and> bl s b \<noteq> [] \<longrightarrow> own s b \<noteq> None) \<and>
     (\<forall>b t. ty s b = RHINO_MUTEX_OBJ_TYPE \<and> own s b = Some t \<longrightarrow> t \<in> L \<and> t \<noteq> g_idle_task \<and> b \<in> set (held s t)) \<and>
     (\<forall>t \<in> L. distinct (held s t) \<and> b_prio (tasks s t) < RHINO_CONFIG_PRI_MAX \<and>
        (\<forall>b \<in> set (held s t). own s b = Some t \<and> ty s b = RHINO_MUTEX_OBJ_TYPE))"

text \<open>Priority inheritance: waiters of a mutex are queued by priority, and the owner never runs below
  one of them.\<close>

definition inherit_ok :: "kstate \<Rightarrow> bool" where
  "inherit_ok s \<longleftrightarrow> (\<forall>b. ty s b = RHINO_MUTEX_OBJ_TYPE \<longrightarrow> pol s b = BLK_POLICY_PRI) \<and>
     (\<forall>b u t. ty s b = RHINO_MUTEX_OBJ_TYPE \<longrightarrow> own s b = Some u \<longrightarrow> t \<in> set (bl s b) \<longrightarrow> pri s u \<le> pri s t)"

definition active_ok :: "tid set \<Rightarrow> kstate \<Rightarrow> bool" where
  "active_ok L s \<longleftrightarrow> (\<exists>a \<in> L. g_active_task s = Some a \<and>
     (g_intrpt_nested_level s = 0 \<or> g_sched_lock s > 0 \<longrightarrow> st s a = K_RDY))"

text \<open>\<open>struct_inv\<close> is what holds inside the tick handler as well; between kernel calls no task on the
  time list is due and the active task is a live one. It is ready too, except inside an interrupt
  handler that has suspended it.\<close>

definition struct_inv :: "kstate \<Rightarrow> bool" where
  "struct_inv s \<longleftrightarrow> kinv (live s) s \<and> tick_ok (live s) s \<and> mutex_ok (live s) s \<and> inherit_ok s"

definition none_due :: "kstate \<Rightarrow> bool" where
  "none_due s \<longleftrightarrow> (\<forall>t \<in> set (g_tick_head s). 0 < rem s t)"

definition kernel_inv :: "kstate \<Rightarrow> bool" where
  "kernel_inv s \<longleftrightarrow> struct_inv s \<and> none_due s \<and> active_ok (live s) s"

lemma mutex_okD:
  assumes "mutex_ok L s"
  shows "\<And>b. ty s b = RHINO_MUTEX_OBJ_TYPE \<Longrightarrow> bl s b \<noteq> [] \<Longrightarrow> own s b \<noteq> None"
    "\<And>b t. ty s b = RHINO_MUTEX_OBJ_TYPE \<Longrightarrow> own s b = Some t \<Longrightarrow> t \<in> L \<and> t \<noteq> g_idle_task \<and> b \<in> set (held s t)"
    "\<And>t. t \<in> L \<Longrightarrow> distinct (held s t) \<and> b_prio (tasks s t) < 62"
    "\<And>t b. t \<in> L \<Longrightarrow> b \<in> set (held s t) \<Longrightarrow> own s b = Some t \<and> ty s b = RHINO_MUTEX_OBJ_TYPE"
  using assms unfolding mutex_ok_def RHINO_CONFIG_PRI_MAX_def by blast+

lemma mutex_okI:
  assumes "\<And>b. ty s b = RHINO_MUTEX_OBJ_TYPE \<Longrightarrow> bl s b \<noteq> [] \<Longrightarrow> own s b \<noteq> None"
    "\<And>b t. ty s b = RHINO_MUTEX_OBJ_TYPE \<Longrightarrow> own s b = Some t \<Longrightarrow> t \<in> L \<and> t \<noteq> g_idle_task \<and> b \<in> set (held s t)"
    "\<And>t. t \<in> L \<Longrightarrow> distinct (held s t) \<and> b_prio (tasks s t) < 62"
    "\<And>t b. t \<in> L \<Longrightarrow> b \<in> set (held s t) \<Longrightarrow> own s b = Some t \<and> ty s b = RHINO_MUTEX_OBJ_TYPE"
  shows "mutex_ok L s"
  using assms unfolding mutex_ok_def RHINO_CONFIG_PRI_MAX_def by blast

lemma view_upd_kobj [simp]:
  "st (upd_kobj f s) = st s" "pri (upd_kobj f s) = pri s" "bo (upd_kobj f s) = bo s"
  "held (upd_kobj f s) = held s" "tkh (upd_kobj f s) = tkh s" "tkm (upd_kobj f s) = tkm s"
  "bl (upd_kobj f s) = bl s" "pol (upd_kobj f s) = pol s" "ty (upd_kobj f s) = ty s"
  "own (upd_kobj f s) = own s" "tasks (upd_kobj f s) = tasks s" "mutexes (upd_kobj f s) = mutexes s"
  "g_ready_queue (upd_kobj f s) = g_ready_queue s" "g_active_task (upd_kobj f s) = g_active_task s"
  "g_tick_head (upd_kobj f s) = g_tick_head s" "g_tick_count (upd_kobj f s) = g_tick_count s"
  "g_sched_lock (upd_kobj f s) = g_sched_lock s" "blks (upd_kobj f s) = blks s" "sems (upd_kobj f s) = sems s"
  "g_intrpt_nested_level (upd_kobj f s) = g_intrpt_nested_level s"
  "g_kobj_list (upd_kobj f s) = f (g_kobj_list s)"
  by (simp_all add: upd_kobj_def view_defs fun_eq_iff)

lemma tick_list_rm_views [simp]:
  "st (tick_list_rm t s) = st s" "pri (tick_list_rm t s) = pri s" "bo (tick_list_rm t s) = bo s"
  "held (tick_list_rm t s) = held s" "tkm (tick_list_rm t s) = tkm s" "bl (tick_list_rm t s) = bl s"
  "pol (tick_list_rm t s) = pol s" "ty (tick_list_rm t s) = ty s" "own (tick_list_rm t s) = own s"
  "tkh (tick_list_rm t s) = (tkh s)(t := False)" "g_ready_queue (tick_list_rm t s) = g_ready_queue s"
  "g_active_task (tick_list_rm t s) = g_active_task s" "g_tick_count (tick_list_rm t s) = g_tick_count s"
  "g_kobj_list (tick_list_rm t s) = g_kobj_list s" "g_sched_lock (tick_list_rm t s) = g_sched_lock s"
  "g_intrpt_nested_level (tick_list_rm t s) = g_intrpt_nested_level s"
  "b_prio (tasks (tick_list_rm t s) u) = b_prio (tasks s u)"
  "mutexes (tick_list_rm t s) = mutexes s" "blks (tick_list_rm t s) = blks s"
  by (auto simp: tick_list_rm_def view_defs fun_eq_iff)

lemma g_tick_head_rm:
  "tick_ok L s \<Longrightarrow> g_tick_head (tick_list_rm t s) = remove1 t (g_tick_head s)"
  by (auto simp: tick_list_rm_def tick_ok_def tkh_def remove1_idem)

lemma set_state_views [simp]:
  "st (set_state t x s) = (st s)(t := x)" "pri (set_state t x s) = pri s" "bo (set_state t x s) = bo s"
  "held (set_state t x s) = held s" "tkm (set_state t x s) = tkm s" "tkh (set_state t x s) = tkh s"
  "bl (set_state t x s) = bl s" "pol (set_state t x s) = pol s" "ty (set_state t x s) = ty s"
  "own (set_state t x s) = own s" "g_ready_queue (set_state t x s) = g_ready_queue s"
  "g_active_task (set_state t x s) = g_active_task s" "g_tick_count (set_state t x s) = g_tick_count s"
  "g_tick_head (set_state t x s) = g_tick_head s"
  "g_kobj_list (set_state t x s) = g_kobj_list s" "g_sched_lock (set_state t x s) = g_sched_lock s"
  "g_intrpt_nested_level (set_state t x s) = g_intrpt_nested_level s"
  "b_prio (tasks (set_state t x s) u) = b_prio (tasks s u)"
  "mutexes (set_state t x s) = mutexes s" "blks (set_state t x s) = blks s"
  by (auto simp: set_state_def view_tasks_upd_task)

lemma live_simps [simp]:
  "live (upd_task t f s) = live s" "live (blk_list_rm t s) = live s" "live (s\<lparr>g_ready_queue := r\<rparr>) = live s"
  "live (tick_list_rm t s) = live s" "live (set_state t x s) = live s" "live (upd_blk b g s) = live s"
  by (simp_all add: live_def)

section \<open>Scheduling\<close>

lemma core_sched_ok:
  assumes "kinv A s"
  shows "\<exists>p a. core_sched s = Inr (s\<lparr>g_preferred_ready_task := p, g_active_task := a\<rparr>) \<and>
    (if g_intrpt_nested_level s > 0 \<or> g_sched_lock s > 0 then a = g_active_task s
     else \<exists>t. a = Some t \<and> best_ready A s t)"
proof -
  obtain t where t: "preferred_of (g_ready_queue s) = Inr t" "best_ready A s t"
    using preferred_ok [OF assms] by blast
  show ?thesis
  proof (cases "g_intrpt_nested_level s > 0 \<or> g_sched_lock s > 0")
    case True
    then show ?thesis
      by (intro exI [of _ "g_preferred_ready_task s"] exI [of _ "g_active_task s"]) (auto simp: core_sched_def)
  next
    case False
    then show ?thesis
      using t by (intro exI [of _ "Some t"] exI [of _ "Some t"])
        (auto simp: core_sched_def preferred_cpu_ready_task_get_def cpu_task_switch_def)
  qed
qed

lemma view_sched [simp]:
  "live (s\<lparr>g_preferred_ready_task := p, g_active_task := a\<rparr>) = live s"
  "kinv A (s\<lparr>g_preferred_ready_task := p, g_active_task := a\<rparr>) = kinv A s"
  "best_ready A (s\<lparr>g_preferred_ready_task := p, g_active_task := a\<rparr>) = best_ready A s"
  "tick_ok A (s\<lparr>g_preferred_ready_task := p, g_active_task := a\<rparr>) = tick_ok A s"
  "mutex_ok A (s\<lparr>g_preferred_ready_task := p, g_active_task := a\<rparr>) = mutex_ok A s"
  "inherit_ok (s\<lparr>g_preferred_ready_task := p, g_active_task := a\<rparr>) = inherit_ok s"
  "struct_inv (s\<lparr>g_preferred_ready_task := p, g_active_task := a\<rparr>) = struct_inv s"
  "none_due (s\<lparr>g_preferred_ready_task := p, g_active_task := a\<rparr>) = none_due s"
  by (simp_all add: struct_inv_def none_due_def rem_def [abs_def] kinv_def tick_ok_def mutex_ok_def inherit_ok_def live_def
      best_ready_def [abs_def] view_defs [abs_def])

text \<open>What every call that ends with \<open>RHINO_CRITICAL_EXIT_SCHED\<close> leaves: unless the scheduler is
  locked or an interrupt is being served, the best ready task is the active one.\<close>

definition sched_done :: "kstate \<Rightarrow> kstate \<Rightarrow> bool" where
  "sched_done s s' \<longleftrightarrow> (\<exists>p a. s' = s\<lparr>g_preferred_ready_task := p, g_active_task := a\<rparr> \<and>
     (if g_intrpt_nested_level s > 0 \<or> g_sched_lock s > 0 then a = g_active_task s
      else \<exists>t. a = Some t \<and> best_ready (live s') s' t))"

lemma sched_done_frame:
  assumes "sched_done s s'"
  shows "tasks s' = tasks s" "blks s' = blks s" "sems s' = sems s" "mutexes s' = mutexes s" "events s' = events s"
    "queues s' = queues s" "buf_queues s' = buf_queues s" "mem s' = mem s" "cells s' = cells s"
    "st s' = st s" "pri s' = pri s" "bo s' = bo s" "held s' = held s" "tkh s' = tkh s" "tkm s' = tkm s"
    "bl s' = bl s" "pol s' = pol s" "ty s' = ty s" "own s' = own s" "g_tick_head s' = g_tick_head s"
    "g_tick_count s' = g_tick_count s" "g_kobj_list s' = g_kobj_list s" "g_sched_lock s' = g_sched_lock s"
    "g_intrpt_nested_level s' = g_intrpt_nested_level s" "live s' = live s" "g_ready_queue s' = g_ready_queue s"
  using assms by (auto simp: sched_done_def view_defs live_def fun_eq_iff)

lemma sched_done_active:
  assumes "sched_done s s'" "g_intrpt_nested_level s = 0" "g_sched_lock s = 0"
  shows "\<exists>t. g_active_task s' = Some t \<and> best_ready (live s') s' t"
  using assms by (auto simp: sched_done_def)

lemma core_sched_inv:
  assumes "struct_inv s" "none_due s"
    "g_intrpt_nested_level s > 0 \<or> g_sched_lock s > 0 \<Longrightarrow> active_ok (live s) s"
  shows "ok (core_sched s) (\<lambda>s'. kernel_inv s' \<and> sched_done s s')"
proof -
  have k: "kinv (live s) s" using assms(1) by (simp add: struct_inv_def)
  obtain p a where s': "core_sched s = Inr (s\<lparr>g_preferred_ready_task := p, g_active_task := a\<rparr>)"
    and a: "if g_intrpt_nested_level s > 0 \<or> g_sched_lock s > 0 then a = g_active_task s
      else \<exists>t. a = Some t \<and> best_ready (live s) s t"
    using core_sched_ok [OF k] by blast
  have "active_ok (live s) (s\<lparr>g_preferred_ready_task := p, g_active_task := a\<rparr>)"
    using a assms(3) by (auto simp: active_ok_def best_ready_def view_defs split: if_splits)
  moreover have "sched_done s (s\<lparr>g_preferred_ready_task := p, g_active_task := a\<rparr>)"
    unfolding sched_done_def by (rule exI [of _ p], rule exI [of _ a]) (use a in simp)
  ultimately show ?thesis
    using assms(1,2) unfolding s' by (simp add: kernel_inv_def)
qed

lemma exit_sched_inv:
  assumes "struct_inv s" "none_due s"
    "g_intrpt_nested_level s > 0 \<or> g_sched_lock s > 0 \<Longrightarrow> active_ok (live s) s"
  shows "ok (exit_sched e s) (\<lambda>(r, s'). r = e \<and> kernel_inv s' \<and> sched_done s s')"
  using core_sched_inv [OF assms] by (simp add: exit_sched_def)

lemma kernel_exit:
  assumes "kernel_inv s"
  shows "ok (exit_sched e s) (\<lambda>(r, s'). r = e \<and> kernel_inv s' \<and> sched_done s s')"
  using assms by (intro exit_sched_inv) (auto simp: kernel_inv_def)

end
