(* ===== verification/PendInv.thy ===== *)
theory PendInv
  imports KInv
begin

text \<open>
  Blocking and waking keep the invariant. The results of the routines of theory \<open>Pend\<close> are written
  out (\<open>wake_result\<close>, \<open>block_result\<close>) up to the new ready queue, so that the fields of the state after
  a call are found by simplification.
\<close>

section \<open>Waking\<close>

lemma active_eq: "g_active_task s = Some a \<Longrightarrow> active s = Inr a"
  by (simp add: active_def)

lemma ready_list_add_ok:
  assumes "core_inv A (g_ready_queue s) ((st s)(t := K_RDY)) (pri s) (bo s) (bl s) (pol s)"
    and "t \<notin> A" "pri s t < 62" "g_active_task s = Some a"
  shows "\<exists>rq'. ready_list_add t s = Inr (s\<lparr>g_ready_queue := rq'\<rparr>) \<and>
    core_inv (insert t A) rq' ((st s)(t := K_RDY)) (pri s) (bo s) (bl s) (pol s)"
  using attach_ready_tail [OF assms(1,2)] attach_ready_head [OF assms(1,2)] assms(3)
  by (auto simp: ready_list_add_def active_eq [OF assms(4)] ready_list_add_tail_def ready_list_add_head_def
      with_rq_def ok_iff)

definition wake_result :: "blk_state \<Rightarrow> tid \<Rightarrow> runqueue \<Rightarrow> kstate \<Rightarrow> kstate" where
  "wake_result r t q s =
     upd_task t (\<lambda>k. k\<lparr>t_blk_state := r, blk_obj := None\<rparr>) (tick_list_rm t
       (set_state t (if st s t = K_PEND then K_RDY else K_SUSPENDED) ((blk_list_rm t s)\<lparr>g_ready_queue := q\<rparr>)))"

lemma wake_views [simp]:
  "st (wake_result r t q s) = (st s)(t := if st s t = K_PEND then K_RDY else K_SUSPENDED)"
  "pri (wake_result r t q s) = pri s" "bo (wake_result r t q s) = (bo s)(t := None)"
  "held (wake_result r t q s) = held s" "tkm (wake_result r t q s) = tkm s"
  "tkh (wake_result r t q s) = (tkh s)(t := False)"
  "bl (wake_result r t q s) = (\<lambda>b. remove1 t (bl s b))" "pol (wake_result r t q s) = pol s"
  "ty (wake_result r t q s) = ty s" "own (wake_result r t q s) = own s"
  "g_ready_queue (wake_result r t q s) = q" "g_active_task (wake_result r t q s) = g_active_task s"
  "g_tick_count (wake_result r t q s) = g_tick_count s" "g_kobj_list (wake_result r t q s) = g_kobj_list s"
  "g_sched_lock (wake_result r t q s) = g_sched_lock s"
  "g_intrpt_nested_level (wake_result r t q s) = g_intrpt_nested_level s"
  "b_prio (tasks (wake_result r t q s) u) = b_prio (tasks s u)"
  "mutexes (wake_result r t q s) = mutexes s" "live (wake_result r t q s) = live s"
  "sems (wake_result r t q s) = sems s" "events (wake_result r t q s) = events s"
  "queues (wake_result r t q s) = queues s" "buf_queues (wake_result r t q s) = buf_queues s"
  "mem (wake_result r t q s) = mem s" "cells (wake_result r t q s) = cells s"
  "t_blk_state (tasks (wake_result r t q s) t) = r"
  "rem (wake_result r t q s) = rem s"
  by (simp_all add: wake_result_def set_state_def upd_task_def tick_list_rm_def blk_list_rm_def view_defs
      live_def rem_def fun_eq_iff)

lemma wake_tasks [simp]: "u \<noteq> t \<Longrightarrow> tasks (wake_result r t q s) u = tasks s u"
  by (simp add: wake_result_def set_state_def tick_list_rm_def blk_list_rm_def upd_task_def)

lemma g_tick_head_wake: "tick_ok L s \<Longrightarrow> g_tick_head (wake_result r t q s) = remove1 t (g_tick_head s)"
  by (auto simp: wake_result_def set_state_def upd_task_def tick_list_rm_def blk_list_rm_def tick_ok_def tkh_def
      remove1_idem)

lemma blk_list_rm_same: "(blk_list_rm t s)\<lparr>g_ready_queue := g_ready_queue s\<rparr> = blk_list_rm t s"
  by (simp add: blk_list_rm_def)

lemma pend_task_end_ok:
  assumes inv: "kinv A s" and t: "t \<in> A" "pending_state (st s t)" and a: "g_active_task s = Some a"
  shows "\<exists>q. pend_task_end r t s = Inr (wake_result r t q s) \<and> kinv A (wake_result r t q s)"
proof -
  note d = detach_pending [OF inv [unfolded kinv_def] t(2)]
  have p: "pri s t < 62" using kinv_D(1) [OF inv t(1)] .
  show ?thesis
  proof (cases "st s t = K_PEND")
    case True
    have "core_inv (A - {t}) (g_ready_queue (blk_list_rm t s)) ((st (blk_list_rm t s))(t := K_RDY))
        (pri (blk_list_rm t s)) (bo (blk_list_rm t s)) (bl (blk_list_rm t s)) (pol (blk_list_rm t s))"
      using upd_detached [OF d, of t K_RDY "pri s t" "bo s t"] by simp
    then obtain q where q: "ready_list_add t (blk_list_rm t s) = Inr ((blk_list_rm t s)\<lparr>g_ready_queue := q\<rparr>)"
      "core_inv (insert t (A - {t})) q ((st s)(t := K_RDY)) (pri s) (bo s) (\<lambda>b. remove1 t (bl s b)) (pol s)"
      using ready_list_add_ok [of "A - {t}" "blk_list_rm t s" t a] p a by auto
    have "core_inv A q ((st s)(t := K_RDY)) (pri s) ((bo s)(t := None)) (\<lambda>b. remove1 t (bl s b)) (pol s)"
      using q(2) t(1) unfolding core_inv_def by (auto simp: insert_absorb)
    then have "kinv A (wake_result r t q s)"
      using True by (simp add: kinv_def)
    then show ?thesis
      using q(1) True by (intro exI [of _ q]) (simp add: pend_task_end_def wake_result_def)
  next
    case False
    then have s: "st s t = K_PEND_SUSPENDED" using t(2) by simp
    have "core_inv (insert t (A - {t})) (g_ready_queue s) ((st s)(t := K_SUSPENDED)) ((pri s)(t := pri s t))
        ((bo s)(t := None)) (\<lambda>b. remove1 t (bl s b)) (pol s)"
      using upd_detached [OF d, of t K_SUSPENDED "pri s t" None] p by (intro attach_other) auto
    then have "kinv A (wake_result r t (g_ready_queue s) s)"
      using t(1) s by (simp add: kinv_def insert_absorb)
    then show ?thesis
      using s by (intro exI [of _ "g_ready_queue s"]) (simp add: pend_task_end_def wake_result_def blk_list_rm_same)
  qed
qed

lemma tick_ok_remove:
  assumes "tick_ok L s" "g_tick_head s' = remove1 t (g_tick_head s)" "tkh s' = (tkh s)(t := False)"
    "tkm s' = tkm s" "g_tick_count s' = g_tick_count s" "st s' = (st s)(t := x)"
    "x \<notin> {K_SLEEP, K_SLEEP_SUSPENDED}"
  shows "tick_ok L s'"
proof -
  have "rem s' = rem s" using assms(4,5) by (simp add: rem_def fun_eq_iff)
  then show ?thesis
    using assms unfolding tick_ok_def by (auto intro: sorted_map_key_remove1)
qed

lemma mutex_ok_bl:
  assumes "mutex_ok L s" "\<And>b. ty s b = RHINO_MUTEX_OBJ_TYPE \<Longrightarrow> bl s' b \<noteq> [] \<Longrightarrow> own s b \<noteq> None"
    "\<And>b. ty s' b = RHINO_MUTEX_OBJ_TYPE \<longleftrightarrow> ty s b = RHINO_MUTEX_OBJ_TYPE" "own s' = own s" "held s' = held s"
    "\<And>u. b_prio (tasks s' u) = b_prio (tasks s u)"
  shows "mutex_ok L s'"
proof (rule mutex_okI, unfold assms(3-6))
  fix b t
  note d = mutex_okD(2-4) [OF assms(1)]
  show "own s b \<noteq> None" if "ty s b = RHINO_MUTEX_OBJ_TYPE" "bl s' b \<noteq> []"
    using that by (rule assms(2))
  show "t \<in> L \<and> t \<noteq> g_idle_task \<and> b \<in> set (held s t)" if "ty s b = RHINO_MUTEX_OBJ_TYPE" "own s b = Some t"
    using that by (rule d(1))
  show "distinct (held s t) \<and> b_prio (tasks s t) < 62" if "t \<in> L" using that by (rule d(2))
  show "own s b = Some t \<and> ty s b = RHINO_MUTEX_OBJ_TYPE" if "t \<in> L" "b \<in> set (held s t)"
    using that by (rule d(3))
qed

lemma inherit_ok_less:
  assumes "inherit_ok s" "\<And>b. set (bl s' b) \<subseteq> set (bl s b)" "ty s' = ty s" "own s' = own s" "pol s' = pol s" "pri s' = pri s"
  shows "inherit_ok s'"
  using assms(1,2) unfolding inherit_ok_def assms(3-6) by blast

lemma struct_inv_wake:
  assumes "struct_inv s" "kinv (live s) (wake_result r t q s)"
  shows "struct_inv (wake_result r t q s)"
proof -
  have k: "tick_ok (live s) s" "mutex_ok (live s) s" "inherit_ok s" using assms(1) by (auto simp: struct_inv_def)
  have "tick_ok (live s) (wake_result r t q s)"
    by (rule tick_ok_remove [OF k(1) g_tick_head_wake [OF k(1)]]) (auto split: if_splits)
  moreover have "mutex_ok (live s) (wake_result r t q s)"
    by (rule mutex_ok_bl [OF k(2)]) (use mutex_okD(1) [OF k(2)] in \<open>force+\<close>)
  moreover have "inherit_ok (wake_result r t q s)"
    by (rule inherit_ok_less [OF k(3)]) (auto dest: set_remove1_subset [THEN subsetD])
  ultimately show ?thesis
    using assms(2) by (simp add: struct_inv_def)
qed

lemma none_due_wake:
  assumes "tick_ok L s" "none_due s" shows "none_due (wake_result r t q s)"
  using assms g_tick_head_wake [OF assms(1)] by (auto simp: none_due_def dest: set_remove1_subset [THEN subsetD])

text \<open>Waking a task of a block list: what is woken, and that the invariant is kept.\<close>

lemma wake_ok:
  assumes "struct_inv s" "g_active_task s = Some a" "t \<in> set (bl s b)"
  shows "\<exists>q. pend_task_end r t s = Inr (wake_result r t q s) \<and> struct_inv (wake_result r t q s)"
proof -
  have k: "kinv (live s) s" using assms(1) by (simp add: struct_inv_def)
  have t: "t \<in> live s" "pending_state (st s t)" using kinv_D(3) [OF k] assms(3) by auto
  then obtain q where "pend_task_end r t s = Inr (wake_result r t q s)" "kinv (live s) (wake_result r t q s)"
    using pend_task_end_ok [OF k t assms(2)] by blast
  then show ?thesis using struct_inv_wake [OF assms(1)] by blast
qed

lemma kernel_inv_wake:
  assumes "kernel_inv s" "struct_inv (wake_result r t q s)" "pending_state (st s t)"
  shows "kernel_inv (wake_result r t q s)"
  using assms none_due_wake [of "live s" s] by (auto simp: kernel_inv_def struct_inv_def active_ok_def)

lemma kernel_wake_ok:
  assumes "kernel_inv s" "t \<in> set (bl s b)"
  shows "\<exists>q. pend_task_end r t s = Inr (wake_result r t q s) \<and> kernel_inv (wake_result r t q s)"
proof -
  obtain a where a: "struct_inv s" "g_active_task s = Some a"
    using assms(1) by (auto simp: kernel_inv_def active_ok_def)
  have "pending_state (st s t)" using a(1) assms(2) kinv_D(3) by (auto simp: struct_inv_def)
  then show ?thesis
    using wake_ok [OF a assms(2), of r] kernel_inv_wake [OF assms(1)] by blast
qed

section \<open>Blocking\<close>

lemma tick_ok_insert:
  assumes "tick_ok L s" "t \<in> L" "\<not> tkh s t"
    "g_tick_head s' = insert_before (\<lambda>q. tkm s' q - g_tick_count s > time) t (g_tick_head s)"
    "tkh s' = (tkh s)(t := True)" "tkm s' = (tkm s)(t := g_tick_count s + time)"
    "g_tick_count s' = g_tick_count s" "st s' = (st s)(t := x)" "waiting_state x" "unat time < 2 ^ 63"
  shows "tick_ok L s'"
proof -
  note d = assms(1) [unfolded tick_ok_def]
  have r: "rem s' = (rem s)(t := unat time)" using assms(6,7) by (auto simp: rem_def fun_eq_iff)
  have t: "t \<notin> set (g_tick_head s)" using d assms(3) by auto
  have P: "tkm s' y - g_tick_count s > time \<longleftrightarrow> rem s' y > rem s' t" for y
    using assms(6,7) by (simp add: rem_def word_less_nat_alt)
  have m: "map (rem s') (g_tick_head s) = map (rem s) (g_tick_head s)" using t r by auto
  have "sorted (map (rem s') (g_tick_head s))" unfolding m using d by blast
  then have "sorted (map (rem s') (g_tick_head s'))"
    unfolding assms(4) using P by (intro sorted_insert_before) simp_all
  then show ?thesis
    using d t r assms by (auto simp: tick_ok_def)
qed

text \<open>A timeout the time list can hold: below half the range of the tick count. A longer one counts as
  already past at the next tick.\<close>

definition good_timeout :: "tick \<Rightarrow> bool" where
  "good_timeout ticks \<longleftrightarrow> 0 < ticks \<and> (ticks = RHINO_WAIT_FOREVER \<or> unat ticks < 2 ^ 63)"

definition block_result :: "oid \<Rightarrow> tid \<Rightarrow> tick \<Rightarrow> runqueue \<Rightarrow> kstate \<Rightarrow> kstate" where
  "block_result b t timeout q s =
     (let s = upd_task t (\<lambda>k. k\<lparr>blk_obj := Some b\<rparr>) s;
          s = (if timeout \<noteq> RHINO_WAIT_FOREVER then tick_list_insert t timeout s else s);
          s = (set_state t K_PEND s)\<lparr>g_ready_queue := q\<rparr>
      in upd_blk b (\<lambda>ob. ob\<lparr>blk_list := (if blk_policy (blks s b) = BLK_POLICY_FIFO then blk_list ob @ [t]
           else insert_before (\<lambda>u. pri s u > pri s t) t (blk_list ob))\<rparr>) s)"

lemma higher_pri_neq:
  "(u \<noteq> t \<and> (u \<noteq> t \<longrightarrow> prio (tasks s t) < prio (tasks s u))) \<longleftrightarrow> prio (tasks s t) < prio (tasks s u)"
  by auto

lemma block_views [simp]:
  "st (block_result b t n q s) = (st s)(t := K_PEND)" "pri (block_result b t n q s) = pri s"
  "bo (block_result b t n q s) = (bo s)(t := Some b)" "held (block_result b t n q s) = held s"
  "bl (block_result b t n q s) = (bl s)(b := if pol s b = BLK_POLICY_FIFO then bl s b @ [t]
     else insert_before (\<lambda>u. pri s u > pri s t) t (bl s b))"
  "pol (block_result b t n q s) = pol s" "ty (block_result b t n q s) = ty s" "own (block_result b t n q s) = own s"
  "g_ready_queue (block_result b t n q s) = q" "g_active_task (block_result b t n q s) = g_active_task s"
  "g_tick_count (block_result b t n q s) = g_tick_count s" "g_kobj_list (block_result b t n q s) = g_kobj_list s"
  "g_sched_lock (block_result b t n q s) = g_sched_lock s"
  "g_intrpt_nested_level (block_result b t n q s) = g_intrpt_nested_level s"
  "b_prio (tasks (block_result b t n q s) u) = b_prio (tasks s u)"
  "mutexes (block_result b t n q s) = mutexes s" "live (block_result b t n q s) = live s"
  "sems (block_result b t n q s) = sems s" "events (block_result b t n q s) = events s"
  "queues (block_result b t n q s) = queues s" "buf_queues (block_result b t n q s) = buf_queues s"
  "mem (block_result b t n q s) = mem s" "cells (block_result b t n q s) = cells s"
  by (simp_all add: block_result_def Let_def set_state_def upd_task_def upd_blk_def tick_list_insert_def
      tick_list_pri_insert_def view_defs live_def fun_eq_iff higher_pri_neq)

lemma block_tick_views:
  assumes "0 < n" "n \<noteq> RHINO_WAIT_FOREVER"
  shows "tkh (block_result b t n q s) = (tkh s)(t := True)"
    "tkm (block_result b t n q s) = (tkm s)(t := g_tick_count s + n)"
    "g_tick_head (block_result b t n q s) =
       insert_before (\<lambda>u. tkm (block_result b t n q s) u - g_tick_count s > n) t (g_tick_head s)"
  using assms by (simp_all add: block_result_def Let_def set_state_def upd_task_def upd_blk_def tick_list_insert_def
      tick_list_pri_insert_def view_defs fun_eq_iff cong: if_cong)

lemma block_tick_views_forever:
  "tkh (block_result b t RHINO_WAIT_FOREVER q s) = tkh s" "tkm (block_result b t RHINO_WAIT_FOREVER q s) = tkm s"
  "g_tick_head (block_result b t RHINO_WAIT_FOREVER q s) = g_tick_head s"
  by (simp_all add: block_result_def Let_def set_state_def upd_task_def upd_blk_def view_defs fun_eq_iff)

lemma pend_to_blk_obj_eq:
  assumes "kinv A s" "t \<in> A" "st s t = K_RDY" "t \<noteq> g_idle_task"
  shows "\<exists>q. pend_to_blk_obj b t n s = Inr (block_result b t n q s) \<and>
    core_inv (A - {t}) q (st s) (pri s) (bo s) (bl s) (pol s)"
proof -
  obtain q where q: "ready_list_rm_rq (g_ready_queue s) t (pri s t) = Inr q"
    "core_inv (A - {t}) q (st s) (pri s) (bo s) (bl s) (pol s)"
    using detach_ready [OF assms(1) [unfolded kinv_def] assms(2,3,4)] by (auto simp: ok_iff)
  have "pend_to_blk_obj b t n s = Inr (block_result b t n q s)"
    using q(1) by (simp add: pend_to_blk_obj_def block_result_def pend_list_add_def ready_list_rm_def with_rq_def Let_def
        tick_list_insert_def tick_list_pri_insert_def set_state_def upd_task_def pri_def [abs_def])
  then show ?thesis using q(2) by blast
qed

lemma block_ok:
  assumes inv: "struct_inv s" and t: "t \<in> live s" "st s t = K_RDY" "t \<noteq> g_idle_task" and n: "good_timeout n"
    and m: "ty s b = RHINO_MUTEX_OBJ_TYPE \<Longrightarrow> \<exists>u. own s b = Some u \<and> pri s u \<le> pri s t"
  shows "\<exists>q. pend_to_blk_obj b t n s = Inr (block_result b t n q s) \<and> struct_inv (block_result b t n q s)"
proof -
  have k: "kinv (live s) s" "tick_ok (live s) s" "mutex_ok (live s) s" "inherit_ok s"
    using inv by (auto simp: struct_inv_def)
  obtain q where q: "pend_to_blk_obj b t n s = Inr (block_result b t n q s)"
    "core_inv (live s - {t}) q (st s) (pri s) (bo s) (bl s) (pol s)"
    using pend_to_blk_obj_eq [OF k(1) t] by blast
  have "core_inv (live s - {t}) q ((st s)(t := K_PEND)) ((pri s)(t := pri s t)) ((bo s)(t := Some b)) (bl s) (pol s)"
    by (rule upd_detached [OF q(2)]) simp
  then have "core_inv (insert t (live s - {t})) q ((st s)(t := K_PEND)) ((pri s)(t := pri s t)) ((bo s)(t := Some b))
      ((bl s)(b := if pol s b = BLK_POLICY_FIFO then bl s b @ [t]
         else insert_before (\<lambda>u. pri s u > pri s t) t (bl s b))) (pol s)"
    using attach_pending_fifo [of "live s - {t}" q "(st s)(t := K_PEND)" "pri s" "(bo s)(t := Some b)" "bl s" "pol s" t b]
      attach_pending_pri [of "live s - {t}" q "(st s)(t := K_PEND)" "pri s" "(bo s)(t := Some b)" "bl s" "pol s" t b]
      kinv_D(1) [OF k(1) t(1)] by simp
  then have "kinv (live s) (block_result b t n q s)"
    using t(1) by (simp add: kinv_def insert_absorb)
  moreover have "mutex_ok (live s) (block_result b t n q s)"
    by (rule mutex_ok_bl [OF k(3)]) (use mutex_okD(1) [OF k(3)] m in \<open>auto split: if_splits\<close>)
  moreover have "tick_ok (live s) (block_result b t n q s)"
  proof (cases "n = RHINO_WAIT_FOREVER")
    case True
    then show ?thesis
      using k(2) t by (auto simp: tick_ok_def block_tick_views_forever rem_def [abs_def] waiting_state_def)
  next
    case False
    have "\<not> tkh s t" using k(2) t by (auto simp: tick_ok_def waiting_state_def)
    then show ?thesis
      using False n t(1) block_tick_views
      by (intro tick_ok_insert [OF k(2), of t _ n]) (auto simp: good_timeout_def waiting_state_def)
  qed
  moreover have "inherit_ok (block_result b t n q s)"
    using k(4) m unfolding inherit_ok_def by auto
  ultimately show ?thesis
    using q(1) by (auto simp: struct_inv_def)
qed

text \<open>The blocking half of a service: the active task goes to the block list and the best ready task
  becomes the active one.\<close>

lemma block_active_ok:
  assumes inv: "kernel_inv s" and a: "g_active_task s = Some a" "a \<noteq> g_idle_task" and n: "good_timeout n"
    and z: "g_intrpt_nested_level s = 0" "g_sched_lock s = 0"
    and m: "ty s b = RHINO_MUTEX_OBJ_TYPE \<Longrightarrow> \<exists>u. own s b = Some u \<and> pri s u \<le> pri s a"
  shows "ok (block_active b n s) (\<lambda>(r, s'). r = Pending \<and> kernel_inv s' \<and>
    (\<exists>q. sched_done (block_result b a n q s) s'))"
proof -
  have i: "struct_inv s" "none_due s" "a \<in> live s" "st s a = K_RDY"
    using inv a z by (auto simp: kernel_inv_def active_ok_def)
  obtain q where q: "pend_to_blk_obj b a n s = Inr (block_result b a n q s)" "struct_inv (block_result b a n q s)"
    using block_ok [OF i(1,3,4) a(2) n m] by blast
  have "none_due (block_result b a n q s)"
  proof (cases "n = RHINO_WAIT_FOREVER")
    case True
    then show ?thesis using i(2) by (simp add: none_due_def block_tick_views_forever rem_def)
  next
    case False
    then show ?thesis
      using i(2) n by (auto simp: none_due_def block_tick_views good_timeout_def rem_def unat_gt_0 word_gt_0)
  qed
  then have "ok (core_sched (block_result b a n q s)) (\<lambda>s'. kernel_inv s' \<and> sched_done (block_result b a n q s) s')"
    using core_sched_inv [OF q(2)] z by simp
  then show ?thesis
    using q(1) by (auto simp: block_active_def active_eq [OF a(1)] ok_iff)
qed

section \<open>Fields the invariant does not depend on\<close>

definition neutral :: "(ktask \<Rightarrow> ktask) \<Rightarrow> bool" where
  "neutral f \<longleftrightarrow> (\<forall>k. task_state (f k) = task_state k \<and> prio (f k) = prio k \<and> b_prio (f k) = b_prio k \<and>
     blk_obj (f k) = blk_obj k \<and> t_mutex_list (f k) = t_mutex_list k \<and> tick_head (f k) = tick_head k \<and>
     tick_match (f k) = tick_match k)"

lemma neutral_views:
  assumes "neutral f"
  shows "st (upd_task t f s) = st s" "pri (upd_task t f s) = pri s" "bo (upd_task t f s) = bo s"
    "held (upd_task t f s) = held s" "tkh (upd_task t f s) = tkh s" "tkm (upd_task t f s) = tkm s"
    "b_prio (tasks (upd_task t f s) u) = b_prio (tasks s u)"
  using assms by (simp_all add: neutral_def view_defs fun_eq_iff)

text \<open>The fields the invariant reads.\<close>

definition same_sched :: "kstate \<Rightarrow> kstate \<Rightarrow> bool" where
  "same_sched s s' \<longleftrightarrow> st s' = st s \<and> pri s' = pri s \<and> bo s' = bo s \<and> held s' = held s \<and> tkh s' = tkh s \<and>
     tkm s' = tkm s \<and> bl s' = bl s \<and> pol s' = pol s \<and> ty s' = ty s \<and> own s' = own s \<and>
     (\<forall>u. b_prio (tasks s' u) = b_prio (tasks s u)) \<and> g_ready_queue s' = g_ready_queue s \<and>
     g_tick_head s' = g_tick_head s \<and> g_tick_count s' = g_tick_count s \<and>
     task_head (g_kobj_list s') = task_head (g_kobj_list s) \<and> g_active_task s' = g_active_task s \<and>
     g_sched_lock s' = g_sched_lock s \<and> g_intrpt_nested_level s' = g_intrpt_nested_level s"

lemma same_sched_struct: "same_sched s s' \<Longrightarrow> struct_inv s' = struct_inv s"
  by (simp add: same_sched_def struct_inv_def kinv_def tick_ok_def mutex_ok_def inherit_ok_def live_def rem_def [abs_def])

lemma same_sched_inv:
  assumes "same_sched s s'" shows "kernel_inv s' = kernel_inv s"
  using same_sched_struct [OF assms] assms
  by (simp add: same_sched_def kernel_inv_def none_due_def active_ok_def live_def rem_def)

lemma same_sched_task: "neutral f \<Longrightarrow> same_sched s (upd_task t f s)"
  by (simp add: same_sched_def neutral_views) (simp add: neutral_def)

lemma same_sched_trans: "same_sched s s' \<Longrightarrow> same_sched s' s'' \<Longrightarrow> same_sched s s''"
  by (simp add: same_sched_def)

lemma mem_views [simp]:
  "st (s\<lparr>mem := x\<rparr>) = st s" "bl (s\<lparr>mem := x\<rparr>) = bl s" "ty (s\<lparr>mem := x\<rparr>) = ty s" "pol (s\<lparr>mem := x\<rparr>) = pol s"
  by (simp_all add: view_defs fun_eq_iff)

lemma same_sched_mem: "same_sched s (s\<lparr>mem := x\<rparr>)"
  by (simp add: same_sched_def view_defs fun_eq_iff)

text \<open>Changing the type of an object that is not a held mutex, as every deletion does first.\<close>

lemma kernel_inv_ty:
  assumes "kernel_inv s" "ty s b \<noteq> RHINO_MUTEX_OBJ_TYPE" "x \<noteq> RHINO_MUTEX_OBJ_TYPE"
  shows "kernel_inv (upd_blk b (\<lambda>ob. ob\<lparr>obj_type := x\<rparr>) s)"
proof -
  let ?s = "upd_blk b (\<lambda>ob. ob\<lparr>obj_type := x\<rparr>) s"
  have v: "bl ?s = bl s" by simp
  have m: "mutex_ok (live s) s" using assms(1) by (simp add: kernel_inv_def struct_inv_def)
  have "mutex_ok (live s) ?s"
    by (rule mutex_ok_bl [OF m]) (use mutex_okD(1) [OF m] assms(2,3) v in \<open>auto split: if_splits\<close>)
  moreover have "inherit_ok ?s"
    using assms unfolding kernel_inv_def struct_inv_def inherit_ok_def by auto
  ultimately show ?thesis
    using assms(1) by (simp add: kernel_inv_def struct_inv_def kinv_def tick_ok_def none_due_def active_ok_def rem_def [abs_def])
qed

section \<open>Releasing all waiters\<close>

text \<open>What stays as it was when tasks are only woken.\<close>

definition same_rest :: "kstate \<Rightarrow> kstate \<Rightarrow> bool" where
  "same_rest s s' \<longleftrightarrow> pri s' = pri s \<and> held s' = held s \<and> tkm s' = tkm s \<and> pol s' = pol s \<and> ty s' = ty s \<and>
     own s' = own s \<and> (\<forall>u. b_prio (tasks s' u) = b_prio (tasks s u)) \<and> g_tick_count s' = g_tick_count s \<and>
     g_kobj_list s' = g_kobj_list s \<and> g_active_task s' = g_active_task s \<and> g_sched_lock s' = g_sched_lock s \<and>
     g_intrpt_nested_level s' = g_intrpt_nested_level s \<and> mutexes s' = mutexes s \<and> sems s' = sems s \<and>
     events s' = events s \<and> queues s' = queues s \<and> buf_queues s' = buf_queues s \<and> mem s' = mem s \<and>
     cells s' = cells s"

lemma same_rest_refl [simp]: "same_rest s s" by (simp add: same_rest_def)

lemma same_rest_trans: "same_rest s s' \<Longrightarrow> same_rest s' s'' \<Longrightarrow> same_rest s s''"
  by (simp add: same_rest_def)

lemma same_rest_wake: "same_rest s (wake_result r t q s)"
  by (simp add: same_rest_def)

definition woken :: "task_stat \<Rightarrow> task_stat" where
  "woken x = (if x = K_PEND then K_RDY else K_SUSPENDED)"

definition released :: "blk_state \<Rightarrow> oid \<Rightarrow> kstate \<Rightarrow> kstate \<Rightarrow> bool" where
  "released r b s s' \<longleftrightarrow> same_rest s s' \<and> bl s' = (bl s)(b := []) \<and>
     (\<forall>t \<in> set (bl s b). st s' t = woken (st s t) \<and> t_blk_state (tasks s' t) = r) \<and>
     (\<forall>t. t \<notin> set (bl s b) \<longrightarrow> tasks s' t = tasks s t)"

lemma bl_remove1:
  assumes "kinv A s" "t \<in> set (bl s b)"
  shows "(\<lambda>b'. remove1 t (bl s b')) = (bl s)(b := remove1 t (bl s b))"
  using kinv_D(3) [OF assms(1)] assms(2) by (auto simp: fun_eq_iff remove1_idem)

text \<open>Both loops that release all waiters of an object have this shape; \<open>g\<close> is what is done to a task
  before it is woken.\<close>

lemma release_loop_ok:
  assumes base: "\<And>s. F 0 s = (if bl s b = [] then Inr s else Inl Diverge)"
    and step: "\<And>n s. F (Suc n) s = (case bl s b of [] \<Rightarrow> Inr s
      | t # _ \<Rightarrow> bnd (pend_task_end r t (upd_task t g s)) (F n))"
    and g: "neutral g"
    and inv: "kernel_inv s" and n: "length (bl s b) = n"
  shows "ok (F n s) (\<lambda>s'. kernel_inv s' \<and> released r b s s')"
  using inv n
proof (induction n arbitrary: s)
  case 0
  then show ?case by (simp add: base released_def fun_upd_idem)
next
  case (Suc n)
  obtain t ts where l: "bl s b = t # ts" using Suc.prems(2) by (cases "bl s b") auto
  let ?s = "upd_task t g s"
  have i: "kernel_inv ?s" using Suc.prems(1) same_sched_inv [OF same_sched_task [OF g]] by blast
  have "t \<in> set (bl ?s b)" using l by simp
  then obtain q where q: "pend_task_end r t ?s = Inr (wake_result r t q ?s)" "kernel_inv (wake_result r t q ?s)"
    using kernel_wake_ok [OF i] by blast
  define w where "w = wake_result r t q ?s"
  have k: "kinv (live s) s" using Suc.prems(1) by (simp add: kernel_inv_def struct_inv_def)
  have d: "distinct (t # ts)" using kinv_D(4) [OF k, of b] l by simp
  have bw: "bl w = (bl s)(b := ts)" using bl_remove1 [OF k, of t b] l by (simp add: w_def)
  have sw: "st w = (st s)(t := woken (st s t))" "t_blk_state (tasks w t) = r" "\<And>u. u \<noteq> t \<Longrightarrow> tasks w u = tasks s u"
    using g by (simp_all add: w_def woken_def neutral_views)
  have "length (bl w b) = n" using bw l Suc.prems(2) by simp
  note Suc.IH [OF q(2) [folded w_def] this]
  then have "ok (F n w) (\<lambda>s'. kernel_inv s' \<and> released r b s s')"
  proof (rule ok_mono)
    fix s' assume s': "kernel_inv s' \<and> released r b w s'"
    then have r: "same_rest w s'" "bl s' = (bl s)(b := [])"
      "\<forall>u \<in> set ts. st s' u = woken (st w u) \<and> t_blk_state (tasks s' u) = r"
      "\<forall>u. u \<notin> set ts \<longrightarrow> tasks s' u = tasks w u"
      unfolding released_def bw by simp_all
    have "same_rest s w" using g by (simp add: w_def same_rest_def neutral_views) (simp add: neutral_def upd_task_def)
    then have "same_rest s s'" using r(1) by (rule same_rest_trans)
    moreover have "st s' u = woken (st s u) \<and> t_blk_state (tasks s' u) = r" if "u \<in> set (bl s b)" for u
    proof (cases "u = t")
      case True
      then have "tasks s' t = tasks w t" using r(4) d by simp
      moreover from this have "st s' t = st w t" by (simp add: st_def)
      ultimately show ?thesis using True sw by simp
    next
      case False
      then show ?thesis using that l r(3) sw(1) by simp
    qed
    moreover have "\<forall>u. u \<notin> set (bl s b) \<longrightarrow> tasks s' u = tasks s u"
      using r(4) l sw(3) by simp
    ultimately show "kernel_inv s' \<and> released r b s s'"
      using s' r(2) unfolding released_def by blast
  qed
  then show ?case using q(1) l by (simp add: step w_def)
qed

lemma pend_rm_all_ok:
  assumes "kernel_inv s"
  shows "ok (pend_rm_all b s) (\<lambda>s'. kernel_inv s' \<and> released BLK_DEL b s s')"
  unfolding pend_rm_all_def
  by (rule release_loop_ok [where g = "\<lambda>k. k", OF _ _ _ assms])
    (simp_all add: bl_def pend_task_rm_def neutral_def upd_task_def split: list.split)

lemma pend_wakeup_all_ok:
  assumes "kernel_inv s" "neutral g" "\<And>t s. f t s = upd_task t g s"
  shows "ok (pend_wakeup_all f b s) (\<lambda>s'. kernel_inv s' \<and> released BLK_FINISH b s s')"
  unfolding pend_wakeup_all_def
  by (rule release_loop_ok [where g = g, OF _ _ assms(2,1)])
    (simp_all add: bl_def pend_task_wakeup_def assms(3) split: list.split)

end
