(* ===== verification/KExample.thy ===== *)
theory KExample
  imports PendInv
begin

text \<open>
  A concrete kernel state that satisfies the invariant: seven tasks (the idle task, a running task
  that owns a mutex, one ready of the same priority, four waiting for a semaphore, a mutex, an event and the time) and one
  object of each kind. The properties of the components are applied to it.
\<close>

definition ex_task :: "task_stat \<Rightarrow> nat \<Rightarrow> oid option \<Rightarrow> ktask" where
  "ex_task x p b = \<lparr>task_stack_base = 0, user_info = [0, 0], stack_size = 64, suspend_count = 0, t_mutex_list = [],
     tick_match = 0, tick_remain = 0, tick_head = False, msg = 0, bq_msg_size = 0, task_name = None,
     task_state = x, t_blk_state = BLK_FINISH, blk_obj = b, task_sem_obj = None, time_slice = 50,
     time_total = 50, pend_flags = 0, pend_info = 0, pend_option = 0, sched_policy = KSCHED_RR, prio = p,
     b_prio = p, t_mm_alloc_flag = K_OBJ_STATIC_ALLOC\<rparr>"

definition ex_tasks :: "tid \<Rightarrow> ktask" where
  "ex_tasks t =
     (if t = 0 then ex_task K_RDY 61 None
      else if t = 5 then (ex_task K_RDY 10 None)\<lparr>t_mutex_list := [9]\<rparr>
      else if t = 6 then ex_task K_PEND 20 (Some 7)
      else if t = 8 then ex_task K_PEND 30 (Some 9)
      else if t = 10 then (ex_task K_SLEEP 15 None)\<lparr>tick_match := 101, tick_remain := 4, tick_head := True\<rparr>
      else if t = 11 then ex_task K_RDY 10 None
      else if t = 14 then (ex_task K_PEND 12 (Some 13))\<lparr>tick_match := 105, tick_remain := 9, tick_head := True,
             pend_option := 2, pend_flags := 3, pend_info := 99\<rparr>
      else ex_task K_SEED 0 None)"

definition ex_blk :: "kobj_type \<Rightarrow> tid list \<Rightarrow> blk_obj_t" where
  "ex_blk x ts = \<lparr>blk_list = ts, blk_name = Some ''obj'', blk_policy = BLK_POLICY_PRI, obj_type = x\<rparr>"

definition ex_blks :: "oid \<Rightarrow> blk_obj_t" where
  "ex_blks b =
     (if b = 7 then ex_blk RHINO_SEM_OBJ_TYPE [6]
      else if b = 9 then ex_blk RHINO_MUTEX_OBJ_TYPE [8]
      else if b = 12 then ex_blk RHINO_SEM_OBJ_TYPE []
      else if b = 13 then ex_blk RHINO_EVENT_OBJ_TYPE [14]
      else if b = 15 then ex_blk RHINO_QUEUE_OBJ_TYPE []
      else if b = 16 then ex_blk RHINO_BUF_QUEUE_OBJ_TYPE []
      else if b = 18 then ex_blk RHINO_MUTEX_OBJ_TYPE []
      else ex_blk RHINO_OBJ_TYPE_NONE [])"

definition ex_rq :: runqueue where
  "ex_rq = \<lparr>cur_list_item = (\<lambda>p. if p = 10 then [5, 11] else if p = 61 then [0] else []),
     task_bit_map = [2 ^ 21, 2 ^ 2], highest_pri = 10\<rparr>"

definition ex_state :: kstate where
  "ex_state = \<lparr>g_sys_stat = RHINO_RUNNING, g_idle_task_spawned = 1, g_ready_queue = ex_rq, g_sched_lock = 0,
     g_intrpt_nested_level = 0, g_preferred_ready_task = Some 5, g_active_task = Some 5, g_tick_count = 100,
     g_tick_head = [10, 14],
     g_kobj_list = \<lparr>task_head = [0, 5, 6, 8, 10, 11, 14], mutex_head = [9, 18], sem_head = [7, 12],
       queue_head = [15], event_head = [13], buf_queue_head = [16]\<rparr>,
     g_res_list = [], tasks = ex_tasks, blks = ex_blks,
     sems = (\<lambda>b. \<lparr>count = (if b = 12 then 3 else 0), peak_count = 5, sem_alloc_flag = K_OBJ_STATIC_ALLOC\<rparr>),
     mutexes = (\<lambda>b. \<lparr>mutex_task = (if b = 9 then Some 5 else None), owner_nested = 1,
       mutex_alloc_flag = K_OBJ_STATIC_ALLOC\<rparr>),
     events = (\<lambda>b. \<lparr>flags = 1, event_alloc_flag = K_OBJ_STATIC_ALLOC\<rparr>),
     queues = (\<lambda>b. \<lparr>q_ringbuf = \<lparr>rb_buf = 1000, rb_end = 1016, rb_head = 1000, rb_tail = 1000, freesize = 16,
       rb_type = RINGBUF_TYPE_FIX, rb_blk_size = 4\<rparr>, queue_start = 1000, q_size = 4, q_cur_num = 0, q_peak_num = 0,
       queue_alloc_flag = K_OBJ_STATIC_ALLOC\<rparr>),
     buf_queues = (\<lambda>b. \<lparr>bq_buf = 2000, bq_ringbuf = \<lparr>rb_buf = 2000, rb_end = 2032, rb_head = 2000, rb_tail = 2000,
       freesize = 32, rb_type = RINGBUF_TYPE_DYN, rb_blk_size = 8\<rparr>, max_msg_size = 8, bq_cur_num = 0, bq_peak_num = 0,
       min_free_buf_size = 32, bq_alloc_flag = K_OBJ_STATIC_ALLOC\<rparr>),
     mem = (\<lambda>_. 0), cells = (\<lambda>_. 0)\<rparr>"

lemma ex_bitmap:
  "bitmap_test (task_bit_map ex_rq) p \<longleftrightarrow> p = 10 \<or> p = 61"
proof -
  have B: "bit (2 ^ k :: 32 word) n \<longleftrightarrow> n = k" if "k < 32" for k n
    using that by (auto simp: bit_exp_iff)
  consider "p < 32" | "32 \<le> p" "p < 64" | "64 \<le> p" by linarith
  then show ?thesis
  proof cases
    case 1
    then have "bitmap_test (task_bit_map ex_rq) p \<longleftrightarrow> bit (2 ^ 21 :: 32 word) (31 - p)"
      by (simp only: bitmap_test_def ex_rq_def) simp
    then show ?thesis using 1 by (subst (asm) B) auto
  next
    case 2
    then have "p div 32 = 1" by (intro div_nat_eqI) auto
    moreover from this have "p mod 32 = p - 32" using minus_div_mult_eq_mod [of p 32] by simp
    ultimately have "bitmap_test (task_bit_map ex_rq) p \<longleftrightarrow> bit (2 ^ 2 :: 32 word) (31 - (p - 32))"
      by (simp only: bitmap_test_def ex_rq_def) simp
    then show ?thesis using 2 by (subst (asm) B) auto
  next
    case 3
    then have "\<not> p div 32 < 2" using div_le_mono [of 64 p 32] by simp
    then show ?thesis using 3 by (simp add: bitmap_test_def ex_rq_def)
  qed
qed

lemma ex_rq_inv: "rq_inv ex_rq"
proof -
  have "length (task_bit_map ex_rq) = 2" by (simp add: ex_rq_def)
  moreover have "cur_list_item ex_rq p = (if p = 10 then [5, 11] else if p = 61 then [0] else [])"
    for p by (simp add: ex_rq_def)
  moreover have "highest_pri ex_rq = 10" by (simp add: ex_rq_def)
  ultimately show ?thesis
    by (auto simp: rq_inv_def ex_bitmap)
qed

lemma ex_fields [simp]:
  "g_ready_queue ex_state = ex_rq" "tasks ex_state = ex_tasks" "blks ex_state = ex_blks"
  "g_tick_head ex_state = [10, 14]" "g_tick_count ex_state = 100" "g_active_task ex_state = Some 5"
  "live ex_state = {0, 5, 6, 8, 10, 11, 14}" "g_sched_lock ex_state = 0" "g_intrpt_nested_level ex_state = 0"
  "own ex_state b = (if b = 9 then Some 5 else None)"
  by (auto simp: ex_state_def live_def own_def)

lemma ex_views [simp]:
  "st ex_state t = (if t \<in> {0, 5, 11} then K_RDY else if t \<in> {6, 8, 14} then K_PEND else if t = 10 then K_SLEEP else K_SEED)"
  "pri ex_state t = (if t = 0 then 61 else if t = 5 then 10 else if t = 6 then 20 else if t = 8 then 30
     else if t = 10 then 15 else if t = 11 then 10 else if t = 14 then 12 else 0)"
  "bo ex_state t = (if t = 6 then Some 7 else if t = 8 then Some 9 else if t = 14 then Some 13 else None)"
  "held ex_state t = (if t = 5 then [9] else [])"
  "tkh ex_state t = (t = 10 \<or> t = 14)" "tkm ex_state t = (if t = 10 then 101 else if t = 14 then 105 else 0)"
  "b_prio (ex_tasks t) = pri ex_state t"
  by (simp_all add: st_def pri_def bo_def held_def tkh_def tkm_def ex_tasks_def ex_task_def)

lemma ex_obj_views [simp]:
  "bl ex_state b = (if b = 7 then [6] else if b = 9 then [8] else if b = 13 then [14] else [])"
  "pol ex_state b = BLK_POLICY_PRI"
  "ty ex_state b = (if b \<in> {7, 12} then RHINO_SEM_OBJ_TYPE else if b \<in> {9, 18} then RHINO_MUTEX_OBJ_TYPE
     else if b = 13 then RHINO_EVENT_OBJ_TYPE else if b = 15 then RHINO_QUEUE_OBJ_TYPE
     else if b = 16 then RHINO_BUF_QUEUE_OBJ_TYPE else RHINO_OBJ_TYPE_NONE)"
  by (simp_all add: bl_def pol_def ty_def ex_blks_def ex_blk_def)

lemma ex_kinv: "kinv (live ex_state) ex_state"
  unfolding kinv_def core_inv_def
proof (intro conjI allI)
  show "rq_inv (g_ready_queue ex_state)" by (simp add: ex_rq_inv)
  fix p t show "t \<in> set (cur_list_item (g_ready_queue ex_state) p) \<longleftrightarrow>
      t \<in> live ex_state \<and> st ex_state t = K_RDY \<and> pri ex_state t = p"
    by (auto simp: ex_rq_def)
qed (auto simp: g_idle_task_def split: if_splits)

lemma ex_kernel_inv: "kernel_inv ex_state"
proof -
  have "tick_ok (live ex_state) ex_state"
    by (auto simp: tick_ok_def rem_def waiting_state_def)
  moreover have "mutex_ok (live ex_state) ex_state"
    by (rule mutex_okI) (auto simp: g_idle_task_def split: if_splits)
  moreover have "inherit_ok ex_state" by (auto simp: inherit_ok_def split: if_splits)
  ultimately show ?thesis
    using ex_kinv by (auto simp: kernel_inv_def struct_inv_def none_due_def active_ok_def rem_def)
qed

lemma ex_obj_fields [simp]:
  "sems ex_state b = \<lparr>count = (if b = 12 then 3 else 0), peak_count = 5, sem_alloc_flag = K_OBJ_STATIC_ALLOC\<rparr>"
  "mutexes ex_state b = \<lparr>mutex_task = (if b = 9 then Some 5 else None), owner_nested = 1,
     mutex_alloc_flag = K_OBJ_STATIC_ALLOC\<rparr>"
  "events ex_state b = \<lparr>flags = 1, event_alloc_flag = K_OBJ_STATIC_ALLOC\<rparr>"
  "g_sys_stat ex_state = RHINO_RUNNING"
  by (simp_all add: ex_state_def)

end
