(* ===== verification/PriInv.thy ===== *)
theory PriInv
  imports KExample
begin

text \<open>
  Changing priorities along the chain of mutex owners (theory \<open>MutexPri\<close>) keeps the invariant and ends,
  provided the tasks that wait for mutexes do not wait for each other in a cycle.
\<close>

section \<open>The invariant without the chains\<close>

text \<open>While a mutex is being released it is off its owner's chain but still owned. What the change of
  priorities needs of the mutexes is only that owners exist.\<close>

definition owner_ok :: "tid set \<Rightarrow> kstate \<Rightarrow> bool" where
  "owner_ok L s \<longleftrightarrow> (\<forall>b. ty s b = RHINO_MUTEX_OBJ_TYPE \<and> bl s b \<noteq> [] \<longrightarrow> own s b \<noteq> None) \<and>
     (\<forall>b t. ty s b = RHINO_MUTEX_OBJ_TYPE \<and> own s b = Some t \<longrightarrow> t \<in> L \<and> t \<noteq> g_idle_task) \<and>
     (\<forall>t \<in> L. b_prio (tasks s t) < 62)"

lemma owner_okD:
  assumes "owner_ok L s"
  shows "\<And>b. ty s b = RHINO_MUTEX_OBJ_TYPE \<Longrightarrow> bl s b \<noteq> [] \<Longrightarrow> own s b \<noteq> None"
    "\<And>b t. ty s b = RHINO_MUTEX_OBJ_TYPE \<Longrightarrow> own s b = Some t \<Longrightarrow> t \<in> L \<and> t \<noteq> g_idle_task"
    "\<And>t. t \<in> L \<Longrightarrow> b_prio (tasks s t) < 62"
  using assms unfolding owner_ok_def by blast+

lemma owner_okI:
  assumes "\<And>b. ty s b = RHINO_MUTEX_OBJ_TYPE \<Longrightarrow> bl s b \<noteq> [] \<Longrightarrow> own s b \<noteq> None"
    "\<And>b t. ty s b = RHINO_MUTEX_OBJ_TYPE \<Longrightarrow> own s b = Some t \<Longrightarrow> t \<in> L \<and> t \<noteq> g_idle_task"
    "\<And>t. t \<in> L \<Longrightarrow> b_prio (tasks s t) < 62"
  shows "owner_ok L s"
  using assms unfolding owner_ok_def by blast

lemma mutex_ok_owner: "mutex_ok L s \<Longrightarrow> owner_ok L s"
  by (rule owner_okI) (auto dest: mutex_okD)

definition weak_inv :: "kstate \<Rightarrow> bool" where
  "weak_inv s \<longleftrightarrow> kinv (live s) s \<and> tick_ok (live s) s \<and> owner_ok (live s) s"

lemma struct_weak: "struct_inv s \<Longrightarrow> weak_inv s"
  by (simp add: struct_inv_def weak_inv_def mutex_ok_owner)

lemma struct_iff: "struct_inv s \<longleftrightarrow> weak_inv s \<and> mutex_ok (live s) s \<and> inherit_ok s"
  using struct_weak by (auto simp: struct_inv_def weak_inv_def)

section \<open>Waiting for each other\<close>

definition wait_rel :: "kstate \<Rightarrow> (tid \<times> tid) set" where
  "wait_rel s = {(t, u). t \<in> live s \<and> pending_state (st s t) \<and>
     (\<exists>b. bo s t = Some b \<and> ty s b = RHINO_MUTEX_OBJ_TYPE \<and> own s b = Some u)}"

definition no_deadlock :: "kstate \<Rightarrow> bool" where
  "no_deadlock s \<longleftrightarrow> acyclic (wait_rel s)"

lemma wait_rel_sched_done: "sched_done s s' \<Longrightarrow> wait_rel s' = wait_rel s"
  by (simp add: wait_rel_def sched_done_frame)

lemma wait_rel_same: "same_sched s s' \<Longrightarrow> wait_rel s' = wait_rel s"
  by (simp add: wait_rel_def same_sched_def live_def)

lemma no_deadlock_subset: "wait_rel s' \<subseteq> wait_rel s \<Longrightarrow> no_deadlock s \<Longrightarrow> no_deadlock s'"
  using acyclic_subset by (auto simp: no_deadlock_def)

text \<open>Waking tasks, or blocking the active one on an object that is not a mutex, adds no edge.\<close>

lemma wait_rel_fewer:
  assumes "live s' = live s" "ty s' = ty s" "own s' = own s"
    "\<And>t b. t \<in> live s \<Longrightarrow> pending_state (st s' t) \<Longrightarrow> bo s' t = Some b \<Longrightarrow> ty s b = RHINO_MUTEX_OBJ_TYPE \<Longrightarrow>
       pending_state (st s t) \<and> bo s t = Some b"
  shows "wait_rel s' \<subseteq> wait_rel s"
  unfolding wait_rel_def assms(1-3) using assms(4) by blast

lemma wait_rel_wake: "wait_rel (wake_result r t q s) \<subseteq> wait_rel s"
  by (rule wait_rel_fewer) (auto split: if_splits)

lemma wait_rel_block_other:
  "ty s b \<noteq> RHINO_MUTEX_OBJ_TYPE \<Longrightarrow> wait_rel (block_result b t n q s) \<subseteq> wait_rel s"
  by (rule wait_rel_fewer) (auto split: if_splits)

lemma wait_rel_released: "released r b s s' \<Longrightarrow> wait_rel s' \<subseteq> wait_rel s"
proof (rule wait_rel_fewer)
  fix t c assume r: "released r b s s'" and t: "pending_state (st s' t)" "bo s' t = Some c"
  have "t \<notin> set (bl s b)" using r t(1) by (auto simp: released_def woken_def split: if_splits)
  then have "tasks s' t = tasks s t" using r by (simp add: released_def)
  then show "pending_state (st s t) \<and> bo s t = Some c" using t by (simp add: st_def bo_def)
qed (simp_all add: released_def same_rest_def live_def)

lemma wait_rel_live:
  assumes "owner_ok (live s) s" "(t, u) \<in> wait_rel s"
  shows "t \<in> live s" "u \<in> live s" "u \<noteq> g_idle_task"
  using assms(2) owner_okD(2) [OF assms(1)] by (auto simp: wait_rel_def)

lemma reach_live:
  assumes "owner_ok (live s) s" "t \<in> live s"
  shows "(wait_rel s)\<^sup>* `` {t} \<subseteq> live s"
proof clarify
  fix u assume "(t, u) \<in> (wait_rel s)\<^sup>*"
  then show "u \<in> live s" using assms(2) by induction (auto dest: wait_rel_live [OF assms(1)])
qed

lemma no_way_back:
  assumes "no_deadlock s" "(t, u) \<in> wait_rel s"
  shows "(u, t) \<notin> (wait_rel s)\<^sup>*"
  using assms unfolding no_deadlock_def acyclic_def by (meson rtrancl_into_trancl2)

lemma reach_smaller:
  assumes m: "owner_ok (live s) s" and n: "no_deadlock s" and e: "(t, u) \<in> wait_rel s"
  shows "card ((wait_rel s)\<^sup>* `` {u}) < card ((wait_rel s)\<^sup>* `` {t})"
proof (rule psubset_card_mono)
  have "t \<in> live s" using wait_rel_live [OF m e] by simp
  moreover have "finite (live s)" by (simp add: live_def)
  ultimately show "finite ((wait_rel s)\<^sup>* `` {t})" using reach_live [OF m] finite_subset by blast
  show "(wait_rel s)\<^sup>* `` {u} \<subset> (wait_rel s)\<^sup>* `` {t}"
    using no_way_back [OF n e] e by (auto intro: converse_rtrancl_into_rtrancl)
qed

section \<open>What a change of priorities leaves alone\<close>

definition pri_frame :: "kstate \<Rightarrow> kstate \<Rightarrow> bool" where
  "pri_frame s s' \<longleftrightarrow> (\<forall>u. tasks s' u = (tasks s u)\<lparr>prio := pri s' u\<rparr>) \<and>
     (\<forall>b. blks s' b = (blks s b)\<lparr>blk_list := bl s' b\<rparr> \<and> set (bl s' b) = set (bl s b)) \<and>
     (\<exists>q. s' = s\<lparr>g_ready_queue := q, tasks := tasks s', blks := blks s'\<rparr>)"

lemma pri_frame_tasks:
  assumes "pri_frame s s'"
  shows "tasks s' u = (tasks s u)\<lparr>prio := pri s' u\<rparr>" "blks s' c = (blks s c)\<lparr>blk_list := bl s' c\<rparr>"
    "set (bl s' c) = set (bl s c)"
  using assms by (simp_all add: pri_frame_def)

lemma pri_frame_fields:
  assumes "pri_frame s s'"
  shows "g_tick_head s' = g_tick_head s" "g_tick_count s' = g_tick_count s" "g_kobj_list s' = g_kobj_list s"
    "g_active_task s' = g_active_task s" "g_sched_lock s' = g_sched_lock s" "g_sys_stat s' = g_sys_stat s"
    "g_intrpt_nested_level s' = g_intrpt_nested_level s" "mutexes s' = mutexes s" "sems s' = sems s"
    "events s' = events s" "queues s' = queues s" "buf_queues s' = buf_queues s" "mem s' = mem s"
    "cells s' = cells s" "live s' = live s" "own s' = own s"
proof -
  obtain q where s: "s' = s\<lparr>g_ready_queue := q, tasks := tasks s', blks := blks s'\<rparr>"
    using assms by (auto simp: pri_frame_def)
  show "g_tick_head s' = g_tick_head s" "g_tick_count s' = g_tick_count s" "g_kobj_list s' = g_kobj_list s"
    "g_active_task s' = g_active_task s" "g_sched_lock s' = g_sched_lock s" "g_sys_stat s' = g_sys_stat s"
    "g_intrpt_nested_level s' = g_intrpt_nested_level s" "mutexes s' = mutexes s" "sems s' = sems s"
    "events s' = events s" "queues s' = queues s" "buf_queues s' = buf_queues s" "mem s' = mem s"
    "cells s' = cells s"
    by (subst s, simp)+
  then show "live s' = live s" "own s' = own s" by (simp_all add: live_def own_def fun_eq_iff)
qed

lemma pri_frame_views:
  assumes "pri_frame s s'"
  shows "st s' = st s" "bo s' = bo s" "held s' = held s" "tkh s' = tkh s" "tkm s' = tkm s"
    "pol s' = pol s" "ty s' = ty s" "wait_rel s' = wait_rel s" "rem s' = rem s"
    "b_prio (tasks s' u) = b_prio (tasks s u)" "t_blk_state (tasks s' u) = t_blk_state (tasks s u)"
proof -
  note t = pri_frame_tasks [OF assms] and f = pri_frame_fields [OF assms]
  show "st s' = st s" "bo s' = bo s" "held s' = held s" "tkh s' = tkh s" "tkm s' = tkm s" "pol s' = pol s"
    "ty s' = ty s" "b_prio (tasks s' u) = b_prio (tasks s u)" "t_blk_state (tasks s' u) = t_blk_state (tasks s u)"
    by (simp_all add: st_def bo_def held_def tkh_def tkm_def pol_def ty_def fun_eq_iff t)
  then show "wait_rel s' = wait_rel s" "rem s' = rem s"
    by (simp_all add: wait_rel_def rem_def fun_eq_iff f)
qed

lemma pri_frame_refl [simp]: "pri_frame s s"
  by (auto simp: pri_frame_def pri_def bl_def intro: exI [of _ "g_ready_queue s"])

lemma pri_frame_trans:
  assumes "pri_frame s s'" "pri_frame s' s''"
  shows "pri_frame s s''"
proof -
  obtain q q' where "s' = s\<lparr>g_ready_queue := q, tasks := tasks s', blks := blks s'\<rparr>"
    "s'' = s'\<lparr>g_ready_queue := q', tasks := tasks s'', blks := blks s''\<rparr>"
    using assms unfolding pri_frame_def by blast
  then have "s'' = s\<lparr>g_ready_queue := q', tasks := tasks s'', blks := blks s''\<rparr>"
    by (cases s) (metis kstate.update_convs(3,12,13))
  then show ?thesis
    using pri_frame_tasks [OF assms(1)] pri_frame_tasks [OF assms(2)] unfolding pri_frame_def
    by auto
qed

lemma weak_inv_pri:
  assumes "weak_inv s" "pri_frame s s'" "kinv (live s) s'"
  shows "weak_inv s'"
proof -
  note f = pri_frame_fields [OF assms(2)] pri_frame_views [OF assms(2)]
  have m: "tick_ok (live s) s" "owner_ok (live s) s" using assms(1) by (auto simp: weak_inv_def)
  have e: "bl s' b \<noteq> [] \<longleftrightarrow> bl s b \<noteq> []" for b
    using pri_frame_tasks(3) [OF assms(2), of b] by (metis set_empty)
  have "owner_ok (live s) s'"
    by (rule owner_okI; unfold e f; rule owner_okD [OF m(2)])
  moreover have "tick_ok (live s) s'" using m(1) by (simp add: tick_ok_def f)
  ultimately show ?thesis using assms(3) f by (simp add: weak_inv_def)
qed

lemma mutex_ok_pri:
  assumes "mutex_ok L s" "pri_frame s s'" shows "mutex_ok L s'"
proof -
  have "bl s' b \<noteq> [] \<longleftrightarrow> bl s b \<noteq> []" for b
    using pri_frame_tasks(3) [OF assms(2), of b] by (metis set_empty)
  then show ?thesis
    by (intro mutex_ok_bl [OF assms(1)])
      (use mutex_okD(1) [OF assms(1)] in \<open>auto simp: pri_frame_fields [OF assms(2)] pri_frame_views [OF assms(2)]\<close>)
qed

section \<open>The highest waiter\<close>

lemma first_pri_le: "pri_limit_loop s ms p h \<le> h"
  by (induction ms arbitrary: p h) (auto simp: Let_def, meson less_imp_le order.trans)

lemma pri_look_le: "fst (pri_look_loop s rel ms p q) \<le> q"
  by (induction s rel ms p q rule: pri_look_loop.induct) (auto simp: Let_def split: if_splits intro: order.trans less_imp_le)

lemma pri_look_chain: "snd (pri_look_loop s rel ms p q) = filter (\<lambda>m. Some m \<noteq> rel) ms"
  by (induction s rel ms p q rule: pri_look_loop.induct) (auto simp: Let_def)

lemma mutex_pri_look_None: "snd (mutex_pri_look t None s) = s"
  by (simp add: mutex_pri_look_def Let_def pri_look_chain upd_task_def)

lemma mutex_pri_look_lt:
  assumes "owner_ok (live s) s" "t \<in> live s"
  shows "fst (mutex_pri_look t rel s) < 62"
  using pri_look_le [of s rel "t_mutex_list (tasks s t)" "b_prio (tasks s t)" "b_prio (tasks s t)"]
    owner_okD(3) [OF assms] by (simp add: mutex_pri_look_def Let_def)

text \<open>The value looked up bounds the waiters of every mutex on the chain but the one being released.\<close>

lemma pri_look_waiter:
  assumes "m \<in> set ms" "Some m \<noteq> rel" "bl s m = w # ws"
  shows "fst (pri_look_loop s rel ms p q) \<le> pri s w"
  using assms
proof (induction s rel ms p q rule: pri_look_loop.induct)
  case (2 s rel c ms p q)
  show ?case
  proof (cases "Some c = rel")
    case True
    then show ?thesis using 2 by auto
  next
    case False
    have "fst (pri_look_loop s rel ms (first_pri s m p) (if q > first_pri s m p then first_pri s m p else q)) \<le> first_pri s m p"
      by (rule order.trans [OF pri_look_le]) simp
    moreover have "first_pri s m p = pri s w" using 2(5) by (simp add: first_pri_def bl_def)
    ultimately show ?thesis using 2 False by (auto simp: Let_def)
  qed
qed simp

definition edge :: "oid option \<Rightarrow> kstate \<Rightarrow> oid \<Rightarrow> tid \<Rightarrow> tid \<Rightarrow> bool" where
  "edge rel s b u x \<longleftrightarrow> ty s b = RHINO_MUTEX_OBJ_TYPE \<and> own s b = Some u \<and> x \<in> set (bl s b) \<and> Some b \<noteq> rel"

definition mutex_lists :: "oid option \<Rightarrow> kstate \<Rightarrow> bool" where
  "mutex_lists rel s \<longleftrightarrow> (\<forall>b. ty s b = RHINO_MUTEX_OBJ_TYPE \<longrightarrow> pol s b = BLK_POLICY_PRI) \<and>
     (\<forall>b u. ty s b = RHINO_MUTEX_OBJ_TYPE \<and> own s b = Some u \<and> Some b \<noteq> rel \<longrightarrow> b \<in> set (held s u))"

lemma mutex_pri_look_waiter:
  assumes k: "kinv A s" and m: "mutex_lists rel s" and e: "edge rel s b u x" and r: "r = None \<or> r = rel"
  shows "fst (mutex_pri_look u r s) \<le> pri s x"
proof -
  have b: "b \<in> set (t_mutex_list (tasks s u))" "Some b \<noteq> r" "pol s b = BLK_POLICY_PRI" "x \<in> set (bl s b)"
    using m e r by (auto simp: mutex_lists_def edge_def held_def)
  obtain w ws where w: "bl s b = w # ws" using b(4) by (cases "bl s b") auto
  have "pri s w \<le> pri s x"
    using core_invD(5) [OF k [unfolded kinv_def] b(3)] b(4) w by auto
  then show ?thesis
    using pri_look_waiter [OF b(1,2) w] by (auto simp: mutex_pri_look_def Let_def intro: order.trans)
qed

section \<open>One round\<close>

lemma set_prio_views [simp]:
  "st (set_prio t p s) = st s" "pri (set_prio t p s) = (pri s)(t := p)" "bo (set_prio t p s) = bo s"
  "g_ready_queue (set_prio t p s) = g_ready_queue s" "bl (set_prio t p s) = bl s" "pol (set_prio t p s) = pol s"
  "ty (set_prio t p s) = ty s" "own (set_prio t p s) = own s" "g_active_task (set_prio t p s) = g_active_task s"
  "live (set_prio t p s) = live s" "blks (set_prio t p s) = blks s" "mutexes (set_prio t p s) = mutexes s"
  by (simp_all add: set_prio_def view_tasks_upd_task)

lemma pri_frame_set_prio: "pri_frame s ((set_prio t p s)\<lparr>g_ready_queue := q\<rparr>)"
proof -
  have "tasks ((set_prio t p s)\<lparr>g_ready_queue := q\<rparr>) u = (tasks s u)\<lparr>prio := pri ((set_prio t p s)\<lparr>g_ready_queue := q\<rparr>) u\<rparr>"
    for u by (simp add: set_prio_def pri_def)
  then show ?thesis
    by (auto simp: pri_frame_def set_prio_def upd_task_def bl_def intro!: exI [of _ q])
qed

lemma pri_frame_set_prio': "pri_frame s (set_prio t p s)"
  using pri_frame_set_prio [of s "g_ready_queue s" t p] by (simp add: set_prio_def upd_task_def)

text \<open>A ready task is moved to the list of its new priority.\<close>

lemma pri_change_ready:
  assumes inv: "kinv A s" and t: "t \<in> A" "st s t = K_RDY" "t \<noteq> g_idle_task" and p: "p < 62"
  shows "\<exists>q. pri_change_step t p s = Inr (None, (set_prio t p s)\<lparr>g_ready_queue := q\<rparr>) \<and>
    kinv A ((set_prio t p s)\<lparr>g_ready_queue := q\<rparr>)"
proof -
  obtain q where q: "ready_list_rm_rq (g_ready_queue s) t (pri s t) = Inr q"
    "core_inv (A - {t}) q (st s) (pri s) (bo s) (bl s) (pol s)"
    using detach_ready [OF inv [unfolded kinv_def] t] by (auto simp: ok_iff)
  have d: "core_inv (A - {t}) q (st s) ((pri s)(t := p)) (bo s) (bl s) (pol s)"
    using upd_detached [OF q(2), of t "st s t" p "bo s t"] by simp
  let ?s = "set_prio t p (s\<lparr>g_ready_queue := q\<rparr>)"
  have e: "?s\<lparr>g_ready_queue := q'\<rparr> = (set_prio t p s)\<lparr>g_ready_queue := q'\<rparr>" for q'
    by (simp add: set_prio_def upd_task_def)
  have "\<exists>q'. ready_list_add_head_rq q t p = Inr q' \<and> core_inv A q' (st s) ((pri s)(t := p)) (bo s) (bl s) (pol s)"
    using attach_ready_head [OF d, of t] t p by (auto simp: ok_iff insert_absorb)
  moreover have "\<exists>q'. ready_list_add_tail_rq q t p = Inr q' \<and> core_inv A q' (st s) ((pri s)(t := p)) (bo s) (bl s) (pol s)"
    using attach_ready_tail [OF d, of t] t p by (auto simp: ok_iff insert_absorb)
  ultimately show ?thesis
    using t(2) q(1) by (auto simp: pri_change_step_def ready_list_rm_def ready_list_add_head_def ready_list_add_tail_def
        with_rq_def Let_def e kinv_def)
qed

lemma pri_change_other:
  assumes inv: "kinv A s" and t: "t \<in> A" "st s t \<in> {K_SLEEP, K_SUSPENDED, K_SLEEP_SUSPENDED}" and p: "p < 62"
  shows "pri_change_step t p s = Inr (None, set_prio t p s)" "kinv A (set_prio t p s)"
proof -
  show "pri_change_step t p s = Inr (None, set_prio t p s)"
    using t(2) by (auto simp: pri_change_step_def)
  have "core_inv (A - {t}) (g_ready_queue s) (st s) (pri s) (bo s) (bl s) (pol s)"
    using t(2) by (intro detach_other [OF inv [unfolded kinv_def]]) auto
  then have "core_inv (A - {t}) (g_ready_queue s) ((st s)(t := st s t)) ((pri s)(t := p)) ((bo s)(t := bo s t)) (bl s) (pol s)"
    by (rule upd_detached) simp
  then have "core_inv (insert t (A - {t})) (g_ready_queue s) ((st s)(t := st s t)) ((pri s)(t := p)) ((bo s)(t := bo s t))
      (bl s) (pol s)"
    by (rule attach_other) (use t(2) p in auto)
  then show "kinv A (set_prio t p s)"
    using t(1) by (simp add: kinv_def insert_absorb)
qed

text \<open>A waiting task takes its new place in the block list.\<close>

definition reorder_result :: "tid \<Rightarrow> nat \<Rightarrow> oid \<Rightarrow> kstate \<Rightarrow> kstate" where
  "reorder_result t p b s =
     (if pol s b = BLK_POLICY_PRI then pend_list_add b t (blk_list_rm t (set_prio t p s)) else set_prio t p s)"

lemma pri_after_set_prio [simp]: "pri (blk_list_rm t (set_prio u p s)) = (pri s)(u := p)"
  by simp

lemma pend_list_add_views [simp]:
  "st (pend_list_add b t s) = st s" "pri (pend_list_add b t s) = pri s" "bo (pend_list_add b t s) = bo s"
  "g_ready_queue (pend_list_add b t s) = g_ready_queue s" "pol (pend_list_add b t s) = pol s"
  "bl (pend_list_add b t s) = (bl s)(b := insert_before (\<lambda>q. pri s q > pri s t) t (bl s b))"
  by (simp_all add: pend_list_add_def) (simp add: bl_def)

lemma pri_frame_reorder:
  assumes "kinv A s" "t \<in> set (bl s b)"
  shows "pri_frame s (reorder_result t p b s)"
proof -
  have e: "(\<lambda>b'. remove1 t (bl s b')) = (bl s)(b := remove1 t (bl s b))" using bl_remove1 [OF assms] .
  have d: "distinct (bl s b)" using kinv_D(4) [OF assms(1)] .
  let ?s = "pend_list_add b t (blk_list_rm t (set_prio t p s))"
  have "bl ?s = (bl s)(b := insert_before (\<lambda>q. pri ?s q > pri ?s t) t (remove1 t (bl s b)))"
    by (simp add: e)
  then have "set (bl ?s c) = set (bl s c)" for c using d assms(2) by auto
  moreover have "tasks ?s u = (tasks s u)\<lparr>prio := pri ?s u\<rparr>" for u
    by (simp add: pri_def pend_list_add_def set_prio_def)
  moreover have "blks ?s c = (blks s c)\<lparr>blk_list := bl ?s c\<rparr>" for c
    by (simp add: bl_def pend_list_add_def blk_list_rm_def upd_blk_def)
  moreover have "?s = s\<lparr>g_ready_queue := g_ready_queue s, tasks := tasks ?s, blks := blks ?s\<rparr>"
    by (simp add: pend_list_add_def blk_list_rm_def upd_blk_def set_prio_def upd_task_def)
  ultimately have "pri_frame s ?s" unfolding pri_frame_def by blast
  then show ?thesis by (simp add: reorder_result_def pri_frame_set_prio')
qed

lemma kinv_reorder:
  assumes inv: "kinv A s" and t: "t \<in> A" "pending_state (st s t)" "bo s t = Some b" and p: "p < 62"
  shows "kinv A (reorder_result t p b s)"
proof (cases "pol s b = BLK_POLICY_PRI")
  case True
  have d: "core_inv (A - {t}) (g_ready_queue s) (st s) ((pri s)(t := p)) (bo s) (\<lambda>b. remove1 t (bl s b)) (pol s)"
    using upd_detached [OF detach_pending [OF inv [unfolded kinv_def] t(2)], of t "st s t" p "bo s t"] by simp
  have "core_inv (insert t (A - {t})) (g_ready_queue s) (st s) ((pri s)(t := p)) (bo s)
      ((\<lambda>b. remove1 t (bl s b))(b := insert_before (\<lambda>q. ((pri s)(t := p)) q > ((pri s)(t := p)) t) t
         (remove1 t (bl s b)))) (pol s)"
    using attach_pending_pri [OF d, of t b] t p by simp
  then show ?thesis
    unfolding kinv_def reorder_result_def using True t(1)
    by (simp only: if_True pend_list_add_views view_blk_list_rm set_prio_views simp_thms) (simp only: insert_Diff)
next
  case False
  have "sorted (map ((pri s)(t := p)) (bl s c))" if "pol s c = BLK_POLICY_PRI" for c
  proof -
    have "t \<notin> set (bl s c)" using kinv_D(3) [OF inv, of t c] t(3) that False by auto
    then have m: "map ((pri s)(t := p)) (bl s c) = map (pri s) (bl s c)" by simp
    show ?thesis unfolding m using core_invD(5) [OF inv [unfolded kinv_def] that] .
  qed
  then have "core_inv A (g_ready_queue s) (st s) ((pri s)(t := p)) (bo s) (bl s) (pol s)"
    using inv t p unfolding kinv_def core_inv_def by auto
  then show ?thesis using False by (simp add: kinv_def reorder_result_def)
qed

text \<open>Where the loop goes on after a round: nowhere when the owner the task waits for, if any, is not below
  the new priority, else to that owner.\<close>

definition next_ok :: "tid \<Rightarrow> nat \<Rightarrow> kstate \<Rightarrow> kstate \<Rightarrow> (tid \<times> nat) option \<Rightarrow> bool" where
  "next_ok t p s s' nx \<longleftrightarrow>
     (case nx of
        None \<Rightarrow> \<forall>u. (t, u) \<in> wait_rel s \<longrightarrow> pri s' u \<le> p
      | Some (u, q) \<Rightarrow> (t, u) \<in> wait_rel s \<and> q < 62 \<and> (q = p \<and> p < pri s u \<or> q = fst (mutex_pri_look u None s')))"

lemma pri_reorder [simp]: "pri (reorder_result t p b s) = (pri s)(t := p)"
  by (simp add: reorder_result_def)

lemma pri_change_pending:
  assumes inv: "weak_inv s" and t: "t \<in> live s" "pending_state (st s t)" and p: "p < 62"
  shows "\<exists>b nx. bo s t = Some b \<and> pri_change_step t p s = Inr (nx, reorder_result t p b s) \<and>
    weak_inv (reorder_result t p b s) \<and> pri_frame s (reorder_result t p b s) \<and>
    next_ok t p s (reorder_result t p b s) nx"
proof -
  have k: "kinv (live s) s" "owner_ok (live s) s" using inv by (auto simp: weak_inv_def)
  obtain b where b: "bo s t = Some b" using kinv_D(8) [OF k(1) t] by blast
  then have tb: "t \<in> set (bl s b)" using kinv_D(3) [OF k(1)] t by auto
  let ?s = "reorder_result t p b s"
  have f: "pri_frame s ?s" using pri_frame_reorder [OF k(1) tb] .
  have i: "weak_inv ?s" using weak_inv_pri [OF inv f kinv_reorder [OF k(1) t b p]] .
  have r: "pend_list_reorder t (set_prio t p s) = Inr ?s"
    using b by (simp add: pend_list_reorder_def reorder_result_def pol_def bo_def set_prio_def)
  have v: "blk_obj (tasks ?s t) = Some b" "obj_type (blks ?s b) = ty s b" "mutex_task (mutexes ?s b) = own s b"
    using b pri_frame_views(2,7) [OF f] pri_frame_fields(16) [OF f] by (simp_all add: bo_def ty_def own_def fun_eq_iff)
  have "\<exists>nx. pri_change_step t p s = Inr (nx, ?s) \<and> next_ok t p s ?s nx"
  proof (cases "ty s b = RHINO_MUTEX_OBJ_TYPE")
    case False
    then show ?thesis
      using t(2) r v b by (auto simp: pri_change_step_def Let_def next_ok_def wait_rel_def)
  next
    case True
    then obtain u where u: "own s b = Some u" using owner_okD(1) [OF k(2) True] tb by fastforce
    have w: "(t, u) \<in> wait_rel s" using b u t True by (auto simp: wait_rel_def)
    have "owner_ok (live ?s) ?s" "u \<in> live ?s"
      using i wait_rel_live [OF k(2) w] pri_frame_fields(15) [OF f] by (simp_all add: weak_inv_def)
    then have lt: "fst (mutex_pri_look u None ?s) < 62" by (rule mutex_pri_look_lt)
    let ?nx = "if p < pri ?s u then Some (u, p) else if pri ?s u = pri s t
      then (if fst (mutex_pri_look u None ?s) \<noteq> pri ?s u then Some (u, fst (mutex_pri_look u None ?s)) else None) else None"
    have "pri_change_step t p s = Inr (?nx, ?s)"
      using t(2) r v True u by (auto simp: pri_change_step_def Let_def mutex_pri_look_None)
    moreover have "next_ok t p s ?s ?nx"
    proof (cases "p < pri ?s u")
      case True
      then show ?thesis using w p by (auto simp: next_ok_def split: if_splits)
    next
      case False
      have "pri ?s u' \<le> p" if "(t, u') \<in> wait_rel s" for u'
        using that b u False by (auto simp: wait_rel_def)
      then show ?thesis using False w lt by (simp add: next_ok_def)
    qed
    ultimately show ?thesis by blast
  qed
  then show ?thesis using b i f by blast
qed

lemma pri_change_step_ok:
  assumes inv: "weak_inv s" and t: "t \<in> live s" "t \<noteq> g_idle_task" and p: "p < 62"
  shows "\<exists>nx s'. pri_change_step t p s = Inr (nx, s') \<and> weak_inv s' \<and> pri_frame s s' \<and> pri s' = (pri s)(t := p) \<and>
    next_ok t p s s' nx"
proof -
  have k: "kinv (live s) s" using inv by (simp add: weak_inv_def)
  consider "st s t = K_RDY" | "st s t \<in> {K_SLEEP, K_SUSPENDED, K_SLEEP_SUSPENDED}" | "pending_state (st s t)"
    using kinv_D(2) [OF k t(1)] by (cases "st s t") auto
  then show ?thesis
  proof cases
    case 1
    obtain q where q: "pri_change_step t p s = Inr (None, (set_prio t p s)\<lparr>g_ready_queue := q\<rparr>)"
      "kinv (live s) ((set_prio t p s)\<lparr>g_ready_queue := q\<rparr>)"
      using pri_change_ready [OF k t(1) 1 t(2) p] by blast
    have "weak_inv ((set_prio t p s)\<lparr>g_ready_queue := q\<rparr>)"
      using weak_inv_pri [OF inv pri_frame_set_prio q(2)] .
    moreover have "next_ok t p s s' None" for s' using 1 by (simp add: next_ok_def wait_rel_def)
    ultimately show ?thesis using q(1) pri_frame_set_prio [of s q t p] by auto
  next
    case 2
    note o = pri_change_other [OF k t(1) 2 p]
    have "weak_inv (set_prio t p s)" using weak_inv_pri [OF inv pri_frame_set_prio' o(2)] .
    moreover have "next_ok t p s s' None" for s' using 2 by (auto simp: next_ok_def wait_rel_def)
    ultimately show ?thesis using o(1) pri_frame_set_prio' by auto
  next
    case 3
    then obtain b nx where b: "pri_change_step t p s = Inr (nx, reorder_result t p b s)"
      "weak_inv (reorder_result t p b s)" "pri_frame s (reorder_result t p b s)"
      "next_ok t p s (reorder_result t p b s) nx"
      using pri_change_pending [OF inv t(1) 3 p] by blast
    then show ?thesis using pri_reorder by blast
  qed
qed

section \<open>Inheritance along the chain\<close>

definition inherits :: "oid option \<Rightarrow> kstate \<Rightarrow> bool" where
  "inherits rel s \<longleftrightarrow> (\<forall>b u x. edge rel s b u x \<longrightarrow> pri s u \<le> pri s x)"

text \<open>What holds when the loop turns to task \<open>t\<close> with the new priority \<open>p\<close>.\<close>

definition entry_ok :: "oid option \<Rightarrow> tid \<Rightarrow> nat \<Rightarrow> kstate \<Rightarrow> bool" where
  "entry_ok rel t p s \<longleftrightarrow> (\<forall>b u x. edge rel s b u x \<longrightarrow> (if u = t then p else pri s u) \<le> pri s x)"

lemma inherit_ok_iff:
  "inherit_ok s \<longleftrightarrow> (\<forall>b. ty s b = RHINO_MUTEX_OBJ_TYPE \<longrightarrow> pol s b = BLK_POLICY_PRI) \<and> inherits None s"
  by (auto simp: inherit_ok_def inherits_def edge_def)

lemma pri_frame_edge:
  assumes "pri_frame s s'"
  shows "edge rel s' b u x = edge rel s b u x" "mutex_lists rel s' = mutex_lists rel s"
  by (simp_all add: edge_def mutex_lists_def pri_frame_fields [OF assms] pri_frame_views [OF assms] pri_frame_tasks(3) [OF assms])

lemma edge_wait: "kinv (live s) s \<Longrightarrow> edge rel s b u x \<Longrightarrow> (x, u) \<in> wait_rel s \<and> bo s x = Some b"
  using kinv_D(3) by (auto simp: edge_def wait_rel_def)

lemma wait_rel_unique: "(t, u) \<in> wait_rel s \<Longrightarrow> (t, v) \<in> wait_rel s \<Longrightarrow> u = v"
  by (auto simp: wait_rel_def)

lemma step_inherits:
  assumes k: "kinv (live s) s" "kinv (live s') s'" and l: "mutex_lists rel s" and nd: "no_deadlock s"
    and en: "entry_ok rel t p s" and f: "pri_frame s s'" and pr: "pri s' = (pri s)(t := p)"
    and nx: "next_ok t p s s' nx"
  shows "case nx of None \<Rightarrow> inherits rel s' | Some (u, q) \<Rightarrow> entry_ok rel u q s'"
proof -
  have ed: "(if u = t then p else pri s u) \<le> pri s x \<and> x \<noteq> u \<and> (x, u) \<in> wait_rel s"
    if "edge rel s' b u x" for b u x
    using that en edge_wait [OF k(1)] no_way_back [OF nd] unfolding pri_frame_edge [OF f] entry_ok_def by blast
  show ?thesis
  proof (cases nx)
    case None
    have "pri s' u \<le> pri s' x" if "edge rel s' b u x" for b u x
      using ed [OF that] nx None by (cases "x = t") (auto simp: pr next_ok_def split: if_splits)
    then show ?thesis using None by (simp add: inherits_def)
  next
    case (Some uq)
    obtain u q where uq: "uq = (u, q)" by (cases uq)
    have n: "(t, u) \<in> wait_rel s" "q = p \<and> p < pri s u \<or> q = fst (mutex_pri_look u None s')"
      using nx Some uq by (auto simp: next_ok_def)
    have "(if v = u then q else pri s' v) \<le> pri s' x" if e: "edge rel s' b v x" for b v x
    proof (cases "v = u")
      case True
      have "q \<le> pri s' x" if "q = fst (mutex_pri_look u None s')"
        using mutex_pri_look_waiter [OF k(2) _ e, of None] l that True by (simp add: pri_frame_edge [OF f])
      moreover have "q \<le> pri s' x" if "q = p" "p < pri s u"
        using ed [OF e] that True by (auto simp: pr split: if_splits)
      ultimately show ?thesis using n(2) True by auto
    next
      case False
      then have "x \<noteq> t" using ed [OF e] wait_rel_unique [OF n(1)] by blast
      then show ?thesis using ed [OF e] False by (auto simp: pr split: if_splits)
    qed
    then show ?thesis using Some uq by (simp add: entry_ok_def)
  qed
qed

section \<open>The whole loop\<close>

lemma pri_change_loop_ok:
  assumes "weak_inv s" "no_deadlock s" "t \<in> live s" "t \<noteq> g_idle_task" "p < 62"
    "mutex_lists rel s" "entry_ok rel t p s" "card ((wait_rel s)\<^sup>* `` {t}) \<le> fuel"
  shows "ok (pri_change_loop fuel t p s) (\<lambda>(e, s'). e = RHINO_SUCCESS \<and> weak_inv s' \<and> pri_frame s s' \<and> inherits rel s' \<and>
    pri s' t = p \<and> (\<forall>u. (t, u) \<notin> (wait_rel s)\<^sup>* \<longrightarrow> pri s' u = pri s u))"
  using assms
proof (induction fuel arbitrary: s t p)
  case 0
  have "finite ((wait_rel s)\<^sup>* `` {t})"
    using reach_live [of s t] 0 finite_subset [of _ "live s"] by (auto simp: weak_inv_def live_def)
  then have False using 0 by auto
  then show ?case ..
next
  case (Suc n)
  obtain nx s1 where st: "pri_change_step t p s = Inr (nx, s1)" "weak_inv s1" "pri_frame s s1"
    "pri s1 = (pri s)(t := p)" "next_ok t p s s1 nx"
    using pri_change_step_ok [OF Suc.prems(1,3,4,5)] by blast
  note w = pri_frame_views(8) [OF st(3)] and lv = pri_frame_fields(15) [OF st(3)]
  have k: "kinv (live s) s" "kinv (live s1) s1" using Suc.prems(1) st(2) by (auto simp: weak_inv_def)
  note inh = step_inherits [OF k Suc.prems(6,2,7) st(3,4,5)]
  show ?case
  proof (cases "pri s t = p")
    case True
    moreover from this have "inherits rel s"
      using Suc.prems(7) by (auto simp: entry_ok_def inherits_def split: if_splits)
    ultimately show ?thesis using Suc.prems by (simp add: pri_change_loop.simps)
  next
    case ne: False
    show ?thesis
    proof (cases nx)
      case None
      then show ?thesis using ne st inh by (auto simp: pri_change_loop.simps)
    next
      case (Some uq)
      obtain u q where uq: "uq = (u, q)" by (cases uq)
      then have e: "(t, u) \<in> wait_rel s" "q < 62" using st(5) Some by (auto simp: next_ok_def)
      have m: "owner_ok (live s) s" using Suc.prems(1) by (simp add: weak_inv_def)
      have "ok (pri_change_loop n u q s1) (\<lambda>(e, s'). e = RHINO_SUCCESS \<and> weak_inv s' \<and> pri_frame s1 s' \<and> inherits rel s' \<and>
          pri s' u = q \<and> (\<forall>v. (u, v) \<notin> (wait_rel s1)\<^sup>* \<longrightarrow> pri s' v = pri s1 v))"
        using wait_rel_live [OF m e(1)] reach_smaller [OF m Suc.prems(2) e(1)] Suc.prems(2,6,8) e(2) st(2) inh Some uq
        by (intro Suc.IH) (simp_all add: w lv no_deadlock_def pri_frame_edge [OF st(3)])
      then obtain s' where s': "pri_change_loop n u q s1 = Inr (RHINO_SUCCESS, s')" "weak_inv s'" "pri_frame s1 s'" "inherits rel s'"
        and v: "\<And>v. (u, v) \<notin> (wait_rel s)\<^sup>* \<Longrightarrow> pri s' v = pri s1 v"
        by (auto simp: ok_iff w)
      have "pri s' t = p" using v no_way_back [OF Suc.prems(2) e(1)] st(4) by simp
      moreover have "pri s' x = pri s x" if "(t, x) \<notin> (wait_rel s)\<^sup>*" for x
      proof -
        have "(u, x) \<notin> (wait_rel s)\<^sup>*" "x \<noteq> t" using that e(1) by (auto intro: converse_rtrancl_into_rtrancl)
        then show ?thesis using v st(4) by simp
      qed
      ultimately show ?thesis
        using ne st(1) Some uq s' pri_frame_trans [OF st(3) s'(3)] by (simp add: pri_change_loop.simps [of "Suc n"])
    qed
  qed
qed

lemma task_pri_change_ok:
  assumes "weak_inv s" "no_deadlock s" "t \<in> live s" "t \<noteq> g_idle_task" "p < 62"
    "mutex_lists rel s" "entry_ok rel t p s"
  shows "ok (task_pri_change t p s) (\<lambda>(e, s'). e = RHINO_SUCCESS \<and> weak_inv s' \<and> pri_frame s s' \<and> inherits rel s' \<and>
    pri s' t = p \<and> (\<forall>u. (t, u) \<notin> (wait_rel s)\<^sup>* \<longrightarrow> pri s' u = pri s u))"
proof -
  have "card ((wait_rel s)\<^sup>* `` {t}) \<le> card (live s)"
    using reach_live [of s t] assms by (intro card_mono) (auto simp: weak_inv_def live_def)
  then have "card ((wait_rel s)\<^sup>* `` {t}) \<le> pri_change_fuel s"
    using card_length [of "task_head (g_kobj_list s)"] by (simp add: pri_change_fuel_def live_def)
  then show ?thesis
    unfolding task_pri_change_def by (rule pri_change_loop_ok [OF assms])
qed

section \<open>Releasing a mutex, resetting an owner\<close>

definition unchain :: "oid option \<Rightarrow> tid \<Rightarrow> kstate \<Rightarrow> kstate" where
  "unchain rel t s = upd_task t (\<lambda>k. k\<lparr>t_mutex_list := filter (\<lambda>m. Some m \<noteq> rel) (t_mutex_list k)\<rparr>) s"

lemma unchain_views [simp]:
  "st (unchain rel t s) = st s" "pri (unchain rel t s) = pri s" "bo (unchain rel t s) = bo s"
  "tkh (unchain rel t s) = tkh s" "tkm (unchain rel t s) = tkm s" "bl (unchain rel t s) = bl s"
  "pol (unchain rel t s) = pol s" "ty (unchain rel t s) = ty s" "own (unchain rel t s) = own s"
  "held (unchain rel t s) = (held s)(t := filter (\<lambda>m. Some m \<noteq> rel) (held s t))"
  "g_ready_queue (unchain rel t s) = g_ready_queue s" "g_tick_head (unchain rel t s) = g_tick_head s"
  "g_tick_count (unchain rel t s) = g_tick_count s" "g_active_task (unchain rel t s) = g_active_task s"
  "g_kobj_list (unchain rel t s) = g_kobj_list s" "live (unchain rel t s) = live s"
  "g_sched_lock (unchain rel t s) = g_sched_lock s" "blks (unchain rel t s) = blks s"
  "g_intrpt_nested_level (unchain rel t s) = g_intrpt_nested_level s" "mutexes (unchain rel t s) = mutexes s"
  "b_prio (tasks (unchain rel t s) u) = b_prio (tasks s u)" "rem (unchain rel t s) = rem s"
  "wait_rel (unchain rel t s) = wait_rel s"
  by (simp_all add: unchain_def view_tasks_upd_task rem_def wait_rel_def fun_eq_iff held_def)

lemma unchain_None: "unchain None t s = s"
  by (simp add: unchain_def upd_task_def)

lemma mutex_pri_look_snd: "snd (mutex_pri_look t rel s) = unchain rel t s"
  by (simp add: mutex_pri_look_def Let_def pri_look_chain unchain_def upd_task_def)

lemma weak_inv_unchain: "weak_inv (unchain rel t s) = weak_inv s"
  by (simp add: weak_inv_def kinv_def tick_ok_def owner_ok_def)

lemma mutex_release_ok:
  assumes inv: "weak_inv s" "no_deadlock s" and t: "t \<in> live s" "t \<noteq> g_idle_task"
    and l: "mutex_lists rel s" "inherits rel s"
  shows "ok (mutex_release t rel s) (\<lambda>s'. weak_inv s' \<and> pri_frame (unchain rel t s) s' \<and> inherits rel s' \<and>
    pri s' t = fst (mutex_pri_look t rel s) \<and> (\<forall>u. (t, u) \<notin> (wait_rel s)\<^sup>* \<longrightarrow> pri s' u = pri s u))"
proof -
  have k: "kinv (live s) s" "owner_ok (live s) s" using inv(1) by (auto simp: weak_inv_def)
  let ?p = "fst (mutex_pri_look t rel s)" and ?s = "unchain rel t s"
  have e: "edge rel ?s b u x = edge rel s b u x" for b u x by (simp add: edge_def)
  have "mutex_lists rel ?s" using l(1) by (auto simp: mutex_lists_def)
  moreover have "entry_ok rel t ?p ?s"
    using mutex_pri_look_waiter [OF k(1) l(1), of _ t _ rel] l(2) by (simp add: entry_ok_def inherits_def e)
  moreover have "?p < 62" using mutex_pri_look_lt [OF k(2) t(1)] .
  ultimately have "ok (task_pri_change t ?p ?s) (\<lambda>(e, s'). e = RHINO_SUCCESS \<and> weak_inv s' \<and> pri_frame ?s s' \<and>
      inherits rel s' \<and> pri s' t = ?p \<and> (\<forall>u. (t, u) \<notin> (wait_rel ?s)\<^sup>* \<longrightarrow> pri s' u = pri ?s u))"
    using inv t by (intro task_pri_change_ok) (simp_all add: weak_inv_unchain no_deadlock_def)
  moreover have "inherits rel ?s" using l(2) by (simp add: inherits_def e)
  ultimately show ?thesis
    using inv(1) by (auto simp: mutex_release_def Let_def mutex_pri_look_snd ok_iff weak_inv_unchain)
qed

lemma mutex_task_pri_reset_ok:
  assumes inv: "weak_inv s" "no_deadlock s" and b: "bo s t = Some b" "ty s b = RHINO_MUTEX_OBJ_TYPE \<Longrightarrow> own s b \<noteq> None"
    and l: "mutex_lists None s" "inherits None s"
  shows "ok (mutex_task_pri_reset t s) (\<lambda>s'. weak_inv s' \<and> pri_frame s s' \<and> inherits None s' \<and>
    (\<forall>u. ty s b = RHINO_MUTEX_OBJ_TYPE \<longrightarrow> own s b = Some u \<longrightarrow>
      pri s' u = (if pri s u = pri s t then fst (mutex_pri_look u None s) else pri s u)) \<and>
    (\<forall>x. (\<forall>u. ty s b = RHINO_MUTEX_OBJ_TYPE \<longrightarrow> own s b = Some u \<longrightarrow> (u, x) \<notin> (wait_rel s)\<^sup>*) \<longrightarrow> pri s' x = pri s x))"
proof (cases "ty s b = RHINO_MUTEX_OBJ_TYPE")
  case False
  then show ?thesis using assms by (simp add: mutex_task_pri_reset_def bo_def ty_def)
next
  case True
  then obtain u where u: "own s b = Some u" using b(2) by blast
  have "u \<in> live s" "u \<noteq> g_idle_task"
    using owner_okD(2) [of "live s" s b u] inv(1) True u by (auto simp: weak_inv_def)
  from mutex_release_ok [OF inv this l] show ?thesis
    using True u b(1) inv(1) l(2)
    by (auto simp: mutex_task_pri_reset_def bo_def ty_def own_def unchain_None elim!: ok_mono)
qed

text \<open>The priority a task falls back to: the highest among its own and those waiting for its mutexes.\<close>

definition donated :: "oid option \<Rightarrow> tid \<Rightarrow> kstate \<Rightarrow> nat set" where
  "donated rel t s = {pri s x | b x. b \<in> set (held s t) \<and> Some b \<noteq> rel \<and> x \<in> set (bl s b)}"

lemma pri_look_in:
  "fst (pri_look_loop s rel ms p q) \<in> {p, q} \<union> {pri s x | b x. b \<in> set ms \<and> Some b \<noteq> rel \<and> x \<in> set (bl s b)}"
proof (induction s rel ms p q rule: pri_look_loop.induct)
  case (2 s rel m ms p q)
  have f: "first_pri s m p \<in> {p} \<union> {pri s x | x. x \<in> set (bl s m)}"
    by (auto simp: first_pri_def bl_def split: list.split)
  show ?case
  proof (cases "Some m = rel")
    case True
    then show ?thesis using 2(1) by auto
  next
    case False
    from 2(2) [OF False refl] show ?thesis using f False by (fastforce simp: Let_def split: if_splits)
  qed
qed simp

lemma mutex_pri_look_min:
  assumes "kinv A s" "\<forall>b \<in> set (held s t). pol s b = BLK_POLICY_PRI"
  shows "fst (mutex_pri_look t rel s) = Min (insert (b_prio (tasks s t)) (donated rel t s))"
proof (rule Min_eqI [symmetric])
  have "donated rel t s \<subseteq> pri s ` (\<Union>b \<in> set (held s t). set (bl s b))" by (auto simp: donated_def)
  then show "finite (insert (b_prio (tasks s t)) (donated rel t s))" using finite_subset by fastforce
  show "fst (mutex_pri_look t rel s) \<in> insert (b_prio (tasks s t)) (donated rel t s)"
    using pri_look_in [of s rel "held s t" "b_prio (tasks s t)" "b_prio (tasks s t)"]
    by (auto simp: mutex_pri_look_def Let_def donated_def held_def)
  fix y assume y: "y \<in> insert (b_prio (tasks s t)) (donated rel t s)"
  show "fst (mutex_pri_look t rel s) \<le> y"
  proof (cases "y = b_prio (tasks s t)")
    case True
    then show ?thesis by (simp add: mutex_pri_look_def Let_def pri_look_le)
  next
    case False
    then obtain b x where b: "b \<in> set (held s t)" "Some b \<noteq> rel" "x \<in> set (bl s b)" "y = pri s x"
      using y by (auto simp: donated_def)
    obtain w ws where w: "bl s b = w # ws" using b(3) by (cases "bl s b") auto
    have "pri s w \<le> pri s x" using core_invD(5) [OF assms(1) [unfolded kinv_def], of b] assms(2) b w by auto
    then show ?thesis
      using pri_look_waiter [of b "held s t" rel s w ws "b_prio (tasks s t)" "b_prio (tasks s t)"] b w
      by (simp add: mutex_pri_look_def Let_def held_def)
  qed
qed

lemma weak_inv_wake:
  assumes "weak_inv s" "kinv (live s) (wake_result r t q s)"
  shows "weak_inv (wake_result r t q s)"
proof -
  have k: "tick_ok (live s) s" "owner_ok (live s) s" using assms(1) by (auto simp: weak_inv_def)
  have "tick_ok (live s) (wake_result r t q s)"
    by (rule tick_ok_remove [OF k(1) g_tick_head_wake [OF k(1)]]) (auto split: if_splits)
  moreover have "owner_ok (live s) (wake_result r t q s)"
    by (rule owner_okI) (use owner_okD [OF k(2)] in \<open>force+\<close>)
  ultimately show ?thesis
    using assms(2) by (simp add: weak_inv_def)
qed

lemma ex_wait_rel: "wait_rel ex_state = {(8, 5)}"
  by (auto simp: wait_rel_def split: if_splits)

lemma ex_no_deadlock: "no_deadlock ex_state"
proof -
  have "acyclic ({} :: (tid \<times> tid) set)" by (simp add: acyclic_def)
  then show ?thesis by (simp add: no_deadlock_def ex_wait_rel)
qed

end
