(* ===== verification/BufQueue.thy ===== *)
theory BufQueue
  imports PriInv
begin

text \<open>
  Queues of byte messages (\<^verbatim>\<open>k_buf_queue.c\<close>) over the ring buffer of theory \<open>RingBuf\<close>. Message
  buffers are addresses of \<open>mem\<close>; what a receiving call stores at \<open>*size\<close> is part of its result.
\<close>

definition upd_bq :: "oid \<Rightarrow> (kbuf_queue \<Rightarrow> kbuf_queue) \<Rightarrow> kstate \<Rightarrow> kstate" where
  "upd_bq b f s = s\<lparr>buf_queues := (buf_queues s)(b := f (buf_queues s b))\<rparr>"

definition buf_queue_create ::
  "oid option \<Rightarrow> string option \<Rightarrow> nat option \<Rightarrow> nat \<Rightarrow> nat \<Rightarrow> 8 word \<Rightarrow> ringbuf_type \<Rightarrow> kstate \<Rightarrow> kstat \<times> kstate" where
  "buf_queue_create queue name buf sz max_msg mm_alloc_flag type s =
     (case (queue, buf) of
        (Some b, Some bf) \<Rightarrow>
          if name = None then (RHINO_NULL_PTR, s)
          else if max_msg = 0 then (RHINO_INV_PARAM, s)
          else if sz = 0 then (RHINO_BUF_QUEUE_SIZE_ZERO, s)
          else (let s = upd_blk b (\<lambda>ob. ob\<lparr>blk_list := [], blk_name := name, blk_policy := BLK_POLICY_PRI\<rparr>) s;
                    s = upd_bq b (\<lambda>q. q\<lparr>bq_buf := bf, bq_cur_num := 0, bq_peak_num := 0,
                          max_msg_size := max_msg, bq_alloc_flag := mm_alloc_flag\<rparr>) s;
                    s = upd_kobj (\<lambda>k. k\<lparr>buf_queue_head := buf_queue_head k @ [b]\<rparr>) s;
                    s = upd_blk b (\<lambda>ob. ob\<lparr>obj_type := RHINO_BUF_QUEUE_OBJ_TYPE\<rparr>) s;
                    s = upd_bq b (\<lambda>q. q\<lparr>bq_ringbuf := ringbuf_init (bq_ringbuf q) bf sz type max_msg\<rparr>) s;
                    s = upd_bq b (\<lambda>q. q\<lparr>min_free_buf_size := freesize (bq_ringbuf q)\<rparr>) s
                in (RHINO_SUCCESS, s))
      | _ \<Rightarrow> (RHINO_NULL_PTR, s))"

definition krhino_buf_queue_create ::
  "oid option \<Rightarrow> string option \<Rightarrow> nat option \<Rightarrow> nat \<Rightarrow> nat \<Rightarrow> kstate \<Rightarrow> kstat \<times> kstate" where
  "krhino_buf_queue_create queue name buf sz max_msg s =
     buf_queue_create queue name buf sz max_msg K_OBJ_STATIC_ALLOC RINGBUF_TYPE_DYN s"

definition krhino_fix_buf_queue_create ::
  "oid option \<Rightarrow> string option \<Rightarrow> nat option \<Rightarrow> nat \<Rightarrow> nat \<Rightarrow> kstate \<Rightarrow> kstat \<times> kstate" where
  "krhino_fix_buf_queue_create queue name buf msg_size msg_num s =
     buf_queue_create queue name buf ((msg_size * msg_num) mod 2 ^ 32) msg_size K_OBJ_STATIC_ALLOC RINGBUF_TYPE_FIX s"

definition buf_queue_del_body :: "oid \<Rightarrow> kstate \<Rightarrow> (kstat \<times> kstate) outcome" where
  "buf_queue_del_body b s =
     bnd (pend_rm_all b (upd_blk b (\<lambda>ob. ob\<lparr>obj_type := RHINO_OBJ_TYPE_NONE\<rparr>) s)) (\<lambda>s.
       let s = upd_kobj (\<lambda>k. k\<lparr>buf_queue_head := remove1 b (buf_queue_head k)\<rparr>) s
       in exit_sched RHINO_SUCCESS (upd_bq b (\<lambda>q. q\<lparr>bq_ringbuf := ringbuf_reset (bq_ringbuf q)\<rparr>) s))"

definition krhino_buf_queue_del :: "oid option \<Rightarrow> kstate \<Rightarrow> (kstat \<times> kstate) outcome" where
  "krhino_buf_queue_del queue s =
     (case queue of
        None \<Rightarrow> Inr (RHINO_NULL_PTR, s)
      | Some b \<Rightarrow>
          if g_intrpt_nested_level s > 0 then Inr (RHINO_NOT_CALLED_BY_INTRPT, s)
          else if obj_type (blks s b) \<noteq> RHINO_BUF_QUEUE_OBJ_TYPE then Inr (RHINO_KOBJ_TYPE_ERR, s)
          else if bq_alloc_flag (buf_queues s b) \<noteq> K_OBJ_STATIC_ALLOC then Inr (RHINO_KOBJ_DEL_ERR, s)
          else buf_queue_del_body b s)"

definition krhino_buf_queue_dyn_create ::
  "bool \<Rightarrow> oid option \<Rightarrow> nat option \<Rightarrow> string option \<Rightarrow> nat \<Rightarrow> nat \<Rightarrow> kstate \<Rightarrow> kstat \<times> oid option \<times> kstate" where
  "krhino_buf_queue_dyn_create queue_null alloc alloc_buf name sz max_msg s =
     (if queue_null then (RHINO_NULL_PTR, None, s)
      else if sz = 0 then (RHINO_BUF_QUEUE_SIZE_ZERO, None, s)
      else (case alloc of
              None \<Rightarrow> (RHINO_NO_MEM, None, s)
            | Some b \<Rightarrow>
                (let s = upd_bq b (\<lambda>q. q\<lparr>bq_buf := (case alloc_buf of None \<Rightarrow> 0 | Some x \<Rightarrow> x)\<rparr>) s
                 in if alloc_buf = None then (RHINO_NO_MEM, None, s)
                    else (case buf_queue_create alloc name alloc_buf sz max_msg K_OBJ_DYN_ALLOC RINGBUF_TYPE_DYN s of
                            (stat, s) \<Rightarrow>
                              if stat \<noteq> RHINO_SUCCESS then (stat, None, s) else (RHINO_SUCCESS, alloc, s)))))"

definition krhino_buf_queue_dyn_del :: "oid option \<Rightarrow> kstate \<Rightarrow> (kstat \<times> kstate) outcome" where
  "krhino_buf_queue_dyn_del queue s =
     (case queue of
        None \<Rightarrow> Inr (RHINO_NULL_PTR, s)
      | Some b \<Rightarrow>
          if g_intrpt_nested_level s > 0 then Inr (RHINO_NOT_CALLED_BY_INTRPT, s)
          else if obj_type (blks s b) \<noteq> RHINO_BUF_QUEUE_OBJ_TYPE then Inr (RHINO_KOBJ_TYPE_ERR, s)
          else if bq_alloc_flag (buf_queues s b) \<noteq> K_OBJ_DYN_ALLOC then Inr (RHINO_KOBJ_DEL_ERR, s)
          else buf_queue_del_body b s)"

text \<open>\<open>data\<close> gives the bytes found at the sender's \<open>msg\<close> pointer.\<close>

definition buf_queue_send :: "oid \<Rightarrow> (nat \<Rightarrow> byte) \<Rightarrow> nat \<Rightarrow> kstate \<Rightarrow> (kstat \<times> kstate) outcome" where
  "buf_queue_send b data msg_size s =
     (if obj_type (blks s b) \<noteq> RHINO_BUF_QUEUE_OBJ_TYPE then Inr (RHINO_KOBJ_TYPE_ERR, s)
      else if msg_size > max_msg_size (buf_queues s b) then Inr (RHINO_BUF_QUEUE_MSG_SIZE_OVERFLOW, s)
      else if msg_size = 0 then Inr (RHINO_INV_PARAM, s)
      else (case blk_list (blks s b) of
              [] \<Rightarrow>
                (case ringbuf_push (mem s) (bq_ringbuf (buf_queues s b)) data msg_size of
                   (err, m, rb) \<Rightarrow>
                     (let s = upd_bq b (\<lambda>q. q\<lparr>bq_ringbuf := rb\<rparr>) (s\<lparr>mem := m\<rparr>)
                      in if err \<noteq> RHINO_SUCCESS
                         then Inr (if err = RHINO_RINGBUF_FULL then RHINO_BUF_QUEUE_FULL else err, s)
                         else (let s = upd_bq b (\<lambda>q. q\<lparr>bq_cur_num := bq_cur_num q + 1\<rparr>) s;
                                   s = (if bq_peak_num (buf_queues s b) < bq_cur_num (buf_queues s b)
                                        then upd_bq b (\<lambda>q. q\<lparr>bq_peak_num := bq_cur_num q\<rparr>) s else s);
                                   s = (if min_free_buf_size (buf_queues s b) > freesize (bq_ringbuf (buf_queues s b))
                                        then upd_bq b (\<lambda>q. q\<lparr>min_free_buf_size := freesize (bq_ringbuf q)\<rparr>) s
                                        else s)
                               in Inr (RHINO_SUCCESS, s))))
            | t # _ \<Rightarrow>
                (let s = s\<lparr>mem := memcpy (mem s) (msg (tasks s t)) data msg_size\<rparr>;
                     s = upd_task t (\<lambda>k. k\<lparr>bq_msg_size := msg_size\<rparr>) s
                 in bnd (pend_task_wakeup t s) (exit_sched RHINO_SUCCESS))))"

definition krhino_buf_queue_send ::
  "oid option \<Rightarrow> (nat \<Rightarrow> byte) option \<Rightarrow> nat \<Rightarrow> kstate \<Rightarrow> (kstat \<times> kstate) outcome" where
  "krhino_buf_queue_send queue m sz s =
     (case (queue, m) of
        (Some b, Some data) \<Rightarrow> buf_queue_send b data sz s
      | _ \<Rightarrow> Inr (RHINO_NULL_PTR, s))"

text \<open>A popped message is copied to the receiver's buffer; \<open>*size\<close> is written by the pop of a buffer
  of varying-length messages (a fixed-size pop stores the block size when \<open>plen\<close> is not NULL).\<close>

definition krhino_buf_queue_recv ::
  "oid option \<Rightarrow> tick \<Rightarrow> nat option \<Rightarrow> bool \<Rightarrow> kstate \<Rightarrow> (kret \<times> nat option \<times> kstate) outcome" where
  "krhino_buf_queue_recv queue ticks m size_null s =
     (case (queue, m) of
        (Some b, Some dst) \<Rightarrow>
          if size_null then Inr (Ret RHINO_NULL_PTR, None, s)
          else if g_intrpt_nested_level s > 0 \<and> ticks \<noteq> RHINO_NO_WAIT
          then Inr (Ret RHINO_NOT_CALLED_BY_INTRPT, None, s)
          else if obj_type (blks s b) \<noteq> RHINO_BUF_QUEUE_OBJ_TYPE
          then Inr (Ret RHINO_KOBJ_TYPE_ERR, None, s)
          else if \<not> ringbuf_is_empty (bq_ringbuf (buf_queues s b))
          then (case ringbuf_pop (mem s) (bq_ringbuf (buf_queues s b)) of
                  (err, out, rb) \<Rightarrow>
                    Inr (Ret RHINO_SUCCESS, if err = RHINO_SUCCESS then Some (length out) else None,
                         upd_bq b (\<lambda>q. q\<lparr>bq_ringbuf := rb, bq_cur_num := bq_cur_num q - 1\<rparr>)
                           (s\<lparr>mem := memcpy (mem s) dst ((!) out) (length out)\<rparr>)))
          else if ticks = RHINO_NO_WAIT then Inr (Ret RHINO_NO_PEND_WAIT, Some 0, s)
          else if g_sched_lock s > 0 then Inr (Ret RHINO_SCHED_DISABLE, Some 0, s)
          else bnd (active s) (\<lambda>a.
               bnd (block_active b ticks (upd_task a (\<lambda>k. k\<lparr>msg := dst\<rparr>) s)) (\<lambda>(r, s). Inr (r, None, s)))
      | _ \<Rightarrow> Inr (Ret RHINO_NULL_PTR, None, s))"

definition buf_queue_recv_resume :: "kstate \<Rightarrow> (kstat \<times> nat) outcome" where
  "buf_queue_recv_resume s =
     bnd (active s) (\<lambda>a.
     bnd (pend_state_end_proc a s) (\<lambda>ret.
       Inr (ret, if ret = RHINO_SUCCESS then bq_msg_size (tasks s a) else 0)))"

definition krhino_buf_queue_flush :: "oid option \<Rightarrow> kstate \<Rightarrow> kstat \<times> kstate" where
  "krhino_buf_queue_flush queue s =
     (case queue of
        None \<Rightarrow> (RHINO_NULL_PTR, s)
      | Some b \<Rightarrow>
          if g_intrpt_nested_level s > 0 then (RHINO_NOT_CALLED_BY_INTRPT, s)
          else if obj_type (blks s b) \<noteq> RHINO_BUF_QUEUE_OBJ_TYPE then (RHINO_KOBJ_TYPE_ERR, s)
          else (let s = upd_bq b (\<lambda>q. q\<lparr>bq_ringbuf := ringbuf_reset (bq_ringbuf q), bq_cur_num := 0,
                      bq_peak_num := 0\<rparr>) s
                in (RHINO_SUCCESS, upd_bq b (\<lambda>q. q\<lparr>min_free_buf_size := freesize (bq_ringbuf q)\<rparr>) s)))"

record kbuf_queue_info =
  bi_buf_size :: nat
  bi_max_msg_size :: nat
  bi_cur_num :: nat
  bi_peak_num :: nat
  bi_free_buf_size :: nat
  bi_min_free_buf_size :: nat

definition krhino_buf_queue_info_get :: "oid option \<Rightarrow> bool \<Rightarrow> kstate \<Rightarrow> kstat \<times> kbuf_queue_info option" where
  "krhino_buf_queue_info_get queue info_null s =
     (case queue of
        None \<Rightarrow> (RHINO_NULL_PTR, None)
      | Some b \<Rightarrow>
          if info_null then (RHINO_NULL_PTR, None)
          else if obj_type (blks s b) \<noteq> RHINO_BUF_QUEUE_OBJ_TYPE then (RHINO_KOBJ_TYPE_ERR, None)
          else (let q = buf_queues s b; rb = bq_ringbuf q
                in (RHINO_SUCCESS,
                    Some \<lparr>bi_buf_size = rb_end rb - rb_buf rb, bi_max_msg_size = max_msg_size q,
                          bi_cur_num = bq_cur_num q, bi_peak_num = bq_peak_num q,
                          bi_free_buf_size = freesize rb, bi_min_free_buf_size = min_free_buf_size q\<rparr>)))"

section \<open>Abstract buffer queues\<close>

text \<open>A queue of messages of varying length: the pending messages and the waiting receivers. The space a
  message takes is its length and that of its header.\<close>

type_synonym bq_view = "byte list list \<times> tid list"

definition msg_space :: "nat \<Rightarrow> nat" where
  "msg_space n = COMPRESS_LEN n + n"

definition bq_free :: "nat \<Rightarrow> byte list list \<Rightarrow> nat" where
  "bq_free c ms = c - sum_list (map (\<lambda>m. msg_space (length m)) ms)"

definition bq_rep :: "kstate \<Rightarrow> oid \<Rightarrow> bq_view \<Rightarrow> bool" where
  "bq_rep s b v \<longleftrightarrow> ty s b = RHINO_BUF_QUEUE_OBJ_TYPE \<and> pol s b = BLK_POLICY_PRI \<and> bl s b = snd v \<and>
     (snd v \<noteq> [] \<longrightarrow> fst v = []) \<and> bq_cur_num (buf_queues s b) = length (fst v) \<and>
     max_msg_size (buf_queues s b) \<le> 0x3fffff \<and> (\<forall>m \<in> set (fst v). m \<noteq> []) \<and>
     dyn_rep (mem s, bq_ringbuf (buf_queues s b)) (fst v)"

definition bq_send_spec :: "nat \<Rightarrow> nat \<Rightarrow> byte list \<Rightarrow> bq_view \<Rightarrow> kstat \<times> bq_view" where
  "bq_send_spec c mx m v =
     (if length m > mx then (RHINO_BUF_QUEUE_MSG_SIZE_OVERFLOW, v)
      else if m = [] then (RHINO_INV_PARAM, v)
      else if snd v \<noteq> [] then (RHINO_SUCCESS, (fst v, tl (snd v)))
      else if bq_free c (fst v) < msg_space (length m) then (RHINO_BUF_QUEUE_FULL, v)
      else (RHINO_SUCCESS, (fst v @ [m], [])))"

definition bq_recv_spec ::
  "tid \<Rightarrow> (tid \<Rightarrow> nat) \<Rightarrow> bool \<Rightarrow> bool \<Rightarrow> bq_view \<Rightarrow> kret \<times> nat option \<times> bq_view" where
  "bq_recv_spec a p no_wait locked v =
     (case v of
        (m # ms, ts) \<Rightarrow> (Ret RHINO_SUCCESS, Some (length m), (ms, ts))
      | ([], ts) \<Rightarrow>
          if no_wait then (Ret RHINO_NO_PEND_WAIT, Some 0, v)
          else if locked then (Ret RHINO_SCHED_DISABLE, Some 0, v)
          else (Pending, None, ([], insert_before (\<lambda>u. p u > p a) a ts)))"

lemma push_copy_cong:
  assumes "\<And>i. i < n \<Longrightarrow> src i = src' i"
  shows "push_copy mm rb src n = push_copy mm rb src' n"
proof -
  have "memcpy m1 d (\<lambda>i. src (k + i)) (n - k) = memcpy m1 d (\<lambda>i. src' (k + i)) (n - k)" for m1 d k
    using assms by (intro memcpy_cong) auto
  moreover have "memcpy m1 d src k = memcpy m1 d src' k" if "k \<le> n" for m1 d k
    using assms that by (intro memcpy_cong) auto
  moreover define k where "k = rb_end rb - rb_tail rb"
  ultimately show ?thesis unfolding push_copy_def Let_def k_def [symmetric] by (auto simp: less_imp_le)
qed

lemma push_dyn_cong:
  assumes "rb_type rb = RINGBUF_TYPE_DYN" "\<And>i. i < n \<Longrightarrow> src i = src' i"
  shows "ringbuf_push mm rb src n = ringbuf_push mm rb src' n"
  using assms(1) push_copy_cong [of n src src', OF assms(2)] by (simp add: ringbuf_push_def Let_def)

lemma dyn_free:
  assumes "dyn_rep (mm, rb) ms"
  shows "freesize rb = bq_free (cap rb) ms" "ringbuf_is_empty rb \<longleftrightarrow> ms = []"
proof -
  have w: "ring_wf rb" and c: "contents mm rb = concat (map enc ms)" and l: "\<forall>m \<in> set ms. length m \<le> 0x3fffff"
    using assms by (auto simp: dyn_rep_def)
  have "length (enc m) = msg_space (length m)" if "m \<in> set ms" for m
    using l that by (simp add: enc_def msg_space_def)
  then have u: "used rb = sum_list (map (\<lambda>m. msg_space (length m)) ms)"
    using used_contents [of mm rb] c by (simp add: length_concat o_def cong: map_cong)
  then show "freesize rb = bq_free (cap rb) ms" using w by (auto simp: used_def bq_free_def ring_wf_def)
  have "sum_list (map (\<lambda>m. msg_space (length m)) ms) = 0 \<longleftrightarrow> ms = []"
    by (cases ms) (auto simp: msg_space_def COMPRESS_LEN_def)
  then show "ringbuf_is_empty rb \<longleftrightarrow> ms = []" using u w by (auto simp: ringbuf_is_empty_def used_def cap_def ring_wf_def)
qed

lemma bq_push:
  assumes rep: "dyn_rep (mm, rb) ms" and n: "0 < length m" "length m \<le> 0x3fffff" and d: "\<And>i. i < length m \<Longrightarrow> data i = m ! i"
  shows "if bq_free (cap rb) ms < msg_space (length m)
    then ringbuf_push mm rb data (length m) = (RHINO_RINGBUF_FULL, mm, rb)
    else (\<exists>mm' rb'. ringbuf_push mm rb data (length m) = (RHINO_SUCCESS, mm', rb') \<and> dyn_rep (mm', rb') (ms @ [m]) \<and> cap rb' = cap rb)"
proof -
  have "rb_type rb = RINGBUF_TYPE_DYN" using rep by (simp add: dyn_rep_def)
  then have e: "ringbuf_push mm rb data (length m) = ringbuf_push mm rb ((!) m) (length m)"
    using d by (intro push_dyn_cong) auto
  have "freesize rb < 2 \<or> freesize rb < COMPRESS_LEN (length m) + length m \<longleftrightarrow> bq_free (cap rb) ms < msg_space (length m)"
    using dyn_free(1) [OF rep] n(1) by (cases m) (auto simp: msg_space_def COMPRESS_LEN_def)
  then show ?thesis using ringbuf_push_dyn [OF rep n(2)] unfolding e by simp
qed

section \<open>Sending and receiving\<close>

lemma upd_bq_same: "same_sched s (upd_bq b f s)"
  by (simp add: same_sched_def upd_bq_def view_defs fun_eq_iff)

lemma upd_bq_views [simp]:
  "tasks (upd_bq b f s) = tasks s" "st (upd_bq b f s) = st s" "bl (upd_bq b f s) = bl s" "ty (upd_bq b f s) = ty s"
  "pol (upd_bq b f s) = pol s" "mem (upd_bq b f s) = mem s" "buf_queues (upd_bq b f s) = (buf_queues s)(b := f (buf_queues s b))"
  "g_active_task (upd_bq b f s) = g_active_task s"
  by (simp_all add: upd_bq_def view_defs fun_eq_iff)

lemma kernel_inv_bq_mem: "kernel_inv (upd_bq b f s) = kernel_inv s" "kernel_inv (s\<lparr>mem := x\<rparr>) = kernel_inv s"
  using same_sched_inv [OF upd_bq_same] same_sched_inv [OF same_sched_mem] by simp_all

text \<open>Storing a message: the status, and the counters that go with it.\<close>

lemma bq_send_store:
  assumes inv: "kernel_inv s" and r: "bq_rep s b (ms, [])" and m: "m \<noteq> []" "length m \<le> max_msg_size (buf_queues s b)"
    and d: "\<And>i. i < length m \<Longrightarrow> data i = m ! i"
  shows "ok (buf_queue_send b data (length m) s) (\<lambda>(e, s'). kernel_inv s' \<and> wait_rel s' = wait_rel s \<and> tasks s' = tasks s \<and>
    cap (bq_ringbuf (buf_queues s' b)) = cap (bq_ringbuf (buf_queues s b)) \<and>
    max_msg_size (buf_queues s' b) = max_msg_size (buf_queues s b) \<and>
    (if bq_free (cap (bq_ringbuf (buf_queues s b))) ms < msg_space (length m)
     then e = RHINO_BUF_QUEUE_FULL \<and> bq_rep s' b (ms, [])
     else e = RHINO_SUCCESS \<and> bq_rep s' b (ms @ [m], [])))"
proof -
  let ?rb = "bq_ringbuf (buf_queues s b)"
  have rep: "dyn_rep (mem s, ?rb) ms" and l: "length m \<le> 0x3fffff" using r m(2) by (auto simp: bq_rep_def)
  note p = bq_push [OF rep _ l d]
  show ?thesis
  proof (cases "bq_free (cap ?rb) ms < msg_space (length m)")
    case True
    then have "ringbuf_push (mem s) ?rb data (length m) = (RHINO_RINGBUF_FULL, mem s, ?rb)" using p m(1) by simp
    moreover have "upd_bq b (\<lambda>q. q\<lparr>bq_ringbuf := ?rb\<rparr>) s = s" by (simp add: upd_bq_def)
    ultimately have "buf_queue_send b data (length m) s = Inr (RHINO_BUF_QUEUE_FULL, s)"
      using r m by (simp add: buf_queue_send_def bq_rep_def ty_def bl_def Let_def)
    then show ?thesis using True inv r by simp
  next
    case False
    then obtain mm' rb' where q: "ringbuf_push (mem s) ?rb data (length m) = (RHINO_SUCCESS, mm', rb')" "dyn_rep (mm', rb') (ms @ [m])"
      "cap rb' = cap ?rb" using p m(1) by auto
    define s0 where "s0 = upd_bq b (\<lambda>q. q\<lparr>bq_cur_num := bq_cur_num q + 1\<rparr>) (upd_bq b (\<lambda>q. q\<lparr>bq_ringbuf := rb'\<rparr>) (s\<lparr>mem := mm'\<rparr>))"
    define s1 where "s1 = (if bq_peak_num (buf_queues s0 b) < bq_cur_num (buf_queues s0 b)
      then upd_bq b (\<lambda>q. q\<lparr>bq_peak_num := bq_cur_num q\<rparr>) s0 else s0)"
    define s2 where "s2 = (if min_free_buf_size (buf_queues s1 b) > freesize (bq_ringbuf (buf_queues s1 b))
      then upd_bq b (\<lambda>q. q\<lparr>min_free_buf_size := freesize (bq_ringbuf q)\<rparr>) s1 else s1)"
    have e: "buf_queue_send b data (length m) s = Inr (RHINO_SUCCESS, s2)"
      using r m q(1) by (simp add: buf_queue_send_def bq_rep_def ty_def bl_def Let_def s0_def s1_def s2_def)
    have "same_sched s s2"
      by (simp add: s2_def s1_def s0_def same_sched_def upd_bq_def view_defs fun_eq_iff)
    moreover have "tasks s2 = tasks s" "bq_rep s2 b (ms @ [m], [])" "cap (bq_ringbuf (buf_queues s2 b)) = cap ?rb"
      "max_msg_size (buf_queues s2 b) = max_msg_size (buf_queues s b)"
      using r m(1) q(2,3) by (simp_all add: s2_def s1_def s0_def bq_rep_def)
    ultimately show ?thesis using False e inv same_sched_inv wait_rel_same by simp
  qed
qed

lemma bq_send_wake:
  assumes inv: "kernel_inv s" and r: "bq_rep s b ([], t # ts)" and n: "0 < n" "n \<le> max_msg_size (buf_queues s b)"
  shows "ok (buf_queue_send b data n s) (\<lambda>(e, s'). e = RHINO_SUCCESS \<and> kernel_inv s' \<and> wait_rel s' \<subseteq> wait_rel s \<and>
    bq_rep s' b ([], ts) \<and> st s' t = woken (st s t) \<and> t_blk_state (tasks s' t) = BLK_FINISH \<and> bq_msg_size (tasks s' t) = n \<and>
    msg (tasks s' t) = msg (tasks s t) \<and> mem s' = memcpy (mem s) (msg (tasks s t)) data n)"
proof -
  define s0 where "s0 = upd_task t (\<lambda>k. k\<lparr>bq_msg_size := n\<rparr>) (s\<lparr>mem := memcpy (mem s) (msg (tasks s t)) data n\<rparr>)"
  have nn: "neutral (\<lambda>k. k\<lparr>bq_msg_size := n\<rparr>)" by (simp add: neutral_def)
  have same: "same_sched s s0" unfolding s0_def using same_sched_trans [OF same_sched_mem same_sched_task [OF nn]] .
  have i0: "kernel_inv s0" "wait_rel s0 = wait_rel s" using inv same_sched_inv [OF same] wait_rel_same [OF same] by simp_all
  have v: "st s0 = st s" "bl s0 = bl s" "ty s0 = ty s" "pol s0 = pol s" "buf_queues s0 = buf_queues s"
    "mem s0 = memcpy (mem s) (msg (tasks s t)) data n"
    using same by (simp_all add: same_sched_def s0_def) (simp_all add: upd_task_def)
  obtain q where q: "pend_task_end BLK_FINISH t s0 = Inr (wake_result BLK_FINISH t q s0)" "kernel_inv (wake_result BLK_FINISH t q s0)"
    using kernel_wake_ok [OF i0(1), of t b] r by (auto simp: v bq_rep_def)
  obtain s' where s': "exit_sched RHINO_SUCCESS (wake_result BLK_FINISH t q s0) = Inr (RHINO_SUCCESS, s')" "kernel_inv s'"
    and d: "sched_done (wake_result BLK_FINISH t q s0) s'"
    using kernel_exit [OF q(2)] by (auto simp: ok_iff)
  have "buf_queue_send b data n s = Inr (RHINO_SUCCESS, s')"
    using r n q(1) s'(1) by (simp add: buf_queue_send_def bq_rep_def ty_def bl_def pend_task_wakeup_def s0_def)
  moreover have "bq_msg_size (tasks (wake_result BLK_FINISH t q s0) t) = n"
    "msg (tasks (wake_result BLK_FINISH t q s0) t) = msg (tasks s t)"
    by (simp_all add: wake_result_def set_state_def tick_list_rm_def blk_list_rm_def upd_task_def s0_def)
  moreover have "wait_rel s' \<subseteq> wait_rel s"
    using wait_rel_wake [of BLK_FINISH t q s0] wait_rel_sched_done [OF d] i0(2) by simp
  moreover have "dyn_rep (x, rb) []" if "dyn_rep (y, rb) []" for x y rb
    using that used_contents [of y rb] used_contents [of x rb] by (auto simp: dyn_rep_def)
  then have "bq_rep s' b ([], ts)" using r unfolding bq_rep_def by (auto simp: sched_done_frame [OF d] v)
  ultimately show ?thesis using s'(2) by (simp add: sched_done_frame [OF d] v woken_def)
qed

lemma read_memcpy: "(\<And>i. i < n \<Longrightarrow> src i = m ! i) \<Longrightarrow> length m = n \<Longrightarrow> read_bytes (memcpy mm dst src n) dst n = m"
  by (rule nth_equalityI) (simp_all add: read_bytes_def memcpy_def)

text \<open>
  C26. Sending to a queue of variable-length messages refines the abstract queue: a message above the
  limit, an empty one and one that does not fit the free space (its length and that of its header) are
  refused and the queue stays as it was; with no receiver waiting it is appended; otherwise its bytes are
  copied to the buffer of the first waiting receiver, whose call then returns its length. The kernel
  invariant is kept.
\<close>

theorem buf_queue_send_refines:
  assumes inv: "kernel_inv s" and r: "bq_rep s b v" and d: "\<And>i. i < length m \<Longrightarrow> data i = m ! i"
  shows "ok (krhino_buf_queue_send (Some b) (Some data) (length m) s) (\<lambda>(e, s'). kernel_inv s' \<and>
    (\<exists>v'. bq_send_spec (cap (bq_ringbuf (buf_queues s b))) (max_msg_size (buf_queues s b)) m v = (e, v') \<and> bq_rep s' b v') \<and>
    (e = RHINO_SUCCESS \<and> snd v \<noteq> [] \<longrightarrow> st s' (hd (snd v)) = woken (st s (hd (snd v))) \<and>
       read_bytes (mem s') (msg (tasks s (hd (snd v)))) (length m) = m \<and>
       buf_queue_recv_resume (s'\<lparr>g_active_task := Some (hd (snd v))\<rparr>) = Inr (RHINO_SUCCESS, length m)))"
proof -
  obtain ms ts where v: "v = (ms, ts)" by fastforce
  show ?thesis
  proof (cases "length m > max_msg_size (buf_queues s b) \<or> m = []")
    case True
    then show ?thesis
      using inv r v by (auto simp: krhino_buf_queue_send_def buf_queue_send_def bq_rep_def ty_def bq_send_spec_def)
  next
    case False
    then have m: "m \<noteq> []" "length m \<le> max_msg_size (buf_queues s b)" by auto
    show ?thesis
    proof (cases ts)
      case Nil
      then have r': "bq_rep s b (ms, [])" using r v by simp
      show ?thesis
        using m v Nil bq_send_store [OF inv r' m d]
        by (auto simp: bq_send_spec_def krhino_buf_queue_send_def ok_iff split: if_splits)
    next
      case (Cons t us)
      have "ms = []" using r v Cons by (auto simp: bq_rep_def)
      then have r': "bq_rep s b ([], t # us)" using r v Cons by simp
      have "buf_queue_recv_resume (s'\<lparr>g_active_task := Some t\<rparr>) = Inr (RHINO_SUCCESS, length m)"
        if "t_blk_state (tasks s' t) = BLK_FINISH" "bq_msg_size (tasks s' t) = length m" for s'
        using that by (simp add: buf_queue_recv_resume_def active_def pend_state_end_proc_def)
      then have "ok (buf_queue_send b data (length m) s) (\<lambda>(e, s'). e = RHINO_SUCCESS \<and> kernel_inv s' \<and> bq_rep s' b ([], us) \<and>
          st s' t = woken (st s t) \<and> read_bytes (mem s') (msg (tasks s t)) (length m) = m \<and>
          buf_queue_recv_resume (s'\<lparr>g_active_task := Some t\<rparr>) = Inr (RHINO_SUCCESS, length m))"
        using m read_memcpy [OF d refl] by (intro ok_mono [OF bq_send_wake [OF inv r']]) auto
      then show ?thesis
        using m v Cons \<open>ms = []\<close> by (auto simp: krhino_buf_queue_send_def bq_send_spec_def ok_iff)
    qed
  qed
qed

lemma ex_bq_rep: "bq_rep ex_state 16 ([], [])"
  by (simp add: bq_rep_def) (simp add: ex_state_def dyn_rep_def ring_wf_def cap_def used_def contents_def)

theorem buf_queue_send_refines_witness:
  "ok (krhino_buf_queue_send (Some 16) (Some ((!) [7, 8, 9])) 3 ex_state) (\<lambda>(e, s'). e = RHINO_SUCCESS \<and> kernel_inv s' \<and>
     bq_rep s' 16 ([[7, 8, 9]], []))"
proof -
  have "cap (bq_ringbuf (buf_queues ex_state 16)) = 32" "max_msg_size (buf_queues ex_state 16) = 8" by (simp_all add: ex_state_def cap_def)
  then show ?thesis
    using buf_queue_send_refines [OF ex_kernel_inv ex_bq_rep, of "[7, 8, 9]" "(!) [7, 8, 9]"]
    by (auto simp: ok_iff bq_send_spec_def bq_free_def msg_space_def COMPRESS_LEN_def numeral_3_eq_3)
qed

lemma contents_memcpy:
  assumes "ring_wf rb" "dst + n \<le> rb_buf rb \<or> rb_end rb \<le> dst"
  shows "contents (memcpy mm dst src n) rb = contents mm rb"
proof -
  have "memcpy mm dst src n (rb_buf rb + x mod cap rb) = mm (rb_buf rb + x mod cap rb)" for x
  proof -
    have "x mod cap rb < cap rb" using assms(1) by (intro mod_less_divisor) (auto simp: ring_wf_def cap_def)
    moreover have "rb_buf rb < rb_end rb" "cap rb = rb_end rb - rb_buf rb" using assms(1) by (simp_all add: ring_wf_def cap_def)
    ultimately have "rb_buf rb + x mod cap rb < rb_end rb" by linarith
    then show ?thesis using assms(2) by (auto simp: memcpy_def)
  qed
  then show ?thesis by (simp add: contents_def ring_get_def)
qed

lemma pop_region:
  "rb_buf (wrap_head rb) = rb_buf rb" "rb_end (wrap_head rb) = rb_end rb"
  "rb_buf (snd (pop_copy mm rb f n)) = rb_buf rb" "rb_end (snd (pop_copy mm rb f n)) = rb_end rb"
  by (simp_all add: wrap_head_def pop_copy_def Let_def)

lemma ringbuf_pop_region:
  "rb_buf (snd (snd (ringbuf_pop mm rb))) = rb_buf rb" "rb_end (snd (snd (ringbuf_pop mm rb))) = rb_end rb"
  by (simp_all add: ringbuf_pop_def Let_def pop_region)

text \<open>
  C27. Receiving from a queue of variable-length messages, into a buffer outside the queue's own memory,
  refines the abstract queue: the oldest message is copied unchanged to the caller's buffer and its
  length is reported; an empty queue makes the call fail at once, or block the caller with its buffer
  recorded. The kernel invariant is kept.
\<close>

theorem buf_queue_recv_refines:
  assumes inv: "kernel_inv s" and r: "bq_rep s b v" and z: "g_intrpt_nested_level s = 0"
    and a: "g_active_task s = Some a" "a \<noteq> g_idle_task" and t: "ticks = RHINO_NO_WAIT \<or> good_timeout ticks"
    and dst: "\<And>m. m \<in> set (fst v) \<Longrightarrow> dst + length m \<le> rb_buf (bq_ringbuf (buf_queues s b)) \<or> rb_end (bq_ringbuf (buf_queues s b)) \<le> dst"
  shows "ok (krhino_buf_queue_recv (Some b) ticks (Some dst) False s) (\<lambda>(e, n, s'). kernel_inv s' \<and>
    (\<exists>v'. bq_recv_spec a (pri s) (ticks = RHINO_NO_WAIT) (g_sched_lock s > 0) v = (e, n, v') \<and> bq_rep s' b v') \<and>
    (e = Ret RHINO_SUCCESS \<longrightarrow> read_bytes (mem s') dst (length (hd (fst v))) = hd (fst v)) \<and>
    (e = Pending \<longrightarrow> st s' a = K_PEND \<and> msg (tasks s' a) = dst \<and>
       (\<exists>u. g_active_task s' = Some u \<and> best_ready (live s') s' u)))"
proof -
  obtain ms ts where v: "v = (ms, ts)" by fastforce
  let ?rb = "bq_ringbuf (buf_queues s b)"
  have b: "ty s b = RHINO_BUF_QUEUE_OBJ_TYPE" "dyn_rep (mem s, ?rb) ms" "pol s b = BLK_POLICY_PRI" "bl s b = ts"
    using r v by (auto simp: bq_rep_def)
  show ?thesis
  proof (cases ms)
    case (Cons m ms')
    have "dyn_rep (mem s, ?rb) (m # ms')" using b Cons by simp
    then obtain rb' where p: "ringbuf_pop (mem s) ?rb = (RHINO_SUCCESS, m, rb')" "dyn_rep (mem s, rb') ms'" "cap rb' = cap ?rb"
      using ringbuf_pop_dyn by blast
    let ?s = "upd_bq b (\<lambda>q. q\<lparr>bq_ringbuf := rb', bq_cur_num := bq_cur_num q - 1\<rparr>)
      (s\<lparr>mem := memcpy (mem s) dst ((!) m) (length m)\<rparr>)"
    have ne: "\<not> ringbuf_is_empty ?rb" using dyn_free(2) [OF b(2)] Cons by simp
    have e: "krhino_buf_queue_recv (Some b) ticks (Some dst) False s = Inr (Ret RHINO_SUCCESS, Some (length m), ?s)"
      using b p(1) z ne by (simp add: krhino_buf_queue_recv_def ty_def)
    have "rb_buf rb' = rb_buf ?rb" "rb_end rb' = rb_end ?rb"
      using ringbuf_pop_region [of "mem s" ?rb] by (simp_all add: p(1))
    then have "dyn_rep (memcpy (mem s) dst ((!) m) (length m), rb') ms'"
      using p(2) contents_memcpy [of rb' dst "length m"] dst [of m] v Cons by (auto simp: dyn_rep_def)
    then have "bq_rep ?s b (ms', ts)" using r v Cons by (auto simp: bq_rep_def)
    then show ?thesis
      unfolding e using inv v Cons read_memcpy [of "length m" "(!) m" m] by (simp add: kernel_inv_bq_mem bq_recv_spec_def)
  next
    case Nil
    have ne: "ringbuf_is_empty ?rb" using dyn_free(2) [OF b(2)] Nil by simp
    show ?thesis
    proof (cases "ticks = RHINO_NO_WAIT \<or> g_sched_lock s > 0")
      case True
      then show ?thesis using Nil b z inv v r ne by (auto simp: krhino_buf_queue_recv_def ty_def bq_recv_spec_def)
    next
      case False
      define s0 where "s0 = upd_task a (\<lambda>k. k\<lparr>msg := dst\<rparr>) s"
      have n: "neutral (\<lambda>k. k\<lparr>msg := dst\<rparr>)" by (simp add: neutral_def)
      have i0: "kernel_inv s0" "pri s0 = pri s" "buf_queues s0 = buf_queues s" "mem s0 = mem s"
        using inv same_sched_inv [OF same_sched_task [OF n]] by (simp_all add: s0_def neutral_views [OF n]) (simp_all add: upd_task_def)
      obtain s' q where s': "block_active b ticks s0 = Inr (Pending, s')" "kernel_inv s'"
        and d: "sched_done (block_result b a ticks q s0) s'"
        using block_active_ok [OF i0(1), of a ticks b] a b z t False by (auto simp: s0_def ok_iff word_gt_0)
      have e: "krhino_buf_queue_recv (Some b) ticks (Some dst) False s = Inr (Pending, None, s')"
        using Nil False b z s'(1) ne by (simp add: krhino_buf_queue_recv_def ty_def active_eq [OF a(1)] s0_def)
      have "bq_rep s' b ([], insert_before (\<lambda>u. pri s u > pri s a) a ts)"
        using r v Nil b by (simp add: bq_rep_def sched_done_frame [OF d] i0) (simp add: s0_def)
      moreover have "msg (tasks s' a) = dst"
        by (simp add: sched_done_frame [OF d] block_result_def Let_def set_state_def tick_list_insert_def
            tick_list_pri_insert_def s0_def upd_blk_def upd_task_def)
      moreover have "st s' a = K_PEND" by (simp add: sched_done_frame [OF d])
      moreover have "\<exists>u. g_active_task s' = Some u \<and> best_ready (live s') s' u"
        using sched_done_active [OF d] z False by (simp add: s0_def word_gt_0)
      ultimately show ?thesis
        unfolding e using s'(2) False v Nil by (simp add: bq_recv_spec_def)
    qed
  qed
qed

text \<open>An empty queue blocks the receiver; a stored message is copied to it.\<close>

theorem buf_queue_recv_refines_witness:
  "ok (krhino_buf_queue_recv (Some 16) 4 (Some 3000) False ex_state) (\<lambda>(e, n, s'). e = Pending \<and> kernel_inv s' \<and>
     bq_rep s' 16 ([], [5]) \<and> msg (tasks s' 5) = 3000) \<and>
   (\<exists>s dst. bq_rep s 16 ([[7, 8, 9]], []) \<and> ok (krhino_buf_queue_recv (Some 16) 4 (Some dst) False s) (\<lambda>(e, n, s').
     e = Ret RHINO_SUCCESS \<and> n = Some 3 \<and> kernel_inv s' \<and> read_bytes (mem s') dst 3 = [7, 8, 9] \<and> bq_rep s' 16 ([], [])))"
proof
  have g: "5 \<noteq> g_idle_task" "good_timeout 4" by (simp_all add: g_idle_task_def good_timeout_def)
  then show "ok (krhino_buf_queue_recv (Some 16) 4 (Some 3000) False ex_state) (\<lambda>(e, n, s'). e = Pending \<and> kernel_inv s' \<and>
     bq_rep s' 16 ([], [5]) \<and> msg (tasks s' 5) = 3000)"
    by (intro ok_mono [OF buf_queue_recv_refines [OF ex_kernel_inv ex_bq_rep, of 5 4 3000]])
      (auto simp: bq_recv_spec_def RHINO_NO_WAIT_def)
  let ?m = "[7, 8, 9] :: byte list" and ?rb = "bq_ringbuf (buf_queues ex_state 16)"
  have d: "dyn_rep (mem ex_state, ?rb) []" using ex_bq_rep by (simp add: bq_rep_def)
  have "freesize ?rb = 32" "COMPRESS_LEN (length ?m) = 1" by (simp_all add: ex_state_def COMPRESS_LEN_def)
  then obtain mm rb where p: "dyn_rep (mm, rb) [?m]" using ringbuf_push_dyn [OF d, of ?m] by auto
  define s where "s = upd_bq 16 (\<lambda>q. q\<lparr>bq_ringbuf := rb, bq_cur_num := 1\<rparr>) (ex_state\<lparr>mem := mm\<rparr>)"
  have k: "kernel_inv s" by (simp add: s_def kernel_inv_bq_mem ex_kernel_inv)
  have r: "bq_rep s 16 ([?m], [])" using ex_bq_rep p by (simp add: bq_rep_def s_def)
  have "g_intrpt_nested_level s = 0" "g_active_task s = Some 5" by (simp_all add: s_def upd_bq_def)
  from buf_queue_recv_refines [OF k r this g(1), of 4 "rb_end (bq_ringbuf (buf_queues s 16))"] g(2)
  have "ok (krhino_buf_queue_recv (Some 16) 4 (Some (rb_end (bq_ringbuf (buf_queues s 16)))) False s) (\<lambda>(e, n, s').
     e = Ret RHINO_SUCCESS \<and> n = Some 3 \<and> kernel_inv s' \<and> read_bytes (mem s') (rb_end (bq_ringbuf (buf_queues s 16))) 3 = ?m \<and> bq_rep s' 16 ([], []))"
    by (auto simp: bq_recv_spec_def ok_iff numeral_3_eq_3)
  then show "\<exists>s dst. bq_rep s 16 ([?m], []) \<and> ok (krhino_buf_queue_recv (Some 16) 4 (Some dst) False s) (\<lambda>(e, n, s').
     e = Ret RHINO_SUCCESS \<and> n = Some 3 \<and> kernel_inv s' \<and> read_bytes (mem s') dst 3 = ?m \<and> bq_rep s' 16 ([], []))"
    using r by blast
qed

end
