(* ===== verification/Sem.thy ===== *)
theory Sem
  imports KExample
begin

text \<open>
  Counting semaphores (\<^verbatim>\<open>k_sem.c\<close>) and the semaphore attached to a task (\<^verbatim>\<open>k_task_sem.c\<close>). An
  object pointer is an option, NULL is \<open>None\<close>; \<open>krhino_mm_alloc\<close> of the dynamic variants is the
  argument \<open>alloc\<close>, the address it returned.
\<close>

definition upd_sem :: "oid \<Rightarrow> (ksem \<Rightarrow> ksem) \<Rightarrow> kstate \<Rightarrow> kstate" where
  "upd_sem b f s = s\<lparr>sems := (sems s)(b := f (sems s b))\<rparr>"

definition sem_create :: "oid option \<Rightarrow> string option \<Rightarrow> 32 word \<Rightarrow> 8 word \<Rightarrow> kstate \<Rightarrow> kstat \<times> kstate" where
  "sem_create sem name cnt mm_alloc_flag s =
     (case sem of
        None \<Rightarrow> (RHINO_NULL_PTR, s)
      | Some b \<Rightarrow>
          if name = None then (RHINO_NULL_PTR, s)
          else (let s = upd_sem b (\<lambda>x. x\<lparr>count := cnt, peak_count := cnt, sem_alloc_flag := mm_alloc_flag\<rparr>) s;
                    s = upd_blk b (\<lambda>ob. ob\<lparr>blk_list := [], blk_name := name, blk_policy := BLK_POLICY_PRI\<rparr>) s;
                    s = upd_kobj (\<lambda>k. k\<lparr>sem_head := sem_head k @ [b]\<rparr>) s;
                    s = upd_blk b (\<lambda>ob. ob\<lparr>obj_type := RHINO_SEM_OBJ_TYPE\<rparr>) s
                in (RHINO_SUCCESS, s)))"

definition krhino_sem_create :: "oid option \<Rightarrow> string option \<Rightarrow> 32 word \<Rightarrow> kstate \<Rightarrow> kstat \<times> kstate" where
  "krhino_sem_create sem name cnt s = sem_create sem name cnt K_OBJ_STATIC_ALLOC s"

definition sem_del_body :: "oid \<Rightarrow> kstate \<Rightarrow> (kstat \<times> kstate) outcome" where
  "sem_del_body b s =
     bnd (pend_rm_all b (upd_blk b (\<lambda>ob. ob\<lparr>obj_type := RHINO_OBJ_TYPE_NONE\<rparr>) s)) (\<lambda>s.
       exit_sched RHINO_SUCCESS (upd_kobj (\<lambda>k. k\<lparr>sem_head := remove1 b (sem_head k)\<rparr>) s))"

definition krhino_sem_del :: "oid option \<Rightarrow> kstate \<Rightarrow> (kstat \<times> kstate) outcome" where
  "krhino_sem_del sem s =
     (case sem of
        None \<Rightarrow> Inr (RHINO_NULL_PTR, s)
      | Some b \<Rightarrow>
          if g_intrpt_nested_level s > 0 then Inr (RHINO_NOT_CALLED_BY_INTRPT, s)
          else if obj_type (blks s b) \<noteq> RHINO_SEM_OBJ_TYPE then Inr (RHINO_KOBJ_TYPE_ERR, s)
          else if sem_alloc_flag (sems s b) \<noteq> K_OBJ_STATIC_ALLOC then Inr (RHINO_KOBJ_DEL_ERR, s)
          else sem_del_body b s)"

text \<open>The third component of the result is what is stored at \<open>*sem\<close>, if anything.\<close>

definition krhino_sem_dyn_create ::
  "bool \<Rightarrow> oid option \<Rightarrow> string option \<Rightarrow> 32 word \<Rightarrow> kstate \<Rightarrow> kstat \<times> oid option \<times> kstate" where
  "krhino_sem_dyn_create sem_null alloc name cnt s =
     (if sem_null then (RHINO_NULL_PTR, None, s)
      else if alloc = None then (RHINO_NO_MEM, None, s)
      else (case sem_create alloc name cnt K_OBJ_DYN_ALLOC s of
              (stat, s) \<Rightarrow> if stat \<noteq> RHINO_SUCCESS then (stat, None, s) else (stat, alloc, s)))"

definition krhino_sem_dyn_del :: "oid option \<Rightarrow> kstate \<Rightarrow> (kstat \<times> kstate) outcome" where
  "krhino_sem_dyn_del sem s =
     (case sem of
        None \<Rightarrow> Inr (RHINO_NULL_PTR, s)
      | Some b \<Rightarrow>
          if g_intrpt_nested_level s > 0 then Inr (RHINO_NOT_CALLED_BY_INTRPT, s)
          else if obj_type (blks s b) \<noteq> RHINO_SEM_OBJ_TYPE then Inr (RHINO_KOBJ_TYPE_ERR, s)
          else if sem_alloc_flag (sems s b) \<noteq> K_OBJ_DYN_ALLOC then Inr (RHINO_KOBJ_DEL_ERR, s)
          else sem_del_body b s)"

definition sem_give :: "oid \<Rightarrow> bool \<Rightarrow> kstate \<Rightarrow> (kstat \<times> kstate) outcome" where
  "sem_give b opt_wake_all s =
     (if obj_type (blks s b) \<noteq> RHINO_SEM_OBJ_TYPE then Inr (RHINO_KOBJ_TYPE_ERR, s)
      else (case blk_list (blks s b) of
              [] \<Rightarrow>
                if count (sems s b) = -1 then Inr (RHINO_SEM_OVF, s)
                else (let s = upd_sem b (\<lambda>x. x\<lparr>count := count x + 1\<rparr>) s;
                          s = (if count (sems s b) > peak_count (sems s b)
                               then upd_sem b (\<lambda>x. x\<lparr>peak_count := count x\<rparr>) s else s)
                      in Inr (RHINO_SUCCESS, s))
            | t # _ \<Rightarrow>
                bnd (if opt_wake_all then pend_wakeup_all (\<lambda>t s. s) b s else pend_task_wakeup t s)
                  (exit_sched RHINO_SUCCESS)))"

definition krhino_sem_give :: "oid option \<Rightarrow> kstate \<Rightarrow> (kstat \<times> kstate) outcome" where
  "krhino_sem_give sem s =
     (case sem of None \<Rightarrow> Inr (RHINO_NULL_PTR, s) | Some b \<Rightarrow> sem_give b False s)"

definition krhino_sem_give_all :: "oid option \<Rightarrow> kstate \<Rightarrow> (kstat \<times> kstate) outcome" where
  "krhino_sem_give_all sem s =
     (case sem of None \<Rightarrow> Inr (RHINO_NULL_PTR, s) | Some b \<Rightarrow> sem_give b True s)"

definition krhino_sem_take :: "oid option \<Rightarrow> tick \<Rightarrow> kstate \<Rightarrow> (kret \<times> kstate) outcome" where
  "krhino_sem_take sem ticks s =
     (case sem of
        None \<Rightarrow> Inr (Ret RHINO_NULL_PTR, s)
      | Some b \<Rightarrow>
          if g_intrpt_nested_level s > 0 then Inr (Ret RHINO_NOT_CALLED_BY_INTRPT, s)
          else if obj_type (blks s b) \<noteq> RHINO_SEM_OBJ_TYPE then Inr (Ret RHINO_KOBJ_TYPE_ERR, s)
          else if count (sems s b) > 0
          then Inr (Ret RHINO_SUCCESS, upd_sem b (\<lambda>x. x\<lparr>count := count x - 1\<rparr>) s)
          else if ticks = RHINO_NO_WAIT then Inr (Ret RHINO_NO_PEND_WAIT, s)
          else if g_sched_lock s > 0 then Inr (Ret RHINO_SCHED_DISABLE, s)
          else block_active b ticks s)"

definition krhino_sem_count_set :: "oid option \<Rightarrow> 32 word \<Rightarrow> kstate \<Rightarrow> kstat \<times> kstate" where
  "krhino_sem_count_set sem sem_count s =
     (case sem of
        None \<Rightarrow> (RHINO_NULL_PTR, s)
      | Some b \<Rightarrow>
          if g_intrpt_nested_level s > 0 then (RHINO_NOT_CALLED_BY_INTRPT, s)
          else if obj_type (blks s b) \<noteq> RHINO_SEM_OBJ_TYPE then (RHINO_KOBJ_TYPE_ERR, s)
          else if \<not> count (sems s b) > 0 \<and> blk_list (blks s b) \<noteq> [] then (RHINO_SEM_TASK_WAITING, s)
          else (let s = upd_sem b (\<lambda>x. x\<lparr>count := sem_count\<rparr>) s;
                    s = (if count (sems s b) > peak_count (sems s b)
                         then upd_sem b (\<lambda>x. x\<lparr>peak_count := count x\<rparr>) s else s)
                in (RHINO_SUCCESS, s)))"

definition krhino_sem_count_get :: "oid option \<Rightarrow> bool \<Rightarrow> kstate \<Rightarrow> kstat \<times> 32 word option" where
  "krhino_sem_count_get sem cnt_null s =
     (case sem of
        None \<Rightarrow> (RHINO_NULL_PTR, None)
      | Some b \<Rightarrow> if cnt_null then (RHINO_NULL_PTR, None) else (RHINO_SUCCESS, Some (count (sems s b))))"

section \<open>The semaphore of a task\<close>

definition krhino_task_sem_create ::
  "tid option \<Rightarrow> oid option \<Rightarrow> string option \<Rightarrow> 32 word \<Rightarrow> kstate \<Rightarrow> kstat \<times> kstate" where
  "krhino_task_sem_create task sem name cnt s =
     (case task of
        None \<Rightarrow> (RHINO_NULL_PTR, s)
      | Some t \<Rightarrow>
          (case krhino_sem_create sem name cnt s of
             (ret, s) \<Rightarrow>
               (ret, upd_task t (\<lambda>k. k\<lparr>task_sem_obj := (if ret = RHINO_SUCCESS then sem else None)\<rparr>) s)))"

definition krhino_task_sem_del :: "tid option \<Rightarrow> kstate \<Rightarrow> (kstat \<times> kstate) outcome" where
  "krhino_task_sem_del task s =
     (case task of None \<Rightarrow> Inr (RHINO_NULL_PTR, s) | Some t \<Rightarrow> krhino_sem_del (task_sem_obj (tasks s t)) s)"

definition krhino_task_sem_give :: "tid option \<Rightarrow> kstate \<Rightarrow> (kstat \<times> kstate) outcome" where
  "krhino_task_sem_give task s =
     (case task of None \<Rightarrow> Inr (RHINO_NULL_PTR, s) | Some t \<Rightarrow> krhino_sem_give (task_sem_obj (tasks s t)) s)"

definition krhino_task_sem_take :: "tick \<Rightarrow> kstate \<Rightarrow> (kret \<times> kstate) outcome" where
  "krhino_task_sem_take ticks s =
     bnd (active s) (\<lambda>a. krhino_sem_take (task_sem_obj (tasks s a)) ticks s)"

definition krhino_task_sem_count_set :: "tid option \<Rightarrow> 32 word \<Rightarrow> kstate \<Rightarrow> kstat \<times> kstate" where
  "krhino_task_sem_count_set task cnt s =
     (case task of None \<Rightarrow> (RHINO_NULL_PTR, s) | Some t \<Rightarrow> krhino_sem_count_set (task_sem_obj (tasks s t)) cnt s)"

definition krhino_task_sem_count_get :: "tid option \<Rightarrow> bool \<Rightarrow> kstate \<Rightarrow> kstat \<times> 32 word option" where
  "krhino_task_sem_count_get task cnt_null s =
     (case task of None \<Rightarrow> (RHINO_NULL_PTR, None)
      | Some t \<Rightarrow> krhino_sem_count_get (task_sem_obj (tasks s t)) cnt_null s)"

section \<open>Abstract semaphores\<close>

text \<open>A semaphore is its count and its queue of waiters, the highest priority first.\<close>

type_synonym sem_view = "nat \<times> tid list"

definition sem_abs :: "kstate \<Rightarrow> oid \<Rightarrow> sem_view" where
  "sem_abs s b = (unat (count (sems s b)), bl s b)"

definition sem_give_spec :: "sem_view \<Rightarrow> kstat \<times> sem_view" where
  "sem_give_spec v =
     (case v of
        (n, []) \<Rightarrow> if n = 2 ^ 32 - 1 then (RHINO_SEM_OVF, v) else (RHINO_SUCCESS, (n + 1, []))
      | (n, t # ts) \<Rightarrow> (RHINO_SUCCESS, (n, ts)))"

definition sem_take_spec :: "tid \<Rightarrow> (tid \<Rightarrow> nat) \<Rightarrow> bool \<Rightarrow> bool \<Rightarrow> sem_view \<Rightarrow> kret \<times> sem_view" where
  "sem_take_spec a p no_wait locked v =
     (case v of
        (n, ts) \<Rightarrow>
          if n > 0 then (Ret RHINO_SUCCESS, (n - 1, ts))
          else if no_wait then (Ret RHINO_NO_PEND_WAIT, v)
          else if locked then (Ret RHINO_SCHED_DISABLE, v)
          else (Pending, (0, insert_before (\<lambda>u. p u > p a) a ts)))"

text \<open>A semaphore in use: tasks wait only when the count is zero, and the peak bounds the count.\<close>

definition sem_ok :: "kstate \<Rightarrow> oid \<Rightarrow> bool" where
  "sem_ok s b \<longleftrightarrow> ty s b = RHINO_SEM_OBJ_TYPE \<and> pol s b = BLK_POLICY_PRI \<and>
     (bl s b \<noteq> [] \<longrightarrow> count (sems s b) = 0) \<and> count (sems s b) \<le> peak_count (sems s b)"

lemma ex_sem_ok: "sem_ok ex_state 7" "sem_ok ex_state 12"
  by (simp_all add: sem_ok_def)

lemma sem_upd_same_sched [simp]: "same_sched s (upd_sem b f s)"
  by (simp add: same_sched_def upd_sem_def view_defs fun_eq_iff)

lemma sem_upd_views [simp]:
  "bl (upd_sem b f s) = bl s" "ty (upd_sem b f s) = ty s" "pol (upd_sem b f s) = pol s"
  "sems (upd_sem b f s) = (sems s)(b := f (sems s b))" "tasks (upd_sem b f s) = tasks s" "st (upd_sem b f s) = st s"
  by (simp_all add: upd_sem_def view_defs fun_eq_iff)

lemma kernel_inv_upd_sem [simp]: "kernel_inv (upd_sem b f s) = kernel_inv s"
  by (rule same_sched_inv) simp

lemma unat_minus_1_32: "unat (-1 :: 32 word) = 2 ^ 32 - 1"
  by (simp add: unat_eq_nat_uint uint_word_ariths)

lemma sem_give_wake:
  assumes inv: "kernel_inv s" and ok: "sem_ok s b" and l: "bl s b = t # ts"
  shows "ok (krhino_sem_give (Some b) s) (\<lambda>(r, s'). r = RHINO_SUCCESS \<and> kernel_inv s' \<and>
    (\<exists>q. sched_done (wake_result BLK_FINISH t q s) s'))"
proof -
  obtain q where q: "pend_task_end BLK_FINISH t s = Inr (wake_result BLK_FINISH t q s)"
    "kernel_inv (wake_result BLK_FINISH t q s)"
    using kernel_wake_ok [OF inv, of t b] l by auto
  have "ok (exit_sched RHINO_SUCCESS (wake_result BLK_FINISH t q s)) (\<lambda>(r, s'). r = RHINO_SUCCESS \<and> kernel_inv s' \<and>
      sched_done (wake_result BLK_FINISH t q s) s')"
    using q(2) by (intro exit_sched_inv) (auto simp: kernel_inv_def)
  then show ?thesis
    using q(1) l ok by (auto simp: krhino_sem_give_def sem_give_def pend_task_wakeup_def sem_ok_def ok_iff
        bl_def [symmetric] ty_def [symmetric])
qed

text \<open>
  C8. Giving a semaphore refines the abstract semaphore: with no waiter the count goes up by one, or
  the call fails with \<open>RHINO_SEM_OVF\<close> and changes nothing when the count is at its maximum; with
  waiters the count stays and the first one, of the highest priority, is woken with status
  \<open>BLK_FINISH\<close>. The call always returns and the kernel invariant is kept.
\<close>

theorem sem_give_refines:
  assumes "kernel_inv s" "sem_ok s b"
  shows "ok (krhino_sem_give (Some b) s) (\<lambda>(r, s'). kernel_inv s' \<and> sem_ok s' b \<and>
    (r, sem_abs s' b) = sem_give_spec (sem_abs s b) \<and>
    (\<forall>t ts. bl s b = t # ts \<longrightarrow> (\<forall>u \<in> set ts. pri s t \<le> pri s u) \<and> st s' t = woken (st s t) \<and>
       t_blk_state (tasks s' t) = BLK_FINISH) \<and>
    (r = RHINO_SEM_OVF \<longrightarrow> s' = s))"
proof (cases "bl s b")
  case Nil
  have "unat (count (sems s b)) = 2 ^ 32 - 1 \<longleftrightarrow> count (sems s b) = -1"
    using unat_minus_1_32 by (simp add: word_unat_eq_iff)
  moreover have "unat (count (sems s b) + 1) = unat (count (sems s b)) + 1" if "count (sems s b) \<noteq> -1"
    using unatSuc [of "count (sems s b)"] that by (simp add: add.commute eq_neg_iff_add_eq_0)
  ultimately show ?thesis
    using Nil assms by (auto simp: krhino_sem_give_def sem_give_def sem_ok_def sem_abs_def sem_give_spec_def Let_def
        bl_def [symmetric] ty_def [symmetric] not_less)
next
  case (Cons t ts)
  have k: "kinv (live s) s" using assms(1) by (simp add: kernel_inv_def struct_inv_def)
  have o: "sorted (map (pri s) (bl s b))"
    using core_invD(5) [OF k [unfolded kinv_def], of b] assms(2) by (simp add: sem_ok_def)
  obtain s' q where g: "krhino_sem_give (Some b) s = Inr (RHINO_SUCCESS, s')" "kernel_inv s'"
    and d: "sched_done (wake_result BLK_FINISH t q s) s'"
    using sem_give_wake [OF assms Cons] by (auto simp: ok_iff)
  show ?thesis
    using assms(2) Cons o g(2) unfolding g(1)
    by (auto simp: sched_done_frame [OF d] sem_ok_def sem_abs_def sem_give_spec_def woken_def)
qed

theorem sem_give_refines_witness:
  "ok (krhino_sem_give (Some 7) ex_state) (\<lambda>(r, s'). kernel_inv s' \<and> r = RHINO_SUCCESS \<and> sem_abs s' 7 = (0, []) \<and>
     st s' 6 = K_RDY)"
  by (rule ok_mono [OF sem_give_refines [OF ex_kernel_inv ex_sem_ok(1)]])
    (auto simp: sem_abs_def sem_give_spec_def woken_def)

text \<open>
  C9. Taking a semaphore from a task refines the abstract semaphore: a positive count is decremented;
  a count of zero gives \<open>RHINO_NO_PEND_WAIT\<close> or \<open>RHINO_SCHED_DISABLE\<close> without any change, or blocks the
  caller in the order of priorities and lets the best ready task run. The call always comes to the
  context switch or returns, and the kernel invariant is kept.
\<close>

theorem sem_take_refines:
  assumes "kernel_inv s" "sem_ok s b" "g_intrpt_nested_level s = 0" "g_active_task s = Some a" "a \<noteq> g_idle_task"
    "ticks = RHINO_NO_WAIT \<or> good_timeout ticks"
  shows "ok (krhino_sem_take (Some b) ticks s) (\<lambda>(r, s'). kernel_inv s' \<and> sem_ok s' b \<and>
    (r, sem_abs s' b) = sem_take_spec a (pri s) (ticks = RHINO_NO_WAIT) (g_sched_lock s > 0) (sem_abs s b) \<and>
    (r = Pending \<longrightarrow> st s' a = K_PEND \<and> bo s' a = Some b \<and>
       (\<exists>t. g_active_task s' = Some t \<and> best_ready (live s') s' t)) \<and>
    (r \<noteq> Pending \<longrightarrow> g_active_task s' = Some a \<and> tasks s' = tasks s))"
proof (cases "count (sems s b) = 0 \<and> ticks \<noteq> RHINO_NO_WAIT \<and> g_sched_lock s = 0")
  case True
  have m: "ty s b \<noteq> RHINO_MUTEX_OBJ_TYPE" using assms(2) by (simp add: sem_ok_def)
  obtain s' q where s': "block_active b ticks s = Inr (Pending, s')" "kernel_inv s'"
    and d: "sched_done (block_result b a ticks q s) s'"
    using block_active_ok [OF assms(1,4,5), of ticks b] m assms(3) True assms(6) by (auto simp: ok_iff)
  have "krhino_sem_take (Some b) ticks s = Inr (Pending, s')"
    using True assms(2,3) s'(1) by (simp add: krhino_sem_take_def sem_ok_def ty_def)
  then show ?thesis
    using True assms(2,3) s'(2) sched_done_active [OF d]
    by (simp add: sched_done_frame [OF d] sem_ok_def sem_abs_def sem_take_spec_def)
next
  case False
  have "unat (count (sems s b) - 1) = unat (count (sems s b)) - 1" if "count (sems s b) \<noteq> 0"
    using that by (simp add: unat_minus_one)
  moreover have "count (sems s b) - 1 \<le> peak_count (sems s b)" if "count (sems s b) \<noteq> 0"
    using that assms(2) by (auto simp: sem_ok_def word_le_nat_alt unat_minus_one)
  moreover have "g_active_task (upd_sem b f s) = g_active_task s" for f by (simp add: upd_sem_def)
  ultimately show ?thesis
    using False assms by (auto simp: krhino_sem_take_def sem_ok_def sem_abs_def sem_take_spec_def word_gt_0
        ty_def [symmetric] unat_gt_0)
qed

theorem sem_take_refines_witness:
  "ok (krhino_sem_take (Some 7) 20 ex_state) (\<lambda>(r, s'). kernel_inv s' \<and> r = Pending \<and> sem_abs s' 7 = (0, [5, 6]) \<and>
     st s' 5 = K_PEND)"
proof -
  have "g_active_task ex_state = Some 5" "5 \<noteq> g_idle_task" "good_timeout 20"
    by (simp_all add: g_idle_task_def good_timeout_def)
  then show ?thesis
    using sem_take_refines [OF ex_kernel_inv ex_sem_ok(1), of 5 20]
    by (auto simp: ok_iff sem_abs_def sem_take_spec_def RHINO_NO_WAIT_def)
qed

text \<open>
  C30. Giving to all waiters empties the queue: every waiting task is woken with status \<open>BLK_FINISH\<close> (one
  that is suspended as well stays suspended), no other task changes, and the loop ends.
\<close>

theorem sem_give_all_wakes:
  assumes "kernel_inv s" "sem_ok s b" "bl s b \<noteq> []"
  shows "ok (krhino_sem_give_all (Some b) s) (\<lambda>(r, s'). r = RHINO_SUCCESS \<and> kernel_inv s' \<and> sem_ok s' b \<and>
    sem_abs s' b = (fst (sem_abs s b), []) \<and>
    (\<forall>t \<in> set (bl s b). st s' t = woken (st s t) \<and> t_blk_state (tasks s' t) = BLK_FINISH) \<and>
    (\<forall>t. t \<notin> set (bl s b) \<longrightarrow> tasks s' t = tasks s t))"
proof -
  obtain w where w: "pend_wakeup_all (\<lambda>t s. s) b s = Inr w" "kernel_inv w" "released BLK_FINISH b s w"
    using pend_wakeup_all_ok [OF assms(1), of "\<lambda>k. k" "\<lambda>t s. s" b]
    by (auto simp: neutral_def upd_task_def ok_iff)
  obtain s' where s': "exit_sched RHINO_SUCCESS w = Inr (RHINO_SUCCESS, s')" "kernel_inv s'" and d: "sched_done w s'"
    using exit_sched_inv [of w RHINO_SUCCESS] w(2) by (auto simp: kernel_inv_def ok_iff)
  have "krhino_sem_give_all (Some b) s = Inr (RHINO_SUCCESS, s')"
    using w(1) s'(1) assms(2,3) by (auto simp: krhino_sem_give_all_def sem_give_def sem_ok_def ty_def bl_def split: list.split)
  then show ?thesis
    using s'(2) assms(2,3) w(3)
    by (simp add: sched_done_frame [OF d] released_def same_rest_def sem_ok_def sem_abs_def)
qed

theorem sem_give_all_wakes_witness:
  "ok (krhino_sem_give_all (Some 7) ex_state) (\<lambda>(r, s'). kernel_inv s' \<and> sem_abs s' 7 = (0, []) \<and> st s' 6 = K_RDY)"
  by (rule ok_mono [OF sem_give_all_wakes [OF ex_kernel_inv ex_sem_ok(1)]]) (auto simp: sem_abs_def woken_def)

text \<open>
  Deleting a static semaphore releases every waiter with status \<open>BLK_DEL\<close>, takes the object off the
  list of semaphores and makes later calls on it fail with \<open>RHINO_KOBJ_TYPE_ERR\<close>.
\<close>

theorem sem_del_releases:
  assumes "kernel_inv s" "sem_ok s b" "g_intrpt_nested_level s = 0" "sem_alloc_flag (sems s b) = K_OBJ_STATIC_ALLOC"
  shows "ok (krhino_sem_del (Some b) s) (\<lambda>(r, s'). r = RHINO_SUCCESS \<and> kernel_inv s' \<and> bl s' b = [] \<and>
    (\<forall>t \<in> set (bl s b). st s' t = woken (st s t) \<and> t_blk_state (tasks s' t) = BLK_DEL) \<and>
    sem_head (g_kobj_list s') = remove1 b (sem_head (g_kobj_list s)) \<and>
    krhino_sem_give (Some b) s' = Inr (RHINO_KOBJ_TYPE_ERR, s') \<and>
    krhino_sem_take (Some b) ticks s' = Inr (Ret RHINO_KOBJ_TYPE_ERR, s'))"
proof -
  let ?s = "upd_blk b (\<lambda>ob. ob\<lparr>obj_type := RHINO_OBJ_TYPE_NONE\<rparr>) s"
  have i: "kernel_inv ?s"
    by (rule kernel_inv_ty [OF assms(1)]) (use assms(2) in \<open>auto simp: sem_ok_def\<close>)
  obtain w where w: "pend_rm_all b ?s = Inr w" "kernel_inv w" "released BLK_DEL b ?s w"
    using pend_rm_all_ok [OF i, of b] by (auto simp: ok_iff)
  let ?w = "upd_kobj (\<lambda>k. k\<lparr>sem_head := remove1 b (sem_head k)\<rparr>) w"
  have "kernel_inv ?w" using same_sched_inv [of w ?w] w(2) by (simp add: same_sched_def upd_kobj_def view_defs fun_eq_iff)
  then obtain s' where s': "exit_sched RHINO_SUCCESS ?w = Inr (RHINO_SUCCESS, s')" "kernel_inv s'" and d: "sched_done ?w s'"
    using exit_sched_inv [of ?w RHINO_SUCCESS] by (auto simp: kernel_inv_def ok_iff)
  have "krhino_sem_del (Some b) s = Inr (RHINO_SUCCESS, s')"
    using w(1) s'(1) assms(2,3,4) by (simp add: krhino_sem_del_def sem_del_body_def sem_ok_def ty_def)
  moreover have "ty s' b = RHINO_OBJ_TYPE_NONE" "g_intrpt_nested_level s' = 0"
    using w(3) assms(3) by (simp_all add: sched_done_frame [OF d] released_def same_rest_def)
  ultimately show ?thesis
    using s'(2) w(3) by (simp add: sched_done_frame [OF d] released_def same_rest_def
        krhino_sem_give_def sem_give_def krhino_sem_take_def ty_def)
qed

theorem sem_del_releases_witness:
  "ok (krhino_sem_del (Some 7) ex_state) (\<lambda>(r, s'). kernel_inv s' \<and> t_blk_state (tasks s' 6) = BLK_DEL \<and>
     krhino_sem_take (Some 7) 0 s' = Inr (Ret RHINO_KOBJ_TYPE_ERR, s'))"
  by (rule ok_mono [OF sem_del_releases [OF ex_kernel_inv ex_sem_ok(1)]]) auto

end
