(* ===== verification/Mutex.thy ===== *)
theory Mutex
  imports PriInv
begin

text \<open>
  Mutexes with owner nesting and priority inheritance (\<^verbatim>\<open>k_mutex.c\<close>). The chain
  \<open>mutex->mutex_list\<close> of the mutexes a task holds is the list \<open>t_mutex_list\<close> of that task.
\<close>

definition upd_mutex :: "oid \<Rightarrow> (kmutex \<Rightarrow> kmutex) \<Rightarrow> kstate \<Rightarrow> kstate" where
  "upd_mutex b f s = s\<lparr>mutexes := (mutexes s)(b := f (mutexes s b))\<rparr>"

definition mutex_create :: "oid option \<Rightarrow> string option \<Rightarrow> 8 word \<Rightarrow> kstate \<Rightarrow> kstat \<times> kstate" where
  "mutex_create mutex name mm_alloc_flag s =
     (case mutex of
        None \<Rightarrow> (RHINO_NULL_PTR, s)
      | Some b \<Rightarrow>
          if name = None then (RHINO_NULL_PTR, s)
          else (let s = upd_blk b (\<lambda>ob. ob\<lparr>blk_list := [], blk_policy := BLK_POLICY_PRI, blk_name := name\<rparr>) s;
                    s = upd_mutex b (\<lambda>x. x\<lparr>mutex_task := None, mutex_alloc_flag := mm_alloc_flag\<rparr>) s;
                    s = upd_kobj (\<lambda>k. k\<lparr>mutex_head := mutex_head k @ [b]\<rparr>) s;
                    s = upd_blk b (\<lambda>ob. ob\<lparr>obj_type := RHINO_MUTEX_OBJ_TYPE\<rparr>) s
                in (RHINO_SUCCESS, s)))"

definition krhino_mutex_create :: "oid option \<Rightarrow> string option \<Rightarrow> kstate \<Rightarrow> kstat \<times> kstate" where
  "krhino_mutex_create mutex name s = mutex_create mutex name K_OBJ_STATIC_ALLOC s"

definition mutex_del_body :: "oid \<Rightarrow> kstate \<Rightarrow> (kstat \<times> kstate) outcome" where
  "mutex_del_body b s =
     (let s = upd_blk b (\<lambda>ob. ob\<lparr>obj_type := RHINO_OBJ_TYPE_NONE\<rparr>) s
      in bnd (case mutex_task (mutexes s b) of
                None \<Rightarrow> Inr s
              | Some owner \<Rightarrow> mutex_release owner (Some b) s) (\<lambda>s.
         bnd (pend_rm_all b s) (\<lambda>s.
           exit_sched RHINO_SUCCESS (upd_kobj (\<lambda>k. k\<lparr>mutex_head := remove1 b (mutex_head k)\<rparr>) s))))"

definition krhino_mutex_del :: "oid option \<Rightarrow> kstate \<Rightarrow> (kstat \<times> kstate) outcome" where
  "krhino_mutex_del mutex s =
     (case mutex of
        None \<Rightarrow> Inr (RHINO_NULL_PTR, s)
      | Some b \<Rightarrow>
          if g_intrpt_nested_level s > 0 then Inr (RHINO_NOT_CALLED_BY_INTRPT, s)
          else if obj_type (blks s b) \<noteq> RHINO_MUTEX_OBJ_TYPE then Inr (RHINO_KOBJ_TYPE_ERR, s)
          else if mutex_alloc_flag (mutexes s b) \<noteq> K_OBJ_STATIC_ALLOC then Inr (RHINO_KOBJ_DEL_ERR, s)
          else mutex_del_body b s)"

definition krhino_mutex_dyn_create ::
  "bool \<Rightarrow> oid option \<Rightarrow> string option \<Rightarrow> kstate \<Rightarrow> kstat \<times> oid option \<times> kstate" where
  "krhino_mutex_dyn_create mutex_null alloc name s =
     (if mutex_null then (RHINO_NULL_PTR, None, s)
      else if alloc = None then (RHINO_NO_MEM, None, s)
      else (case mutex_create alloc name K_OBJ_DYN_ALLOC s of
              (stat, s) \<Rightarrow> if stat \<noteq> RHINO_SUCCESS then (stat, None, s) else (stat, alloc, s)))"

definition krhino_mutex_dyn_del :: "oid option \<Rightarrow> kstate \<Rightarrow> (kstat \<times> kstate) outcome" where
  "krhino_mutex_dyn_del mutex s =
     (case mutex of
        None \<Rightarrow> Inr (RHINO_NULL_PTR, s)
      | Some b \<Rightarrow>
          if g_intrpt_nested_level s > 0 then Inr (RHINO_NOT_CALLED_BY_INTRPT, s)
          else if obj_type (blks s b) \<noteq> RHINO_MUTEX_OBJ_TYPE then Inr (RHINO_KOBJ_TYPE_ERR, s)
          else if mutex_alloc_flag (mutexes s b) \<noteq> K_OBJ_DYN_ALLOC then Inr (RHINO_KOBJ_DEL_ERR, s)
          else mutex_del_body b s)"

text \<open>Making a task the owner: the mutex is pushed on the task's chain.\<close>

definition mutex_own :: "oid \<Rightarrow> tid \<Rightarrow> kstate \<Rightarrow> kstate" where
  "mutex_own b t s =
     upd_task t (\<lambda>k. k\<lparr>t_mutex_list := b # t_mutex_list k\<rparr>) (upd_mutex b (\<lambda>x. x\<lparr>mutex_task := Some t\<rparr>) s)"

definition krhino_mutex_lock :: "oid option \<Rightarrow> tick \<Rightarrow> kstate \<Rightarrow> (kret \<times> kstate) outcome" where
  "krhino_mutex_lock mutex ticks s =
     (case mutex of
        None \<Rightarrow> Inr (Ret RHINO_NULL_PTR, s)
      | Some b \<Rightarrow>
          if g_sys_stat s = RHINO_STOPPED then Inr (Ret RHINO_SUCCESS, s)
          else if g_intrpt_nested_level s > 0 then Inr (Ret RHINO_NOT_CALLED_BY_INTRPT, s)
          else if obj_type (blks s b) \<noteq> RHINO_MUTEX_OBJ_TYPE then Inr (Ret RHINO_KOBJ_TYPE_ERR, s)
          else if g_active_task s = mutex_task (mutexes s b)
          then (if owner_nested (mutexes s b) = -1 then k_err_proc RHINO_MUTEX_NESTED_OVF
                else Inr (Ret RHINO_MUTEX_OWNER_NESTED,
                          upd_mutex b (\<lambda>x. x\<lparr>owner_nested := owner_nested x + 1\<rparr>) s))
          else (case mutex_task (mutexes s b) of
                  None \<Rightarrow>
                    bnd (active s) (\<lambda>a.
                      Inr (Ret RHINO_SUCCESS, upd_mutex b (\<lambda>x. x\<lparr>owner_nested := 1\<rparr>) (mutex_own b a s)))
                | Some owner \<Rightarrow>
                    if ticks = RHINO_NO_WAIT then Inr (Ret RHINO_NO_PEND_WAIT, s)
                    else if g_sched_lock s > 0 then Inr (Ret RHINO_SCHED_DISABLE, s)
                    else bnd (active s) (\<lambda>a.
                         bnd (if pri s a < pri s owner
                              then bnd (task_pri_change owner (pri s a) s) (\<lambda>(e, s). Inr s)
                              else Inr s) (\<lambda>s.
                         block_active b ticks s))))"

definition krhino_mutex_unlock :: "oid option \<Rightarrow> kstate \<Rightarrow> (kstat \<times> kstate) outcome" where
  "krhino_mutex_unlock mutex s =
     (case mutex of
        None \<Rightarrow> Inr (RHINO_NULL_PTR, s)
      | Some b \<Rightarrow>
          if g_sys_stat s = RHINO_STOPPED then Inr (RHINO_SUCCESS, s)
          else if g_intrpt_nested_level s > 0 then Inr (RHINO_NOT_CALLED_BY_INTRPT, s)
          else if obj_type (blks s b) \<noteq> RHINO_MUTEX_OBJ_TYPE then Inr (RHINO_KOBJ_TYPE_ERR, s)
          else if g_active_task s \<noteq> mutex_task (mutexes s b)
          then Inr (RHINO_MUTEX_NOT_RELEASED_BY_OWNER, s)
          else (let s = upd_mutex b (\<lambda>x. x\<lparr>owner_nested := owner_nested x - 1\<rparr>) s
                in if owner_nested (mutexes s b) > 0 then Inr (RHINO_MUTEX_OWNER_NESTED, s)
                   else bnd (active s) (\<lambda>a.
                        bnd (mutex_release a (Some b) s) (\<lambda>s.
                          case blk_list (blks s b) of
                            [] \<Rightarrow> Inr (RHINO_SUCCESS, upd_mutex b (\<lambda>x. x\<lparr>mutex_task := None\<rparr>) s)
                          | t # _ \<Rightarrow>
                              bnd (pend_task_wakeup t s) (\<lambda>s.
                                exit_sched RHINO_SUCCESS
                                  (upd_mutex b (\<lambda>x. x\<lparr>owner_nested := 1\<rparr>) (mutex_own b t s)))))))"

section \<open>The invariant around a change of owner\<close>

text \<open>The chains and owners of all mutexes but \<open>b\<close>, which is on no chain.\<close>

definition mutex_ok_but :: "oid \<Rightarrow> tid set \<Rightarrow> kstate \<Rightarrow> bool" where
  "mutex_ok_but b L s \<longleftrightarrow>
     (\<forall>c. c \<noteq> b \<and> ty s c = RHINO_MUTEX_OBJ_TYPE \<and> bl s c \<noteq> [] \<longrightarrow> own s c \<noteq> None) \<and>
     (\<forall>c t. c \<noteq> b \<and> ty s c = RHINO_MUTEX_OBJ_TYPE \<and> own s c = Some t \<longrightarrow>
        t \<in> L \<and> t \<noteq> g_idle_task \<and> c \<in> set (held s t)) \<and>
     (\<forall>t \<in> L. distinct (held s t) \<and> b_prio (tasks s t) < 62) \<and>
     (\<forall>t \<in> L. \<forall>c \<in> set (held s t). c \<noteq> b \<and> own s c = Some t \<and> ty s c = RHINO_MUTEX_OBJ_TYPE)"

lemma mutex_ok_butD:
  assumes "mutex_ok_but b L s"
  shows "\<And>c. c \<noteq> b \<Longrightarrow> ty s c = RHINO_MUTEX_OBJ_TYPE \<Longrightarrow> bl s c \<noteq> [] \<Longrightarrow> own s c \<noteq> None"
    "\<And>c t. c \<noteq> b \<Longrightarrow> ty s c = RHINO_MUTEX_OBJ_TYPE \<Longrightarrow> own s c = Some t \<Longrightarrow>
       t \<in> L \<and> t \<noteq> g_idle_task \<and> c \<in> set (held s t)"
    "\<And>t. t \<in> L \<Longrightarrow> distinct (held s t) \<and> b_prio (tasks s t) < 62"
    "\<And>t c. t \<in> L \<Longrightarrow> c \<in> set (held s t) \<Longrightarrow> c \<noteq> b \<and> own s c = Some t \<and> ty s c = RHINO_MUTEX_OBJ_TYPE"
  using assms unfolding mutex_ok_but_def by blast+

lemma mutex_ok_butI:
  assumes "\<And>c. c \<noteq> b \<Longrightarrow> ty s c = RHINO_MUTEX_OBJ_TYPE \<Longrightarrow> bl s c \<noteq> [] \<Longrightarrow> own s c \<noteq> None"
    "\<And>c t. c \<noteq> b \<Longrightarrow> ty s c = RHINO_MUTEX_OBJ_TYPE \<Longrightarrow> own s c = Some t \<Longrightarrow>
       t \<in> L \<and> t \<noteq> g_idle_task \<and> c \<in> set (held s t)"
    "\<And>t. t \<in> L \<Longrightarrow> distinct (held s t) \<and> b_prio (tasks s t) < 62"
    "\<And>t c. t \<in> L \<Longrightarrow> c \<in> set (held s t) \<Longrightarrow> c \<noteq> b \<and> own s c = Some t \<and> ty s c = RHINO_MUTEX_OBJ_TYPE"
  shows "mutex_ok_but b L s"
  using assms unfolding mutex_ok_but_def by blast

lemma mutex_ok_but_free:
  assumes "mutex_ok L s" "own s b = None"
  shows "mutex_ok_but b L s"
proof -
  note d = mutex_okD [OF assms(1)]
  have "c \<noteq> b" if "t \<in> L" "c \<in> set (held s t)" for t c using d(4) [OF that] assms(2) by auto
  then show ?thesis by (intro mutex_ok_butI) (use d in blast)+
qed

lemma mutex_ok_but_unchain:
  assumes "mutex_ok L s" "own s b = Some a"
  shows "mutex_ok_but b L (unchain (Some b) a s)"
proof -
  note d = mutex_okD [OF assms(1)]
  have h: "c \<noteq> b \<and> c \<in> set (held s t)" if "t \<in> L" "c \<in> set (held (unchain (Some b) a s) t)" for t c
    using that d(4) [of t c] assms(2) by (auto split: if_splits)
  show ?thesis
  proof (rule mutex_ok_butI)
    fix c t assume "c \<noteq> b" "ty (unchain (Some b) a s) c = RHINO_MUTEX_OBJ_TYPE" "own (unchain (Some b) a s) c = Some t"
    then show "t \<in> L \<and> t \<noteq> g_idle_task \<and> c \<in> set (held (unchain (Some b) a s) t)" using d(2) [of c t] by auto
  next
    fix t assume "t \<in> L"
    then show "distinct (held (unchain (Some b) a s) t) \<and> b_prio (tasks (unchain (Some b) a s) t) < 62"
      using d(3) [of t] by auto
  next
    fix t c assume "t \<in> L" "c \<in> set (held (unchain (Some b) a s) t)"
    then show "c \<noteq> b \<and> own (unchain (Some b) a s) c = Some t \<and> ty (unchain (Some b) a s) c = RHINO_MUTEX_OBJ_TYPE"
      using h [of t c] d(4) [of t c] by simp
  qed (use d(1) in simp)
qed

lemma mutex_ok_but_cong:
  assumes "mutex_ok_but b L s" "\<And>c. bl s' c \<noteq> [] \<Longrightarrow> bl s c \<noteq> []" "\<And>c. c \<noteq> b \<Longrightarrow> ty s' c = ty s c" "own s' = own s"
    "held s' = held s" "\<And>u. b_prio (tasks s' u) = b_prio (tasks s u)"
  shows "mutex_ok_but b L s'"
proof (rule mutex_ok_butI, unfold assms(4-6))
  note d = mutex_ok_butD [OF assms(1)]
  fix c t
  show "own s c \<noteq> None" if "c \<noteq> b" "ty s' c = RHINO_MUTEX_OBJ_TYPE" "bl s' c \<noteq> []"
    using d(1) [OF that(1)] that assms(2,3) by simp
  show "t \<in> L \<and> t \<noteq> g_idle_task \<and> c \<in> set (held s t)" if "c \<noteq> b" "ty s' c = RHINO_MUTEX_OBJ_TYPE" "own s c = Some t"
    using d(2) [OF that(1)] that assms(3) by simp
  show "distinct (held s t) \<and> b_prio (tasks s t) < 62" if "t \<in> L" using d(3) [OF that] .
  show "c \<noteq> b \<and> own s c = Some t \<and> ty s' c = RHINO_MUTEX_OBJ_TYPE" if "t \<in> L" "c \<in> set (held s t)"
    using d(4) [OF that] assms(3) by simp
qed

lemma upd_mutex_views [simp]:
  "st (upd_mutex b f s) = st s" "pri (upd_mutex b f s) = pri s" "bo (upd_mutex b f s) = bo s"
  "held (upd_mutex b f s) = held s" "tkh (upd_mutex b f s) = tkh s" "tkm (upd_mutex b f s) = tkm s"
  "bl (upd_mutex b f s) = bl s" "pol (upd_mutex b f s) = pol s" "ty (upd_mutex b f s) = ty s"
  "own (upd_mutex b f s) = (own s)(b := mutex_task (f (mutexes s b)))"
  "tasks (upd_mutex b f s) = tasks s" "g_ready_queue (upd_mutex b f s) = g_ready_queue s"
  "g_tick_head (upd_mutex b f s) = g_tick_head s" "g_tick_count (upd_mutex b f s) = g_tick_count s"
  "g_kobj_list (upd_mutex b f s) = g_kobj_list s" "g_active_task (upd_mutex b f s) = g_active_task s"
  "g_sched_lock (upd_mutex b f s) = g_sched_lock s" "live (upd_mutex b f s) = live s"
  "g_intrpt_nested_level (upd_mutex b f s) = g_intrpt_nested_level s" "rem (upd_mutex b f s) = rem s"
  "mutexes (upd_mutex b f s) = (mutexes s)(b := f (mutexes s b))" "blks (upd_mutex b f s) = blks s"
  by (simp_all add: upd_mutex_def view_defs live_def rem_def fun_eq_iff)

lemma mutex_own_views [simp]:
  "st (mutex_own b t s) = st s" "pri (mutex_own b t s) = pri s" "bo (mutex_own b t s) = bo s"
  "held (mutex_own b t s) = (held s)(t := b # held s t)" "tkh (mutex_own b t s) = tkh s" "tkm (mutex_own b t s) = tkm s"
  "bl (mutex_own b t s) = bl s" "pol (mutex_own b t s) = pol s" "ty (mutex_own b t s) = ty s"
  "own (mutex_own b t s) = (own s)(b := Some t)" "g_ready_queue (mutex_own b t s) = g_ready_queue s"
  "g_tick_head (mutex_own b t s) = g_tick_head s" "g_tick_count (mutex_own b t s) = g_tick_count s"
  "g_kobj_list (mutex_own b t s) = g_kobj_list s" "g_active_task (mutex_own b t s) = g_active_task s"
  "g_sched_lock (mutex_own b t s) = g_sched_lock s" "live (mutex_own b t s) = live s"
  "g_intrpt_nested_level (mutex_own b t s) = g_intrpt_nested_level s" "rem (mutex_own b t s) = rem s"
  "b_prio (tasks (mutex_own b t s) u) = b_prio (tasks s u)"
  "mutexes (mutex_own b t s) = (mutexes s)(b := (mutexes s b)\<lparr>mutex_task := Some t\<rparr>)"
  "t_blk_state (tasks (mutex_own b t s) u) = t_blk_state (tasks s u)"
  by (simp_all add: mutex_own_def view_tasks_upd_task rem_def held_def fun_eq_iff)

lemma mutex_ok_own:
  assumes "mutex_ok_but b L s" "ty s b = RHINO_MUTEX_OBJ_TYPE" "t \<in> L" "t \<noteq> g_idle_task"
  shows "mutex_ok L (upd_mutex b (\<lambda>x. x\<lparr>owner_nested := n\<rparr>) (mutex_own b t s))"
proof -
  note d = mutex_ok_butD [OF assms(1)]
  have o: "own (upd_mutex b (\<lambda>x. x\<lparr>owner_nested := n\<rparr>) (mutex_own b t s)) = (own s)(b := Some t)"
    by (simp add: fun_eq_iff)
  have nb: "b \<notin> set (held s u)" if "u \<in> L" for u using d(4) [OF that] by blast
  show ?thesis
  proof (rule mutex_okI, unfold o)
    fix u c assume u: "u \<in> L" "c \<in> set (held (upd_mutex b (\<lambda>x. x\<lparr>owner_nested := n\<rparr>) (mutex_own b t s)) u)"
    then show "((own s)(b := Some t)) c = Some u \<and> ty (upd_mutex b (\<lambda>x. x\<lparr>owner_nested := n\<rparr>) (mutex_own b t s)) c = RHINO_MUTEX_OBJ_TYPE"
      using d(4) [of u c] nb [of u] assms(2) by (auto split: if_splits)
  next
    fix u assume "u \<in> L"
    then show "distinct (held (upd_mutex b (\<lambda>x. x\<lparr>owner_nested := n\<rparr>) (mutex_own b t s)) u) \<and>
      b_prio (tasks (upd_mutex b (\<lambda>x. x\<lparr>owner_nested := n\<rparr>) (mutex_own b t s)) u) < 62"
      using d(3) nb by auto
  next
    fix c u assume "ty (upd_mutex b (\<lambda>x. x\<lparr>owner_nested := n\<rparr>) (mutex_own b t s)) c = RHINO_MUTEX_OBJ_TYPE"
      "((own s)(b := Some t)) c = Some u"
    then show "u \<in> L \<and> u \<noteq> g_idle_task \<and> c \<in> set (held (upd_mutex b (\<lambda>x. x\<lparr>owner_nested := n\<rparr>) (mutex_own b t s)) u)"
      using d(2) [of c u] assms(3,4) by (cases "c = b") auto
  next
    fix c assume "ty (upd_mutex b (\<lambda>x. x\<lparr>owner_nested := n\<rparr>) (mutex_own b t s)) c = RHINO_MUTEX_OBJ_TYPE"
      "bl (upd_mutex b (\<lambda>x. x\<lparr>owner_nested := n\<rparr>) (mutex_own b t s)) c \<noteq> []"
    then show "((own s)(b := Some t)) c \<noteq> None" using d(1) [of c] by (cases "c = b") auto
  qed
qed

lemma mutex_ok_disown:
  assumes "mutex_ok_but b L s" "bl s b = []"
  shows "mutex_ok L (upd_mutex b (\<lambda>x. x\<lparr>mutex_task := None\<rparr>) s)"
proof -
  note d = mutex_ok_butD [OF assms(1)]
  show ?thesis
  proof (rule mutex_okI)
    fix u c assume "u \<in> L" "c \<in> set (held (upd_mutex b (\<lambda>x. x\<lparr>mutex_task := None\<rparr>) s) u)"
    then show "own (upd_mutex b (\<lambda>x. x\<lparr>mutex_task := None\<rparr>) s) c = Some u \<and>
        ty (upd_mutex b (\<lambda>x. x\<lparr>mutex_task := None\<rparr>) s) c = RHINO_MUTEX_OBJ_TYPE"
      using d(4) [of u c] by simp
  next
    fix c u assume "ty (upd_mutex b (\<lambda>x. x\<lparr>mutex_task := None\<rparr>) s) c = RHINO_MUTEX_OBJ_TYPE"
      "own (upd_mutex b (\<lambda>x. x\<lparr>mutex_task := None\<rparr>) s) c = Some u"
    then show "u \<in> L \<and> u \<noteq> g_idle_task \<and> c \<in> set (held (upd_mutex b (\<lambda>x. x\<lparr>mutex_task := None\<rparr>) s) u)"
      using d(2) [of c u] by (cases "c = b") auto
  next
    fix c assume "ty (upd_mutex b (\<lambda>x. x\<lparr>mutex_task := None\<rparr>) s) c = RHINO_MUTEX_OBJ_TYPE"
      "bl (upd_mutex b (\<lambda>x. x\<lparr>mutex_task := None\<rparr>) s) c \<noteq> []"
    then show "own (upd_mutex b (\<lambda>x. x\<lparr>mutex_task := None\<rparr>) s) c \<noteq> None"
      using d(1) [of c] assms(2) by (cases "c = b") auto
  qed (use d(3) in simp)
qed

lemma weak_inv_own:
  assumes "weak_inv s" "t \<in> live s" "t \<noteq> g_idle_task"
  shows "weak_inv (upd_mutex b (\<lambda>x. x\<lparr>owner_nested := n\<rparr>) (mutex_own b t s))"
proof -
  let ?s = "upd_mutex b (\<lambda>x. x\<lparr>owner_nested := n\<rparr>) (mutex_own b t s)"
  have "owner_ok (live s) s" using assms(1) by (simp add: weak_inv_def)
  note d = owner_okD [OF this]
  have "owner_ok (live s) ?s"
    by (rule owner_okI) (use d assms(2,3) in \<open>auto split: if_splits\<close>)
  then show ?thesis using assms(1) by (simp add: weak_inv_def kinv_def tick_ok_def)
qed

lemma weak_inv_disown:
  assumes "weak_inv s" "bl s b = []"
  shows "weak_inv (upd_mutex b (\<lambda>x. x\<lparr>mutex_task := None\<rparr>) s)"
proof -
  have "owner_ok (live s) s" using assms(1) by (simp add: weak_inv_def)
  note d = owner_okD [OF this]
  have "owner_ok (live s) (upd_mutex b (\<lambda>x. x\<lparr>mutex_task := None\<rparr>) s)"
    by (rule owner_okI) (use d assms(2) in \<open>auto split: if_splits\<close>)
  then show ?thesis using assms(1) by (simp add: weak_inv_def kinv_def tick_ok_def)
qed

text \<open>The state in which the owner \<open>a\<close> has let the mutex \<open>b\<close> go.\<close>

lemma release_state:
  assumes inv: "struct_inv s" "no_deadlock s" and b: "ty s b = RHINO_MUTEX_OBJ_TYPE" "own s b = Some a"
  shows "ok (mutex_release a (Some b) s) (\<lambda>s'. weak_inv s' \<and> pri_frame (unchain (Some b) a s) s' \<and>
    inherits (Some b) s' \<and> mutex_ok_but b (live s) s' \<and>
    pri s' a = Min (insert (b_prio (tasks s a)) (donated (Some b) a s)) \<and>
    (\<forall>u. (a, u) \<notin> (wait_rel s)\<^sup>* \<longrightarrow> pri s' u = pri s u))"
proof -
  have k: "kinv (live s) s" "mutex_ok (live s) s" "inherit_ok s" using inv(1) by (auto simp: struct_inv_def)
  have a: "a \<in> live s" "a \<noteq> g_idle_task" using mutex_okD(2) [OF k(2) b] by auto
  have l: "mutex_lists (Some b) s" "inherits (Some b) s"
    using mutex_okD(2) [OF k(2)] k(3) by (auto simp: mutex_lists_def inherit_ok_def inherits_def edge_def)
  have "\<forall>c \<in> set (held s a). pol s c = BLK_POLICY_PRI"
    using mutex_okD(4) [OF k(2) a(1)] k(3) by (auto simp: inherit_ok_def)
  note mn = mutex_pri_look_min [OF k(1) this]
  show ?thesis
  proof (rule ok_mono [OF mutex_release_ok [OF struct_weak [OF inv(1)] inv(2) a l]], intro conjI)
    fix s' assume r: "weak_inv s' \<and> pri_frame (unchain (Some b) a s) s' \<and> inherits (Some b) s' \<and>
      pri s' a = fst (mutex_pri_look a (Some b) s) \<and> (\<forall>u. (a, u) \<notin> (wait_rel s)\<^sup>* \<longrightarrow> pri s' u = pri s u)"
    then have f: "pri_frame (unchain (Some b) a s) s'" by blast
    have "bl s' c \<noteq> [] \<Longrightarrow> bl (unchain (Some b) a s) c \<noteq> []" for c
      using pri_frame_tasks(3) [OF f, of c] by auto
    then show "mutex_ok_but b (live s) s'"
      by (rule mutex_ok_but_cong [OF mutex_ok_but_unchain [OF k(2) b(2)]])
        (simp_all add: pri_frame_fields [OF f] pri_frame_views [OF f] del: unchain_views(10))
    show "pri s' a = Min (insert (b_prio (tasks s a)) (donated (Some b) a s))" using r mn by simp
  qed blast+
qed

lemma same_sched_nested: "same_sched s (upd_mutex b (\<lambda>x. x\<lparr>owner_nested := f x\<rparr>) s)"
  by (simp add: same_sched_def own_def fun_eq_iff)

lemma no_deadlock_cong:
  "st s' = st s \<Longrightarrow> bo s' = bo s \<Longrightarrow> ty s' = ty s \<Longrightarrow> own s' = own s \<Longrightarrow> live s' = live s \<Longrightarrow> wait_rel s' = wait_rel s"
  by (simp add: wait_rel_def)

text \<open>The hand-over of a mutex to its first waiter.\<close>

lemma hand_over:
  assumes w: "weak_inv s" and m: "mutex_ok_but b (live s) s" and i: "inherits (Some b) s"
    and p: "\<And>c. ty s c = RHINO_MUTEX_OBJ_TYPE \<Longrightarrow> pol s c = BLK_POLICY_PRI" and b: "ty s b = RHINO_MUTEX_OBJ_TYPE"
    and l: "bl s b = t # ts" and a: "g_active_task s = Some a"
  shows "\<exists>q. pend_task_wakeup t s = Inr (wake_result BLK_FINISH t q s) \<and>
    struct_inv (upd_mutex b (\<lambda>x. x\<lparr>owner_nested := n\<rparr>) (mutex_own b t (wake_result BLK_FINISH t q s)))"
proof -
  have k: "kinv (live s) s" using w by (simp add: weak_inv_def)
  have t: "t \<in> live s" "pending_state (st s t)" using kinv_D(3) [OF k, of t b] l by auto
  then have ti: "t \<noteq> g_idle_task" using kinv_D(6) [OF k] by auto
  obtain q where q: "pend_task_end BLK_FINISH t s = Inr (wake_result BLK_FINISH t q s)"
    "kinv (live s) (wake_result BLK_FINISH t q s)"
    using pend_task_end_ok [OF k t a] by blast
  let ?w = "wake_result BLK_FINISH t q s"
  let ?s = "upd_mutex b (\<lambda>x. x\<lparr>owner_nested := n\<rparr>) (mutex_own b t ?w)"
  have "weak_inv ?s" using weak_inv_own [of ?w t b n] weak_inv_wake [OF w q(2)] t(1) ti by simp
  moreover have "mutex_ok_but b (live s) ?w"
    by (rule mutex_ok_but_cong [OF m]) (auto split: if_splits)
  then have "mutex_ok (live s) ?s" using mutex_ok_own [of b "live s" ?w t n] b t(1) ti by simp
  moreover have "inherit_ok ?s"
  proof -
    have "pri s t \<le> pri s x" if "x \<in> set ts" for x
      using core_invD(5) [OF k [unfolded kinv_def] p [OF b]] l that by simp
    moreover have "pri s u \<le> pri s x"
      if "ty s c = RHINO_MUTEX_OBJ_TYPE" "own s c = Some u" "x \<in> set (bl s c)" "c \<noteq> b" for c u x
      using i that by (auto simp: inherits_def edge_def)
    ultimately show ?thesis
      using p l by (auto simp: inherit_ok_def split: if_splits dest: set_remove1_subset [THEN subsetD])
  qed
  ultimately show ?thesis
    using q(1) by (auto simp: struct_iff pend_task_wakeup_def)
qed

lemma ready_no_wait: "st s a = K_RDY \<Longrightarrow> (a, u) \<in> (wait_rel s)\<^sup>* \<Longrightarrow> u = a"
  by (erule converse_rtranclE) (auto simp: wait_rel_def)

lemma none_due_cong: "g_tick_head s' = g_tick_head s \<Longrightarrow> rem s' = rem s \<Longrightarrow> none_due s' = none_due s"
  by (simp add: none_due_def)

text \<open>The two ends of an unlock: the mutex becomes free, or its first waiter owns it.\<close>

lemma unlock_frees:
  assumes w: "weak_inv s" and m: "mutex_ok_but b (live s) s" and i: "inherits (Some b) s"
    and p: "\<And>c. ty s c = RHINO_MUTEX_OBJ_TYPE \<Longrightarrow> pol s c = BLK_POLICY_PRI" and l: "bl s b = []"
    and n: "none_due s" and a: "active_ok (live s) s"
  shows "kernel_inv (upd_mutex b (\<lambda>x. x\<lparr>mutex_task := None\<rparr>) s)"
    "wait_rel (upd_mutex b (\<lambda>x. x\<lparr>mutex_task := None\<rparr>) s) \<subseteq> wait_rel s"
proof -
  let ?s = "upd_mutex b (\<lambda>x. x\<lparr>mutex_task := None\<rparr>) s"
  have "inherit_ok ?s" using i p by (auto simp: inherit_ok_def inherits_def edge_def split: if_splits)
  then have "struct_inv ?s" using weak_inv_disown [OF w l] mutex_ok_disown [OF m l] by (simp add: struct_iff)
  moreover have "none_due ?s" using n none_due_cong [of ?s s] by simp
  ultimately show "kernel_inv ?s" using a by (simp add: kernel_inv_def active_ok_def)
  show "wait_rel ?s \<subseteq> wait_rel s" by (auto simp: wait_rel_def split: if_splits)
qed

lemma acyclic_redirect:
  assumes "acyclic R" "R' \<subseteq> R \<union> UNIV \<times> {t}" "t \<notin> Domain R'"
  shows "acyclic R'"
proof -
  have "y = t \<or> (x, y) \<in> R\<^sup>+" if "(x, y) \<in> R'\<^sup>+" for x y
    using that
  proof induction
    case (base y)
    then show ?case using assms(2) by auto
  next
    case (step y z)
    then have "y \<noteq> t" using assms(3) by auto
    then show ?case using step assms(2) by (auto intro: trancl_into_trancl)
  qed
  moreover have "(t, t) \<notin> R'\<^sup>+" using assms(3) by (auto dest: tranclD)
  ultimately show ?thesis using assms(1) by (auto simp: acyclic_def)
qed

lemma unlock_hands:
  assumes w: "weak_inv s" and m: "mutex_ok_but b (live s) s" and i: "inherits (Some b) s"
    and p: "\<And>c. ty s c = RHINO_MUTEX_OBJ_TYPE \<Longrightarrow> pol s c = BLK_POLICY_PRI" and b: "ty s b = RHINO_MUTEX_OBJ_TYPE"
    and l: "bl s b = t # ts" and n: "none_due s" and a: "g_active_task s = Some a" "a \<in> live s" "st s a = K_RDY"
    and d: "no_deadlock s"
  shows "ok (bnd (pend_task_wakeup t s) (\<lambda>s. exit_sched RHINO_SUCCESS (upd_mutex b (\<lambda>x. x\<lparr>owner_nested := 1\<rparr>) (mutex_own b t s))))
    (\<lambda>(r, s'). r = RHINO_SUCCESS \<and> kernel_inv s' \<and> no_deadlock s' \<and>
      (\<exists>q. sched_done (upd_mutex b (\<lambda>x. x\<lparr>owner_nested := 1\<rparr>) (mutex_own b t (wake_result BLK_FINISH t q s))) s'))"
proof -
  obtain q where q: "pend_task_wakeup t s = Inr (wake_result BLK_FINISH t q s)"
    "struct_inv (upd_mutex b (\<lambda>x. x\<lparr>owner_nested := 1\<rparr>) (mutex_own b t (wake_result BLK_FINISH t q s)))"
    using hand_over [OF w m i p b l a(1), of 1] by blast
  let ?s = "upd_mutex b (\<lambda>x. x\<lparr>owner_nested := 1\<rparr>) (mutex_own b t (wake_result BLK_FINISH t q s))"
  have k: "tick_ok (live s) s" "kinv (live s) s" using w by (simp_all add: weak_inv_def)
  have tp: "pending_state (st s t)" using kinv_D(3) [OF k(2), of t b] l by simp
  have "none_due ?s" using none_due_cong [of ?s "wake_result BLK_FINISH t q s"] none_due_wake [OF k(1) n] by simp
  moreover have "active_ok (live ?s) ?s" using a tp by (auto simp: active_ok_def)
  ultimately obtain s' where s': "exit_sched RHINO_SUCCESS ?s = Inr (RHINO_SUCCESS, s')" "kernel_inv s'" "sched_done ?s s'"
    using exit_sched_inv [OF q(2), of RHINO_SUCCESS] by (auto simp: ok_iff)
  have "wait_rel ?s \<subseteq> wait_rel s \<union> UNIV \<times> {t}" "t \<notin> Domain (wait_rel ?s)"
    by (auto simp: wait_rel_def split: if_splits)
  from acyclic_redirect [OF d [unfolded no_deadlock_def] this]
  have "no_deadlock s'" by (simp add: no_deadlock_def wait_rel_sched_done [OF s'(3)])
  then show ?thesis using q(1) s' by auto
qed

text \<open>The owner after the release, before the mutex goes on: nothing but priorities has changed.\<close>

lemma unlock_release:
  assumes inv: "kernel_inv s" "no_deadlock s" and b: "ty s b = RHINO_MUTEX_OBJ_TYPE" "own s b = Some a"
    and a: "st s a = K_RDY"
  shows "ok (mutex_release a (Some b) s) (\<lambda>s1. weak_inv s1 \<and> mutex_ok_but b (live s) s1 \<and> inherits (Some b) s1 \<and>
    (\<forall>c. ty s c = RHINO_MUTEX_OBJ_TYPE \<longrightarrow> pol s c = BLK_POLICY_PRI) \<and> none_due s1 \<and> no_deadlock s1 \<and>
    pri_frame (unchain (Some b) a s) s1 \<and> pri s1 a = Min (insert (b_prio (tasks s a)) (donated (Some b) a s)) \<and>
    (\<forall>u. u \<noteq> a \<longrightarrow> pri s1 u = pri s u))"
proof -
  have k: "struct_inv s" "none_due s" using inv(1) by (auto simp: kernel_inv_def)
  show ?thesis
  proof (rule ok_mono [OF release_state [OF k(1) inv(2) b]], elim conjE, intro conjI)
    fix s1 assume f: "pri_frame (unchain (Some b) a s) s1"
    show "none_due s1" using k(2) none_due_cong [of s1 s] by (simp add: pri_frame_fields [OF f] pri_frame_views [OF f])
    show "no_deadlock s1" using inv(2) by (simp add: no_deadlock_def pri_frame_views [OF f])
    show "\<forall>c. ty s c = RHINO_MUTEX_OBJ_TYPE \<longrightarrow> pol s c = BLK_POLICY_PRI" using k(1) by (simp add: struct_inv_def inherit_ok_def)
    assume p: "\<forall>u. (a, u) \<notin> (wait_rel s)\<^sup>* \<longrightarrow> pri s1 u = pri s u"
    show "\<forall>u. u \<noteq> a \<longrightarrow> pri s1 u = pri s u" using p ready_no_wait [OF a] by blast
  qed
qed

text \<open>What the last unlock leaves.\<close>

definition unlocked :: "oid \<Rightarrow> tid \<Rightarrow> kstate \<Rightarrow> kstate \<Rightarrow> bool" where
  "unlocked b a s s' \<longleftrightarrow> b \<notin> set (held s' a) \<and> pri s' a = Min (insert (b_prio (tasks s a)) (donated (Some b) a s)) \<and>
     (if bl s b = [] then own s' b = None
      else \<exists>t \<in> set (bl s b). (\<forall>x \<in> set (bl s b). pri s t \<le> pri s x) \<and> own s' b = Some t \<and>
        owner_nested (mutexes s' b) = 1 \<and> set (bl s' b) = set (bl s b) - {t} \<and> st s' t = woken (st s t) \<and>
        t_blk_state (tasks s' t) = BLK_FINISH)"

lemma unlock_last:
  assumes inv: "kernel_inv s" "no_deadlock s" and b: "ty s b = RHINO_MUTEX_OBJ_TYPE" "own s b = Some a"
    and a: "g_active_task s = Some a" "a \<in> live s" "st s a = K_RDY"
  shows "ok (bnd (mutex_release a (Some b) s) (\<lambda>s. case bl s b of
       [] \<Rightarrow> Inr (RHINO_SUCCESS, upd_mutex b (\<lambda>x. x\<lparr>mutex_task := None\<rparr>) s)
     | t # _ \<Rightarrow> bnd (pend_task_wakeup t s) (\<lambda>s. exit_sched RHINO_SUCCESS
         (upd_mutex b (\<lambda>x. x\<lparr>owner_nested := 1\<rparr>) (mutex_own b t s)))))
    (\<lambda>(r, s'). kernel_inv s' \<and> no_deadlock s' \<and> r = RHINO_SUCCESS \<and> unlocked b a s s')"
proof -
  obtain s1 where r: "mutex_release a (Some b) s = Inr s1" "weak_inv s1" "mutex_ok_but b (live s) s1" "inherits (Some b) s1"
      "none_due s1" "no_deadlock s1" "pri s1 a = Min (insert (b_prio (tasks s a)) (donated (Some b) a s))"
    and p: "\<And>c. ty s c = RHINO_MUTEX_OBJ_TYPE \<Longrightarrow> pol s c = BLK_POLICY_PRI" and p1: "\<And>u. u \<noteq> a \<Longrightarrow> pri s1 u = pri s u"
    and f: "pri_frame (unchain (Some b) a s) s1"
    using unlock_release [OF inv b a(3)] by (auto simp: ok_iff)
  note fv = pri_frame_fields [OF f] pri_frame_views [OF f]
  have l1: "set (bl s1 c) = set (bl s c)" for c using pri_frame_tasks(3) [OF f, of c] by simp
  have e1: "bl s1 c = [] \<longleftrightarrow> bl s c = []" for c using l1 [of c] by (metis set_empty)
  have k1: "kinv (live s1) s1" using r(2) by (simp add: weak_inv_def)
  have pp: "ty s1 c = RHINO_MUTEX_OBJ_TYPE \<Longrightarrow> pol s1 c = BLK_POLICY_PRI" for c using p by (simp add: fv)
  have m1: "mutex_ok_but b (live s1) s1" using r(3) by (simp add: fv)
  have ab: "a \<notin> set (bl s b)" using inv(1) kinv_D(3) [of "live s" s a b] a(3) by (auto simp: kernel_inv_def struct_inv_def)
  show ?thesis
  proof (cases "bl s1 b")
    case Nil
    have "active_ok (live s1) s1" using inv(1) by (simp add: kernel_inv_def active_ok_def fv)
    note u = unlock_frees [OF r(2) m1 r(4) pp Nil r(5) this]
    have "bl s b = []" using Nil e1 by blast
    then have "unlocked b a s (upd_mutex b (\<lambda>x. x\<lparr>mutex_task := None\<rparr>) s1)" using r(7) by (simp add: unlocked_def fv)
    then show ?thesis using Nil r(1) u(1) no_deadlock_subset [OF u(2) r(6)] by simp
  next
    case (Cons t ts)
    obtain s' q where s': "bnd (pend_task_wakeup t s1) (\<lambda>s. exit_sched RHINO_SUCCESS
        (upd_mutex b (\<lambda>x. x\<lparr>owner_nested := 1\<rparr>) (mutex_own b t s))) = Inr (RHINO_SUCCESS, s')" "kernel_inv s'" "no_deadlock s'"
      and d: "sched_done (upd_mutex b (\<lambda>x. x\<lparr>owner_nested := 1\<rparr>) (mutex_own b t (wake_result BLK_FINISH t q s1))) s'"
      using unlock_hands [OF r(2) m1 r(4) pp _ Cons r(5) _ _ _ r(6), of a] b a by (auto simp: ok_iff fv)
    have tb: "t \<in> set (bl s b)" "t \<noteq> a" using Cons l1 [of b] ab by auto
    have so: "pri s t \<le> pri s x" if "x \<in> set (bl s b)" for x
    proof -
      have "x \<in> set (bl s1 b)" "x \<noteq> a" using that l1 ab by auto
      moreover have "sorted (map (pri s1) (bl s1 b))"
        using core_invD(5) [OF k1 [unfolded kinv_def] pp] b by (simp add: fv)
      ultimately have "pri s1 t \<le> pri s1 x" using Cons by auto
      then show ?thesis using p1 tb(2) \<open>x \<noteq> a\<close> by simp
    qed
    have "distinct (bl s1 b)" using kinv_D(4) [OF k1] .
    then have "set (bl s' b) = set (bl s b) - {t}" using l1 [of b] by (simp add: sched_done_frame [OF d])
    moreover have "b \<notin> set (held s' a)" "st s' t = woken (st s t)" "own s' b = Some t" "t_blk_state (tasks s' t) = BLK_FINISH"
      "owner_nested (mutexes s' b) = 1"
      using tb by (simp_all add: sched_done_frame [OF d] fv woken_def)
    ultimately have "unlocked b a s s'"
      using so tb e1 [of b] Cons r(7) by (auto simp: unlocked_def sched_done_frame [OF d])
    then show ?thesis using r(1) Cons s' by simp
  qed
qed

lemma unlock_steps:
  assumes "ty s b = RHINO_MUTEX_OBJ_TYPE" "own s b = Some a" "g_active_task s = Some a" "g_intrpt_nested_level s = 0"
    "g_sys_stat s \<noteq> RHINO_STOPPED" "s0 = upd_mutex b (\<lambda>x. x\<lparr>owner_nested := owner_nested x - 1\<rparr>) s"
  shows "krhino_mutex_unlock (Some b) s =
    (if owner_nested (mutexes s b) = 1
     then bnd (mutex_release a (Some b) s0) (\<lambda>s. case bl s b of
       [] \<Rightarrow> Inr (RHINO_SUCCESS, upd_mutex b (\<lambda>x. x\<lparr>mutex_task := None\<rparr>) s)
     | t # _ \<Rightarrow> bnd (pend_task_wakeup t s) (\<lambda>s. exit_sched RHINO_SUCCESS
         (upd_mutex b (\<lambda>x. x\<lparr>owner_nested := 1\<rparr>) (mutex_own b t s))))
     else Inr (RHINO_MUTEX_OWNER_NESTED, s0))"
  using assms by (simp add: krhino_mutex_unlock_def ty_def own_def bl_def Let_def active_eq word_gt_0)

lemma mutex_unlock_ok:
  assumes inv: "kernel_inv s" "no_deadlock s" and b: "ty s b = RHINO_MUTEX_OBJ_TYPE" "own s b = Some a"
    and a: "g_active_task s = Some a" and z: "g_intrpt_nested_level s = 0" and run: "g_sys_stat s \<noteq> RHINO_STOPPED"
  shows "ok (krhino_mutex_unlock (Some b) s) (\<lambda>(r, s'). kernel_inv s' \<and> no_deadlock s' \<and>
    (if owner_nested (mutexes s b) = 1 then r = RHINO_SUCCESS \<and> unlocked b a s s'
     else r = RHINO_MUTEX_OWNER_NESTED \<and> own s' b = Some a \<and> owner_nested (mutexes s' b) = owner_nested (mutexes s b) - 1))"
proof -
  define s0 where "s0 = upd_mutex b (\<lambda>x. x\<lparr>owner_nested := owner_nested x - 1\<rparr>) s"
  have same: "same_sched s s0" unfolding s0_def by (rule same_sched_nested)
  have i0: "kernel_inv s0" "no_deadlock s0"
    using inv same_sched_inv [OF same] wait_rel_same [OF same] by (simp_all add: no_deadlock_def)
  have v: "ty s0 = ty s" "own s0 = own s" "live s0 = live s" "g_active_task s0 = Some a" "st s0 = st s" "bl s0 = bl s" "pri s0 = pri s"
      "held s0 = held s" "tasks s0 = tasks s"
    using same a by (simp_all add: same_sched_def s0_def)
  have al: "a \<in> live s" "st s a = K_RDY" using inv(1) a z by (auto simp: kernel_inv_def active_ok_def)
  note st = unlock_steps [OF b a z run s0_def]
  have "unlocked b a s0 = unlocked b a s" by (simp add: unlocked_def fun_eq_iff v donated_def)
  moreover have "own s0 b = Some a" "owner_nested (mutexes s0 b) = owner_nested (mutexes s b) - 1"
    using b(2) by (simp_all add: v) (simp add: s0_def)
  ultimately show ?thesis
    using st unlock_last [OF i0, of b a] b al i0 by (simp add: v)
qed

text \<open>
  C5. Unlocking a mutex by its owner. A nested lock only counts down. At the last unlock, with no waiter
  the mutex becomes free; with waiters it is handed to one of the highest priority, which is woken and
  owns it once. The former owner falls back to the highest of its own priority and those still waiting
  for its other mutexes. The call returns, keeps the kernel invariant, which includes that owners never
  run below their waiters, and creates no cycle of waiting tasks.
\<close>

theorem mutex_unlock_hands_over:
  assumes inv: "kernel_inv s" "no_deadlock s" and b: "ty s b = RHINO_MUTEX_OBJ_TYPE" "own s b = Some a"
    and a: "g_active_task s = Some a" and z: "g_intrpt_nested_level s = 0" and run: "g_sys_stat s \<noteq> RHINO_STOPPED"
  shows "ok (krhino_mutex_unlock (Some b) s) (\<lambda>(r, s'). kernel_inv s' \<and> no_deadlock s' \<and>
    (if owner_nested (mutexes s b) = 1
     then r = RHINO_SUCCESS \<and> b \<notin> set (held s' a) \<and>
       pri s' a = Min (insert (b_prio (tasks s a)) (donated (Some b) a s)) \<and>
       (if bl s b = [] then own s' b = None
        else \<exists>t \<in> set (bl s b). (\<forall>x \<in> set (bl s b). pri s t \<le> pri s x) \<and> own s' b = Some t \<and>
          owner_nested (mutexes s' b) = 1 \<and> set (bl s' b) = set (bl s b) - {t} \<and> st s' t = woken (st s t) \<and>
          t_blk_state (tasks s' t) = BLK_FINISH)
     else r = RHINO_MUTEX_OWNER_NESTED \<and> own s' b = Some a \<and> owner_nested (mutexes s' b) = owner_nested (mutexes s b) - 1))"
  by (rule mutex_unlock_ok [OF assms, unfolded unlocked_def])

theorem mutex_unlock_hands_over_witness:
  "ok (krhino_mutex_unlock (Some 9) ex_state) (\<lambda>(r, s'). kernel_inv s' \<and> own s' 9 = Some 8 \<and> st s' 8 = K_RDY \<and>
     pri s' 5 = 10)"
proof -
  have "donated (Some 9) 5 ex_state = {}" by (auto simp: donated_def)
  then show ?thesis
    using mutex_unlock_hands_over [OF ex_kernel_inv ex_no_deadlock, of 9 5] by (auto simp: ok_iff woken_def)
qed

lemma lock_free:
  assumes inv: "kernel_inv s" and b: "ty s b = RHINO_MUTEX_OBJ_TYPE" "own s b = None"
    and a: "g_active_task s = Some a" "a \<noteq> g_idle_task"
  shows "kernel_inv (upd_mutex b (\<lambda>x. x\<lparr>owner_nested := n\<rparr>) (mutex_own b a s))"
proof -
  let ?s = "upd_mutex b (\<lambda>x. x\<lparr>owner_nested := n\<rparr>) (mutex_own b a s)"
  have k: "weak_inv s" "mutex_ok (live s) s" "inherit_ok s" "none_due s" "active_ok (live s) s"
    using inv by (auto simp: kernel_inv_def struct_iff)
  have al: "a \<in> live s" using k(5) a by (auto simp: active_ok_def)
  have e: "bl s b = []" using mutex_okD(1) [OF k(2) b(1)] b(2) by blast
  have "mutex_ok (live s) ?s" using mutex_ok_own [OF mutex_ok_but_free [OF k(2) b(2)] b(1) al a(2)] .
  moreover have "inherit_ok ?s" using k(3) e by (auto simp: inherit_ok_def)
  moreover have "none_due ?s" using k(4) none_due_cong [of ?s s] by simp
  moreover have "active_ok (live s) ?s" using k(5) by (simp add: active_ok_def)
  ultimately show ?thesis using weak_inv_own [OF k(1) al a(2)] by (simp add: kernel_inv_def struct_iff)
qed

lemma raise_owner:
  assumes inv: "kernel_inv s" "no_deadlock s" and b: "ty s b = RHINO_MUTEX_OBJ_TYPE" "own s b = Some u"
    and a: "a \<in> live s" and nc: "(u, a) \<notin> (wait_rel s)\<^sup>*"
  shows "ok (if pri s a < pri s u then bnd (task_pri_change u (pri s a) s) (\<lambda>(e, s). Inr s) else Inr s)
    (\<lambda>s'. kernel_inv s' \<and> pri_frame s s' \<and> pri s' u \<le> pri s' a \<and> pri s' a = pri s a)"
proof (cases "pri s a < pri s u")
  case False
  then show ?thesis using inv by simp
next
  case True
  have k: "weak_inv s" "mutex_ok (live s) s" "inherit_ok s" "kinv (live s) s"
    using inv by (auto simp: kernel_inv_def struct_iff weak_inv_def)
  have u: "u \<in> live s" "u \<noteq> g_idle_task" using mutex_okD(2) [OF k(2) b] by auto
  have l: "mutex_lists None s" "inherits None s"
    using mutex_okD(2) [OF k(2)] k(3) by (auto simp: mutex_lists_def inherit_ok_iff inherit_ok_def)
  then have en: "entry_ok None u (pri s a) s" using True by (fastforce simp: entry_ok_def inherits_def)
  have "pri s a < 62" using kinv_D(1) [OF k(4) a] .
  from task_pri_change_ok [OF k(1) inv(2) u this l(1) en]
  obtain s' where s': "task_pri_change u (pri s a) s = Inr (RHINO_SUCCESS, s')" "weak_inv s'" "inherits None s'"
    "pri s' u = pri s a" "pri s' a = pri s a" and f: "pri_frame s s'"
    using nc by (auto simp: ok_iff)
  have "inherit_ok s'" using s'(3) k(3) by (simp add: inherit_ok_iff pri_frame_views [OF f])
  then have "struct_inv s'"
    using s'(2) mutex_ok_pri [OF k(2) f] by (simp add: struct_iff pri_frame_fields [OF f])
  moreover have "none_due s'" "active_ok (live s) s'"
    using inv(1) none_due_cong [of s' s]
    by (simp_all add: kernel_inv_def active_ok_def pri_frame_fields [OF f] pri_frame_views [OF f])
  ultimately show ?thesis using True s' f by (simp add: kernel_inv_def pri_frame_fields [OF f])
qed

lemma wait_rel_block:
  assumes f: "sched_done (block_result b a n q s1) s'" "pri_frame s s1" and a: "a \<in> live s" "st s a = K_RDY"
    and b: "ty s b = RHINO_MUTEX_OBJ_TYPE" "own s b = Some u"
  shows "wait_rel s' = insert (a, u) (wait_rel s)"
  using a b by (auto simp: wait_rel_def sched_done_frame [OF f(1)] pri_frame_fields [OF f(2)] pri_frame_views [OF f(2)]
      split: if_splits)

lemma mutex_lock_ok:
  assumes inv: "kernel_inv s" "no_deadlock s" and b: "ty s b = RHINO_MUTEX_OBJ_TYPE"
    and a: "g_active_task s = Some a" "a \<noteq> g_idle_task" and z: "g_intrpt_nested_level s = 0"
    and run: "g_sys_stat s \<noteq> RHINO_STOPPED" and t: "ticks = RHINO_NO_WAIT \<or> good_timeout ticks"
    and nest: "own s b = Some a \<Longrightarrow> owner_nested (mutexes s b) \<noteq> -1"
    and nc: "\<And>u. own s b = Some u \<Longrightarrow> u \<noteq> a \<Longrightarrow> (u, a) \<notin> (wait_rel s)\<^sup>*"
  shows "ok (krhino_mutex_lock (Some b) ticks s) (\<lambda>(r, s'). kernel_inv s' \<and> no_deadlock s' \<and>
    (case own s b of
       None \<Rightarrow> r = Ret RHINO_SUCCESS \<and> own s' b = Some a \<and> owner_nested (mutexes s' b) = 1
     | Some u \<Rightarrow>
         if u = a then r = Ret RHINO_MUTEX_OWNER_NESTED \<and> own s' b = Some a \<and>
           owner_nested (mutexes s' b) = owner_nested (mutexes s b) + 1
         else if ticks = RHINO_NO_WAIT then r = Ret RHINO_NO_PEND_WAIT \<and> s' = s
         else if g_sched_lock s > 0 then r = Ret RHINO_SCHED_DISABLE \<and> s' = s
         else r = Pending \<and> own s' b = Some u \<and> a \<in> set (bl s' b) \<and> st s' a = K_PEND \<and> pri s' u \<le> pri s' a \<and>
           (\<exists>t. g_active_task s' = Some t \<and> best_ready (live s') s' t)))"
proof (cases "own s b")
  case None
  let ?s = "upd_mutex b (\<lambda>x. x\<lparr>owner_nested := 1\<rparr>) (mutex_own b a s)"
  have "krhino_mutex_lock (Some b) ticks s = Inr (Ret RHINO_SUCCESS, ?s)"
    using None run z b a by (simp add: krhino_mutex_lock_def ty_def own_def active_eq)
  moreover have "bl s b = []"
    using inv(1) None b mutex_okD(1) [of "live s" s b] by (auto simp: kernel_inv_def struct_inv_def)
  then have "bo s x \<noteq> Some b" if "x \<in> live s" "pending_state (st s x)" for x
    using that inv(1) kinv_D(3) [of "live s" s x b] by (auto simp: kernel_inv_def struct_inv_def)
  then have "wait_rel ?s \<subseteq> wait_rel s" by (auto simp: wait_rel_def split: if_splits)
  then have "no_deadlock ?s" using inv(2) acyclic_subset by (auto simp: no_deadlock_def)
  ultimately show ?thesis using None lock_free [OF inv(1) b None a, of 1] by simp
next
  case (Some u)
  show ?thesis
  proof (cases "u = a \<or> ticks = RHINO_NO_WAIT \<or> g_sched_lock s > 0")
    case True
    have "kernel_inv (upd_mutex b (\<lambda>x. x\<lparr>owner_nested := owner_nested x + 1\<rparr>) s)"
      using inv(1) same_sched_inv [OF same_sched_nested] by simp
    moreover have "wait_rel (upd_mutex b (\<lambda>x. x\<lparr>owner_nested := owner_nested x + 1\<rparr>) s) = wait_rel s"
      by (rule no_deadlock_cong) (simp_all add: own_def fun_eq_iff)
    ultimately show ?thesis
      using True Some run z b a nest inv by (auto simp: krhino_mutex_lock_def ty_def own_def no_deadlock_def)
  next
    case False
    have al: "a \<in> live s" "st s a = K_RDY" using inv(1) a z by (auto simp: kernel_inv_def active_ok_def)
    obtain s1 where s1: "(if pri s a < pri s u then bnd (task_pri_change u (pri s a) s) (\<lambda>(e, s). Inr s) else Inr s) = Inr s1"
      "kernel_inv s1" "pri s1 u \<le> pri s1 a" and f: "pri_frame s s1"
      using raise_owner [OF inv b Some al(1) nc] Some False by (auto simp: ok_iff)
    note fv = pri_frame_fields [OF f] pri_frame_views [OF f]
    obtain s' q where s': "block_active b ticks s1 = Inr (Pending, s')" "kernel_inv s'"
      and d: "sched_done (block_result b a ticks q s1) s'"
      using block_active_ok [OF s1(2), of a ticks b] a z t False Some s1(3) by (auto simp: ok_iff fv word_gt_0)
    have "krhino_mutex_lock (Some b) ticks s = bnd (Inr s1) (block_active b ticks)"
      unfolding s1(1) [symmetric] using run z b a False Some by (simp add: krhino_mutex_lock_def ty_def own_def active_eq)
    moreover have "no_deadlock s'"
      using inv(2) nc [OF Some] False by (simp add: no_deadlock_def wait_rel_block [OF d f al b Some])
    ultimately show ?thesis
      using s' Some False sched_done_active [OF d] z s1(3) by (auto simp: sched_done_frame [OF d] fv word_gt_0)
  qed
qed

text \<open>
  C6. Locking a mutex. The owner only nests deeper; a free mutex is taken; a mutex owned by another task
  gives \<open>RHINO_NO_PEND_WAIT\<close> or \<open>RHINO_SCHED_DISABLE\<close> without any change, or blocks the caller after the owner
  has been raised to the caller's priority at least. As long as the caller does not close a cycle of
  waiting tasks, the call ends, keeps the kernel invariant and leaves no deadlock.
\<close>

theorem mutex_lock_cases:
  assumes inv: "kernel_inv s" "no_deadlock s" and b: "ty s b = RHINO_MUTEX_OBJ_TYPE"
    and a: "g_active_task s = Some a" "a \<noteq> g_idle_task" and z: "g_intrpt_nested_level s = 0"
    and run: "g_sys_stat s \<noteq> RHINO_STOPPED" and t: "ticks = RHINO_NO_WAIT \<or> good_timeout ticks"
    and nest: "own s b = Some a \<Longrightarrow> owner_nested (mutexes s b) \<noteq> -1"
    and nc: "\<And>u. own s b = Some u \<Longrightarrow> u \<noteq> a \<Longrightarrow> (u, a) \<notin> (wait_rel s)\<^sup>*"
  shows "ok (krhino_mutex_lock (Some b) ticks s) (\<lambda>(r, s'). kernel_inv s' \<and> no_deadlock s' \<and>
    (case own s b of
       None \<Rightarrow> r = Ret RHINO_SUCCESS \<and> own s' b = Some a \<and> owner_nested (mutexes s' b) = 1
     | Some u \<Rightarrow>
         if u = a then r = Ret RHINO_MUTEX_OWNER_NESTED \<and> own s' b = Some a \<and>
           owner_nested (mutexes s' b) = owner_nested (mutexes s b) + 1
         else if ticks = RHINO_NO_WAIT then r = Ret RHINO_NO_PEND_WAIT \<and> s' = s
         else if g_sched_lock s > 0 then r = Ret RHINO_SCHED_DISABLE \<and> s' = s
         else r = Pending \<and> own s' b = Some u \<and> a \<in> set (bl s' b) \<and> st s' a = K_PEND \<and> pri s' u \<le> pri s' a \<and>
           (\<exists>t. g_active_task s' = Some t \<and> best_ready (live s') s' t)))"
  by (rule mutex_lock_ok; fact assms)

lemma active_views:
  "st (s\<lparr>g_active_task := Some t\<rparr>) = st s" "pri (s\<lparr>g_active_task := Some t\<rparr>) = pri s" "bl (s\<lparr>g_active_task := Some t\<rparr>) = bl s"
  "ty (s\<lparr>g_active_task := Some t\<rparr>) = ty s" "own (s\<lparr>g_active_task := Some t\<rparr>) = own s" "live (s\<lparr>g_active_task := Some t\<rparr>) = live s"
  "bo (s\<lparr>g_active_task := Some t\<rparr>) = bo s" "held (s\<lparr>g_active_task := Some t\<rparr>) = held s" "tkh (s\<lparr>g_active_task := Some t\<rparr>) = tkh s"
  "tkm (s\<lparr>g_active_task := Some t\<rparr>) = tkm s" "pol (s\<lparr>g_active_task := Some t\<rparr>) = pol s" "rem (s\<lparr>g_active_task := Some t\<rparr>) = rem s"
  "wait_rel (s\<lparr>g_active_task := Some t\<rparr>) = wait_rel s"
  by (simp_all add: view_defs live_def rem_def wait_rel_def fun_eq_iff)

lemma active_other:
  assumes "kernel_inv s" "t \<in> live s" "st s t = K_RDY"
  shows "kernel_inv (s\<lparr>g_active_task := Some t\<rparr>)" "no_deadlock (s\<lparr>g_active_task := Some t\<rparr>) = no_deadlock s"
    "wait_rel (s\<lparr>g_active_task := Some t\<rparr>) = wait_rel s"
proof -
  let ?s = "s\<lparr>g_active_task := Some t\<rparr>"
  have "kinv A ?s = kinv A s" "tick_ok A ?s = tick_ok A s" "mutex_ok A ?s = mutex_ok A s" "inherit_ok ?s = inherit_ok s" "none_due ?s = none_due s" for A
    by (simp_all only: kinv_def tick_ok_def mutex_ok_def inherit_ok_def none_due_def active_views, simp_all)
  then show "kernel_inv ?s" using assms by (simp add: kernel_inv_def struct_inv_def active_views active_ok_def)
  show "no_deadlock ?s = no_deadlock s" "wait_rel ?s = wait_rel s" by (simp_all add: no_deadlock_def active_views)
qed

text \<open>A free mutex is taken; task 11 blocks on the mutex of task 5.\<close>

theorem mutex_lock_cases_witness:
  "ok (krhino_mutex_lock (Some 18) 7 ex_state) (\<lambda>(r, s'). kernel_inv s' \<and> no_deadlock s' \<and> r = Ret RHINO_SUCCESS \<and>
     own s' 18 = Some 5) \<and>
   ok (krhino_mutex_lock (Some 9) 7 (ex_state\<lparr>g_active_task := Some 11\<rparr>)) (\<lambda>(r, s'). kernel_inv s' \<and> no_deadlock s' \<and> r = Pending \<and>
     own s' 9 = Some 5 \<and> 11 \<in> set (bl s' 9) \<and> st s' 11 = K_PEND \<and> pri s' 5 \<le> pri s' 11)"
proof
  have g: "5 \<noteq> g_idle_task" "11 \<noteq> g_idle_task" "good_timeout 7" "7 \<noteq> RHINO_NO_WAIT"
    by (simp_all add: g_idle_task_def good_timeout_def RHINO_NO_WAIT_def)
  then show "ok (krhino_mutex_lock (Some 18) 7 ex_state) (\<lambda>(r, s'). kernel_inv s' \<and> no_deadlock s' \<and> r = Ret RHINO_SUCCESS \<and>
     own s' 18 = Some 5)"
    using mutex_lock_cases [OF ex_kernel_inv ex_no_deadlock, of 18 5 7] by (auto simp: ok_iff)
  let ?s = "ex_state\<lparr>g_active_task := Some 11\<rparr>"
  have k: "kernel_inv ?s" "no_deadlock ?s" using active_other [OF ex_kernel_inv, of 11] ex_no_deadlock by simp_all
  have "(5, 11) \<notin> (wait_rel ?s)\<^sup>*" using active_other(3) [OF ex_kernel_inv, of 11] by (auto simp: ex_wait_rel elim: converse_rtranclE)
  then show "ok (krhino_mutex_lock (Some 9) 7 ?s) (\<lambda>(r, s'). kernel_inv s' \<and> no_deadlock s' \<and> r = Pending \<and>
     own s' 9 = Some 5 \<and> 11 \<in> set (bl s' 9) \<and> st s' 11 = K_PEND \<and> pri s' 5 \<le> pri s' 11)"
    using mutex_lock_cases [OF k, of 9 11 7] g active_views [of 11 ex_state] by (auto simp: ok_iff)
qed

section \<open>Deleting a mutex\<close>

text \<open>The first steps of the deletion: the object loses its type, and its owner lets it go.\<close>

lemma delete_release:
  assumes inv: "kernel_inv s" "no_deadlock s" and b: "ty s b = RHINO_MUTEX_OBJ_TYPE"
    and s0: "s0 = upd_blk b (\<lambda>ob. ob\<lparr>obj_type := RHINO_OBJ_TYPE_NONE\<rparr>) s"
  shows "ok (case own s0 b of None \<Rightarrow> Inr s0 | Some u \<Rightarrow> mutex_release u (Some b) s0) (\<lambda>s1. kernel_inv s1 \<and> no_deadlock s1 \<and>
    ty s1 b = RHINO_OBJ_TYPE_NONE \<and> set (bl s1 b) = set (bl s b) \<and> st s1 = st s \<and> g_intrpt_nested_level s1 = g_intrpt_nested_level s \<and>
    g_kobj_list s1 = g_kobj_list s \<and>
    (\<forall>u. own s b = Some u \<longrightarrow> b \<notin> set (held s1 u) \<and> pri s1 u = Min (insert (b_prio (tasks s u)) (donated (Some b) u s))))"
proof -
  have i: "kinv (live s) s" "tick_ok (live s) s" "mutex_ok (live s) s" "inherit_ok s" "none_due s" "active_ok (live s) s"
    using inv(1) by (auto simp: kernel_inv_def struct_inv_def)
  note d = mutex_okD [OF i(3)]
  have v: "ty s0 = (ty s)(b := RHINO_OBJ_TYPE_NONE)" "bl s0 = bl s" "pol s0 = pol s" "own s0 = own s" "held s0 = held s" "st s0 = st s"
      "bo s0 = bo s" "pri s0 = pri s" "live s0 = live s" "tasks s0 = tasks s" "g_tick_head s0 = g_tick_head s" "rem s0 = rem s"
      "tkh s0 = tkh s" "g_active_task s0 = g_active_task s" "g_sched_lock s0 = g_sched_lock s" "g_kobj_list s0 = g_kobj_list s"
      "g_ready_queue s0 = g_ready_queue s" "g_intrpt_nested_level s0 = g_intrpt_nested_level s"
    by (simp_all add: s0 rem_def fun_eq_iff)
  have w0: "weak_inv s0"
    using i(1,2) mutex_ok_owner [OF i(3)] by (auto simp: weak_inv_def kinv_def tick_ok_def owner_ok_def v)
  have n0: "no_deadlock s0"
    by (rule no_deadlock_subset [OF _ inv(2)]) (auto simp: wait_rel_def v split: if_splits)
  have l0: "mutex_lists (Some b) s0" "inherits (Some b) s0"
    using d(2) i(4) by (auto simp: mutex_lists_def inherits_def inherit_ok_def edge_def v)
  have fin: "kernel_inv s1"
    if w: "weak_inv s1" "inherits (Some b) s1" "mutex_ok_but b (live s) s1" and f: "live s1 = live s" "ty s1 = ty s0" "pol s1 = pol s"
      "g_tick_head s1 = g_tick_head s" "rem s1 = rem s" "g_active_task s1 = g_active_task s" "st s1 = st s"
      "g_sched_lock s1 = g_sched_lock s" "g_intrpt_nested_level s1 = g_intrpt_nested_level s" for s1
  proof -
    note e = mutex_ok_butD [OF w(3)]
    have nb: "ty s1 c = RHINO_MUTEX_OBJ_TYPE \<Longrightarrow> c \<noteq> b" for c by (auto simp: f v)
    have "mutex_ok (live s) s1"
    proof (rule mutex_okI)
      fix c t
      show "own s1 c \<noteq> None" if "ty s1 c = RHINO_MUTEX_OBJ_TYPE" "bl s1 c \<noteq> []"
        using e(1) [OF nb [OF that(1)] that] .
      show "t \<in> live s \<and> t \<noteq> g_idle_task \<and> c \<in> set (held s1 t)" if "ty s1 c = RHINO_MUTEX_OBJ_TYPE" "own s1 c = Some t"
        using e(2) [OF nb [OF that(1)] that] .
      show "distinct (held s1 t) \<and> b_prio (tasks s1 t) < 62" if "t \<in> live s" using e(3) [OF that] .
      show "own s1 c = Some t \<and> ty s1 c = RHINO_MUTEX_OBJ_TYPE" if "t \<in> live s" "c \<in> set (held s1 t)"
        using e(4) [OF that] by blast
    qed
    moreover have "pol s1 c = BLK_POLICY_PRI" if "ty s1 c = RHINO_MUTEX_OBJ_TYPE" for c
      using i(4) that by (auto simp: inherit_ok_def f v split: if_splits)
    then have "inherit_ok s1" using w(2) nb unfolding inherit_ok_def inherits_def edge_def by blast
    ultimately show ?thesis
      using w(1) i(5,6) by (simp add: kernel_inv_def struct_iff f none_due_def active_ok_def)
  qed
  show ?thesis
  proof (cases "own s b")
    case None
    have "mutex_ok_but b (live s) s0" by (rule mutex_ok_but_cong [OF mutex_ok_but_free [OF i(3) None]]) (simp_all add: v)
    then have "kernel_inv s0" using fin [OF w0 l0(2)] by (simp add: v)
    then show ?thesis using None n0 by (simp add: v)
  next
    case (Some u)
    have u: "u \<in> live s" "u \<noteq> g_idle_task" using d(2) [OF b Some] by auto
    obtain s1 where r: "mutex_release u (Some b) s0 = Inr s1" "weak_inv s1" "inherits (Some b) s1" "pri s1 u = fst (mutex_pri_look u (Some b) s0)"
      and f: "pri_frame (unchain (Some b) u s0) s1"
      using mutex_release_ok [OF w0 n0 _ u(2) l0] u(1) by (auto simp: ok_iff v)
    note fv = pri_frame_fields [OF f] pri_frame_views [OF f]
    have ls: "set (bl s1 c) = set (bl s c)" for c using pri_frame_tasks(3) [OF f, of c] by (simp add: v)
    have "bl s1 c \<noteq> [] \<Longrightarrow> bl s c \<noteq> []" for c using ls [of c] by (metis set_empty)
    then have "mutex_ok_but b (live s) s1"
      by (intro mutex_ok_but_cong [OF mutex_ok_but_unchain [OF i(3) Some]]) (simp_all add: fv v)
    then have "kernel_inv s1" using fin [OF r(2,3)] by (simp add: fv v)
    moreover have "pri s1 u = Min (insert (b_prio (tasks s u)) (donated (Some b) u s))"
      using r(4) mutex_pri_look_min [of "live s" s0 u "Some b"] i(1,4) d(4) [OF u(1)]
      by (simp add: kinv_def inherit_ok_def v donated_def)
    moreover have "no_deadlock s1" using n0 by (simp add: no_deadlock_def fv)
    ultimately show ?thesis using Some r(1) ls by (simp add: fv v)
  qed
qed

lemma mutex_del_ok:
  assumes inv: "kernel_inv s" "no_deadlock s" and b: "ty s b = RHINO_MUTEX_OBJ_TYPE"
  shows "ok (mutex_del_body b s) (\<lambda>(r, s'). r = RHINO_SUCCESS \<and> kernel_inv s' \<and> no_deadlock s' \<and> ty s' b = RHINO_OBJ_TYPE_NONE \<and>
    bl s' b = [] \<and> (\<forall>t \<in> set (bl s b). st s' t = woken (st s t) \<and> t_blk_state (tasks s' t) = BLK_DEL) \<and>
    g_intrpt_nested_level s' = g_intrpt_nested_level s \<and>
    mutex_head (g_kobj_list s') = remove1 b (mutex_head (g_kobj_list s)) \<and>
    (\<forall>u. own s b = Some u \<longrightarrow> b \<notin> set (held s' u) \<and> pri s' u = Min (insert (b_prio (tasks s u)) (donated (Some b) u s))))"
proof -
  define s0 where "s0 = upd_blk b (\<lambda>ob. ob\<lparr>obj_type := RHINO_OBJ_TYPE_NONE\<rparr>) s"
  obtain s1 where s1: "(case own s0 b of None \<Rightarrow> Inr s0 | Some u \<Rightarrow> mutex_release u (Some b) s0) = Inr s1" "kernel_inv s1" "no_deadlock s1"
    "ty s1 b = RHINO_OBJ_TYPE_NONE" "set (bl s1 b) = set (bl s b)" "st s1 = st s" "g_kobj_list s1 = g_kobj_list s"
    "g_intrpt_nested_level s1 = g_intrpt_nested_level s"
    "\<And>u. own s b = Some u \<Longrightarrow> b \<notin> set (held s1 u) \<and> pri s1 u = Min (insert (b_prio (tasks s u)) (donated (Some b) u s))"
    using delete_release [OF inv b s0_def] by (auto simp: ok_iff)
  obtain w where w: "pend_rm_all b s1 = Inr w" "kernel_inv w" and rl: "released BLK_DEL b s1 w"
    using pend_rm_all_ok [OF s1(2), of b] by (auto simp: ok_iff)
  let ?w = "upd_kobj (\<lambda>k. k\<lparr>mutex_head := remove1 b (mutex_head k)\<rparr>) w"
  have same: "same_sched w ?w" by (simp add: same_sched_def)
  have "kernel_inv ?w" using same_sched_inv [OF same] w(2) by simp
  then obtain s' where s': "exit_sched RHINO_SUCCESS ?w = Inr (RHINO_SUCCESS, s')" "kernel_inv s'" and d: "sched_done ?w s'"
    using kernel_exit by (auto simp: ok_iff)
  have "mutex_del_body b s = Inr (RHINO_SUCCESS, s')"
    using s1(1) w(1) s'(1) unfolding mutex_del_body_def Let_def s0_def [symmetric] own_def by simp
  moreover have "no_deadlock s'"
    using s1(3) wait_rel_sched_done [OF d] wait_rel_same [OF same] no_deadlock_subset [OF wait_rel_released [OF rl]]
    by (simp add: no_deadlock_def)
  ultimately show ?thesis
    using s'(2) s1(4-9) rl by (simp add: sched_done_frame [OF d] released_def same_rest_def)
qed

text \<open>
  C29. Deleting a mutex, owned or not, releases every waiter with status \<open>BLK_DEL\<close>, takes the mutex off its
  owner's chain and drops the owner to the priority it still has a right to; later locks and unlocks
  fail with \<open>RHINO_KOBJ_TYPE_ERR\<close>. The kernel invariant is kept.
\<close>

theorem mutex_del_releases:
  assumes inv: "kernel_inv s" "no_deadlock s" and b: "ty s b = RHINO_MUTEX_OBJ_TYPE" and z: "g_intrpt_nested_level s = 0"
    and f: "mutex_alloc_flag (mutexes s b) = K_OBJ_STATIC_ALLOC"
  shows "ok (krhino_mutex_del (Some b) s) (\<lambda>(r, s'). r = RHINO_SUCCESS \<and> kernel_inv s' \<and> no_deadlock s' \<and> bl s' b = [] \<and>
    (\<forall>t \<in> set (bl s b). st s' t = woken (st s t) \<and> t_blk_state (tasks s' t) = BLK_DEL) \<and>
    (\<forall>u. own s b = Some u \<longrightarrow> b \<notin> set (held s' u) \<and> pri s' u = Min (insert (b_prio (tasks s u)) (donated (Some b) u s))) \<and>
    (g_sys_stat s' \<noteq> RHINO_STOPPED \<longrightarrow> krhino_mutex_lock (Some b) ticks s' = Inr (Ret RHINO_KOBJ_TYPE_ERR, s') \<and>
       krhino_mutex_unlock (Some b) s' = Inr (RHINO_KOBJ_TYPE_ERR, s')))"
proof -
  have "krhino_mutex_del (Some b) s = mutex_del_body b s" using z b f by (simp add: krhino_mutex_del_def ty_def)
  then show ?thesis
    using mutex_del_ok [OF inv b] z by (auto simp: ok_iff krhino_mutex_lock_def krhino_mutex_unlock_def ty_def)
qed

theorem mutex_del_releases_witness:
  "ok (krhino_mutex_del (Some 9) ex_state) (\<lambda>(r, s'). kernel_inv s' \<and> t_blk_state (tasks s' 8) = BLK_DEL \<and>
     9 \<notin> set (held s' 5))"
  by (rule ok_mono [OF mutex_del_releases [OF ex_kernel_inv ex_no_deadlock, of 9]]) auto

end
