(* ===== verification/Tick.thy ===== *)
theory Tick
  imports Mutex
begin

text \<open>
  The tick (\<^verbatim>\<open>k_tick.c\<close>) and the time services (\<^verbatim>\<open>k_time.c\<close>): expiry of the tasks on the time
  list, the tick handler, and the conversions between milliseconds and ticks.
\<close>

section \<open>Expiry\<close>

definition tick_list_init :: "kstate \<Rightarrow> kstate" where
  "tick_list_init s = s\<lparr>g_tick_head := []\<rparr>"

text \<open>The switch of \<open>tick_list_update\<close> on an expired task.\<close>

definition tick_expire :: "tid \<Rightarrow> kstate \<Rightarrow> kstate outcome" where
  "tick_expire t s =
     (case st s t of
        K_SLEEP \<Rightarrow>
          ready_list_add t (tick_list_rm t
            (upd_task t (\<lambda>k. k\<lparr>t_blk_state := BLK_FINISH, task_state := K_RDY\<rparr>) s))
      | K_PEND \<Rightarrow>
          bnd (ready_list_add t (blk_list_rm t (tick_list_rm t s))) (\<lambda>s.
          bnd (mutex_task_pri_reset t
                (upd_task t (\<lambda>k. k\<lparr>t_blk_state := BLK_TIMEOUT, task_state := K_RDY\<rparr>) s)) (\<lambda>s.
            Inr (upd_task t (\<lambda>k. k\<lparr>blk_obj := None\<rparr>) s)))
      | K_PEND_SUSPENDED \<Rightarrow>
          bnd (mutex_task_pri_reset t
                (upd_task t (\<lambda>k. k\<lparr>t_blk_state := BLK_TIMEOUT, task_state := K_SUSPENDED\<rparr>)
                  (blk_list_rm t (tick_list_rm t s)))) (\<lambda>s.
            Inr (upd_task t (\<lambda>k. k\<lparr>blk_obj := None\<rparr>) s))
      | K_SLEEP_SUSPENDED \<Rightarrow>
          Inr (tick_list_rm t
            (upd_task t (\<lambda>k. k\<lparr>task_state := K_SUSPENDED, t_blk_state := BLK_FINISH\<rparr>) s))
      | _ \<Rightarrow> k_err_proc RHINO_SYS_FATAL_ERR)"

text \<open>The loop reads the next node before it handles the current one, and handling a task takes
  only that task off the time list: the nodes visited are those of the list at the start.
  \<open>delta\<close> is the signed difference of the two 64-bit counts.\<close>

fun tick_loop :: "tid list \<Rightarrow> kstate \<Rightarrow> kstate outcome" where
  "tick_loop [] s = Inr s"
| "tick_loop (t # ts) s =
     (if sint (tick_match (tasks s t) - g_tick_count s) \<le> 0
      then bnd (tick_expire t s) (tick_loop ts)
      else Inr s)"

definition tick_list_update :: "tick \<Rightarrow> kstate \<Rightarrow> kstate outcome" where
  "tick_list_update ticks s =
     (let s = s\<lparr>g_tick_count := g_tick_count s + ticks\<rparr> in tick_loop (g_tick_head s) s)"

definition krhino_tick_proc :: "kstate \<Rightarrow> kstate outcome" where
  "krhino_tick_proc s = bnd (tick_list_update 1 s) sched_time_slice_update"

section \<open>Time services\<close>

definition krhino_sys_tick_get :: "kstate \<Rightarrow> tick" where
  "krhino_sys_tick_get s = g_tick_count s"

definition krhino_sys_time_get :: "kstate \<Rightarrow> tick" where
  "krhino_sys_time_get s = (krhino_sys_tick_get s * 1000) div of_nat RHINO_CONFIG_TICKS_PER_SECOND"

text \<open>\<open>surplus\<close> and \<open>padding\<close> are below 1000, so the 16-bit and 32-bit variables hold them and the
  product is computed without wrap-around; only the 64-bit results can wrap.\<close>

definition krhino_ms_to_ticks :: "tick \<Rightarrow> tick" where
  "krhino_ms_to_ticks ms =
     (let surplus = unat ms mod 1000;
          ticks = (ms div 1000) * of_nat RHINO_CONFIG_TICKS_PER_SECOND;
          padding = 1000 div RHINO_CONFIG_TICKS_PER_SECOND;
          padding = (if padding > 0 then padding - 1 else 0)
      in ticks + of_nat (((surplus + padding) * RHINO_CONFIG_TICKS_PER_SECOND) div 1000))"

definition krhino_ticks_to_ms :: "tick \<Rightarrow> tick" where
  "krhino_ticks_to_ms ticks =
     (let surplus = unat ticks mod RHINO_CONFIG_TICKS_PER_SECOND;
          time = (ticks div of_nat RHINO_CONFIG_TICKS_PER_SECOND) * 1000;
          padding = RHINO_CONFIG_TICKS_PER_SECOND div 1000;
          padding = (if padding > 0 then padding - 1 else 0)
      in time + of_nat (((surplus + padding) * 1000) div RHINO_CONFIG_TICKS_PER_SECOND))"

section \<open>Expiry keeps the invariant\<close>

text \<open>What becomes of the state of a task whose time is up.\<close>

definition timed_out :: "task_stat \<Rightarrow> task_stat" where
  "timed_out x = (if x = K_PEND \<or> x = K_SLEEP then K_RDY else K_SUSPENDED)"

definition timeout_reason :: "task_stat \<Rightarrow> blk_state" where
  "timeout_reason x = (if pending_state x then BLK_TIMEOUT else BLK_FINISH)"

definition timeout_mid :: "tid \<Rightarrow> runqueue \<Rightarrow> kstate \<Rightarrow> kstate" where
  "timeout_mid t q s = upd_task t (\<lambda>k. k\<lparr>t_blk_state := timeout_reason (st s t), task_state := timed_out (st s t)\<rparr>)
     ((blk_list_rm t (tick_list_rm t s))\<lparr>g_ready_queue := q\<rparr>)"

lemma timeout_mid_views [simp]:
  "st (timeout_mid t q s) = (st s)(t := timed_out (st s t))" "pri (timeout_mid t q s) = pri s"
  "bo (timeout_mid t q s) = bo s" "held (timeout_mid t q s) = held s" "tkm (timeout_mid t q s) = tkm s"
  "tkh (timeout_mid t q s) = (tkh s)(t := False)" "bl (timeout_mid t q s) = (\<lambda>b. remove1 t (bl s b))"
  "pol (timeout_mid t q s) = pol s" "ty (timeout_mid t q s) = ty s" "own (timeout_mid t q s) = own s"
  "g_ready_queue (timeout_mid t q s) = q" "g_active_task (timeout_mid t q s) = g_active_task s"
  "g_tick_count (timeout_mid t q s) = g_tick_count s" "g_kobj_list (timeout_mid t q s) = g_kobj_list s"
  "g_sched_lock (timeout_mid t q s) = g_sched_lock s" "live (timeout_mid t q s) = live s"
  "g_intrpt_nested_level (timeout_mid t q s) = g_intrpt_nested_level s"
  "b_prio (tasks (timeout_mid t q s) u) = b_prio (tasks s u)" "rem (timeout_mid t q s) = rem s"
  "t_blk_state (tasks (timeout_mid t q s) u) = (if u = t then timeout_reason (st s t) else t_blk_state (tasks s u))"
  by (simp_all add: timeout_mid_def upd_task_def tick_list_rm_def blk_list_rm_def view_defs live_def rem_def fun_eq_iff)

lemma g_tick_head_timeout_mid: "tick_ok L s \<Longrightarrow> g_tick_head (timeout_mid t q s) = remove1 t (g_tick_head s)"
  by (auto simp: timeout_mid_def upd_task_def tick_list_rm_def blk_list_rm_def tick_ok_def tkh_def remove1_idem)

lemma with_rq_Inr: "with_rq f s = Inr (s\<lparr>g_ready_queue := q\<rparr>) \<longleftrightarrow> f (g_ready_queue s) = Inr q"
proof -
  have "x = y" if "s\<lparr>g_ready_queue := x\<rparr> = s\<lparr>g_ready_queue := y\<rparr>" for x y
    using arg_cong [OF that, of g_ready_queue] by simp
  then show ?thesis by (auto simp: with_rq_def bnd_eq_Inr)
qed

lemma ready_list_add_eq:
  assumes "ready_list_add t s = Inr (s\<lparr>g_ready_queue := q\<rparr>)" "pri s' = pri s" "g_active_task s' = g_active_task s"
    "g_ready_queue s' = g_ready_queue s"
  shows "ready_list_add t s' = Inr (s'\<lparr>g_ready_queue := q\<rparr>)"
  using assms by (cases "g_active_task s")
    (simp_all add: ready_list_add_def ready_list_add_tail_def ready_list_add_head_def with_rq_Inr active_def split: if_splits)

lemma upd_task_rq: "upd_task t f (s\<lparr>g_ready_queue := q\<rparr>) = (upd_task t f s)\<lparr>g_ready_queue := q\<rparr>"
  by (simp add: upd_task_def)

lemma detach_waiting:
  assumes "kinv A s" "waiting_state (st s t)"
  shows "core_inv (A - {t}) (g_ready_queue s) (st s) (pri s) (bo s) (\<lambda>b. remove1 t (bl s b)) (pol s)"
proof (cases "pending_state (st s t)")
  case True
  then show ?thesis using detach_pending [OF assms(1) [unfolded kinv_def]] by simp
next
  case False
  then have "t \<notin> set (bl s b)" for b using kinv_D(3) [OF assms(1)] by blast
  then have "(\<lambda>b. remove1 t (bl s b)) = bl s" by (simp add: fun_eq_iff remove1_idem)
  then show ?thesis
    using detach_other [OF assms(1) [unfolded kinv_def], of t] False assms(2) by (auto simp: waiting_state_def)
qed

lemma timeout_kinv:
  assumes inv: "kinv A s" and t: "t \<in> A" "waiting_state (st s t)" and a: "g_active_task s = Some a"
  shows "\<exists>q. kinv A (timeout_mid t q s) \<and>
    (if timed_out (st s t) = K_RDY then ready_list_add t s = Inr (s\<lparr>g_ready_queue := q\<rparr>) else q = g_ready_queue s)"
proof -
  note d = detach_waiting [OF inv t(2)]
  have p: "pri s t < 62" using kinv_D(1) [OF inv t(1)] .
  have u: "core_inv (A - {t}) (g_ready_queue s) ((st s)(t := x)) (pri s) (bo s) (\<lambda>b. remove1 t (bl s b)) (pol s)" for x
    using upd_detached [OF d, of t x "pri s t" "bo s t"] by simp
  show ?thesis
  proof (cases "timed_out (st s t) = K_RDY")
    case True
    let ?s = "blk_list_rm t s"
    have "\<exists>q. ready_list_add t ?s = Inr (?s\<lparr>g_ready_queue := q\<rparr>) \<and>
        core_inv (insert t (A - {t})) q ((st s)(t := K_RDY)) (pri s) (bo s) (\<lambda>b. remove1 t (bl s b)) (pol s)"
      using ready_list_add_ok [of "A - {t}" ?s t a] u p a by simp
    then show ?thesis
      using True t(1) ready_list_add_eq [of t ?s _ s] by (auto simp: kinv_def insert_absorb)
  next
    case False
    then have "timed_out (st s t) = K_SUSPENDED" by (simp add: timed_out_def split: if_splits)
    then show ?thesis
      using attach_other [OF u, of t K_SUSPENDED] p t(1) by (simp add: kinv_def insert_absorb)
  qed
qed

lemma blk_list_rm_idle:
  assumes "kinv A s" "\<not> pending_state (st s t)"
  shows "blk_list_rm t s = s"
proof -
  have "t \<notin> set (blk_list (blks s b))" for b using kinv_D(3) [OF assms(1), of t b] assms(2) by (auto simp: bl_def)
  then show ?thesis by (simp add: blk_list_rm_def remove1_idem)
qed

lemma tick_expire_mid:
  assumes inv: "kinv A s" and t: "t \<in> A" "waiting_state (st s t)" and a: "g_active_task s = Some a"
  shows "\<exists>q. kinv A (timeout_mid t q s) \<and> tick_expire t s = (if pending_state (st s t)
    then bnd (mutex_task_pri_reset t (timeout_mid t q s)) (\<lambda>s. Inr (upd_task t (\<lambda>k. k\<lparr>blk_obj := None\<rparr>) s))
    else Inr (timeout_mid t q s))"
proof -
  obtain q where q: "kinv A (timeout_mid t q s)"
    "if timed_out (st s t) = K_RDY then ready_list_add t s = Inr (s\<lparr>g_ready_queue := q\<rparr>) else q = g_ready_queue s"
    using timeout_kinv [OF assms] by blast
  have nop: "\<not> pending_state (st s t) \<Longrightarrow> blk_list_rm t (tick_list_rm t s) = tick_list_rm t s"
    using blk_list_rm_idle [of A "tick_list_rm t s" t] inv by (simp add: kinv_def)
  have sm: "tick_list_rm t (upd_task t f s) = upd_task t f (tick_list_rm t s)"
    if "\<And>k. f (k\<lparr>tick_head := False\<rparr>) = (f k)\<lparr>tick_head := False\<rparr>" "\<And>k. tick_head (f k) = tick_head k" for f
    using that by (simp add: tick_list_rm_def upd_task_def)
  have "tick_expire t s = (if pending_state (st s t)
    then bnd (mutex_task_pri_reset t (timeout_mid t q s)) (\<lambda>s. Inr (upd_task t (\<lambda>k. k\<lparr>blk_obj := None\<rparr>) s))
    else Inr (timeout_mid t q s))"
  proof (cases "st s t")
    case K_SLEEP
    then have "ready_list_add t s = Inr (s\<lparr>g_ready_queue := q\<rparr>)" using q(2) by (simp add: timed_out_def)
    then have "ready_list_add t (tick_list_rm t (upd_task t (\<lambda>k. k\<lparr>t_blk_state := BLK_FINISH, task_state := K_RDY\<rparr>) s)) =
        Inr ((tick_list_rm t (upd_task t (\<lambda>k. k\<lparr>t_blk_state := BLK_FINISH, task_state := K_RDY\<rparr>) s))\<lparr>g_ready_queue := q\<rparr>)"
      by (rule ready_list_add_eq) (simp_all add: view_tasks_upd_task)
    then show ?thesis
      using K_SLEEP nop by (simp add: tick_expire_def timeout_mid_def timed_out_def timeout_reason_def sm upd_task_rq)
  next
    case K_PEND
    then have "ready_list_add t s = Inr (s\<lparr>g_ready_queue := q\<rparr>)" using q(2) by (simp add: timed_out_def)
    then have "ready_list_add t (blk_list_rm t (tick_list_rm t s)) = Inr ((blk_list_rm t (tick_list_rm t s))\<lparr>g_ready_queue := q\<rparr>)"
      by (rule ready_list_add_eq) simp_all
    then show ?thesis
      using K_PEND by (simp add: tick_expire_def timeout_mid_def timed_out_def timeout_reason_def)
  next
    case K_PEND_SUSPENDED
    then have "(blk_list_rm t (tick_list_rm t s))\<lparr>g_ready_queue := q\<rparr> = blk_list_rm t (tick_list_rm t s)"
      using q(2) by (simp add: timed_out_def blk_list_rm_def tick_list_rm_def upd_task_def)
    then show ?thesis
      using K_PEND_SUSPENDED by (simp add: tick_expire_def timeout_mid_def timed_out_def timeout_reason_def)
  next
    case K_SLEEP_SUSPENDED
    then have "(tick_list_rm t s)\<lparr>g_ready_queue := q\<rparr> = tick_list_rm t s"
      using q(2) by (simp add: timed_out_def tick_list_rm_def upd_task_def)
    moreover have "(\<lambda>k :: ktask. k\<lparr>task_state := K_SUSPENDED, t_blk_state := BLK_FINISH\<rparr>) =
        (\<lambda>k. k\<lparr>t_blk_state := BLK_FINISH, task_state := K_SUSPENDED\<rparr>)" by (simp add: fun_eq_iff)
    ultimately show ?thesis
      using K_SLEEP_SUSPENDED nop by (simp add: tick_expire_def timeout_mid_def timed_out_def timeout_reason_def sm upd_task_rq)
  qed (use t(2) in \<open>simp_all add: waiting_state_def\<close>)
  then show ?thesis using q(1) by blast
qed

text \<open>What one expiry does and leaves alone.\<close>

definition expired :: "tid \<Rightarrow> kstate \<Rightarrow> kstate \<Rightarrow> bool" where
  "expired t s s' \<longleftrightarrow> st s' = (st s)(t := timed_out (st s t)) \<and> g_tick_head s' = remove1 t (g_tick_head s) \<and>
     t_blk_state (tasks s' t) = timeout_reason (st s t) \<and>
     (\<forall>u. u \<noteq> t \<longrightarrow> t_blk_state (tasks s' u) = t_blk_state (tasks s u)) \<and>
     rem s' = rem s \<and> g_tick_count s' = g_tick_count s \<and> g_active_task s' = g_active_task s \<and>
     g_sched_lock s' = g_sched_lock s \<and> g_intrpt_nested_level s' = g_intrpt_nested_level s \<and> live s' = live s"

lemma timeout_mid_struct:
  assumes "struct_inv s" "no_deadlock s" "kinv (live s) (timeout_mid t q s)" "waiting_state (st s t)"
  shows "struct_inv (timeout_mid t q s)" "no_deadlock (timeout_mid t q s)" "expired t s (timeout_mid t q s)"
proof -
  have k: "tick_ok (live s) s" "mutex_ok (live s) s" "inherit_ok s" using assms(1) by (auto simp: struct_inv_def)
  have "tick_ok (live s) (timeout_mid t q s)"
    by (rule tick_ok_remove [OF k(1) g_tick_head_timeout_mid [OF k(1)]]) (auto simp: timed_out_def split: if_splits)
  moreover have "mutex_ok (live s) (timeout_mid t q s)"
    by (rule mutex_ok_bl [OF k(2)]) (use mutex_okD(1) [OF k(2)] in \<open>force+\<close>)
  moreover have "inherit_ok (timeout_mid t q s)"
    by (rule inherit_ok_less [OF k(3)]) (auto dest: set_remove1_subset [THEN subsetD])
  ultimately show "struct_inv (timeout_mid t q s)" using assms(3) by (simp add: struct_inv_def)
  have "wait_rel (timeout_mid t q s) \<subseteq> wait_rel s"
    by (auto simp: wait_rel_def timed_out_def split: if_splits)
  then show "no_deadlock (timeout_mid t q s)" using assms(2) acyclic_subset by (auto simp: no_deadlock_def)
  show "expired t s (timeout_mid t q s)" by (simp add: expired_def g_tick_head_timeout_mid [OF k(1)])
qed

lemma blk_obj_None_views:
  "st (upd_task t (\<lambda>k. k\<lparr>blk_obj := None\<rparr>) s) = st s" "rem (upd_task t (\<lambda>k. k\<lparr>blk_obj := None\<rparr>) s) = rem s"
  "t_blk_state (tasks (upd_task t (\<lambda>k. k\<lparr>blk_obj := None\<rparr>) s) u) = t_blk_state (tasks s u)"
  by (simp_all add: view_tasks_upd_task rem_def fun_eq_iff)

lemma struct_blk_obj_None:
  assumes "struct_inv s" "\<not> pending_state (st s t)"
  shows "struct_inv (upd_task t (\<lambda>k. k\<lparr>blk_obj := None\<rparr>) s)" "wait_rel (upd_task t (\<lambda>k. k\<lparr>blk_obj := None\<rparr>) s) = wait_rel s"
proof -
  let ?s = "upd_task t (\<lambda>k. k\<lparr>blk_obj := None\<rparr>) s"
  have v: "st ?s = st s" "pri ?s = pri s" "bo ?s = (bo s)(t := None)" "held ?s = held s" "tkh ?s = tkh s" "tkm ?s = tkm s"
    "b_prio (tasks ?s u) = b_prio (tasks s u)" for u
    by (simp_all add: view_tasks_upd_task)
  have "core_inv (live s) (g_ready_queue s) (st s) (pri s) ((bo s)(t := None)) (bl s) (pol s)"
    using assms unfolding struct_inv_def kinv_def core_inv_def by auto
  moreover have m: "mutex_ok (live s) s" using assms(1) by (simp add: struct_inv_def)
  have "mutex_ok (live s) ?s" by (rule mutex_ok_bl [OF m]) (use mutex_okD(1) [OF m] v in simp_all)
  ultimately show "struct_inv ?s"
    using assms(1) by (simp add: struct_inv_def kinv_def tick_ok_def inherit_ok_def rem_def [abs_def] v)
  show "wait_rel ?s = wait_rel s" using assms(2) by (auto simp: wait_rel_def v split: if_splits)
qed

lemma tick_expire_ok:
  assumes inv: "struct_inv s" "no_deadlock s" and t: "t \<in> set (g_tick_head s)" and a: "g_active_task s = Some a"
  shows "ok (tick_expire t s) (\<lambda>s'. struct_inv s' \<and> no_deadlock s' \<and> expired t s s')"
proof -
  have k: "kinv (live s) s" "tick_ok (live s) s" "mutex_ok (live s) s" using inv(1) by (auto simp: struct_inv_def)
  have tl: "t \<in> live s" "waiting_state (st s t)" using k(2) t by (auto simp: tick_ok_def)
  obtain q where q: "kinv (live s) (timeout_mid t q s)" "tick_expire t s = (if pending_state (st s t)
    then bnd (mutex_task_pri_reset t (timeout_mid t q s)) (\<lambda>s. Inr (upd_task t (\<lambda>k. k\<lparr>blk_obj := None\<rparr>) s))
    else Inr (timeout_mid t q s))"
    using tick_expire_mid [OF k(1) tl a] by blast
  let ?m = "timeout_mid t q s"
  note m = timeout_mid_struct [OF inv q(1) tl(2)]
  show ?thesis
  proof (cases "pending_state (st s t)")
    case False
    then show ?thesis using m by (simp add: q(2))
  next
    case True
    then obtain b where b: "bo s t = Some b" using kinv_D(8) [OF k(1) tl(1)] by blast
    have "t \<in> set (bl s b)" using kinv_D(3) [OF k(1)] tl(1) True b by auto
    then have o: "ty ?m b = RHINO_MUTEX_OBJ_TYPE \<Longrightarrow> own ?m b \<noteq> None" using mutex_okD(1) [OF k(3), of b] by fastforce
    have l: "mutex_lists None ?m" "inherits None ?m"
      using m(1) mutex_okD(2) [of "live ?m" ?m] by (auto simp: struct_inv_def mutex_lists_def inherit_ok_iff inherit_ok_def)
    obtain s1 where s1: "mutex_task_pri_reset t ?m = Inr s1" "weak_inv s1" "inherits None s1" and f: "pri_frame ?m s1"
      using mutex_task_pri_reset_ok [OF struct_weak [OF m(1)] m(2) _ o l] b by (fastforce simp: ok_iff)
    note fv = pri_frame_fields [OF f] pri_frame_views [OF f]
    have "struct_inv s1"
      using s1 m(1) mutex_ok_pri [of "live s" ?m s1] f by (simp add: struct_iff inherit_ok_iff fv)
    moreover have "\<not> pending_state (st s1 t)" by (simp add: fv timed_out_def)
    ultimately have "struct_inv (upd_task t (\<lambda>k. k\<lparr>blk_obj := None\<rparr>) s1)"
      "wait_rel (upd_task t (\<lambda>k. k\<lparr>blk_obj := None\<rparr>) s1) = wait_rel s1"
      using struct_blk_obj_None by blast+
    moreover have "expired t s (upd_task t (\<lambda>k. k\<lparr>blk_obj := None\<rparr>) s1)"
      using m(3) by (simp add: expired_def fv blk_obj_None_views del: tasks_upd_task)
    ultimately show ?thesis
      using True m(2) s1(1) by (simp add: q(2) no_deadlock_def fv)
  qed
qed

section \<open>The tick\<close>

lemma sint_small:
  fixes w :: "64 word"
  assumes "unat w < 2 ^ 63"
  shows "sint w = int (unat w)"
proof -
  have "sint w = signed_take_bit 63 (int (unat w))" by (simp add: sint_uint)
  moreover have "int (unat w) < 2 ^ 63" using assms by (metis of_nat_less_iff of_nat_numeral of_nat_power)
  ultimately show ?thesis by (metis minus_le_iff neg_le_0_iff_le of_nat_0_le_iff order.trans signed_take_bit_int_eq_self zero_le_numeral zero_le_power)
qed

lemma due_iff:
  assumes "rem s t < 2 ^ 63"
  shows "sint (tick_match (tasks s t) - g_tick_count s) \<le> 0 \<longleftrightarrow> rem s t = 0"
  using sint_small [OF assms [unfolded rem_def tkm_def]] unfolding rem_def tkm_def
  by (simp only: of_nat_le_0_iff le_zero_eq)

text \<open>The loop handles exactly the tasks at the front whose time is up.\<close>

lemma tick_loop_ok:
  assumes "struct_inv s" "no_deadlock s" "g_active_task s = Some a" "ts = g_tick_head s"
  shows "ok (tick_loop ts s) (\<lambda>s'. struct_inv s' \<and> no_deadlock s' \<and> none_due s' \<and>
    g_tick_head s' = filter (\<lambda>t. rem s t \<noteq> 0) ts \<and>
    (\<forall>t. if t \<in> set ts \<and> rem s t = 0 then st s' t = timed_out (st s t) \<and> t_blk_state (tasks s' t) = timeout_reason (st s t)
       else st s' t = st s t \<and> t_blk_state (tasks s' t) = t_blk_state (tasks s t)) \<and>
    rem s' = rem s \<and> g_tick_count s' = g_tick_count s \<and> g_active_task s' = Some a \<and> g_sched_lock s' = g_sched_lock s \<and>
    g_intrpt_nested_level s' = g_intrpt_nested_level s \<and> live s' = live s)"
  using assms
proof (induction ts arbitrary: s)
  case Nil
  then show ?case by (simp add: none_due_def)
next
  case (Cons t ts)
  have g: "g_tick_head s = t # ts" using Cons.prems(4) by simp
  have k: "distinct (t # ts)" "sorted (map (rem s) (t # ts))" "rem s t < 2 ^ 63"
    using Cons.prems(1) unfolding struct_inv_def tick_ok_def g by simp_all
  show ?case
  proof (cases "rem s t = 0")
    case False
    then have "\<forall>u \<in> set (t # ts). rem s u \<noteq> 0" using k(2) by fastforce
    moreover have "\<not> sint (tick_match (tasks s t) - g_tick_count s) \<le> 0" using due_iff [OF k(3)] False by simp
    ultimately show ?thesis
      using Cons.prems(1-3) by (auto simp: none_due_def g)
  next
    case True
    obtain s1 where s1: "tick_expire t s = Inr s1" "struct_inv s1" "no_deadlock s1" "expired t s s1"
      using tick_expire_ok [OF Cons.prems(1,2) _ Cons.prems(3), of t] by (auto simp: ok_iff g)
    have e: "ts = g_tick_head s1" "g_active_task s1 = Some a"
      using s1(4) Cons.prems(3) by (simp_all add: expired_def g)
    have r: "rem s1 = rem s" using s1(4) by (simp add: expired_def)
    from Cons.IH [OF s1(2,3) e(2,1)]
    have "ok (tick_loop ts s1) (\<lambda>s'. struct_inv s' \<and> no_deadlock s' \<and> none_due s' \<and>
      g_tick_head s' = filter (\<lambda>t. rem s t \<noteq> 0) (t # ts) \<and>
      (\<forall>u. if u \<in> set (t # ts) \<and> rem s u = 0 then st s' u = timed_out (st s u) \<and> t_blk_state (tasks s' u) = timeout_reason (st s u)
         else st s' u = st s u \<and> t_blk_state (tasks s' u) = t_blk_state (tasks s u)) \<and>
      rem s' = rem s \<and> g_tick_count s' = g_tick_count s \<and> g_active_task s' = Some a \<and> g_sched_lock s' = g_sched_lock s \<and>
      g_intrpt_nested_level s' = g_intrpt_nested_level s \<and> live s' = live s)"
      by (rule ok_mono) (use s1(4) True k(1) r in \<open>auto simp: expired_def split: if_splits\<close>)
    then show ?thesis using s1(1) due_iff [OF k(3)] True by simp
  qed
qed

lemma count_up:
  assumes "kernel_inv s"
  shows "struct_inv (s\<lparr>g_tick_count := g_tick_count s + 1\<rparr>)"
    "t \<in> set (g_tick_head s) \<Longrightarrow> rem (s\<lparr>g_tick_count := g_tick_count s + 1\<rparr>) t = rem s t - 1"
    "wait_rel (s\<lparr>g_tick_count := g_tick_count s + 1\<rparr>) = wait_rel s" "st (s\<lparr>g_tick_count := g_tick_count s + 1\<rparr>) = st s"
    "live (s\<lparr>g_tick_count := g_tick_count s + 1\<rparr>) = live s"
proof -
  define s' where "s' = s\<lparr>g_tick_count := g_tick_count s + 1\<rparr>"
  have v: "st s' = st s" "pri s' = pri s" "bo s' = bo s" "held s' = held s" "tkh s' = tkh s" "tkm s' = tkm s" "bl s' = bl s"
    "pol s' = pol s" "ty s' = ty s" "own s' = own s" "live s' = live s" "g_tick_count s' = g_tick_count s + 1"
    "g_tick_head s' = g_tick_head s" "tasks s' = tasks s" "g_ready_queue s' = g_ready_queue s"
    by (simp_all add: s'_def view_defs live_def fun_eq_iff)
  then show "wait_rel (s\<lparr>g_tick_count := g_tick_count s + 1\<rparr>) = wait_rel s" "st (s\<lparr>g_tick_count := g_tick_count s + 1\<rparr>) = st s"
    "live (s\<lparr>g_tick_count := g_tick_count s + 1\<rparr>) = live s" by (simp_all add: wait_rel_def flip: s'_def)
  have r: "rem s' t = rem s t - 1" if "t \<in> set (g_tick_head s)" for t
  proof -
    have "0 < rem s t" using assms that by (auto simp: kernel_inv_def none_due_def)
    then have "tkm s t - g_tick_count s \<noteq> 0" by (auto simp: rem_def)
    then show ?thesis using unat_minus_one [of "tkm s t - g_tick_count s"] by (simp add: rem_def v diff_diff_eq)
  qed
  then show "t \<in> set (g_tick_head s) \<Longrightarrow> rem (s\<lparr>g_tick_count := g_tick_count s + 1\<rparr>) t = rem s t - 1"
    by (simp flip: s'_def)
  have k: "kinv (live s) s" "tick_ok (live s) s" "mutex_ok (live s) s" "inherit_ok s"
    using assms by (auto simp: kernel_inv_def struct_inv_def)
  have "map (rem s') (g_tick_head s) = map (\<lambda>t. rem s t - 1) (g_tick_head s)" using r by simp
  moreover have "sorted (map (\<lambda>t. rem s t - 1) (g_tick_head s))"
    using k(2) unfolding tick_ok_def sorted_map by (auto elim: sorted_wrt_mono_rel [rotated] intro: diff_le_mono)
  ultimately have "sorted (map (rem s') (g_tick_head s))" by (simp only:)
  then have "tick_ok (live s) s'"
    using k(2) r by (auto simp: tick_ok_def v)
  moreover have "mutex_ok (live s) s'" by (rule mutex_ok_bl [OF k(3)]) (use mutex_okD(1) [OF k(3)] v in simp_all)
  ultimately show "struct_inv (s\<lparr>g_tick_count := g_tick_count s + 1\<rparr>)"
    using k(1,4) unfolding s'_def [symmetric] by (simp add: struct_inv_def kinv_def inherit_ok_def v)
qed

lemma tick_update_ok:
  assumes "kernel_inv s" "no_deadlock s"
  shows "ok (tick_list_update 1 s) (\<lambda>s'. kernel_inv s' \<and> no_deadlock s' \<and> g_tick_count s' = g_tick_count s + 1 \<and>
    g_tick_head s' = filter (\<lambda>t. tkm s t \<noteq> g_tick_count s + 1) (g_tick_head s) \<and>
    (\<forall>t. if t \<in> set (g_tick_head s) \<and> tkm s t = g_tick_count s + 1
         then st s' t = timed_out (st s t) \<and> t_blk_state (tasks s' t) = timeout_reason (st s t)
         else st s' t = st s t \<and> t_blk_state (tasks s' t) = t_blk_state (tasks s t)))"
proof -
  define s0 where "s0 = s\<lparr>g_tick_count := g_tick_count s + 1\<rparr>"
  note c = count_up [OF assms(1), folded s0_def]
  obtain a where a: "g_active_task s = Some a" "a \<in> live s"
    "g_intrpt_nested_level s = 0 \<or> g_sched_lock s > 0 \<longrightarrow> st s a = K_RDY"
    using assms(1) by (auto simp: kernel_inv_def active_ok_def)
  have v: "g_active_task s0 = Some a" "g_tick_head s0 = g_tick_head s" "tasks s0 = tasks s" "g_sched_lock s0 = g_sched_lock s"
    "g_intrpt_nested_level s0 = g_intrpt_nested_level s" "g_tick_count s0 = g_tick_count s + 1" "tkm s0 = tkm s"
    using a by (simp_all add: s0_def tkm_def fun_eq_iff)
  have r: "rem s0 t = 0 \<longleftrightarrow> tkm s t = g_tick_count s + 1" for t by (simp add: rem_def v unat_0_iff)
  have ra: "a \<notin> set (g_tick_head s)" if "st s a = K_RDY"
    using assms(1) that by (auto simp: kernel_inv_def struct_inv_def tick_ok_def waiting_state_def)
  have "tick_list_update 1 s = tick_loop (g_tick_head s0) s0" by (simp add: tick_list_update_def s0_def)
  then show ?thesis
    using tick_loop_ok [OF c(1) _ v(1) refl] assms(2) a ra
    by (auto simp: no_deadlock_def c v r kernel_inv_def active_ok_def ok_iff if_bool_eq_conj)
qed

text \<open>
  C7. A tick advances the count by one and ends the wait of exactly the tasks whose match value is the
  new count, never early and never late: a waiting task gets status \<open>BLK_TIMEOUT\<close>, a sleeping one
  \<open>BLK_FINISH\<close>, and either becomes ready unless it is also suspended; every other task keeps its state
  and its place on the time list. The walk, with the priority resets it triggers, ends and the kernel
  invariant is kept.
\<close>

theorem tick_wakes_exactly_due:
  assumes "kernel_inv s" "no_deadlock s"
  shows "ok (tick_list_update 1 s) (\<lambda>s'. kernel_inv s' \<and> no_deadlock s' \<and> g_tick_count s' = g_tick_count s + 1 \<and>
    g_tick_head s' = filter (\<lambda>t. tkm s t \<noteq> g_tick_count s + 1) (g_tick_head s) \<and>
    (\<forall>t. if t \<in> set (g_tick_head s) \<and> tkm s t = g_tick_count s + 1
         then st s' t = timed_out (st s t) \<and> t_blk_state (tasks s' t) = timeout_reason (st s t)
         else st s' t = st s t \<and> t_blk_state (tasks s' t) = t_blk_state (tasks s t)))"
  by (rule tick_update_ok; fact assms)

theorem tick_wakes_exactly_due_witness:
  "ok (tick_list_update 1 ex_state) (\<lambda>s'. kernel_inv s' \<and> g_tick_head s' = [14] \<and> st s' 10 = K_RDY \<and> st s' 14 = K_PEND)"
  by (rule ok_mono [OF tick_wakes_exactly_due [OF ex_kernel_inv ex_no_deadlock]])
    (auto simp: timed_out_def if_bool_eq_conj)

section \<open>Time slices\<close>

lemma kinv_rotate:
  assumes "kinv A s" "cur_list_item (g_ready_queue s) p \<noteq> []"
  shows "\<exists>q. ready_list_head_to_tail_rq (g_ready_queue s) p = Inr q \<and> kinv A (s\<lparr>g_ready_queue := q\<rparr>) \<and>
    cur_list_item q = (cur_list_item (g_ready_queue s))(p := rotate1 (cur_list_item (g_ready_queue s) p))"
proof -
  have "rq_inv (g_ready_queue s)" using assms(1) by (simp add: kinv_def core_inv_def)
  from rq.rotate [OF this assms(2)] obtain q where q: "ready_list_head_to_tail_rq (g_ready_queue s) p = Inr q" "rq_inv q"
    "cur_list_item q = (cur_list_item (g_ready_queue s))(p := rotate1 (cur_list_item (g_ready_queue s) p))"
    by (auto simp: ok_iff)
  have "kinv A (s\<lparr>g_ready_queue := q\<rparr>)"
    using assms(1) q(2) unfolding kinv_def core_inv_def by (simp add: q(3))
  then show ?thesis using q by blast
qed

lemma kernel_inv_rq:
  assumes "kernel_inv s" "kinv (live s) (s\<lparr>g_ready_queue := q\<rparr>)"
  shows "kernel_inv (s\<lparr>g_ready_queue := q\<rparr>)"
proof -
  have m: "mutex_ok (live s) s" using assms(1) by (simp add: kernel_inv_def struct_inv_def)
  have "mutex_ok (live s) (s\<lparr>g_ready_queue := q\<rparr>)"
    by (rule mutex_ok_bl [OF m]) (use mutex_okD(1) [OF m] in simp_all)
  then show ?thesis
    using assms by (simp add: kernel_inv_def struct_inv_def tick_ok_def inherit_ok_def none_due_def active_ok_def rem_def [abs_def])
qed

lemma neutral_slice: "neutral (\<lambda>k. k\<lparr>time_slice := f k\<rparr>)"
  by (simp add: neutral_def)

lemma kernel_inv_neutral: "neutral f \<Longrightarrow> kernel_inv (upd_task t f s) = kernel_inv s"
  by (rule same_sched_inv [OF same_sched_task])

lemma time_slice_ok:
  assumes inv: "kernel_inv s" and a: "g_active_task s = Some a"
    and xs: "cur_list_item (g_ready_queue s) (pri s a) = t # u # us" and p: "sched_policy (tasks s t) \<noteq> KSCHED_FIFO"
  shows "ok (sched_time_slice_update s) (\<lambda>s'. kernel_inv s' \<and> wait_rel s' = wait_rel s \<and> st s' = st s \<and> pri s' = pri s \<and>
    (if time_slice (tasks s t) \<le> 1
     then cur_list_item (g_ready_queue s') = (cur_list_item (g_ready_queue s))(pri s a := u # us @ [t]) \<and>
       time_slice (tasks s' t) = time_total (tasks s t)
     else g_ready_queue s' = g_ready_queue s \<and> time_slice (tasks s' t) = time_slice (tasks s t) - 1))"
proof -
  have k: "kinv (live s) s" using inv by (simp add: kernel_inv_def struct_inv_def)
  have pa: "ready_item (g_ready_queue s) (pri s a) = Inr (t # u # us)"
    using rq.items_range [of "g_ready_queue s" "pri s a"] xs k by (simp add: ready_item_def kinv_def core_inv_def)
  have pt: "pri s t = pri s a" using kinv_D(9) [OF k, of t "pri s a"] xs by simp
  define s1 where "s1 = (if time_slice (tasks s t) > 0 then upd_task t (\<lambda>k. k\<lparr>time_slice := time_slice k - 1\<rparr>) s else s)"
  have i1: "kernel_inv s1" "st s1 = st s" "pri s1 = pri s" "g_ready_queue s1 = g_ready_queue s" "live s1 = live s"
    "time_total (tasks s1 t) = time_total (tasks s t)" "wait_rel s1 = wait_rel s"
    using inv by (simp_all add: s1_def kernel_inv_neutral neutral_slice neutral_views wait_rel_same same_sched_task)
  have z: "time_slice (tasks s1 t) > 0 \<longleftrightarrow> \<not> time_slice (tasks s t) \<le> 1"
    by (auto simp: s1_def word_gt_0 not_le word_less_nat_alt unat_minus_one) (auto simp: word_unat_eq_iff unat_minus_one)
  have e: "sched_time_slice_update s = (if time_slice (tasks s1 t) > 0 then Inr s1
     else bnd (ready_list_head_to_tail t s1) (\<lambda>s. Inr (upd_task t (\<lambda>k. k\<lparr>time_slice := time_total k\<rparr>) s)))"
    using pa p by (simp add: sched_time_slice_update_def active_eq [OF a] Let_def s1_def)
  show ?thesis
  proof (cases "time_slice (tasks s t) \<le> 1")
    case False
    then have "time_slice (tasks s t) > 0" by (simp add: word_le_nat_alt word_less_nat_alt)
    then have "time_slice (tasks s1 t) = time_slice (tasks s t) - 1" by (simp add: s1_def)
    then show ?thesis using False z i1 by (simp add: e)
  next
    case True
    have k1: "kinv (live s1) s1" using i1(1) by (simp add: kernel_inv_def struct_inv_def)
    obtain q where q: "ready_list_head_to_tail_rq (g_ready_queue s1) (pri s1 t) = Inr q"
      "kinv (live s1) (s1\<lparr>g_ready_queue := q\<rparr>)"
      "cur_list_item q = (cur_list_item (g_ready_queue s1))(pri s1 t := rotate1 (cur_list_item (g_ready_queue s1) (pri s1 t)))"
      using kinv_rotate [OF k1, of "pri s1 t"] xs by (auto simp: i1 pt)
    have "kernel_inv (s1\<lparr>g_ready_queue := q\<rparr>)" using kernel_inv_rq [OF i1(1) q(2)] .
    moreover have "wait_rel (upd_task t (\<lambda>k. k\<lparr>time_slice := time_total k\<rparr>) (s1\<lparr>g_ready_queue := q\<rparr>)) = wait_rel s"
      by (subst wait_rel_same [OF same_sched_task [OF neutral_slice]], subst i1(7) [symmetric]) (simp add: wait_rel_def)
    ultimately show ?thesis
      using True z q(1,3) i1 xs pt
      by (auto simp: e ready_list_head_to_tail_def with_rq_def kernel_inv_neutral neutral_slice neutral_views)
  qed
qed

text \<open>
  C32. Round robin: while several tasks of the running task's priority are ready, the first one that is not
  scheduled first-in first-out loses one tick of its slice; when the slice is used up it goes behind the
  others of its priority and gets a fresh slice. The kernel invariant is kept.
\<close>

theorem time_slice_rotates:
  assumes inv: "kernel_inv s" and a: "g_active_task s = Some a"
    and xs: "cur_list_item (g_ready_queue s) (pri s a) = t # u # us" and p: "sched_policy (tasks s t) \<noteq> KSCHED_FIFO"
  shows "ok (sched_time_slice_update s) (\<lambda>s'. kernel_inv s' \<and> wait_rel s' = wait_rel s \<and> st s' = st s \<and> pri s' = pri s \<and>
    (if time_slice (tasks s t) \<le> 1
     then cur_list_item (g_ready_queue s') = (cur_list_item (g_ready_queue s))(pri s a := u # us @ [t]) \<and>
       time_slice (tasks s' t) = time_total (tasks s t)
     else g_ready_queue s' = g_ready_queue s \<and> time_slice (tasks s' t) = time_slice (tasks s t) - 1))"
  by (rule time_slice_ok; fact assms)

theorem time_slice_rotates_witness:
  "ok (sched_time_slice_update (upd_task 5 (\<lambda>k. k\<lparr>time_slice := 1\<rparr>) ex_state)) (\<lambda>s'. kernel_inv s' \<and>
     cur_list_item (g_ready_queue s') 10 = [11, 5] \<and> time_slice (tasks s' 5) = 50)"
proof -
  let ?s = "upd_task 5 (\<lambda>k. k\<lparr>time_slice := 1\<rparr>) ex_state"
  have "kernel_inv ?s" using ex_kernel_inv by (simp add: kernel_inv_neutral neutral_slice)
  moreover have "pri ?s 5 = 10" by (simp add: neutral_views neutral_slice)
  moreover have "sched_policy (ex_tasks 5) = KSCHED_RR" "time_total (ex_tasks 5) = 50"
    by (simp_all add: ex_tasks_def ex_task_def)
  ultimately show ?thesis
    using time_slice_rotates [of ?s 5 5 11 "[]"]
    by (auto simp: ok_iff ex_rq_def KSCHED_RR_def KSCHED_FIFO_def)
qed

section \<open>Conversions\<close>

lemma unat_of_nat_64: "n < 2 ^ 64 \<Longrightarrow> unat (of_nat n :: 64 word) = n"
  by (simp add: unat_of_nat)

lemma ms_to_ticks_value: "unat (krhino_ms_to_ticks ms) = (unat ms + 9) div 10"
proof -
  define q r where "q = unat ms div 1000" and "r = unat ms mod 1000"
  have m: "unat ms = 1000 * q + r" "r < 1000" by (simp_all add: q_def r_def)
  have lt: "unat ms < 2 ^ 64" using unsigned_less [of ms] by simp
  have "ms div 1000 = of_nat (unat (ms div 1000))" by simp
  then have "ms div 1000 = of_nat q" unfolding unat_div q_def by simp
  then have "krhino_ms_to_ticks ms = of_nat (q * 100 + ((r + 9) * 100) div 1000)"
    by (simp add: krhino_ms_to_ticks_def RHINO_CONFIG_TICKS_PER_SECOND_def Let_def r_def)
  moreover have "q * 100 + ((r + 9) * 100) div 1000 = (unat ms + 9) div 10" unfolding m(1) by simp
  ultimately have "krhino_ms_to_ticks ms = of_nat ((unat ms + 9) div 10)" by (simp only:)
  moreover have "(unat ms + 9) div 10 < 2 ^ 64" using lt by simp
  ultimately show ?thesis using unat_of_nat_64 by (simp only:)
qed

text \<open>
  Milliseconds are converted to ticks of ten milliseconds by rounding up, for every 64-bit argument: the
  ticks last at least as long as asked for, by less than one tick, and no step wraps around.
\<close>

theorem ms_to_ticks_rounds_up:
  "unat ms \<le> 10 * unat (krhino_ms_to_ticks ms) \<and> 10 * unat (krhino_ms_to_ticks ms) < unat ms + 10"
  unfolding ms_to_ticks_value by linarith

text \<open>
  Ticks converted to milliseconds and back are the same ticks, as long as the milliseconds fit the
  64-bit result, and the milliseconds are exactly ten per tick.
\<close>

theorem ticks_ms_round_trip:
  assumes "unat t * 10 < 2 ^ 64"
  shows "unat (krhino_ticks_to_ms t) = unat t * 10 \<and> krhino_ms_to_ticks (krhino_ticks_to_ms t) = t"
proof -
  define q r where "q = unat t div 100" and "r = unat t mod 100"
  have m: "unat t = 100 * q + r" by (simp add: q_def r_def)
  have "t div 100 = of_nat (unat (t div 100))" by simp
  then have "t div 100 = of_nat q" unfolding unat_div q_def by simp
  then have "krhino_ticks_to_ms t = of_nat (q * 1000 + r * 1000 div 100)"
    by (simp add: krhino_ticks_to_ms_def RHINO_CONFIG_TICKS_PER_SECOND_def Let_def r_def)
  moreover have "q * 1000 + r * 1000 div 100 = unat t * 10" unfolding m by simp
  ultimately have "krhino_ticks_to_ms t = of_nat (unat t * 10)" by (simp only:)
  then have u: "unat (krhino_ticks_to_ms t) = unat t * 10" using unat_of_nat_64 [OF assms] by (simp only:)
  then have "unat (krhino_ms_to_ticks (krhino_ticks_to_ms t)) = unat t"
    using ms_to_ticks_value [of "krhino_ticks_to_ms t"] by simp
  then show ?thesis using u by (simp add: word_unat_eq_iff)
qed

theorem ticks_ms_round_trip_witness:
  "unat (krhino_ticks_to_ms 1234) = 12340 \<and> krhino_ms_to_ticks (krhino_ticks_to_ms 1234) = 1234"
  using ticks_ms_round_trip [of 1234] by simp

end
