(* ===== verification/Task.thy ===== *)
theory Task
  imports Sem Tick
begin

text \<open>
  Tasks (\<^verbatim>\<open>k_task.c\<close>): creation, sleep, yield, suspend and resume, change of priority, deletion, time
  slices and scheduling policy. The contents of task stacks are not modelled, nor is the record
  \<open>res_free\<close> that deletion leaves there for the hook; a call that returns with interrupts
  disabled (deletion of the idle task) is a plain return here;
  \<open>krhino_mm_alloc\<close> of the dynamic creation is the argument \<open>alloc\<close>, the address of the stack and
  the task control block behind it.
\<close>

section \<open>Creation\<close>

text \<open>The control block after \<open>memset\<close>.\<close>

definition zero_task :: ktask where
  "zero_task = \<lparr>task_stack_base = 0, user_info = replicate RHINO_CONFIG_TASK_INFO_NUM 0, stack_size = 0,
     suspend_count = 0, t_mutex_list = [], tick_match = 0, tick_remain = 0, tick_head = False, msg = 0,
     bq_msg_size = 0, task_name = None, task_state = K_SEED, t_blk_state = BLK_FINISH, blk_obj = None,
     task_sem_obj = None, time_slice = 0, time_total = 0, pend_flags = 0, pend_info = 0,
     pend_option = 0, sched_policy = 0, prio = 0, b_prio = 0, t_mm_alloc_flag = 0\<rparr>"

definition new_task ::
  "string option \<Rightarrow> nat \<Rightarrow> tick \<Rightarrow> nat \<Rightarrow> nat \<Rightarrow> bool \<Rightarrow> 8 word \<Rightarrow> ktask" where
  "new_task name p ticks stack_buf ssize autorun mm_alloc_flag =
     (let k = zero_task\<lparr>time_total := (if ticks > 0 then ucast ticks else RHINO_CONFIG_TIME_SLICE_DEFAULT)\<rparr>;
          k = k\<lparr>time_slice := time_total k, sched_policy := KSCHED_RR\<rparr>;
          k = (if autorun then k\<lparr>task_state := K_RDY\<rparr> else k\<lparr>task_state := K_SUSPENDED, suspend_count := 1\<rparr>)
      in k\<lparr>task_stack_base := stack_buf, task_name := name, prio := p, b_prio := p,
           stack_size := ssize, t_mm_alloc_flag := mm_alloc_flag\<rparr>)"

definition task_create ::
  "tid option \<Rightarrow> string option \<Rightarrow> nat \<Rightarrow> tick \<Rightarrow> nat option \<Rightarrow> nat \<Rightarrow> bool \<Rightarrow> bool \<Rightarrow> 8 word \<Rightarrow> kstate
    \<Rightarrow> (kstat \<times> kstate) outcome" where
  "task_create task name p ticks stack_buf ssize entry_null autorun mm_alloc_flag s =
     (case task of
        None \<Rightarrow> Inr (RHINO_NULL_PTR, s)
      | Some t \<Rightarrow>
          if name = None \<or> entry_null then Inr (RHINO_NULL_PTR, s)
          else (case stack_buf of
                  None \<Rightarrow> Inr (RHINO_NULL_PTR, s)
                | Some sb \<Rightarrow>
                    if ssize = 0 then Inr (RHINO_TASK_INV_STACK_SIZE, s)
                    else if p \<ge> RHINO_CONFIG_PRI_MAX then Inr (RHINO_BEYOND_MAX_PRI, s)
                    else if g_intrpt_nested_level s > 0 then Inr (RHINO_NOT_CALLED_BY_INTRPT, s)
                    else if p = RHINO_IDLE_PRI \<and> g_idle_task_spawned s > 0
                    then Inr (RHINO_IDLE_TASK_EXIST, s)
                    else (let s = (if p = RHINO_IDLE_PRI then s\<lparr>g_idle_task_spawned := 1\<rparr> else s);
                              s = upd_task t (\<lambda>k. new_task name p ticks sb ssize autorun mm_alloc_flag) s;
                              s = upd_kobj (\<lambda>k. k\<lparr>task_head := task_head k @ [t]\<rparr>) s
                          in if autorun
                             then bnd (ready_list_add_tail t s) (\<lambda>s.
                               if g_sys_stat s = RHINO_RUNNING then exit_sched RHINO_SUCCESS s
                               else Inr (RHINO_SUCCESS, s))
                             else Inr (RHINO_SUCCESS, s))))"

definition krhino_task_create ::
  "tid option \<Rightarrow> string option \<Rightarrow> nat \<Rightarrow> tick \<Rightarrow> nat option \<Rightarrow> nat \<Rightarrow> bool \<Rightarrow> bool \<Rightarrow> kstate
    \<Rightarrow> (kstat \<times> kstate) outcome" where
  "krhino_task_create task name p ticks stack_buf ssize entry_null autorun s =
     task_create task name p ticks stack_buf ssize entry_null autorun K_OBJ_STATIC_ALLOC s"

definition task_dyn_create ::
  "bool \<Rightarrow> (nat \<times> tid) option \<Rightarrow> string option \<Rightarrow> nat \<Rightarrow> tick \<Rightarrow> nat \<Rightarrow> bool \<Rightarrow> bool \<Rightarrow> kstate
    \<Rightarrow> (kstat \<times> tid option \<times> kstate) outcome" where
  "task_dyn_create task_null alloc name p ticks stack entry_null autorun s =
     (if task_null then Inr (RHINO_NULL_PTR, None, s)
      else if stack = 0 then Inr (RHINO_INV_PARAM, None, s)
      else (case alloc of
              None \<Rightarrow> Inr (RHINO_NO_MEM, None, s)
            | Some (task_stack, task_obj) \<Rightarrow>
                bnd (task_create (Some task_obj) name p ticks (Some task_stack) stack entry_null autorun
                       K_OBJ_DYN_ALLOC s) (\<lambda>(ret, s).
                  if ret \<noteq> RHINO_SUCCESS \<and> ret \<noteq> RHINO_STOPPED then Inr (ret, None, s)
                  else Inr (ret, Some task_obj, s))))"

definition krhino_task_dyn_create ::
  "bool \<Rightarrow> (nat \<times> tid) option \<Rightarrow> string option \<Rightarrow> nat \<Rightarrow> tick \<Rightarrow> nat \<Rightarrow> bool \<Rightarrow> bool \<Rightarrow> kstate
    \<Rightarrow> (kstat \<times> tid option \<times> kstate) outcome" where
  "krhino_task_dyn_create task_null alloc name p ticks stack entry_null autorun s =
     task_dyn_create task_null alloc name p ticks stack entry_null autorun s"

section \<open>Sleep, yield, suspend, resume\<close>

definition krhino_task_sleep :: "tick \<Rightarrow> kstate \<Rightarrow> (kret \<times> kstate) outcome" where
  "krhino_task_sleep ticks s =
     (if ticks = 0 then Inr (Ret RHINO_INV_PARAM, s)
      else if g_intrpt_nested_level s > 0 then Inr (Ret RHINO_NOT_CALLED_BY_INTRPT, s)
      else if g_sched_lock s > 0 then Inr (Ret RHINO_SCHED_DISABLE, s)
      else bnd (active s) (\<lambda>a.
           bnd (ready_list_rm a (tick_list_insert a ticks (set_state a K_SLEEP s))) (\<lambda>s.
           bnd (core_sched s) (\<lambda>s. Inr (Pending, s)))))"

definition krhino_task_yield :: "kstate \<Rightarrow> (kstat \<times> kstate) outcome" where
  "krhino_task_yield s =
     bnd (active s) (\<lambda>a. bnd (ready_list_head_to_tail a s) (exit_sched RHINO_SUCCESS))"

definition krhino_cur_task_get :: "kstate \<Rightarrow> tid option" where
  "krhino_cur_task_get s = g_active_task s"

definition task_suspend :: "tid \<Rightarrow> kstate \<Rightarrow> (kstat \<times> kstate) outcome" where
  "task_suspend task s =
     (if Some task = g_active_task s \<and> g_sched_lock s > 0 then Inr (RHINO_SCHED_DISABLE, s)
      else (let susp = (\<lambda>x s. upd_task task (\<lambda>k. k\<lparr>suspend_count := 1, task_state := x\<rparr>) s);
                again = (if suspend_count (tasks s task) = -1 then Inr (RHINO_SUSPENDED_COUNT_OVF, s)
                         else exit_sched RHINO_SUCCESS
                                (upd_task task (\<lambda>k. k\<lparr>suspend_count := suspend_count k + 1\<rparr>) s))
            in case st s task of
                 K_RDY \<Rightarrow> bnd (ready_list_rm task (susp K_SUSPENDED s)) (exit_sched RHINO_SUCCESS)
               | K_SLEEP \<Rightarrow> exit_sched RHINO_SUCCESS (susp K_SLEEP_SUSPENDED s)
               | K_PEND \<Rightarrow> exit_sched RHINO_SUCCESS (susp K_PEND_SUSPENDED s)
               | K_SUSPENDED \<Rightarrow> again
               | K_SLEEP_SUSPENDED \<Rightarrow> again
               | K_PEND_SUSPENDED \<Rightarrow> again
               | K_SEED \<Rightarrow> Inr (RHINO_INV_TASK_STATE, s)
               | K_DELETED \<Rightarrow> Inr (RHINO_INV_TASK_STATE, s)))"

definition krhino_task_suspend :: "tid option \<Rightarrow> kstate \<Rightarrow> (kstat \<times> kstate) outcome" where
  "krhino_task_suspend task s =
     (case task of
        None \<Rightarrow> Inr (RHINO_NULL_PTR, s)
      | Some t \<Rightarrow> if pri s t = RHINO_IDLE_PRI then Inr (RHINO_TASK_SUSPEND_NOT_ALLOWED, s)
                  else task_suspend t s)"

definition task_resume :: "tid \<Rightarrow> kstate \<Rightarrow> (kstat \<times> kstate) outcome" where
  "task_resume task s =
     (let dec = (\<lambda>s. upd_task task (\<lambda>k. k\<lparr>suspend_count := suspend_count k - 1\<rparr>) s)
      in case st s task of
           K_RDY \<Rightarrow> Inr (RHINO_TASK_NOT_SUSPENDED, s)
         | K_SLEEP \<Rightarrow> Inr (RHINO_TASK_NOT_SUSPENDED, s)
         | K_PEND \<Rightarrow> Inr (RHINO_TASK_NOT_SUSPENDED, s)
         | K_SUSPENDED \<Rightarrow>
             (let s = dec s
              in bnd (if suspend_count (tasks s task) = 0
                      then ready_list_add task (set_state task K_RDY s) else Inr s)
                   (exit_sched RHINO_SUCCESS))
         | K_SLEEP_SUSPENDED \<Rightarrow>
             (let s = dec s
              in exit_sched RHINO_SUCCESS
                   (if suspend_count (tasks s task) = 0 then set_state task K_SLEEP s else s))
         | K_PEND_SUSPENDED \<Rightarrow>
             (let s = dec s
              in exit_sched RHINO_SUCCESS
                   (if suspend_count (tasks s task) = 0 then set_state task K_PEND s else s))
         | _ \<Rightarrow> Inr (RHINO_INV_TASK_STATE, s))"

definition krhino_task_resume :: "tid option \<Rightarrow> kstate \<Rightarrow> (kstat \<times> kstate) outcome" where
  "krhino_task_resume task s =
     (case task of None \<Rightarrow> Inr (RHINO_NULL_PTR, s) | Some t \<Rightarrow> task_resume t s)"

section \<open>Priority\<close>

text \<open>The second component of the result is what is stored at \<open>*old_pri\<close>, if anything.\<close>

definition krhino_task_pri_change ::
  "tid option \<Rightarrow> nat \<Rightarrow> bool \<Rightarrow> kstate \<Rightarrow> (kstat \<times> nat option \<times> kstate) outcome" where
  "krhino_task_pri_change task p old_pri_null s =
     (case task of
        None \<Rightarrow> Inr (RHINO_NULL_PTR, None, s)
      | Some t \<Rightarrow>
          if old_pri_null then Inr (RHINO_NULL_PTR, None, s)
          else if pri s t \<ge> RHINO_IDLE_PRI then Inr (RHINO_PRI_CHG_NOT_ALLOWED, None, s)
          else if p \<ge> RHINO_IDLE_PRI then Inr (RHINO_PRI_CHG_NOT_ALLOWED, None, s)
          else if st s t = K_DELETED then Inr (RHINO_INV_TASK_STATE, None, s)
          else if g_intrpt_nested_level s > 0 then Inr (RHINO_NOT_CALLED_BY_INTRPT, None, s)
          else (let pri_limit = mutex_pri_limit s t p;
                    s = upd_task t (\<lambda>k. k\<lparr>b_prio := p\<rparr>) s;
                    old_pri = pri s t
                in bnd (task_pri_change t pri_limit s) (\<lambda>(error, s).
                     if error \<noteq> RHINO_SUCCESS then Inr (error, Some old_pri, s)
                     else bnd (core_sched s) (\<lambda>s. Inr (RHINO_SUCCESS, Some old_pri, s)))))"

section \<open>Deletion\<close>

text \<open>The loop of \<open>task_mutex_free\<close> over the mutexes of the deleted task; the link to the next mutex
  is read before the current one is handed over. The chain of the deleted task is left as it is.\<close>

fun mutex_free_loop :: "oid list \<Rightarrow> kstate \<Rightarrow> kstate outcome" where
  "mutex_free_loop [] s = Inr s"
| "mutex_free_loop (m # ms) s =
     (case blk_list (blks s m) of
        [] \<Rightarrow> mutex_free_loop ms (s\<lparr>mutexes := (mutexes s)(m := (mutexes s m)\<lparr>mutex_task := None\<rparr>)\<rparr>)
      | t # _ \<Rightarrow>
          bnd (pend_task_wakeup t s) (\<lambda>s.
            let s = s\<lparr>mutexes := (mutexes s)(m := (mutexes s m)\<lparr>mutex_task := Some t\<rparr>)\<rparr>;
                s = upd_task t (\<lambda>k. k\<lparr>t_mutex_list := m # t_mutex_list k\<rparr>) s
            in mutex_free_loop ms s))"

definition task_mutex_free :: "tid \<Rightarrow> kstate \<Rightarrow> kstate outcome" where
  "task_mutex_free task s = mutex_free_loop (t_mutex_list (tasks s task)) s"

text \<open>The switch on the state, common to both deletions; \<open>None\<close> is the default branch.\<close>

definition task_del_state :: "tid \<Rightarrow> kstate \<Rightarrow> kstate option outcome" where
  "task_del_state task s =
     (case st s task of
        K_RDY \<Rightarrow> bnd (ready_list_rm task s) (\<lambda>s. Inr (Some (set_state task K_DELETED s)))
      | K_SUSPENDED \<Rightarrow> Inr (Some (set_state task K_DELETED s))
      | K_SLEEP \<Rightarrow> Inr (Some (set_state task K_DELETED (tick_list_rm task s)))
      | K_SLEEP_SUSPENDED \<Rightarrow> Inr (Some (set_state task K_DELETED (tick_list_rm task s)))
      | K_PEND \<Rightarrow>
          bnd (mutex_task_pri_reset task (set_state task K_DELETED (blk_list_rm task (tick_list_rm task s))))
            (\<lambda>s. Inr (Some s))
      | K_PEND_SUSPENDED \<Rightarrow>
          bnd (mutex_task_pri_reset task (set_state task K_DELETED (blk_list_rm task (tick_list_rm task s))))
            (\<lambda>s. Inr (Some s))
      | _ \<Rightarrow> Inr None)"

definition task_stats_rm :: "tid \<Rightarrow> kstate \<Rightarrow> kstate" where
  "task_stats_rm task s = upd_kobj (\<lambda>k. k\<lparr>task_head := remove1 task (task_head k)\<rparr>) s"

definition krhino_task_del :: "tid option \<Rightarrow> kstate \<Rightarrow> (kstat \<times> kstate) outcome" where
  "krhino_task_del task s =
     (if g_intrpt_nested_level s > 0 then Inr (RHINO_NOT_CALLED_BY_INTRPT, s)
      else bnd (case task of None \<Rightarrow> active s | Some t \<Rightarrow> Inr t) (\<lambda>t.
        if pri s t = RHINO_IDLE_PRI then Inr (RHINO_TASK_DEL_NOT_ALLOWED, s)
        else if t_mm_alloc_flag (tasks s t) \<noteq> K_OBJ_STATIC_ALLOC then Inr (RHINO_KOBJ_DEL_ERR, s)
        else if Some t = g_active_task s \<and> g_sched_lock s > 0 then Inr (RHINO_SCHED_DISABLE, s)
        else bnd (task_mutex_free t s) (\<lambda>s.
             bnd (task_del_state t s) (\<lambda>r.
               case r of
                 None \<Rightarrow> Inr (RHINO_INV_TASK_STATE, s)
               | Some s \<Rightarrow> exit_sched RHINO_SUCCESS (task_stats_rm t s)))))"

definition krhino_task_dyn_del :: "tid option \<Rightarrow> kstate \<Rightarrow> (kstat \<times> kstate) outcome" where
  "krhino_task_dyn_del task s =
     (if g_intrpt_nested_level s > 0 then Inr (RHINO_NOT_CALLED_BY_INTRPT, s)
      else bnd (case task of None \<Rightarrow> active s | Some t \<Rightarrow> Inr t) (\<lambda>t.
        if pri s t = RHINO_IDLE_PRI then Inr (RHINO_TASK_DEL_NOT_ALLOWED, s)
        else if t_mm_alloc_flag (tasks s t) \<noteq> K_OBJ_DYN_ALLOC then Inr (RHINO_KOBJ_DEL_ERR, s)
        else if Some t = g_active_task s \<and> g_sched_lock s > 0 then Inr (RHINO_SCHED_DISABLE, s)
        else if st s t = K_DELETED then Inr (RHINO_INV_TASK_STATE, s)
        else (let s = s\<lparr>g_sched_lock := g_sched_lock s + 1\<rparr>;
                  s = s\<lparr>g_res_list := g_res_list s @ [\<lparr>res_cnt = 1, res = [task_stack_base (tasks s t)]\<rparr>]\<rparr>
              in bnd (krhino_sem_give (Some g_res_sem) s) (\<lambda>(ret, s).
                 let s = s\<lparr>g_sched_lock := g_sched_lock s - 1\<rparr>
                 in if ret \<noteq> RHINO_SUCCESS then k_err_proc RHINO_SYS_SP_ERR
                    else bnd (task_mutex_free t s) (\<lambda>s.
                         bnd (task_del_state t s) (\<lambda>r.
                           exit_sched RHINO_SUCCESS
                             (task_stats_rm t (case r of None \<Rightarrow> s | Some s' \<Rightarrow> s'))))))))"

section \<open>Time slice, policy, user data\<close>

definition krhino_task_time_slice_set :: "tid option \<Rightarrow> 32 word \<Rightarrow> kstate \<Rightarrow> kstat \<times> kstate" where
  "krhino_task_time_slice_set task new_slice s =
     (case task of
        None \<Rightarrow> (RHINO_NULL_PTR, s)
      | Some t \<Rightarrow>
          if g_intrpt_nested_level s > 0 then (RHINO_NOT_CALLED_BY_INTRPT, s)
          else (let tot = (if new_slice > 0 then new_slice else RHINO_CONFIG_TIME_SLICE_DEFAULT)
                in (RHINO_SUCCESS, upd_task t (\<lambda>k. k\<lparr>time_total := tot, time_slice := tot\<rparr>) s)))"

definition krhino_sched_policy_set :: "tid option \<Rightarrow> 8 word \<Rightarrow> kstate \<Rightarrow> kstat \<times> kstate" where
  "krhino_sched_policy_set task policy s =
     (case task of
        None \<Rightarrow> (RHINO_NULL_PTR, s)
      | Some t \<Rightarrow>
          if policy \<noteq> KSCHED_FIFO \<and> policy \<noteq> KSCHED_RR then (RHINO_INV_SCHED_WAY, s)
          else if g_intrpt_nested_level s > 0 then (RHINO_NOT_CALLED_BY_INTRPT, s)
          else (RHINO_SUCCESS, upd_task t (\<lambda>k. k\<lparr>sched_policy := policy\<rparr>) s))"

definition krhino_sched_policy_get :: "tid option \<Rightarrow> bool \<Rightarrow> kstate \<Rightarrow> kstat \<times> 8 word option" where
  "krhino_sched_policy_get task policy_null s =
     (case task of
        None \<Rightarrow> (RHINO_NULL_PTR, None)
      | Some t \<Rightarrow>
          if policy_null then (RHINO_NULL_PTR, None)
          else if g_intrpt_nested_level s > 0 then (RHINO_NOT_CALLED_BY_INTRPT, None)
          else (RHINO_SUCCESS, Some (sched_policy (tasks s t))))"

definition krhino_task_info_set :: "tid option \<Rightarrow> nat \<Rightarrow> nat \<Rightarrow> kstate \<Rightarrow> kstat \<times> kstate" where
  "krhino_task_info_set task idx info s =
     (case task of
        None \<Rightarrow> (RHINO_NULL_PTR, s)
      | Some t \<Rightarrow>
          if idx \<ge> RHINO_CONFIG_TASK_INFO_NUM then (RHINO_INV_PARAM, s)
          else (RHINO_SUCCESS, upd_task t (\<lambda>k. k\<lparr>user_info := (user_info k)[idx := info]\<rparr>) s))"

definition krhino_task_info_get :: "tid option \<Rightarrow> nat \<Rightarrow> bool \<Rightarrow> kstate \<Rightarrow> kstat \<times> nat option" where
  "krhino_task_info_get task idx info_null s =
     (case task of
        None \<Rightarrow> (RHINO_NULL_PTR, None)
      | Some t \<Rightarrow>
          if info_null then (RHINO_NULL_PTR, None)
          else if idx \<ge> RHINO_CONFIG_TASK_INFO_NUM then (RHINO_INV_PARAM, None)
          else (RHINO_SUCCESS, Some (user_info (tasks s t) ! idx)))"

definition krhino_task_deathbed :: "kstate \<Rightarrow> kstate outcome" where
  "krhino_task_deathbed s =
     bnd (active s) (\<lambda>a.
       if t_mm_alloc_flag (tasks s a) = K_OBJ_DYN_ALLOC
       then bnd (krhino_task_dyn_del None s) (\<lambda>(e, s). Inr s)
       else bnd (krhino_task_del None s) (\<lambda>(e, s). Inr s))"

section \<open>Changes of state\<close>

text \<open>What a change of the state of one task, together with the ready queue, leaves alone.\<close>

definition state_frame :: "tid \<Rightarrow> task_stat \<Rightarrow> kstate \<Rightarrow> kstate \<Rightarrow> bool" where
  "state_frame t x s s' \<longleftrightarrow> st s' = (st s)(t := x) \<and> pri s' = pri s \<and> bo s' = bo s \<and> held s' = held s \<and>
     tkh s' = tkh s \<and> tkm s' = tkm s \<and> bl s' = bl s \<and> pol s' = pol s \<and> ty s' = ty s \<and> own s' = own s \<and>
     (\<forall>u. b_prio (tasks s' u) = b_prio (tasks s u)) \<and> g_tick_head s' = g_tick_head s \<and>
     g_tick_count s' = g_tick_count s \<and> g_kobj_list s' = g_kobj_list s \<and> g_active_task s' = g_active_task s \<and>
     g_sched_lock s' = g_sched_lock s \<and> g_intrpt_nested_level s' = g_intrpt_nested_level s"

lemma state_frameD:
  assumes "state_frame t x s s'"
  shows "st s' = (st s)(t := x)" "pri s' = pri s" "bo s' = bo s" "held s' = held s" "tkh s' = tkh s" "tkm s' = tkm s"
    "bl s' = bl s" "pol s' = pol s" "ty s' = ty s" "own s' = own s" "b_prio (tasks s' u) = b_prio (tasks s u)"
    "g_tick_head s' = g_tick_head s" "g_tick_count s' = g_tick_count s" "g_kobj_list s' = g_kobj_list s"
    "g_active_task s' = g_active_task s" "g_sched_lock s' = g_sched_lock s"
    "g_intrpt_nested_level s' = g_intrpt_nested_level s" "live s' = live s" "rem s' = rem s"
  using assms by (simp_all add: state_frame_def live_def rem_def fun_eq_iff)

lemma struct_restate:
  assumes "struct_inv s" "state_frame t x s s'" "kinv (live s) s'"
    "tkh s t \<Longrightarrow> waiting_state x" "x \<in> {K_SLEEP, K_SLEEP_SUSPENDED} \<Longrightarrow> tkh s t"
  shows "struct_inv s'"
proof -
  have k: "tick_ok (live s) s" "mutex_ok (live s) s" "inherit_ok s" using assms(1) by (auto simp: struct_inv_def)
  note v = state_frameD [OF assms(2)]
  have "tick_ok (live s) s'" using k(1) assms(4,5) by (auto simp: tick_ok_def v)
  moreover have "mutex_ok (live s) s'" by (rule mutex_ok_bl [OF k(2)]) (use mutex_okD(1) [OF k(2)] v in simp_all)
  moreover have "inherit_ok s'" using k(3) by (simp add: inherit_ok_def v)
  ultimately show ?thesis using assms(3) by (simp add: struct_inv_def v)
qed

lemma kernel_restate:
  assumes "kernel_inv s" "state_frame t x s s'" "kinv (live s) s'"
    "tkh s t \<Longrightarrow> waiting_state x" "x \<in> {K_SLEEP, K_SLEEP_SUSPENDED} \<Longrightarrow> tkh s t"
  shows "struct_inv s'" "none_due s'"
  using assms struct_restate [OF _ assms(2,3)] by (auto simp: kernel_inv_def none_due_def state_frameD [OF assms(2)])

lemma wait_restate:
  assumes "state_frame t x s s'" "pending_state x \<Longrightarrow> pending_state (st s t)"
  shows "wait_rel s' \<subseteq> wait_rel s"
  using assms(2) by (auto simp: wait_rel_def state_frameD [OF assms(1)] split: if_splits)

lemma state_frame_upd:
  assumes "\<And>k. task_state (f k) = x \<and> prio (f k) = prio k \<and> b_prio (f k) = b_prio k \<and> blk_obj (f k) = blk_obj k \<and>
    t_mutex_list (f k) = t_mutex_list k \<and> tick_head (f k) = tick_head k \<and> tick_match (f k) = tick_match k"
  shows "state_frame t x s ((upd_task t f s)\<lparr>g_ready_queue := q\<rparr>)"
  using assms by (simp add: state_frame_def view_tasks_upd_task)

text \<open>Leaving the ready queue, entering it, and moving between the other states.\<close>

lemma kinv_unready:
  assumes inv: "kinv A s" and t: "t \<in> A" "st s t = K_RDY" "t \<noteq> g_idle_task" and x: "x \<in> {K_SUSPENDED, K_SLEEP}"
  shows "\<exists>q. ready_list_rm_rq (g_ready_queue s) t (pri s t) = Inr q \<and>
    (\<forall>s'. state_frame t x s s' \<longrightarrow> g_ready_queue s' = q \<longrightarrow> kinv A s')"
proof -
  obtain q where q: "ready_list_rm_rq (g_ready_queue s) t (pri s t) = Inr q"
    "core_inv (A - {t}) q (st s) (pri s) (bo s) (bl s) (pol s)"
    using detach_ready [OF inv [unfolded kinv_def] t] by (auto simp: ok_iff)
  have "core_inv (insert t (A - {t})) q ((st s)(t := x)) ((pri s)(t := pri s t)) ((bo s)(t := bo s t)) (bl s) (pol s)"
    using x kinv_D(1) [OF inv t(1)] by (intro attach_other upd_detached [OF q(2)]) auto
  then show ?thesis using q(1) t(1) by (auto simp: kinv_def state_frameD insert_absorb)
qed

lemma kinv_ready:
  assumes inv: "kinv A s" and t: "t \<in> A" "st s t = K_SUSPENDED" and a: "g_active_task s = Some a"
  shows "\<exists>q. ready_list_add t s = Inr (s\<lparr>g_ready_queue := q\<rparr>) \<and>
    (\<forall>s'. state_frame t K_RDY s s' \<longrightarrow> g_ready_queue s' = q \<longrightarrow> kinv A s')"
proof -
  have d: "core_inv (A - {t}) (g_ready_queue s) (st s) (pri s) (bo s) (bl s) (pol s)"
    using detach_other [OF inv [unfolded kinv_def], of t] t(2) by simp
  have "core_inv (A - {t}) (g_ready_queue s) ((st s)(t := K_RDY)) (pri s) (bo s) (bl s) (pol s)"
    using upd_detached [OF d, of t K_RDY "pri s t" "bo s t"] by simp
  from ready_list_add_ok [OF this _ kinv_D(1) [OF inv t(1)] a]
  obtain q where "ready_list_add t s = Inr (s\<lparr>g_ready_queue := q\<rparr>)"
    "core_inv (insert t (A - {t})) q ((st s)(t := K_RDY)) (pri s) (bo s) (bl s) (pol s)"
    by auto
  then show ?thesis using t(1) by (auto simp: kinv_def state_frameD insert_absorb)
qed

lemma kinv_other:
  assumes inv: "kinv A s" and f: "state_frame t x s s'" "g_ready_queue s' = g_ready_queue s" and t: "t \<in> A"
    and x: "(st s t, x) \<in> {(K_SLEEP, K_SLEEP_SUSPENDED), (K_SLEEP_SUSPENDED, K_SLEEP)} \<or>
      pending_state (st s t) \<and> pending_state x"
  shows "kinv A s'"
proof -
  note v = state_frameD [OF f(1)]
  have i: "t \<noteq> g_idle_task" using kinv_D(6) [OF inv] x by auto
  show ?thesis
  proof (cases "pending_state x")
    case True
    then show ?thesis using inv x i unfolding kinv_def core_inv_def v f(2) by auto
  next
    case False
    then show ?thesis using inv x i unfolding kinv_def core_inv_def v f(2) by auto
  qed
qed

section \<open>Suspending and resuming\<close>

definition suspended :: "task_stat \<Rightarrow> task_stat" where
  "suspended x = (case x of K_RDY \<Rightarrow> K_SUSPENDED | K_SLEEP \<Rightarrow> K_SLEEP_SUSPENDED | K_PEND \<Rightarrow> K_PEND_SUSPENDED | _ \<Rightarrow> x)"

definition resumed :: "task_stat \<Rightarrow> task_stat" where
  "resumed x = (case x of K_SUSPENDED \<Rightarrow> K_RDY | K_SLEEP_SUSPENDED \<Rightarrow> K_SLEEP | K_PEND_SUSPENDED \<Rightarrow> K_PEND | _ \<Rightarrow> x)"

definition is_suspended :: "task_stat \<Rightarrow> bool" where
  "is_suspended x \<longleftrightarrow> x \<in> {K_SUSPENDED, K_SLEEP_SUSPENDED, K_PEND_SUSPENDED}"

lemma upd_task_rq_same [simp]: "(upd_task t f s)\<lparr>g_ready_queue := g_ready_queue s\<rparr> = upd_task t f s"
  by (simp add: upd_task_def)

lemma state_cases:
  assumes "kinv A s" "t \<in> A"
  obtains "st s t = K_RDY" | "st s t \<in> {K_SLEEP, K_PEND}" | "st s t = K_SUSPENDED"
    | "st s t \<in> {K_SLEEP_SUSPENDED, K_PEND_SUSPENDED}"
  using kinv_D(2) [OF assms] by (cases "st s t") auto

lemma neutral_suspend_count: "neutral (\<lambda>k. k\<lparr>suspend_count := f k\<rparr>)"
  by (simp add: neutral_def)

text \<open>A suspension that starts: the task leaves the ready queue, or its waiting state is marked.\<close>

lemma suspend_first:
  assumes inv: "kernel_inv s" and t: "t \<in> live s" "t \<noteq> g_idle_task" "\<not> is_suspended (st s t)"
    and f: "\<And>k. f k = k\<lparr>suspend_count := 1, task_state := suspended (st s t)\<rparr>"
  shows "\<exists>q. (if st s t = K_RDY then ready_list_rm t (upd_task t f s) else Inr (upd_task t f s)) =
      Inr ((upd_task t f s)\<lparr>g_ready_queue := q\<rparr>) \<and>
    struct_inv ((upd_task t f s)\<lparr>g_ready_queue := q\<rparr>) \<and> none_due ((upd_task t f s)\<lparr>g_ready_queue := q\<rparr>) \<and>
    state_frame t (suspended (st s t)) s ((upd_task t f s)\<lparr>g_ready_queue := q\<rparr>)"
proof -
  have k: "kinv (live s) s" "tick_ok (live s) s" using inv by (auto simp: kernel_inv_def struct_inv_def)
  let ?s = "\<lambda>q. (upd_task t f s)\<lparr>g_ready_queue := q\<rparr>"
  have fr: "state_frame t (suspended (st s t)) s (?s q)" for q by (rule state_frame_upd) (simp add: f)
  have p: "pri (upd_task t f s) t = pri s t" by (simp add: pri_def f)
  have tk: "tkh s t \<Longrightarrow> waiting_state (suspended (st s t))" "suspended (st s t) \<in> {K_SLEEP, K_SLEEP_SUSPENDED} \<Longrightarrow> tkh s t"
    using k(2) t by (auto simp: tick_ok_def waiting_state_def suspended_def is_suspended_def split: task_stat.splits)
  from state_cases [OF k(1) t(1)] show ?thesis
  proof cases
    case 1
    then have x: "suspended (st s t) \<in> {K_SUSPENDED, K_SLEEP}" by (simp add: suspended_def)
    obtain q where q: "ready_list_rm_rq (g_ready_queue s) t (pri s t) = Inr q"
      "\<And>s'. state_frame t (suspended (st s t)) s s' \<Longrightarrow> g_ready_queue s' = q \<Longrightarrow> kinv (live s) s'"
      using kinv_unready [OF k(1) t(1) 1 t(2) x] by blast
    have "kinv (live s) (?s q)" using q(2) [OF fr] by simp
    from kernel_restate [OF inv fr this tk] show ?thesis
      using 1 q(1) fr by (intro exI [of _ q]) (simp add: ready_list_rm_def with_rq_def p)
  next
    case 2
    then have "kinv (live s) (?s (g_ready_queue s))"
      by (intro kinv_other [OF k(1) fr _ t(1)]) (auto simp: suspended_def)
    from kernel_restate [OF inv fr this tk] show ?thesis
      using 2 fr [of "g_ready_queue s"] by (intro exI [of _ "g_ready_queue s"]) auto
  qed (use t(3) in \<open>auto simp: is_suspended_def\<close>)
qed

lemma not_running:
  assumes "kernel_inv s" "st s t \<noteq> K_RDY" "g_intrpt_nested_level s = 0"
  shows "g_active_task s \<noteq> Some t"
  using assms by (auto simp: kernel_inv_def active_ok_def)

text \<open>What tasks wait for, until when, and in which order, with their priorities and mutexes.\<close>

definition waits_kept :: "kstate \<Rightarrow> kstate \<Rightarrow> bool" where
  "waits_kept s s' \<longleftrightarrow> bo s' = bo s \<and> bl s' = bl s \<and> tkh s' = tkh s \<and> tkm s' = tkm s \<and> g_tick_head s' = g_tick_head s \<and>
     g_tick_count s' = g_tick_count s \<and> pri s' = pri s \<and> held s' = held s \<and> own s' = own s"

lemma waits_kept_refl [simp]: "waits_kept s s"
  by (simp add: waits_kept_def)

lemma waits_kept_trans: "waits_kept s s' \<Longrightarrow> waits_kept s' s'' \<Longrightarrow> waits_kept s s''"
  by (simp add: waits_kept_def)

lemma waits_kept_frame: "state_frame t x s s' \<Longrightarrow> waits_kept s s'" "same_sched s s' \<Longrightarrow> waits_kept s s'"
    "sched_done s s' \<Longrightarrow> waits_kept s s'"
  by (simp_all add: waits_kept_def state_frameD same_sched_def sched_done_frame)

lemma task_suspend_ok:
  assumes inv: "kernel_inv s" and t: "t \<in> live s" "t \<noteq> g_idle_task"
    and l: "g_active_task s = Some t \<Longrightarrow> g_sched_lock s = 0"
  shows "ok (task_suspend t s) (\<lambda>(r, s'). kernel_inv s' \<and> wait_rel s' \<subseteq> wait_rel s \<and>
    (if is_suspended (st s t) \<and> suspend_count (tasks s t) = -1 then r = RHINO_SUSPENDED_COUNT_OVF \<and> s' = s
     else r = RHINO_SUCCESS \<and> st s' = (st s)(t := suspended (st s t)) \<and>
       suspend_count (tasks s' t) = (if is_suspended (st s t) then suspend_count (tasks s t) + 1 else 1) \<and>
       live s' = live s \<and> g_intrpt_nested_level s' = g_intrpt_nested_level s \<and> waits_kept s s'))"
proof (cases "is_suspended (st s t)")
  case True
  define s1 where "s1 = upd_task t (\<lambda>k. k\<lparr>suspend_count := suspend_count k + 1\<rparr>) s"
  have i1: "kernel_inv s1" "same_sched s s1"
    using inv by (simp_all add: s1_def kernel_inv_neutral neutral_suspend_count same_sched_task)
  obtain s' where s': "exit_sched RHINO_SUCCESS s1 = Inr (RHINO_SUCCESS, s')" "kernel_inv s'" and d: "sched_done s1 s'"
    using kernel_exit [OF i1(1)] by (auto simp: ok_iff)
  have "suspended (st s t) = st s t" using True by (auto simp: is_suspended_def suspended_def)
  moreover have "suspend_count (tasks s1 t) = suspend_count (tasks s t) + 1" "live s1 = live s" "st s1 = st s"
    using i1(2) by (simp_all add: s1_def same_sched_def)
  moreover have "task_suspend t s = (if suspend_count (tasks s t) = -1 then Inr (RHINO_SUSPENDED_COUNT_OVF, s)
      else exit_sched RHINO_SUCCESS s1)"
    using True l by (auto simp: task_suspend_def Let_def is_suspended_def s1_def word_gt_0)
  ultimately show ?thesis
    using True s' inv wait_rel_sched_done [OF d] wait_rel_same [OF i1(2)] i1(2) sched_done_frame [OF d]
      waits_kept_trans [OF waits_kept_frame(2) [OF i1(2)] waits_kept_frame(3) [OF d]]
    by (simp add: same_sched_def)
next
  case False
  let ?f = "\<lambda>k. k\<lparr>suspend_count := 1, task_state := suspended (st s t)\<rparr>"
  obtain q where q: "(if st s t = K_RDY then ready_list_rm t (upd_task t ?f s) else Inr (upd_task t ?f s)) =
      Inr ((upd_task t ?f s)\<lparr>g_ready_queue := q\<rparr>)"
    "struct_inv ((upd_task t ?f s)\<lparr>g_ready_queue := q\<rparr>)" "none_due ((upd_task t ?f s)\<lparr>g_ready_queue := q\<rparr>)"
    "state_frame t (suspended (st s t)) s ((upd_task t ?f s)\<lparr>g_ready_queue := q\<rparr>)"
    using suspend_first [OF inv t False, of ?f] by blast
  define s1 where "s1 = (upd_task t ?f s)\<lparr>g_ready_queue := q\<rparr>"
  note v = state_frameD [OF q(4) [folded s1_def]]
  have c: "suspend_count (tasks s1 t) = 1" by (simp add: s1_def)
  have "active_ok (live s1) s1" if "g_intrpt_nested_level s > 0 \<or> g_sched_lock s > 0"
    using inv l that by (auto simp: kernel_inv_def active_ok_def v)
  then obtain s' where s': "exit_sched RHINO_SUCCESS s1 = Inr (RHINO_SUCCESS, s')" "kernel_inv s'" and d: "sched_done s1 s'"
    using exit_sched_inv [OF q(2,3) [folded s1_def]] by (auto simp: ok_iff v)
  have k: "kinv (live s) s" using inv by (simp add: kernel_inv_def struct_inv_def)
  have "task_suspend t s = exit_sched RHINO_SUCCESS s1"
    using False q(1) l kinv_D(2) [OF k t(1)]
    by (cases "st s t") (auto simp: task_suspend_def Let_def is_suspended_def suspended_def s1_def word_gt_0)
  moreover have "wait_rel s1 \<subseteq> wait_rel s"
    by (rule wait_restate [OF q(4) [folded s1_def]]) (auto simp: suspended_def split: task_stat.splits)
  ultimately show ?thesis
    using False s' wait_rel_sched_done [OF d] waits_kept_trans [OF waits_kept_frame(1) [OF q(4) [folded s1_def]] waits_kept_frame(3) [OF d]]
    by (simp add: sched_done_frame [OF d] v c)
qed

lemma kernel_restate_exit:
  assumes "kernel_inv s" "state_frame t x s s'" "kinv (live s) s'" "tkh s t \<Longrightarrow> waiting_state x"
    "x \<in> {K_SLEEP, K_SLEEP_SUSPENDED} \<Longrightarrow> tkh s t" "st s t \<noteq> K_RDY"
  shows "kernel_inv s'"
  using kernel_restate [OF assms(1-5)] assms(1,6)
  by (auto simp: kernel_inv_def active_ok_def state_frameD [OF assms(2)])

text \<open>The last resume: the task is given back the state it had under the suspension.\<close>

lemma resume_last:
  assumes inv: "kernel_inv s" and t: "t \<in> live s" "is_suspended (st s t)"
  shows "\<exists>s1. (if st s t = K_SUSPENDED then ready_list_add t (set_state t K_RDY s) else Inr (set_state t (resumed (st s t)) s)) =
      Inr s1 \<and> kernel_inv s1 \<and> state_frame t (resumed (st s t)) s s1 \<and>
      suspend_count (tasks s1 t) = suspend_count (tasks s t)"
proof -
  have k: "kinv (live s) s" "tick_ok (live s) s" using inv by (auto simp: kernel_inv_def struct_inv_def)
  obtain a where a: "g_active_task s = Some a" using inv by (auto simp: kernel_inv_def active_ok_def)
  let ?s = "\<lambda>q. (set_state t (resumed (st s t)) s)\<lparr>g_ready_queue := q\<rparr>"
  have fr: "state_frame t (resumed (st s t)) s (?s q)" for q
    unfolding set_state_def by (rule state_frame_upd) simp
  have tk: "tkh s t \<Longrightarrow> waiting_state (resumed (st s t))" "resumed (st s t) \<in> {K_SLEEP, K_SLEEP_SUSPENDED} \<Longrightarrow> tkh s t"
    "st s t \<noteq> K_RDY"
    using k(2) t by (auto simp: tick_ok_def waiting_state_def resumed_def is_suspended_def)
  have c: "suspend_count (tasks (?s q) t) = suspend_count (tasks s t)" for q by (simp add: set_state_def)
  show ?thesis
  proof (cases "st s t = K_SUSPENDED")
    case True
    obtain q where q: "ready_list_add t s = Inr (s\<lparr>g_ready_queue := q\<rparr>)"
      "\<And>s'. state_frame t K_RDY s s' \<Longrightarrow> g_ready_queue s' = q \<Longrightarrow> kinv (live s) s'"
      using kinv_ready [OF k(1) t(1) True a] by blast
    have "kinv (live s) (?s q)" using q(2) fr [of q] True by (simp add: resumed_def)
    moreover have "ready_list_add t (set_state t K_RDY s) = Inr (?s q)"
      using ready_list_add_eq [OF q(1), of "set_state t K_RDY s"] True by (simp add: resumed_def)
    ultimately show ?thesis
      using True fr c kernel_restate_exit [OF inv fr _ tk] by (intro exI [of _ "?s q"]) simp
  next
    case False
    then have "kinv (live s) (?s (g_ready_queue s))"
      using t(2) by (intro kinv_other [OF k(1) fr _ t(1)]) (auto simp: resumed_def is_suspended_def)
    from kernel_restate_exit [OF inv fr this tk] show ?thesis
      using False fr [of "g_ready_queue s"] c [of "g_ready_queue s"] by (simp add: set_state_def)
  qed
qed

lemma task_resume_ok:
  assumes inv: "kernel_inv s" and t: "t \<in> live s"
  shows "ok (task_resume t s) (\<lambda>(r, s'). kernel_inv s' \<and> wait_rel s' \<subseteq> wait_rel s \<and>
    (if is_suspended (st s t)
     then r = RHINO_SUCCESS \<and> suspend_count (tasks s' t) = suspend_count (tasks s t) - 1 \<and>
       st s' = (if suspend_count (tasks s t) = 1 then (st s)(t := resumed (st s t)) else st s) \<and> waits_kept s s'
     else r = RHINO_TASK_NOT_SUSPENDED \<and> s' = s))"
proof (cases "is_suspended (st s t)")
  case False
  then show ?thesis
    using inv kinv_D(2) [of "live s" s t] t
    by (cases "st s t") (auto simp: task_resume_def Let_def is_suspended_def kernel_inv_def struct_inv_def)
next
  case True
  define s0 where "s0 = upd_task t (\<lambda>k. k\<lparr>suspend_count := suspend_count k - 1\<rparr>) s"
  have i0: "kernel_inv s0" "same_sched s s0"
    using inv by (simp_all add: s0_def kernel_inv_neutral neutral_suspend_count same_sched_task)
  have v0: "st s0 = st s" "live s0 = live s" using i0(2) by (simp_all add: same_sched_def live_def)
  have c0: "suspend_count (tasks s0 t) = suspend_count (tasks s t) - 1" by (simp add: s0_def)
  have st: "task_resume t s = bnd (if suspend_count (tasks s0 t) = 0
       then (if st s0 t = K_SUSPENDED then ready_list_add t (set_state t K_RDY s0) else Inr (set_state t (resumed (st s0 t)) s0))
       else Inr s0) (exit_sched RHINO_SUCCESS)"
    using True by (auto simp: task_resume_def Let_def is_suspended_def resumed_def s0_def [symmetric] v0)
  obtain s1 where s1: "(if suspend_count (tasks s0 t) = 0
       then (if st s0 t = K_SUSPENDED then ready_list_add t (set_state t K_RDY s0) else Inr (set_state t (resumed (st s0 t)) s0))
       else Inr s0) = Inr s1" "kernel_inv s1" "suspend_count (tasks s1 t) = suspend_count (tasks s0 t)"
     "st s1 = (if suspend_count (tasks s0 t) = 0 then (st s)(t := resumed (st s t)) else st s)" "wait_rel s1 \<subseteq> wait_rel s"
     "waits_kept s s1"
  proof (cases "suspend_count (tasks s0 t) = 0")
    case z: True
    obtain s1 where s1: "(if st s0 t = K_SUSPENDED then ready_list_add t (set_state t K_RDY s0)
        else Inr (set_state t (resumed (st s0 t)) s0)) = Inr s1" "kernel_inv s1" "state_frame t (resumed (st s0 t)) s0 s1"
        "suspend_count (tasks s1 t) = suspend_count (tasks s0 t)"
      using resume_last [OF i0(1), of t] t True by (auto simp: v0)
    have "wait_rel s1 \<subseteq> wait_rel s0"
      by (rule wait_restate [OF s1(3)]) (use True in \<open>auto simp: resumed_def is_suspended_def v0\<close>)
    then show ?thesis
      using z that [of s1] s1 wait_rel_same [OF i0(2)] waits_kept_trans [OF waits_kept_frame(2) [OF i0(2)] waits_kept_frame(1) [OF s1(3)]]
      by (simp add: state_frameD [OF s1(3)] v0)
  next
    case False
    then show ?thesis using that [of s0] i0 wait_rel_same [OF i0(2)] waits_kept_frame(2) by (simp add: v0)
  qed
  obtain s' where s': "exit_sched RHINO_SUCCESS s1 = Inr (RHINO_SUCCESS, s')" "kernel_inv s'" and d: "sched_done s1 s'"
    using kernel_exit [OF s1(2)] by (auto simp: ok_iff)
  show ?thesis
    using True st s1 s' wait_rel_sched_done [OF d] c0 waits_kept_trans [OF s1(6) waits_kept_frame(3) [OF d]]
    by (simp add: sched_done_frame [OF d])
qed

text \<open>
  C15. Suspending a task and resuming it gives it back its state: a ready task leaves the ready queue and
  comes back to it, a sleeping or waiting task only has its state marked, and in between the task does
  not run. Neither call touches a wait: the object each task waits for, its place among the waiters, its
  timeout and place in the time list, and the priorities are what they were, both while the task
  is suspended and afterwards. Suspensions nest: a task that is already suspended only counts one more,
  and the resume takes that one back. Both calls return and keep the kernel invariant.
\<close>

theorem suspend_resume_restores:
  assumes inv: "kernel_inv s" and t: "t \<in> live s" "pri s t \<noteq> RHINO_IDLE_PRI"
    and l: "g_active_task s = Some t \<Longrightarrow> g_sched_lock s = 0"
    and c: "is_suspended (st s t) \<Longrightarrow> suspend_count (tasks s t) \<noteq> -1 \<and> suspend_count (tasks s t) \<noteq> 0"
  shows "ok (krhino_task_suspend (Some t) s) (\<lambda>(r, s1). r = RHINO_SUCCESS \<and> kernel_inv s1 \<and>
    st s1 = (st s)(t := suspended (st s t)) \<and> is_suspended (st s1 t) \<and> waits_kept s s1 \<and> (g_intrpt_nested_level s = 0 \<longrightarrow> g_active_task s1 \<noteq> Some t) \<and>
    ok (krhino_task_resume (Some t) s1) (\<lambda>(r, s2). r = RHINO_SUCCESS \<and> kernel_inv s2 \<and> st s2 = st s \<and> waits_kept s s2 \<and>
      (is_suspended (st s t) \<longrightarrow> suspend_count (tasks s2 t) = suspend_count (tasks s t))))"
proof -
  have k: "kinv (live s) s" using inv by (simp add: kernel_inv_def struct_inv_def)
  have i: "t \<noteq> g_idle_task" using kinv_D(7) [OF k] t(2) by auto
  obtain s1 where s1: "task_suspend t s = Inr (RHINO_SUCCESS, s1)" "kernel_inv s1" "st s1 = (st s)(t := suspended (st s t))"
    "suspend_count (tasks s1 t) = (if is_suspended (st s t) then suspend_count (tasks s t) + 1 else 1)" "live s1 = live s"
    "g_intrpt_nested_level s1 = g_intrpt_nested_level s" "waits_kept s s1"
    using task_suspend_ok [OF inv t(1) i l] c by (auto simp: ok_iff split: if_splits)
  have x: "is_suspended (st s1 t)" "resumed (st s1 t) = (if is_suspended (st s t) then resumed (st s t) else st s t)"
    using kinv_D(2) [OF k t(1)] s1(3) by (cases "st s t"; simp add: is_suspended_def suspended_def resumed_def)+
  have "ok (task_resume t s1) (\<lambda>(r, s2). r = RHINO_SUCCESS \<and> kernel_inv s2 \<and> st s2 = st s \<and> waits_kept s s2 \<and>
      (is_suspended (st s t) \<longrightarrow> suspend_count (tasks s2 t) = suspend_count (tasks s t)))"
  proof (cases "is_suspended (st s t)")
    case True
    then have "st s1 = st s" using s1(3) by (auto simp: is_suspended_def suspended_def fun_eq_iff)
    then show ?thesis
      using task_resume_ok [OF s1(2), of t] t(1) True c s1(4,5) waits_kept_trans [OF s1(7)] by (auto simp: ok_iff)
  next
    case False
    then show ?thesis
      using task_resume_ok [OF s1(2), of t] t(1) x s1(3,4,5) waits_kept_trans [OF s1(7)] by (auto simp: ok_iff)
  qed
  then show ?thesis
    using t(2) s1 x(1) not_running [OF s1(2), of t]
    by (auto simp: krhino_task_suspend_def krhino_task_resume_def is_suspended_def)
qed

text \<open>Task 14 waits for the event group 13 until tick 105.\<close>

theorem suspend_resume_restores_witness:
  "ok (krhino_task_suspend (Some 14) ex_state) (\<lambda>(r, s1). st s1 14 = K_PEND_SUSPENDED \<and> bo s1 14 = Some 13 \<and>
     tkm s1 14 = 105 \<and> g_tick_head s1 = [10, 14] \<and>
     ok (krhino_task_resume (Some 14) s1) (\<lambda>(r, s2). kernel_inv s2 \<and> st s2 14 = K_PEND \<and> bl s2 13 = [14] \<and> tkm s2 14 = 105))"
  by (rule ok_mono [OF suspend_resume_restores [OF ex_kernel_inv, of 14]])
    (auto simp: is_suspended_def suspended_def waits_kept_def ok_iff)

section \<open>Sleeping and yielding\<close>

lemma sleep_views:
  assumes "0 < n"
  shows "st (tick_list_insert t n (set_state t K_SLEEP s)) = (st s)(t := K_SLEEP)"
    "pri (tick_list_insert t n (set_state t K_SLEEP s)) = pri s" "bo (tick_list_insert t n (set_state t K_SLEEP s)) = bo s"
    "held (tick_list_insert t n (set_state t K_SLEEP s)) = held s" "bl (tick_list_insert t n (set_state t K_SLEEP s)) = bl s"
    "pol (tick_list_insert t n (set_state t K_SLEEP s)) = pol s" "ty (tick_list_insert t n (set_state t K_SLEEP s)) = ty s"
    "own (tick_list_insert t n (set_state t K_SLEEP s)) = own s" "live (tick_list_insert t n (set_state t K_SLEEP s)) = live s"
    "tkh (tick_list_insert t n (set_state t K_SLEEP s)) = (tkh s)(t := True)"
    "tkm (tick_list_insert t n (set_state t K_SLEEP s)) = (tkm s)(t := g_tick_count s + n)"
    "g_tick_count (tick_list_insert t n (set_state t K_SLEEP s)) = g_tick_count s"
    "g_active_task (tick_list_insert t n (set_state t K_SLEEP s)) = g_active_task s"
    "g_sched_lock (tick_list_insert t n (set_state t K_SLEEP s)) = g_sched_lock s"
    "g_intrpt_nested_level (tick_list_insert t n (set_state t K_SLEEP s)) = g_intrpt_nested_level s"
    "g_ready_queue (tick_list_insert t n (set_state t K_SLEEP s)) = g_ready_queue s"
    "b_prio (tasks (tick_list_insert t n (set_state t K_SLEEP s)) u) = b_prio (tasks s u)"
    "g_tick_head (tick_list_insert t n (set_state t K_SLEEP s)) =
       insert_before (\<lambda>u. tkm (tick_list_insert t n (set_state t K_SLEEP s)) u - g_tick_count s > n) t (g_tick_head s)"
  using assms by (simp_all add: Let_def set_state_def upd_task_def tick_list_insert_def tick_list_pri_insert_def
      view_defs live_def fun_eq_iff cong: if_cong)

lemma sleep_inv:
  assumes inv: "kernel_inv s" and a: "a \<in> live s" "st s a = K_RDY" "a \<noteq> g_idle_task" and n: "0 < n" "unat n < 2 ^ 63"
  shows "\<exists>q. ready_list_rm a (tick_list_insert a n (set_state a K_SLEEP s)) =
      Inr ((tick_list_insert a n (set_state a K_SLEEP s))\<lparr>g_ready_queue := q\<rparr>) \<and>
    struct_inv ((tick_list_insert a n (set_state a K_SLEEP s))\<lparr>g_ready_queue := q\<rparr>) \<and>
    none_due ((tick_list_insert a n (set_state a K_SLEEP s))\<lparr>g_ready_queue := q\<rparr>)"
proof -
  have k: "kinv (live s) s" "tick_ok (live s) s" "mutex_ok (live s) s" "inherit_ok s" "none_due s"
    using inv by (auto simp: kernel_inv_def struct_inv_def)
  define s0 where "s0 = tick_list_insert a n (set_state a K_SLEEP s)"
  note v = sleep_views [OF n(1), of a s, folded s0_def]
  obtain q where q: "ready_list_rm_rq (g_ready_queue s) a (pri s a) = Inr q"
    "core_inv (live s - {a}) q (st s) (pri s) (bo s) (bl s) (pol s)"
    using detach_ready [OF k(1) [unfolded kinv_def] a] by (auto simp: ok_iff)
  have "core_inv (insert a (live s - {a})) q ((st s)(a := K_SLEEP)) ((pri s)(a := pri s a)) ((bo s)(a := bo s a)) (bl s) (pol s)"
    using kinv_D(1) [OF k(1) a(1)] by (intro attach_other upd_detached [OF q(2)]) auto
  then have "kinv (live s) (s0\<lparr>g_ready_queue := q\<rparr>)" using a(1) by (simp add: kinv_def v insert_absorb)
  moreover have "\<not> tkh s a" using k(2) a(1,2) by (auto simp: tick_ok_def waiting_state_def)
  then have "tick_ok (live s) (s0\<lparr>g_ready_queue := q\<rparr>)"
    using n by (intro tick_ok_insert [OF k(2) a(1), where time = n and x = K_SLEEP]) (simp_all add: v waiting_state_def)
  moreover have "mutex_ok (live s) (s0\<lparr>g_ready_queue := q\<rparr>)"
    by (rule mutex_ok_bl [OF k(3)]) (use mutex_okD(1) [OF k(3)] v in simp_all)
  moreover have "inherit_ok (s0\<lparr>g_ready_queue := q\<rparr>)" using k(4) by (simp add: inherit_ok_def v)
  moreover have "none_due (s0\<lparr>g_ready_queue := q\<rparr>)"
    using k(5) n by (auto simp: none_due_def rem_def v unat_gt_0 word_gt_0)
  ultimately show ?thesis
    unfolding s0_def [symmetric] using q(1) by (auto simp: struct_inv_def live_simps v ready_list_rm_def with_rq_def)
qed

lemma task_sleep_ok:
  assumes inv: "kernel_inv s" and a: "g_active_task s = Some a" "a \<noteq> g_idle_task" and n: "unat n < 2 ^ 63"
  shows "ok (krhino_task_sleep n s) (\<lambda>(r, s'). kernel_inv s' \<and> wait_rel s' \<subseteq> wait_rel s \<and>
    (if n = 0 then r = Ret RHINO_INV_PARAM \<and> s' = s
     else if g_intrpt_nested_level s > 0 then r = Ret RHINO_NOT_CALLED_BY_INTRPT \<and> s' = s
     else if g_sched_lock s > 0 then r = Ret RHINO_SCHED_DISABLE \<and> s' = s
     else r = Pending \<and> st s' = (st s)(a := K_SLEEP) \<and> tkm s' a = g_tick_count s + n \<and> rem s' a = unat n \<and>
       g_tick_head s' = insert_before (\<lambda>u. rem s u > unat n) a (g_tick_head s) \<and>
       (\<exists>t. g_active_task s' = Some t \<and> t \<noteq> a \<and> best_ready (live s') s' t)))"
proof (cases "n = 0 \<or> g_intrpt_nested_level s > 0 \<or> g_sched_lock s > 0")
  case True
  then show ?thesis using inv by (auto simp: krhino_task_sleep_def)
next
  case False
  then have z: "0 < n" "g_intrpt_nested_level s = 0" "g_sched_lock s = 0" by (auto simp: word_gt_0)
  have al: "a \<in> live s" "st s a = K_RDY" using inv a z by (auto simp: kernel_inv_def active_ok_def)
  define s0 where "s0 = tick_list_insert a n (set_state a K_SLEEP s)"
  note v = sleep_views [OF z(1), of a s, folded s0_def]
  obtain q where q: "ready_list_rm a s0 = Inr (s0\<lparr>g_ready_queue := q\<rparr>)" "struct_inv (s0\<lparr>g_ready_queue := q\<rparr>)"
    "none_due (s0\<lparr>g_ready_queue := q\<rparr>)"
    using sleep_inv [OF inv al a(2) z(1) n] unfolding s0_def by blast
  obtain s' where s': "core_sched (s0\<lparr>g_ready_queue := q\<rparr>) = Inr s'" "kernel_inv s'" and d: "sched_done (s0\<lparr>g_ready_queue := q\<rparr>) s'"
    using core_sched_inv [OF q(2,3)] z by (auto simp: ok_iff v)
  have e: "krhino_task_sleep n s = Inr (Pending, s')"
    using False a q(1) s'(1) by (simp add: krhino_task_sleep_def active_eq s0_def)
  have "a \<notin> set (g_tick_head s)" using inv al by (auto simp: kernel_inv_def struct_inv_def tick_ok_def waiting_state_def)
  then have h: "g_tick_head s0 = insert_before (\<lambda>u. rem s u > unat n) a (g_tick_head s)"
    unfolding v by (intro insert_before_cong) (auto simp: rem_def word_less_nat_alt)
  obtain t where t: "g_active_task s' = Some t" "best_ready (live s') s' t"
    using sched_done_active [OF d] z by (auto simp: v)
  have "t \<noteq> a" using t(2) by (auto simp: best_ready_def sched_done_frame [OF d] v)
  moreover have "wait_rel s' \<subseteq> wait_rel s" by (auto simp: wait_rel_def sched_done_frame [OF d] v split: if_splits)
  ultimately show ?thesis
    using False z t s'(2) h unfolding e by (simp add: sched_done_frame [OF d] v rem_def)
qed

text \<open>
  C17. A task that sleeps for \<open>n\<close> ticks is queued on the time list in the order of expiry with the match
  value \<open>n\<close> ticks ahead of the count (behind the tasks that expire with it or before), leaves the ready
  queue, and the best ready task runs; nobody waits for a task it did not wait for before. Zero ticks, a call from an interrupt and a locked scheduler are
  refused without any change.
\<close>

theorem task_sleep_cases:
  assumes inv: "kernel_inv s" and a: "g_active_task s = Some a" "a \<noteq> g_idle_task" and n: "unat n < 2 ^ 63"
  shows "ok (krhino_task_sleep n s) (\<lambda>(r, s'). kernel_inv s' \<and> wait_rel s' \<subseteq> wait_rel s \<and>
    (if n = 0 then r = Ret RHINO_INV_PARAM \<and> s' = s
     else if g_intrpt_nested_level s > 0 then r = Ret RHINO_NOT_CALLED_BY_INTRPT \<and> s' = s
     else if g_sched_lock s > 0 then r = Ret RHINO_SCHED_DISABLE \<and> s' = s
     else r = Pending \<and> st s' = (st s)(a := K_SLEEP) \<and> tkm s' a = g_tick_count s + n \<and> rem s' a = unat n \<and>
       g_tick_head s' = insert_before (\<lambda>u. rem s u > unat n) a (g_tick_head s) \<and>
       (\<exists>t. g_active_task s' = Some t \<and> t \<noteq> a \<and> best_ready (live s') s' t)))"
  by (rule task_sleep_ok; fact assms)

theorem task_sleep_cases_witness:
  "ok (krhino_task_sleep 3 ex_state) (\<lambda>(r, s'). kernel_inv s' \<and> r = Pending \<and> st s' 5 = K_SLEEP \<and> g_tick_head s' = [10, 5, 14])"
  by (rule ok_mono [OF task_sleep_cases [OF ex_kernel_inv, of 5 3]])
    (auto simp: g_idle_task_def rem_def)

text \<open>
  Yielding: the running task goes behind the other ready tasks of its priority, and the first of
  them runs; alone at its priority it keeps running. No task changes its state or priority.
\<close>

theorem task_yield_rotates:
  assumes inv: "kernel_inv s" and a: "g_active_task s = Some a" and z: "g_intrpt_nested_level s = 0" "g_sched_lock s = 0"
    and best: "best_ready (live s) s a"
  shows "ok (krhino_task_yield s) (\<lambda>(r, s'). r = RHINO_SUCCESS \<and> kernel_inv s' \<and> tasks s' = tasks s \<and> bl s' = bl s \<and>
    (\<exists>xs. cur_list_item (g_ready_queue s) (pri s a) = a # xs \<and>
       cur_list_item (g_ready_queue s') = (cur_list_item (g_ready_queue s))(pri s a := xs @ [a]) \<and>
       g_active_task s' = Some (hd (xs @ [a]))))"
proof -
  have k: "kinv (live s) s" using inv by (simp add: kernel_inv_def struct_inv_def)
  have "a \<in> set (cur_list_item (g_ready_queue s) (pri s a))" "a = hd (cur_list_item (g_ready_queue s) (pri s a))"
    using best kinv_D(9) [OF k] by (auto simp: best_ready_def)
  then obtain xs where xs: "cur_list_item (g_ready_queue s) (pri s a) = a # xs"
    by (cases "cur_list_item (g_ready_queue s) (pri s a)") auto
  obtain q where q: "ready_list_head_to_tail_rq (g_ready_queue s) (pri s a) = Inr q" "kinv (live s) (s\<lparr>g_ready_queue := q\<rparr>)"
    "cur_list_item q = (cur_list_item (g_ready_queue s))(pri s a := xs @ [a])"
    using kinv_rotate [OF k, of "pri s a"] xs by auto
  obtain s' where s': "exit_sched RHINO_SUCCESS (s\<lparr>g_ready_queue := q\<rparr>) = Inr (RHINO_SUCCESS, s')" "kernel_inv s'"
    and d: "sched_done (s\<lparr>g_ready_queue := q\<rparr>) s'"
    using kernel_exit [OF kernel_inv_rq [OF inv q(2)]] by (auto simp: ok_iff)
  obtain t where t: "g_active_task s' = Some t" "best_ready (live s') s' t"
    using sched_done_active [OF d] z by auto
  have b: "st s a = K_RDY" "a \<in> live s" using best by (auto simp: best_ready_def)
  have "pri s t = pri s a" "t = hd (cur_list_item q (pri s t))"
    using t(2) best b by (auto simp: best_ready_def sched_done_frame [OF d] intro: antisym)
  then have "t = hd (xs @ [a])" by (simp add: q(3))
  then show ?thesis
    using s' q t(1) xs
    by (simp add: krhino_task_yield_def active_eq [OF a] ready_list_head_to_tail_def with_rq_def sched_done_frame [OF d])
qed

theorem task_yield_rotates_witness:
  "ok (krhino_task_yield ex_state) (\<lambda>(r, s'). kernel_inv s' \<and> g_active_task s' = Some 11)"
proof -
  have "best_ready (live ex_state) ex_state 5" by (auto simp: best_ready_def ex_rq_def)
  then show ?thesis
    by (intro ok_mono [OF task_yield_rotates [OF ex_kernel_inv, of 5]]) (auto simp: ex_rq_def)
qed

section \<open>Changing the priority\<close>

lemma pri_limit_look: "pri_limit_loop s ms p h = fst (pri_look_loop s None ms p h)"
  by (induction ms arbitrary: p h) (simp_all add: Let_def)

lemma first_pri_blks:
  assumes "bl s' = bl s" "pri s' = pri s"
  shows "first_pri s' = first_pri s"
proof (intro ext)
  fix m p
  have "blk_list (blks s' m) = blk_list (blks s m)" using fun_cong [OF assms(1), of m] by (simp add: bl_def)
  then show "first_pri s' m p = first_pri s m p" unfolding first_pri_def assms(2) by simp
qed

lemma pri_look_cong:
  assumes "bl s' = bl s" "pri s' = pri s"
  shows "pri_look_loop s' rel ms p h = pri_look_loop s rel ms p h"
  by (induction ms arbitrary: p h) (simp_all add: first_pri_blks [OF assms])

lemma b_prio_views:
  "st (upd_task t (\<lambda>k. k\<lparr>b_prio := p\<rparr>) s) = st s" "pri (upd_task t (\<lambda>k. k\<lparr>b_prio := p\<rparr>) s) = pri s"
  "bo (upd_task t (\<lambda>k. k\<lparr>b_prio := p\<rparr>) s) = bo s" "held (upd_task t (\<lambda>k. k\<lparr>b_prio := p\<rparr>) s) = held s"
  "tkh (upd_task t (\<lambda>k. k\<lparr>b_prio := p\<rparr>) s) = tkh s" "tkm (upd_task t (\<lambda>k. k\<lparr>b_prio := p\<rparr>) s) = tkm s"
  "wait_rel (upd_task t (\<lambda>k. k\<lparr>b_prio := p\<rparr>) s) = wait_rel s"
  by (simp_all add: view_tasks_upd_task wait_rel_def)

lemma kernel_inv_b_prio:
  assumes "kernel_inv s" "p < 62"
  shows "kernel_inv (upd_task t (\<lambda>k. k\<lparr>b_prio := p\<rparr>) s)"
proof -
  let ?s = "upd_task t (\<lambda>k. k\<lparr>b_prio := p\<rparr>) s"
  have m: "mutex_ok (live s) s" using assms(1) by (simp add: kernel_inv_def struct_inv_def)
  note d = mutex_okD [OF m]
  have "mutex_ok (live s) ?s"
  proof (rule mutex_okI, unfold b_prio_views view_upd_task)
    fix u assume "u \<in> live s"
    then show "distinct (held s u) \<and> b_prio (tasks ?s u) < 62" using d(3) [of u] assms(2) by simp
  qed (use d in blast)+
  then show ?thesis
    using assms(1) by (simp add: kernel_inv_def struct_inv_def kinv_def tick_ok_def inherit_ok_def none_due_def
        active_ok_def rem_def [abs_def] b_prio_views)
qed

lemma pri_change_ok:
  assumes inv: "kernel_inv s" "no_deadlock s" and t: "t \<in> live s" "pri s t < RHINO_IDLE_PRI" and p: "p < RHINO_IDLE_PRI"
    and z: "g_intrpt_nested_level s = 0"
  shows "ok (krhino_task_pri_change (Some t) p False s) (\<lambda>(r, old, s'). r = RHINO_SUCCESS \<and> old = Some (pri s t) \<and>
    kernel_inv s' \<and> no_deadlock s' \<and> b_prio (tasks s' t) = p \<and> pri s' t = Min (insert p (donated None t s)) \<and>
    (\<forall>u. (t, u) \<notin> (wait_rel s)\<^sup>* \<longrightarrow> pri s' u = pri s u \<and> b_prio (tasks s' u) = b_prio (tasks s u)))"
proof -
  define s0 where "s0 = upd_task t (\<lambda>k. k\<lparr>b_prio := p\<rparr>) s"
  note v = b_prio_views [of t p s, folded s0_def]
  have v': "bl s0 = bl s" "pol s0 = pol s" "ty s0 = ty s" "own s0 = own s" "live s0 = live s" "b_prio (tasks s0 t) = p"
    "\<And>u. u \<noteq> t \<Longrightarrow> b_prio (tasks s0 u) = b_prio (tasks s u)" "g_intrpt_nested_level s0 = 0"
    by (simp_all add: s0_def z)
  have i0: "kernel_inv s0" using kernel_inv_b_prio [OF inv(1), of p t] p by (simp add: s0_def)
  have k: "weak_inv s0" "mutex_ok (live s) s0" "inherit_ok s0" "kinv (live s0) s0" "no_deadlock s0"
    using i0 inv(2) by (auto simp: kernel_inv_def struct_iff weak_inv_def v' no_deadlock_def v)
  have ti: "t \<noteq> g_idle_task" "st s t \<noteq> K_DELETED" using kinv_D(7,2) [OF k(4)] t by (auto simp: v v')
  have l: "mutex_lists None s0" "inherits None s0"
    using mutex_okD(2) [OF k(2)] k(3) by (auto simp: mutex_lists_def inherit_ok_iff inherit_ok_def)
  define q where "q = fst (mutex_pri_look t None s0)"
  have lim: "mutex_pri_limit s t p = q"
    using pri_look_cong [of s0 s] v(2) v'(1,6) fun_cong [OF v(4), of t, unfolded held_def]
    by (simp add: q_def mutex_pri_limit_def mutex_pri_look_def Let_def pri_limit_look)
  have "\<forall>b \<in> set (held s0 t). pol s0 b = BLK_POLICY_PRI"
    using k(3) mutex_okD(4) [OF k(2) t(1)] by (auto simp: inherit_ok_def)
  then have qm: "q = Min (insert p (donated None t s))"
    unfolding q_def by (subst mutex_pri_look_min [OF k(4)]) (simp_all add: v' donated_def v)
  have "entry_ok None t q s0"
    using mutex_pri_look_waiter [OF k(4) l(1), of _ t _ None] l(2) by (simp add: entry_ok_def inherits_def q_def)
  moreover have "q < 62" using mutex_pri_look_lt [of s0 t None] mutex_ok_owner [OF k(2)] t(1) by (simp add: q_def v')
  ultimately obtain s1 where s1: "task_pri_change t q s0 = Inr (RHINO_SUCCESS, s1)" "weak_inv s1" "inherits None s1" "pri s1 t = q"
    "\<And>u. (t, u) \<notin> (wait_rel s)\<^sup>* \<Longrightarrow> pri s1 u = pri s u" and f: "pri_frame s0 s1"
    using task_pri_change_ok [OF k(1,5) _ ti(1) _ l(1), of q] t(1) by (auto simp: ok_iff v v')
  note fv = pri_frame_fields [OF f] pri_frame_views [OF f]
  have "struct_inv s1"
    using s1(2,3) k(3) mutex_ok_pri [OF k(2) f] by (simp add: struct_iff inherit_ok_iff fv v')
  moreover have "none_due s1" "active_ok (live s1) s1"
    using i0 none_due_cong [of s1 s0] by (simp_all add: kernel_inv_def active_ok_def fv)
  ultimately obtain s' where s': "core_sched s1 = Inr s'" "kernel_inv s'" and d: "sched_done s1 s'"
    using core_sched_inv [of s1] by (auto simp: ok_iff)
  have e: "krhino_task_pri_change (Some t) p False s = Inr (RHINO_SUCCESS, Some (pri s t), s')"
    using t p ti z s1(1) s'(1) lim v(2) by (simp add: krhino_task_pri_change_def Let_def s0_def)
  have "no_deadlock s'" using inv(2) by (simp add: no_deadlock_def wait_rel_sched_done [OF d] fv v)
  moreover have "b_prio (tasks s0 u) = b_prio (tasks s u)" if "(t, u) \<notin> (wait_rel s)\<^sup>*" for u
    using that v'(7) [of u] by auto
  ultimately show ?thesis
    unfolding e using s'(2) s1(4,5) qm by (simp add: sched_done_frame [OF d] fv v')
qed



section \<open>Creating a task\<close>

lemma new_task_fields:
  "task_state (new_task name p n sb sz r fl) = (if r then K_RDY else K_SUSPENDED)"
  "prio (new_task name p n sb sz r fl) = p" "b_prio (new_task name p n sb sz r fl) = p"
  "t_mutex_list (new_task name p n sb sz r fl) = []" "tick_head (new_task name p n sb sz r fl) = False"
  "suspend_count (new_task name p n sb sz r fl) = (if r then 0 else 1)" "sched_policy (new_task name p n sb sz r fl) = KSCHED_RR"
  "t_mm_alloc_flag (new_task name p n sb sz r fl) = fl"
  by (simp_all add: new_task_def zero_task_def Let_def)

text \<open>The state with the control block filled in and the task on the list of tasks.\<close>

definition task_added :: "tid \<Rightarrow> ktask \<Rightarrow> kstate \<Rightarrow> kstate" where
  "task_added t k s = upd_kobj (\<lambda>l. l\<lparr>task_head := task_head l @ [t]\<rparr>) (upd_task t (\<lambda>_. k) s)"

lemma task_added_views [simp]:
  "st (task_added t k s) = (st s)(t := task_state k)" "pri (task_added t k s) = (pri s)(t := prio k)"
  "bo (task_added t k s) = (bo s)(t := blk_obj k)" "held (task_added t k s) = (held s)(t := t_mutex_list k)"
  "tkh (task_added t k s) = (tkh s)(t := tick_head k)" "tkm (task_added t k s) = (tkm s)(t := tick_match k)"
  "bl (task_added t k s) = bl s" "pol (task_added t k s) = pol s" "ty (task_added t k s) = ty s"
  "own (task_added t k s) = own s" "live (task_added t k s) = insert t (live s)"
  "g_ready_queue (task_added t k s) = g_ready_queue s" "g_tick_head (task_added t k s) = g_tick_head s"
  "g_tick_count (task_added t k s) = g_tick_count s" "g_active_task (task_added t k s) = g_active_task s"
  "g_sched_lock (task_added t k s) = g_sched_lock s" "g_sys_stat (task_added t k s) = g_sys_stat s"
  "g_intrpt_nested_level (task_added t k s) = g_intrpt_nested_level s"
  "tasks (task_added t k s) = (tasks s)(t := k)"
  by (simp_all add: task_added_def view_tasks_upd_task live_def) (simp add: upd_kobj_def upd_task_def)

lemma task_added_kinv:
  assumes inv: "kinv (live s) s" and t: "t \<notin> live s" and k: "prio k < 62" "task_state k \<in> {K_RDY, K_SUSPENDED}"
  shows "\<exists>q. (if task_state k = K_RDY then ready_list_add_tail t (task_added t k s) else Inr (task_added t k s)) =
      Inr ((task_added t k s)\<lparr>g_ready_queue := q\<rparr>) \<and> kinv (insert t (live s)) ((task_added t k s)\<lparr>g_ready_queue := q\<rparr>)"
proof -
  have c: "core_inv (live s) (g_ready_queue s) ((st s)(t := task_state k)) ((pri s)(t := prio k)) ((bo s)(t := blk_obj k))
      (bl s) (pol s)"
    by (rule upd_detached [OF inv [unfolded kinv_def] t])
  show ?thesis
  proof (cases "task_state k = K_RDY")
    case True
    have "ok (ready_list_add_tail_rq (g_ready_queue s) t (((pri s)(t := prio k)) t)) (\<lambda>q. core_inv (insert t (live s)) q
        ((st s)(t := task_state k)) ((pri s)(t := prio k)) ((bo s)(t := blk_obj k)) (bl s) (pol s) \<and>
        cur_list_item q = (cur_list_item (g_ready_queue s))(((pri s)(t := prio k)) t :=
          cur_list_item (g_ready_queue s) (((pri s)(t := prio k)) t) @ [t]))"
      by (rule attach_ready_tail [OF c t]) (use True k in simp_all)
    then show ?thesis
      using True by (auto simp: ok_iff ready_list_add_tail_def with_rq_def kinv_def)
  next
    case False
    then have "core_inv (insert t (live s)) (g_ready_queue s) ((st s)(t := task_state k)) ((pri s)(t := prio k))
        ((bo s)(t := blk_obj k)) (bl s) (pol s)"
      using k by (intro attach_other [OF c t]) auto
    moreover have "(task_added t k s)\<lparr>g_ready_queue := g_ready_queue s\<rparr> = task_added t k s"
      by (simp add: task_added_def upd_kobj_def upd_task_def)
    ultimately show ?thesis
      using False by (intro exI [of _ "g_ready_queue s"]) (simp add: kinv_def)
  qed
qed

lemma task_added_inv:
  assumes inv: "kernel_inv s" and t: "t \<notin> live s" and k: "b_prio k < 62" "t_mutex_list k = []" "\<not> tick_head k"
      "task_state k \<in> {K_RDY, K_SUSPENDED}"
    and q: "kinv (insert t (live s)) ((task_added t k s)\<lparr>g_ready_queue := q\<rparr>)"
  shows "kernel_inv ((task_added t k s)\<lparr>g_ready_queue := q\<rparr>)"
proof -
  let ?s = "(task_added t k s)\<lparr>g_ready_queue := q\<rparr>"
  have i: "tick_ok (live s) s" "mutex_ok (live s) s" "inherit_ok s" "kinv (live s) s" "none_due s"
    using inv by (auto simp: kernel_inv_def struct_inv_def)
  note d = mutex_okD [OF i(2)]
  have th: "t \<notin> set (g_tick_head s)" using i(1) t by (auto simp: tick_ok_def)
  have r: "rem ?s u = rem s u" if "u \<noteq> t" for u using that by (simp add: rem_def)
  have m: "map (rem ?s) (g_tick_head s) = map (rem s) (g_tick_head s)" using th by (intro map_cong refl r) auto
  have so: "sorted (map (rem ?s) (g_tick_head s))" unfolding m using i(1) by (simp add: tick_ok_def)
  have "rem ?s u < 2 ^ 63" if "u \<in> set (g_tick_head s)" for u
    using i(1) that th r [of u] by (cases "u = t") (auto simp: tick_ok_def)
  then have "tick_ok (live ?s) ?s"
    using i(1) t th k so unfolding tick_ok_def by auto
  moreover have "mutex_ok (live ?s) ?s"
  proof (rule mutex_okI)
    fix u assume "u \<in> live ?s"
    then show "distinct (held ?s u) \<and> b_prio (tasks ?s u) < 62" using d(3) [of u] k by auto
  next
    fix b u assume "ty ?s b = RHINO_MUTEX_OBJ_TYPE" "own ?s b = Some u"
    then show "u \<in> live ?s \<and> u \<noteq> g_idle_task \<and> b \<in> set (held ?s u)" using d(2) [of b u] t by auto
  next
    fix u b assume "u \<in> live ?s" "b \<in> set (held ?s u)"
    then show "own ?s b = Some u \<and> ty ?s b = RHINO_MUTEX_OBJ_TYPE" using d(4) [of u b] k by (auto split: if_splits)
  qed (use d(1) in simp)
  moreover have "inherit_ok ?s"
  proof -
    have "t \<notin> set (bl s b)" for b using kinv_D(3) [OF i(4)] t by blast
    moreover have "ty s b = RHINO_MUTEX_OBJ_TYPE \<Longrightarrow> own s b \<noteq> Some t" for b using d(2) [of b t] t by blast
    ultimately show ?thesis using i(3) unfolding inherit_ok_def by auto
  qed
  moreover have "0 < rem ?s u" if "u \<in> set (g_tick_head s)" for u
    using i(5) that th r [of u] by (cases "u = t") (auto simp: none_due_def)
  then have "none_due ?s" by (simp add: none_due_def)
  moreover have "active_ok (live ?s) ?s" using inv t by (auto simp: kernel_inv_def active_ok_def)
  ultimately show ?thesis using q by (simp add: kernel_inv_def struct_inv_def)
qed

lemma task_create_eq:
  assumes "p < RHINO_CONFIG_PRI_MAX" "sz \<noteq> 0" "g_intrpt_nested_level s = 0" "p = RHINO_IDLE_PRI \<Longrightarrow> g_idle_task_spawned s = 0"
  shows "task_create (Some t) (Some name) p n (Some sb) sz False r fl s =
    (let s0 = (if p = RHINO_IDLE_PRI then s\<lparr>g_idle_task_spawned := 1\<rparr> else s);
         s1 = task_added t (new_task (Some name) p n sb sz r fl) s0
     in if r then bnd (ready_list_add_tail t s1) (\<lambda>s. if g_sys_stat s = RHINO_RUNNING then exit_sched RHINO_SUCCESS s
          else Inr (RHINO_SUCCESS, s))
        else Inr (RHINO_SUCCESS, s1))"
  using assms by (auto simp: task_create_def Let_def task_added_def)

lemma task_create_ok:
  assumes inv: "kernel_inv s" "no_deadlock s" and run: "g_sys_stat s = RHINO_RUNNING" and t: "t \<notin> live s"
    and arg: "p < RHINO_CONFIG_PRI_MAX" "sz \<noteq> 0" "g_intrpt_nested_level s = 0" "p = RHINO_IDLE_PRI \<Longrightarrow> g_idle_task_spawned s = 0"
  shows "ok (task_create (Some t) (Some name) p n (Some sb) sz False r fl s) (\<lambda>(e, s'). e = RHINO_SUCCESS \<and>
    kernel_inv s' \<and> no_deadlock s' \<and> live s' = insert t (live s) \<and> (\<forall>u. u \<noteq> t \<longrightarrow> tasks s' u = tasks s u) \<and>
    st s' t = (if r then K_RDY else K_SUSPENDED) \<and> pri s' t = p \<and> b_prio (tasks s' t) = p \<and>
    (r \<and> g_sched_lock s = 0 \<longrightarrow> (\<exists>u. g_active_task s' = Some u \<and> best_ready (live s') s' u)))"
proof -
  define s0 where "s0 = (if p = RHINO_IDLE_PRI then s\<lparr>g_idle_task_spawned := 1\<rparr> else s)"
  define k where "k = new_task (Some name) p n sb sz r fl"
  note kf = new_task_fields [of "Some name" p n sb sz r fl, folded k_def]
  have same: "same_sched s s0" "tasks s0 = tasks s" "g_sys_stat s0 = RHINO_RUNNING"
    by (simp_all add: s0_def same_sched_def view_defs fun_eq_iff run)
  have i0: "kernel_inv s0" "live s0 = live s" using inv(1) same_sched_inv [OF same(1)] same(1) by (simp_all add: same_sched_def live_def)
  have k0: "kinv (live s0) s0" using i0(1) by (simp add: kernel_inv_def struct_inv_def)
  have kk: "prio k < 62" "task_state k \<in> {K_RDY, K_SUSPENDED}" using arg(1) by (simp_all add: kf)
  obtain q where q: "(if r then ready_list_add_tail t (task_added t k s0) else Inr (task_added t k s0)) =
      Inr ((task_added t k s0)\<lparr>g_ready_queue := q\<rparr>)" "kinv (insert t (live s0)) ((task_added t k s0)\<lparr>g_ready_queue := q\<rparr>)"
    using task_added_kinv [OF k0, of t k] t kk by (cases r) (auto simp: i0 kf)
  define s1 where "s1 = (task_added t k s0)\<lparr>g_ready_queue := q\<rparr>"
  have i1: "kernel_inv s1" unfolding s1_def
    using task_added_inv [OF i0(1) _ _ _ _ _ q(2)] t kk arg(1) by (simp add: i0 kf)
  have w: "wait_rel s1 \<subseteq> wait_rel s0" using kk(2) by (auto simp: s1_def wait_rel_def split: if_splits)
  have v: "live s1 = insert t (live s)" "tasks s1 = (tasks s)(t := k)" "st s1 t = task_state k" "pri s1 t = p" "g_sched_lock s1 = g_sched_lock s"
    "g_intrpt_nested_level s1 = 0" "g_sys_stat s1 = RHINO_RUNNING"
    using same arg(3) by (simp_all add: s1_def i0 kf same_sched_def)
  have e: "task_create (Some t) (Some name) p n (Some sb) sz False r fl s =
      (if r then exit_sched RHINO_SUCCESS s1 else Inr (RHINO_SUCCESS, s1))"
    using q(1) v(7) arg
    by (subst task_create_eq; simp only: Let_def s0_def [symmetric] k_def [symmetric]) (auto simp: s1_def)
  have nd: "no_deadlock s1" using w inv(2) wait_rel_same [OF same(1)] acyclic_subset by (auto simp: no_deadlock_def)
  show ?thesis
  proof (cases r)
    case False
    then show ?thesis using e i1 nd v kf by (auto simp: st_def)
  next
    case True
    obtain s' where s': "exit_sched RHINO_SUCCESS s1 = Inr (RHINO_SUCCESS, s')" "kernel_inv s'" and d: "sched_done s1 s'"
      using kernel_exit [OF i1] by (auto simp: ok_iff)
    show ?thesis
      using True e s' nd v kf sched_done_active [OF d] wait_rel_sched_done [OF d]
      by (auto simp: sched_done_frame [OF d] no_deadlock_def)
  qed
qed

text \<open>
  C21. Creating a task with valid arguments on a control block that is not in use: the task is added to
  the list of tasks with the given priority, ready behind the others of its priority or suspended, no
  other task changes, and the best ready task runs afterwards, so a new task of the highest priority
  preempts its creator. The kernel invariant is kept.
\<close>

theorem task_create_adds:
  assumes inv: "kernel_inv s" "no_deadlock s" and run: "g_sys_stat s = RHINO_RUNNING" and t: "t \<notin> live s"
    and arg: "p < RHINO_CONFIG_PRI_MAX" "sz \<noteq> 0" "g_intrpt_nested_level s = 0" "p = RHINO_IDLE_PRI \<Longrightarrow> g_idle_task_spawned s = 0"
  shows "ok (krhino_task_create (Some t) (Some name) p n (Some sb) sz False r s) (\<lambda>(e, s'). e = RHINO_SUCCESS \<and>
    kernel_inv s' \<and> no_deadlock s' \<and> live s' = insert t (live s) \<and> (\<forall>u. u \<noteq> t \<longrightarrow> tasks s' u = tasks s u) \<and>
    st s' t = (if r then K_RDY else K_SUSPENDED) \<and> pri s' t = p \<and> b_prio (tasks s' t) = p \<and>
    (r \<and> g_sched_lock s = 0 \<longrightarrow> (\<exists>u. g_active_task s' = Some u \<and> best_ready (live s') s' u)))"
  unfolding krhino_task_create_def by (rule task_create_ok; fact assms)

theorem task_create_adds_witness:
  "ok (krhino_task_create (Some 20) (Some ''worker'') 7 0 (Some 4096) 512 False True ex_state) (\<lambda>(e, s'). kernel_inv s' \<and>
     20 \<in> live s' \<and> pri s' 20 = 7 \<and> st s' 20 = K_RDY)"
  by (rule ok_mono [OF task_create_adds [OF ex_kernel_inv ex_no_deadlock, of 20 7 512]]) auto

end
