(* ===== verification/Timer.thy ===== *)
theory Timer
  imports BufQueue Task
begin

text \<open>
  Software timers (\<^verbatim>\<open>k_timer.c\<close>). The services only send commands to the timer task through the
  buffer queue \<open>g_timer_queue\<close>; the timer task owns the sorted list of running timers. The byte
  image of a command (the compiler's layout of the struct) is the parameter \<open>cb_image\<close>, the user's
  callback the parameter \<open>run\<close>.
\<close>

section \<open>Data\<close>

definition MAX_TIMER_TICKS :: tick where "MAX_TIMER_TICKS = drop_bit 1 (-1)"

datatype (plugins only: code size) timer_cmd =
    TIMER_CMD_CB | TIMER_CMD_START | TIMER_CMD_STOP | TIMER_CMD_CHG | TIMER_ARG_CHG
  | TIMER_ARG_CHG_AUTO | TIMER_CMD_DEL | TIMER_CMD_DYN_DEL

datatype (plugins only: code size) k_timer_state = TIMER_DEACTIVE | TIMER_ACTIVE

record ktimer =
  to_head :: bool
  tm_name :: "string option"
  tm_cb :: nat
  timer_cb_arg :: nat
  tm_match :: tick
  tm_remain :: tick
  init_count :: tick
  round_ticks :: tick
  tm_obj_type :: kobj_type
  tm_state :: k_timer_state
  tm_alloc_flag :: "8 word"

text \<open>The union of the command holds the new period or the new argument; both views are kept.\<close>

record k_timer_queue_cb =
  cb_timer :: nat
  cb_num :: timer_cmd
  cb_first :: tick
  cb_round :: tick
  cb_arg :: nat

record tstate =
  kern :: kstate
  g_timer_head :: "nat list"
  g_timer_count :: tick
  timers :: "nat \<Rightarrow> ktimer"

definition upd_timer :: "nat \<Rightarrow> (ktimer \<Rightarrow> ktimer) \<Rightarrow> tstate \<Rightarrow> tstate" where
  "upd_timer t f x = x\<lparr>timers := (timers x)(t := f (timers x t))\<rparr>"

section \<open>The sorted list of timers\<close>

definition timer_list_pri_insert :: "nat \<Rightarrow> tstate \<Rightarrow> tstate" where
  "timer_list_pri_insert t x =
     (let val = tm_remain (timers x t)
      in x\<lparr>g_timer_head := insert_before (\<lambda>q. tm_match (timers x q) - g_timer_count x > val) t (g_timer_head x)\<rparr>)"

definition timer_list_rm :: "nat \<Rightarrow> tstate \<Rightarrow> tstate" where
  "timer_list_rm t x =
     (if to_head (timers x t)
      then upd_timer t (\<lambda>k. k\<lparr>to_head := False\<rparr>) (x\<lparr>g_timer_head := remove1 t (g_timer_head x)\<rparr>)
      else x)"

text \<open>\<open>q->next\<close>: the node after \<open>t\<close>; \<open>None\<close> is the list head, where the walk ends.\<close>

fun succ_in :: "nat list \<Rightarrow> nat \<Rightarrow> nat option" where
  "succ_in [] t = None"
| "succ_in (a # as) t = (if a = t then (case as of [] \<Rightarrow> None | b # _ \<Rightarrow> Some b) else succ_in as t)"

text \<open>The body of the loop of \<open>timer_cb_proc\<close> for an expired timer: the callback, then a periodic
  timer goes back into the list and the walk goes on behind its new place, while the node of a
  one-shot timer keeps the link it had when it was unlinked.\<close>

definition timer_fire ::
  "(nat \<Rightarrow> nat \<Rightarrow> nat \<Rightarrow> tstate \<Rightarrow> tstate) \<Rightarrow> nat \<Rightarrow> tstate \<Rightarrow> nat option \<times> tstate" where
  "timer_fire run t x =
     (let x = run (tm_cb (timers x t)) t (timer_cb_arg (timers x t)) x;
          nxt = succ_in (g_timer_head x) t;
          x = timer_list_rm t x
      in if round_ticks (timers x t) > 0
         then (let x = upd_timer t (\<lambda>k. k\<lparr>tm_remain := round_ticks k,
                       tm_match := g_timer_count x + round_ticks k, to_head := True\<rparr>) x;
                   x = timer_list_pri_insert t x
               in (succ_in (g_timer_head x) t, x))
         else (nxt, upd_timer t (\<lambda>k. k\<lparr>tm_state := TIMER_DEACTIVE\<rparr>) x))"

fun timer_cb_loop ::
  "nat \<Rightarrow> (nat \<Rightarrow> nat \<Rightarrow> nat \<Rightarrow> tstate \<Rightarrow> tstate) \<Rightarrow> nat option \<Rightarrow> tstate \<Rightarrow> tstate outcome" where
  "timer_cb_loop fuel run None x = Inr x"
| "timer_cb_loop fuel run (Some t) x =
     (if sint (tm_match (timers x t) - g_timer_count x) \<le> 0
      then (case fuel of
              0 \<Rightarrow> Inl Diverge
            | Suc n \<Rightarrow> (case timer_fire run t x of (q, x) \<Rightarrow> timer_cb_loop n run q x))
      else Inr x)"

definition timer_cb_proc :: "(nat \<Rightarrow> nat \<Rightarrow> nat \<Rightarrow> tstate \<Rightarrow> tstate) \<Rightarrow> tstate \<Rightarrow> tstate outcome" where
  "timer_cb_proc run x =
     timer_cb_loop (length (g_timer_head x)) run
       (case g_timer_head x of [] \<Rightarrow> None | t # _ \<Rightarrow> Some t) x"

section \<open>Commands\<close>

definition cmd_proc :: "k_timer_queue_cb \<Rightarrow> timer_cmd \<Rightarrow> tstate \<Rightarrow> tstate outcome" where
  "cmd_proc cb cmd x =
     (let t = cb_timer cb; k = timers x t in
      case cmd of
        TIMER_CMD_START \<Rightarrow>
          if tm_obj_type k \<noteq> RHINO_TIMER_OBJ_TYPE then Inr x
          else if tm_state k = TIMER_ACTIVE then Inr x
          else (let x = upd_timer t (\<lambda>k. k\<lparr>tm_match := g_timer_count x + init_count k,
                          tm_remain := init_count k, to_head := True\<rparr>) x;
                    x = timer_list_pri_insert t x
                in Inr (upd_timer t (\<lambda>k. k\<lparr>tm_state := TIMER_ACTIVE\<rparr>) x))
      | TIMER_CMD_STOP \<Rightarrow>
          if tm_obj_type k \<noteq> RHINO_TIMER_OBJ_TYPE then Inr x
          else if tm_state k = TIMER_DEACTIVE then Inr x
          else Inr (upd_timer t (\<lambda>k. k\<lparr>tm_state := TIMER_DEACTIVE\<rparr>) (timer_list_rm t x))
      | TIMER_CMD_CHG \<Rightarrow>
          if cb_first cb = 0 then Inr x
          else if tm_obj_type k \<noteq> RHINO_TIMER_OBJ_TYPE then Inr x
          else if tm_state k \<noteq> TIMER_DEACTIVE then Inr x
          else Inr (upd_timer t (\<lambda>k. k\<lparr>init_count := cb_first cb, round_ticks := cb_round cb\<rparr>) x)
      | TIMER_ARG_CHG \<Rightarrow>
          if tm_obj_type k \<noteq> RHINO_TIMER_OBJ_TYPE then Inr x
          else if tm_state k \<noteq> TIMER_DEACTIVE then Inr x
          else Inr (upd_timer t (\<lambda>k. k\<lparr>timer_cb_arg := cb_arg cb\<rparr>) x)
      | TIMER_CMD_DEL \<Rightarrow>
          if tm_obj_type k \<noteq> RHINO_TIMER_OBJ_TYPE then Inr x
          else if tm_state k \<noteq> TIMER_DEACTIVE then Inr x
          else if tm_alloc_flag k \<noteq> K_OBJ_STATIC_ALLOC then Inr x
          else Inr (upd_timer t (\<lambda>k. k\<lparr>tm_obj_type := RHINO_OBJ_TYPE_NONE\<rparr>) x)
      | TIMER_CMD_DYN_DEL \<Rightarrow>
          if tm_obj_type k \<noteq> RHINO_TIMER_OBJ_TYPE then Inr x
          else if tm_state k \<noteq> TIMER_DEACTIVE then Inr x
          else if tm_alloc_flag k \<noteq> K_OBJ_DYN_ALLOC then Inr x
          else Inr (upd_timer t (\<lambda>k. k\<lparr>tm_obj_type := RHINO_OBJ_TYPE_NONE\<rparr>) x)
      | _ \<Rightarrow> k_err_proc RHINO_SYS_FATAL_ERR)"

definition timer_cmd_proc :: "k_timer_queue_cb \<Rightarrow> tstate \<Rightarrow> tstate outcome" where
  "timer_cmd_proc cb x =
     (if cb_num cb = TIMER_ARG_CHG_AUTO
      then bnd (cmd_proc cb TIMER_CMD_STOP x) (\<lambda>x.
           bnd (cmd_proc cb TIMER_ARG_CHG x) (cmd_proc cb TIMER_CMD_START))
      else cmd_proc cb (cb_num cb) x)"

section \<open>The timer task\<close>

text \<open>What the task does when its inner loop comes round: wait for ever for a command (the list is
  empty), wait for a command at most so many ticks, or run the expired timers at once.\<close>

datatype timer_wait = Wait_forever | Wait_ticks tick | Run_now

definition timer_task_poll :: "tstate \<Rightarrow> timer_wait" where
  "timer_task_poll x =
     (case g_timer_head x of
        [] \<Rightarrow> Wait_forever
      | t # _ \<Rightarrow>
          (let tick_start = g_tick_count (kern x); delta = tm_match (timers x t) - tick_start
           in if sint delta > 0 then Wait_ticks delta else Run_now))"

text \<open>The inner loop when nothing has to be waited for.\<close>

definition timer_task_run_now ::
  "(nat \<Rightarrow> nat \<Rightarrow> nat \<Rightarrow> tstate \<Rightarrow> tstate) \<Rightarrow> tstate \<Rightarrow> tstate outcome" where
  "timer_task_run_now run x = timer_cb_proc run (x\<lparr>g_timer_count := g_tick_count (kern x)\<rparr>)"

text \<open>Return of the timed wait of the inner loop, with its status and the command received.\<close>

definition timer_task_waited ::
  "(nat \<Rightarrow> nat \<Rightarrow> nat \<Rightarrow> tstate \<Rightarrow> tstate) \<Rightarrow> kstat \<Rightarrow> k_timer_queue_cb \<Rightarrow> tstate \<Rightarrow> tstate outcome" where
  "timer_task_waited run err cb_msg x =
     (let tick_end = g_tick_count (kern x)
      in bnd (if err = RHINO_BLK_TIMEOUT then Inr (x\<lparr>g_timer_count := tick_end\<rparr>)
              else if err = RHINO_SUCCESS then timer_cmd_proc cb_msg (x\<lparr>g_timer_count := tick_end\<rparr>)
              else k_err_proc RHINO_SYS_FATAL_ERR)
           (timer_cb_proc run))"

text \<open>Return of the unlimited wait of the outer loop.\<close>

definition timer_task_received :: "kstat \<Rightarrow> k_timer_queue_cb \<Rightarrow> tstate \<Rightarrow> tstate outcome" where
  "timer_task_received err cb_msg x =
     (let tick_end = g_tick_count (kern x)
      in if err = RHINO_SUCCESS then timer_cmd_proc cb_msg (x\<lparr>g_timer_count := tick_end\<rparr>)
         else k_err_proc RHINO_SYS_FATAL_ERR)"

section \<open>Services\<close>

text \<open>Sending a command: \<open>cb_image\<close> is the byte image, \<open>cb_size\<close> its size.\<close>

definition timer_send ::
  "(k_timer_queue_cb \<Rightarrow> nat \<Rightarrow> byte) \<Rightarrow> nat \<Rightarrow> k_timer_queue_cb \<Rightarrow> tstate \<Rightarrow> (kstat \<times> tstate) outcome" where
  "timer_send cb_image cb_size cb x =
     bnd (krhino_buf_queue_send (Some g_timer_queue) (Some (cb_image cb)) cb_size (kern x)) (\<lambda>(err, s).
       Inr (err, x\<lparr>kern := s\<rparr>))"

text \<open>A command with the fields that the sender leaves as they were on its stack (\<open>junk\<close>).\<close>

definition timer_simple_cmd ::
  "(k_timer_queue_cb \<Rightarrow> nat \<Rightarrow> byte) \<Rightarrow> nat \<Rightarrow> k_timer_queue_cb \<Rightarrow> timer_cmd \<Rightarrow> nat option \<Rightarrow> tstate
    \<Rightarrow> (kstat \<times> tstate) outcome" where
  "timer_simple_cmd cb_image cb_size junk cmd timer x =
     (case timer of
        None \<Rightarrow> Inr (RHINO_NULL_PTR, x)
      | Some t \<Rightarrow> timer_send cb_image cb_size (junk\<lparr>cb_timer := t, cb_num := cmd\<rparr>) x)"

definition krhino_timer_del where
  "krhino_timer_del cb_image cb_size junk timer x = timer_simple_cmd cb_image cb_size junk TIMER_CMD_DEL timer x"

definition krhino_timer_dyn_del where
  "krhino_timer_dyn_del cb_image cb_size junk timer x = timer_simple_cmd cb_image cb_size junk TIMER_CMD_DYN_DEL timer x"

definition krhino_timer_start where
  "krhino_timer_start cb_image cb_size junk timer x = timer_simple_cmd cb_image cb_size junk TIMER_CMD_START timer x"

definition krhino_timer_stop where
  "krhino_timer_stop cb_image cb_size junk timer x = timer_simple_cmd cb_image cb_size junk TIMER_CMD_STOP timer x"

definition krhino_timer_change ::
  "(k_timer_queue_cb \<Rightarrow> nat \<Rightarrow> byte) \<Rightarrow> nat \<Rightarrow> k_timer_queue_cb \<Rightarrow> nat option \<Rightarrow> tick \<Rightarrow> tick \<Rightarrow> tstate
    \<Rightarrow> (kstat \<times> tstate) outcome" where
  "krhino_timer_change cb_image cb_size junk timer first rnd x =
     (case timer of
        None \<Rightarrow> Inr (RHINO_NULL_PTR, x)
      | Some t \<Rightarrow>
          if first \<ge> -1 then Inr (RHINO_INV_PARAM, x)
          else if rnd \<ge> -1 then Inr (RHINO_INV_PARAM, x)
          else timer_send cb_image cb_size
                 (junk\<lparr>cb_timer := t, cb_first := first, cb_round := rnd, cb_num := TIMER_CMD_CHG\<rparr>) x)"

definition krhino_timer_arg_change ::
  "(k_timer_queue_cb \<Rightarrow> nat \<Rightarrow> byte) \<Rightarrow> nat \<Rightarrow> k_timer_queue_cb \<Rightarrow> nat option \<Rightarrow> nat \<Rightarrow> tstate
    \<Rightarrow> (kstat \<times> tstate) outcome" where
  "krhino_timer_arg_change cb_image cb_size junk timer arg x =
     timer_simple_cmd cb_image cb_size (junk\<lparr>cb_arg := arg\<rparr>) TIMER_ARG_CHG timer x"

definition krhino_timer_arg_change_auto ::
  "(k_timer_queue_cb \<Rightarrow> nat \<Rightarrow> byte) \<Rightarrow> nat \<Rightarrow> k_timer_queue_cb \<Rightarrow> nat option \<Rightarrow> nat \<Rightarrow> tstate
    \<Rightarrow> (kstat \<times> tstate) outcome" where
  "krhino_timer_arg_change_auto cb_image cb_size junk timer arg x =
     timer_simple_cmd cb_image cb_size (junk\<lparr>cb_arg := arg\<rparr>) TIMER_ARG_CHG_AUTO timer x"

definition timer_create ::
  "(k_timer_queue_cb \<Rightarrow> nat \<Rightarrow> byte) \<Rightarrow> nat \<Rightarrow> k_timer_queue_cb \<Rightarrow> nat option \<Rightarrow> string option \<Rightarrow> nat option
    \<Rightarrow> tick \<Rightarrow> tick \<Rightarrow> nat \<Rightarrow> bool \<Rightarrow> 8 word \<Rightarrow> tstate \<Rightarrow> (kstat \<times> tstate) outcome" where
  "timer_create cb_image cb_size junk timer name cb first rnd arg auto_run mm_alloc_flag x =
     (case (timer, cb) of
        (Some t, Some c) \<Rightarrow>
          if name = None then Inr (RHINO_NULL_PTR, x)
          else if first = 0 then Inr (RHINO_INV_PARAM, x)
          else if first \<ge> MAX_TIMER_TICKS then Inr (RHINO_INV_PARAM, x)
          else if rnd \<ge> MAX_TIMER_TICKS then Inr (RHINO_INV_PARAM, x)
          else (let x = upd_timer t (\<lambda>k. \<lparr>to_head = False, tm_name = name, tm_cb = c, timer_cb_arg = arg,
                      tm_match = 0, tm_remain = 0, init_count = first, round_ticks = rnd,
                      tm_obj_type = RHINO_TIMER_OBJ_TYPE, tm_state = TIMER_DEACTIVE,
                      tm_alloc_flag = mm_alloc_flag\<rparr>) x
                in if auto_run then krhino_timer_start cb_image cb_size junk (Some t) x
                   else Inr (RHINO_SUCCESS, x))
      | _ \<Rightarrow> Inr (RHINO_NULL_PTR, x))"

definition krhino_timer_create where
  "krhino_timer_create cb_image cb_size junk timer name cb first rnd arg auto_run x =
     timer_create cb_image cb_size junk timer name cb first rnd arg auto_run K_OBJ_STATIC_ALLOC x"

definition krhino_timer_dyn_create ::
  "(k_timer_queue_cb \<Rightarrow> nat \<Rightarrow> byte) \<Rightarrow> nat \<Rightarrow> k_timer_queue_cb \<Rightarrow> bool \<Rightarrow> nat option \<Rightarrow> string option
    \<Rightarrow> nat option \<Rightarrow> tick \<Rightarrow> tick \<Rightarrow> nat \<Rightarrow> bool \<Rightarrow> tstate \<Rightarrow> (kstat \<times> nat option \<times> tstate) outcome" where
  "krhino_timer_dyn_create cb_image cb_size junk timer_null alloc name cb first rnd arg auto_run x =
     (if timer_null then Inr (RHINO_NULL_PTR, None, x)
      else if first \<ge> MAX_TIMER_TICKS then Inr (RHINO_INV_PARAM, None, x)
      else if rnd \<ge> MAX_TIMER_TICKS then Inr (RHINO_INV_PARAM, None, x)
      else if alloc = None then Inr (RHINO_NO_MEM, None, x)
      else bnd (timer_create cb_image cb_size junk alloc name cb first rnd arg auto_run K_OBJ_DYN_ALLOC x) (\<lambda>(ret, x).
             if ret \<noteq> RHINO_SUCCESS then Inr (ret, None, x) else Inr (ret, alloc, x)))"

end
