(* ===== verification/TimerInv.thy ===== *)
theory TimerInv
  imports Timer
begin

text \<open>
  The service of expired timers: as long as no timer is overdue, the timer task fires exactly the timers whose
  time has come, each once and in their order, re-arms the periodic ones and keeps the list sorted. With
  overdue timers the list gets out of order, and a timer can be passed over.
\<close>

section \<open>The list of running timers\<close>

definition trem :: "tstate \<Rightarrow> nat \<Rightarrow> nat" where
  "trem x t = unat (tm_match (timers x t) - g_timer_count x)"

definition timers_ok :: "tstate \<Rightarrow> bool" where
  "timers_ok x \<longleftrightarrow> distinct (g_timer_head x) \<and> sorted (map (trem x) (g_timer_head x)) \<and>
     (\<forall>t \<in> set (g_timer_head x). trem x t < 2 ^ 63 \<and> to_head (timers x t) \<and> unat (round_ticks (timers x t)) < 2 ^ 63)"

definition due :: "tstate \<Rightarrow> nat list" where
  "due x = filter (\<lambda>t. trem x t = 0) (g_timer_head x)"

text \<open>A timer after its callback at time \<open>now\<close>.\<close>

definition rearmed :: "tick \<Rightarrow> ktimer \<Rightarrow> ktimer" where
  "rearmed now k = (if round_ticks k > 0
     then k\<lparr>tm_remain := round_ticks k, tm_match := now + round_ticks k, to_head := True\<rparr>
     else k\<lparr>to_head := False, tm_state := TIMER_DEACTIVE\<rparr>)"

text \<open>Callbacks use kernel services and leave the timer task's data alone; \<open>on_kernel g\<close> runs them.\<close>

definition on_kernel :: "(nat \<Rightarrow> nat \<Rightarrow> nat \<Rightarrow> kstate \<Rightarrow> kstate) \<Rightarrow> nat \<Rightarrow> nat \<Rightarrow> nat \<Rightarrow> tstate \<Rightarrow> tstate" where
  "on_kernel g c t a x = x\<lparr>kern := g c t a (kern x)\<rparr>"

definition callbacks :: "(nat \<Rightarrow> nat \<Rightarrow> nat \<Rightarrow> kstate \<Rightarrow> kstate) \<Rightarrow> tstate \<Rightarrow> nat list \<Rightarrow> kstate \<Rightarrow> kstate" where
  "callbacks g x ts = fold (\<lambda>t. g (tm_cb (timers x t)) t (timer_cb_arg (timers x t))) ts"

text \<open>The timers \<open>F\<close>, the first ones due, have been served.\<close>

definition fired :: "(nat \<Rightarrow> nat \<Rightarrow> nat \<Rightarrow> kstate \<Rightarrow> kstate) \<Rightarrow> nat list \<Rightarrow> tstate \<Rightarrow> tstate \<Rightarrow> bool" where
  "fired g F x x' \<longleftrightarrow> timers_ok x' \<and> due x = F @ due x' \<and> g_timer_count x' = g_timer_count x \<and>
     kern x' = callbacks g x F (kern x) \<and>
     (\<forall>t. timers x' t = (if t \<in> set F then rearmed (g_timer_count x) (timers x t) else timers x t)) \<and>
     set (g_timer_head x') = {t \<in> set (g_timer_head x). t \<in> set F \<longrightarrow> round_ticks (timers x t) > 0}"

lemma fired_refl: "timers_ok x \<Longrightarrow> fired g [] x x"
  by (simp add: fired_def callbacks_def)

lemma distinct_due: "timers_ok x \<Longrightarrow> distinct (due x)"
  by (simp add: timers_ok_def due_def)

lemma rearmed_fields [simp]:
  "tm_cb (rearmed n k) = tm_cb k" "timer_cb_arg (rearmed n k) = timer_cb_arg k" "round_ticks (rearmed n k) = round_ticks k"
  by (simp_all add: rearmed_def)

lemma fired_trans:
  assumes x: "timers_ok x" and f: "fired g F x y" and h: "fired g H y z"
  shows "fired g (F @ H) x z"
proof -
  have d: "due x = F @ H @ due z" "set F \<inter> set H = {}"
    using f h distinct_due [OF x] by (auto simp: fired_def)
  have "callbacks g y H = callbacks g x H"
    unfolding callbacks_def using f d(2) by (intro ext fold_cong) (auto simp: fired_def)
  then show ?thesis
    using f h d by (auto simp: fired_def callbacks_def)
qed

lemma due_iff_timer: "trem x t < 2 ^ 63 \<Longrightarrow> sint (tm_match (timers x t) - g_timer_count x) \<le> 0 \<longleftrightarrow> trem x t = 0"
  using sint_small [of "tm_match (timers x t) - g_timer_count x"] unfolding trem_def by (simp only: of_nat_le_0_iff le_zero_eq)

lemma succ_in_insert:
  assumes "t \<notin> set ts" "succ_in (insert_before P t ts) t = Some q"
  shows "q \<in> set ts \<and> P q"
  using assms by (induction ts) (auto split: if_splits list.splits)

text \<open>One round of the walk, at the head of the list.\<close>

lemma timer_fire_ok:
  assumes x: "timers_ok x" "g_timer_head x = t # ts" "trem x t = 0"
  shows "\<exists>nx x1. timer_fire (on_kernel g) t x = (nx, x1) \<and> fired g [t] x x1 \<and>
    (if round_ticks (timers x t) > 0 then \<forall>q. nx = Some q \<longrightarrow> q \<in> set (g_timer_head x1) \<and> trem x1 q \<noteq> 0
     else g_timer_head x1 = ts \<and> nx = (case ts of [] \<Rightarrow> None | b # _ \<Rightarrow> Some b))"
proof -
  have d: "t \<notin> set ts" "distinct ts" "sorted (map (trem x) ts)" "to_head (timers x t)"
    "\<And>q. q \<in> set ts \<Longrightarrow> trem x q < 2 ^ 63 \<and> to_head (timers x q) \<and> unat (round_ticks (timers x q)) < 2 ^ 63"
    "unat (round_ticks (timers x t)) < 2 ^ 63"
    using x by (auto simp: timers_ok_def)
  define k where "k = rearmed (g_timer_count x) (timers x t)"
  define y where "y = x\<lparr>kern := g (tm_cb (timers x t)) t (timer_cb_arg (timers x t)) (kern x), timers := (timers x)(t := k)\<rparr>"
  have r: "trem (y\<lparr>g_timer_head := zs\<rparr>) q = trem x q" if "q \<noteq> t" for q zs using that by (simp add: trem_def y_def)
  then have r': "trem (y\<lparr>g_timer_head := zs\<rparr>) q = trem x q" if "q \<in> set ts" for q zs using that d(1) by metis
  have m: "map (trem (y\<lparr>g_timer_head := zs\<rparr>)) ts = map (trem x) ts" for zs using r' by simp
  have du: "filter (\<lambda>q. trem (y\<lparr>g_timer_head := zs\<rparr>) q = 0) ts = filter (\<lambda>q. trem x q = 0) ts" for zs
    using r' by (intro filter_cong) simp_all
  have dx: "due x = t # filter (\<lambda>q. trem x q = 0) ts" using x(2,3) by (simp add: due_def)
  show ?thesis
  proof (cases "round_ticks (timers x t) > 0")
    case False
    let ?x = "y\<lparr>g_timer_head := ts\<rparr>"
    have e: "timer_fire (on_kernel g) t x = (case ts of [] \<Rightarrow> None | b # _ \<Rightarrow> Some b, ?x)"
      using False d(4) x(2) by (simp add: timer_fire_def on_kernel_def timer_list_rm_def upd_timer_def y_def k_def rearmed_def)
    have "sorted (map (trem ?x) ts)" unfolding m by (rule d(3))
    moreover have "\<forall>q \<in> set ts. trem ?x q < 2 ^ 63 \<and> to_head (timers ?x q) \<and> unat (round_ticks (timers ?x q)) < 2 ^ 63"
      using d(1,5) r' [of _ ts] by (auto simp: y_def)
    ultimately have "timers_ok ?x" using d(2) by (simp add: timers_ok_def)
    moreover have "due x = [t] @ due ?x" using dx du [of ts] by (simp add: due_def y_def)
    ultimately have "fired g [t] x ?x"
      using False x(2) d(1) by (auto simp: fired_def y_def k_def callbacks_def)
    then show ?thesis using e False by (auto simp: y_def)
  next
    case True
    define n where "n = round_ticks (timers x t)"
    define zs where "zs = insert_before (\<lambda>q. tm_match (timers y q) - g_timer_count x > n) t ts"
    define w where "w = y\<lparr>g_timer_head := zs\<rparr>"
    have rt: "trem w t = unat n" using True by (simp add: w_def trem_def y_def k_def rearmed_def n_def)
    have "0 < n" using True by (simp add: n_def)
    then have n0: "unat n \<noteq> 0" by (simp add: unat_eq_0 word_gt_0)
    have P: "tm_match (timers y q) - g_timer_count x > n \<longleftrightarrow> trem w q > trem w t" for q
      unfolding rt by (simp add: w_def trem_def y_def word_less_nat_alt)
    have e: "timer_fire (on_kernel g) t x = (succ_in zs t, w)"
      using True d(4) x(2) by (simp add: timer_fire_def on_kernel_def timer_list_rm_def upd_timer_def timer_list_pri_insert_def
          y_def k_def rearmed_def zs_def n_def w_def)
    have wh: "g_timer_head w = zs" "timers w = (timers x)(t := k)" "g_timer_count w = g_timer_count x"
      "kern w = g (tm_cb (timers x t)) t (timer_cb_arg (timers x t)) (kern x)" by (simp_all add: w_def y_def)
    have "sorted (map (trem w) ts)" unfolding w_def m by (rule d(3))
    from sorted_insert_before [OF this, OF P] have "sorted (map (trem w) zs)" by (simp only: zs_def)
    moreover have "\<forall>q \<in> set zs. trem w q < 2 ^ 63 \<and> to_head (timers w q) \<and> unat (round_ticks (timers w q)) < 2 ^ 63"
      using d(1,5,6) r' [of _ zs, folded w_def] rt True by (auto simp: zs_def wh k_def n_def rearmed_def)
    ultimately have "timers_ok w" using d(1,2) by (simp add: timers_ok_def wh) (simp add: zs_def)
    moreover have "filter Q (insert_before R t us) = filter Q us" if "\<not> Q t" for Q R us using that by (induction us) auto
    then have "filter (\<lambda>q. trem w q = 0) zs = filter (\<lambda>q. trem w q = 0) ts" using rt n0 by (simp add: zs_def)
    then have "due x = [t] @ due w" using dx du [of zs, folded w_def] by (simp add: due_def wh)
    ultimately have "fired g [t] x w"
      using True x(2) by (simp add: fired_def wh callbacks_def k_def) (auto simp: zs_def)
    moreover have "q \<in> set zs \<and> trem w q \<noteq> 0" if "succ_in zs t = Some q" for q
      using succ_in_insert [OF d(1) that [unfolded zs_def]] P by (auto simp: zs_def)
    ultimately show ?thesis using e True wh by auto
  qed
qed

section \<open>A walk over the list and the loop of the timer task\<close>

lemma timer_cb_loop_ok:
  assumes "timers_ok x" "g_timer_head x = ts" "length ts \<le> n"
  shows "\<exists>x' F. timer_cb_loop n (on_kernel g) (case ts of [] \<Rightarrow> None | t # _ \<Rightarrow> Some t) x = Inr x' \<and> fired g F x x' \<and>
    (due x \<noteq> [] \<longrightarrow> F \<noteq> [])"
  using assms
proof (induction ts arbitrary: x n)
  case Nil
  then have "fired g [] x x" "due x = []" by (simp_all add: fired_refl due_def)
  then show ?case by fastforce
next
  case (Cons t ts)
  have r: "trem x t < 2 ^ 63" "sorted (map (trem x) (t # ts))" using Cons.prems(1,2) by (simp_all add: timers_ok_def)
  obtain m where m: "n = Suc m" "length ts \<le> m" using Cons.prems(3) by (cases n) auto
  show ?case
  proof (cases "trem x t = 0")
    case False
    then have "due x = []" using r(2) Cons.prems(2) by (auto simp: due_def filter_empty_conv)
    then show ?thesis
      using False Cons.prems(1) m(1) due_iff_timer [OF r(1)] fired_refl by fastforce
  next
    case True
    obtain nx x1 where f: "timer_fire (on_kernel g) t x = (nx, x1)" "fired g [t] x x1"
      and nx: "if round_ticks (timers x t) > 0 then \<forall>q. nx = Some q \<longrightarrow> q \<in> set (g_timer_head x1) \<and> trem x1 q \<noteq> 0
        else g_timer_head x1 = ts \<and> nx = (case ts of [] \<Rightarrow> None | b # _ \<Rightarrow> Some b)"
      using timer_fire_ok [OF Cons.prems(1,2) True] by blast
    have x1: "timers_ok x1" using f(2) by (simp add: fired_def)
    have e: "timer_cb_loop n (on_kernel g) (Some t) x = timer_cb_loop m (on_kernel g) nx x1"
      using m(1) f(1) True due_iff_timer [OF r(1)] by simp
    show ?thesis
    proof (cases "round_ticks (timers x t) > 0")
      case True
      have "timer_cb_loop m (on_kernel g) nx x1 = Inr x1"
      proof (cases nx)
        case (Some q)
        then have "trem x1 q < 2 ^ 63" "trem x1 q \<noteq> 0" using True nx x1 by (auto simp: timers_ok_def)
        then show ?thesis using Some due_iff_timer by simp
      qed simp
      then show ?thesis using e f(2) by (auto intro!: exI [of _ x1] exI [of _ "[t]"])
    next
      case False
      obtain x' F where "timer_cb_loop m (on_kernel g) nx x1 = Inr x'" "fired g F x1 x'"
        using Cons.IH [OF x1 _ m(2)] nx False by auto
      then show ?thesis using e fired_trans [OF Cons.prems(1) f(2)] by (auto intro!: exI [of _ x'] exI [of _ "t # F"])
    qed
  qed
qed

text \<open>The inner loop of \<^verbatim>\<open>timer_task\<close> as long as nothing has to be waited for.\<close>

fun timer_service :: "nat \<Rightarrow> (nat \<Rightarrow> nat \<Rightarrow> nat \<Rightarrow> tstate \<Rightarrow> tstate) \<Rightarrow> tstate \<Rightarrow> tstate outcome" where
  "timer_service fuel run x =
     (if timer_task_poll x = Run_now
      then (case fuel of
              0 \<Rightarrow> Inl Diverge
            | Suc n \<Rightarrow> bnd (timer_task_run_now run x) (timer_service n run))
      else Inr x)"

declare timer_service.simps [simp del]

lemma poll_due:
  assumes "timers_ok x" "g_timer_count x = g_tick_count (kern x)"
  shows "timer_task_poll x = Run_now \<longleftrightarrow> due x \<noteq> []"
proof (cases "g_timer_head x")
  case Nil
  then show ?thesis by (simp add: timer_task_poll_def due_def)
next
  case (Cons t ts)
  then have r: "trem x t < 2 ^ 63" "\<forall>q \<in> set ts. trem x t \<le> trem x q" using assms(1) by (auto simp: timers_ok_def)
  then have "due x \<noteq> [] \<longleftrightarrow> trem x t = 0" using Cons by (auto simp: due_def filter_empty_conv)
  then show ?thesis
    using Cons due_iff_timer [OF r(1)] assms(2) by (auto simp: timer_task_poll_def Let_def not_less)
qed

lemma timer_service_ok:
  assumes "timers_ok x" "g_timer_count x = g_tick_count (kern x)" "\<And>c t a s. g_tick_count (g c t a s) = g_tick_count s"
    "length (due x) \<le> n"
  shows "ok (timer_service n (on_kernel g) x) (\<lambda>x'. fired g (due x) x x' \<and> timer_task_poll x' \<noteq> Run_now)"
  using assms
proof (induction n arbitrary: x)
  case 0
  then show ?case using poll_due [OF 0(1,2)] fired_refl by (simp add: timer_service.simps)
next
  case (Suc n)
  show ?case
  proof (cases "due x = []")
    case True
    then show ?thesis using poll_due [OF Suc.prems(1,2)] fired_refl Suc.prems(1) by (simp add: timer_service.simps)
  next
    case False
    obtain x1 F where x1: "timer_cb_proc (on_kernel g) x = Inr x1" "fired g F x x1" "F \<noteq> []"
      using timer_cb_loop_ok [OF Suc.prems(1) refl order_refl] False unfolding timer_cb_proc_def by blast
    have d: "due x = F @ due x1" "timers_ok x1" "g_timer_count x1 = g_timer_count x" "kern x1 = callbacks g x F (kern x)"
      using x1(2) by (simp_all add: fired_def)
    have "g_tick_count (callbacks g x F s) = g_tick_count s" for s
      by (induction F arbitrary: s) (simp_all add: callbacks_def Suc.prems(3))
    then have "ok (timer_service n (on_kernel g) x1) (\<lambda>x'. fired g (due x1) x1 x' \<and> timer_task_poll x' \<noteq> Run_now)"
      using Suc.prems(2,4) d x1(3) by (intro Suc.IH Suc.prems(3)) (auto simp: Suc_le_eq neq_Nil_conv)
    moreover have "timer_task_run_now (on_kernel g) x = Inr x1"
      using x1(1) by (simp add: timer_task_run_now_def flip: Suc.prems(2))
    then have "timer_service (Suc n) (on_kernel g) x = timer_service n (on_kernel g) x1"
      using poll_due [OF Suc.prems(1,2)] False by (simp add: timer_service.simps [of "Suc n"])
    ultimately show ?thesis
      using fired_trans [OF Suc.prems(1) x1(2)] d(1) by (auto simp: ok_iff)
  qed
qed

text \<open>
  C20. Timers are served: with no timer overdue, periods below half the range of the counter and callbacks that use
  kernel services only and take less than a tick, the timer task calls back exactly the timers whose time has come,
  each once, in the order of the list. One-shot timers are then inactive and off the list, periodic ones
  are set for one period later and back in order, all others are as they were, and the task goes on to wait. The
  loop ends after at most as many rounds as timers are due.
\<close>

theorem timers_served:
  assumes "timers_ok x" "g_timer_count x = g_tick_count (kern x)" "\<And>c t a s. g_tick_count (g c t a s) = g_tick_count s"
  shows "ok (timer_service (length (g_timer_head x)) (on_kernel g) x) (\<lambda>x'. timer_task_poll x' \<noteq> Run_now \<and> timers_ok x' \<and>
    kern x' = fold (\<lambda>t. g (tm_cb (timers x t)) t (timer_cb_arg (timers x t))) (filter (\<lambda>t. trem x t = 0) (g_timer_head x)) (kern x) \<and>
    set (g_timer_head x') = {t \<in> set (g_timer_head x). trem x t = 0 \<longrightarrow> round_ticks (timers x t) > 0} \<and>
    (\<forall>t. timers x' t = (if t \<in> set (g_timer_head x) \<and> trem x t = 0 then rearmed (g_timer_count x) (timers x t) else timers x t)))"
proof -
  have "length (due x) \<le> length (g_timer_head x)" by (simp add: due_def)
  from timer_service_ok [OF assms this] show ?thesis
    by (rule ok_mono) (auto simp: fired_def callbacks_def due_def)
qed

text \<open>Timers for concrete runs: match, period.\<close>

definition ex_timer :: "tick \<Rightarrow> tick \<Rightarrow> ktimer" where
  "ex_timer m r = \<lparr>to_head = True, tm_name = None, tm_cb = 0, timer_cb_arg = 0, tm_match = m, tm_remain = 0,
     init_count = 1, round_ticks = r, tm_obj_type = RHINO_TIMER_OBJ_TYPE, tm_state = TIMER_ACTIVE,
     tm_alloc_flag = K_OBJ_STATIC_ALLOC\<rparr>"

text \<open>At tick 100 of the example state the timers 1, 2 and 3 run with the given match and period.\<close>

definition ex_timers :: "tick \<times> tick \<Rightarrow> tick \<times> tick \<Rightarrow> tick \<times> tick \<Rightarrow> tstate" where
  "ex_timers a b c = \<lparr>kern = ex_state, g_timer_head = [1, 2, 3], g_timer_count = 100,
     timers = (\<lambda>t. if t = 1 then ex_timer (fst a) (snd a) else if t = 2 then ex_timer (fst b) (snd b)
       else ex_timer (fst c) (snd c))\<rparr>"

lemma ex_timers_fields [simp]:
  "kern (ex_timers a b c) = ex_state" "g_timer_head (ex_timers a b c) = [1, 2, 3]" "g_timer_count (ex_timers a b c) = 100"
  "timers (ex_timers a b c) 1 = ex_timer (fst a) (snd a)" "timers (ex_timers a b c) (Suc 0) = ex_timer (fst a) (snd a)"
  "timers (ex_timers a b c) 2 = ex_timer (fst b) (snd b)"
  "timers (ex_timers a b c) 3 = ex_timer (fst c) (snd c)"
  "tm_match (ex_timer m r) = m" "round_ticks (ex_timer m r) = r" "to_head (ex_timer m r)"
  by (simp_all add: ex_timers_def ex_timer_def)

theorem timers_served_witness:
  "ok (timer_service 3 (on_kernel (\<lambda>c t a s. s)) (ex_timers (100, 5) (100, 0) (102, 0)))
     (\<lambda>x'. timer_task_poll x' \<noteq> Run_now \<and> set (g_timer_head x') = {1, 3} \<and>
       tm_state (timers x' 2) = TIMER_DEACTIVE \<and> tm_match (timers x' 1) = 105 \<and> kern x' = ex_state)"
proof -
  define x where "x = ex_timers (100, 5) (100, 0) (102, 0)"
  have r: "trem x 1 = 0" "trem x (Suc 0) = 0" "trem x 2 = 0" "trem x 3 = 2" by (simp_all add: x_def trem_def)
  have "timers_ok x" unfolding timers_ok_def using r by (simp add: x_def)
  moreover have "g_timer_count x = g_tick_count (kern x)" by (simp add: x_def ex_state_def)
  moreover have p: "round_ticks (timers x (Suc 0)) = 5" "round_ticks (timers x 2) = 0" by (simp_all add: x_def)
  moreover have h: "g_timer_head x = [1, 2, 3]" "kern x = ex_state" "length (g_timer_head x) = 3" by (simp_all add: x_def)
  ultimately have "ok (timer_service 3 (on_kernel (\<lambda>c t a s. s)) x) (\<lambda>x'. timer_task_poll x' \<noteq> Run_now \<and> timers_ok x' \<and>
    kern x' = fold (\<lambda>t s. s) (filter (\<lambda>t. trem x t = 0) [1, 2, 3]) ex_state \<and>
    set (g_timer_head x') = {t \<in> set [1, 2, 3]. trem x t = 0 \<longrightarrow> round_ticks (timers x t) > 0} \<and>
    (\<forall>t. timers x' t = (if t \<in> set [1, 2, 3] \<and> trem x t = 0 then rearmed (g_timer_count x) (timers x t) else timers x t)))"
    using timers_served [of x "\<lambda>c t a s. s"] unfolding h(3) unfolding h(1,2) by blast
  then obtain x' where x': "timer_service 3 (on_kernel (\<lambda>c t a s. s)) x = Inr x'" "timer_task_poll x' \<noteq> Run_now"
    "kern x' = fold (\<lambda>t s. s) (filter (\<lambda>t. trem x t = 0) [1, 2, 3]) ex_state"
    "set (g_timer_head x') = {t \<in> set [1, 2, 3]. trem x t = 0 \<longrightarrow> round_ticks (timers x t) > 0}"
    "\<And>t. timers x' t = (if t \<in> set [1, 2, 3] \<and> trem x t = 0 then rearmed (g_timer_count x) (timers x t) else timers x t)"
    unfolding ok_iff by blast
  have "kern x' = ex_state" using x'(3) by (simp add: r)
  moreover have "set (g_timer_head x') = {1, 3}" 
    using x'(4) unfolding set_filter [symmetric] by (simp add: r p)
  moreover have "tm_state (timers x' 2) = TIMER_DEACTIVE" "tm_match (timers x' 1) = 105"
    unfolding x'(5) [of 1] x'(5) [of 2] by (simp_all add: r) (simp_all add: x_def rearmed_def)
  ultimately show ?thesis using x'(1,2) unfolding x_def [symmetric] by simp
qed

text \<open>
  An overdue timer can be passed over: when the timer task runs late, at tick 100, for the timers 1 (match 95,
  period 100), 2 (match 96, period 50) and 3 (match 97, one-shot), it calls back the first two and then waits
  for 50 ticks, although timer 3 has expired: it stays on the list, behind timers with a later match, and
  active. The insertion compares unsigned distances, where an overdue timer counts as one far in the future.
\<close>

theorem overdue_timer_missed:
  "ok (timer_service 3 (\<lambda>c t a x. x) (ex_timers (95, 100) (96, 50) (97, 0)))
     (\<lambda>x'. g_timer_head x' = [2, 1, 3] \<and> tm_match (timers x' 2) = 150 \<and> tm_match (timers x' 1) = 200 \<and>
       tm_match (timers x' 3) = 97 \<and> tm_state (timers x' 3) = TIMER_ACTIVE \<and>
       timer_task_poll x' = Wait_ticks 50)"
  by code_simp

end
