(* ===== verification/Event.thy ===== *)
theory Event
  imports PriInv
begin

unbundle bit_operations_syntax

text \<open>
  Event flags (\<^verbatim>\<open>k_event.c\<close>). \<open>pend_info\<close> is the address of the waiter's result variable; those
  variables are the map \<open>cells\<close>.
\<close>

definition RHINO_FLAGS_AND_MASK :: "8 word" where "RHINO_FLAGS_AND_MASK = 0x2"
definition RHINO_FLAGS_CLEAR_MASK :: "8 word" where "RHINO_FLAGS_CLEAR_MASK = 0x1"
definition RHINO_AND :: "8 word" where "RHINO_AND = 0x2"
definition RHINO_AND_CLEAR :: "8 word" where "RHINO_AND_CLEAR = 0x3"
definition RHINO_OR :: "8 word" where "RHINO_OR = 0x0"
definition RHINO_OR_CLEAR :: "8 word" where "RHINO_OR_CLEAR = 0x1"

definition upd_event :: "oid \<Rightarrow> (kevent \<Rightarrow> kevent) \<Rightarrow> kstate \<Rightarrow> kstate" where
  "upd_event b f s = s\<lparr>events := (events s)(b := f (events s b))\<rparr>"

definition event_create :: "oid option \<Rightarrow> string option \<Rightarrow> 32 word \<Rightarrow> 8 word \<Rightarrow> kstate \<Rightarrow> kstat \<times> kstate" where
  "event_create event name fl mm_alloc_flag s =
     (case event of
        None \<Rightarrow> (RHINO_NULL_PTR, s)
      | Some b \<Rightarrow>
          if name = None then (RHINO_NULL_PTR, s)
          else (let s = upd_blk b (\<lambda>ob. ob\<lparr>blk_list := [], blk_policy := BLK_POLICY_PRI, blk_name := name\<rparr>) s;
                    s = upd_event b (\<lambda>x. x\<lparr>flags := fl, event_alloc_flag := mm_alloc_flag\<rparr>) s;
                    s = upd_kobj (\<lambda>k. k\<lparr>event_head := event_head k @ [b]\<rparr>) s;
                    s = upd_blk b (\<lambda>ob. ob\<lparr>obj_type := RHINO_EVENT_OBJ_TYPE\<rparr>) s
                in (RHINO_SUCCESS, s)))"

definition krhino_event_create :: "oid option \<Rightarrow> string option \<Rightarrow> 32 word \<Rightarrow> kstate \<Rightarrow> kstat \<times> kstate" where
  "krhino_event_create event name fl s = event_create event name fl K_OBJ_STATIC_ALLOC s"

definition event_del_body :: "oid \<Rightarrow> kstate \<Rightarrow> (kstat \<times> kstate) outcome" where
  "event_del_body b s =
     bnd (pend_rm_all b (upd_blk b (\<lambda>ob. ob\<lparr>obj_type := RHINO_OBJ_TYPE_NONE\<rparr>) s)) (\<lambda>s.
       let s = upd_event b (\<lambda>x. x\<lparr>flags := 0\<rparr>) s
       in exit_sched RHINO_SUCCESS (upd_kobj (\<lambda>k. k\<lparr>event_head := remove1 b (event_head k)\<rparr>) s))"

definition krhino_event_del :: "oid option \<Rightarrow> kstate \<Rightarrow> (kstat \<times> kstate) outcome" where
  "krhino_event_del event s =
     (case event of
        None \<Rightarrow> Inr (RHINO_NULL_PTR, s)
      | Some b \<Rightarrow>
          if g_intrpt_nested_level s > 0 then Inr (RHINO_NOT_CALLED_BY_INTRPT, s)
          else if obj_type (blks s b) \<noteq> RHINO_EVENT_OBJ_TYPE then Inr (RHINO_KOBJ_TYPE_ERR, s)
          else if event_alloc_flag (events s b) \<noteq> K_OBJ_STATIC_ALLOC then Inr (RHINO_KOBJ_DEL_ERR, s)
          else event_del_body b s)"

definition krhino_event_dyn_create ::
  "bool \<Rightarrow> oid option \<Rightarrow> string option \<Rightarrow> 32 word \<Rightarrow> kstate \<Rightarrow> kstat \<times> oid option \<times> kstate" where
  "krhino_event_dyn_create event_null alloc name fl s =
     (if event_null then (RHINO_NULL_PTR, None, s)
      else if alloc = None then (RHINO_NO_MEM, None, s)
      else (case event_create alloc name fl K_OBJ_DYN_ALLOC s of
              (stat, s) \<Rightarrow> if stat \<noteq> RHINO_SUCCESS then (stat, None, s) else (stat, alloc, s)))"

definition krhino_event_dyn_del :: "oid option \<Rightarrow> kstate \<Rightarrow> (kstat \<times> kstate) outcome" where
  "krhino_event_dyn_del event s =
     (case event of
        None \<Rightarrow> Inr (RHINO_NULL_PTR, s)
      | Some b \<Rightarrow>
          if g_intrpt_nested_level s > 0 then Inr (RHINO_NOT_CALLED_BY_INTRPT, s)
          else if obj_type (blks s b) \<noteq> RHINO_EVENT_OBJ_TYPE then Inr (RHINO_KOBJ_TYPE_ERR, s)
          else if event_alloc_flag (events s b) \<noteq> K_OBJ_DYN_ALLOC then Inr (RHINO_KOBJ_DEL_ERR, s)
          else event_del_body b s)"

text \<open>The test both \<open>krhino_event_get\<close> and \<open>event_set\<close> make on the wanted flags.\<close>

definition event_match :: "8 word \<Rightarrow> 32 word \<Rightarrow> 32 word \<Rightarrow> bool" where
  "event_match opt cur wanted =
     (if opt AND RHINO_FLAGS_AND_MASK \<noteq> 0 then cur AND wanted = wanted else cur AND wanted > 0)"

definition krhino_event_get ::
  "oid option \<Rightarrow> 32 word \<Rightarrow> 8 word \<Rightarrow> nat option \<Rightarrow> tick \<Rightarrow> kstate \<Rightarrow> (kret \<times> kstate) outcome" where
  "krhino_event_get event fl opt actl_flags ticks s =
     (case (event, actl_flags) of
        (Some b, Some out) \<Rightarrow>
          if opt \<noteq> RHINO_AND \<and> opt \<noteq> RHINO_OR \<and> opt \<noteq> RHINO_AND_CLEAR \<and> opt \<noteq> RHINO_OR_CLEAR
          then Inr (Ret RHINO_NO_THIS_EVENT_OPT, s)
          else if g_intrpt_nested_level s > 0 then Inr (Ret RHINO_NOT_CALLED_BY_INTRPT, s)
          else if obj_type (blks s b) \<noteq> RHINO_EVENT_OBJ_TYPE then Inr (Ret RHINO_KOBJ_TYPE_ERR, s)
          else if event_match opt (flags (events s b)) fl
          then (let s = s\<lparr>cells := (cells s)(out := flags (events s b))\<rparr>
                in Inr (Ret RHINO_SUCCESS,
                        if opt AND RHINO_FLAGS_CLEAR_MASK \<noteq> 0
                        then upd_event b (\<lambda>x. x\<lparr>flags := flags x AND NOT fl\<rparr>) s else s))
          else if ticks = RHINO_NO_WAIT then Inr (Ret RHINO_NO_PEND_WAIT, s)
          else if g_sched_lock s > 0 then Inr (Ret RHINO_SCHED_DISABLE, s)
          else bnd (active s) (\<lambda>a.
            block_active b ticks
              (upd_task a (\<lambda>k. k\<lparr>pend_option := opt, pend_flags := fl, pend_info := out\<rparr>) s))
      | _ \<Rightarrow> Inr (Ret RHINO_NULL_PTR, s))"

text \<open>The walk over the waiters: \<open>iter_temp\<close> is read before the current task may leave the list, and
  waking a task takes only that task off the list, so the nodes visited are those of the list at
  the start. The flags compared are those read before the walk (\<open>cur_event_flags\<close>).\<close>

fun event_set_loop :: "oid \<Rightarrow> 32 word \<Rightarrow> tid list \<Rightarrow> kstate \<Rightarrow> kstate outcome" where
  "event_set_loop b cur [] s = Inr s"
| "event_set_loop b cur (t # ts) s =
     (if event_match (pend_option (tasks s t)) cur (pend_flags (tasks s t))
      then bnd (pend_task_wakeup t (s\<lparr>cells := (cells s)(pend_info (tasks s t) := cur)\<rparr>)) (\<lambda>s.
             event_set_loop b cur ts
               (if pend_option (tasks s t) AND RHINO_FLAGS_CLEAR_MASK \<noteq> 0
                then upd_event b (\<lambda>x. x\<lparr>flags := flags x AND NOT (pend_flags (tasks s t))\<rparr>) s else s))
      else event_set_loop b cur ts s)"

definition event_set :: "oid \<Rightarrow> 32 word \<Rightarrow> 8 word \<Rightarrow> kstate \<Rightarrow> (kstat \<times> kstate) outcome" where
  "event_set b fl opt s =
     (if obj_type (blks s b) \<noteq> RHINO_EVENT_OBJ_TYPE then Inr (RHINO_KOBJ_TYPE_ERR, s)
      else if opt AND RHINO_FLAGS_AND_MASK \<noteq> 0
      then Inr (RHINO_SUCCESS, upd_event b (\<lambda>x. x\<lparr>flags := flags x AND fl\<rparr>) s)
      else (let s = upd_event b (\<lambda>x. x\<lparr>flags := flags x OR fl\<rparr>) s
            in bnd (event_set_loop b (flags (events s b)) (blk_list (blks s b)) s)
                 (exit_sched RHINO_SUCCESS)))"

definition krhino_event_set :: "oid option \<Rightarrow> 32 word \<Rightarrow> 8 word \<Rightarrow> kstate \<Rightarrow> (kstat \<times> kstate) outcome" where
  "krhino_event_set event fl opt s =
     (case event of
        None \<Rightarrow> Inr (RHINO_NULL_PTR, s)
      | Some b \<Rightarrow> if opt \<noteq> RHINO_AND \<and> opt \<noteq> RHINO_OR then Inr (RHINO_NO_THIS_EVENT_OPT, s)
                  else event_set b fl opt s)"

section \<open>Setting flags\<close>

text \<open>The waiters that a set of flags satisfies, and the flags they consume.\<close>

definition matches :: "kstate \<Rightarrow> 32 word \<Rightarrow> tid \<Rightarrow> bool" where
  "matches s cur t \<longleftrightarrow> event_match (pend_option (tasks s t)) cur (pend_flags (tasks s t))"

fun consumed :: "kstate \<Rightarrow> 32 word \<Rightarrow> tid list \<Rightarrow> 32 word" where
  "consumed s cur [] = 0"
| "consumed s cur (t # ts) =
     (if matches s cur t \<and> pend_option (tasks s t) AND RHINO_FLAGS_CLEAR_MASK \<noteq> 0 then pend_flags (tasks s t) else 0)
       OR consumed s cur ts"

lemma consumed_cong: "\<forall>t \<in> set ts. tasks s' t = tasks s t \<Longrightarrow> consumed s' cur ts = consumed s cur ts"
  by (induction ts) (auto simp: matches_def)

lemma same_sched_cells: "same_sched s (s\<lparr>cells := c\<rparr>)"
  by (simp add: same_sched_def view_defs fun_eq_iff)

lemma same_sched_event: "same_sched s (upd_event b f s)"
  by (simp add: same_sched_def upd_event_def view_defs fun_eq_iff)

lemma upd_event_views [simp]:
  "tasks (upd_event b f s) = tasks s" "st (upd_event b f s) = st s" "bo (upd_event b f s) = bo s" "bl (upd_event b f s) = bl s"
  "ty (upd_event b f s) = ty s" "own (upd_event b f s) = own s" "pol (upd_event b f s) = pol s" "live (upd_event b f s) = live s"
  "cells (upd_event b f s) = cells s" "events (upd_event b f s) = (events s)(b := f (events s b))"
  "g_sched_lock (upd_event b f s) = g_sched_lock s" "g_intrpt_nested_level (upd_event b f s) = g_intrpt_nested_level s"
  "g_active_task (upd_event b f s) = g_active_task s" "blks (upd_event b f s) = blks s"
  by (simp_all add: upd_event_def view_defs live_def fun_eq_iff)

lemma cells_views [simp]:
  "st (s\<lparr>cells := c\<rparr>) = st s" "bo (s\<lparr>cells := c\<rparr>) = bo s" "bl (s\<lparr>cells := c\<rparr>) = bl s" "ty (s\<lparr>cells := c\<rparr>) = ty s"
  "own (s\<lparr>cells := c\<rparr>) = own s" "live (s\<lparr>cells := c\<rparr>) = live s"
  by (simp_all add: view_defs live_def fun_eq_iff)

text \<open>One round of the walk on a waiter that matches.\<close>

lemma event_wake_step:
  assumes inv: "kernel_inv s" and t: "t \<in> set (bl s b)"
  shows "\<exists>s1. pend_task_wakeup t (s\<lparr>cells := (cells s)(pend_info (tasks s t) := cur)\<rparr>) = Inr s1 \<and> kernel_inv s1 \<and>
    wait_rel s1 \<subseteq> wait_rel s \<and> bl s1 = (bl s)(b := remove1 t (bl s b)) \<and> ty s1 = ty s \<and>
    (\<forall>u. u \<noteq> t \<longrightarrow> tasks s1 u = tasks s u) \<and> st s1 t = woken (st s t) \<and> t_blk_state (tasks s1 t) = BLK_FINISH \<and>
    pend_option (tasks s1 t) = pend_option (tasks s t) \<and> pend_flags (tasks s1 t) = pend_flags (tasks s t) \<and>
    cells s1 = (cells s)(pend_info (tasks s t) := cur) \<and> events s1 = events s"
proof -
  define s0 where "s0 = s\<lparr>cells := (cells s)(pend_info (tasks s t) := cur)\<rparr>"
  have v: "st s0 = st s" "bl s0 = bl s" "ty s0 = ty s" "tasks s0 = tasks s" "events s0 = events s"
    "cells s0 = (cells s)(pend_info (tasks s t) := cur)"
    by (simp_all add: s0_def)
  have i0: "kernel_inv s0" "wait_rel s0 = wait_rel s"
    using inv same_sched_inv wait_rel_same same_sched_cells unfolding s0_def by blast+
  obtain q where q: "pend_task_end BLK_FINISH t s0 = Inr (wake_result BLK_FINISH t q s0)" "kernel_inv (wake_result BLK_FINISH t q s0)"
    using kernel_wake_ok [OF i0(1), of t b] t by (auto simp: v)
  have k: "kinv (live s0) s0" using i0(1) by (simp add: kernel_inv_def struct_inv_def)
  have "pend_option (tasks (wake_result BLK_FINISH t q s0) t) = pend_option (tasks s t)"
    "pend_flags (tasks (wake_result BLK_FINISH t q s0) t) = pend_flags (tasks s t)"
    by (simp_all add: wake_result_def set_state_def tick_list_rm_def blk_list_rm_def upd_task_def v)
  then show ?thesis
    unfolding s0_def [symmetric]
    using q wait_rel_wake [of BLK_FINISH t q s0] i0(2) bl_remove1 [OF k, of t b] t
    by (intro exI [of _ "wake_result BLK_FINISH t q s0"]) (simp add: pend_task_wakeup_def v woken_def)
qed

text \<open>The effect of the walk over the waiters \<open>ts\<close>.\<close>

definition event_woken :: "oid \<Rightarrow> 32 word \<Rightarrow> tid list \<Rightarrow> kstate \<Rightarrow> kstate \<Rightarrow> bool" where
  "event_woken b cur ts s s' \<longleftrightarrow> wait_rel s' \<subseteq> wait_rel s \<and> ty s' = ty s \<and>
    bl s' = (bl s)(b := filter (\<lambda>t. \<not> (t \<in> set ts \<and> matches s cur t)) (bl s b)) \<and>
    (\<forall>t. if t \<in> set ts \<and> matches s cur t then st s' t = woken (st s t) \<and> t_blk_state (tasks s' t) = BLK_FINISH
       else tasks s' t = tasks s t) \<and>
    cells s' = (\<lambda>c. if \<exists>t \<in> set ts. matches s cur t \<and> pend_info (tasks s t) = c then cur else cells s c) \<and>
    flags (events s' b) = flags (events s b) AND NOT (consumed s cur ts)"

lemma event_woken_skip:
  assumes "\<not> matches s cur t"
  shows "event_woken b cur (t # ts) s s' = event_woken b cur ts s s'"
proof -
  have "(u \<in> set (t # ts) \<and> matches s cur u) = (u \<in> set ts \<and> matches s cur u)" for u using assms by auto
  moreover have "(\<exists>u \<in> set (t # ts). matches s cur u \<and> pend_info (tasks s u) = c) =
      (\<exists>u \<in> set ts. matches s cur u \<and> pend_info (tasks s u) = c)" for c using assms by auto
  moreover have "consumed s cur (t # ts) = consumed s cur ts" using assms by simp
  ultimately show ?thesis unfolding event_woken_def by presburger
qed

lemma event_set_loop_ok:
  assumes "kernel_inv s" "distinct ts" "set ts \<subseteq> set (bl s b)"
  shows "ok (event_set_loop b cur ts s) (\<lambda>s'. kernel_inv s' \<and> event_woken b cur ts s s')"
  using assms
proof (induction ts arbitrary: s)
  case Nil
  then show ?case by (simp add: event_woken_def fun_upd_idem)
next
  case (Cons t ts)
  have k: "distinct (bl s b)" using Cons.prems(1) kinv_D(4) by (auto simp: kernel_inv_def struct_inv_def)
  show ?case
  proof (cases "matches s cur t")
    case False
    then show ?thesis
      using Cons.IH [OF Cons.prems(1)] Cons.prems by (simp add: matches_def [symmetric] event_woken_skip)
  next
    case True
    obtain s1 where w: "pend_task_wakeup t (s\<lparr>cells := (cells s)(pend_info (tasks s t) := cur)\<rparr>) = Inr s1" "kernel_inv s1"
      "wait_rel s1 \<subseteq> wait_rel s" "bl s1 = (bl s)(b := remove1 t (bl s b))" "ty s1 = ty s"
      "\<And>u. u \<noteq> t \<Longrightarrow> tasks s1 u = tasks s u" "st s1 t = woken (st s t)" "t_blk_state (tasks s1 t) = BLK_FINISH"
      "pend_option (tasks s1 t) = pend_option (tasks s t)" "pend_flags (tasks s1 t) = pend_flags (tasks s t)"
      "cells s1 = (cells s)(pend_info (tasks s t) := cur)" "events s1 = events s"
      using event_wake_step [OF Cons.prems(1), of t b cur] Cons.prems(3) by auto
    define x where "x = (if pend_option (tasks s t) AND RHINO_FLAGS_CLEAR_MASK \<noteq> 0 then pend_flags (tasks s t) else 0)"
    define s2 where "s2 = (if pend_option (tasks s1 t) AND RHINO_FLAGS_CLEAR_MASK \<noteq> 0
      then upd_event b (\<lambda>e. e\<lparr>flags := flags e AND NOT (pend_flags (tasks s1 t))\<rparr>) s1 else s1)"
    have same: "same_sched s1 s2" unfolding s2_def using same_sched_event [of s1] by (auto simp: same_sched_def)
    have v: "kernel_inv s2" "wait_rel s2 \<subseteq> wait_rel s" "bl s2 = (bl s)(b := filter ((\<noteq>) t) (bl s b))" "ty s2 = ty s"
      "tasks s2 = tasks s1" "st s2 = st s1" "cells s2 = cells s1" "flags (events s2 b) = flags (events s b) AND NOT x"
      using w same_sched_inv [OF same] wait_rel_same [OF same] k
      by (auto simp: s2_def x_def distinct_remove1_removeAll removeAll_filter_not_eq)
    have m: "matches s2 cur u = matches s cur u" if "u \<noteq> t" for u using w(6) [OF that] by (simp add: matches_def v)
    have nt: "t \<notin> set ts" using Cons.prems(2) by simp
    have mt: "(u \<in> set ts \<and> matches s2 cur u) = (u \<in> set ts \<and> matches s cur u)" for u using m [of u] nt by (cases "u = t") auto
    have co: "consumed s2 cur ts = consumed s cur ts" using w(6) nt by (intro consumed_cong ballI) (metis v(5))
    have "set ts \<subseteq> set (bl s2 b)" using Cons.prems(3) nt by (auto simp: v)
    note Cons.IH [OF v(1) _ this]
    then obtain s' where s': "event_set_loop b cur ts s2 = Inr s'" "kernel_inv s'" "wait_rel s' \<subseteq> wait_rel s2" "ty s' = ty s2"
      "bl s' = (bl s2)(b := filter (\<lambda>u. \<not> (u \<in> set ts \<and> matches s cur u)) (bl s2 b))"
      "\<And>u. if u \<in> set ts \<and> matches s cur u then st s' u = woken (st s2 u) \<and> t_blk_state (tasks s' u) = BLK_FINISH
         else tasks s' u = tasks s2 u"
      "cells s' = (\<lambda>c. if \<exists>u \<in> set ts. matches s2 cur u \<and> pend_info (tasks s2 u) = c then cur else cells s2 c)"
      "flags (events s' b) = flags (events s2 b) AND NOT (consumed s cur ts)"
      using Cons.prems(2) unfolding event_woken_def mt co by (auto simp: ok_iff)
    have "event_set_loop b cur (t # ts) s = Inr s'"
      using True w(1) s'(1) by (simp add: matches_def [symmetric] s2_def)
    moreover have "bl s' = (bl s)(b := filter (\<lambda>u. \<not> (u \<in> set (t # ts) \<and> matches s cur u)) (bl s b))"
      using s'(5) True by (auto simp: v fun_eq_iff intro!: filter_cong)
    moreover have "if u \<in> set (t # ts) \<and> matches s cur u then st s' u = woken (st s u) \<and> t_blk_state (tasks s' u) = BLK_FINISH
         else tasks s' u = tasks s u" for u
    proof (cases "u = t")
      case u: True
      then have "tasks s' t = tasks s1 t" using s'(6) [of t] nt by (simp add: v)
      moreover from this have "st s' t = st s1 t" by (simp add: st_def)
      ultimately show ?thesis using u True w(7,8) by simp
    next
      case False
      have "st s2 u = st s u" using w(6) [OF False] by (simp add: v st_def)
      then show ?thesis using s'(6) [of u] w(6) [OF False] False by (auto simp: v)
    qed
    moreover have "cells s' = (\<lambda>c. if \<exists>u \<in> set (t # ts). matches s cur u \<and> pend_info (tasks s u) = c then cur else cells s c)"
    proof -
      have "(\<exists>u \<in> set ts. matches s2 cur u \<and> pend_info (tasks s2 u) = c) =
          (\<exists>u \<in> set ts. matches s cur u \<and> pend_info (tasks s u) = c)" for c
        using m w(6) nt by (metis v(5))
      then show ?thesis using True by (auto simp: s'(7) v w(11) fun_eq_iff)
    qed
    moreover have "flags (events s' b) = flags (events s b) AND NOT (consumed s cur (t # ts))"
      using True unfolding s'(8) v consumed.simps x_def [symmetric]
      by (simp add: x_def ac_simps de_Morgan_disj bit.de_Morgan_disj)
    ultimately show ?thesis using s'(2,3,4) v by (auto simp: event_woken_def)
  qed
qed

lemma event_set_or:
  assumes inv: "kernel_inv s" and b: "ty s b = RHINO_EVENT_OBJ_TYPE"
  shows "ok (krhino_event_set (Some b) fl RHINO_OR s) (\<lambda>(r, s'). r = RHINO_SUCCESS \<and> kernel_inv s' \<and>
    event_woken b (flags (events s b) OR fl) (bl s b) (upd_event b (\<lambda>x. x\<lparr>flags := flags x OR fl\<rparr>) s) s')"
proof -
  define s0 where "s0 = upd_event b (\<lambda>x. x\<lparr>flags := flags x OR fl\<rparr>) s"
  have i0: "kernel_inv s0" using inv same_sched_inv [OF same_sched_event] by (simp add: s0_def)
  have v: "bl s0 = bl s" "flags (events s0 b) = flags (events s b) OR fl" by (simp_all add: s0_def)
  have "distinct (bl s0 b)" using i0 kinv_D(4) by (auto simp: kernel_inv_def struct_inv_def)
  then obtain s1 where s1: "event_set_loop b (flags (events s0 b)) (bl s0 b) s0 = Inr s1" "kernel_inv s1"
    "event_woken b (flags (events s0 b)) (bl s0 b) s0 s1"
    using event_set_loop_ok [OF i0, of "bl s0 b" b "flags (events s0 b)"] by (auto simp: ok_iff)
  obtain s' where s': "exit_sched RHINO_SUCCESS s1 = Inr (RHINO_SUCCESS, s')" "kernel_inv s'" and d: "sched_done s1 s'"
    using kernel_exit [OF s1(2)] by (auto simp: ok_iff)
  have "event_woken b (flags (events s b) OR fl) (bl s b) s0 s'"
    using s1(3) wait_rel_sched_done [OF d] by (simp add: event_woken_def v sched_done_frame [OF d])
  moreover have "krhino_event_set (Some b) fl RHINO_OR s = Inr (RHINO_SUCCESS, s')"
    using b s1(1) s'(1) by (simp add: krhino_event_set_def event_set_def RHINO_OR_def RHINO_FLAGS_AND_MASK_def ty_def
        Let_def s0_def bl_def)
  ultimately show ?thesis using s'(2) by (simp add: s0_def)
qed

text \<open>
  C22. Setting event flags wakes exactly the waiters whose condition (all or any of their flags) the flags
  at hand satisfy, each with status \<open>BLK_FINISH\<close> and with those flags stored in its result variable; the
  other waiters stay queued in their order, untouched. The flags that the woken waiters asked to be
  cleared are cleared, whatever the order in which they are visited: every waiter is tested against the
  same flags. The walk ends and the kernel invariant is kept.
\<close>

theorem event_set_wakes_matching:
  assumes "kernel_inv s" "ty s b = RHINO_EVENT_OBJ_TYPE"
  shows "ok (krhino_event_set (Some b) fl RHINO_OR s) (\<lambda>(r, s'). r = RHINO_SUCCESS \<and> kernel_inv s' \<and>
    (let cur = flags (events s b) OR fl in
     bl s' b = filter (\<lambda>t. \<not> matches s cur t) (bl s b) \<and>
     (\<forall>t \<in> set (bl s b). if matches s cur t
        then st s' t = woken (st s t) \<and> t_blk_state (tasks s' t) = BLK_FINISH \<and> cells s' (pend_info (tasks s t)) = cur
        else tasks s' t = tasks s t) \<and>
     (\<forall>t. t \<notin> set (bl s b) \<longrightarrow> tasks s' t = tasks s t) \<and>
     flags (events s' b) = cur AND NOT (consumed s cur (bl s b))))"
proof -
  let ?s0 = "upd_event b (\<lambda>x. x\<lparr>flags := flags x OR fl\<rparr>) s"
  have m: "matches ?s0 cur = matches s cur" "consumed ?s0 cur ts = consumed s cur ts" for cur ts
    by (simp add: matches_def fun_eq_iff) (rule consumed_cong, simp)
  have f: "filter (\<lambda>t. t \<in> set xs \<longrightarrow> \<not> P t) xs = filter (\<lambda>t. \<not> P t) xs" for P and xs :: "tid list"
    by (rule filter_cong) auto
  show ?thesis
    by (rule ok_mono [OF event_set_or [OF assms]]) (auto simp: event_woken_def m f Let_def)
qed

theorem event_set_wakes_matching_witness:
  "ok (krhino_event_set (Some 13) 2 RHINO_OR ex_state) (\<lambda>(r, s'). kernel_inv s' \<and> bl s' 13 = [] \<and> st s' 14 = K_RDY \<and>
     cells s' 99 = 3 \<and> flags (events s' 13) = 3)"
proof -
  have o: "(1 :: 32 word) OR 2 = 3" by (rule bit_word_eqI) (auto simp: bit_simps)
  have "matches ex_state 3 14" "consumed ex_state 3 [14] = 0" "pend_info (tasks ex_state 14) = 99"
    by (simp_all add: matches_def event_match_def ex_tasks_def ex_task_def RHINO_FLAGS_AND_MASK_def RHINO_FLAGS_CLEAR_MASK_def)
  then show ?thesis
    by (intro ok_mono [OF event_set_wakes_matching [OF ex_kernel_inv, of 13 2]]) (auto simp: Let_def o woken_def)
qed

section \<open>Waiting for flags\<close>

lemma event_get_now:
  assumes "ty s b = RHINO_EVENT_OBJ_TYPE" "g_intrpt_nested_level s = 0" "opt \<in> {RHINO_AND, RHINO_OR, RHINO_AND_CLEAR, RHINO_OR_CLEAR}"
    "event_match opt (flags (events s b)) fl \<or> ticks = RHINO_NO_WAIT \<or> g_sched_lock s > 0"
  shows "krhino_event_get (Some b) fl opt (Some out) ticks s =
    (if event_match opt (flags (events s b)) fl
     then (let s0 = s\<lparr>cells := (cells s)(out := flags (events s b))\<rparr>
           in Inr (Ret RHINO_SUCCESS, if opt AND RHINO_FLAGS_CLEAR_MASK \<noteq> 0
                then upd_event b (\<lambda>x. x\<lparr>flags := flags x AND NOT fl\<rparr>) s0 else s0))
     else if ticks = RHINO_NO_WAIT then Inr (Ret RHINO_NO_PEND_WAIT, s) else Inr (Ret RHINO_SCHED_DISABLE, s))"
  using assms by (auto simp: krhino_event_get_def ty_def Let_def)

text \<open>
  C23. Getting event flags: when the flags at hand satisfy the request they are reported, and the requested
  ones are cleared if the option says so; otherwise the call fails at once without any change, or the
  task waits on the event with its request recorded, in the order of priorities, and the best ready task
  runs. An unknown option is refused. The kernel invariant is kept on every branch.
\<close>

theorem event_get_cases:
  assumes inv: "kernel_inv s" and b: "ty s b = RHINO_EVENT_OBJ_TYPE" and z: "g_intrpt_nested_level s = 0"
    and a: "g_active_task s = Some a" "a \<noteq> g_idle_task" and t: "ticks = RHINO_NO_WAIT \<or> good_timeout ticks"
  shows "ok (krhino_event_get (Some b) fl opt (Some out) ticks s) (\<lambda>(r, s'). kernel_inv s' \<and>
    (if opt \<notin> {RHINO_AND, RHINO_OR, RHINO_AND_CLEAR, RHINO_OR_CLEAR} then r = Ret RHINO_NO_THIS_EVENT_OPT \<and> s' = s
     else if event_match opt (flags (events s b)) fl
     then r = Ret RHINO_SUCCESS \<and> cells s' = (cells s)(out := flags (events s b)) \<and> tasks s' = tasks s \<and> bl s' = bl s \<and>
       flags (events s' b) = (if opt \<in> {RHINO_AND_CLEAR, RHINO_OR_CLEAR} then flags (events s b) AND NOT fl else flags (events s b))
     else if ticks = RHINO_NO_WAIT then r = Ret RHINO_NO_PEND_WAIT \<and> s' = s
     else if g_sched_lock s > 0 then r = Ret RHINO_SCHED_DISABLE \<and> s' = s
     else r = Pending \<and> st s' = (st s)(a := K_PEND) \<and> a \<in> set (bl s' b) \<and> pend_flags (tasks s' a) = fl \<and>
       pend_option (tasks s' a) = opt \<and> pend_info (tasks s' a) = out \<and> events s' = events s \<and>
       (\<exists>u. g_active_task s' = Some u \<and> best_ready (live s') s' u)))"
proof (cases "opt \<notin> {RHINO_AND, RHINO_OR, RHINO_AND_CLEAR, RHINO_OR_CLEAR}")
  case True
  then show ?thesis using inv by (simp add: krhino_event_get_def)
next
  case opt: False
  note ds = RHINO_AND_def RHINO_OR_def RHINO_AND_CLEAR_def RHINO_OR_CLEAR_def RHINO_FLAGS_CLEAR_MASK_def
  have c: "opt AND RHINO_FLAGS_CLEAR_MASK \<noteq> 0 \<longleftrightarrow> opt \<in> {RHINO_AND_CLEAR, RHINO_OR_CLEAR}"
    using opt by (auto simp: ds)
  show ?thesis
  proof (cases "event_match opt (flags (events s b)) fl \<or> ticks = RHINO_NO_WAIT \<or> g_sched_lock s > 0")
    case True
    have "kernel_inv (s\<lparr>cells := x\<rparr>)" "kernel_inv (upd_event b f (s\<lparr>cells := x\<rparr>))" for f x
      using inv same_sched_inv [OF same_sched_cells] same_sched_inv [OF same_sched_event] by simp_all
    then show ?thesis
      using True opt inv by (subst event_get_now [OF b z _ True]) (auto simp: Let_def c)
  next
    case False
    define s0 where "s0 = upd_task a (\<lambda>k. k\<lparr>pend_option := opt, pend_flags := fl, pend_info := out\<rparr>) s"
    have n: "neutral (\<lambda>k. k\<lparr>pend_option := opt, pend_flags := fl, pend_info := out\<rparr>)" by (simp add: neutral_def)
    have i0: "kernel_inv s0" "st s0 = st s" using inv same_sched_inv [OF same_sched_task [OF n]] by (simp_all add: s0_def neutral_views [OF n])
    obtain s' q where s': "block_active b ticks s0 = Inr (Pending, s')" "kernel_inv s'"
      and d: "sched_done (block_result b a ticks q s0) s'"
      using block_active_ok [OF i0(1), of a ticks b] a b z t False by (auto simp: s0_def ok_iff word_gt_0)
    have e: "krhino_event_get (Some b) fl opt (Some out) ticks s = Inr (Pending, s')"
      using False opt z b s'(1) by (simp add: krhino_event_get_def ty_def active_eq [OF a(1)] s0_def)
    have "pend_flags (tasks s' a) = fl" "pend_option (tasks s' a) = opt" "pend_info (tasks s' a) = out" "events s' = events s"
      by (simp_all add: sched_done_frame [OF d] block_result_def Let_def set_state_def tick_list_insert_def
          tick_list_pri_insert_def s0_def upd_blk_def upd_task_def)
    moreover have "\<exists>u. g_active_task s' = Some u \<and> best_ready (live s') s' u"
      using sched_done_active [OF d] z False by (simp add: s0_def word_gt_0)
    ultimately show ?thesis
      unfolding e using opt False s'(2) i0(2) by (simp add: sched_done_frame [OF d])
  qed
qed

theorem event_get_cases_witness:
  "ok (krhino_event_get (Some 13) 1 RHINO_OR_CLEAR (Some 50) 0 ex_state) (\<lambda>(r, s'). r = Ret RHINO_SUCCESS \<and>
     cells s' 50 = 1 \<and> flags (events s' 13) = 0 \<and> kernel_inv s')"
proof -
  have "event_match RHINO_OR_CLEAR 1 1" "RHINO_OR_CLEAR \<in> {RHINO_AND, RHINO_OR, RHINO_AND_CLEAR, RHINO_OR_CLEAR}"
    by (simp_all add: event_match_def RHINO_OR_CLEAR_def RHINO_FLAGS_AND_MASK_def)
  then show ?thesis
    by (intro ok_mono [OF event_get_cases [OF ex_kernel_inv, of 13 5 0 1 RHINO_OR_CLEAR 50]])
      (auto simp: g_idle_task_def RHINO_NO_WAIT_def)
qed

end
