(* ===== verification/Queue.thy ===== *)
theory Queue
  imports PriInv
begin

text \<open>
  Message queues of pointers (\<^verbatim>\<open>k_queue.c\<close>), stored in a ring buffer of fixed-size blocks of four
  bytes. A message is the 32-bit pointer value; what a receiving call stores at \<open>*msg\<close> is part of
  its result (\<open>Some 0\<close> is a stored NULL, \<open>None\<close> is left as it was).
\<close>

definition ptr_bytes :: "nat \<Rightarrow> nat \<Rightarrow> byte" where
  "ptr_bytes v i = le_byte (of_nat v) i"

definition ptr_of_bytes :: "byte list \<Rightarrow> nat" where
  "ptr_of_bytes bs = unat (le_word bs)"

definition upd_queue :: "oid \<Rightarrow> (kqueue \<Rightarrow> kqueue) \<Rightarrow> kstate \<Rightarrow> kstate" where
  "upd_queue b f s = s\<lparr>queues := (queues s)(b := f (queues s b))\<rparr>"

definition set_msg :: "tid \<Rightarrow> nat \<Rightarrow> kstate \<Rightarrow> kstate" where
  "set_msg t m s = upd_task t (\<lambda>k. k\<lparr>msg := m\<rparr>) s"

definition task_msg_recv :: "tid \<Rightarrow> nat \<Rightarrow> kstate \<Rightarrow> kstate outcome" where
  "task_msg_recv t m s = pend_task_wakeup t (set_msg t m s)"

definition queue_create ::
  "oid option \<Rightarrow> string option \<Rightarrow> nat option \<Rightarrow> nat \<Rightarrow> 8 word \<Rightarrow> kstate \<Rightarrow> kstat \<times> kstate" where
  "queue_create queue name start msg_num mm_alloc_flag s =
     (case (queue, start) of
        (Some b, Some start0) \<Rightarrow>
          if name = None then (RHINO_NULL_PTR, s)
          else if msg_num = 0 then (RHINO_INV_PARAM, s)
          else (let s = upd_blk b (\<lambda>ob. ob\<lparr>blk_list := [], blk_name := name, blk_policy := BLK_POLICY_PRI\<rparr>) s;
                    s = upd_queue b (\<lambda>q. q\<lparr>queue_start := start0,
                          q_ringbuf := ringbuf_init (q_ringbuf q) start0 ((msg_num * 4) mod 2 ^ 32) RINGBUF_TYPE_FIX 4,
                          q_size := msg_num, q_cur_num := 0, q_peak_num := 0,
                          queue_alloc_flag := mm_alloc_flag\<rparr>) s;
                    s = upd_kobj (\<lambda>k. k\<lparr>queue_head := queue_head k @ [b]\<rparr>) s;
                    s = upd_blk b (\<lambda>ob. ob\<lparr>obj_type := RHINO_QUEUE_OBJ_TYPE\<rparr>) s
                in (RHINO_SUCCESS, s))
      | _ \<Rightarrow> (RHINO_NULL_PTR, s))"

definition krhino_queue_create ::
  "oid option \<Rightarrow> string option \<Rightarrow> nat option \<Rightarrow> nat \<Rightarrow> kstate \<Rightarrow> kstat \<times> kstate" where
  "krhino_queue_create queue name start msg_num s = queue_create queue name start msg_num K_OBJ_STATIC_ALLOC s"

definition queue_del_body :: "oid \<Rightarrow> kstate \<Rightarrow> (kstat \<times> kstate) outcome" where
  "queue_del_body b s =
     bnd (pend_rm_all b (upd_blk b (\<lambda>ob. ob\<lparr>obj_type := RHINO_OBJ_TYPE_NONE\<rparr>) s)) (\<lambda>s.
       let s = upd_kobj (\<lambda>k. k\<lparr>queue_head := remove1 b (queue_head k)\<rparr>) s
       in exit_sched RHINO_SUCCESS (upd_queue b (\<lambda>q. q\<lparr>q_ringbuf := ringbuf_reset (q_ringbuf q)\<rparr>) s))"

definition krhino_queue_del :: "oid option \<Rightarrow> kstate \<Rightarrow> (kstat \<times> kstate) outcome" where
  "krhino_queue_del queue s =
     (case queue of
        None \<Rightarrow> Inr (RHINO_NULL_PTR, s)
      | Some b \<Rightarrow>
          if g_intrpt_nested_level s > 0 then Inr (RHINO_NOT_CALLED_BY_INTRPT, s)
          else if obj_type (blks s b) \<noteq> RHINO_QUEUE_OBJ_TYPE then Inr (RHINO_KOBJ_TYPE_ERR, s)
          else if queue_alloc_flag (queues s b) \<noteq> K_OBJ_STATIC_ALLOC then Inr (RHINO_KOBJ_DEL_ERR, s)
          else queue_del_body b s)"

text \<open>\<open>alloc\<close> and \<open>alloc_msgs\<close> are the results of the two calls of \<open>krhino_mm_alloc\<close>.\<close>

definition krhino_queue_dyn_create ::
  "bool \<Rightarrow> oid option \<Rightarrow> nat option \<Rightarrow> string option \<Rightarrow> nat \<Rightarrow> kstate \<Rightarrow> kstat \<times> oid option \<times> kstate" where
  "krhino_queue_dyn_create queue_null alloc alloc_msgs name msg_num s =
     (if queue_null then (RHINO_NULL_PTR, None, s)
      else if alloc = None then (RHINO_NO_MEM, None, s)
      else if alloc_msgs = None then (RHINO_NO_MEM, None, s)
      else (case queue_create alloc name alloc_msgs msg_num K_OBJ_DYN_ALLOC s of
              (stat, s) \<Rightarrow> if stat \<noteq> RHINO_SUCCESS then (stat, None, s) else (stat, alloc, s)))"

definition krhino_queue_dyn_del :: "oid option \<Rightarrow> kstate \<Rightarrow> (kstat \<times> kstate) outcome" where
  "krhino_queue_dyn_del queue s =
     (case queue of
        None \<Rightarrow> Inr (RHINO_NULL_PTR, s)
      | Some b \<Rightarrow>
          if g_intrpt_nested_level s > 0 then Inr (RHINO_NOT_CALLED_BY_INTRPT, s)
          else if obj_type (blks s b) \<noteq> RHINO_QUEUE_OBJ_TYPE then Inr (RHINO_KOBJ_TYPE_ERR, s)
          else if queue_alloc_flag (queues s b) \<noteq> K_OBJ_DYN_ALLOC then Inr (RHINO_KOBJ_DEL_ERR, s)
          else queue_del_body b s)"

definition msg_send :: "oid option \<Rightarrow> nat \<Rightarrow> bool \<Rightarrow> kstate \<Rightarrow> (kstat \<times> kstate) outcome" where
  "msg_send p_q p_void opt_wake_all s =
     (case p_q of
        None \<Rightarrow> Inr (RHINO_NULL_PTR, s)
      | Some b \<Rightarrow>
          if obj_type (blks s b) \<noteq> RHINO_QUEUE_OBJ_TYPE then Inr (RHINO_KOBJ_TYPE_ERR, s)
          else if q_cur_num (queues s b) \<ge> q_size (queues s b) then Inr (RHINO_QUEUE_FULL, s)
          else (case blk_list (blks s b) of
                  [] \<Rightarrow>
                    (let s = upd_queue b (\<lambda>q. q\<lparr>q_cur_num := q_cur_num q + 1\<rparr>) s;
                         s = (if q_cur_num (queues s b) > q_peak_num (queues s b)
                              then upd_queue b (\<lambda>q. q\<lparr>q_peak_num := q_cur_num q\<rparr>) s else s);
                         r = ringbuf_push (mem s) (q_ringbuf (queues s b)) (ptr_bytes p_void) 4
                     in Inr (RHINO_SUCCESS,
                             upd_queue b (\<lambda>q. q\<lparr>q_ringbuf := snd (snd r)\<rparr>) (s\<lparr>mem := fst (snd r)\<rparr>)))
                | t # _ \<Rightarrow>
                    bnd (if opt_wake_all then pend_wakeup_all (\<lambda>t. set_msg t p_void) b s
                         else task_msg_recv t p_void s)
                      (exit_sched RHINO_SUCCESS)))"

definition krhino_queue_back_send :: "oid option \<Rightarrow> nat \<Rightarrow> kstate \<Rightarrow> (kstat \<times> kstate) outcome" where
  "krhino_queue_back_send queue m s = msg_send queue m False s"

definition krhino_queue_all_send :: "oid option \<Rightarrow> nat \<Rightarrow> kstate \<Rightarrow> (kstat \<times> kstate) outcome" where
  "krhino_queue_all_send queue m s = msg_send queue m True s"

definition krhino_queue_recv ::
  "oid option \<Rightarrow> tick \<Rightarrow> bool \<Rightarrow> kstate \<Rightarrow> (kret \<times> nat option \<times> kstate) outcome" where
  "krhino_queue_recv queue ticks msg_null s =
     (case queue of
        None \<Rightarrow> Inr (Ret RHINO_NULL_PTR, None, s)
      | Some b \<Rightarrow>
          if msg_null then Inr (Ret RHINO_NULL_PTR, None, s)
          else if g_intrpt_nested_level s > 0 \<and> ticks \<noteq> RHINO_NO_WAIT
          then Inr (Ret RHINO_NOT_CALLED_BY_INTRPT, None, s)
          else if obj_type (blks s b) \<noteq> RHINO_QUEUE_OBJ_TYPE then Inr (Ret RHINO_KOBJ_TYPE_ERR, None, s)
          else if q_cur_num (queues s b) > 0
          then (let r = ringbuf_pop (mem s) (q_ringbuf (queues s b))
                in Inr (Ret RHINO_SUCCESS, Some (ptr_of_bytes (fst (snd r))),
                        upd_queue b (\<lambda>q. q\<lparr>q_ringbuf := snd (snd r), q_cur_num := q_cur_num q - 1\<rparr>) s))
          else if ticks = RHINO_NO_WAIT then Inr (Ret RHINO_NO_PEND_WAIT, Some 0, s)
          else if g_sched_lock s > 0 then Inr (Ret RHINO_SCHED_DISABLE, Some 0, s)
          else bnd (block_active b ticks s) (\<lambda>(r, s). Inr (r, None, s)))"

text \<open>The second half of a blocked receive.\<close>

definition queue_recv_resume :: "kstate \<Rightarrow> (kstat \<times> nat) outcome" where
  "queue_recv_resume s =
     bnd (active s) (\<lambda>a.
     bnd (pend_state_end_proc a s) (\<lambda>ret.
       Inr (ret, if ret = RHINO_SUCCESS then msg (tasks s a) else 0)))"

definition krhino_queue_is_full :: "oid option \<Rightarrow> kstate \<Rightarrow> kstat" where
  "krhino_queue_is_full queue s =
     (case queue of
        None \<Rightarrow> RHINO_NULL_PTR
      | Some b \<Rightarrow>
          if obj_type (blks s b) \<noteq> RHINO_QUEUE_OBJ_TYPE then RHINO_KOBJ_TYPE_ERR
          else if q_cur_num (queues s b) \<ge> q_size (queues s b) then RHINO_QUEUE_FULL
          else RHINO_QUEUE_NOT_FULL)"

definition krhino_queue_flush :: "oid option \<Rightarrow> kstate \<Rightarrow> kstat \<times> kstate" where
  "krhino_queue_flush queue s =
     (case queue of
        None \<Rightarrow> (RHINO_NULL_PTR, s)
      | Some b \<Rightarrow>
          if g_intrpt_nested_level s > 0 then (RHINO_NOT_CALLED_BY_INTRPT, s)
          else if obj_type (blks s b) \<noteq> RHINO_QUEUE_OBJ_TYPE then (RHINO_KOBJ_TYPE_ERR, s)
          else (RHINO_SUCCESS,
                upd_queue b (\<lambda>q. q\<lparr>q_cur_num := 0, q_ringbuf := ringbuf_reset (q_ringbuf q)\<rparr>) s))"

record msg_info =
  mi_peak_num :: nat
  mi_cur_num :: nat
  mi_queue_start :: nat
  mi_size :: nat
  mi_pend_entry :: "tid option"

text \<open>\<open>pend_entry\<close> is the first waiter, or the list head itself when there is none.\<close>

definition krhino_queue_info_get :: "oid option \<Rightarrow> bool \<Rightarrow> kstate \<Rightarrow> kstat \<times> msg_info option" where
  "krhino_queue_info_get queue info_null s =
     (case queue of
        None \<Rightarrow> (RHINO_NULL_PTR, None)
      | Some b \<Rightarrow>
          if info_null then (RHINO_NULL_PTR, None)
          else if obj_type (blks s b) \<noteq> RHINO_QUEUE_OBJ_TYPE then (RHINO_KOBJ_TYPE_ERR, None)
          else (let q = queues s b
                in (RHINO_SUCCESS,
                    Some \<lparr>mi_peak_num = q_peak_num q, mi_cur_num = q_cur_num q,
                          mi_queue_start = queue_start q, mi_size = q_size q,
                          mi_pend_entry = (case blk_list (blks s b) of [] \<Rightarrow> None | t # _ \<Rightarrow> Some t)\<rparr>)))"

section \<open>Abstract queues\<close>

text \<open>A queue is its list of pending messages and its queue of waiting receivers.\<close>

type_synonym queue_view = "nat list \<times> tid list"

definition ptr_list :: "nat \<Rightarrow> byte list" where
  "ptr_list v = map (ptr_bytes v) [0..<4]"

definition queue_rep :: "kstate \<Rightarrow> oid \<Rightarrow> queue_view \<Rightarrow> bool" where
  "queue_rep s b v \<longleftrightarrow> ty s b = RHINO_QUEUE_OBJ_TYPE \<and> pol s b = BLK_POLICY_PRI \<and> bl s b = snd v \<and>
     (snd v \<noteq> [] \<longrightarrow> fst v = []) \<and> (\<forall>m \<in> set (fst v). m < 2 ^ 32) \<and>
     q_cur_num (queues s b) = length (fst v) \<and> length (fst v) \<le> q_size (queues s b) \<and> 0 < q_size (queues s b) \<and>
     rb_blk_size (q_ringbuf (queues s b)) = 4 \<and> cap (q_ringbuf (queues s b)) = 4 * q_size (queues s b) \<and>
     fix_rep (mem s, q_ringbuf (queues s b)) (map ptr_list (fst v))"

definition queue_send_spec :: "nat \<Rightarrow> nat \<Rightarrow> queue_view \<Rightarrow> kstat \<times> queue_view" where
  "queue_send_spec n m v =
     (if length (fst v) \<ge> n then (RHINO_QUEUE_FULL, v)
      else if snd v = [] then (RHINO_SUCCESS, (fst v @ [m], []))
      else (RHINO_SUCCESS, (fst v, tl (snd v))))"

definition queue_recv_spec ::
  "tid \<Rightarrow> (tid \<Rightarrow> nat) \<Rightarrow> bool \<Rightarrow> bool \<Rightarrow> queue_view \<Rightarrow> kret \<times> nat option \<times> queue_view" where
  "queue_recv_spec a p no_wait locked v =
     (case v of
        (m # ms, ts) \<Rightarrow> (Ret RHINO_SUCCESS, Some m, (ms, ts))
      | ([], ts) \<Rightarrow>
          if no_wait then (Ret RHINO_NO_PEND_WAIT, Some 0, v)
          else if locked then (Ret RHINO_SCHED_DISABLE, Some 0, v)
          else (Pending, None, ([], insert_before (\<lambda>u. p u > p a) a ts)))"

lemma le_word_le_byte: "le_word (map (le_byte w) [0..<4]) = w"
proof -
  have "map (le_byte w) [0..<4] = [le_byte w 0, le_byte w 1, le_byte w 2, le_byte w 3]"
    by (simp add: upt_rec numeral_2_eq_2 numeral_3_eq_3)
  then show ?thesis by (simp only:) (rule word_eq_by_bytes; simp)
qed

lemma ptr_round_trip: "v < 2 ^ 32 \<Longrightarrow> ptr_of_bytes (ptr_list v) = v"
  by (simp add: ptr_of_bytes_def ptr_list_def ptr_bytes_def [abs_def] le_word_le_byte unsigned_of_nat take_bit_nat_eq_self)

lemma push_fix_cong:
  assumes "rb_type rb = RINGBUF_TYPE_FIX" "\<And>i. i < rb_blk_size rb \<Longrightarrow> src i = src' i"
  shows "ringbuf_push mm rb src n = ringbuf_push mm rb src' n"
proof -
  have "memcpy mm (rb_tail (wrap_tail rb)) src (rb_blk_size (wrap_tail rb)) =
      memcpy mm (rb_tail (wrap_tail rb)) src' (rb_blk_size (wrap_tail rb))"
    using assms(2) by (intro memcpy_cong) (simp add: wrap_tail_def split: if_splits)
  then show ?thesis using assms(1) by (simp add: ringbuf_push_def Let_def)
qed

lemma queue_push:
  assumes "queue_rep s b (ms, [])" "length ms < q_size (queues s b)"
  shows "\<exists>mem' rb'. ringbuf_push (mem s) (q_ringbuf (queues s b)) (ptr_bytes m) 4 = (RHINO_SUCCESS, mem', rb') \<and>
    fix_rep (mem', rb') (map ptr_list (ms @ [m])) \<and> cap rb' = cap (q_ringbuf (queues s b)) \<and> rb_blk_size rb' = 4"
proof -
  let ?rb = "q_ringbuf (queues s b)"
  have r: "fix_rep (mem s, ?rb) (map ptr_list ms)" "rb_blk_size ?rb = 4" "cap ?rb = 4 * q_size (queues s b)"
    using assms(1) by (auto simp: queue_rep_def)
  have "used ?rb = 4 * length ms" using fix_geometry(1) [OF r(1)] r(2) by simp
  then have f: "\<not> freesize ?rb < 4" using r(3) assms(2) by (simp add: used_def)
  have "ringbuf_push (mem s) ?rb (ptr_bytes m) 4 = ringbuf_push (mem s) ?rb ((!) (ptr_list m)) 4"
    using r by (intro push_fix_cong) (auto simp: fix_rep_def ptr_list_def)
  then show ?thesis
    using ringbuf_push_fix [OF r(1), of "ptr_list m" 4] f r(2) by (auto simp: ptr_list_def)
qed

lemma upd_queue_same: "same_sched s (upd_queue b f s)"
  by (simp add: same_sched_def upd_queue_def view_defs fun_eq_iff)

lemma upd_queue_views [simp]:
  "tasks (upd_queue b f s) = tasks s" "st (upd_queue b f s) = st s" "bl (upd_queue b f s) = bl s" "ty (upd_queue b f s) = ty s"
  "pol (upd_queue b f s) = pol s" "mem (upd_queue b f s) = mem s" "queues (upd_queue b f s) = (queues s)(b := f (queues s b))"
  "g_active_task (upd_queue b f s) = g_active_task s"
  by (simp_all add: upd_queue_def view_defs fun_eq_iff)

lemma neutral_msg: "neutral (\<lambda>k. k\<lparr>msg := m\<rparr>)"
  by (simp add: neutral_def)

text \<open>Sending with no receiver waiting.\<close>

lemma msg_send_store:
  assumes r: "queue_rep s b (ms, [])" and n: "length ms < q_size (queues s b)" and m: "m < 2 ^ 32"
  shows "\<exists>s'. msg_send (Some b) m all s = Inr (RHINO_SUCCESS, s') \<and> same_sched s s' \<and> tasks s' = tasks s \<and>
    queue_rep s' b (ms @ [m], []) \<and> q_size (queues s' b) = q_size (queues s b)"
proof -
  define s0 where "s0 = upd_queue b (\<lambda>q. q\<lparr>q_cur_num := q_cur_num q + 1\<rparr>) s"
  define s1 where "s1 = (if q_cur_num (queues s0 b) > q_peak_num (queues s0 b)
    then upd_queue b (\<lambda>q. q\<lparr>q_peak_num := q_cur_num q\<rparr>) s0 else s0)"
  have v: "tasks s1 = tasks s" "bl s1 = bl s" "ty s1 = ty s" "pol s1 = pol s" "mem s1 = mem s"
    "q_ringbuf (queues s1 b) = q_ringbuf (queues s b)" "q_size (queues s1 b) = q_size (queues s b)"
    "q_cur_num (queues s1 b) = Suc (length ms)"
    using r by (simp_all add: s1_def s0_def queue_rep_def)
  obtain mem' rb' where p: "ringbuf_push (mem s) (q_ringbuf (queues s b)) (ptr_bytes m) 4 = (RHINO_SUCCESS, mem', rb')"
    "fix_rep (mem', rb') (map ptr_list (ms @ [m]))" "cap rb' = cap (q_ringbuf (queues s b))" "rb_blk_size rb' = 4"
    using queue_push [OF r n, of m] by blast
  let ?s = "upd_queue b (\<lambda>q. q\<lparr>q_ringbuf := rb'\<rparr>) (s1\<lparr>mem := mem'\<rparr>)"
  have "msg_send (Some b) m all s = Inr (RHINO_SUCCESS, ?s)"
    using r n p(1) v(5,6) unfolding s1_def s0_def
    by (simp add: msg_send_def queue_rep_def ty_def bl_def Let_def)
  moreover have "same_sched s ?s"
    by (simp add: s1_def s0_def same_sched_def upd_queue_def view_defs fun_eq_iff)
  moreover have "queue_rep ?s b (ms @ [m], [])" using r n m p(2-4) by (simp add: queue_rep_def v)
  ultimately show ?thesis by (intro exI [of _ ?s]) (simp add: v)
qed

text \<open>Sending to a waiting receiver.\<close>

lemma msg_send_wake:
  assumes inv: "kernel_inv s" and r: "queue_rep s b ([], t # ts)"
  shows "ok (msg_send (Some b) m False s) (\<lambda>(e, s'). e = RHINO_SUCCESS \<and> kernel_inv s' \<and> queue_rep s' b ([], ts) \<and>
    st s' t = woken (st s t) \<and> t_blk_state (tasks s' t) = BLK_FINISH \<and> msg (tasks s' t) = m \<and> wait_rel s' \<subseteq> wait_rel s \<and>
    q_size (queues s' b) = q_size (queues s b))"
proof -
  define s0 where "s0 = set_msg t m s"
  have same: "same_sched s s0" unfolding s0_def set_msg_def by (rule same_sched_task [OF neutral_msg])
  have i0: "kernel_inv s0" "wait_rel s0 = wait_rel s" using inv same_sched_inv [OF same] wait_rel_same [OF same] by simp_all
  have v: "st s0 = st s" "bl s0 = bl s" "ty s0 = ty s" "pol s0 = pol s" "queues s0 = queues s" "mem s0 = mem s"
    using same by (simp_all add: same_sched_def s0_def set_msg_def) (simp_all add: upd_task_def)
  obtain q where q: "pend_task_end BLK_FINISH t s0 = Inr (wake_result BLK_FINISH t q s0)" "kernel_inv (wake_result BLK_FINISH t q s0)"
    using kernel_wake_ok [OF i0(1), of t b] r by (auto simp: v queue_rep_def)
  obtain s' where s': "exit_sched RHINO_SUCCESS (wake_result BLK_FINISH t q s0) = Inr (RHINO_SUCCESS, s')" "kernel_inv s'"
    and d: "sched_done (wake_result BLK_FINISH t q s0) s'"
    using kernel_exit [OF q(2)] by (auto simp: ok_iff)
  have "msg_send (Some b) m False s = Inr (RHINO_SUCCESS, s')"
    using r q(1) s'(1) by (simp add: msg_send_def queue_rep_def ty_def bl_def task_msg_recv_def pend_task_wakeup_def s0_def)
  moreover have "msg (tasks (wake_result BLK_FINISH t q s0) t) = m"
    by (simp add: wake_result_def set_state_def tick_list_rm_def blk_list_rm_def upd_task_def s0_def set_msg_def)
  moreover have "wait_rel s' \<subseteq> wait_rel s"
    using wait_rel_wake [of BLK_FINISH t q s0] wait_rel_sched_done [OF d] i0(2) by simp
  moreover have "queue_rep s' b ([], ts)" using r by (simp add: queue_rep_def sched_done_frame [OF d] v)
  ultimately show ?thesis using s'(2) by (simp add: sched_done_frame [OF d] v woken_def)
qed

text \<open>
  C24. Sending a message refines the abstract queue: a full queue refuses it and nothing changes; with no
  receiver waiting it is appended; otherwise the first waiting receiver, one of the highest priority, is
  woken with the message, which is what its call then returns. The kernel invariant is kept.
\<close>

theorem queue_send_refines:
  assumes inv: "kernel_inv s" and r: "queue_rep s b v" and m: "m < 2 ^ 32"
  shows "ok (krhino_queue_back_send (Some b) m s) (\<lambda>(e, s'). kernel_inv s' \<and>
    (\<exists>v'. queue_send_spec (q_size (queues s b)) m v = (e, v') \<and> queue_rep s' b v') \<and>
    (e = RHINO_QUEUE_FULL \<longrightarrow> s' = s) \<and>
    (snd v \<noteq> [] \<longrightarrow> (\<forall>u \<in> set (snd v). pri s (hd (snd v)) \<le> pri s u) \<and> st s' (hd (snd v)) = woken (st s (hd (snd v))) \<and>
       queue_recv_resume (s'\<lparr>g_active_task := Some (hd (snd v))\<rparr>) = Inr (RHINO_SUCCESS, m)))"
proof -
  obtain ms ts where v: "v = (ms, ts)" by fastforce
  have k: "kinv (live s) s" using inv by (simp add: kernel_inv_def struct_inv_def)
  have so: "sorted (map (pri s) ts)" using core_invD(5) [OF k [unfolded kinv_def], of b] r v by (simp add: queue_rep_def)
  show ?thesis
  proof (cases "length ms \<ge> q_size (queues s b)")
    case True
    then have "ts = []" using r v by (auto simp: queue_rep_def)
    then show ?thesis
      using True inv r v by (auto simp: krhino_queue_back_send_def msg_send_def queue_rep_def ty_def queue_send_spec_def)
  next
    case False
    show ?thesis
    proof (cases ts)
      case Nil
      then show ?thesis
        using msg_send_store [of s b ms m False] r v m False inv same_sched_inv
        by (auto simp: krhino_queue_back_send_def queue_send_spec_def)
    next
      case (Cons t us)
      have "ms = []" using r v Cons by (auto simp: queue_rep_def)
      then have r': "queue_rep s b ([], t # us)" using r v Cons by simp
      have "queue_recv_resume (s'\<lparr>g_active_task := Some t\<rparr>) = Inr (RHINO_SUCCESS, m)"
        if "t_blk_state (tasks s' t) = BLK_FINISH" "msg (tasks s' t) = m" for s'
        using that by (simp add: queue_recv_resume_def active_def pend_state_end_proc_def)
      then show ?thesis
        using Cons v so False \<open>ms = []\<close>
        by (intro ok_mono [OF msg_send_wake [OF inv r', of m, folded krhino_queue_back_send_def]])
          (auto simp: queue_send_spec_def)
    qed
  qed
qed

lemma ex_queue_rep: "queue_rep ex_state 15 ([], [])"
  by (simp add: queue_rep_def) (simp add: ex_state_def fix_rep_def ring_wf_def cap_def used_def contents_def)

theorem queue_send_refines_witness:
  "ok (krhino_queue_back_send (Some 15) 4660 ex_state) (\<lambda>(e, s'). e = RHINO_SUCCESS \<and> kernel_inv s' \<and>
     queue_rep s' 15 ([4660], []))"
proof -
  have "q_size (queues ex_state 15) = 4" by (simp add: ex_state_def)
  then show ?thesis
    by (intro ok_mono [OF queue_send_refines [OF ex_kernel_inv ex_queue_rep, of 4660]]) (auto simp: queue_send_spec_def)
qed

text \<open>
  C25. Receiving from a task refines the abstract queue: a pending message, the oldest one, is taken off
  and returned unchanged; an empty queue makes the call fail at once with no message, or block the
  caller in the order of priorities and let the best ready task run. The kernel invariant is kept.
\<close>

theorem queue_recv_refines:
  assumes inv: "kernel_inv s" and r: "queue_rep s b v" and z: "g_intrpt_nested_level s = 0"
    and a: "g_active_task s = Some a" "a \<noteq> g_idle_task" and t: "ticks = RHINO_NO_WAIT \<or> good_timeout ticks"
  shows "ok (krhino_queue_recv (Some b) ticks False s) (\<lambda>(e, m, s'). kernel_inv s' \<and>
    (\<exists>v'. queue_recv_spec a (pri s) (ticks = RHINO_NO_WAIT) (g_sched_lock s > 0) v = (e, m, v') \<and> queue_rep s' b v') \<and>
    (e = Pending \<longrightarrow> st s' a = K_PEND \<and> (\<exists>u. g_active_task s' = Some u \<and> best_ready (live s') s' u)) \<and>
    (e \<noteq> Pending \<longrightarrow> tasks s' = tasks s \<and> g_active_task s' = Some a))"
proof -
  obtain ms ts where v: "v = (ms, ts)" by fastforce
  have b: "ty s b = RHINO_QUEUE_OBJ_TYPE" "q_cur_num (queues s b) = length ms" "bl s b = ts" "pol s b = BLK_POLICY_PRI"
    using r v by (auto simp: queue_rep_def)
  show ?thesis
  proof (cases ms)
    case (Cons m ms')
    have "fix_rep (mem s, q_ringbuf (queues s b)) (ptr_list m # map ptr_list ms')" "m < 2 ^ 32"
      using r v Cons by (auto simp: queue_rep_def)
    then obtain rb' where p: "ringbuf_pop (mem s) (q_ringbuf (queues s b)) = (RHINO_SUCCESS, ptr_list m, rb')"
      "fix_rep (mem s, rb') (map ptr_list ms')" "cap rb' = cap (q_ringbuf (queues s b))"
      "rb_blk_size rb' = rb_blk_size (q_ringbuf (queues s b))"
      using ringbuf_pop_fix by blast
    let ?s = "upd_queue b (\<lambda>q. q\<lparr>q_ringbuf := rb', q_cur_num := q_cur_num q - 1\<rparr>) s"
    have "krhino_queue_recv (Some b) ticks False s = Inr (Ret RHINO_SUCCESS, Some m, ?s)"
      using b p(1) z Cons ptr_round_trip [OF \<open>m < 2 ^ 32\<close>] by (simp add: krhino_queue_recv_def ty_def Let_def)
    moreover have "queue_rep ?s b (ms', ts)" using r v Cons p by (auto simp: queue_rep_def)
    ultimately show ?thesis
      using inv same_sched_inv [OF upd_queue_same] v Cons a(1) by (simp add: queue_recv_spec_def)
  next
    case Nil
    show ?thesis
    proof (cases "ticks = RHINO_NO_WAIT \<or> g_sched_lock s > 0")
      case True
      then show ?thesis using Nil b z inv v r a(1) by (auto simp: krhino_queue_recv_def ty_def queue_recv_spec_def)
    next
      case False
      obtain s' q where s': "block_active b ticks s = Inr (Pending, s')" "kernel_inv s'"
        and d: "sched_done (block_result b a ticks q s) s'"
        using block_active_ok [OF inv a, of ticks b] b z t False by (auto simp: ok_iff word_gt_0)
      have "krhino_queue_recv (Some b) ticks False s = Inr (Pending, None, s')"
        using Nil False b z s'(1) by (simp add: krhino_queue_recv_def ty_def)
      moreover have "queue_rep s' b ([], insert_before (\<lambda>u. pri s u > pri s a) a ts)"
        using r v Nil b by (simp add: queue_rep_def sched_done_frame [OF d])
      moreover have "st s' a = K_PEND" by (simp add: sched_done_frame [OF d])
      ultimately show ?thesis
        using s'(2) sched_done_active [OF d] z False v Nil by (simp add: queue_recv_spec_def word_gt_0)
    qed
  qed
qed

theorem queue_recv_refines_witness:
  "ok (krhino_queue_recv (Some 15) 4 False ex_state) (\<lambda>(e, m, s'). e = Pending \<and> kernel_inv s' \<and> queue_rep s' 15 ([], [5]))"
proof -
  have "5 \<noteq> g_idle_task" "good_timeout 4" by (simp_all add: g_idle_task_def good_timeout_def)
  then show ?thesis
    by (intro ok_mono [OF queue_recv_refines [OF ex_kernel_inv ex_queue_rep, of 5 4]])
      (auto simp: queue_recv_spec_def RHINO_NO_WAIT_def)
qed

end
