(* ===== verification/Sys.thy ===== *)
theory Sys
  imports Timer Tick Mutex Event Queue
begin

text \<open>
  Start-up, interrupts and the kernel's own tasks: \<^verbatim>\<open>k_sys.c\<close> (\<open>krhino_init\<close> itself, which also
  sets up the heap, is in \<open>Boot\<close>), the CPU usage statistics of \<^verbatim>\<open>k_stats.c\<close>, the memory task of
  \<^verbatim>\<open>k_dyn_mem_proc.c\<close>. Stack sizes, the addresses of the static stacks and of the timer queue's
  buffer and the linker's symbols for the heap are arguments (\<open>boot_env\<close>).
\<close>

record boot_env =
  dyn_stack :: nat
  dyn_stack_size :: nat
  idle_stack :: nat
  idle_stack_size :: nat
  timer_stack :: nat
  timer_stack_size :: nat
  cpu_usage_stack :: nat
  cpu_usage_stack_size :: nat
  timer_queue_buf :: nat
  timer_cb_size :: nat
  timer_msg_num :: nat
  heap_start :: "32 word"
  heap_end :: "32 word"

section \<open>Start-up\<close>

definition dyn_mem_proc_task_start :: "boot_env \<Rightarrow> kstate \<Rightarrow> kstate outcome" where
  "dyn_mem_proc_task_start e s =
     bnd (krhino_task_create (Some g_dyn_task) (Some ''dyn_mem'') (RHINO_CONFIG_PRI_MAX - 2) 0
            (Some (dyn_stack e)) (dyn_stack_size e) False True s) (\<lambda>(r, s). Inr s)"

definition ktimer_init :: "boot_env \<Rightarrow> tstate \<Rightarrow> tstate outcome" where
  "ktimer_init e x =
     (let x = x\<lparr>g_timer_head := []\<rparr>;
          s = snd (krhino_fix_buf_queue_create (Some g_timer_queue) (Some ''timer_queue'')
                (Some (timer_queue_buf e)) (timer_cb_size e) (timer_msg_num e) (kern x))
      in bnd (krhino_task_create (Some g_timer_task) (Some ''timer_task'') 5 0
                (Some (timer_stack e)) (timer_stack_size e) False True s) (\<lambda>(r, s). Inr (x\<lparr>kern := s\<rparr>)))"

definition cpu_usage_stats_start :: "boot_env \<Rightarrow> kstate \<Rightarrow> kstate outcome" where
  "cpu_usage_stats_start e s =
     bnd (krhino_task_create (Some g_cpu_usage_task) (Some ''cpu_stats'') (RHINO_CONFIG_PRI_MAX - 2) 0
            (Some (cpu_usage_stack e)) (cpu_usage_stack_size e) False True s) (\<lambda>(r, s). Inr s)"

text \<open>\<open>cpu_first_task_start\<close> runs the chosen task and does not come back; the state returned is the
  one it starts in.\<close>

definition krhino_start :: "kstate \<Rightarrow> (kret \<times> kstate) outcome" where
  "krhino_start s =
     (if g_sys_stat s = RHINO_STOPPED
      then bnd (preferred_cpu_ready_task_get s) (\<lambda>s.
        Inr (Pending, s\<lparr>g_active_task := g_preferred_ready_task s, g_sys_stat := RHINO_RUNNING\<rparr>))
      else Inr (Ret RHINO_RUNNING, s))"

section \<open>Interrupts\<close>

definition krhino_intrpt_enter :: "kstate \<Rightarrow> (kstat \<times> kstate) outcome" where
  "krhino_intrpt_enter s =
     (if g_intrpt_nested_level s \<ge> RHINO_CONFIG_INTRPT_MAX_NESTED_LEVEL
      then k_err_proc RHINO_INTRPT_NESTED_LEVEL_OVERFLOW
      else Inr (RHINO_SUCCESS, s\<lparr>g_intrpt_nested_level := g_intrpt_nested_level s + 1\<rparr>))"

definition krhino_intrpt_exit :: "kstate \<Rightarrow> kstate outcome" where
  "krhino_intrpt_exit s =
     (if g_intrpt_nested_level s = 0 then k_err_proc RHINO_INV_INTRPT_NESTED_LEVEL
      else (let s = s\<lparr>g_intrpt_nested_level := g_intrpt_nested_level s - 1\<rparr>
            in if g_intrpt_nested_level s > 0 then Inr s
               else if g_sched_lock s > 0 then Inr s
               else bnd (preferred_cpu_ready_task_get s) (\<lambda>s.
                 if g_preferred_ready_task s = g_active_task s then Inr s
                 else Inr (cpu_task_switch s))))"

section \<open>The memory task\<close>

text \<open>The inner loop of \<open>dyn_mem_proc_task\<close>: it empties the list of resources; the second component
  is the sequence of addresses handed to \<open>krhino_mm_free\<close>.\<close>

fun dyn_mem_drain :: "res_free list \<Rightarrow> nat list" where
  "dyn_mem_drain [] = []"
| "dyn_mem_drain (r # rs) = take (res_cnt r) (res r) @ dyn_mem_drain rs"

definition dyn_mem_proc_task :: "kstat \<Rightarrow> kstate \<Rightarrow> (kstate \<times> nat list) outcome" where
  "dyn_mem_proc_task ret s =
     (if ret \<noteq> RHINO_SUCCESS then k_err_proc RHINO_DYN_MEM_PROC_ERR
      else Inr (s\<lparr>g_res_list := []\<rparr>, dyn_mem_drain (g_res_list s)))"

section \<open>CPU usage\<close>

text \<open>One sample of \<open>cpu_usage_task_entry\<close>: the idle count of the last half second and the largest
  one seen so far give the new maximum and the usage in hundredths of a percent.\<close>

definition cpu_usage_sample :: "64 word \<Rightarrow> 64 word \<Rightarrow> 64 word \<times> 32 word" where
  "cpu_usage_sample idle_count g_idle_count_max =
     (let mx = (if idle_count > g_idle_count_max then idle_count else g_idle_count_max)
      in (mx, if idle_count < mx then 10000 - ucast ((idle_count * 10000) div mx) else 10000))"

end
