(* ===== verification/Safety.thy ===== *)
theory Safety
  imports Sys
begin

text \<open>
  Every kernel service keeps the kernel invariant and creates no cycle of tasks waiting for each other,
  whatever its arguments and the object it is called on, as long as it is called the way the
  documentation allows. Theory \<open>Calls\<close> puts these lemmas together for sequences of calls.
\<close>

unbundle bit_operations_syntax

section \<open>Building blocks\<close>

definition safe :: "kstate \<Rightarrow> bool" where
  "safe s \<longleftrightarrow> kernel_inv s \<and> no_deadlock s"

lemma safe_active:
  assumes "safe s"
  obtains a where "g_active_task s = Some a" "a \<in> live s" "g_intrpt_nested_level s = 0 \<or> g_sched_lock s > 0 \<Longrightarrow> st s a = K_RDY"
  using assms by (auto simp: safe_def kernel_inv_def active_ok_def)

lemma safe_same: "same_sched s s' \<Longrightarrow> safe s' = safe s"
  by (simp add: safe_def same_sched_inv no_deadlock_def wait_rel_same)

lemma safe_sched_done: "sched_done s s' \<Longrightarrow> no_deadlock s' = no_deadlock s"
  by (simp add: no_deadlock_def wait_rel_sched_done)

lemma exit_safe: "safe s \<Longrightarrow> ok (exit_sched e s) (\<lambda>(r, s'). safe s')"
  by (rule ok_mono [OF kernel_exit]) (auto simp: safe_def safe_sched_done)

lemma wake_safe:
  assumes "safe s" "t \<in> set (bl s b)"
  shows "ok (pend_task_wakeup t s) safe"
proof -
  obtain q where "pend_task_end BLK_FINISH t s = Inr (wake_result BLK_FINISH t q s)" "kernel_inv (wake_result BLK_FINISH t q s)"
    using kernel_wake_ok [of s t b BLK_FINISH] assms by (auto simp: safe_def)
  then show ?thesis
    using assms(1) no_deadlock_subset [OF wait_rel_wake] by (simp add: pend_task_wakeup_def safe_def)
qed

lemma wake_exit_safe:
  assumes "safe s" "t \<in> set (bl s b)"
  shows "ok (bnd (pend_task_wakeup t s) (exit_sched e)) (\<lambda>(r, s'). safe s')"
  unfolding ok_bnd by (rule ok_mono [OF wake_safe [OF assms]]) (rule exit_safe)

lemma wake_all_exit_safe:
  assumes "safe s" "neutral g" "\<And>t s. f t s = upd_task t g s"
  shows "ok (bnd (pend_wakeup_all f b s) (exit_sched e)) (\<lambda>(r, s'). safe s')"
  unfolding ok_bnd
proof (rule ok_mono [OF pend_wakeup_all_ok [of s g f b]])
  fix w assume "kernel_inv w \<and> released BLK_FINISH b s w"
  then have "safe w" using assms(1) no_deadlock_subset [OF wait_rel_released] by (auto simp: safe_def)
  then show "ok (exit_sched e w) (\<lambda>(r, s'). safe s')" by (rule exit_safe)
qed (use assms in \<open>auto simp: safe_def\<close>)

lemma block_safe:
  assumes "safe s" "g_active_task s = Some a" "a \<noteq> g_idle_task" "good_timeout n" "g_intrpt_nested_level s = 0" "g_sched_lock s = 0"
    "ty s b \<noteq> RHINO_MUTEX_OBJ_TYPE"
  shows "ok (block_active b n s) (\<lambda>(r, s'). safe s')"
proof -
  have "ok (block_active b n s) (\<lambda>(r, s'). r = Pending \<and> kernel_inv s' \<and> (\<exists>q. sched_done (block_result b a n q s) s'))"
    using assms by (intro block_active_ok) (auto simp: safe_def)
  then show ?thesis
  proof (rule ok_mono, clarify)
    fix s' q assume k: "kernel_inv s'" "sched_done (block_result b a n q s) s'"
    have "no_deadlock (block_result b a n q s)"
      using no_deadlock_subset [OF wait_rel_block_other [OF assms(7)]] assms(1) by (simp add: safe_def)
    then show "safe s'" using k by (simp add: safe_def safe_sched_done)
  qed
qed

text \<open>The common part of all deletions but that of a mutex.\<close>

lemma delete_safe:
  assumes s: "safe s" and b: "ty s b \<noteq> RHINO_MUTEX_OBJ_TYPE" and g: "\<And>w. same_sched w (g w)"
  shows "ok (bnd (pend_rm_all b (upd_blk b (\<lambda>ob. ob\<lparr>obj_type := RHINO_OBJ_TYPE_NONE\<rparr>) s)) (\<lambda>w. exit_sched e (g w))) (\<lambda>(r, s'). safe s')"
proof -
  let ?s = "upd_blk b (\<lambda>ob. ob\<lparr>obj_type := RHINO_OBJ_TYPE_NONE\<rparr>) s"
  have k: "kernel_inv ?s" using kernel_inv_ty s b by (simp add: safe_def)
  have "wait_rel ?s \<subseteq> wait_rel s" by (auto simp: wait_rel_def split: if_splits)
  then have n: "no_deadlock ?s" using s no_deadlock_subset by (auto simp: safe_def)
  show ?thesis
    unfolding ok_bnd
  proof (rule ok_mono [OF pend_rm_all_ok [OF k]])
    fix w assume w: "kernel_inv w \<and> released BLK_DEL b ?s w"
    then have "safe w" using no_deadlock_subset [OF wait_rel_released n] by (auto simp: safe_def)
    then have "safe (g w)" using safe_same [OF g] by simp
    then show "ok (exit_sched e (g w)) (\<lambda>(r, s'). safe s')" by (rule exit_safe)
  qed
qed

section \<open>Services on objects\<close>

definition timeout_ok :: "tick \<Rightarrow> bool" where
  "timeout_ok n \<longleftrightarrow> n = RHINO_NO_WAIT \<or> good_timeout n"

lemma sem_give_safe:
  assumes "safe s"
  shows "ok (sem_give b all s) (\<lambda>(r, s'). safe s')"
proof (cases "bl s b")
  case Nil
  then show ?thesis
    using assms safe_same [OF sem_upd_same_sched] by (auto simp: sem_give_def bl_def Let_def)
next
  case (Cons t ts)
  then have "t \<in> set (bl s b)" by simp
  from wake_exit_safe [OF assms this] wake_all_exit_safe [OF assms, of "\<lambda>k. k" "\<lambda>t s. s" b]
  show ?thesis using Cons assms by (auto simp: sem_give_def bl_def neutral_def upd_task_def)
qed

lemma sem_take_safe:
  assumes "safe s" "g_active_task s \<noteq> Some g_idle_task" "timeout_ok n"
  shows "ok (krhino_sem_take (Some b) n s) (\<lambda>(r, s'). safe s')"
proof -
  obtain a where a: "g_active_task s = Some a" "a \<noteq> g_idle_task" using assms(1,2) safe_active by (metis option.inject)
  show ?thesis
    using assms(1,3) safe_same [OF sem_upd_same_sched] block_safe [OF assms(1) a, of n b]
    by (auto simp: krhino_sem_take_def timeout_ok_def ty_def word_gt_0)
qed

lemma same_sched_kobj: "(\<And>k. task_head (f k) = task_head k) \<Longrightarrow> same_sched s (upd_kobj f s)"
  by (simp add: same_sched_def)

lemma sem_del_body_safe: "safe s \<Longrightarrow> ty s b \<noteq> RHINO_MUTEX_OBJ_TYPE \<Longrightarrow> ok (sem_del_body b s) (\<lambda>(r, s'). safe s')"
proof -
  have "same_sched w (upd_kobj (\<lambda>k. k\<lparr>sem_head := remove1 b (sem_head k)\<rparr>) w)" for w
    by (rule same_sched_kobj) simp
  from delete_safe [OF _ _ this] show "safe s \<Longrightarrow> ty s b \<noteq> RHINO_MUTEX_OBJ_TYPE \<Longrightarrow> ?thesis"
    by (simp add: sem_del_body_def)
qed

lemma sem_del_safe: "safe s \<Longrightarrow> ok (krhino_sem_del (Some b) s) (\<lambda>(r, s'). safe s')"
  using sem_del_body_safe [of s b] by (simp add: krhino_sem_del_def ty_def)

lemma mutex_lock_safe:
  assumes "safe s" "g_active_task s = Some a" "a \<noteq> g_idle_task" "timeout_ok n"
    "own s b = Some a \<Longrightarrow> owner_nested (mutexes s b) \<noteq> -1"
    "\<And>u. own s b = Some u \<Longrightarrow> u \<noteq> a \<Longrightarrow> (u, a) \<notin> (wait_rel s)\<^sup>*"
  shows "ok (krhino_mutex_lock (Some b) n s) (\<lambda>(r, s'). safe s')"
proof (cases "g_sys_stat s \<noteq> RHINO_STOPPED \<and> g_intrpt_nested_level s = 0 \<and> ty s b = RHINO_MUTEX_OBJ_TYPE")
  case True
  have "ok (krhino_mutex_lock (Some b) n s) (\<lambda>(r, s'). kernel_inv s' \<and> no_deadlock s' \<and>
      (case own s b of
         None \<Rightarrow> r = Ret RHINO_SUCCESS \<and> own s' b = Some a \<and> owner_nested (mutexes s' b) = 1
       | Some u \<Rightarrow>
           if u = a then r = Ret RHINO_MUTEX_OWNER_NESTED \<and> own s' b = Some a \<and>
             owner_nested (mutexes s' b) = owner_nested (mutexes s b) + 1
           else if n = RHINO_NO_WAIT then r = Ret RHINO_NO_PEND_WAIT \<and> s' = s
           else if g_sched_lock s > 0 then r = Ret RHINO_SCHED_DISABLE \<and> s' = s
           else r = Pending \<and> own s' b = Some u \<and> a \<in> set (bl s' b) \<and> st s' a = K_PEND \<and> pri s' u \<le> pri s' a \<and>
             (\<exists>t. g_active_task s' = Some t \<and> best_ready (live s') s' t)))"
    using assms True by (intro mutex_lock_ok) (auto simp: safe_def timeout_ok_def)
  then show ?thesis by (rule ok_mono) (simp add: safe_def split: prod.splits)
next
  case False
  then show ?thesis using assms(1) by (auto simp: krhino_mutex_lock_def ty_def word_gt_0)
qed

lemma mutex_unlock_safe:
  assumes "safe s"
  shows "ok (krhino_mutex_unlock (Some b) s) (\<lambda>(r, s'). safe s')"
proof (cases "g_sys_stat s \<noteq> RHINO_STOPPED \<and> g_intrpt_nested_level s = 0 \<and> ty s b = RHINO_MUTEX_OBJ_TYPE \<and> g_active_task s = own s b")
  case True
  obtain a where "g_active_task s = Some a" using assms by (rule safe_active)
  then show ?thesis using True assms by (intro ok_mono [OF mutex_unlock_ok]) (auto simp: safe_def)
next
  case False
  then show ?thesis using assms by (auto simp: krhino_mutex_unlock_def ty_def own_def word_gt_0)
qed

lemma mutex_del_body_safe: "safe s \<Longrightarrow> ty s b = RHINO_MUTEX_OBJ_TYPE \<Longrightarrow> ok (mutex_del_body b s) (\<lambda>(r, s'). safe s')"
  using mutex_del_ok [of s b] by (auto simp: ok_iff safe_def)

lemma mutex_del_safe: "safe s \<Longrightarrow> ok (krhino_mutex_del (Some b) s) (\<lambda>(r, s'). safe s')"
  using mutex_del_body_safe [of s b] by (simp add: krhino_mutex_del_def ty_def)

lemma event_set_safe:
  assumes "safe s"
  shows "ok (krhino_event_set (Some b) fl opt s) (\<lambda>(r, s'). safe s')"
proof (cases "ty s b = RHINO_EVENT_OBJ_TYPE \<and> opt = RHINO_OR")
  case True
  then have k: "kernel_inv s" "ty s b = RHINO_EVENT_OBJ_TYPE" using assms by (auto simp: safe_def)
  have "ok (krhino_event_set (Some b) fl RHINO_OR s) (\<lambda>(r, s'). safe s')"
  proof (rule ok_mono [OF event_set_or [OF k]], clarify)
    fix s' assume "kernel_inv s'" "event_woken b (flags (events s b) OR fl) (bl s b) (upd_event b (\<lambda>x. x\<lparr>flags := flags x OR fl\<rparr>) s) s'"
    then show "safe s'"
      using assms no_deadlock_subset [of s' s] wait_rel_same [OF same_sched_event] by (auto simp: safe_def event_woken_def)
  qed
  then show ?thesis using True by simp
next
  case False
  then show ?thesis
    using assms safe_same [OF same_sched_event]
    by (auto simp: krhino_event_set_def event_set_def ty_def RHINO_AND_def RHINO_OR_def RHINO_FLAGS_AND_MASK_def)
qed

lemma event_get_safe:
  assumes "safe s" "g_active_task s \<noteq> Some g_idle_task" "timeout_ok n"
  shows "ok (krhino_event_get (Some b) fl opt (Some out) n s) (\<lambda>(r, s'). safe s')"
proof -
  obtain a where a: "g_active_task s = Some a" "a \<noteq> g_idle_task" using assms(1,2) safe_active by (metis option.inject)
  let ?s = "upd_task a (\<lambda>k. k\<lparr>pend_option := opt, pend_flags := fl, pend_info := out\<rparr>) s"
  have n: "neutral (\<lambda>k. k\<lparr>pend_option := opt, pend_flags := fl, pend_info := out\<rparr>)" by (simp add: neutral_def)
  have s0: "safe ?s" using assms(1) safe_same [OF same_sched_task [OF n]] by simp
  have bs: "ok (block_active b n ?s) (\<lambda>(r, s'). safe s')"
    if "good_timeout n" "g_intrpt_nested_level s = 0" "g_sched_lock s = 0" "ty s b \<noteq> RHINO_MUTEX_OBJ_TYPE"
    using that a by (intro block_safe [OF s0]) simp_all
  have sc: "safe (s\<lparr>cells := x\<rparr>)" "safe (upd_event b f (s\<lparr>cells := x\<rparr>))" for x f
    using assms(1) safe_same [OF same_sched_cells] safe_same [OF same_sched_event] by simp_all
  obtain c where c: "(opt \<noteq> RHINO_AND \<and> opt \<noteq> RHINO_OR \<and> opt \<noteq> RHINO_AND_CLEAR \<and> opt \<noteq> RHINO_OR_CLEAR) = c" by blast
  obtain d where d: "(opt AND RHINO_FLAGS_CLEAR_MASK \<noteq> 0) = d" by blast
  show ?thesis
    unfolding krhino_event_get_def c d
    using assms(1,3) bs sc a(1) by (auto simp: timeout_ok_def ty_def word_gt_0 active_eq Let_def)
qed

lemma event_del_body_safe: "safe s \<Longrightarrow> ty s b \<noteq> RHINO_MUTEX_OBJ_TYPE \<Longrightarrow> ok (event_del_body b s) (\<lambda>(r, s'). safe s')"
proof -
  have "same_sched w (upd_kobj (\<lambda>k. k\<lparr>event_head := remove1 b (event_head k)\<rparr>) (upd_event b (\<lambda>x. x\<lparr>flags := 0\<rparr>) w))" for w
    by (rule same_sched_trans [OF same_sched_event same_sched_kobj]) simp
  from delete_safe [OF _ _ this] show "safe s \<Longrightarrow> ty s b \<noteq> RHINO_MUTEX_OBJ_TYPE \<Longrightarrow> ?thesis"
    by (simp add: event_del_body_def Let_def)
qed

lemma event_del_safe: "safe s \<Longrightarrow> ok (krhino_event_del (Some b) s) (\<lambda>(r, s'). safe s')"
  using event_del_body_safe [of s b] by (simp add: krhino_event_del_def ty_def)

lemma queue_send_safe:
  assumes "safe s"
  shows "ok (msg_send (Some b) m all s) (\<lambda>(r, s'). safe s')"
proof (cases "bl s b")
  case Nil
  have "safe (upd_queue b f (s\<lparr>mem := x\<rparr>))" for f x
    using assms safe_same [OF same_sched_mem] safe_same [OF upd_queue_same] by simp
  moreover have "upd_queue b f (upd_queue b g s\<lparr>mem := x\<rparr>) = upd_queue b (f \<circ> g) (s\<lparr>mem := x\<rparr>)" for f g x
    by (simp add: upd_queue_def)
  moreover have "upd_queue b f (upd_queue b g s) = upd_queue b (f \<circ> g) s" for f g
    by (simp add: upd_queue_def)
  ultimately show ?thesis
    using Nil assms by (auto simp: msg_send_def bl_def Let_def)
next
  case (Cons t ts)
  have s1: "safe (set_msg t m s)" using assms safe_same [OF same_sched_task [OF neutral_msg]] by (simp add: set_msg_def)
  have "ok (bnd (task_msg_recv t m s) (exit_sched RHINO_SUCCESS)) (\<lambda>(r, s'). safe s')"
    using Cons wake_exit_safe [OF s1, of t b RHINO_SUCCESS] by (simp add: task_msg_recv_def set_msg_def)
  moreover have "ok (bnd (pend_wakeup_all (\<lambda>t. set_msg t m) b s) (exit_sched RHINO_SUCCESS)) (\<lambda>(r, s'). safe s')"
    by (rule wake_all_exit_safe [OF assms neutral_msg]) (simp add: set_msg_def)
  ultimately show ?thesis using Cons assms by (auto simp: msg_send_def bl_def)
qed

lemma queue_recv_safe:
  assumes "safe s" "g_active_task s \<noteq> Some g_idle_task" "timeout_ok n"
  shows "ok (krhino_queue_recv (Some b) n False s) (\<lambda>(r, v, s'). safe s')"
proof -
  obtain a where a: "g_active_task s = Some a" "a \<noteq> g_idle_task" using assms(1,2) safe_active by (metis option.inject)
  have bs: "ok (bnd (block_active b n s) (\<lambda>(r, s). Inr (r, None, s))) (\<lambda>(r, v, s'). safe s')"
    if "good_timeout n" "g_intrpt_nested_level s = 0" "g_sched_lock s = 0" "ty s b \<noteq> RHINO_MUTEX_OBJ_TYPE"
    unfolding ok_bnd by (rule ok_mono [OF block_safe [OF assms(1) a that]]) auto
  show ?thesis
    using assms(1,3) safe_same [OF upd_queue_same] bs
    by (auto simp: krhino_queue_recv_def timeout_ok_def ty_def word_gt_0 Let_def)
qed

lemma queue_del_body_safe: "safe s \<Longrightarrow> ty s b \<noteq> RHINO_MUTEX_OBJ_TYPE \<Longrightarrow> ok (queue_del_body b s) (\<lambda>(r, s'). safe s')"
proof -
  have "same_sched w (upd_queue b (\<lambda>q. q\<lparr>q_ringbuf := ringbuf_reset (q_ringbuf q)\<rparr>)
      (upd_kobj (\<lambda>k. k\<lparr>queue_head := remove1 b (queue_head k)\<rparr>) w))" for w
    by (rule same_sched_trans [OF same_sched_kobj upd_queue_same]) simp
  from delete_safe [OF _ _ this] show "safe s \<Longrightarrow> ty s b \<noteq> RHINO_MUTEX_OBJ_TYPE \<Longrightarrow> ?thesis"
    by (simp add: queue_del_body_def Let_def)
qed

lemma queue_del_safe: "safe s \<Longrightarrow> ok (krhino_queue_del (Some b) s) (\<lambda>(r, s'). safe s')"
  using queue_del_body_safe [of s b] by (simp add: krhino_queue_del_def ty_def)

lemma safe_bq: "safe s \<Longrightarrow> safe (upd_bq b f s)"
  using safe_same [OF upd_bq_same] by simp

lemma safe_mem: "safe s \<Longrightarrow> safe (s\<lparr>mem := x\<rparr>)"
  using safe_same [OF same_sched_mem] by simp

lemma safe_neutral: "safe s \<Longrightarrow> neutral f \<Longrightarrow> safe (upd_task t f s)"
  using safe_same [OF same_sched_task] by simp

lemma buf_queue_send_safe:
  assumes "safe s"
  shows "ok (buf_queue_send b data n s) (\<lambda>(r, s'). safe s')"
proof (cases "bl s b")
  case Nil
  then show ?thesis
    using assms safe_bq safe_mem
    by (auto simp: buf_queue_send_def bl_def Let_def split: prod.splits)
next
  case (Cons t ts)
  let ?s = "upd_task t (\<lambda>k. k\<lparr>bq_msg_size := n\<rparr>) (s\<lparr>mem := memcpy (mem s) (msg (tasks s t)) data n\<rparr>)"
  have "safe ?s" using assms by (intro safe_neutral safe_mem) (simp_all add: neutral_def)
  from wake_exit_safe [OF this, of t b RHINO_SUCCESS] show ?thesis
    using Cons assms by (auto simp: buf_queue_send_def bl_def Let_def)
qed

lemma buf_queue_recv_safe:
  assumes "safe s" "g_active_task s \<noteq> Some g_idle_task" "timeout_ok n"
  shows "ok (krhino_buf_queue_recv (Some b) n (Some dst) False s) (\<lambda>(r, v, s'). safe s')"
proof -
  obtain a where a: "g_active_task s = Some a" "a \<noteq> g_idle_task" using assms(1,2) safe_active by (metis option.inject)
  let ?s = "upd_task a (\<lambda>k. k\<lparr>msg := dst\<rparr>) s"
  have s0: "safe ?s" using assms(1) by (rule safe_neutral) (simp add: neutral_def)
  have bs: "ok (bnd (block_active b n ?s) (\<lambda>(r, s). Inr (r, None, s))) (\<lambda>(r, v, s'). safe s')"
    if "good_timeout n" "g_intrpt_nested_level s = 0" "g_sched_lock s = 0" "ty s b \<noteq> RHINO_MUTEX_OBJ_TYPE"
    unfolding ok_bnd by (rule ok_mono [OF block_safe [OF s0]]) (use a that in auto)
  have "safe (upd_bq b f (s\<lparr>mem := x\<rparr>))" for f x using assms(1) by (intro safe_bq safe_mem)
  then show ?thesis
    using assms(1,3) bs a(1)
    by (auto simp: krhino_buf_queue_recv_def timeout_ok_def ty_def word_gt_0 active_eq split: prod.splits)
qed

lemma buf_queue_del_body_safe: "safe s \<Longrightarrow> ty s b \<noteq> RHINO_MUTEX_OBJ_TYPE \<Longrightarrow> ok (buf_queue_del_body b s) (\<lambda>(r, s'). safe s')"
proof -
  have "same_sched w (upd_bq b (\<lambda>q. q\<lparr>bq_ringbuf := ringbuf_reset (bq_ringbuf q)\<rparr>)
      (upd_kobj (\<lambda>k. k\<lparr>buf_queue_head := remove1 b (buf_queue_head k)\<rparr>) w))" for w
    by (rule same_sched_trans [OF same_sched_kobj upd_bq_same]) simp
  from delete_safe [OF _ _ this] show "safe s \<Longrightarrow> ty s b \<noteq> RHINO_MUTEX_OBJ_TYPE \<Longrightarrow> ?thesis"
    by (simp add: buf_queue_del_body_def Let_def)
qed

lemma buf_queue_del_safe: "safe s \<Longrightarrow> ok (krhino_buf_queue_del (Some b) s) (\<lambda>(r, s'). safe s')"
  using buf_queue_del_body_safe [of s b] by (simp add: krhino_buf_queue_del_def ty_def)

section \<open>Creating objects\<close>

text \<open>An object that is not in use has no type and no waiters.\<close>

definition unused :: "kstate \<Rightarrow> oid \<Rightarrow> bool" where
  "unused s b \<longleftrightarrow> ty s b = RHINO_OBJ_TYPE_NONE \<and> bl s b = []"

lemma create_safe:
  assumes s: "safe s" and b: "unused s b" and x: "x = RHINO_MUTEX_OBJ_TYPE \<Longrightarrow> own s b = None"
    and v: "same_sched (s\<lparr>blks := (blks s)(b := (blks s b)\<lparr>obj_type := x, blk_policy := BLK_POLICY_PRI\<rparr>)\<rparr>) s'"
  shows "safe s'"
proof -
  have i: "kinv (live s) s" "tick_ok (live s) s" "mutex_ok (live s) s" "inherit_ok s" "none_due s" "active_ok (live s) s"
    using s by (auto simp: safe_def kernel_inv_def struct_inv_def)
  note d = mutex_okD [OF i(3)]
  define w where "w = s\<lparr>blks := (blks s)(b := (blks s b)\<lparr>obj_type := x, blk_policy := BLK_POLICY_PRI\<rparr>)\<rparr>"
  have w: "st w = st s" "pri w = pri s" "bo w = bo s" "held w = held s" "tkh w = tkh s" "tkm w = tkm s" "bl w = bl s" "own w = own s"
    "live w = live s" "tasks w = tasks s" "g_ready_queue w = g_ready_queue s" "g_tick_head w = g_tick_head s" "g_tick_count w = g_tick_count s"
    "g_active_task w = g_active_task s" "g_sched_lock w = g_sched_lock s" "g_intrpt_nested_level w = g_intrpt_nested_level s"
    "ty w = (ty s)(b := x)" "pol w = (pol s)(b := BLK_POLICY_PRI)"
    by (simp_all add: w_def view_defs live_def fun_eq_iff)
  have e: "bl s b = []" "ty s b \<noteq> RHINO_MUTEX_OBJ_TYPE" using b by (simp_all add: unused_def)
  have "kinv (live s) w"
    using i(1) e(1) unfolding kinv_def core_inv_def w by auto
  moreover have "mutex_ok (live w) w"
  proof (rule mutex_okI)
    fix c t assume "ty w c = RHINO_MUTEX_OBJ_TYPE" "own w c = Some t"
    then show "t \<in> live w \<and> t \<noteq> g_idle_task \<and> c \<in> set (held w t)" using d(2) [of c t] x by (cases "c = b") (auto simp: w)
  next
    fix t c assume "t \<in> live w" "c \<in> set (held w t)"
    then show "own w c = Some t \<and> ty w c = RHINO_MUTEX_OBJ_TYPE" using d(4) [of t c] e(2) by (cases "c = b") (auto simp: w)
  next
    fix c assume "ty w c = RHINO_MUTEX_OBJ_TYPE" "bl w c \<noteq> []"
    then show "own w c \<noteq> None" using d(1) [of c] e(1) by (cases "c = b") (auto simp: w)
  next
    fix t assume "t \<in> live w"
    then show "distinct (held w t) \<and> b_prio (tasks w t) < 62" using d(3) [of t] by (simp add: w)
  qed
  moreover have "inherit_ok w" using i(4) e(1) unfolding inherit_ok_def w by auto
  ultimately have "kernel_inv w"
    using i by (simp add: kernel_inv_def struct_inv_def w tick_ok_def none_due_def active_ok_def rem_def [abs_def])
  moreover have "wait_rel w \<subseteq> wait_rel s"
    using e(1) kinv_D(3) [OF i(1), of _ b] by (auto simp: wait_rel_def w split: if_splits)
  then have "no_deadlock w" using s no_deadlock_subset by (auto simp: safe_def)
  ultimately show ?thesis using safe_same [OF v] by (simp add: safe_def w_def)
qed

lemma sem_create_flag_safe: "safe s \<Longrightarrow> unused s b \<Longrightarrow> safe (snd (sem_create (Some b) name n fl s))"
  by (cases name, simp add: sem_create_def, rule create_safe [where b = b and x = RHINO_SEM_OBJ_TYPE])
    (auto simp: sem_create_def Let_def same_sched_def upd_sem_def upd_blk_def upd_kobj_def
      unused_def view_defs fun_eq_iff)

lemma sem_create_safe: "safe s \<Longrightarrow> unused s b \<Longrightarrow> safe (snd (krhino_sem_create (Some b) name n s))"
  by (simp add: krhino_sem_create_def sem_create_flag_safe)

lemma event_create_flag_safe: "safe s \<Longrightarrow> unused s b \<Longrightarrow> safe (snd (event_create (Some b) name n fl s))"
  by (cases name, simp add: event_create_def, rule create_safe [where b = b and x = RHINO_EVENT_OBJ_TYPE])
    (auto simp: event_create_def Let_def same_sched_def upd_event_def upd_blk_def upd_kobj_def
      unused_def view_defs fun_eq_iff)

lemma event_create_safe: "safe s \<Longrightarrow> unused s b \<Longrightarrow> safe (snd (krhino_event_create (Some b) name n s))"
  by (simp add: krhino_event_create_def event_create_flag_safe)

lemma queue_create_flag_safe: "safe s \<Longrightarrow> unused s b \<Longrightarrow> safe (snd (queue_create (Some b) name start n fl s))"
  by (cases "start = None \<or> name = None \<or> n = 0", force simp: queue_create_def split: option.splits,
      rule create_safe [where b = b and x = RHINO_QUEUE_OBJ_TYPE])
    (auto simp: queue_create_def Let_def same_sched_def upd_queue_def upd_blk_def upd_kobj_def
      unused_def view_defs fun_eq_iff)

lemma queue_create_safe: "safe s \<Longrightarrow> unused s b \<Longrightarrow> safe (snd (krhino_queue_create (Some b) name start n s))"
  by (simp add: krhino_queue_create_def queue_create_flag_safe)

lemma buf_queue_create_flag_safe: "safe s \<Longrightarrow> unused s b \<Longrightarrow> safe (snd (buf_queue_create (Some b) name buf n m fl type s))"
  by (cases "buf = None \<or> name = None \<or> n = 0 \<or> m = 0", force simp: buf_queue_create_def split: option.splits,
      rule create_safe [where b = b and x = RHINO_BUF_QUEUE_OBJ_TYPE])
    (auto simp: buf_queue_create_def Let_def same_sched_def upd_bq_def upd_blk_def upd_kobj_def
      unused_def view_defs fun_eq_iff)

lemma buf_queue_create_safe: "safe s \<Longrightarrow> unused s b \<Longrightarrow> safe (snd (krhino_buf_queue_create (Some b) name buf n m s))"
  by (simp add: krhino_buf_queue_create_def buf_queue_create_flag_safe)

lemma mutex_create_flag_safe:
  assumes "safe s" "unused s b"
  shows "safe (snd (mutex_create (Some b) name fl s))"
proof (cases name)
  case None
  then show ?thesis using assms by (simp add: mutex_create_def)
next
  case (Some n)
  define w where "w = upd_mutex b (\<lambda>x. x\<lparr>mutex_task := None\<rparr>) s"
  have w: "st w = st s" "pri w = pri s" "bo w = bo s" "held w = held s" "tkh w = tkh s" "tkm w = tkm s" "bl w = bl s"
    "own w = (own s)(b := None)" "ty w = ty s" "pol w = pol s" "tasks w = tasks s" "live w = live s"
    "g_ready_queue w = g_ready_queue s" "g_tick_head w = g_tick_head s" "g_tick_count w = g_tick_count s"
    "g_active_task w = g_active_task s" "g_sched_lock w = g_sched_lock s" "g_intrpt_nested_level w = g_intrpt_nested_level s"
    by (simp_all add: w_def upd_mutex_def view_defs live_def fun_eq_iff)
  have i: "mutex_ok (live s) s" "inherit_ok s" using assms(1) by (auto simp: safe_def kernel_inv_def struct_inv_def)
  have e: "ty s b \<noteq> RHINO_MUTEX_OBJ_TYPE" "bl s b = []" using assms(2) by (simp_all add: unused_def)
  have "mutex_ok (live s) w"
    by (rule mutex_okI; use mutex_okD [OF i(1)] e(1) in \<open>unfold w, metis fun_upd_apply\<close>)
  moreover have "inherit_ok w" using i(2) e unfolding inherit_ok_def w by auto
  moreover have "wait_rel w \<subseteq> wait_rel s" using e by (auto simp: wait_rel_def w split: if_splits)
  ultimately have "safe w"
    using assms(1) no_deadlock_subset by (auto simp: safe_def kernel_inv_def struct_inv_def kinv_def w tick_ok_def none_due_def
        active_ok_def rem_def [abs_def])
  moreover have "unused w b" using assms(2) by (simp add: unused_def w)
  ultimately show ?thesis
    by (rule create_safe [where x = RHINO_MUTEX_OBJ_TYPE])
      (use Some assms(2) in \<open>auto simp: mutex_create_def Let_def same_sched_def w_def upd_mutex_def upd_blk_def
        upd_kobj_def unused_def view_defs fun_eq_iff\<close>)
qed

lemma mutex_create_safe: "safe s \<Longrightarrow> unused s b \<Longrightarrow> safe (snd (krhino_mutex_create (Some b) name s))"
  by (simp add: krhino_mutex_create_def mutex_create_flag_safe)

section \<open>Tasks\<close>

lemma safe_ok_subset: "kernel_inv s' \<Longrightarrow> wait_rel s' \<subseteq> wait_rel s \<Longrightarrow> safe s \<Longrightarrow> safe s'"
  using no_deadlock_subset by (auto simp: safe_def)

lemma sleep_safe:
  assumes "safe s" "g_active_task s \<noteq> Some g_idle_task" "unat n < 2 ^ 63"
  shows "ok (krhino_task_sleep n s) (\<lambda>(r, s'). safe s')"
proof -
  obtain a where a: "g_active_task s = Some a" "a \<noteq> g_idle_task" using assms(1,2) safe_active by (metis option.inject)
  from task_sleep_ok [OF _ a assms(3)] show ?thesis
    using assms(1) by (auto simp: safe_def ok_iff intro: no_deadlock_subset)
qed

lemma yield_safe:
  assumes "safe s" "g_intrpt_nested_level s = 0"
  shows "ok (krhino_task_yield s) (\<lambda>(r, s'). safe s')"
proof -
  obtain a where a: "g_active_task s = Some a" "a \<in> live s" "st s a = K_RDY" using safe_active [OF assms(1)] assms(2) by metis
  have k: "kinv (live s) s" "kernel_inv s" using assms(1) by (auto simp: safe_def kernel_inv_def struct_inv_def)
  have "a \<in> set (cur_list_item (g_ready_queue s) (pri s a))" using kinv_D(9) [OF k(1)] a by simp
  then have "cur_list_item (g_ready_queue s) (pri s a) \<noteq> []" by auto
  then obtain q where q: "ready_list_head_to_tail_rq (g_ready_queue s) (pri s a) = Inr q" "kinv (live s) (s\<lparr>g_ready_queue := q\<rparr>)"
    using kinv_rotate [OF k(1), of "pri s a"] by blast
  have "safe (s\<lparr>g_ready_queue := q\<rparr>)"
    using kernel_inv_rq [OF k(2) q(2)] by (rule safe_ok_subset [OF _ _ assms(1)]) (simp add: wait_rel_def)
  from exit_safe [OF this, of RHINO_SUCCESS] show ?thesis
    using q(1) by (simp add: krhino_task_yield_def active_eq [OF a(1)] ready_list_head_to_tail_def with_rq_def)
qed

lemma suspend_safe:
  assumes "safe s" "t \<in> live s"
  shows "ok (krhino_task_suspend (Some t) s) (\<lambda>(r, s'). safe s')"
proof (cases "pri s t = RHINO_IDLE_PRI \<or> g_active_task s = Some t \<and> g_sched_lock s > 0")
  case True
  then show ?thesis using assms(1) by (auto simp: krhino_task_suspend_def task_suspend_def)
next
  case False
  have k: "kernel_inv s" "kinv (live s) s" using assms(1) by (auto simp: safe_def kernel_inv_def struct_inv_def)
  then have "t \<noteq> g_idle_task" using False kinv_D(7) [OF k(2)] by auto
  from task_suspend_ok [OF k(1) assms(2) this] have "ok (task_suspend t s) (\<lambda>(r, s'). safe s')"
    by (rule ok_mono) (use False assms(1) in \<open>auto simp: word_gt_0 intro: safe_ok_subset\<close>)
  then show ?thesis using False by (simp add: krhino_task_suspend_def)
qed

lemma resume_safe:
  assumes "safe s" "t \<in> live s"
  shows "ok (krhino_task_resume (Some t) s) (\<lambda>(r, s'). safe s')"
  using assms task_resume_ok [of s t] safe_ok_subset by (fastforce simp: krhino_task_resume_def safe_def ok_iff)

lemma pri_change_safe:
  assumes "safe s" "t \<in> live s"
  shows "ok (krhino_task_pri_change (Some t) p False s) (\<lambda>(r, x, s'). safe s')"
proof (cases "pri s t \<ge> RHINO_IDLE_PRI \<or> p \<ge> RHINO_IDLE_PRI \<or> g_intrpt_nested_level s > 0")
  case True
  then show ?thesis using assms(1) by (auto simp: krhino_task_pri_change_def)
next
  case False
  then show ?thesis using assms pri_change_ok [of s t p] by (auto simp: safe_def ok_iff word_gt_0 not_le)
qed

lemma task_create_flag_safe:
  assumes "safe s" "t \<notin> live s" "g_sys_stat s = RHINO_RUNNING"
  shows "ok (task_create (Some t) name p n sb sz f r fl s) (\<lambda>(e, s'). safe s')"
proof (cases "name \<noteq> None \<and> sb \<noteq> None \<and> \<not> f \<and> sz \<noteq> 0 \<and> p < RHINO_CONFIG_PRI_MAX \<and> g_intrpt_nested_level s = 0 \<and>
    \<not> (p = RHINO_IDLE_PRI \<and> g_idle_task_spawned s > 0)")
  case True
  then obtain nm b where "name = Some nm" "sb = Some b" by blast
  then show ?thesis
    using True assms task_create_ok [of s t p sz nm n b r fl] by (auto simp: safe_def ok_iff word_gt_0)
next
  case False
  then show ?thesis
    using assms(1) by (auto simp: task_create_def word_gt_0 split: option.splits)
qed

lemma task_create_safe:
  "safe s \<Longrightarrow> t \<notin> live s \<Longrightarrow> g_sys_stat s = RHINO_RUNNING \<Longrightarrow> ok (krhino_task_create (Some t) name p n sb sz f r s) (\<lambda>(e, s'). safe s')"
  by (simp add: krhino_task_create_def task_create_flag_safe)

section \<open>Scheduler lock, interrupts and ticks\<close>

text \<open>Only the condition on the active task depends on the two levels.\<close>

lemma level_views:
  assumes s': "s' = s\<lparr>g_sched_lock := n\<rparr> \<or> s' = s\<lparr>g_intrpt_nested_level := m\<rparr>"
  shows "struct_inv s' = struct_inv s" "none_due s' = none_due s" "wait_rel s' = wait_rel s" "st s' = st s" "live s' = live s"
    "g_active_task s' = g_active_task s"
proof -
  have v: "st s' = st s" "pri s' = pri s" "bo s' = bo s" "held s' = held s" "tkh s' = tkh s" "tkm s' = tkm s" "bl s' = bl s"
    "own s' = own s" "ty s' = ty s" "pol s' = pol s" "live s' = live s" "tasks s' = tasks s" "g_ready_queue s' = g_ready_queue s"
    "g_tick_head s' = g_tick_head s" "g_tick_count s' = g_tick_count s" "g_active_task s' = g_active_task s"
    using s' by (auto simp: view_defs live_def fun_eq_iff)
  show "struct_inv s' = struct_inv s" "none_due s' = none_due s" "wait_rel s' = wait_rel s" "st s' = st s" "live s' = live s"
    "g_active_task s' = g_active_task s"
    by (simp_all add: struct_inv_def kinv_def tick_ok_def mutex_ok_def inherit_ok_def none_due_def rem_def [abs_def] wait_rel_def v)
qed

lemma level_inv:
  assumes s: "safe s" and s': "s' = s\<lparr>g_sched_lock := n\<rparr> \<or> s' = s\<lparr>g_intrpt_nested_level := m\<rparr>"
    and a: "st s (the (g_active_task s)) = K_RDY \<or> (g_intrpt_nested_level s' > 0 \<and> g_sched_lock s' = 0)"
  shows "safe s'"
proof -
  note v = level_views [OF s']
  have "active_ok (live s) s'" using s a by (auto simp: safe_def kernel_inv_def active_ok_def v)
  then show ?thesis using s by (simp add: safe_def kernel_inv_def no_deadlock_def v)
qed

lemma active_ready: "safe s \<Longrightarrow> g_intrpt_nested_level s = 0 \<or> g_sched_lock s > 0 \<Longrightarrow> st s (the (g_active_task s)) = K_RDY"
  by (auto simp: safe_def kernel_inv_def active_ok_def)

lemma sched_disable_safe:
  assumes "safe s" shows "safe (snd (krhino_sched_disable s))"
proof -
  have "safe (s\<lparr>g_sched_lock := g_sched_lock s + 1\<rparr>)" if "g_intrpt_nested_level s = 0"
    using that by (intro level_inv [OF assms]) (auto intro: active_ready [OF assms])
  then show ?thesis using assms by (simp add: krhino_sched_disable_def word_gt_0)
qed

lemma sched_enable_safe: "safe s \<Longrightarrow> ok (krhino_sched_enable s) (\<lambda>(r, s'). safe s')"
proof -
  assume s: "safe s"
  have "safe (s\<lparr>g_sched_lock := g_sched_lock s - 1\<rparr>)" if "g_intrpt_nested_level s = 0"
    using that by (intro level_inv [OF s]) (auto intro: active_ready [OF s])
  then show ?thesis using s exit_safe by (auto simp: krhino_sched_enable_def Let_def word_gt_0)
qed

lemma intrpt_enter_safe:
  assumes "safe s" "g_intrpt_nested_level s < RHINO_CONFIG_INTRPT_MAX_NESTED_LEVEL"
  shows "ok (krhino_intrpt_enter s) (\<lambda>(r, s'). safe s')"
proof -
  have "g_intrpt_nested_level s + 1 > 0"
    using assms(2) by (auto simp: RHINO_CONFIG_INTRPT_MAX_NESTED_LEVEL_def word_less_nat_alt unat_word_ariths)
  then have "safe (s\<lparr>g_intrpt_nested_level := g_intrpt_nested_level s + 1\<rparr>)"
    using active_ready [OF assms(1)] by (intro level_inv [OF assms(1)]) (auto simp: word_gt_0)
  then show ?thesis using assms(2) by (simp add: krhino_intrpt_enter_def)
qed

text \<open>Leaving the last interrupt without a locked scheduler is a call of the scheduler.\<close>

lemma intrpt_exit_eq:
  assumes "g_intrpt_nested_level s > 0"
  shows "krhino_intrpt_exit s = core_sched (s\<lparr>g_intrpt_nested_level := g_intrpt_nested_level s - 1\<rparr>)"
  using assms by (simp add: krhino_intrpt_exit_def core_sched_def Let_def word_gt_0)

lemma intrpt_exit_safe:
  assumes "safe s" "g_intrpt_nested_level s > 0"
  shows "ok (krhino_intrpt_exit s) safe"
proof -
  let ?s = "s\<lparr>g_intrpt_nested_level := g_intrpt_nested_level s - 1\<rparr>"
  note e = level_views [where s = s, OF disjI2, OF refl]
  have "ok (core_sched ?s) (\<lambda>s'. kernel_inv s' \<and> sched_done ?s s')"
    using assms by (intro core_sched_inv) (auto simp: safe_def kernel_inv_def e active_ok_def)
  then show ?thesis
    unfolding intrpt_exit_eq [OF assms(2)]
    by (rule ok_mono) (use assms(1) in \<open>auto simp: safe_def wait_rel_sched_done no_deadlock_def e\<close>)
qed

lemma time_slice_safe:
  assumes "safe s"
  shows "ok (sched_time_slice_update s) safe"
proof -
  obtain a where a: "g_active_task s = Some a" "a \<in> live s" using assms by (rule safe_active)
  have k: "kernel_inv s" "kinv (live s) s" using assms by (auto simp: safe_def kernel_inv_def struct_inv_def)
  have pa: "ready_item (g_ready_queue s) (pri s a) = Inr (cur_list_item (g_ready_queue s) (pri s a))"
    using kinv_D(1) [OF k(2) a(2)] by (simp add: ready_item_def)
  show ?thesis
  proof (cases "\<exists>t u us. cur_list_item (g_ready_queue s) (pri s a) = t # u # us \<and> sched_policy (tasks s t) \<noteq> KSCHED_FIFO")
    case False
    then have "sched_time_slice_update s = Inr s"
      unfolding sched_time_slice_update_def active_eq [OF a(1)]
      using pa by (auto simp: Let_def neq_Nil_conv)
    then show ?thesis using assms by simp
  next
    case True
    then obtain t u us where "cur_list_item (g_ready_queue s) (pri s a) = t # u # us" "sched_policy (tasks s t) \<noteq> KSCHED_FIFO"
      by blast
    from time_slice_ok [OF k(1) a(1) this] show ?thesis
      by (rule ok_mono) (use assms in \<open>auto intro: safe_ok_subset\<close>)
  qed
qed

lemma tick_safe: "safe s \<Longrightarrow> ok (krhino_tick_proc s) safe"
  unfolding krhino_tick_proc_def ok_bnd safe_def
  by (rule ok_mono [OF tick_update_ok]) (auto intro: time_slice_safe [unfolded safe_def])

end
