(* ===== verification/TaskDel.thy ===== *)
theory TaskDel
  imports Safety
begin

text \<open>
  Deletion of tasks: the mutexes of the deleted task are handed to their first waiters or become free, the
  task leaves the ready queue, the time list or the list it waits on, where the owner of the mutex it waited
  for may fall back in priority, and the list of tasks.
\<close>

section \<open>Independence of the list of tasks\<close>

lemma kobj_commute:
  "upd_task t g (upd_kobj f s) = upd_kobj f (upd_task t g s)" "upd_blk b h (upd_kobj f s) = upd_kobj f (upd_blk b h s)"
  "blk_list_rm t (upd_kobj f s) = upd_kobj f (blk_list_rm t s)" "set_prio t p (upd_kobj f s) = upd_kobj f (set_prio t p s)"
  "pend_list_add b t (upd_kobj f s) = upd_kobj f (pend_list_add b t s)"
  "with_rq k (upd_kobj f s) = bnd (with_rq k s) (\<lambda>s. Inr (upd_kobj f s))"
  "ready_list_rm t (upd_kobj f s) = bnd (ready_list_rm t s) (\<lambda>s. Inr (upd_kobj f s))"
  "ready_list_add_head t (upd_kobj f s) = bnd (ready_list_add_head t s) (\<lambda>s. Inr (upd_kobj f s))"
  "ready_list_add_tail t (upd_kobj f s) = bnd (ready_list_add_tail t s) (\<lambda>s. Inr (upd_kobj f s))"
  "pend_list_reorder t (upd_kobj f s) = bnd (pend_list_reorder t s) (\<lambda>s. Inr (upd_kobj f s))"
  "mutex_pri_look t r (upd_kobj f s) = (fst (mutex_pri_look t r s), upd_kobj f (snd (mutex_pri_look t r s)))"
proof -
  show w: "with_rq k (upd_kobj f s) = bnd (with_rq k s) (\<lambda>s. Inr (upd_kobj f s))" for k
    by (cases "k (g_ready_queue s)") (simp_all add: with_rq_def upd_kobj_def)
  show "ready_list_rm t (upd_kobj f s) = bnd (ready_list_rm t s) (\<lambda>s. Inr (upd_kobj f s))"
    "ready_list_add_head t (upd_kobj f s) = bnd (ready_list_add_head t s) (\<lambda>s. Inr (upd_kobj f s))"
    "ready_list_add_tail t (upd_kobj f s) = bnd (ready_list_add_tail t s) (\<lambda>s. Inr (upd_kobj f s))"
    by (simp_all add: ready_list_rm_def ready_list_add_head_def ready_list_add_tail_def w)
  have b: "upd_task t g (upd_kobj f s) = upd_kobj f (upd_task t g s)" "upd_blk b h (upd_kobj f s) = upd_kobj f (upd_blk b h s)"
    "blk_list_rm t (upd_kobj f s) = upd_kobj f (blk_list_rm t s)" "set_prio t p (upd_kobj f s) = upd_kobj f (set_prio t p s)"
    "pend_list_add b t (upd_kobj f s) = upd_kobj f (pend_list_add b t s)" for t g b h p s
    by (simp_all add: upd_kobj_def upd_task_def upd_blk_def blk_list_rm_def set_prio_def pend_list_add_def pri_def)
  show "upd_task t g (upd_kobj f s) = upd_kobj f (upd_task t g s)" "upd_blk b h (upd_kobj f s) = upd_kobj f (upd_blk b h s)"
    "blk_list_rm t (upd_kobj f s) = upd_kobj f (blk_list_rm t s)" "set_prio t p (upd_kobj f s) = upd_kobj f (set_prio t p s)"
    "pend_list_add b t (upd_kobj f s) = upd_kobj f (pend_list_add b t s)" by (rule b)+
  show "pend_list_reorder t (upd_kobj f s) = bnd (pend_list_reorder t s) (\<lambda>s. Inr (upd_kobj f s))"
    by (cases "blk_obj (tasks s t)") (simp_all add: pend_list_reorder_def b)
  have "first_pri (upd_kobj f s) = first_pri s" by (rule first_pri_blks) (simp_all add: upd_kobj_def view_defs fun_eq_iff)
  then have "pri_look_loop (upd_kobj f s) r ms p n = pri_look_loop s r ms p n" for ms p n
    by (induction ms arbitrary: p n) simp_all
  then show "mutex_pri_look t r (upd_kobj f s) = (fst (mutex_pri_look t r s), upd_kobj f (snd (mutex_pri_look t r s)))"
    by (simp add: mutex_pri_look_def Let_def b)
qed

lemma kobj_fields:
  "st (upd_kobj f s) = st s" "pri (upd_kobj f s) = pri s" "tasks (upd_kobj f s) = tasks s" "blks (upd_kobj f s) = blks s"
  "mutexes (upd_kobj f s) = mutexes s" "g_active_task (upd_kobj f s) = g_active_task s"
  by (simp_all add: upd_kobj_def view_defs fun_eq_iff)

lemma bnd_assoc: "bnd (bnd m f) g = bnd m (\<lambda>x. bnd (f x) g)"
  by (cases m) simp_all

lemma pri_change_step_kobj:
  "pri_change_step t p (upd_kobj f s) = bnd (pri_change_step t p s) (\<lambda>(n, s). Inr (n, upd_kobj f s))"
proof -
  have d: "bnd (deref x) g = bnd (deref x) h" if "\<And>y. x = Some y \<Longrightarrow> g y = h y" for x and g h :: "'a \<Rightarrow> 'b outcome"
    using that by (cases x) simp_all
  show ?thesis
    by (cases "st s t") (simp_all add: pri_change_step_def kobj_commute kobj_fields bnd_assoc Let_def if_distrib [of "\<lambda>m. bnd m _"] cong: if_cong)
qed

lemma pri_change_loop_kobj:
  "pri_change_loop n t p (upd_kobj f s) = Inr (e, s') \<Longrightarrow> n \<le> m \<Longrightarrow> \<exists>s''. pri_change_loop m t p s = Inr (e, s'') \<and> s' = upd_kobj f s''"
proof (induction n arbitrary: m t p s)
  case 0
  then show ?case by (auto simp: pri_change_loop.simps [of 0] pri_change_loop.simps [of m] kobj_fields split: if_splits)
next
  case (Suc n)
  then obtain k where k: "m = Suc k" "n \<le> k" by (cases m) auto
  show ?case
  proof (cases "pri s t = p")
    case True
    then show ?thesis using Suc.prems(1) by (auto simp: pri_change_loop.simps [of "Suc n"] pri_change_loop.simps [of m] kobj_fields)
  next
    case False
    from Suc.prems(1) False obtain nx s1 where s1: "pri_change_step t p s = Inr (nx, s1)"
      by (cases "pri_change_step t p s") (auto simp: pri_change_loop.simps [of "Suc n"] kobj_fields pri_change_step_kobj)
    show ?thesis
      using Suc.prems(1) False s1 k Suc.IH [OF _ k(2), of _ _ s1]
      by (cases nx) (auto simp: pri_change_loop.simps [of "Suc n"] pri_change_loop.simps [of "Suc k"] kobj_fields pri_change_step_kobj)
  qed
qed

lemma mutex_task_pri_reset_kobj:
  assumes "mutex_task_pri_reset t (upd_kobj f s) = Inr s'" "length (task_head (f (g_kobj_list s))) \<le> length (task_head (g_kobj_list s))"
  shows "\<exists>s''. mutex_task_pri_reset t s = Inr s'' \<and> s' = upd_kobj f s''"
proof -
  have c: "\<exists>s''. task_pri_change u p s = Inr (e, s'') \<and> s' = upd_kobj f s''"
    if "task_pri_change u p (upd_kobj f s) = Inr (e, s')" "g_kobj_list s = g_kobj_list s0"
      "length (task_head (f (g_kobj_list s0))) \<le> length (task_head (g_kobj_list s0))" for u p e s s0 s'
    using that pri_change_loop_kobj [of "pri_change_fuel (upd_kobj f s)" u p f s e s' "pri_change_fuel s"]
    by (simp add: task_pri_change_def pri_change_fuel_def upd_kobj_def)
  obtain b where b: "blk_obj (tasks s t) = Some b"
    using assms(1) by (cases "blk_obj (tasks s t)") (auto simp: mutex_task_pri_reset_def kobj_fields)
  show ?thesis
  proof (cases "obj_type (blks s b) = RHINO_MUTEX_OBJ_TYPE")
    case False
    then show ?thesis using assms(1) b by (simp add: mutex_task_pri_reset_def kobj_fields)
  next
    case True
    then obtain u where u: "mutex_task (mutexes s b) = Some u"
      using assms(1) b by (cases "mutex_task (mutexes s b)") (auto simp: mutex_task_pri_reset_def kobj_fields)
    define w where "w = snd (mutex_pri_look u None s)"
    have "g_kobj_list w = g_kobj_list s" by (simp add: w_def mutex_pri_look_snd)
    note c1 = c [of u "fst (mutex_pri_look u None s)" w, OF _ this assms(2)]
    show ?thesis
    proof (cases "task_pri_change u (fst (mutex_pri_look u None s)) (upd_kobj f w)")
      case (Inl e)
      then show ?thesis
        using assms(1) b True u by (auto simp: mutex_task_pri_reset_def mutex_release_def Let_def kobj_fields kobj_commute w_def)
    next
      case (Inr r)
      then obtain s'' where "task_pri_change u (fst (mutex_pri_look u None s)) w = Inr (fst r, s'')" "snd r = upd_kobj f s''"
        using c1 [of "fst r" "snd r"] by auto
      then show ?thesis
        using Inr assms(1) b True u
        by (auto simp: mutex_task_pri_reset_def mutex_release_def Let_def kobj_fields kobj_commute w_def case_prod_unfold)
    qed
  qed
qed

section \<open>Handing over the mutexes\<close>

text \<open>The state as it would be if the chain of task \<open>t\<close> were \<open>ms\<close>: the loop over the mutexes leaves the
  chain of the deleted task as it is.\<close>

definition hold :: "tid \<Rightarrow> oid list \<Rightarrow> kstate \<Rightarrow> kstate" where
  "hold t ms s = upd_task t (\<lambda>k. k\<lparr>t_mutex_list := ms\<rparr>) s"

lemma hold_views [simp]:
  "st (hold t ms s) = st s" "pri (hold t ms s) = pri s" "bo (hold t ms s) = bo s" "tkh (hold t ms s) = tkh s"
  "tkm (hold t ms s) = tkm s" "bl (hold t ms s) = bl s" "pol (hold t ms s) = pol s" "ty (hold t ms s) = ty s"
  "own (hold t ms s) = own s" "held (hold t ms s) = (held s)(t := ms)" "g_ready_queue (hold t ms s) = g_ready_queue s"
  "g_tick_head (hold t ms s) = g_tick_head s" "g_tick_count (hold t ms s) = g_tick_count s"
  "g_active_task (hold t ms s) = g_active_task s" "g_kobj_list (hold t ms s) = g_kobj_list s" "live (hold t ms s) = live s"
  "g_sched_lock (hold t ms s) = g_sched_lock s" "blks (hold t ms s) = blks s" "mutexes (hold t ms s) = mutexes s"
  "g_intrpt_nested_level (hold t ms s) = g_intrpt_nested_level s" "b_prio (tasks (hold t ms s) u) = b_prio (tasks s u)"
  "rem (hold t ms s) = rem s" "wait_rel (hold t ms s) = wait_rel s"
  by (simp_all add: hold_def view_tasks_upd_task rem_def wait_rel_def fun_eq_iff held_def)

lemma hold_commute:
  "upd_mutex b f (hold t ms s) = hold t ms (upd_mutex b f s)" "hold t ms (hold t ns s) = hold t ms s"
  "u \<noteq> t \<Longrightarrow> mutex_own b u (hold t ms s) = hold t ms (mutex_own b u s)"
  "u \<noteq> t \<Longrightarrow> upd_task u g (hold t ms s) = hold t ms (upd_task u g s)"
  by (simp_all add: hold_def upd_mutex_def mutex_own_def upd_task_def fun_upd_twist)

lemma pend_task_end_hold:
  assumes "u \<noteq> t"
  shows "pend_task_end r u (hold t ms s) = bnd (pend_task_end r u s) (\<lambda>s. Inr (hold t ms s))"
proof -
  have b: "blk_list_rm u (hold t ms s) = hold t ms (blk_list_rm u s)" "tick_list_rm u (hold t ms s) = hold t ms (tick_list_rm u s)"
    "set_state u x (hold t ms s) = hold t ms (set_state u x s)" for x s
    using assms by (simp_all add: hold_def upd_task_def blk_list_rm_def tick_list_rm_def set_state_def fun_upd_twist)
  have w: "with_rq k (hold t ms s) = bnd (with_rq k s) (\<lambda>s. Inr (hold t ms s))" for k s
    by (cases "k (g_ready_queue s)") (simp_all add: with_rq_def hold_def upd_task_def)
  have "ready_list_add u (hold t ms s) = bnd (ready_list_add u s) (\<lambda>s. Inr (hold t ms s))" for s
    by (cases "g_active_task s") (simp_all add: ready_list_add_def active_def ready_list_add_tail_def ready_list_add_head_def w)
  then show ?thesis
    using assms by (cases "st s u") (simp_all add: pend_task_end_def b bnd_assoc hold_commute)
qed

text \<open>What the loop does: every mutex of the chain goes to its first waiter, which becomes ready, or is
  free; nothing else happens to any task.\<close>

definition first_waiters :: "oid list \<Rightarrow> kstate \<Rightarrow> tid set" where
  "first_waiters ms s = (\<Union>m \<in> set ms. set (take 1 (bl s m)))"

definition wait_same :: "kstate \<Rightarrow> kstate \<Rightarrow> tid \<Rightarrow> bool" where
  "wait_same s s' u \<longleftrightarrow> st s' u = st s u \<and> bo s' u = bo s u \<and> tkh s' u = tkh s u \<and> tkm s' u = tkm s u \<and> held s' u = held s u"

definition handed :: "oid list \<Rightarrow> tid \<Rightarrow> kstate \<Rightarrow> kstate \<Rightarrow> bool" where
  "handed ms t s s' \<longleftrightarrow> (\<forall>m \<in> set ms. bl s' m = tl (bl s m) \<and> (case bl s m of [] \<Rightarrow> own s' m = None
       | u # _ \<Rightarrow> own s' m = Some u \<and> st s' u = woken (st s u))) \<and>
     (\<forall>u. u \<notin> first_waiters ms s \<longrightarrow> wait_same s s' u) \<and>
     (\<forall>m. m \<notin> set ms \<longrightarrow> bl s' m = bl s m \<and> own s' m = own s m) \<and> ty s' = ty s \<and> pri s' = pri s \<and>
     (\<forall>u. b_prio (tasks s' u) = b_prio (tasks s u)) \<and>
     g_kobj_list s' = g_kobj_list s \<and> g_active_task s' = g_active_task s \<and> g_sched_lock s' = g_sched_lock s \<and>
     g_intrpt_nested_level s' = g_intrpt_nested_level s"

lemma hold_state:
  assumes k: "kernel_inv (hold t (m # ms) s)" "t \<in> live s"
  shows "own s m = Some t" "ty s m = RHINO_MUTEX_OBJ_TYPE" "t \<noteq> g_idle_task" "weak_inv (hold t ms s)" "none_due (hold t ms s)"
    "active_ok (live s) (hold t ms s)" "mutex_ok_but m (live s) (hold t ms s)" "inherits (Some m) (hold t ms s)"
    "\<And>c. ty s c = RHINO_MUTEX_OBJ_TYPE \<Longrightarrow> pol s c = BLK_POLICY_PRI"
proof -
  let ?h = "hold t (m # ms) s"
  have i: "weak_inv ?h" "mutex_ok (live s) ?h" "inherit_ok ?h" "none_due ?h" "active_ok (live s) ?h"
    using k(1) by (auto simp: kernel_inv_def struct_iff)
  note d = mutex_okD [OF i(2)]
  show o: "own s m = Some t" "ty s m = RHINO_MUTEX_OBJ_TYPE" using d(4) [of t m] k(2) by simp_all
  then show "t \<noteq> g_idle_task" using d(2) [of m t] by simp
  have di: "distinct (m # ms)" using d(3) [of t] k(2) by simp
  have "weak_inv (hold t ms s) = weak_inv ?h" by (simp add: weak_inv_def kinv_def tick_ok_def owner_ok_def)
  then show "weak_inv (hold t ms s)" using i(1) by simp
  show "none_due (hold t ms s)" using i(4) none_due_cong [of "hold t ms s" ?h] by simp
  show "active_ok (live s) (hold t ms s)" using i(5) by (simp add: active_ok_def)
  have "filter (\<lambda>c. c \<noteq> m) ms = ms" using di by (auto simp: filter_id_conv)
  then have "unchain (Some m) t ?h = hold t ms s" by (simp add: unchain_def hold_def upd_task_def)
  then show "mutex_ok_but m (live s) (hold t ms s)" using mutex_ok_but_unchain [OF i(2), of m t] o by simp
  show "inherits (Some m) (hold t ms s)" using i(3) by (auto simp: inherit_ok_def inherits_def edge_def)
  show "\<And>c. ty s c = RHINO_MUTEX_OBJ_TYPE \<Longrightarrow> pol s c = BLK_POLICY_PRI" using i(3) by (simp add: inherit_ok_def)
qed

lemma hand_step:
  assumes k: "kernel_inv (hold t (m # ms) s)" "t \<in> live s" and nd: "no_deadlock s"
  shows "\<exists>s1. mutex_free_loop (m # ms) s = mutex_free_loop ms s1 \<and> kernel_inv (hold t ms s1) \<and> no_deadlock s1 \<and>
    (case bl s m of [] \<Rightarrow> s1 = upd_mutex m (\<lambda>x. x\<lparr>mutex_task := None\<rparr>) s
     | u # _ \<Rightarrow> \<exists>q. s1 = mutex_own m u (wake_result BLK_FINISH u q s) \<and> u \<noteq> t \<and> pending_state (st s u) \<and> bo s u = Some m)"
proof (cases "bl s m")
  case Nil
  note h = hold_state [OF k]
  let ?s = "upd_mutex m (\<lambda>x. x\<lparr>mutex_task := None\<rparr>) s"
  have "bl (hold t ms s) m = []" "active_ok (live (hold t ms s)) (hold t ms s)" "mutex_ok_but m (live (hold t ms s)) (hold t ms s)"
    using Nil h(6,7) by simp_all
  note f = unlock_frees [OF h(4) this(3) h(8) _ this(1) h(5) this(2)]
  have "kernel_inv (hold t ms ?s)" using f(1) h(9) by (simp add: hold_commute)
  moreover have "wait_rel ?s \<subseteq> wait_rel s" by (auto simp: wait_rel_def split: if_splits)
  then have "no_deadlock ?s" using nd no_deadlock_subset by auto
  ultimately show ?thesis using Nil by (intro exI [of _ ?s]) (simp add: bl_def upd_mutex_def)
next
  case (Cons u us)
  note h = hold_state [OF k]
  obtain a where a: "g_active_task s = Some a" using h(6) by (auto simp: active_ok_def)
  have ki: "kinv (live s) s" "tick_ok (live s) s" using h(4) by (simp_all add: weak_inv_def kinv_def tick_ok_def)
  have u: "u \<in> live s" "pending_state (st s u)" "bo s u = Some m" using kinv_D(3) [OF ki(1), of u m] Cons by auto
  then have "(u, t) \<in> wait_rel s" using h(1,2) by (auto simp: wait_rel_def)
  then have ut: "u \<noteq> t" using nd by (auto simp: no_deadlock_def acyclic_def)
  have m: "mutex_ok_but m (live (hold t ms s)) (hold t ms s)" using h(7) by simp
  obtain q0 where q0: "pend_task_wakeup u (hold t ms s) = Inr (wake_result BLK_FINISH u q0 (hold t ms s))"
    "struct_inv (upd_mutex m (\<lambda>x. x\<lparr>owner_nested := owner_nested (mutexes s m)\<rparr>) (mutex_own m u (wake_result BLK_FINISH u q0 (hold t ms s))))"
    using hand_over [OF h(4) m h(8), of u us a] h(2,9) Cons a by auto
  obtain q where q: "pend_task_wakeup u s = Inr (wake_result BLK_FINISH u q s)"
    using pend_task_end_ok [OF ki(1) u(1,2) a] unfolding pend_task_wakeup_def by blast
  let ?s = "mutex_own m u (wake_result BLK_FINISH u q s)"
  have e: "hold t ms (wake_result BLK_FINISH u q s) = wake_result BLK_FINISH u q0 (hold t ms s)"
    using q0(1) q pend_task_end_hold [OF ut, of BLK_FINISH ms s] by (simp add: pend_task_wakeup_def)
  have "upd_mutex m (\<lambda>x. x\<lparr>owner_nested := owner_nested (mutexes s m)\<rparr>) (hold t ms ?s) = hold t ms ?s"
    by (simp add: upd_mutex_def hold_def mutex_own_def upd_task_def)
  then have "struct_inv (hold t ms ?s)" using q0(2) ut by (simp add: hold_commute flip: e)
  moreover have "none_due (hold t ms ?s)"
    using none_due_wake [of _ "hold t ms s" BLK_FINISH u q0] h(4,5) none_due_cong [of "hold t ms ?s" "wake_result BLK_FINISH u q0 (hold t ms s)"]
    by (auto simp: weak_inv_def ut simp flip: e)
  moreover have "active_ok (live s) (hold t ms ?s)" using h(6) u(2) by (auto simp: active_ok_def)
  ultimately have "kernel_inv (hold t ms ?s)" by (simp add: kernel_inv_def)
  moreover have "wait_rel ?s \<subseteq> wait_rel s \<union> UNIV \<times> {u}" "u \<notin> Domain (wait_rel ?s)" by (auto simp: wait_rel_def split: if_splits)
  then have "no_deadlock ?s" using acyclic_redirect [of "wait_rel s" "wait_rel ?s" u] nd by (simp add: no_deadlock_def)
  moreover have "mutex_free_loop (m # ms) s = mutex_free_loop ms ?s"
    using Cons q by (simp add: bl_def mutex_own_def upd_mutex_def Let_def)
  ultimately show ?thesis using Cons u ut by auto
qed

lemma mutex_free_ok:
  assumes "kernel_inv (hold t ms s)" "t \<in> live s" "no_deadlock s"
  shows "ok (mutex_free_loop ms s) (\<lambda>s'. kernel_inv (hold t [] s') \<and> no_deadlock s' \<and> handed ms t s s' \<and> st s' t = st s t \<and> bo s' t = bo s t)"
  using assms
proof (induction ms arbitrary: s)
  case Nil
  then show ?case by (simp add: handed_def wait_same_def)
next
  case (Cons m ms)
  obtain s1 where s1: "mutex_free_loop (m # ms) s = mutex_free_loop ms s1" "kernel_inv (hold t ms s1)" "no_deadlock s1"
    and c: "case bl s m of [] \<Rightarrow> s1 = upd_mutex m (\<lambda>x. x\<lparr>mutex_task := None\<rparr>) s
     | u # _ \<Rightarrow> \<exists>q. s1 = mutex_own m u (wake_result BLK_FINISH u q s) \<and> u \<noteq> t \<and> pending_state (st s u) \<and> bo s u = Some m"
    using hand_step [OF Cons.prems] by blast
  have k: "kinv (live s) s" "mutex_ok (live s) (hold t (m # ms) s)"
    using Cons.prems(1) by (simp_all add: kernel_inv_def struct_inv_def kinv_def)
  have d: "m \<notin> set ms" using mutex_okD(3) [OF k(2) Cons.prems(2)] by simp
  have bx: "x \<in> set (bl s c) \<Longrightarrow> bo s x = Some c" for x c using kinv_D(3) [OF k(1)] by blast
  have e: "live s1 = live s" "ty s1 = ty s" "pri s1 = pri s" "g_kobj_list s1 = g_kobj_list s" "g_active_task s1 = g_active_task s"
    "g_sched_lock s1 = g_sched_lock s" "g_intrpt_nested_level s1 = g_intrpt_nested_level s" "st s1 t = st s t" "bo s1 t = bo s t"
    "b_prio (tasks s1 x) = b_prio (tasks s x)" for x
    using c by (auto split: list.splits)
  have b: "bl s1 c = bl s c" "own s1 c = own s c" if "c \<noteq> m" for c
    using c that bx [of _ c] by (fastforce split: list.splits intro: remove1_idem)+
  have f: "wait_same s s1 x" if "x \<notin> set (take 1 (bl s m))" for x using c that by (auto simp: wait_same_def split: list.splits)
  have o: "bl s1 m = tl (bl s m)" "case bl s m of [] \<Rightarrow> own s1 m = None | u # _ \<Rightarrow> own s1 m = Some u \<and> st s1 u = woken (st s u)"
    using c by (auto split: list.splits simp: woken_def)
  have w: "first_waiters ms s1 = first_waiters ms s" unfolding first_waiters_def using b(1) d by (intro SUP_cong refl) metis
  have nb: "u \<notin> first_waiters ms s" if "u \<in> set (bl s m)" for u
    using bx [OF that] bx [of u] d by (fastforce simp: first_waiters_def dest: in_set_takeD)
  have "ok (mutex_free_loop ms s1) (\<lambda>s'. kernel_inv (hold t [] s') \<and> no_deadlock s' \<and> handed ms t s1 s' \<and> st s' t = st s1 t \<and> bo s' t = bo s1 t)"
    using Cons.IH s1(2,3) Cons.prems(2) e(1) by simp
  then show ?case
    unfolding s1(1)
  proof (rule ok_mono, clarify, intro conjI)
    fix s' assume h: "handed ms t s1 s'"
    have h2: "wait_same s1 s' u" if "u \<notin> first_waiters ms s" for u using h w that by (simp add: handed_def)
    have m': "own s' m = own s1 m" "bl s' m = bl s1 m" using h d by (simp_all add: handed_def)
    have hm: "bl s' m = tl (bl s m) \<and> (case bl s m of [] \<Rightarrow> own s' m = None | u # _ \<Rightarrow> own s' m = Some u \<and> st s' u = woken (st s u))"
      using o m' nb h2 by (auto simp: wait_same_def split: list.splits)
    have hc: "bl s' c = tl (bl s c) \<and> (case bl s c of [] \<Rightarrow> own s' c = None | u # _ \<Rightarrow> own s' c = Some u \<and> st s' u = woken (st s u))"
      if "c \<in> set ms" for c
    proof -
      have cm: "c \<noteq> m" using that d by blast
      then have "st s1 u = st s u" if "u \<in> set (bl s c)" for u
        using f [of u] bx [OF that] bx [of u m] by (auto simp: wait_same_def dest: in_set_takeD)
      moreover have "bl s' c = tl (bl s1 c) \<and> (case bl s1 c of [] \<Rightarrow> own s' c = None | u # _ \<Rightarrow> own s' c = Some u \<and> st s' u = woken (st s1 u))"
        using h that unfolding handed_def by blast
      ultimately show ?thesis using b(1) [OF cm] by (auto split: list.splits)
    qed
    have hu: "wait_same s s' u" if "u \<notin> first_waiters (m # ms) s" for u
      using f [of u] h2 [of u] that by (auto simp: first_waiters_def wait_same_def)
    show "handed (m # ms) t s s'"
      unfolding handed_def using hm hc hu h e b by (simp add: handed_def)
  qed (use e in simp_all)
qed

section \<open>Leaving the lists\<close>

definition gone :: "tid \<Rightarrow> runqueue \<Rightarrow> kstate \<Rightarrow> kstate" where
  "gone t q s = task_stats_rm t (set_state t K_DELETED ((blk_list_rm t (tick_list_rm t s))\<lparr>g_ready_queue := q\<rparr>))"

lemma gone_views [simp]:
  "st (gone t q s) = (st s)(t := K_DELETED)" "pri (gone t q s) = pri s" "bo (gone t q s) = bo s" "held (gone t q s) = held s"
  "tkm (gone t q s) = tkm s" "tkh (gone t q s) = (tkh s)(t := False)" "bl (gone t q s) = (\<lambda>b. remove1 t (bl s b))"
  "pol (gone t q s) = pol s" "ty (gone t q s) = ty s" "own (gone t q s) = own s" "g_ready_queue (gone t q s) = q"
  "g_active_task (gone t q s) = g_active_task s" "g_tick_count (gone t q s) = g_tick_count s" "g_sched_lock (gone t q s) = g_sched_lock s"
  "g_intrpt_nested_level (gone t q s) = g_intrpt_nested_level s" "rem (gone t q s) = rem s"
  "b_prio (tasks (gone t q s) u) = b_prio (tasks s u)" "live (gone t q s) = set (remove1 t (task_head (g_kobj_list s)))"
  by (simp_all add: gone_def task_stats_rm_def upd_kobj_def set_state_def upd_task_def tick_list_rm_def blk_list_rm_def view_defs
      live_def rem_def fun_eq_iff)

lemma g_tick_head_gone: "tick_ok L s \<Longrightarrow> g_tick_head (gone t q s) = remove1 t (g_tick_head s)"
  by (auto simp: gone_def task_stats_rm_def upd_kobj_def set_state_def upd_task_def tick_list_rm_def blk_list_rm_def tick_ok_def
      tkh_def remove1_idem)

lemma gone_inv:
  assumes k: "kernel_inv (hold t [] s)" "t \<in> live s" "distinct (task_head (g_kobj_list s))"
    and q: "core_inv (live s - {t}) q (st s) (pri s) (bo s) (\<lambda>b. remove1 t (bl s b)) (pol s)"
  shows "live (gone t q s) = live s - {t}" "struct_inv (gone t q s)" "none_due (gone t q s)" "wait_rel (gone t q s) \<subseteq> wait_rel s"
proof -
  let ?g = "gone t q s"
  show l: "live ?g = live s - {t}" using k(3) unfolding gone_views by (simp add: live_def)
  have i: "tick_ok (live s) s" "mutex_ok (live s) (hold t [] s)" "inherit_ok s" "none_due s"
    using k(1) none_due_cong [of s "hold t [] s"] by (auto simp: kernel_inv_def struct_inv_def tick_ok_def inherit_ok_def)
  note d = mutex_okD [OF i(2)] and h = g_tick_head_gone [OF i(1)]
  have nt: "own s b \<noteq> Some t" if "ty s b = RHINO_MUTEX_OBJ_TYPE" for b using d(2) [of b t] that by auto
  have "kinv (live s - {t}) ?g"
    using upd_detached [OF q, of t K_DELETED "pri s t" "bo s t"] by (simp add: kinv_def)
  moreover have "tick_ok (live s) ?g" by (rule tick_ok_remove [OF i(1), where x = K_DELETED]) (simp_all add: h)
  then have "tick_ok (live s - {t}) ?g" by (auto simp: tick_ok_def)
  moreover have "mutex_ok (live s - {t}) ?g"
  proof (rule mutex_okI)
    fix b u assume "ty ?g b = RHINO_MUTEX_OBJ_TYPE" "own ?g b = Some u"
    then show "u \<in> live s - {t} \<and> u \<noteq> g_idle_task \<and> b \<in> set (held ?g u)" using d(2) [of b u] nt [of b] by (auto split: if_splits)
  next
    fix u b assume "u \<in> live s - {t}" "b \<in> set (held ?g u)"
    then show "own ?g b = Some u \<and> ty ?g b = RHINO_MUTEX_OBJ_TYPE" using d(4) [of u b] by simp
  next
    fix u assume "u \<in> live s - {t}"
    then show "distinct (held ?g u) \<and> b_prio (tasks ?g u) < 62" using d(3) [of u] by simp
  next
    fix b assume "ty ?g b = RHINO_MUTEX_OBJ_TYPE" "bl ?g b \<noteq> []"
    then show "own ?g b \<noteq> None" using d(1) [of b] by (cases "bl s b") auto
  qed
  moreover have "inherit_ok ?g" by (rule inherit_ok_less [OF i(3)]) (simp_all add: set_remove1_subset)
  ultimately show "struct_inv ?g" unfolding struct_inv_def l by blast
  show "none_due ?g" using i(4) by (auto simp: none_due_def h dest: set_remove1_subset [THEN subsetD])
  show "wait_rel ?g \<subseteq> wait_rel s" unfolding wait_rel_def l by auto
qed

text \<open>The task waiting for a mutex: if its owner runs at the priority of the task, it falls back to the highest
  among its own and those of the other tasks that wait for its mutexes. Only the chain of owners changes.\<close>

definition donated_but :: "tid \<Rightarrow> tid \<Rightarrow> kstate \<Rightarrow> nat set" where
  "donated_but t u s = {pri s x | m x. m \<in> set (held s u) \<and> x \<in> set (bl s m) \<and> x \<noteq> t}"

definition falls_back :: "tid \<Rightarrow> kstate \<Rightarrow> kstate \<Rightarrow> bool" where
  "falls_back t s s' \<longleftrightarrow> (\<forall>u. (t, u) \<in> wait_rel s \<longrightarrow>
       pri s' u = (if pri s u = pri s t then Min (insert (b_prio (tasks s u)) (donated_but t u s)) else pri s u)) \<and>
     (\<forall>x. (t, x) \<notin> (wait_rel s)\<^sup>+ \<longrightarrow> pri s' x = pri s x)"

lemma gone_pending:
  assumes k: "kernel_inv (hold t [] s)" "t \<in> live s" "distinct (task_head (g_kobj_list s))" and nd: "no_deadlock s"
    and t: "pending_state (st s t)"
  shows "ok (mutex_task_pri_reset t (set_state t K_DELETED (blk_list_rm t (tick_list_rm t s)))) (\<lambda>s1. struct_inv (task_stats_rm t s1) \<and>
    none_due (task_stats_rm t s1) \<and> no_deadlock (task_stats_rm t s1) \<and> pri_frame (gone t (g_ready_queue s) s) (task_stats_rm t s1) \<and>
    falls_back t s (task_stats_rm t s1))"
proof -
  let ?g = "gone t (g_ready_queue s) s" and ?u = "set_state t K_DELETED (blk_list_rm t (tick_list_rm t s))"
  have ki: "kinv (live s) s" using k(1) by (simp add: kernel_inv_def struct_inv_def kinv_def)
  note g = gone_inv [OF k detach_pending [OF ki [unfolded kinv_def] t]]
  have e: "?g = upd_kobj (\<lambda>k. k\<lparr>task_head := remove1 t (task_head k)\<rparr>) ?u"
    by (simp add: gone_def task_stats_rm_def upd_kobj_def set_state_def upd_task_def blk_list_rm_def tick_list_rm_def)
  obtain b where b: "bo s t = Some b" using kinv_D(8) [OF ki k(2) t] by blast
  have "bl s b \<noteq> []" using kinv_D(3) [OF ki, of t b] b t k(2) by auto
  moreover have "mutex_ok (live s) (hold t [] s)" using k(1) by (simp add: kernel_inv_def struct_inv_def)
  ultimately have o: "ty s b = RHINO_MUTEX_OBJ_TYPE \<Longrightarrow> own s b \<noteq> None" using mutex_okD(1) [of "live s" "hold t [] s" b] by auto
  have m: "mutex_ok (live ?g) ?g" "inherit_ok ?g" "weak_inv ?g" using g(2) by (simp_all add: struct_iff)
  have l: "mutex_lists None ?g" "inherits None ?g"
    using mutex_okD(2) [OF m(1)] m(2) by (auto simp: mutex_lists_def inherit_ok_iff inherit_ok_def)
  have ng: "no_deadlock ?g" using g(4) nd no_deadlock_subset by blast
  have "ok (mutex_task_pri_reset t ?g) (\<lambda>s'. weak_inv s' \<and> pri_frame ?g s' \<and> inherits None s' \<and>
      (\<forall>u. ty s b = RHINO_MUTEX_OBJ_TYPE \<longrightarrow> own s b = Some u \<longrightarrow>
        pri s' u = (if pri s u = pri s t then fst (mutex_pri_look u None ?g) else pri s u)) \<and>
      (\<forall>x. (\<forall>u. ty s b = RHINO_MUTEX_OBJ_TYPE \<longrightarrow> own s b = Some u \<longrightarrow> (u, x) \<notin> (wait_rel ?g)\<^sup>*) \<longrightarrow> pri s' x = pri s x))"
    using mutex_task_pri_reset_ok [OF m(3) ng, of t b, unfolded gone_views] b o l by blast
  then obtain s' where s': "mutex_task_pri_reset t ?g = Inr s'" "weak_inv s'" "inherits None s'" and f: "pri_frame ?g s'"
    and p: "\<And>u. ty s b = RHINO_MUTEX_OBJ_TYPE \<Longrightarrow> own s b = Some u \<Longrightarrow>
        pri s' u = (if pri s u = pri s t then fst (mutex_pri_look u None ?g) else pri s u)"
      "\<And>x. (\<And>u. ty s b = RHINO_MUTEX_OBJ_TYPE \<Longrightarrow> own s b = Some u \<Longrightarrow> (u, x) \<notin> (wait_rel ?g)\<^sup>*) \<Longrightarrow> pri s' x = pri s x"
    unfolding ok_iff by blast
  have "falls_back t s s'" unfolding falls_back_def
  proof (intro conjI allI impI)
    fix u assume "(t, u) \<in> wait_rel s"
    then have u: "ty s b = RHINO_MUTEX_OBJ_TYPE" "own s b = Some u" using b by (auto simp: wait_rel_def)
    have ug: "u \<in> live ?g" using mutex_okD(2) [OF m(1), of b u] u by simp
    have "kinv (live ?g) ?g" "\<forall>c \<in> set (held ?g u). pol ?g c = BLK_POLICY_PRI"
      using m(2,3) mutex_okD(4) [OF m(1) ug] by (auto simp: weak_inv_def inherit_ok_def simp del: gone_views)
    then have "fst (mutex_pri_look u None ?g) = Min (insert (b_prio (tasks s u)) (donated None u ?g))"
      using mutex_pri_look_min by fastforce
    moreover have "donated None u ?g = donated_but t u s"
      using kinv_D(4) [OF ki] by (auto simp: donated_def donated_but_def set_remove1_eq)
    ultimately show "pri s' u = (if pri s u = pri s t then Min (insert (b_prio (tasks s u)) (donated_but t u s)) else pri s u)"
      using p(1) [OF u] by simp
  next
    fix x assume x: "(t, x) \<notin> (wait_rel s)\<^sup>+"
    show "pri s' x = pri s x"
    proof (rule p(2))
      fix u assume "ty s b = RHINO_MUTEX_OBJ_TYPE" "own s b = Some u"
      then have "(t, u) \<in> wait_rel s" using b t k(2) by (auto simp: wait_rel_def)
      then have "(u, x) \<notin> (wait_rel s)\<^sup>*" using x by (meson rtrancl_into_trancl2)
      then show "(u, x) \<notin> (wait_rel ?g)\<^sup>*" using rtrancl_mono [OF g(4)] by blast
    qed
  qed
  have "length (remove1 t xs) \<le> length xs" for xs by (simp add: length_remove1)
  then obtain s1 where s1: "mutex_task_pri_reset t ?u = Inr s1" "s' = task_stats_rm t s1"
    using mutex_task_pri_reset_kobj [OF s'(1) [unfolded e]] unfolding task_stats_rm_def by auto
  have "struct_inv s'" using s'(2,3) m(2) mutex_ok_pri [OF m(1) f] by (simp add: struct_iff inherit_ok_iff pri_frame_views [OF f] pri_frame_fields [OF f])
  moreover have "none_due s'" using g(3) none_due_cong [of s' ?g] by (simp add: pri_frame_views [OF f] pri_frame_fields [OF f])
  moreover have "no_deadlock s'" using ng by (simp add: no_deadlock_def pri_frame_views [OF f])
  ultimately show ?thesis using s1 f \<open>falls_back t s s'\<close> by simp
qed

lemma del_state_ok:
  assumes k: "kernel_inv (hold t [] s)" "t \<in> live s" "distinct (task_head (g_kobj_list s))" and nd: "no_deadlock s"
    and t: "t \<noteq> g_idle_task"
  shows "ok (task_del_state t s) (\<lambda>r. \<exists>s1 q. r = Some s1 \<and> struct_inv (task_stats_rm t s1) \<and> none_due (task_stats_rm t s1) \<and>
    no_deadlock (task_stats_rm t s1) \<and> pri_frame (gone t q s) (task_stats_rm t s1) \<and> falls_back t s (task_stats_rm t s1))"
proof (cases "pending_state (st s t)")
  case True
  then have "task_del_state t s =
      bnd (mutex_task_pri_reset t (set_state t K_DELETED (blk_list_rm t (tick_list_rm t s)))) (\<lambda>s. Inr (Some s))"
    by (auto simp: task_del_state_def)
  then show ?thesis using gone_pending [OF k nd True] unfolding ok_iff by auto
next
  case False
  have ki: "kinv (live s) s" "tick_ok (live s) s"
    using k(1) by (simp_all add: kernel_inv_def struct_inv_def kinv_def tick_ok_def)
  have bl: "(\<lambda>b. remove1 t (bl s b)) = bl s" using kinv_D(3) [OF ki(1)] False by (auto simp: fun_eq_iff intro: remove1_idem)
  have br: "blk_list_rm t w = w" if "blks w = blks s" for w
    using kinv_D(3) [OF ki(1), of t] False that by (simp add: blk_list_rm_def remove1_idem bl_def)
  have fin: ?thesis if "core_inv (live s - {t}) q (st s) (pri s) (bo s) (bl s) (pol s)"
    "task_del_state t s = Inr (Some (set_state t K_DELETED ((tick_list_rm t s)\<lparr>g_ready_queue := q\<rparr>)))" for q
  proof -
    have e: "task_stats_rm t (set_state t K_DELETED ((tick_list_rm t s)\<lparr>g_ready_queue := q\<rparr>)) = gone t q s"
      by (simp add: gone_def br tick_list_rm_def upd_task_def)
    have g: "struct_inv (gone t q s)" "none_due (gone t q s)" "no_deadlock (gone t q s)"
      using gone_inv [OF k, of q] that(1) bl nd no_deadlock_subset by simp_all
    moreover have "falls_back t s (gone t q s)" using False by (auto simp: falls_back_def wait_rel_def)
    ultimately show ?thesis unfolding that(2) using e by (auto intro: exI [of _ q])
  qed
  show ?thesis
  proof (cases "st s t = K_RDY")
    case True
    obtain q where q: "ready_list_rm_rq (g_ready_queue s) t (pri s t) = Inr q" "core_inv (live s - {t}) q (st s) (pri s) (bo s) (bl s) (pol s)"
      using detach_ready [OF ki(1) [unfolded kinv_def] k(2) True t] by (auto simp: ok_iff)
    have "\<not> tkh s t" using ki(2) k(2) True by (auto simp: tick_ok_def waiting_state_def)
    then have "tick_list_rm t s = s" by (simp add: tick_list_rm_def tkh_def)
    then show ?thesis using fin [OF q(2)] q(1) True by (simp add: task_del_state_def ready_list_rm_def with_rq_def)
  next
    case nr: False
    have e: "(tick_list_rm t s)\<lparr>g_ready_queue := g_ready_queue s\<rparr> = tick_list_rm t s" by (simp add: tick_list_rm_def upd_task_def)
    have "tick_list_rm t s = s" if "st s t = K_SUSPENDED"
      using that ki(2) k(2) by (auto simp: tick_ok_def waiting_state_def tick_list_rm_def tkh_def)
    moreover have "st s t \<noteq> K_SEED" "st s t \<noteq> K_DELETED" using kinv_D(2) [OF ki(1) k(2)] by auto
    ultimately have "task_del_state t s = Inr (Some (set_state t K_DELETED ((tick_list_rm t s)\<lparr>g_ready_queue := g_ready_queue s\<rparr>)))"
      unfolding e using nr False by (cases "st s t") (simp_all add: task_del_state_def)
    with detach_other [OF ki(1) [unfolded kinv_def] nr False] show ?thesis by (rule fin)
  qed
qed

text \<open>What remains when task \<open>t\<close> has left: its mutexes are handed over, every other task goes on waiting, for the
  same object and as long as before, and only the owners along the chain \<open>t\<close> waited in fall back.\<close>

definition left_behind :: "tid \<Rightarrow> kstate \<Rightarrow> kstate \<Rightarrow> bool" where
  "left_behind t s s' \<longleftrightarrow> live s' = live s - {t} \<and> st s' t = K_DELETED \<and>
     (\<forall>b. set (bl s' b) = (if b \<in> set (held s t) then set (tl (bl s b)) else set (bl s b) - {t})) \<and>
     (\<forall>m \<in> set (held s t). case bl s m of [] \<Rightarrow> own s' m = None | u # _ \<Rightarrow> own s' m = Some u \<and> st s' u = woken (st s u)) \<and>
     (\<forall>m. m \<notin> set (held s t) \<longrightarrow> own s' m = own s m) \<and>
     (\<forall>u. u \<noteq> t \<longrightarrow> u \<notin> first_waiters (held s t) s \<longrightarrow> wait_same s s' u) \<and> falls_back t s s'"

lemma own_waiters:
  assumes "kernel_inv s" "t \<in> live s" "m \<in> set (held s t)"
  shows "own s m = Some t" "ty s m = RHINO_MUTEX_OBJ_TYPE" "u \<in> set (bl s m) \<Longrightarrow> (u, t) \<in> wait_rel s"
proof -
  have i: "kinv (live s) s" "mutex_ok (live s) s" using assms(1) by (simp_all add: kernel_inv_def struct_inv_def)
  show o: "own s m = Some t" "ty s m = RHINO_MUTEX_OBJ_TYPE" using mutex_okD(4) [OF i(2) assms(2,3)] by simp_all
  show "(u, t) \<in> wait_rel s" if "u \<in> set (bl s m)" using kinv_D(3) [OF i(1), of u m] that o by (auto simp: wait_rel_def)
qed

lemma handed_wait:
  assumes k: "kernel_inv s" "no_deadlock s" "t \<in> live s" and h: "handed (held s t) t s s1" and l: "live s1 = live s"
  shows "(t, x) \<in> (wait_rel s1)\<^sup>+ \<Longrightarrow> (t, x) \<in> (wait_rel s)\<^sup>+" "falls_back t s1 w \<Longrightarrow> falls_back t s w"
proof -
  have ac: "(y, y) \<notin> (wait_rel s)\<^sup>+" for y using k(2) by (simp add: no_deadlock_def acyclic_def)
  have v: "ty s1 = ty s" "pri s1 = pri s" "\<And>u. b_prio (tasks s1 u) = b_prio (tasks s u)"
    "\<And>m. m \<notin> set (held s t) \<Longrightarrow> bl s1 m = bl s m \<and> own s1 m = own s m"
    "\<And>u. u \<notin> first_waiters (held s t) s \<Longrightarrow> wait_same s s1 u"
    using h by (simp_all add: handed_def)
  have fw: "(y, t) \<in> wait_rel s \<and> \<not> pending_state (st s1 y)" if y: "y \<in> first_waiters (held s t) s" for y
  proof -
    from y obtain m where m': "m \<in> set (held s t)" "y \<in> set (take 1 (bl s m))" by (auto simp: first_waiters_def)
    then obtain us where m: "m \<in> set (held s t)" "bl s m = y # us" by (cases "bl s m") auto
    then have "st s1 y = woken (st s y)" using h unfolding handed_def by force
    then show ?thesis using own_waiters(3) [OF k(1,3) m(1), of y] m(2) by (simp add: woken_def)
  qed
  have t: "wait_same s s1 t" using v(5) [of t] fw [of t] ac by blast
  have step: "(y, z) \<in> wait_rel s \<or> (y, t) \<in> wait_rel s" if yz: "(y, z) \<in> wait_rel s1" for y z
  proof -
    obtain b where b: "y \<in> live s" "pending_state (st s1 y)" "bo s1 y = Some b" "ty s b = RHINO_MUTEX_OBJ_TYPE" "own s1 b = Some z"
      using yz v(1) l by (auto simp: wait_rel_def)
    then have "wait_same s s1 y" using v(5) fw by blast
    then show ?thesis
      using b v(4) [of b] own_waiters(1) [OF k(1,3), of b] by (cases "b \<in> set (held s t)") (auto simp: wait_rel_def wait_same_def)
  qed
  show r: "(t, x) \<in> (wait_rel s)\<^sup>+" if "(t, x) \<in> (wait_rel s1)\<^sup>+" for x
    using that
  proof (induction rule: trancl_induct)
    case (base y)
    then show ?case using step [of t y] ac [of t] by blast
  next
    case (step y z)
    have "(y, t) \<notin> wait_rel s" using step.IH ac [of t] by (meson trancl_into_trancl)
    then show ?case using step.IH \<open>(y, z) \<in> wait_rel s1\<close> \<open>\<And>z y. (y, z) \<in> wait_rel s1 \<Longrightarrow> (y, z) \<in> wait_rel s \<or> (y, t) \<in> wait_rel s\<close>
      by (meson trancl_into_trancl)
  qed
  have u: "(t, u) \<in> wait_rel s1 \<and> donated_but t u s1 = donated_but t u s" if tu: "(t, u) \<in> wait_rel s" for u
  proof -
    obtain b where b: "pending_state (st s t)" "bo s t = Some b" "ty s b = RHINO_MUTEX_OBJ_TYPE" "own s b = Some u"
      using tu by (auto simp: wait_rel_def)
    have ut: "u \<noteq> t" using tu ac [of t] by blast
    have ul: "u \<in> live s" using k(1) b mutex_okD(2) [of "live s" s b u] by (auto simp: kernel_inv_def struct_inv_def)
    have nh: "m \<notin> set (held s t)" if "m \<in> set (held s u)" for m
      using own_waiters(1) [OF k(1,3), of m] own_waiters(1) [OF k(1) ul that] ut by auto
    have "b \<notin> set (held s t)" using own_waiters(1) [OF k(1,3), of b] b ut by auto
    then have "(t, u) \<in> wait_rel s1" using b t v(1) v(4) [of b] k(3) l by (auto simp: wait_rel_def wait_same_def)
    moreover have "u \<notin> first_waiters (held s t) s" using fw [of u] tu ac [of t] by (meson trancl.intros)
    then have "held s1 u = held s u" using v(5) by (simp add: wait_same_def)
    then have "donated_but t u s1 = donated_but t u s" using nh v(2,4) by (auto simp: donated_but_def) metis+
    ultimately show ?thesis ..
  qed
  show "falls_back t s w" if f: "falls_back t s1 w"
    using f u r v(2,3) unfolding falls_back_def by metis
qed

lemma task_del_body:
  assumes k: "kernel_inv s" "no_deadlock s" "t \<in> live s" "distinct (task_head (g_kobj_list s))" and t: "t \<noteq> g_idle_task"
    and a: "g_intrpt_nested_level s = 0" "g_active_task s = Some t \<Longrightarrow> g_sched_lock s = 0"
  shows "\<exists>s1 s2. task_mutex_free t s = Inr s1 \<and> task_del_state t s1 = Inr (Some s2) \<and>
    ok (exit_sched e (task_stats_rm t s2)) (\<lambda>(r, s'). r = e \<and> kernel_inv s' \<and> no_deadlock s' \<and> left_behind t s s' \<and>
      (g_sched_lock s = 0 \<longrightarrow> (\<exists>u. g_active_task s' = Some u \<and> best_ready (live s') s' u)))"
proof -
  have hs: "hold t (held s t) s = s" by (simp add: hold_def upd_task_def held_def)
  obtain s1 where s1: "task_mutex_free t s = Inr s1" "kernel_inv (hold t [] s1)" "no_deadlock s1" and h: "handed (held s t) t s s1"
    using mutex_free_ok [of t "held s t" s] k hs by (auto simp: ok_iff task_mutex_free_def held_def)
  have e1: "g_kobj_list s1 = g_kobj_list s" "g_active_task s1 = g_active_task s" "g_sched_lock s1 = g_sched_lock s"
    "g_intrpt_nested_level s1 = 0" using h a(1) by (simp_all add: handed_def)
  then have l1: "live s1 = live s" by (simp add: live_def)
  obtain s2 q where s2: "task_del_state t s1 = Inr (Some s2)" "struct_inv (task_stats_rm t s2)" "none_due (task_stats_rm t s2)"
    "no_deadlock (task_stats_rm t s2)" "falls_back t s1 (task_stats_rm t s2)" and f: "pri_frame (gone t q s1) (task_stats_rm t s2)"
    using del_state_ok [OF s1(2) _ _ s1(3) t] k(3,4) e1 l1 unfolding ok_iff by auto
  note fv = pri_frame_fields [OF f] pri_frame_views [OF f]
  have i1: "kinv (live s1) s1" "active_ok (live s1) s1"
    using s1(2) by (simp_all add: kernel_inv_def struct_inv_def kinv_def active_ok_def)
  have lv: "live (gone t q s1) = live s - {t}" using k(4) e1(1) unfolding gone_views by (simp add: live_def)
  have "active_ok (live (task_stats_rm t s2)) (task_stats_rm t s2)" if "g_sched_lock s > 0"
    using that i1(2) a(2) e1 lv l1 by (auto simp: active_ok_def fv)
  then obtain s' where s': "exit_sched e (task_stats_rm t s2) = Inr (e, s')" "kernel_inv s'" and d: "sched_done (task_stats_rm t s2) s'"
    using exit_sched_inv [OF s2(2,3), of e] e1 by (auto simp: ok_iff fv)
  note dv = sched_done_frame [OF d] fv
  have ac: "(t, t) \<notin> wait_rel s" using k(2) by (auto simp: no_deadlock_def acyclic_def)
  have nt: "t \<notin> set (bl s m)" if "m \<in> set (held s t)" for m using own_waiters(3) [OF k(1,3) that, of t] ac by blast
  have "set (bl s' b) = set (bl s1 b) - {t}" for b
    using pri_frame_tasks(3) [OF f] kinv_D(4) [OF i1(1)] by (simp add: sched_done_frame [OF d])
  moreover have "t \<notin> set (tl (bl s m))" if "m \<in> set (held s t)" for m using nt [OF that] by (cases "bl s m") auto
  ultimately have b: "set (bl s' b) = (if b \<in> set (held s t) then set (tl (bl s b)) else set (bl s b) - {t})" for b
    using h by (auto simp: handed_def)
  have m: "case bl s m of [] \<Rightarrow> own s' m = None | u # _ \<Rightarrow> own s' m = Some u \<and> st s' u = woken (st s u)"
    if "m \<in> set (held s t)" for m
    using h that nt [OF that] by (fastforce simp: handed_def dv split: list.splits)
  have w: "wait_same s s' u" if "u \<noteq> t" "u \<notin> first_waiters (held s t) s" for u
    using h that by (auto simp: handed_def wait_same_def dv)
  have "falls_back t s s'" using handed_wait(2) [OF k(1-3) h l1 s2(5)] by (simp add: falls_back_def sched_done_frame [OF d])
  then have "left_behind t s s'" using b m w h lv by (simp add: left_behind_def dv handed_def)
  moreover have "no_deadlock s'" using s2(4) by (simp add: no_deadlock_def wait_rel_sched_done [OF d])
  ultimately show ?thesis
    using s1(1) s2(1) s' sched_done_active [OF d] e1 lv by (auto simp: dv)
qed

text \<open>
  C19. Deleting a task: it leaves every list of the kernel; each mutex it held goes to the first of its waiters,
  which becomes ready (or is left suspended), or becomes free; every other task keeps its state, the object it waits for, its
  timeout and its mutexes, and the waiters of every object are the same but for the deleted task and the first waiters. If the task
  waited for a mutex and the owner runs at its priority, the owner falls back to the highest among its base priority and the priorities of the
  tasks that still wait for its mutexes; no priority changes off the chain of owners. The best remaining task runs. The
  call ends, keeps the kernel invariant and creates no deadlock.
\<close>

theorem task_del_releases:
  assumes "kernel_inv s" "no_deadlock s" "t \<in> live s" "distinct (task_head (g_kobj_list s))" "pri s t \<noteq> RHINO_IDLE_PRI"
    "t_mm_alloc_flag (tasks s t) = K_OBJ_STATIC_ALLOC" "g_intrpt_nested_level s = 0" "g_active_task s = Some t \<Longrightarrow> g_sched_lock s = 0"
  shows "ok (krhino_task_del (Some t) s) (\<lambda>(r, s'). r = RHINO_SUCCESS \<and> kernel_inv s' \<and> no_deadlock s' \<and> live s' = live s - {t} \<and>
    st s' t = K_DELETED \<and>
    (\<forall>b. set (bl s' b) = (if b \<in> set (held s t) then set (tl (bl s b)) else set (bl s b) - {t})) \<and>
    (\<forall>m \<in> set (held s t). case bl s m of [] \<Rightarrow> own s' m = None | u # _ \<Rightarrow> own s' m = Some u \<and> st s' u = woken (st s u)) \<and>
    (\<forall>m. m \<notin> set (held s t) \<longrightarrow> own s' m = own s m) \<and>
    (\<forall>u. u \<noteq> t \<longrightarrow> u \<notin> first_waiters (held s t) s \<longrightarrow>
      st s' u = st s u \<and> bo s' u = bo s u \<and> tkh s' u = tkh s u \<and> tkm s' u = tkm s u \<and> held s' u = held s u) \<and>
    (\<forall>u. (t, u) \<in> wait_rel s \<longrightarrow>
      pri s' u = (if pri s u = pri s t then Min (insert (b_prio (tasks s u)) (donated_but t u s)) else pri s u)) \<and>
    (\<forall>x. (t, x) \<notin> (wait_rel s)\<^sup>+ \<longrightarrow> pri s' x = pri s x) \<and>
    (g_sched_lock s = 0 \<longrightarrow> (\<exists>u. g_active_task s' = Some u \<and> best_ready (live s') s' u)))"
proof -
  have "kinv (live s) s" using assms(1) by (simp add: kernel_inv_def struct_inv_def)
  then have "t \<noteq> g_idle_task" using kinv_D(7) assms(5) by auto
  from task_del_body [OF assms(1-4) this assms(7,8), of RHINO_SUCCESS]
  obtain s1 s2 where e: "task_mutex_free t s = Inr s1" "task_del_state t s1 = Inr (Some s2)"
    and r: "ok (exit_sched RHINO_SUCCESS (task_stats_rm t s2)) (\<lambda>(r, s'). r = RHINO_SUCCESS \<and> kernel_inv s' \<and> no_deadlock s' \<and>
      left_behind t s s' \<and> (g_sched_lock s = 0 \<longrightarrow> (\<exists>u. g_active_task s' = Some u \<and> best_ready (live s') s' u)))"
    by blast
  have "krhino_task_del (Some t) s = exit_sched RHINO_SUCCESS (task_stats_rm t s2)"
    using e assms(5-8) by (auto simp: krhino_task_del_def word_gt_0)
  then show ?thesis
    using r unfolding left_behind_def wait_same_def falls_back_def by simp
qed

theorem task_del_releases_witness:
  "ok (krhino_task_del (Some 5) ex_state) (\<lambda>(r, s'). kernel_inv s' \<and> 5 \<notin> live s' \<and> own s' 9 = Some 8 \<and> st s' 8 = K_RDY \<and>
     pri s' 8 = 30 \<and> st s' 14 = K_PEND \<and> bo s' 14 = Some 13 \<and> tkm s' 14 = 105)"
proof -
  have "distinct (task_head (g_kobj_list ex_state))" "t_mm_alloc_flag (tasks ex_state 5) = K_OBJ_STATIC_ALLOC"
    by (simp_all add: ex_state_def ex_tasks_def ex_task_def)
  note d = task_del_releases [OF ex_kernel_inv ex_no_deadlock _ this(1) _ this(2)]
  have "first_waiters (held ex_state 5) ex_state = {8}" by (simp add: first_waiters_def)
  moreover have "(5, x) \<notin> (wait_rel ex_state)\<^sup>+" for x by (auto simp: ex_wait_rel dest: tranclD)
  ultimately show ?thesis using d by (auto simp: ok_iff woken_def)
qed

end
