(* ===== verification/Heads.thy ===== *)
theory Heads
  imports TaskDel
begin

text \<open>
  The list of all tasks. Only the creation and the deletion of a task change it; in particular no task is ever on
  it twice.
\<close>

named_theorems heads_simps "updates that do not touch the list of tasks"
named_theorems heads_dest "steps that do not touch the list of tasks"

definition heads :: "kstate \<Rightarrow> tid list" where
  "heads s = task_head (g_kobj_list s)"

lemma heads_upd [heads_simps]:
  "heads (upd_task t f s) = heads s" "heads (upd_blk b g s) = heads s" "heads (set_state t x s) = heads s"
  "heads (set_prio t p s) = heads s" "heads (blk_list_rm t s) = heads s" "heads (tick_list_rm t s) = heads s"
  "heads (tick_list_insert t n s) = heads s" "heads (pend_list_add b t s) = heads s" "heads (s\<lparr>g_ready_queue := q\<rparr>) = heads s"
  "heads (s\<lparr>mem := mm\<rparr>) = heads s" "heads (s\<lparr>cells := c\<rparr>) = heads s" "heads (s\<lparr>g_tick_count := n\<rparr>) = heads s"
  "heads (s\<lparr>g_sched_lock := k\<rparr>) = heads s" "heads (s\<lparr>g_intrpt_nested_level := k\<rparr>) = heads s"
  "heads (s\<lparr>g_preferred_ready_task := pt\<rparr>) = heads s" "heads (cpu_task_switch s) = heads s"
  "heads (upd_sem b h s) = heads s" "heads (upd_mutex b h' s) = heads s" "heads (upd_event b h'' s) = heads s"
  "heads (upd_queue b k' s) = heads s" "heads (upd_bq b k'' s) = heads s" "heads (mutex_own b t s) = heads s"
  "heads (set_msg t m s) = heads s" "heads (snd (mutex_pri_look t r s)) = heads s" "heads (s\<lparr>g_idle_task_spawned := k\<rparr>) = heads s"
  by (simp_all add: heads_def upd_task_def upd_blk_def set_state_def set_prio_def blk_list_rm_def tick_list_rm_def
      tick_list_insert_def tick_list_pri_insert_def pend_list_add_def cpu_task_switch_def upd_sem_def upd_mutex_def
      upd_event_def upd_queue_def upd_bq_def mutex_own_def set_msg_def mutex_pri_look_def Let_def)

lemma heads_kobj [heads_simps]: "(\<And>k. task_head (f k) = task_head k) \<Longrightarrow> heads (upd_kobj f s) = heads s"
  by (simp add: heads_def)

lemma heads_rq [heads_dest]:
  "with_rq k s = Inr s' \<Longrightarrow> heads s' = heads s" "ready_list_rm t s = Inr s' \<Longrightarrow> heads s' = heads s"
  "ready_list_add_tail t s = Inr s' \<Longrightarrow> heads s' = heads s" "ready_list_add_head t s = Inr s' \<Longrightarrow> heads s' = heads s"
  "ready_list_add t s = Inr s' \<Longrightarrow> heads s' = heads s" "ready_list_head_to_tail t s = Inr s' \<Longrightarrow> heads s' = heads s"
  by (auto simp: with_rq_def ready_list_rm_def ready_list_add_tail_def ready_list_add_head_def ready_list_add_def
      ready_list_head_to_tail_def bnd_eq_Inr heads_simps split: if_splits)

lemma heads_sched [heads_dest]:
  "core_sched s = Inr s' \<Longrightarrow> heads s' = heads s" "exit_sched e s = Inr (r, s') \<Longrightarrow> heads s' = heads s"
  by (auto simp: core_sched_def exit_sched_def preferred_cpu_ready_task_get_def bnd_eq_Inr heads_simps split: if_splits)

lemma heads_pend [heads_dest]:
  "pend_task_end r t s = Inr s' \<Longrightarrow> heads s' = heads s" "pend_task_wakeup t s = Inr s' \<Longrightarrow> heads s' = heads s"
  "pend_task_rm t s = Inr s' \<Longrightarrow> heads s' = heads s" "pend_to_blk_obj b t n s = Inr s' \<Longrightarrow> heads s' = heads s"
  "pend_list_reorder t s = Inr s' \<Longrightarrow> heads s' = heads s" "block_active b n s = Inr (x, s') \<Longrightarrow> heads s' = heads s"
  by (auto simp: pend_task_wakeup_def pend_task_rm_def pend_task_end_def pend_to_blk_obj_def pend_list_reorder_def block_active_def
      Let_def bnd_eq_Inr heads_simps split: if_splits task_stat.splits dest!: heads_dest)

lemma heads_pend_loop:
  "pend_rm_loop n b s = Inr s' \<Longrightarrow> heads s' = heads s"
  by (induction n arbitrary: s) (auto simp: bnd_eq_Inr split: if_splits list.splits dest!: heads_dest)

lemma heads_wakeup_loop:
  "(\<And>t s. heads (f t s) = heads s) \<Longrightarrow> pend_wakeup_loop n f b s = Inr s' \<Longrightarrow> heads s' = heads s"
  by (induction n arbitrary: s) (fastforce simp: bnd_eq_Inr split: if_splits list.splits dest!: heads_dest)+

lemma heads_all [heads_dest]:
  "pend_rm_all b s = Inr s' \<Longrightarrow> heads s' = heads s" "pend_wakeup_all (\<lambda>t. set_msg t m) b s = Inr s' \<Longrightarrow> heads s' = heads s"
  "pend_wakeup_all (\<lambda>t s. s) b s = Inr s' \<Longrightarrow> heads s' = heads s"
  unfolding pend_rm_all_def pend_wakeup_all_def
  by (erule heads_pend_loop, erule heads_wakeup_loop [rotated], simp add: heads_simps, erule heads_wakeup_loop [rotated], simp)

lemma heads_pri_step [heads_dest]: "pri_change_step t p s = Inr (n, s') \<Longrightarrow> heads s' = heads s"
  by (cases "st s t") (auto simp: pri_change_step_def Let_def bnd_eq_Inr heads_simps split: if_splits dest!: heads_dest)

lemma heads_pri_loop: "pri_change_loop n t p s = Inr (e, s') \<Longrightarrow> heads s' = heads s"
proof (induction n arbitrary: t p s)
  case 0
  then show ?case by (simp add: pri_change_loop.simps split: if_splits)
next
  case (Suc n)
  then show ?case
    by (auto simp: pri_change_loop.simps [of "Suc n"] bnd_eq_Inr split: if_splits option.splits dest!: heads_dest)
qed

lemma heads_pri [heads_dest]:
  "task_pri_change t p s = Inr (e, s') \<Longrightarrow> heads s' = heads s" "mutex_release t r s = Inr s' \<Longrightarrow> heads s' = heads s"
  "mutex_task_pri_reset t s = Inr s' \<Longrightarrow> heads s' = heads s"
proof -
  show c: "heads s' = heads s" if "task_pri_change t p s = Inr (e, s')" for t p s e s'
    using that heads_pri_loop by (simp add: task_pri_change_def)
  show m: "heads s' = heads s" if "mutex_release t r s = Inr s'" for t r s s'
    using that by (auto simp: mutex_release_def Let_def bnd_eq_Inr heads_simps split: if_splits dest!: c)
  show "heads s' = heads s" if "mutex_task_pri_reset t s = Inr s'"
    using that by (auto simp: mutex_task_pri_reset_def bnd_eq_Inr split: if_splits dest!: m)
qed

lemma heads_tick [heads_dest]: "tick_loop ts s = Inr s' \<Longrightarrow> heads s' = heads s"
proof (induction ts arbitrary: s)
  case (Cons t ts)
  have "heads w = heads s" if "tick_expire t s = Inr w" for w
    using that by (auto simp: tick_expire_def bnd_eq_Inr heads_simps split: task_stat.splits dest!: heads_dest)
  then show ?case using Cons by (auto simp: bnd_eq_Inr split: if_splits)
qed simp

lemma heads_event_loop [heads_dest]: "event_set_loop b c ts s = Inr s' \<Longrightarrow> heads s' = heads s"
  by (induction ts arbitrary: s) (auto simp: bnd_eq_Inr heads_simps split: if_splits dest!: heads_dest)

lemma heads_slice [heads_dest]: "sched_time_slice_update s = Inr s' \<Longrightarrow> heads s' = heads s"
  by (auto simp: sched_time_slice_update_def Let_def bnd_eq_Inr heads_simps split: if_splits dest!: heads_dest)

section \<open>Services\<close>

lemma heads_sem:
  "heads (snd (krhino_sem_create b name n s)) = heads s" "krhino_sem_del b s = Inr (r, s') \<Longrightarrow> heads s' = heads s"
  "sem_give c all s = Inr (r, s') \<Longrightarrow> heads s' = heads s" "krhino_sem_take b k s = Inr (x, s') \<Longrightarrow> heads s' = heads s"
  "heads (snd (krhino_sem_count_set b n s)) = heads s"
  by (auto simp: krhino_sem_create_def sem_create_def krhino_sem_del_def sem_del_body_def sem_give_def krhino_sem_take_def
      krhino_sem_count_set_def Let_def bnd_eq_Inr heads_simps split: option.splits list.splits if_splits dest!: heads_dest)

lemma heads_mutex:
  "heads (snd (krhino_mutex_create b name s)) = heads s" "krhino_mutex_del b s = Inr (r, s') \<Longrightarrow> heads s' = heads s"
  "krhino_mutex_lock b n s = Inr (x, s') \<Longrightarrow> heads s' = heads s" "krhino_mutex_unlock b s = Inr (r, s') \<Longrightarrow> heads s' = heads s"
  by (auto simp: krhino_mutex_create_def mutex_create_def krhino_mutex_del_def mutex_del_body_def krhino_mutex_lock_def
      krhino_mutex_unlock_def list.case_eq_if Let_def bnd_eq_Inr heads_simps split: option.splits if_splits dest!: heads_dest)

lemma heads_event:
  "heads (snd (krhino_event_create b name n s)) = heads s" "krhino_event_del b s = Inr (r, s') \<Longrightarrow> heads s' = heads s"
  "krhino_event_get b fl opt out k s = Inr (x, s') \<Longrightarrow> heads s' = heads s" "krhino_event_set b fl opt s = Inr (r, s') \<Longrightarrow> heads s' = heads s"
proof -
  show "heads (snd (krhino_event_create b name n s)) = heads s" "krhino_event_del b s = Inr (r, s') \<Longrightarrow> heads s' = heads s"
    by (auto simp: krhino_event_create_def event_create_def krhino_event_del_def event_del_body_def
        Let_def bnd_eq_Inr heads_simps split: option.splits if_splits dest!: heads_dest)
  obtain c where c: "(opt \<noteq> RHINO_AND \<and> opt \<noteq> RHINO_OR \<and> opt \<noteq> RHINO_AND_CLEAR \<and> opt \<noteq> RHINO_OR_CLEAR) = c" by blast
  show "krhino_event_get b fl opt out k s = Inr (x, s') \<Longrightarrow> heads s' = heads s"
    unfolding krhino_event_get_def c
    by (auto simp: Let_def bnd_eq_Inr heads_simps split: option.splits if_splits dest!: heads_dest)
  show "krhino_event_set b fl opt s = Inr (r, s') \<Longrightarrow> heads s' = heads s"
    by (auto simp: krhino_event_set_def event_set_def Let_def bnd_eq_Inr heads_simps split: option.splits if_splits dest!: heads_dest)
qed

lemma heads_queue:
  "heads (snd (krhino_queue_create b name start n s)) = heads s" "krhino_queue_del b s = Inr (r, s') \<Longrightarrow> heads s' = heads s"
  "msg_send b m all s = Inr (r, s') \<Longrightarrow> heads s' = heads s" "krhino_queue_recv b k nul s = Inr (x, v, s') \<Longrightarrow> heads s' = heads s"
  "heads (snd (krhino_queue_flush b s)) = heads s"
  by (auto simp: krhino_queue_create_def queue_create_def krhino_queue_del_def queue_del_body_def msg_send_def task_msg_recv_def
      krhino_queue_recv_def krhino_queue_flush_def Let_def bnd_eq_Inr heads_simps split: option.splits list.splits if_splits
      dest!: heads_dest)

lemma heads_bq:
  "heads (snd (krhino_buf_queue_create b name buf n m s)) = heads s" "krhino_buf_queue_del b s = Inr (r, s') \<Longrightarrow> heads s' = heads s"
  "krhino_buf_queue_send b dt n s = Inr (r, s') \<Longrightarrow> heads s' = heads s"
  "krhino_buf_queue_recv b k dst nul s = Inr (x, v, s') \<Longrightarrow> heads s' = heads s" "heads (snd (krhino_buf_queue_flush b s)) = heads s"
  by (auto simp: krhino_buf_queue_create_def buf_queue_create_def krhino_buf_queue_del_def buf_queue_del_body_def
      krhino_buf_queue_send_def buf_queue_send_def krhino_buf_queue_recv_def krhino_buf_queue_flush_def Let_def bnd_eq_Inr heads_simps
      split: option.splits list.splits if_splits prod.splits dest!: heads_dest)

lemma heads_task:
  "krhino_task_sleep n s = Inr (x, s') \<Longrightarrow> heads s' = heads s" "krhino_task_yield s = Inr (r, s') \<Longrightarrow> heads s' = heads s"
  "krhino_task_suspend t s = Inr (r, s') \<Longrightarrow> heads s' = heads s" "krhino_task_resume t s = Inr (r, s') \<Longrightarrow> heads s' = heads s"
  "krhino_task_pri_change t p nul s = Inr (r, v, s') \<Longrightarrow> heads s' = heads s"
  "heads (snd (krhino_task_time_slice_set t k s)) = heads s" "heads (snd (krhino_sched_policy_set t pl s)) = heads s"
  "heads (snd (krhino_task_info_set t i y s)) = heads s"
  by (auto simp: krhino_task_sleep_def krhino_task_yield_def krhino_task_suspend_def task_suspend_def krhino_task_resume_def task_resume_def
      krhino_task_pri_change_def krhino_task_time_slice_set_def krhino_sched_policy_set_def krhino_task_info_set_def Let_def bnd_eq_Inr
      heads_simps split: option.splits if_splits task_stat.splits dest!: heads_dest)

lemma heads_sys:
  "heads (snd (krhino_sched_disable s)) = heads s" "krhino_sched_enable s = Inr (r, s') \<Longrightarrow> heads s' = heads s"
  "krhino_intrpt_enter s = Inr (r, s') \<Longrightarrow> heads s' = heads s" "krhino_intrpt_exit s = Inr s' \<Longrightarrow> heads s' = heads s"
  "krhino_tick_proc s = Inr s' \<Longrightarrow> heads s' = heads s"
  by (auto simp: krhino_sched_disable_def krhino_sched_enable_def krhino_intrpt_enter_def krhino_intrpt_exit_def krhino_tick_proc_def
      tick_list_update_def preferred_cpu_ready_task_get_def Let_def bnd_eq_Inr heads_simps split: if_splits dest!: heads_dest)

text \<open>Creation adds the task at the end, if it adds it; deletion takes it off.\<close>

lemma heads_create:
  "task_create t name p n sb sz nul r fl s = Inr (e, s') \<Longrightarrow> heads s' = heads s \<or> heads s' = heads s @ [the t]"
  by (auto simp: task_create_def Let_def bnd_eq_Inr heads_simps heads_def [of "upd_kobj _ _"]
      split: option.splits if_splits dest!: heads_dest)
    (simp_all add: heads_def upd_task_def)

lemma heads_free: "mutex_free_loop ms s = Inr s' \<Longrightarrow> heads s' = heads s"
proof (induction ms arbitrary: s)
  case (Cons m ms)
  have "heads (s\<lparr>mutexes := x\<rparr>) = heads s" for x s by (simp add: heads_def)
  then show ?case
    using Cons by (auto simp: Let_def bnd_eq_Inr heads_simps split: list.splits dest!: heads_dest)
qed simp

lemma heads_del: "krhino_task_del x s = Inr (r, s') \<Longrightarrow> distinct (heads s) \<Longrightarrow> distinct (heads s')"
proof -
  have st: "heads w = heads s" if "task_del_state t s = Inr (Some w)" for t s w
    using that by (auto simp: task_del_state_def bnd_eq_Inr heads_simps split: task_stat.splits dest!: heads_dest)
  have rm: "heads (task_stats_rm t w) = remove1 t (heads w)" for t w by (simp add: heads_def task_stats_rm_def upd_kobj_def)
  assume "krhino_task_del x s = Inr (r, s')" "distinct (heads s)"
  then show ?thesis
    by (auto simp: krhino_task_del_def bnd_eq_Inr task_mutex_free_def split: if_splits option.splits
        dest!: heads_free st heads_dest simp: rm)
qed

text \<open>The state between calls, together with the list of tasks.\<close>

definition steady :: "kstate \<Rightarrow> bool" where
  "steady s \<longleftrightarrow> safe s \<and> distinct (heads s)"

lemma task_del_safe:
  assumes "steady s" "pred_option (\<lambda>t. t \<in> live s) x"
  shows "ok (krhino_task_del x s) (\<lambda>(r, s'). safe s')"
proof -
  have s: "kernel_inv s" "no_deadlock s" "kinv (live s) s" "distinct (task_head (g_kobj_list s))" "safe s"
    using assms(1) by (auto simp: steady_def safe_def kernel_inv_def struct_inv_def heads_def)
  obtain a where a: "g_active_task s = Some a" "a \<in> live s" using s(5) by (rule safe_active)
  define t where "t = (case x of None \<Rightarrow> a | Some t \<Rightarrow> t)"
  have tl: "t \<in> live s" using assms(2) a(2) by (cases x) (simp_all add: t_def)
  have e: "(case x of None \<Rightarrow> active s | Some t \<Rightarrow> Inr t) = Inr t" using a by (cases x) (simp_all add: t_def active_eq)
  show ?thesis
  proof (cases "g_intrpt_nested_level s > 0 \<or> pri s t = RHINO_IDLE_PRI \<or> t_mm_alloc_flag (tasks s t) \<noteq> K_OBJ_STATIC_ALLOC \<or>
      (Some t = g_active_task s \<and> g_sched_lock s > 0)")
    case True
    then show ?thesis unfolding krhino_task_del_def e using s(5) by auto
  next
    case False
    then have "t \<noteq> g_idle_task" using kinv_D(7) [OF s(3)] by auto
    from task_del_body [OF s(1,2) tl s(4) this, of RHINO_SUCCESS] False obtain s1 s2
      where "task_mutex_free t s = Inr s1" "task_del_state t s1 = Inr (Some s2)"
        "ok (exit_sched RHINO_SUCCESS (task_stats_rm t s2)) (\<lambda>(r, s'). safe s')"
      by (auto simp: word_gt_0 safe_def ok_iff)
    then show ?thesis unfolding krhino_task_del_def e using False by auto
  qed
qed

end
