(* ===== verification/Calls.thy ===== *)
theory Calls
  imports Heads
begin

text \<open>
  All kernel services as the moves of one transition system. A call is made by the active task, or by
  an interrupt handler while the nesting level is positive; the tick and the entry and exit of interrupts
  are moves as well. \<open>allowed\<close> is the discipline the kernel relies on and does not check itself.
\<close>

section \<open>Transition systems with faults\<close>

text \<open>The sequences of permitted moves of a system, and the state they lead to.\<close>

inductive steps :: "('c \<Rightarrow> 's \<Rightarrow> 's outcome) \<Rightarrow> ('c \<Rightarrow> 's \<Rightarrow> bool) \<Rightarrow> 's \<Rightarrow> 'c list \<Rightarrow> 's \<Rightarrow> bool"
  for move :: "'c \<Rightarrow> 's \<Rightarrow> 's outcome" and may :: "'c \<Rightarrow> 's \<Rightarrow> bool" where
  none: "steps move may s [] s"
| more: "may c s \<Longrightarrow> move c s = Inr s' \<Longrightarrow> steps move may s' cs s'' \<Longrightarrow> steps move may s (c # cs) s''"

inductive_simps steps_Nil [simp]: "steps move may s [] s'"
inductive_simps steps_Cons [simp]: "steps move may s (c # cs) s'"

lemma steps_append: "steps move may s (cs @ ds) s'' \<longleftrightarrow> (\<exists>s'. steps move may s cs s' \<and> steps move may s' ds s'')"
  by (induction cs arbitrary: s) auto

text \<open>A state predicate that every permitted move keeps without a fault.\<close>

locale fault_free =
  fixes move :: "'c \<Rightarrow> 's \<Rightarrow> 's outcome" and may :: "'c \<Rightarrow> 's \<Rightarrow> bool" and inv :: "'s \<Rightarrow> bool"
  assumes keeps: "inv s \<Longrightarrow> may c s \<Longrightarrow> ok (move c s) inv"
begin

lemma steps_inv: "steps move may s cs s' \<Longrightarrow> inv s \<Longrightarrow> inv s'"
  by (induction rule: steps.induct) (use keeps in \<open>fastforce simp: ok_iff\<close>)+

lemma steps_progress:
  assumes "steps move may s cs s'" "inv s" "may c s'"
  shows "\<exists>s''. move c s' = Inr s'' \<and> steps move may s (cs @ [c]) s''"
  using keeps [OF steps_inv [OF assms(1,2)] assms(3)] assms by (auto simp: ok_iff steps_append)

end

section \<open>The calls\<close>

datatype (plugins only: code size) call =
    SemCreate "oid option" "string option" "32 word"
  | SemDel "oid option"
  | SemGive "oid option"
  | SemGiveAll "oid option"
  | SemTake "oid option" tick
  | SemCountSet "oid option" "32 word"
  | MutexCreate "oid option" "string option"
  | MutexDel "oid option"
  | MutexLock "oid option" tick
  | MutexUnlock "oid option"
  | EventCreate "oid option" "string option" "32 word"
  | EventDel "oid option"
  | EventGet "oid option" "32 word" "8 word" "nat option" tick
  | EventSet "oid option" "32 word" "8 word"
  | QueueCreate "oid option" "string option" "nat option" nat
  | QueueDel "oid option"
  | QueueBackSend "oid option" nat
  | QueueAllSend "oid option" nat
  | QueueRecv "oid option" tick bool
  | QueueFlush "oid option"
  | BufQueueCreate "oid option" "string option" "nat option" nat nat
  | BufQueueDel "oid option"
  | BufQueueSend "oid option" "byte list option"
  | BufQueueRecv "oid option" tick "nat option" bool
  | BufQueueFlush "oid option"
  | TaskCreate "tid option" "string option" nat tick "nat option" nat bool bool
  | TaskDel "tid option"
  | TaskSleep tick
  | TaskYield
  | TaskSuspend "tid option"
  | TaskResume "tid option"
  | TaskPriChange "tid option" nat bool
  | TaskTimeSliceSet "tid option" "32 word"
  | SchedPolicySet "tid option" "8 word"
  | TaskInfoSet "tid option" nat nat
  | SchedDisable
  | SchedEnable
  | IntrptEnter
  | IntrptExit
  | TickProc

text \<open>The state a call leaves; its results are those of the service.\<close>

definition left :: "('r \<times> kstate) outcome \<Rightarrow> kstate outcome" where
  "left r = bnd r (\<lambda>(e, s). Inr s)"

definition left3 :: "('r \<times> 'x \<times> kstate) outcome \<Rightarrow> kstate outcome" where
  "left3 r = bnd r (\<lambda>(e, x, s). Inr s)"

fun exec :: "call \<Rightarrow> kstate \<Rightarrow> kstate outcome" where
  "exec (SemCreate b name n) s = Inr (snd (krhino_sem_create b name n s))"
| "exec (SemDel b) s = left (krhino_sem_del b s)"
| "exec (SemGive b) s = left (krhino_sem_give b s)"
| "exec (SemGiveAll b) s = left (krhino_sem_give_all b s)"
| "exec (SemTake b n) s = left (krhino_sem_take b n s)"
| "exec (SemCountSet b n) s = Inr (snd (krhino_sem_count_set b n s))"
| "exec (MutexCreate b name) s = Inr (snd (krhino_mutex_create b name s))"
| "exec (MutexDel b) s = left (krhino_mutex_del b s)"
| "exec (MutexLock b n) s = left (krhino_mutex_lock b n s)"
| "exec (MutexUnlock b) s = left (krhino_mutex_unlock b s)"
| "exec (EventCreate b name n) s = Inr (snd (krhino_event_create b name n s))"
| "exec (EventDel b) s = left (krhino_event_del b s)"
| "exec (EventGet b fl opt out n) s = left (krhino_event_get b fl opt out n s)"
| "exec (EventSet b fl opt) s = left (krhino_event_set b fl opt s)"
| "exec (QueueCreate b name start n) s = Inr (snd (krhino_queue_create b name start n s))"
| "exec (QueueDel b) s = left (krhino_queue_del b s)"
| "exec (QueueBackSend b m) s = left (krhino_queue_back_send b m s)"
| "exec (QueueAllSend b m) s = left (krhino_queue_all_send b m s)"
| "exec (QueueRecv b n null) s = left3 (krhino_queue_recv b n null s)"
| "exec (QueueFlush b) s = Inr (snd (krhino_queue_flush b s))"
| "exec (BufQueueCreate b name buf n m) s = Inr (snd (krhino_buf_queue_create b name buf n m s))"
| "exec (BufQueueDel b) s = left (krhino_buf_queue_del b s)"
| "exec (BufQueueSend b data) s =
     left (krhino_buf_queue_send b (map_option (!) data) (case data of None \<Rightarrow> 0 | Some bs \<Rightarrow> length bs) s)"
| "exec (BufQueueRecv b n dst null) s = left3 (krhino_buf_queue_recv b n dst null s)"
| "exec (BufQueueFlush b) s = Inr (snd (krhino_buf_queue_flush b s))"
| "exec (TaskCreate t name p n sb sz null r) s = left (krhino_task_create t name p n sb sz null r s)"
| "exec (TaskDel t) s = left (krhino_task_del t s)"
| "exec (TaskSleep n) s = left (krhino_task_sleep n s)"
| "exec TaskYield s = left (krhino_task_yield s)"
| "exec (TaskSuspend t) s = left (krhino_task_suspend t s)"
| "exec (TaskResume t) s = left (krhino_task_resume t s)"
| "exec (TaskPriChange t p null) s = left3 (krhino_task_pri_change t p null s)"
| "exec (TaskTimeSliceSet t n) s = Inr (snd (krhino_task_time_slice_set t n s))"
| "exec (SchedPolicySet t p) s = Inr (snd (krhino_sched_policy_set t p s))"
| "exec (TaskInfoSet t i x) s = Inr (snd (krhino_task_info_set t i x s))"
| "exec SchedDisable s = Inr (snd (krhino_sched_disable s))"
| "exec SchedEnable s = left (krhino_sched_enable s)"
| "exec IntrptEnter s = left (krhino_intrpt_enter s)"
| "exec IntrptExit s = krhino_intrpt_exit s"
| "exec TickProc s = krhino_tick_proc s"

text \<open>What the callers have to observe. Objects and control blocks are created on memory that is not in
  use; services on tasks are given live ones; waiting is for less than half the range of the tick counter
  or forever, and never done by the idle task; a mutex is not nested beyond its counter, and its owner
  does not wait for the caller, directly or along a chain; interrupts are nested up to the configured level and
  each exit has its entry.\<close>

fun allowed :: "call \<Rightarrow> kstate \<Rightarrow> bool" where
  "allowed (SemCreate b name n) s = pred_option (unused s) b"
| "allowed (MutexCreate b name) s = pred_option (unused s) b"
| "allowed (EventCreate b name n) s = pred_option (unused s) b"
| "allowed (QueueCreate b name start n) s = pred_option (unused s) b"
| "allowed (BufQueueCreate b name buf n m) s = pred_option (unused s) b"
| "allowed (SemTake b n) s = (g_active_task s \<noteq> Some g_idle_task \<and> timeout_ok n)"
| "allowed (MutexLock b n) s = (g_active_task s \<noteq> Some g_idle_task \<and> timeout_ok n \<and>
     (\<forall>x u. b = Some x \<and> own s x = Some u \<longrightarrow>
       (if g_active_task s = Some u then owner_nested (mutexes s x) \<noteq> -1
        else \<forall>a. g_active_task s = Some a \<longrightarrow> (u, a) \<notin> (wait_rel s)\<^sup>*)))"
| "allowed (EventGet b fl opt out n) s = (g_active_task s \<noteq> Some g_idle_task \<and> timeout_ok n)"
| "allowed (QueueRecv b n null) s = (g_active_task s \<noteq> Some g_idle_task \<and> timeout_ok n)"
| "allowed (BufQueueRecv b n dst null) s = (g_active_task s \<noteq> Some g_idle_task \<and> timeout_ok n)"
| "allowed (TaskCreate t name p n sb sz null r) s = (g_sys_stat s = RHINO_RUNNING \<and> pred_option (\<lambda>x. x \<notin> live s) t)"
| "allowed (TaskDel t) s = pred_option (\<lambda>x. x \<in> live s) t"
| "allowed (TaskSleep n) s = (g_active_task s \<noteq> Some g_idle_task \<and> unat n < 2 ^ 63)"
| "allowed TaskYield s = (g_intrpt_nested_level s = 0)"
| "allowed (TaskSuspend t) s = pred_option (\<lambda>x. x \<in> live s) t"
| "allowed (TaskResume t) s = pred_option (\<lambda>x. x \<in> live s) t"
| "allowed (TaskPriChange t p null) s = pred_option (\<lambda>x. x \<in> live s) t"
| "allowed IntrptEnter s = (g_intrpt_nested_level s < RHINO_CONFIG_INTRPT_MAX_NESTED_LEVEL)"
| "allowed IntrptExit s = (g_intrpt_nested_level s > 0)"
| "allowed _ s = True"


section \<open>Every call is safe\<close>

lemma left_ok: "ok (left r) P = ok r (\<lambda>(e, s). P s)" "ok (left3 r') P = ok r' (\<lambda>(e, x, s). P s)"
  by (simp_all add: left_def left3_def ok_bnd case_prod_unfold)

lemma null_calls:
  "krhino_sem_create None name n s = (RHINO_NULL_PTR, s)" "krhino_sem_del None s = Inr (RHINO_NULL_PTR, s)"
  "krhino_sem_give None s = Inr (RHINO_NULL_PTR, s)" "krhino_sem_give_all None s = Inr (RHINO_NULL_PTR, s)"
  "krhino_sem_take None ticks s = Inr (Ret RHINO_NULL_PTR, s)" "krhino_sem_count_set None n s = (RHINO_NULL_PTR, s)"
  "krhino_mutex_create None name s = (RHINO_NULL_PTR, s)" "krhino_mutex_del None s = Inr (RHINO_NULL_PTR, s)"
  "krhino_mutex_lock None ticks s = Inr (Ret RHINO_NULL_PTR, s)" "krhino_mutex_unlock None s = Inr (RHINO_NULL_PTR, s)"
  "krhino_event_create None name n s = (RHINO_NULL_PTR, s)" "krhino_event_del None s = Inr (RHINO_NULL_PTR, s)"
  "krhino_event_get None fl opt out ticks s = Inr (Ret RHINO_NULL_PTR, s)" "krhino_event_set None fl opt s = Inr (RHINO_NULL_PTR, s)"
  "krhino_event_get (Some b) fl opt None ticks s = Inr (Ret RHINO_NULL_PTR, s)"
  "krhino_queue_create None name start m s = (RHINO_NULL_PTR, s)" "krhino_queue_del None s = Inr (RHINO_NULL_PTR, s)"
  "krhino_queue_back_send None m s = Inr (RHINO_NULL_PTR, s)" "krhino_queue_all_send None m s = Inr (RHINO_NULL_PTR, s)"
  "krhino_queue_recv None ticks nul s = Inr (Ret RHINO_NULL_PTR, None, s)"
  "krhino_queue_recv (Some b) ticks True s = Inr (Ret RHINO_NULL_PTR, None, s)" "krhino_queue_flush None s = (RHINO_NULL_PTR, s)"
  "krhino_buf_queue_create None name buf m k s = (RHINO_NULL_PTR, s)" "krhino_buf_queue_del None s = Inr (RHINO_NULL_PTR, s)"
  "krhino_buf_queue_send None dt m s = Inr (RHINO_NULL_PTR, s)" "krhino_buf_queue_send (Some b) None m s = Inr (RHINO_NULL_PTR, s)"
  "krhino_buf_queue_recv None ticks dst nul s = Inr (Ret RHINO_NULL_PTR, None, s)"
  "krhino_buf_queue_recv (Some b) ticks None nul s = Inr (Ret RHINO_NULL_PTR, None, s)"
  "krhino_buf_queue_recv (Some b) ticks (Some d) True s = Inr (Ret RHINO_NULL_PTR, None, s)"
  "krhino_buf_queue_flush None s = (RHINO_NULL_PTR, s)"
  "krhino_task_create None name m ticks sb sz f r s = Inr (RHINO_NULL_PTR, s)"
  "krhino_task_suspend None s = Inr (RHINO_NULL_PTR, s)" "krhino_task_resume None s = Inr (RHINO_NULL_PTR, s)"
  "krhino_task_pri_change None m nul s = Inr (RHINO_NULL_PTR, None, s)"
  "krhino_task_pri_change (Some t) m True s = Inr (RHINO_NULL_PTR, None, s)"
  "krhino_task_time_slice_set None n s = (RHINO_NULL_PTR, s)" "krhino_sched_policy_set None pl s = (RHINO_NULL_PTR, s)"
  "krhino_task_info_set None m k s = (RHINO_NULL_PTR, s)"
  by (simp_all add: krhino_sem_create_def sem_create_def krhino_sem_del_def krhino_sem_give_def krhino_sem_give_all_def
      krhino_sem_take_def krhino_sem_count_set_def krhino_mutex_create_def mutex_create_def krhino_mutex_del_def
      krhino_mutex_lock_def krhino_mutex_unlock_def krhino_event_create_def event_create_def krhino_event_del_def
      krhino_event_get_def krhino_event_set_def krhino_queue_create_def queue_create_def krhino_queue_del_def
      krhino_queue_back_send_def krhino_queue_all_send_def msg_send_def krhino_queue_recv_def krhino_queue_flush_def
      krhino_buf_queue_create_def buf_queue_create_def krhino_buf_queue_del_def krhino_buf_queue_send_def
      krhino_buf_queue_recv_def krhino_buf_queue_flush_def krhino_task_create_def task_create_def krhino_task_suspend_def
      krhino_task_resume_def krhino_task_pri_change_def krhino_task_time_slice_set_def krhino_sched_policy_set_def
      krhino_task_info_set_def)

lemma service_safe:
  assumes "safe s"
  shows "safe (snd (krhino_sem_count_set (Some b) n s))" "safe (snd (krhino_queue_flush (Some b) s))"
    "safe (snd (krhino_buf_queue_flush (Some b) s))" "safe (snd (krhino_task_time_slice_set (Some t) n s))"
    "safe (snd (krhino_sched_policy_set (Some t) pl s))" "safe (snd (krhino_task_info_set (Some t) i x s))"
  using assms safe_same [OF sem_upd_same_sched] safe_same [OF upd_queue_same] safe_bq safe_neutral
  by (auto simp: krhino_sem_count_set_def krhino_queue_flush_def krhino_buf_queue_flush_def krhino_task_time_slice_set_def
      krhino_sched_policy_set_def krhino_task_info_set_def Let_def neutral_def)

lemma lock_allowed_safe:
  assumes "safe s" "allowed (MutexLock (Some b) n) s"
  shows "ok (krhino_mutex_lock (Some b) n s) (\<lambda>(r, s'). safe s')"
proof -
  obtain a where "g_active_task s = Some a" using assms(1) by (rule safe_active)
  then show ?thesis using assms by (intro mutex_lock_safe) auto
qed

lemma send_calls_safe:
  assumes "safe s"
  shows "ok (krhino_sem_give b s) (\<lambda>(e, s). safe s)" "ok (krhino_sem_give_all b s) (\<lambda>(e, s). safe s)"
    "ok (krhino_mutex_unlock b s) (\<lambda>(e, s). safe s)" "ok (krhino_event_set b fl opt s) (\<lambda>(e, s). safe s)"
    "ok (krhino_queue_back_send b m s) (\<lambda>(e, s). safe s)" "ok (krhino_queue_all_send b m s) (\<lambda>(e, s). safe s)"
    "ok (krhino_buf_queue_send b dt n s) (\<lambda>(e, s). safe s)"
  using assms sem_give_safe [OF assms] mutex_unlock_safe [OF assms] event_set_safe [OF assms] queue_send_safe [OF assms]
    buf_queue_send_safe [OF assms]
  by (cases b; cases dt; simp add: krhino_sem_give_def krhino_sem_give_all_def null_calls krhino_queue_back_send_def
      krhino_queue_all_send_def msg_send_def krhino_buf_queue_send_def)+

lemma del_calls_safe:
  assumes "safe s"
  shows "ok (krhino_sem_del b s) (\<lambda>(e, s). safe s)" "ok (krhino_mutex_del b s) (\<lambda>(e, s). safe s)"
    "ok (krhino_event_del b s) (\<lambda>(e, s). safe s)" "ok (krhino_queue_del b s) (\<lambda>(e, s). safe s)"
    "ok (krhino_buf_queue_del b s) (\<lambda>(e, s). safe s)"
  using assms sem_del_safe [OF assms] mutex_del_safe [OF assms] event_del_safe [OF assms] queue_del_safe [OF assms]
    buf_queue_del_safe [OF assms]
  by (cases b; simp add: null_calls)+

lemma create_calls_safe:
  assumes "safe s" "pred_option (unused s) b"
  shows "safe (snd (krhino_sem_create b name n s))" "safe (snd (krhino_mutex_create b name s))"
    "safe (snd (krhino_event_create b name n s))" "safe (snd (krhino_queue_create b name start m s))"
    "safe (snd (krhino_buf_queue_create b name start m k s))"
  using assms sem_create_safe [OF assms(1)] mutex_create_safe [OF assms(1)] event_create_safe [OF assms(1)]
    queue_create_safe [OF assms(1)] buf_queue_create_safe [OF assms(1)]
  by (cases b; simp add: null_calls)+

lemma wait_calls_safe:
  assumes "safe s" "g_active_task s \<noteq> Some g_idle_task" "timeout_ok n"
  shows "ok (krhino_sem_take b n s) (\<lambda>(e, s). safe s)" "ok (krhino_event_get b fl opt out n s) (\<lambda>(e, s). safe s)"
    "ok (krhino_queue_recv b n nul s) (\<lambda>(e, x, s). safe s)" "ok (krhino_buf_queue_recv b n out nul s) (\<lambda>(e, x, s). safe s)"
  using assms(1) sem_take_safe [OF assms] event_get_safe [OF assms] queue_recv_safe [OF assms] buf_queue_recv_safe [OF assms]
  by (cases b; cases out; cases nul; simp add: null_calls)+

lemma task_calls_safe:
  assumes "safe s" "pred_option (\<lambda>t. t \<in> live s) x"
  shows "ok (krhino_task_suspend x s) (\<lambda>(e, s). safe s)" "ok (krhino_task_resume x s) (\<lambda>(e, s). safe s)"
    "ok (krhino_task_pri_change x p nul s) (\<lambda>(e, v, s). safe s)"
  using assms suspend_safe [OF assms(1)] resume_safe [OF assms(1)] pri_change_safe [OF assms(1)]
  by (cases x; cases nul; simp add: null_calls)+

lemma field_calls_safe:
  assumes "safe s"
  shows "safe (snd (krhino_sem_count_set b n s))" "safe (snd (krhino_queue_flush b s))" "safe (snd (krhino_buf_queue_flush b s))"
    "safe (snd (krhino_task_time_slice_set t n s))" "safe (snd (krhino_sched_policy_set t pl s))" "safe (snd (krhino_task_info_set t i x s))"
  using assms service_safe [OF assms] by (cases b; cases t; simp add: null_calls)+

lemma exec_safe:
  assumes s: "steady s" and c: "allowed c s"
  shows "ok (exec c s) safe"
proof (cases c)
  case (MutexLock b n)
  then show ?thesis using s c lock_allowed_safe by (cases b) (simp_all add: left_ok null_calls steady_def del: allowed.simps)
next
  case (TaskCreate t name p n sb sz nul r)
  then show ?thesis using s c task_create_safe by (cases t) (simp_all add: left_ok null_calls steady_def)
next
  case (TaskDel t)
  then show ?thesis using s c task_del_safe by (simp add: left_ok)
qed (use s c in \<open>simp_all add: left_ok steady_def send_calls_safe del_calls_safe create_calls_safe wait_calls_safe task_calls_safe
    field_calls_safe sleep_safe yield_safe sched_disable_safe sched_enable_safe intrpt_enter_safe intrpt_exit_safe tick_safe\<close>)

lemma left_Inr: "left r = Inr s' \<longleftrightarrow> (\<exists>e. r = Inr (e, s'))" "left3 r' = Inr s' \<longleftrightarrow> (\<exists>e x. r' = Inr (e, x, s'))"
  by (auto simp: left_def left3_def bnd_eq_Inr)

lemma exec_heads:
  assumes "exec c s = Inr s'" "allowed c s" "distinct (heads s)"
  shows "distinct (heads s')"
proof (cases c)
  case (TaskCreate t name p n sb sz nul r)
  show ?thesis
  proof (cases t)
    case None
    then show ?thesis using assms TaskCreate by (simp add: left_Inr null_calls)
  next
    case (Some x)
    then have "x \<notin> set (heads s)" using assms(2) TaskCreate by (simp add: live_def heads_def)
    then show ?thesis using assms TaskCreate Some heads_create by (fastforce simp: left_Inr krhino_task_create_def)
  qed
next
  case (TaskDel t)
  then show ?thesis using assms heads_del by (auto simp: left_Inr)
next
  case (SemGive b)
  then show ?thesis using assms heads_sem(3) by (fastforce simp: left_Inr krhino_sem_give_def split: option.splits)
next
  case (SemGiveAll b)
  then show ?thesis using assms heads_sem(3) by (fastforce simp: left_Inr krhino_sem_give_all_def split: option.splits)
qed (use assms in \<open>auto simp: left_Inr heads_sem(1,5) heads_mutex(1) heads_event(1) heads_queue(1,5) heads_bq(1,5) heads_task(6-8)
    heads_sys(1) krhino_queue_back_send_def krhino_queue_all_send_def dest!: heads_sem(2-4) heads_mutex(2-4) heads_event(2-4)
    heads_queue(2-4) heads_bq(2-4) heads_task(1-5) heads_sys(2-5)\<close>)

interpretation kernel: fault_free exec allowed steady
proof
  fix s c assume "steady s" "allowed c s"
  from exec_safe [OF this] show "ok (exec c s) steady"
    using exec_heads \<open>steady s\<close> \<open>allowed c s\<close> by (auto simp: steady_def ok_iff)
qed

lemma steadyI: "kernel_inv s \<Longrightarrow> no_deadlock s \<Longrightarrow> distinct (task_head (g_kobj_list s)) \<Longrightarrow> steady s"
  by (simp add: steady_def safe_def heads_def)

lemma steadyD: "steady s \<Longrightarrow> kernel_inv s \<and> no_deadlock s \<and> distinct (task_head (g_kobj_list s))"
  by (simp add: steady_def safe_def heads_def)

text \<open>
  C3. No fault, ever: from a state in which the kernel invariant holds, no tasks wait for each other in a
  circle and no task is on the list of tasks twice, any sequence of service calls, interrupts and ticks that respects
  \<open>allowed\<close> leads to such a state again, and every further allowed move returns: no fatal error, no
  access outside the kernel's tables or through a null pointer, no endless loop.
\<close>

theorem kernel_fault_free:
  assumes "kernel_inv s" "no_deadlock s" "distinct (task_head (g_kobj_list s))" "steps exec allowed s cs s'"
  shows "kernel_inv s' \<and> no_deadlock s' \<and> distinct (task_head (g_kobj_list s')) \<and>
    (\<forall>c. allowed c s' \<longrightarrow> (\<exists>s''. exec c s' = Inr s'' \<and> kernel_inv s'' \<and> no_deadlock s'' \<and> distinct (task_head (g_kobj_list s''))))"
proof -
  have "steady s'" using kernel.steps_inv [OF assms(4)] steadyI [OF assms(1-3)] by blast
  then show ?thesis using kernel.keeps [of s'] steadyD by (auto simp: ok_iff)
qed

theorem kernel_fault_free_witness:
  "\<exists>s'. steps exec allowed ex_state [MutexUnlock (Some 9), TickProc, EventSet (Some 13) 1 RHINO_OR] s' \<and> kernel_inv s' \<and> no_deadlock s'"
proof -
  have "\<exists>s''. exec c s = Inr s'' \<and> kernel_inv s'' \<and> no_deadlock s'' \<and> distinct (task_head (g_kobj_list s''))"
    if "kernel_inv s" "no_deadlock s" "distinct (task_head (g_kobj_list s))" "allowed c s" for c s
    using kernel_fault_free [OF that(1-3) steps.none] that(4) by blast
  moreover have "distinct (task_head (g_kobj_list ex_state))" by (simp add: ex_state_def)
  ultimately obtain s1 s2 s3 where "exec (MutexUnlock (Some 9)) ex_state = Inr s1" "exec TickProc s1 = Inr s2"
    "exec (EventSet (Some 13) 1 RHINO_OR) s2 = Inr s3" "kernel_inv s3" "no_deadlock s3"
    using ex_kernel_inv ex_no_deadlock allowed.simps by metis
  then show ?thesis by (intro exI [of _ s3]) (simp del: exec.simps)
qed

end
