(* ===== verification/MmBlk.thy ===== *)
theory MmBlk
  imports Prelude
begin

unbundle bit_operations_syntax

text \<open>
  The fixed-size block pool of \<^verbatim>\<open>k_mm_blk.c\<close>. Addresses and sizes are 32-bit words, NULL is 0,
  and \<open>pmem\<close> gives the pointer stored in the first word of a block. The free blocks are
  chained through these words. The theorems: initialisation cuts the pool into
  \<open>pool_size div blk_size\<close> disjoint blocks, allocation hands out the head of the chain and
  free puts a block back, and a client that frees only what it owns never gets the same block
  twice.
\<close>

section \<open>Definitions\<close>

type_synonym pmem = "32 word \<Rightarrow> 32 word"

record mblk_pool =
  pool_name :: "string option"
  blk_whole :: "32 word"
  blk_avail :: "32 word"
  blk_size :: "32 word"
  avail_list :: "32 word"
  pool_obj_type :: kobj_type

text \<open>The loop of \<open>krhino_mblk_pool_init\<close>; it returns the block count, the last block
  visited and the address behind it.\<close>

fun pool_link :: "nat \<Rightarrow> pmem \<Rightarrow> 32 word \<Rightarrow> 32 word \<Rightarrow> 32 word \<Rightarrow> 32 word
    \<Rightarrow> (32 word \<times> pmem \<times> 32 word \<times> 32 word) outcome" where
  "pool_link fuel pm bs pool_end blks blk_cur =
     (let blk_next = blk_cur + bs in
      if blk_next < pool_end
      then (case fuel of
              0 \<Rightarrow> Inl Diverge
            | Suc fuel' \<Rightarrow> pool_link fuel' (pm(blk_cur := blk_next)) bs pool_end (blks + 1) blk_next)
      else Inr (blks, pm, blk_cur, blk_next))"

definition addr_align_mask :: "32 word" where
  "addr_align_mask = 3"

text \<open>\<open>mblkpool_head\<close> is the list of pools in \<open>g_kobj_list\<close>, \<open>self\<close> the entry of this pool.\<close>

definition krhino_mblk_pool_init ::
  "pmem \<Rightarrow> nat list \<Rightarrow> nat \<Rightarrow> mblk_pool option \<Rightarrow> string option \<Rightarrow> 32 word \<Rightarrow> 32 word \<Rightarrow> 32 word
    \<Rightarrow> (kstat \<times> pmem \<times> nat list \<times> mblk_pool option) outcome" where
  "krhino_mblk_pool_init pm mblkpool_head self pool name pool_start bs pool_size =
     (if pool = None \<or> name = None \<or> pool_start = 0
      then Inr (RHINO_NULL_PTR, pm, mblkpool_head, pool)
      else if pool_size < push_bit 1 bs
      then Inr (RHINO_BLK_POOL_SIZE_ERR, pm, mblkpool_head, pool)
      else if pool_start AND addr_align_mask > 0 then Inr (RHINO_INV_ALIGN, pm, mblkpool_head, pool)
      else if bs AND addr_align_mask > 0 then Inr (RHINO_INV_ALIGN, pm, mblkpool_head, pool)
      else if pool_size AND addr_align_mask > 0 then Inr (RHINO_INV_ALIGN, pm, mblkpool_head, pool)
      else bnd (pool_link (unat pool_size) pm bs (pool_start + pool_size) 0 pool_start)
        (\<lambda>(blks, pm, blk_cur, blk_next).
          let blks = (if blk_next = pool_start + pool_size then blks + 1 else blks)
          in Inr (RHINO_SUCCESS, pm(blk_cur := 0), mblkpool_head @ [self],
                  Some \<lparr>pool_name = name, blk_whole = blks, blk_avail = blks, blk_size = bs,
                        avail_list = pool_start, pool_obj_type = RHINO_MM_BLK_OBJ_TYPE\<rparr>)))"

text \<open>The second component is what is stored at \<open>*blk\<close>; it is \<open>None\<close> where the code leaves
  it as it was.\<close>

definition krhino_mblk_alloc ::
  "pmem \<Rightarrow> mblk_pool option \<Rightarrow> bool \<Rightarrow> kstat \<times> 32 word option \<times> mblk_pool option" where
  "krhino_mblk_alloc pm pool blk_null =
     (case pool of
        None \<Rightarrow> (RHINO_NULL_PTR, None, None)
      | Some p \<Rightarrow>
          if blk_null then (RHINO_NULL_PTR, None, pool)
          else if pool_obj_type p \<noteq> RHINO_MM_BLK_OBJ_TYPE then (RHINO_KOBJ_TYPE_ERR, None, pool)
          else if blk_avail p > 0
          then (RHINO_SUCCESS, Some (avail_list p),
                Some (p\<lparr>avail_list := pm (avail_list p), blk_avail := blk_avail p - 1\<rparr>))
          else (RHINO_NO_MEM, Some 0, pool))"

definition krhino_mblk_free ::
  "pmem \<Rightarrow> mblk_pool option \<Rightarrow> 32 word \<Rightarrow> kstat \<times> pmem \<times> mblk_pool option" where
  "krhino_mblk_free pm pool blk =
     (case pool of
        None \<Rightarrow> (RHINO_NULL_PTR, pm, None)
      | Some p \<Rightarrow>
          if blk = 0 then (RHINO_NULL_PTR, pm, pool)
          else if pool_obj_type p \<noteq> RHINO_MM_BLK_OBJ_TYPE then (RHINO_KOBJ_TYPE_ERR, pm, pool)
          else (RHINO_SUCCESS, pm(blk := avail_list p),
                Some (p\<lparr>avail_list := blk, blk_avail := blk_avail p + 1\<rparr>)))"

declare pool_link.simps [simp del]

section \<open>The chain of free blocks\<close>

fun chain :: "pmem \<Rightarrow> 32 word \<Rightarrow> 32 word list \<Rightarrow> bool" where
  "chain pm p [] \<longleftrightarrow> p = 0"
| "chain pm p (b # bs) \<longleftrightarrow> p = b \<and> b \<noteq> 0 \<and> chain pm (pm b) bs"

lemma chain_upd [simp]: "x \<notin> set bs \<Longrightarrow> chain (pm(x := v)) p bs = chain pm p bs"
  by (induction bs arbitrary: p) auto

definition block_addrs :: "32 word \<Rightarrow> 32 word \<Rightarrow> nat \<Rightarrow> 32 word list" where
  "block_addrs start bs n = map (\<lambda>i. start + of_nat i * bs) [0..<n]"

lemma block_addrs_Suc: "block_addrs start bs (Suc n) = start # block_addrs (start + bs) bs n"
  unfolding block_addrs_def
  by (simp add: upt_conv_Cons map_Suc_upt [symmetric] algebra_simps del: upt_Suc)

lemma unat_add_lt: "unat x + unat y < 2 ^ 32 \<Longrightarrow> unat (x + y :: 32 word) = unat x + unat y"
  using unat_word_ariths(1) [of x y] by simp

lemma unat_block_addr:
  assumes "unat start + n * unat bs < 2 ^ 32"
  shows "unat (start + of_nat n * bs :: 32 word) = unat start + n * unat bs"
proof -
  have "n * unat bs < 2 ^ 32" using assms by simp
  moreover have "unat (of_nat n * bs :: 32 word) = n * unat bs mod 2 ^ 32"
    by (simp add: unat_word_ariths unat_of_nat mod_mult_left_eq)
  ultimately have "unat (of_nat n * bs :: 32 word) = n * unat bs" by simp
  then show ?thesis
    using assms by (simp add: unat_add_lt)
qed

lemma block_addrs_above:
  assumes "unat cur + n * unat bs < 2 ^ 32" "x \<in> set (block_addrs cur bs n)"
  shows "unat cur \<le> unat x"
proof -
  obtain i where i: "i < n" "x = cur + of_nat i * bs"
    using assms(2) by (auto simp: block_addrs_def)
  have "unat cur + i * unat bs < 2 ^ 32"
    using i(1) assms(1) by (meson le_less_trans less_imp_le mult_le_mono1 add_left_mono)
  then show ?thesis
    using i unat_block_addr by simp
qed

lemma distinct_block_addrs:
  assumes "unat cur + n * unat bs < 2 ^ 32" "0 < unat bs"
  shows "distinct (block_addrs cur bs n)"
proof -
  have "inj_on (\<lambda>i. cur + of_nat i * bs) {0..<n}"
  proof (rule inj_onI)
    fix i j assume a: "i \<in> {0..<n}" "j \<in> {0..<n}" "cur + of_nat i * bs = cur + of_nat j * bs"
    have lt: "unat cur + k * unat bs < 2 ^ 32" if "k < n" for k
      using that assms(1) by (meson le_less_trans less_imp_le mult_le_mono1 add_left_mono)
    have "unat cur + i * unat bs = unat (cur + of_nat i * bs)"
      using a(1) by (intro unat_block_addr [symmetric] lt) simp
    also have "\<dots> = unat cur + j * unat bs"
      unfolding a(3) using a(2) by (intro unat_block_addr lt) simp
    finally show "i = j"
      using assms(2) by simp
  qed
  then show ?thesis
    by (simp add: block_addrs_def distinct_map)
qed

text \<open>With \<open>J\<close> the number of blocks below the end minus one, the loop makes \<open>J\<close> rounds and
  links the \<open>J + 1\<close> blocks.\<close>

lemma pool_link_ok:
  assumes "0 < unat bs" "cur \<noteq> 0" "unat cur + J * unat bs < unat pend"
    "unat pend \<le> unat cur + Suc J * unat bs" "unat cur + Suc J * unat bs < 2 ^ 32" "J \<le> fuel"
  shows "\<exists>pm'. pool_link fuel pm bs pend blks cur =
      Inr (blks + of_nat J, pm', cur + of_nat J * bs, cur + of_nat J * bs + bs) \<and>
    chain (pm'(cur + of_nat J * bs := 0)) cur (block_addrs cur bs (Suc J)) \<and>
    (\<forall>x. x \<notin> set (block_addrs cur bs (Suc J)) \<longrightarrow> pm' x = pm x)"
  using assms
proof (induction J arbitrary: cur pm blks fuel)
  case 0
  then have "unat (cur + bs) = unat cur + unat bs"
    by (intro unat_add_lt) simp
  then show ?case
    using 0 by (subst pool_link.simps) (simp add: block_addrs_def word_less_nat_alt)
next
  case (Suc J)
  obtain fuel' where f: "fuel = Suc fuel'"
    using Suc.prems(6) by (cases fuel) auto
  have u: "unat (cur + bs) = unat cur + unat bs"
    using Suc.prems(5) by (intro unat_add_lt) simp
  have step: "pool_link fuel pm bs pend blks cur
      = pool_link fuel' (pm(cur := cur + bs)) bs pend (blks + 1) (cur + bs)"
    using Suc.prems(3) u by (subst pool_link.simps) (simp add: Let_def f word_less_nat_alt)
  have nz: "cur + bs \<noteq> 0"
    using u Suc.prems(1) by (metis add_is_0 less_not_refl unat_0)
  have "\<exists>pm'. pool_link fuel' (pm(cur := cur + bs)) bs pend (blks + 1) (cur + bs) =
      Inr (blks + 1 + of_nat J, pm', cur + bs + of_nat J * bs, cur + bs + of_nat J * bs + bs) \<and>
    chain (pm'(cur + bs + of_nat J * bs := 0)) (cur + bs) (block_addrs (cur + bs) bs (Suc J)) \<and>
    (\<forall>x. x \<notin> set (block_addrs (cur + bs) bs (Suc J)) \<longrightarrow> pm' x = (pm(cur := cur + bs)) x)"
    by (rule Suc.IH) (use Suc.prems u f nz in simp_all)
  then obtain pm' where IH: "pool_link fuel' (pm(cur := cur + bs)) bs pend (blks + 1) (cur + bs) =
      Inr (blks + 1 + of_nat J, pm', cur + bs + of_nat J * bs, cur + bs + of_nat J * bs + bs)"
    "chain (pm'(cur + bs + of_nat J * bs := 0)) (cur + bs) (block_addrs (cur + bs) bs (Suc J))"
    "\<forall>x. x \<notin> set (block_addrs (cur + bs) bs (Suc J)) \<longrightarrow> pm' x = (pm(cur := cur + bs)) x"
    by blast
  have "unat (cur + bs) + Suc J * unat bs < 2 ^ 32"
    using u Suc.prems(5) by simp
  then have "cur \<notin> set (block_addrs (cur + bs) bs (Suc J))"
    using block_addrs_above [of "cur + bs" "Suc J" bs cur] u Suc.prems(1) by fastforce
  then have at: "pm' cur = cur + bs"
    using IH(3) by simp
  have l: "cur + bs + of_nat J * bs = cur + of_nat (Suc J) * bs"
    by (simp add: algebra_simps)
  have "unat cur < unat (cur + of_nat (Suc J) * bs)"
    using unat_block_addr [of cur "Suc J" bs] Suc.prems(1,5) by simp
  then have ne: "cur \<noteq> cur + of_nat (Suc J) * bs"
    by (metis less_irrefl)
  have "chain (pm'(cur + of_nat (Suc J) * bs := 0)) cur (block_addrs cur bs (Suc (Suc J)))"
    using IH(2) at ne Suc.prems(2) unfolding l by (subst block_addrs_Suc) simp
  moreover have "pool_link fuel pm bs pend blks cur = Inr (blks + of_nat (Suc J), pm',
      cur + of_nat (Suc J) * bs, cur + of_nat (Suc J) * bs + bs)"
    using step IH(1) unfolding l by (simp add: add.assoc)
  moreover have "\<forall>x. x \<notin> set (block_addrs cur bs (Suc (Suc J))) \<longrightarrow> pm' x = pm x"
    using IH(3) by (subst block_addrs_Suc) auto
  ultimately show ?case
    by blast
qed

section \<open>The contract of a block allocator\<close>

datatype pool_op = Alloc | Free nat

text \<open>A client that frees only blocks it owns (the \<open>i\<close>-th of those it holds).\<close>

fun pool_run :: "('s \<Rightarrow> 'b option \<times> 's) \<Rightarrow> ('s \<Rightarrow> 'b \<Rightarrow> 's) \<Rightarrow> 's \<Rightarrow> 'b list \<Rightarrow> pool_op list
    \<Rightarrow> 's \<times> 'b list" where
  "pool_run alloc free s own [] = (s, own)"
| "pool_run alloc free s own (Alloc # ops) =
     (case alloc s of
        (None, s') \<Rightarrow> pool_run alloc free s' own ops
      | (Some b, s') \<Rightarrow> pool_run alloc free s' (own @ [b]) ops)"
| "pool_run alloc free s own (Free i # ops) =
     (if i < length own
      then pool_run alloc free (free s (own ! i)) (take i own @ drop (Suc i) own) ops
      else pool_run alloc free s own ops)"

locale block_pool =
  fixes U :: "'b set" and rep :: "'s \<Rightarrow> 'b set \<Rightarrow> bool"
    and alloc :: "'s \<Rightarrow> 'b option \<times> 's" and free :: "'s \<Rightarrow> 'b \<Rightarrow> 's"
  assumes alloc_some: "rep s F \<Longrightarrow> alloc s = (Some b, s') \<Longrightarrow> b \<in> F \<and> rep s' (F - {b})"
    and alloc_none: "rep s F \<Longrightarrow> alloc s = (None, s') \<Longrightarrow> F = {} \<and> rep s' {}"
    and free_block: "rep s F \<Longrightarrow> b \<in> U \<Longrightarrow> b \<notin> F \<Longrightarrow> rep (free s b) (insert b F)"
begin

lemma remove_nth_set:
  assumes "distinct own" "i < length own"
  shows "distinct (take i own @ drop (Suc i) own)"
    "set (take i own @ drop (Suc i) own) = set own - {own ! i}"
proof -
  have "own = take i own @ own ! i # drop (Suc i) own"
    using assms(2) by (rule id_take_nth_drop)
  then have d: "distinct (take i own @ own ! i # drop (Suc i) own)"
    and s: "set own = set (take i own @ own ! i # drop (Suc i) own)"
    using assms(1) by metis+
  show "distinct (take i own @ drop (Suc i) own)"
    using d by simp
  show "set (take i own @ drop (Suc i) own) = set own - {own ! i}"
    unfolding s using d by auto
qed

lemma run_disjoint:
  assumes "rep s F" "distinct own" "set own \<inter> F = {}" "set own \<union> F = U"
    and "pool_run alloc free s own ops = (s', own')"
  shows "\<exists>F'. rep s' F' \<and> distinct own' \<and> set own' \<inter> F' = {} \<and> set own' \<union> F' = U"
  using assms
proof (induction ops arbitrary: s F own)
  case (Cons op ops)
  show ?case
  proof (cases op)
    case Alloc
    obtain r s1 where a: "alloc s = (r, s1)" by fastforce
    show ?thesis
    proof (cases r)
      case None
      then show ?thesis
        using Cons.IH [of s1 "{}" own] Cons.prems alloc_none [of s F s1] Alloc a by auto
    next
      case (Some b)
      then have "b \<in> F" "rep s1 (F - {b})"
        using alloc_some [of s F b s1] Cons.prems(1) a by auto
      then show ?thesis
        using Cons.IH [of s1 "F - {b}" "own @ [b]"] Cons.prems Alloc a Some by auto
    qed
  next
    case (Free i)
    show ?thesis
    proof (cases "i < length own")
      case True
      have "own ! i \<in> U" "own ! i \<notin> F" "own ! i \<in> set own"
        using nth_mem [OF True] Cons.prems(3,4) by auto
      then show ?thesis
        using Cons.IH [OF free_block [of s F "own ! i"], of "take i own @ drop (Suc i) own"]
          remove_nth_set [OF Cons.prems(2) True] Cons.prems Free True by auto
    qed (use Cons Free in auto)
  qed
qed auto

end

section \<open>The pool as a set of free blocks\<close>

text \<open>Of the blocks \<open>U\<close> of the pool, those in \<open>F\<close> are free: they head the chain, and their
  number is \<open>blk_avail\<close>. A partial block left over at the end of the pool stays behind them.\<close>

definition pool_rep :: "32 word set \<Rightarrow> pmem \<times> mblk_pool \<Rightarrow> 32 word set \<Rightarrow> bool" where
  "pool_rep U st F \<longleftrightarrow> pool_obj_type (snd st) = RHINO_MM_BLK_OBJ_TYPE \<and> F \<subseteq> U \<and> 0 \<notin> U \<and>
     (\<exists>bl rest. set bl = F \<and> chain (fst st) (avail_list (snd st)) (bl @ rest) \<and>
        distinct (bl @ rest) \<and> set rest \<inter> U = {} \<and> unat (blk_avail (snd st)) = length bl)"

lemma pool_repI:
  assumes "chain pm (avail_list p) (bl @ rest)" "distinct (bl @ rest)" "set rest \<inter> U = {}"
    "unat (blk_avail p) = length bl" "pool_obj_type p = RHINO_MM_BLK_OBJ_TYPE" "set bl \<subseteq> U" "0 \<notin> U"
  shows "pool_rep U (pm, p) (set bl)"
  using assms unfolding pool_rep_def by auto

definition pool_alloc :: "pmem \<times> mblk_pool \<Rightarrow> 32 word option \<times> pmem \<times> mblk_pool" where
  "pool_alloc st = (case krhino_mblk_alloc (fst st) (Some (snd st)) False of
     (err, b, p) \<Rightarrow> (if err = RHINO_SUCCESS then b else None, fst st, the p))"

definition pool_free :: "pmem \<times> mblk_pool \<Rightarrow> 32 word \<Rightarrow> pmem \<times> mblk_pool" where
  "pool_free st b = (case krhino_mblk_free (fst st) (Some (snd st)) b of
     (err, pm, p) \<Rightarrow> (pm, the p))"

lemma mblk_alloc_rep:
  assumes "pool_rep U (pm, p) F"
  shows "if F = {} then krhino_mblk_alloc pm (Some p) False = (RHINO_NO_MEM, Some 0, Some p)
    else \<exists>b p'. b \<in> F \<and> krhino_mblk_alloc pm (Some p) False = (RHINO_SUCCESS, Some b, Some p') \<and>
           pool_rep U (pm, p') (F - {b})"
proof -
  obtain bl rest where r: "set bl = F" "chain pm (avail_list p) (bl @ rest)" "distinct (bl @ rest)"
    "set rest \<inter> U = {}" "unat (blk_avail p) = length bl"
    and t: "pool_obj_type p = RHINO_MM_BLK_OBJ_TYPE" "F \<subseteq> U" "0 \<notin> U"
    using assms by (auto simp: pool_rep_def)
  show ?thesis
  proof (cases bl)
    case Nil
    then show ?thesis
      using r t by (auto simp: krhino_mblk_alloc_def unat_eq_zero)
  next
    case (Cons b bl')
    then have n: "unat (blk_avail p) = Suc (length bl')" "blk_avail p \<noteq> 0"
      using r by auto
    then have "unat (blk_avail p - 1) = length bl'"
      by (simp add: unat_minus_one)
    then have "pool_rep U (pm, p\<lparr>avail_list := pm (avail_list p), blk_avail := blk_avail p - 1\<rparr>) (F - {b})"
      using pool_repI [of pm _ bl' rest U] r t Cons by auto
    then show ?thesis
      using r t Cons n(2) by (auto simp: krhino_mblk_alloc_def word_gt_0)
  qed
qed

lemma mblk_free_rep:
  assumes "pool_rep U (pm, p) F" "b \<in> U" "b \<notin> F"
  shows "\<exists>pm' p'. krhino_mblk_free pm (Some p) b = (RHINO_SUCCESS, pm', Some p') \<and>
    pool_rep U (pm', p') (insert b F)"
proof -
  obtain bl rest where r: "set bl = F" "chain pm (avail_list p) (bl @ rest)" "distinct (bl @ rest)"
    "set rest \<inter> U = {}" "unat (blk_avail p) = length bl"
    and t: "pool_obj_type p = RHINO_MM_BLK_OBJ_TYPE" "F \<subseteq> U" "0 \<notin> U"
    using assms by (auto simp: pool_rep_def)
  have b: "b \<noteq> 0" "b \<notin> set (bl @ rest)"
    using assms(2,3) r t by auto
  have "card (insert b F) \<le> card (UNIV - {0 :: 32 word})"
    using assms t by (intro card_mono) auto
  then have "Suc (length bl) < 2 ^ 32"
    using r(1,3) b(2) distinct_card [of "b # bl"] by (simp add: card_Diff_singleton card_word)
  then have "unat (blk_avail p + 1) = Suc (length bl)"
    using unat_add_lt [of "blk_avail p" 1] r(5) by simp
  then have "pool_rep U (pm(b := avail_list p), p\<lparr>avail_list := b, blk_avail := blk_avail p + 1\<rparr>) (insert b F)"
    using pool_repI [of "pm(b := avail_list p)" _ "b # bl" rest U] r t b assms(2) by auto
  then show ?thesis
    using t b by (simp add: krhino_mblk_free_def)
qed

interpretation mblk: block_pool U "pool_rep U" pool_alloc pool_free for U
proof
  fix s s' :: "pmem \<times> mblk_pool" and F and b
  obtain pm p where s: "s = (pm, p)" by fastforce
  show "b \<in> F \<and> pool_rep U s' (F - {b})" if "pool_rep U s F" "pool_alloc s = (Some b, s')"
    using that mblk_alloc_rep [of U pm p F] s by (auto simp: pool_alloc_def split: if_splits)
  show "F = {} \<and> pool_rep U s' {}" if "pool_rep U s F" "pool_alloc s = (None, s')"
    using that mblk_alloc_rep [of U pm p F] s by (auto simp: pool_alloc_def split: if_splits)
  show "pool_rep U (pool_free s b) (insert b F)" if "pool_rep U s F" "b \<in> U" "b \<notin> F"
    using mblk_free_rep [of U pm p F b] that s by (auto simp: pool_free_def)
qed

section \<open>Initialisation\<close>

lemma pool_init_rounds:
  fixes start bs psize :: nat
  assumes "0 < bs" "bs \<le> psize"
  defines "J \<equiv> (psize - 1) div bs"
  shows "J * bs < psize" "psize \<le> Suc J * bs" "J < psize"
    "psize div bs = (if Suc J * bs = psize then Suc J else J)"
proof -
  have a: "psize - 1 = J * bs + (psize - 1) mod bs" "(psize - 1) mod bs < bs"
    using assms(1) by (simp_all add: J_def)
  show 1: "J * bs < psize"
    using a assms(1,2) by linarith
  show 2: "psize \<le> Suc J * bs"
    using a assms(1,2) unfolding mult_Suc by linarith
  show "psize div bs = (if Suc J * bs = psize then Suc J else J)"
    using 1 2 assms(1) by (auto intro!: div_nat_eqI simp: mult.commute)
  show "J < psize"
    using 1 assms(1) by (metis le_less_trans less_eq_Suc_le mult.right_neutral mult_le_mono2 One_nat_def)
qed

text \<open>A pool the initialisation accepts: aligned, room for two blocks, and no wrap-around of the
  address space at its end.\<close>

definition pool_params :: "32 word \<Rightarrow> 32 word \<Rightarrow> 32 word \<Rightarrow> bool" where
  "pool_params start bs psize \<longleftrightarrow> start \<noteq> 0 \<and> 0 < bs \<and> 2 * unat bs \<le> unat psize \<and>
     start AND 3 = 0 \<and> bs AND 3 = 0 \<and> psize AND 3 = 0 \<and>
     unat start + unat psize + unat bs < 2 ^ 32"

text \<open>The chain then goes through all blocks, and through the partial one behind them if there is one.\<close>

lemma mblk_pool_init_chain:
  assumes "pool_params start bs psize"
  obtains pm' p' rest where
    "krhino_mblk_pool_init pm head self (Some p) (Some name) start bs psize = Inr (RHINO_SUCCESS, pm', head @ [self], Some p')"
    "unat (blk_whole p') = unat psize div unat bs" "unat (blk_avail p') = unat psize div unat bs"
    "pool_obj_type p' = RHINO_MM_BLK_OBJ_TYPE"
    "chain pm' (avail_list p') (block_addrs start bs (unat psize div unat bs) @ rest)"
    "distinct (block_addrs start bs (unat psize div unat bs) @ rest)"
    "0 \<notin> set (block_addrs start bs (unat psize div unat bs) @ rest)"
    "\<forall>x. x \<notin> set (block_addrs start bs (unat psize div unat bs) @ rest) \<longrightarrow> pm' x = pm x"
    "unat psize mod unat bs = 0 \<longrightarrow> rest = []"
proof -
  define n where "n = unat psize div unat bs"
  define J where "J = (unat psize - 1) div unat bs"
  have b: "0 < unat bs" "start \<noteq> 0" "unat start + unat psize + unat bs < 2 ^ 32" "unat bs \<le> unat psize"
    using assms by (auto simp: pool_params_def word_less_nat_alt)
  note J = pool_init_rounds [OF b(1,4), folded J_def n_def]
  have e: "unat (start + psize) = unat start + unat psize"
    using b(3) by (intro unat_add_lt) simp
  have lim: "unat start + Suc J * unat bs < 2 ^ 32"
    using J(1) b(3) by simp
  have "\<exists>pm'. pool_link (unat psize) pm bs (start + psize) 0 start =
      Inr (0 + of_nat J, pm', start + of_nat J * bs, start + of_nat J * bs + bs) \<and>
    chain (pm'(start + of_nat J * bs := 0)) start (block_addrs start bs (Suc J)) \<and>
    (\<forall>x. x \<notin> set (block_addrs start bs (Suc J)) \<longrightarrow> pm' x = pm x)"
    by (rule pool_link_ok) (use b e J lim in simp_all)
  then obtain pm' where l: "pool_link (unat psize) pm bs (start + psize) 0 start =
      Inr (of_nat J, pm', start + of_nat J * bs, start + of_nat J * bs + bs)"
    and c: "chain (pm'(start + of_nat J * bs := 0)) start (block_addrs start bs (Suc J))"
    and fr: "\<forall>x. x \<notin> set (block_addrs start bs (Suc J)) \<longrightarrow> pm' x = pm x"
    by auto
  have nx: "start + of_nat J * bs + bs = start + of_nat (Suc J) * bs"
    by (simp add: algebra_simps)
  have "unat (start + of_nat (Suc J) * bs) = unat start + Suc J * unat bs"
    using lim by (rule unat_block_addr)
  then have end_iff: "start + of_nat (Suc J) * bs = start + psize \<longleftrightarrow> Suc J * unat bs = unat psize"
    using e by (metis add_left_imp_eq word_unat_eq_iff)
  let ?blks = "if start + of_nat J * bs + bs = start + psize then of_nat J + 1 else of_nat J :: 32 word"
  have blks: "?blks = of_nat n"
    unfolding nx end_iff J(4) by simp
  have "n < 2 ^ 32"
    using J(3) J(4) b(3) by (simp split: if_splits)
  then have un: "unat (of_nat n :: 32 word) = n"
    by (simp add: unat_of_nat)
  let ?p = "\<lparr>pool_name = Some name, blk_whole = of_nat n, blk_avail = of_nat n, blk_size = bs,
      avail_list = start, pool_obj_type = RHINO_MM_BLK_OBJ_TYPE\<rparr>"
  have shift: "\<not> psize < push_bit 1 bs"
    using assms b by (simp add: pool_params_def word_less_nat_alt push_bit_eq_mult unat_word_ariths)
  have init: "krhino_mblk_pool_init pm head self (Some p) (Some name) start bs psize =
      Inr (RHINO_SUCCESS, pm'(start + of_nat J * bs := 0), head @ [self], Some ?p)"
    using assms b shift l blks
    by (simp add: krhino_mblk_pool_init_def pool_params_def addr_align_mask_def Let_def)
  define rest where "rest = (if Suc J * unat bs = unat psize then [] else [start + of_nat J * bs])"
  have all: "block_addrs start bs (Suc J) = block_addrs start bs n @ rest"
    unfolding rest_def J(4) by (simp add: block_addrs_def)
  have d: "distinct (block_addrs start bs n @ rest)"
    unfolding all [symmetric] using lim b(1) by (rule distinct_block_addrs)
  have nz: "0 \<notin> set (block_addrs start bs n @ rest)"
    unfolding all [symmetric] using block_addrs_above [OF lim, of 0] b(2)
    by (metis le_zero_eq unat_0 unat_eq_zero)
  have "start + of_nat J * bs \<in> set (block_addrs start bs (Suc J))"
    by (auto simp: block_addrs_def)
  then have "\<forall>x. x \<notin> set (block_addrs start bs n @ rest) \<longrightarrow> (pm'(start + of_nat J * bs := 0)) x = pm x"
    using fr unfolding all [symmetric] by auto
  moreover have "rest = []" if "unat psize mod unat bs = 0"
    using that J(1,2,4) b(1) by (auto simp: rest_def n_def mult.commute mod_eq_0_iff_dvd dvd_div_mult_self split: if_splits)
  ultimately show ?thesis
    using that [OF init _ _ _ _ _ _ , of rest] c [unfolded all] d nz un by (simp add: n_def)
qed

lemma mblk_pool_init_ok:
  assumes "pool_params start bs psize"
  shows "\<exists>pm' p'. krhino_mblk_pool_init pm head self (Some p) (Some name) start bs psize =
      Inr (RHINO_SUCCESS, pm', head @ [self], Some p') \<and>
    unat (blk_whole p') = unat psize div unat bs \<and>
    (let bl = block_addrs start bs (unat psize div unat bs) in pool_rep (set bl) (pm', p') (set bl))"
proof -
  let ?bl = "block_addrs start bs (unat psize div unat bs)"
  obtain pm' p' rest where c: "krhino_mblk_pool_init pm head self (Some p) (Some name) start bs psize =
      Inr (RHINO_SUCCESS, pm', head @ [self], Some p')"
    "unat (blk_whole p') = unat psize div unat bs" "unat (blk_avail p') = unat psize div unat bs"
    "pool_obj_type p' = RHINO_MM_BLK_OBJ_TYPE" "chain pm' (avail_list p') (?bl @ rest)" "distinct (?bl @ rest)" "0 \<notin> set (?bl @ rest)"
    by (rule mblk_pool_init_chain [OF assms])
  have "pool_rep (set ?bl) (pm', p') (set ?bl)"
    using c by (intro pool_repI [of _ _ ?bl rest]) (auto simp: block_addrs_def)
  then show ?thesis
    using c(1,2) by (auto simp: Let_def)
qed

text \<open>
  For an aligned pool that holds at least two blocks and does not reach the end of the
  address space, initialisation terminates with success, counts \<open>pool_size div blk_size\<close>
  blocks, and leaves exactly the blocks \<open>start, start + blk_size, ...\<close> free.
\<close>

theorem mblk_pool_init_blocks:
  assumes "pool_params start bs psize"
  shows "\<exists>pm' p'. krhino_mblk_pool_init pm head self (Some p) (Some name) start bs psize =
      Inr (RHINO_SUCCESS, pm', head @ [self], Some p') \<and>
    unat (blk_whole p') = unat psize div unat bs \<and>
    (let bl = block_addrs start bs (unat psize div unat bs) in pool_rep (set bl) (pm', p') (set bl))"
  using mblk_pool_init_ok [OF assms] .

definition pool_zero :: mblk_pool where
  "pool_zero = \<lparr>pool_name = None, blk_whole = 0, blk_avail = 0, blk_size = 0, avail_list = 0,
     pool_obj_type = RHINO_OBJ_TYPE_NONE\<rparr>"

lemma pool_params_example: "pool_params 0x1000 8 28"
  by (simp add: pool_params_def)

theorem mblk_pool_init_blocks_witness:
  "\<exists>pm' p'. krhino_mblk_pool_init (\<lambda>a. 0) [] 7 (Some pool_zero) (Some ''p'') 0x1000 8 28 =
      Inr (RHINO_SUCCESS, pm', [7], Some p') \<and> unat (blk_whole p') = 3"
  using mblk_pool_init_blocks [OF pool_params_example, of "\<lambda>a. 0" "[]" 7 pool_zero "''p''"] by auto

text \<open>
  C33. A client of a freshly initialised pool that frees only blocks it owns never owns a block
  twice, owns only blocks of the pool, and the blocks it does not own are exactly the free ones:
  no block is lost and none is handed out twice.
\<close>

theorem mblk_no_double_alloc:
  assumes "krhino_mblk_pool_init pm head self (Some p) (Some name) start bs psize =
      Inr (RHINO_SUCCESS, pm', head', Some p')"
    and "pool_params start bs psize"
    and "pool_run pool_alloc pool_free (pm', p') [] ops = (s', own)"
  shows "distinct own \<and> set own \<subseteq> set (block_addrs start bs (unat psize div unat bs)) \<and>
    pool_rep (set (block_addrs start bs (unat psize div unat bs))) s'
      (set (block_addrs start bs (unat psize div unat bs)) - set own)"
proof -
  let ?U = "set (block_addrs start bs (unat psize div unat bs))"
  have "pool_rep ?U (pm', p') ?U"
    using mblk_pool_init_ok [OF assms(2), of pm head self p name] assms(1) by (auto simp: Let_def)
  then obtain F' where "pool_rep ?U s' F'" "distinct own" "set own \<inter> F' = {}" "set own \<union> F' = ?U"
    using mblk.run_disjoint [of ?U "(pm', p')" ?U "[]" ops s' own] assms(3) by auto
  moreover have "F' = ?U - set own"
    using calculation by blast
  ultimately show ?thesis
    by auto
qed

theorem mblk_no_double_alloc_witness:
  "\<exists>pm' p' s' own. krhino_mblk_pool_init (\<lambda>a. 0) [] 7 (Some pool_zero) (Some ''p'') 0x1000 8 28 =
      Inr (RHINO_SUCCESS, pm', [7], Some p') \<and>
    pool_run pool_alloc pool_free (pm', p') [] [Alloc, Alloc, Free 0, Alloc] = (s', own) \<and> distinct own"
proof -
  obtain pm' p' where i: "krhino_mblk_pool_init (\<lambda>a. 0) [] 7 (Some pool_zero) (Some ''p'') 0x1000 8 28 =
      Inr (RHINO_SUCCESS, pm', [7], Some p')"
    using mblk_pool_init_ok [OF pool_params_example, of "\<lambda>a. 0" "[]" 7 pool_zero "''p''"] by auto
  obtain s' own where r: "pool_run pool_alloc pool_free (pm', p') [] [Alloc, Alloc, Free 0, Alloc] = (s', own)"
    by fastforce
  show ?thesis
    using mblk_no_double_alloc [OF i pool_params_example r] i r by blast
qed

text \<open>
  A block size of zero passes every check of the initialisation, and the linking loop then
  makes no progress: whatever bound is put on its rounds, it is used up.
\<close>

theorem mblk_pool_init_zero_size:
  "krhino_mblk_pool_init pm head self (Some p) (Some name) 0x1000 0 16 = Inl Diverge \<and>
   pool_link fuel pm 0 0x1010 blks 0x1000 = Inl Diverge"
proof -
  have *: "pool_link fuel pm 0 0x1010 blks 0x1000 = Inl Diverge" for fuel pm blks
    by (induction fuel arbitrary: pm blks) (subst pool_link.simps, simp)+
  then show ?thesis
    by (simp add: krhino_mblk_pool_init_def addr_align_mask_def *)
qed

end
