(* ===== verification/Mm.thy ===== *)
theory Mm
  imports MmBlk Bitmap
begin

unbundle bit_operations_syntax

text \<open>
  The heap of \<^verbatim>\<open>k_mm.c\<close>: blocks with boundary tags in a word memory, free blocks in doubly linked lists by
  size class (two levels), a bitmap per level to find a class that is not empty, and a fixed-size block pool for
  small requests, which lies in a block of the heap. Memory is the map \<open>pmem\<close> from word addresses to words; the
  fields of a block header are words of it. The head of the heap and the control block of the pool are records.
  The heap checks of \<open>RHINO_CONFIG_MM_DEBUG\<close> are configured off.
\<close>

section \<open>Constants and data\<close>

definition MAX_MM_BIT :: nat where "MAX_MM_BIT = 20"
definition MAX_MM_SIZE :: "32 word" where "MAX_MM_SIZE = push_bit MAX_MM_BIT 1"
definition DEF_FIX_BLK_SIZE :: "32 word" where "DEF_FIX_BLK_SIZE = 32"
definition MIN_FLT_BIT :: nat where "MIN_FLT_BIT = 7"
definition MIN_FLT_SIZE :: "32 word" where "MIN_FLT_SIZE = 128"
definition MAX_LOG2_SLT :: nat where "MAX_LOG2_SLT = 5"
definition SLT_SIZE :: nat where "SLT_SIZE = 32"
definition FLT_SIZE :: nat where "FLT_SIZE = 14"
definition MM_ALIGN_MASK :: "32 word" where "MM_ALIGN_MASK = 3"
definition RHINO_MM_BLKSIZE_MASK :: "32 word" where "RHINO_MM_BLKSIZE_MASK = 0xFFFFFFFF - MM_ALIGN_MASK"
definition RHINO_MM_PRESTAT_MASK :: "32 word" where "RHINO_MM_PRESTAT_MASK = 2"
definition RHINO_MM_FREE :: "32 word" where "RHINO_MM_FREE = 1"
definition RHINO_MM_PREVFREE :: "32 word" where "RHINO_MM_PREVFREE = 2"
definition MIN_FREE_MEMORY_SIZE :: "32 word" where "MIN_FREE_MEMORY_SIZE = 1024"
definition RHINO_CONFIG_MM_TLF_BLK_SIZE :: "32 word" where "RHINO_CONFIG_MM_TLF_BLK_SIZE = 4096"
definition AOS_MM_TLF_ALLOC_MIN_LENGTH :: "32 word" where "AOS_MM_TLF_ALLOC_MIN_LENGTH = 8"

definition MM_ALIGN_UP :: "32 word \<Rightarrow> 32 word" where
  "MM_ALIGN_UP a = (a + MM_ALIGN_MASK) AND NOT MM_ALIGN_MASK"

definition MM_ALIGN_DOWN :: "32 word \<Rightarrow> 32 word" where
  "MM_ALIGN_DOWN a = a AND NOT MM_ALIGN_MASK"

text \<open>Sizes of the structs on the 32-bit target.\<close>

definition sizeof_mm_list :: "32 word" where "sizeof_mm_list = 16"
definition sizeof_region_info :: "32 word" where "sizeof_region_info = 8"
definition sizeof_mm_head :: "32 word" where "sizeof_mm_head = 1952"
definition sizeof_mblk_pool :: "32 word" where "sizeof_mblk_pool = 32"
definition MMLIST_HEAD_SIZE :: "32 word" where "MMLIST_HEAD_SIZE = sizeof_mm_list - 8"
definition MMREGION_USED_SIZE :: "32 word" where
  "MMREGION_USED_SIZE = MM_ALIGN_UP sizeof_region_info + 3 * MMLIST_HEAD_SIZE"

text \<open>The fields of a \<open>k_mm_list_t\<close> at address \<open>b\<close>: \<open>prev\<close>, \<open>size\<close>, \<open>mbinfo.free_ptr.prev\<close> and
  \<open>mbinfo.free_ptr.next\<close>; the last two share their place with the buffer.\<close>

definition k_prev :: "pmem \<Rightarrow> 32 word \<Rightarrow> 32 word" where "k_prev m b = m b"
definition k_size :: "pmem \<Rightarrow> 32 word \<Rightarrow> 32 word" where "k_size m b = m (b + 4)"
definition f_prev :: "pmem \<Rightarrow> 32 word \<Rightarrow> 32 word" where "f_prev m b = m (b + 8)"
definition f_next :: "pmem \<Rightarrow> 32 word \<Rightarrow> 32 word" where "f_next m b = m (b + 12)"
definition set_k_prev :: "32 word \<Rightarrow> 32 word \<Rightarrow> pmem \<Rightarrow> pmem" where "set_k_prev b v m = m(b := v)"
definition set_k_size :: "32 word \<Rightarrow> 32 word \<Rightarrow> pmem \<Rightarrow> pmem" where "set_k_size b v m = m(b + 4 := v)"
definition set_f_prev :: "32 word \<Rightarrow> 32 word \<Rightarrow> pmem \<Rightarrow> pmem" where "set_f_prev b v m = m(b + 8 := v)"
definition set_f_next :: "32 word \<Rightarrow> 32 word \<Rightarrow> pmem \<Rightarrow> pmem" where "set_f_next b v m = m(b + 12 := v)"

definition buffer :: "32 word \<Rightarrow> 32 word" where "buffer b = b + MMLIST_HEAD_SIZE"

definition NEXT_MM_BLK :: "32 word \<Rightarrow> 32 word \<Rightarrow> 32 word" where "NEXT_MM_BLK addr r = addr + r"

text \<open>\<open>b->size & RHINO_MM_BLKSIZE_MASK\<close>.\<close>

definition blk_bytes :: "pmem \<Rightarrow> 32 word \<Rightarrow> 32 word" where
  "blk_bytes m b = k_size m b AND RHINO_MM_BLKSIZE_MASK"

record k_mm_head =
  regioninfo :: "32 word"
  fixedmblk :: "32 word"
  used_size :: "32 word"
  maxused_size :: "32 word"
  free_size :: "32 word"
  mm_size_stats :: "nat \<Rightarrow> 32 word"
  fl_bitmap :: "32 word"
  sl_bitmap :: "nat \<Rightarrow> 32 word"
  mm_tbl :: "nat \<Rightarrow> nat \<Rightarrow> 32 word"

text \<open>The heap: memory, head, the control block at the start of the buffer of \<open>fixedmblk\<close>, and the list of all
  pools of \<open>g_kobj_list\<close>.\<close>

record mheap =
  hmem :: pmem
  hhead :: k_mm_head
  hpool :: mblk_pool
  mblkpool_head :: "nat list"

section \<open>Statistics\<close>

definition sizetoindex :: "32 word \<Rightarrow> nat outcome" where
  "sizetoindex sz = bnd (krhino_find_first_bit [sz]) (\<lambda>n. Inr (31 - n))"

definition addsize :: "32 word \<Rightarrow> 32 word \<Rightarrow> k_mm_head \<Rightarrow> k_mm_head outcome" where
  "addsize sz req_size h =
     (let h = h\<lparr>free_size := (if free_size h > sz then free_size h - sz else 0), used_size := used_size h + sz\<rparr>;
          h = (if used_size h > maxused_size h then h\<lparr>maxused_size := used_size h\<rparr> else h)
      in bnd (sizetoindex (req_size - 1)) (\<lambda>index.
           let index = (if index > MAX_MM_BIT then MAX_MM_BIT else index);
               index = (if index < 1 then 1 else index)
           in Inr (h\<lparr>mm_size_stats := (mm_size_stats h)(index - 1 := mm_size_stats h (index - 1) + 1)\<rparr>)))"

definition removesize :: "32 word \<Rightarrow> k_mm_head \<Rightarrow> k_mm_head" where
  "removesize sz h = h\<lparr>used_size := (if used_size h > sz then used_size h - sz else 0), free_size := free_size h + sz\<rparr>"

section \<open>Size classes\<close>

datatype (plugins only: code size) SEARCH_ACTION = ACTION_INSERT | ACTION_GET

text \<open>The result is the status with \<open>*flt\<close> and \<open>*slt\<close>. A shift by more than 31, undefined in C, occurs only with
  an out-of-range \<open>flt\<close>, where \<open>slt\<close> is not used.\<close>

definition bitmap_search :: "32 word \<Rightarrow> SEARCH_ACTION \<Rightarrow> (kstat \<times> nat \<times> nat) outcome" where
  "bitmap_search sz action =
     bnd (if sz < MIN_FLT_SIZE then Inr (0, unat (drop_bit (MIN_FLT_BIT - MAX_LOG2_SLT) sz))
          else bnd (krhino_find_first_bit [sz]) (\<lambda>n.
            let firstbit = 31 - n
            in bnd (if action = ACTION_GET
                    then (let padding_size = push_bit (firstbit - MAX_LOG2_SLT) 1 - 1; tmp_size = sz + padding_size
                          in bnd (krhino_find_first_bit [tmp_size]) (\<lambda>n. Inr (31 - n, tmp_size)))
                    else Inr (firstbit, sz))
                 (\<lambda>(firstbit, tmp_size).
                   let flt = of_nat firstbit - of_nat MIN_FLT_BIT + 1 :: 32 word;
                       tmp_size = tmp_size - push_bit firstbit 1;
                       slt = drop_bit (unat (of_nat firstbit - of_nat MAX_LOG2_SLT :: 32 word)) tmp_size
                   in Inr (unat flt, unat slt))))
       (\<lambda>(flt, slt). Inr (if flt \<ge> FLT_SIZE \<or> slt \<ge> SLT_SIZE then RHINO_MM_FREE_ADDR_ERR else RHINO_SUCCESS, flt, slt))"

definition find_last_bit :: "32 word \<Rightarrow> nat outcome" where
  "find_last_bit bitmap =
     (if bitmap = 0 then Inr 0
      else (let x = bitmap AND - bitmap in bnd (krhino_find_first_bit [x]) (\<lambda>lsbit. Inr (31 - lsbit))))"

section \<open>Free lists\<close>

text \<open>The indices of \<open>mm_tbl\<close> and \<open>sl_bitmap\<close> are checked against the arrays; \<open>mark\<close> and \<open>unmark\<close> are
  \<open>krhino_bitmap_set\<close> and \<open>krhino_bitmap_clear\<close> on one word.\<close>

definition in_tbl :: "nat \<Rightarrow> nat \<Rightarrow> 'a \<Rightarrow> 'a outcome" where
  "in_tbl fl sl x = (if fl < FLT_SIZE \<and> sl < SLT_SIZE then Inr x else Inl BadAccess)"

definition mark :: "nat \<Rightarrow> 32 word \<Rightarrow> 32 word outcome" where
  "mark i w = bnd (krhino_bitmap_set [w] (31 - i)) (\<lambda>ws. Inr (hd ws))"

definition unmark :: "nat \<Rightarrow> 32 word \<Rightarrow> 32 word outcome" where
  "unmark i w = bnd (krhino_bitmap_clear [w] (31 - i)) (\<lambda>ws. Inr (hd ws))"

definition set_tbl :: "nat \<Rightarrow> nat \<Rightarrow> 32 word \<Rightarrow> k_mm_head \<Rightarrow> k_mm_head" where
  "set_tbl fl sl v h = h\<lparr>mm_tbl := (mm_tbl h)(fl := (mm_tbl h fl)(sl := v))\<rparr>"

definition insert_block :: "32 word \<Rightarrow> nat \<Rightarrow> nat \<Rightarrow> mheap \<Rightarrow> mheap outcome" where
  "insert_block blk flt slt h =
     bnd (in_tbl flt slt (mm_tbl (hhead h) flt slt)) (\<lambda>first.
       let m = set_f_next blk first (set_f_prev blk 0 (hmem h));
           m = (if first \<noteq> 0 then set_f_prev first blk m else m);
           hh = set_tbl flt slt blk (hhead h)
       in bnd (mark slt (sl_bitmap hh flt)) (\<lambda>sw.
          bnd (mark flt (fl_bitmap hh)) (\<lambda>fw.
            Inr (h\<lparr>hmem := m, hhead := hh\<lparr>sl_bitmap := (sl_bitmap hh)(flt := sw), fl_bitmap := fw\<rparr>\<rparr>))))"

text \<open>What \<open>get_block\<close> and \<open>k_mm_alloc\<close> do when a list has become empty.\<close>

definition clear_class :: "nat \<Rightarrow> nat \<Rightarrow> k_mm_head \<Rightarrow> k_mm_head outcome" where
  "clear_class flt slt hh =
     bnd (unmark slt (sl_bitmap hh flt)) (\<lambda>sw.
       let hh = hh\<lparr>sl_bitmap := (sl_bitmap hh)(flt := sw)\<rparr>
       in if sw = 0 then bnd (unmark flt (fl_bitmap hh)) (\<lambda>fw. Inr (hh\<lparr>fl_bitmap := fw\<rparr>)) else Inr hh)"

definition get_block :: "32 word \<Rightarrow> nat \<Rightarrow> nat \<Rightarrow> mheap \<Rightarrow> mheap outcome" where
  "get_block blk flt slt h =
     (let m = hmem h; nx = f_next m blk;
          m = (if nx \<noteq> 0 then set_f_prev nx (f_prev m blk) m else m);
          pv = f_prev m blk;
          m = (if pv \<noteq> 0 then set_f_next pv (f_next m blk) m else m)
      in bnd (in_tbl flt slt (mm_tbl (hhead h) flt slt)) (\<lambda>first.
         bnd (if first = blk
              then (let hh = set_tbl flt slt (f_next m blk) (hhead h)
                    in if mm_tbl hh flt slt = 0 then clear_class flt slt hh else Inr hh)
              else Inr (hhead h)) (\<lambda>hh.
           Inr (h\<lparr>hmem := set_f_next blk 0 (set_f_prev blk 0 m), hhead := hh\<rparr>))))"

definition findblk_byidx :: "k_mm_head \<Rightarrow> nat \<Rightarrow> nat \<Rightarrow> (32 word \<times> nat \<times> nat) outcome" where
  "findblk_byidx hh flt slt =
     (let tmp = sl_bitmap hh flt AND push_bit slt (-1)
      in if tmp \<noteq> 0
         then bnd (find_last_bit tmp) (\<lambda>slt. bnd (in_tbl flt slt (mm_tbl hh flt slt)) (\<lambda>b. Inr (b, flt, slt)))
         else bnd (find_last_bit (fl_bitmap hh AND push_bit (flt + 1) (-1))) (\<lambda>flt.
           if flt > 0
           then bnd (find_last_bit (sl_bitmap hh flt)) (\<lambda>slt.
                  bnd (in_tbl flt slt (mm_tbl hh flt slt)) (\<lambda>b. Inr (b, flt, slt)))
           else Inr (0, flt, slt)))"

section \<open>Allocation\<close>

definition k_mm_smallblk_alloc :: "32 word \<Rightarrow> mheap \<Rightarrow> (32 word \<times> mheap) outcome" where
  "k_mm_smallblk_alloc sz h =
     (case krhino_mblk_alloc (hmem h) (Some (hpool h)) False of
        (sta, tmp, pool) \<Rightarrow>
          if sta \<noteq> RHINO_SUCCESS then Inr (0, h)
          else bnd (addsize DEF_FIX_BLK_SIZE sz (hhead h)) (\<lambda>hh.
            Inr (the tmp, h\<lparr>hpool := the pool, hhead := hh\<rparr>)))"

definition k_mm_smallblk_free :: "32 word \<Rightarrow> mheap \<Rightarrow> mheap outcome" where
  "k_mm_smallblk_free ptr h =
     (case krhino_mblk_free (hmem h) (Some (hpool h)) ptr of
        (sta, m, pool) \<Rightarrow>
          if sta \<noteq> RHINO_SUCCESS then k_err_proc RHINO_SYS_FATAL_ERR
          else Inr (h\<lparr>hmem := m, hpool := the pool, hhead := removesize DEF_FIX_BLK_SIZE (hhead h)\<rparr>))"

text \<open>\<open>k_mm_alloc\<close> takes the first block of a list without \<open>get_block\<close>.\<close>

definition take_first :: "nat \<Rightarrow> nat \<Rightarrow> 32 word \<Rightarrow> mheap \<Rightarrow> mheap outcome" where
  "take_first fl sl b h =
     (let m = hmem h; nx = f_next m b; hh = set_tbl fl sl nx (hhead h)
      in bnd (in_tbl fl sl ()) (\<lambda>_.
         bnd (if nx \<noteq> 0 then Inr (set_f_prev nx 0 m, hh)
              else bnd (clear_class fl sl hh) (\<lambda>hh. Inr (m, hh))) (\<lambda>(m, hh).
           Inr (h\<lparr>hmem := set_f_next b 0 (set_f_prev b 0 m), hhead := hh\<rparr>))))"

text \<open>A free block behind the first \<open>sz\<close> bytes of block \<open>b\<close>, with \<open>tmp_size\<close> bytes to spare; \<open>next_b\<close> follows.\<close>

definition split_free :: "32 word \<Rightarrow> 32 word \<Rightarrow> 32 word \<Rightarrow> 32 word \<Rightarrow> bool \<Rightarrow> mheap \<Rightarrow> mheap outcome" where
  "split_free b sz tmp_size next_b mark_next h =
     (let tmp_size = tmp_size - MMLIST_HEAD_SIZE;
          b2 = NEXT_MM_BLK (buffer b) sz;
          m = set_k_prev next_b b2 (set_k_size b2 (tmp_size OR RHINO_MM_FREE) (hmem h));
          m = (if mark_next then set_k_size next_b (k_size m next_b OR RHINO_MM_PREVFREE) m else m)
      in bnd (bitmap_search tmp_size ACTION_INSERT) (\<lambda>(_, fl, sl).
         bnd (insert_block b2 fl sl (h\<lparr>hmem := m\<rparr>)) (\<lambda>h.
           Inr (h\<lparr>hmem := set_k_size b (sz OR (k_size (hmem h) b AND RHINO_MM_PRESTAT_MASK)) (hmem h)\<rparr>))))"

definition use_block :: "32 word \<Rightarrow> 32 word \<Rightarrow> mheap \<Rightarrow> mheap outcome" where
  "use_block b sz h =
     (let m = hmem h; next_b = NEXT_MM_BLK (buffer b) (blk_bytes m b); tmp_size = blk_bytes m b - sz
      in if tmp_size \<ge> sizeof_mm_list then split_free b sz tmp_size next_b False h
         else (let m = set_k_size next_b (k_size m next_b AND NOT RHINO_MM_PREVFREE) m
               in Inr (h\<lparr>hmem := set_k_size b (k_size m b AND NOT RHINO_MM_FREE) m\<rparr>)))"

definition k_mm_alloc_blk :: "32 word \<Rightarrow> mheap \<Rightarrow> (32 word \<times> mheap) outcome" where
  "k_mm_alloc_blk req_size h =
     (let sz = MM_ALIGN_UP req_size;
          sz = (if sz < AOS_MM_TLF_ALLOC_MIN_LENGTH then AOS_MM_TLF_ALLOC_MIN_LENGTH else sz)
      in bnd (bitmap_search sz ACTION_GET) (\<lambda>(err, fl, sl).
         if err \<noteq> RHINO_SUCCESS then Inr (0, h)
         else bnd (findblk_byidx (hhead h) fl sl) (\<lambda>(b, fl, sl).
           if b = 0 then Inr (0, h)
           else bnd (take_first fl sl b h) (\<lambda>h.
             bnd (use_block b sz h) (\<lambda>h.
             bnd (addsize (blk_bytes (hmem h) b + MMLIST_HEAD_SIZE) req_size (hhead h)) (\<lambda>hh.
               Inr (buffer b, h\<lparr>hhead := hh\<rparr>)))))))"

definition k_mm_alloc :: "32 word \<Rightarrow> mheap \<Rightarrow> (32 word \<times> mheap) outcome" where
  "k_mm_alloc sz h =
     (if sz = 0 then Inr (0, h)
      else bnd (if fixedmblk (hhead h) \<noteq> 0 \<and> sz \<le> DEF_FIX_BLK_SIZE \<and> blk_avail (hpool h) > 0
                then k_mm_smallblk_alloc sz h else Inr (0, h)) (\<lambda>(retptr, h).
        if retptr \<noteq> 0 then Inr (retptr, h) else k_mm_alloc_blk sz h))"

section \<open>Release\<close>

definition ISFIXEDBLK :: "mheap \<Rightarrow> 32 word \<Rightarrow> bool" where
  "ISFIXEDBLK h ptr \<longleftrightarrow> fixedmblk (hhead h) \<noteq> 0 \<and> ptr > buffer (fixedmblk (hhead h)) \<and>
     ptr < buffer (fixedmblk (hhead h)) + k_size (hmem h) (fixedmblk (hhead h))"

text \<open>Taking the free block \<open>b\<close> out of its list.\<close>

definition unlist :: "32 word \<Rightarrow> mheap \<Rightarrow> mheap outcome" where
  "unlist b h = bnd (bitmap_search (blk_bytes (hmem h) b) ACTION_INSERT) (\<lambda>(_, fl, sl). get_block b fl sl h)"

definition grow :: "32 word \<Rightarrow> 32 word \<Rightarrow> mheap \<Rightarrow> mheap" where
  "grow b by h = h\<lparr>hmem := set_k_size b (k_size (hmem h) b + (blk_bytes (hmem h) by + MMLIST_HEAD_SIZE)) (hmem h)\<rparr>"

definition k_mm_free_blk :: "32 word \<Rightarrow> mheap \<Rightarrow> mheap outcome" where
  "k_mm_free_blk ptr h =
     (let b = ptr - MMLIST_HEAD_SIZE;
          h = h\<lparr>hmem := set_k_size b (k_size (hmem h) b OR RHINO_MM_FREE) (hmem h)\<rparr>;
          h = h\<lparr>hhead := removesize (blk_bytes (hmem h) b + MMLIST_HEAD_SIZE) (hhead h)\<rparr>;
          tmp_b = NEXT_MM_BLK (buffer b) (blk_bytes (hmem h) b)
      in bnd (if k_size (hmem h) tmp_b AND RHINO_MM_FREE \<noteq> 0
              then bnd (unlist tmp_b h) (\<lambda>h. Inr (grow b tmp_b h)) else Inr h) (\<lambda>h.
         bnd (if k_size (hmem h) b AND RHINO_MM_PREVFREE \<noteq> 0
              then (let tmp_b = k_prev (hmem h) b in bnd (unlist tmp_b h) (\<lambda>h. Inr (tmp_b, grow tmp_b b h)))
              else Inr (b, h)) (\<lambda>(b, h).
         bnd (bitmap_search (blk_bytes (hmem h) b) ACTION_INSERT) (\<lambda>(_, fl, sl).
         bnd (insert_block b fl sl h) (\<lambda>h.
           let tmp_b = NEXT_MM_BLK (buffer b) (blk_bytes (hmem h) b);
               m = set_k_size tmp_b (k_size (hmem h) tmp_b OR RHINO_MM_PREVFREE) (hmem h)
           in Inr (h\<lparr>hmem := set_k_prev tmp_b b m\<rparr>))))))"

definition k_mm_free :: "32 word \<Rightarrow> mheap \<Rightarrow> mheap outcome" where
  "k_mm_free ptr h =
     (if ptr = 0 then Inr h
      else if ISFIXEDBLK h ptr then k_mm_smallblk_free ptr h
      else k_mm_free_blk ptr h)"

section \<open>Change of size\<close>

text \<open>\<open>memcpy\<close> and \<open>memset\<close> on aligned words.\<close>

definition copy_words :: "32 word \<Rightarrow> 32 word \<Rightarrow> 32 word \<Rightarrow> pmem \<Rightarrow> pmem" where
  "copy_words dst src n m = (\<lambda>a. if a - dst < n then m (src + (a - dst)) else m a)"

definition zero_words :: "32 word \<Rightarrow> 32 word \<Rightarrow> pmem \<Rightarrow> pmem" where
  "zero_words dst n m = (\<lambda>a. if a - dst < n then 0 else m a)"

definition realloc_fixed :: "32 word \<Rightarrow> 32 word \<Rightarrow> mheap \<Rightarrow> (32 word \<times> mheap) outcome" where
  "realloc_fixed oldmem new_size h =
     (if new_size \<le> DEF_FIX_BLK_SIZE then Inr (oldmem, h)
      else bnd (k_mm_alloc new_size h) (\<lambda>(ptr_aux, h).
        if ptr_aux \<noteq> 0
        then bnd (k_mm_smallblk_free oldmem (h\<lparr>hmem := copy_words ptr_aux oldmem DEF_FIX_BLK_SIZE (hmem h)\<rparr>))
               (\<lambda>h. Inr (ptr_aux, h))
        else Inr (0, h)))"

text \<open>The two ways to change the size in place: \<open>new_size\<close> fits the block, or the block and the free one behind it.\<close>

definition realloc_shrink :: "32 word \<Rightarrow> 32 word \<Rightarrow> 32 word \<Rightarrow> mheap \<Rightarrow> (32 word \<times> mheap) outcome" where
  "realloc_shrink b new_size req_size h =
     (let tmp_size = blk_bytes (hmem h) b; next_b = NEXT_MM_BLK (buffer b) tmp_size;
          h = h\<lparr>hhead := removesize (blk_bytes (hmem h) b + MMLIST_HEAD_SIZE) (hhead h)\<rparr>
      in bnd (if k_size (hmem h) next_b AND RHINO_MM_FREE \<noteq> 0
              then bnd (unlist next_b h) (\<lambda>h.
                     Inr (tmp_size + (blk_bytes (hmem h) next_b + MMLIST_HEAD_SIZE),
                          NEXT_MM_BLK (buffer next_b) (blk_bytes (hmem h) next_b), h))
              else Inr (tmp_size, next_b, h)) (\<lambda>(tmp_size, next_b, h).
           let tmp_size = tmp_size - new_size
           in bnd (if tmp_size \<ge> sizeof_mm_list then split_free b new_size tmp_size next_b True h else Inr h) (\<lambda>h.
              bnd (addsize (blk_bytes (hmem h) b + MMLIST_HEAD_SIZE) req_size (hhead h)) (\<lambda>hh.
                Inr (buffer b, h\<lparr>hhead := hh\<rparr>)))))"

definition realloc_extend :: "32 word \<Rightarrow> 32 word \<Rightarrow> 32 word \<Rightarrow> mheap \<Rightarrow> (32 word \<times> mheap) outcome" where
  "realloc_extend b new_size req_size h =
     (let next_b = NEXT_MM_BLK (buffer b) (blk_bytes (hmem h) b);
          h = h\<lparr>hhead := removesize (blk_bytes (hmem h) b + MMLIST_HEAD_SIZE) (hhead h)\<rparr>
      in bnd (unlist next_b h) (\<lambda>h.
           let h = grow b next_b h;
               next_b = NEXT_MM_BLK (buffer b) (blk_bytes (hmem h) b);
               m = set_k_prev next_b b (hmem h);
               m = set_k_size next_b (k_size m next_b AND NOT RHINO_MM_PREVFREE) m;
               h = h\<lparr>hmem := m\<rparr>;
               tmp_size = blk_bytes m b - new_size
           in bnd (if tmp_size \<ge> sizeof_mm_list then split_free b new_size tmp_size next_b True h else Inr h) (\<lambda>h.
              bnd (addsize (blk_bytes (hmem h) b + MMLIST_HEAD_SIZE) req_size (hhead h)) (\<lambda>hh.
                Inr (buffer b, h\<lparr>hhead := hh\<rparr>)))))"

definition k_mm_realloc :: "32 word \<Rightarrow> 32 word \<Rightarrow> mheap \<Rightarrow> (32 word \<times> mheap) outcome" where
  "k_mm_realloc oldmem new_size h =
     (if oldmem = 0 then (if new_size \<noteq> 0 then k_mm_alloc new_size h else Inr (0, h))
      else if new_size = 0 then bnd (k_mm_free oldmem h) (\<lambda>h. Inr (0, h))
      else if ISFIXEDBLK h oldmem then realloc_fixed oldmem new_size h
      else (let req_size = new_size;
                b = oldmem - MMLIST_HEAD_SIZE;
                tmp_size = blk_bytes (hmem h) b;
                next_b = NEXT_MM_BLK (buffer b) tmp_size;
                new_size = (if new_size < sizeof_mm_list then sizeof_mm_list else MM_ALIGN_UP new_size)
            in bnd (if new_size \<le> tmp_size then realloc_shrink b new_size req_size h
                    else if k_size (hmem h) next_b AND RHINO_MM_FREE \<noteq> 0 \<and>
                            new_size \<le> tmp_size + blk_bytes (hmem h) next_b
                    then realloc_extend b new_size req_size h
                    else Inr (0, h)) (\<lambda>(ptr_aux, h).
                 if ptr_aux \<noteq> 0 then Inr (ptr_aux, h)
                 else bnd (k_mm_alloc new_size h) (\<lambda>(ptr_aux, h).
                   if ptr_aux = 0 then Inr (0, h)
                   else (let cpsize = (if blk_bytes (hmem h) b > new_size then new_size else blk_bytes (hmem h) b)
                         in bnd (k_mm_free oldmem (h\<lparr>hmem := copy_words ptr_aux oldmem cpsize (hmem h)\<rparr>))
                              (\<lambda>h. Inr (ptr_aux, h)))))))"

section \<open>Regions\<close>

definition init_mm_region :: "32 word \<Rightarrow> 32 word \<Rightarrow> pmem \<Rightarrow> 32 word \<times> pmem" where
  "init_mm_region regionaddr len m =
     (let firstblk = regionaddr;
          m = set_k_size firstblk (MM_ALIGN_UP sizeof_region_info) m;
          curblk = buffer firstblk + blk_bytes m firstblk;
          m = set_k_size curblk (MM_ALIGN_DOWN (len - MMREGION_USED_SIZE)) m;
          m = set_f_prev curblk 0 (set_f_next curblk 0 m);
          lastblk = NEXT_MM_BLK (buffer curblk) (blk_bytes m curblk);
          m = set_k_size lastblk RHINO_MM_PREVFREE (set_k_prev lastblk curblk m);
          region = buffer firstblk
      in (firstblk, m(region + 4 := 0, region := lastblk)))"

definition zero_head :: k_mm_head where
  "zero_head = \<lparr>regioninfo = 0, fixedmblk = 0, used_size = 0, maxused_size = 0, free_size = 0,
     mm_size_stats = (\<lambda>_. 0), fl_bitmap = 0, sl_bitmap = (\<lambda>_. 0), mm_tbl = (\<lambda>_ _. 0)\<rparr>"

text \<open>The part of \<open>krhino_init_mm_head\<close> for the pool of small blocks.\<close>

definition init_fixedmblk :: "mheap \<Rightarrow> mheap outcome" where
  "init_fixedmblk h =
     bnd (k_mm_alloc (RHINO_CONFIG_MM_TLF_BLK_SIZE + MM_ALIGN_UP sizeof_mblk_pool) h) (\<lambda>(mmblk_pool, h).
       if mmblk_pool = 0 then Inr h
       else bnd (krhino_mblk_pool_init (hmem h) (mblkpool_head h) (unat mmblk_pool) (Some (hpool h)) (Some ''fixed_mm_blk'')
                   (mmblk_pool + MM_ALIGN_UP sizeof_mblk_pool) DEF_FIX_BLK_SIZE RHINO_CONFIG_MM_TLF_BLK_SIZE)
              (\<lambda>(stat, m, pools, pool).
                let curblk = mmblk_pool - MMLIST_HEAD_SIZE;
                    h = h\<lparr>hmem := m, mblkpool_head := pools, hpool := the pool\<rparr>
                in bnd (if stat = RHINO_SUCCESS then Inr (h\<lparr>hhead := (hhead h)\<lparr>fixedmblk := curblk\<rparr>\<rparr>)
                        else k_mm_free mmblk_pool h) (\<lambda>h.
                   Inr (h\<lparr>hhead := removesize RHINO_CONFIG_MM_TLF_BLK_SIZE (hhead h)\<rparr>))))"

text \<open>The head is placed at the aligned \<open>addr\<close>, which \<open>*ppmmhead\<close> receives (the second component).\<close>

definition krhino_init_mm_head :: "bool \<Rightarrow> 32 word \<Rightarrow> 32 word \<Rightarrow> mheap \<Rightarrow> (kstat \<times> 32 word option \<times> mheap) outcome" where
  "krhino_init_mm_head head_null orig_addr len h =
     (if head_null \<or> orig_addr = 0 then Inr (RHINO_NULL_PTR, None, h)
      else (let addr = MM_ALIGN_UP orig_addr; len = MM_ALIGN_DOWN (len - (addr - orig_addr))
            in if addr AND MM_ALIGN_MASK \<noteq> 0 \<or> len \<noteq> MM_ALIGN_DOWN len then Inr (RHINO_INV_ALIGN, None, h)
               else if len = 0 \<or> len < MIN_FREE_MEMORY_SIZE + RHINO_CONFIG_MM_TLF_BLK_SIZE \<or> len > MAX_MM_SIZE
               then Inr (RHINO_MM_POOL_SIZE_ERR, None, h)
               else (case init_mm_region (addr + MM_ALIGN_UP sizeof_mm_head) (MM_ALIGN_DOWN (len - sizeof_mm_head)) (hmem h) of
                       (firstblk, m) \<Rightarrow>
                         let nextblk = NEXT_MM_BLK (buffer firstblk) (blk_bytes m firstblk);
                             h = h\<lparr>hmem := m, hhead := zero_head\<lparr>regioninfo := buffer firstblk\<rparr>\<rparr>
                         in bnd (k_mm_free (buffer nextblk) h) (\<lambda>h.
                              let fr = blk_bytes (hmem h) nextblk;
                                  h = h\<lparr>hhead := (hhead h)\<lparr>free_size := fr, used_size := len - fr,
                                        maxused_size := len - fr, fixedmblk := 0\<rparr>\<rparr>
                              in bnd (init_fixedmblk h) (\<lambda>h. Inr (RHINO_SUCCESS, Some addr, h))))))"

definition krhino_deinit_mm_head :: "mheap \<Rightarrow> kstat \<times> mheap" where
  "krhino_deinit_mm_head h = (RHINO_SUCCESS, h\<lparr>hhead := zero_head\<rparr>)"

text \<open>A region starts with a block whose buffer is its \<open>k_mm_region_info_t\<close>: the sentinel that ends the region and the next
  region. The loop of \<open>krhino_add_mm_region\<close> joins the new region (blocks \<open>ib0\<close>, \<open>b0\<close>, sentinel \<open>lb0\<close>) with the ones
  that touch it; the fuel bounds the length of the list of regions.\<close>

definition r_end :: "pmem \<Rightarrow> 32 word \<Rightarrow> 32 word" where "r_end m r = m r"
definition r_next :: "pmem \<Rightarrow> 32 word \<Rightarrow> 32 word" where "r_next m r = m (r + 4)"

definition drop_region :: "32 word \<Rightarrow> 32 word \<Rightarrow> mheap \<Rightarrow> mheap" where
  "drop_region r r_prev h =
     (if regioninfo (hhead h) = r then h\<lparr>hhead := (hhead h)\<lparr>regioninfo := r_next (hmem h) r\<rparr>\<rparr>
      else h\<lparr>hmem := (hmem h)(r_prev + 4 := r_next (hmem h) r)\<rparr>)"

fun merge_regions :: "nat \<Rightarrow> 32 word \<Rightarrow> 32 word \<Rightarrow> 32 word \<Rightarrow> 32 word \<Rightarrow> 32 word \<Rightarrow> mheap
    \<Rightarrow> (32 word \<times> 32 word \<times> 32 word \<times> mheap) outcome" where
  "merge_regions fuel r r_prev ib0 b0 lb0 h =
     (if r = 0 then Inr (ib0, b0, lb0, h)
      else (case fuel of
              0 \<Rightarrow> Inl Diverge
            | Suc n \<Rightarrow>
                (let m = hmem h; ib1 = r - MMLIST_HEAD_SIZE; b1 = NEXT_MM_BLK (buffer ib1) (blk_bytes m ib1); lb1 = r_end m r
                 in if ib1 = lb0 + MMLIST_HEAD_SIZE
                    then (let nx = r_next m r; h = drop_region r r_prev h; m = hmem h;
                              m = set_k_size b0 (MM_ALIGN_DOWN (blk_bytes m b0 + blk_bytes m ib1 + 2 * MMLIST_HEAD_SIZE)) m
                          in merge_regions n nx r_prev ib0 b0 lb1 (h\<lparr>hmem := set_k_prev b1 b0 m\<rparr>))
                    else if buffer lb1 = ib0
                    then (let nx = r_next m r; h = drop_region r r_prev h; m = hmem h;
                              m = set_k_size lb1 (MM_ALIGN_DOWN (blk_bytes m b0 + blk_bytes m ib0 + 2 * MMLIST_HEAD_SIZE) OR
                                    (k_size m lb1 AND RHINO_MM_PRESTAT_MASK)) m;
                              next_b = NEXT_MM_BLK (buffer lb1) (blk_bytes m lb1)
                          in merge_regions n nx r_prev ib1 lb1 lb0 (h\<lparr>hmem := set_k_prev next_b lb1 m\<rparr>))
                    else merge_regions n (r_next m r) r ib0 b0 lb0 h)))"

declare merge_regions.simps [simp del]

definition krhino_add_mm_region :: "nat \<Rightarrow> 32 word \<Rightarrow> 32 word \<Rightarrow> mheap \<Rightarrow> (kstat \<times> mheap) outcome" where
  "krhino_add_mm_region fuel addr len h =
     (if addr = 0 then Inr (RHINO_NULL_PTR, h)
      else if addr AND MM_ALIGN_MASK \<noteq> 0 \<or> len \<noteq> MM_ALIGN_DOWN len then Inr (RHINO_INV_ALIGN, h)
      else if len = 0 \<or> len < sizeof_region_info + sizeof_mm_list * 2 then Inr (RHINO_MM_POOL_SIZE_ERR, h)
      else (case init_mm_region addr len (zero_words addr len (hmem h)) of
              (ib0, m) \<Rightarrow>
                let b0 = NEXT_MM_BLK (buffer ib0) (blk_bytes m ib0); lb0 = NEXT_MM_BLK (buffer b0) (blk_bytes m b0)
                in bnd (merge_regions fuel (regioninfo (hhead h)) 0 ib0 b0 lb0 (h\<lparr>hmem := m\<rparr>)) (\<lambda>(ib0, b0, lb0, h).
                     let ai = buffer ib0;
                         h = h\<lparr>hmem := (hmem h)(ai + 4 := regioninfo (hhead h), ai := lb0),
                               hhead := (hhead h)\<lparr>regioninfo := ai,
                                 used_size := used_size (hhead h) + (blk_bytes (hmem h) b0 + MMLIST_HEAD_SIZE)\<rparr>\<rparr>
                     in bnd (k_mm_free (buffer b0) h) (\<lambda>h. Inr (RHINO_SUCCESS, h)))))"

section \<open>The interface of the kernel\<close>

text \<open>\<open>g_kmm_head\<close> is NULL before \<open>k_mm_init\<close>. The hook of the allocation is empty.\<close>

definition krhino_mm_alloc :: "32 word \<Rightarrow> mheap option \<Rightarrow> (32 word \<times> mheap option) outcome" where
  "krhino_mm_alloc sz g =
     (if sz = 0 then Inr (0, g)
      else (case g of None \<Rightarrow> Inr (0, None) | Some h \<Rightarrow> bnd (k_mm_alloc sz h) (\<lambda>(p, h). Inr (p, Some h))))"

definition krhino_mm_free :: "32 word \<Rightarrow> mheap option \<Rightarrow> mheap option outcome" where
  "krhino_mm_free ptr g = (case g of None \<Rightarrow> Inr None | Some h \<Rightarrow> bnd (k_mm_free ptr h) (\<lambda>h. Inr (Some h)))"

definition krhino_mm_realloc :: "32 word \<Rightarrow> 32 word \<Rightarrow> mheap option \<Rightarrow> (32 word \<times> mheap option) outcome" where
  "krhino_mm_realloc oldmem newsize g =
     (case g of
        None \<Rightarrow> if oldmem = 0 \<or> newsize = 0 then Inr (0, None) else Inl BadAccess
      | Some h \<Rightarrow> bnd (k_mm_realloc oldmem newsize h) (\<lambda>(p, h). Inr (p, Some h)))"

text \<open>\<open>k_mm_init\<close>: the statuses are ignored; a first region that is refused leaves \<open>g_kmm_head\<close> NULL, and adding
  regions to it does nothing.\<close>

fun add_regions :: "nat \<Rightarrow> (32 word \<times> 32 word) list \<Rightarrow> mheap \<Rightarrow> mheap outcome" where
  "add_regions n [] h = Inr h"
| "add_regions n ((start, len) # rs) h =
     bnd (krhino_add_mm_region n start len h) (\<lambda>(_, h). add_regions (Suc n) rs h)"

definition k_mm_init :: "(32 word \<times> 32 word) list \<Rightarrow> mheap \<Rightarrow> mheap option outcome" where
  "k_mm_init g_mm_region h =
     (case g_mm_region of
        [] \<Rightarrow> Inl BadAccess
      | (start, len) # rs \<Rightarrow>
          bnd (krhino_init_mm_head False start len h) (\<lambda>(_, head, h).
            if head = None then Inr None else bnd (add_regions 1 rs h) (\<lambda>h. Inr (Some h))))"

end
