(* ===== verification/MmClass.thy ===== *)
theory MmClass
  imports Mm
begin

unbundle bit_operations_syntax

text \<open>
  Size classes of the heap: what \<open>bitmap_search\<close> computes, in arithmetic. Insertion rounds a size down to
  its class; a search rounds up, so that every block of the class found, or of a later one, is large
  enough. \<open>find_last_bit\<close> and \<open>findblk_byidx\<close> then find the first class that is not empty.
\<close>

section \<open>Logarithms\<close>

definition lg :: "nat \<Rightarrow> nat" where
  "lg n = 31 - find_first_bit_word (of_nat n)"

lemma find_first_bit_range:
  fixes w :: "32 word"
  assumes "w \<noteq> 0"
  shows "2 ^ (31 - find_first_bit_word w) \<le> unat w" "unat w < 2 ^ Suc (31 - find_first_bit_word w)"
proof -
  define k where "k = 31 - find_first_bit_word w"
  note c = find_first_bit_word_correct [OF assms]
  have b: "bit w k" "\<And>i. bit w i \<Longrightarrow> i \<le> k"
    using c(1) apply (simp add: k_def)
    subgoal for i
    proof (rule ccontr)
      assume a: "bit w i" "\<not> i \<le> k"
      then have "i < 32" using bit_imp_le_length by fastforce
      then have "31 - (31 - i) = i" "31 - i < find_first_bit_word w" using a(2) c(3) by (auto simp: k_def)
      then show False using c(2) a(1) unfolding top_clear_def by metis
    qed
    done
  have "bit (unat w) k" using b(1) bit_imp_le_length [OF b(1)] by (simp add: bit_unsigned_iff)
  then have "unat w div 2 ^ k \<noteq> 0" unfolding bit_iff_odd by (metis even_zero)
  then show "2 ^ (31 - find_first_bit_word w) \<le> unat w" unfolding k_def [symmetric] by (simp add: div_eq_0_iff not_less)
  have "take_bit (Suc k) w = w" using b(2) by (intro bit_word_eqI) (auto simp: bit_take_bit_iff less_Suc_eq_le)
  then have "unat w = take_bit (Suc k) (unat w)" by (metis unsigned_take_bit_eq)
  then show "unat w < 2 ^ Suc (31 - find_first_bit_word w)" unfolding k_def [symmetric] by (metis take_bit_nat_less_exp)
qed

lemma unat_of_nat_small [simp]: "n < 2 ^ 32 \<Longrightarrow> unat (of_nat n :: 32 word) = n"
  by (simp add: unat_of_nat)

lemma of_nat_nonzero: "0 < n \<Longrightarrow> n < 2 ^ 32 \<Longrightarrow> of_nat n \<noteq> (0 :: 32 word)"
  by (metis unat_of_nat_small unat_0 less_numeral_extra(3))

lemma lg_bounds:
  assumes "0 < n" "n < 2 ^ 32"
  shows "2 ^ lg n \<le> n" "n < 2 ^ Suc (lg n)"
proof -
  show "2 ^ lg n \<le> n" "n < 2 ^ Suc (lg n)"
    using find_first_bit_range [OF of_nat_nonzero [OF assms]] unat_of_nat_small [OF assms(2)] by (simp_all only: lg_def)
qed

lemma lg_eq:
  assumes "2 ^ k \<le> n" "n < 2 ^ Suc k" "n < 2 ^ 32"
  shows "lg n = k"
proof -
  have "0 < n" using assms(1) by (metis less_le_trans zero_less_power zero_less_numeral)
  note b = lg_bounds [OF this assms(3)]
  have "(2::nat) ^ lg n < 2 ^ Suc k" "(2::nat) ^ k < 2 ^ Suc (lg n)" using b assms by linarith+
  then show ?thesis by (simp add: power_strict_increasing_iff del: power_Suc)
qed

lemma first_bit_lg:
  assumes "0 < n" "n < 2 ^ 32"
  shows "krhino_find_first_bit [of_nat n] = Inr (31 - lg n)" "lg n < 32"
proof -
  note nz = of_nat_nonzero [OF assms]
  have "find_first_bit_word (of_nat n) < 32" using find_first_bit_word_correct(3) [OF nz] .
  then show "krhino_find_first_bit [of_nat n] = Inr (31 - lg n)" "lg n < 32" using nz by (simp_all add: lg_def)
qed

section \<open>Classes\<close>

definition cls :: "nat \<Rightarrow> nat \<times> nat" where
  "cls n = (if n < 128 then (0, n div 4) else (lg n - 6, (n - 2 ^ lg n) div 2 ^ (lg n - 5)))"

text \<open>The least size of a class, and the order of the classes.\<close>

definition lo :: "nat \<Rightarrow> nat \<Rightarrow> nat" where
  "lo fl sl = (if fl = 0 then 4 * sl else 2 ^ (fl + 6) + sl * 2 ^ (fl + 1))"

definition cls_le :: "nat \<times> nat \<Rightarrow> nat \<times> nat \<Rightarrow> bool" where
  "cls_le c d \<longleftrightarrow> fst c < fst d \<or> fst c = fst d \<and> snd c \<le> snd d"

lemma lg_ge:
  assumes "128 \<le> n" "n < 2 ^ 32"
  shows "7 \<le> lg n"
proof -
  have "n < 2 ^ Suc (lg n)" using lg_bounds(2) [of n] assms by simp
  then have "(2::nat) ^ 7 < 2 ^ Suc (lg n)" using assms(1) by simp
  then have "7 < Suc (lg n)" by (rule power_less_imp_less_exp [rotated]) simp
  then show ?thesis by simp
qed

lemma cls_large:
  assumes "128 \<le> n" "n < 2 ^ 32"
  obtains k where "lg n = k + 7" "cls n = (k + 1, (n - 2 ^ (k + 7)) div 2 ^ (k + 2))" "2 ^ (k + 7) \<le> n" "n < 2 ^ (k + 8)"
proof -
  obtain k where k: "lg n = k + 7" using lg_ge [OF assms] by (metis add.commute le_Suc_ex)
  moreover have "Suc (k + 7) = k + 8" by simp
  then have "2 ^ (k + 7) \<le> n" "n < 2 ^ (k + 8)" using lg_bounds [of n] assms k by (simp_all add: add.commute [of k] del: power_Suc add_Suc_right)
  ultimately show ?thesis using that [of k] assms(1) by (simp add: cls_def)
qed

lemma snd_cls_less: "n < 2 ^ 32 \<Longrightarrow> snd (cls n) < 32"
proof (cases "n < 128")
  case False
  assume "n < 2 ^ 32"
  then obtain k where k: "cls n = (k + 1, (n - 2 ^ (k + 7)) div 2 ^ (k + 2))" "2 ^ (k + 7) \<le> n" "n < 2 ^ (k + 8)"
    using cls_large [of n] False by auto
  have "n - 2 ^ (k + 7) < 32 * 2 ^ (k + 2)" using k(2,3) by (simp add: power_add)
  then show ?thesis using k(1) by (simp add: less_mult_imp_div_less)
qed (auto simp: cls_def)

lemma lo_cls: "n < 2 ^ 32 \<Longrightarrow> lo (fst (cls n)) (snd (cls n)) \<le> n"
proof (cases "n < 128")
  case False
  assume "n < 2 ^ 32"
  then obtain k where k: "cls n = (k + 1, (n - 2 ^ (k + 7)) div 2 ^ (k + 2))" "2 ^ (k + 7) \<le> n"
    using cls_large [of n] False by auto
  have "2 ^ (k + 7) + (n - 2 ^ (k + 7)) div p * p \<le> n" for p
    using k(2) div_times_less_eq_dividend [of "n - 2 ^ (k + 7)" p] by linarith
  from this [of "2 ^ (k + 2)"] show ?thesis using k(1) by (simp add: lo_def ac_simps)
qed (auto simp: cls_def lo_def)

lemma fst_cls_less: "n < 2 ^ 20 \<Longrightarrow> fst (cls n) < 14"
proof (cases "n < 128")
  case False
  assume n: "n < 2 ^ 20"
  obtain k where k: "cls n = (k + 1, (n - 2 ^ (k + 7)) div 2 ^ (k + 2))" "2 ^ (k + 7) \<le> n"
    using cls_large [of n] False n by auto
  have "(2::nat) ^ (k + 7) < 2 ^ 20" using k(2) n by linarith
  then have "k + 7 < 20" by (rule power_less_imp_less_exp [rotated]) simp
  then show ?thesis using k(1) by simp
qed (simp add: cls_def)

lemma lo_mono:
  assumes "cls_le (fl, sl) (fl', sl')" "sl < 32"
  shows "lo fl sl \<le> lo fl' sl'"
proof (cases "fl = fl'")
  case True
  then show ?thesis using assms(1) by (simp add: cls_le_def lo_def)
next
  case False
  then have l: "fl < fl'" using assms(1) by (simp add: cls_le_def)
  have "lo fl sl \<le> 2 ^ (fl + 7)"
  proof (cases fl)
    case (Suc m)
    have "sl * 2 ^ (fl + 1) \<le> 32 * 2 ^ (fl + 1)" using assms(2) by simp
    then show ?thesis using Suc by (simp add: lo_def power_add)
  qed (use assms(2) in \<open>simp add: lo_def\<close>)
  also have "(2::nat) ^ (fl + 7) \<le> 2 ^ (fl' + 6)" using l by (intro power_increasing) auto
  also have "\<dots> \<le> lo fl' sl'" using l by (simp add: lo_def)
  finally show ?thesis .
qed

lemma cls_mono:
  assumes "n \<le> n'" "n' < 2 ^ 32"
  shows "cls_le (cls n) (cls n')"
proof (cases "n < 128")
  case True
  show ?thesis
  proof (cases "n' < 128")
    case False
    then obtain k where "cls n' = (k + 1, (n' - 2 ^ (k + 7)) div 2 ^ (k + 2))"
      using cls_large [of n'] assms(2) by (metis not_less)
    then show ?thesis using True by (simp add: cls_le_def cls_def [of n])
  qed (use True assms(1) in \<open>simp add: cls_le_def cls_def div_le_mono\<close>)
next
  case False
  obtain k where k: "cls n = (k + 1, (n - 2 ^ (k + 7)) div 2 ^ (k + 2))" "2 ^ (k + 7) \<le> n" "n < 2 ^ (k + 8)"
    using cls_large [of n] False assms by auto
  obtain k' where k': "cls n' = (k' + 1, (n' - 2 ^ (k' + 7)) div 2 ^ (k' + 2))" "2 ^ (k' + 7) \<le> n'" "n' < 2 ^ (k' + 8)"
    using cls_large [of n'] False assms by auto
  have "(2::nat) ^ (k + 7) < 2 ^ (k' + 8)" using k(2) k'(3) assms(1) by linarith
  then have "k + 7 < k' + 8" by (rule power_less_imp_less_exp [rotated]) simp
  then have "k \<le> k'" by simp
  moreover have "(n - 2 ^ (k + 7)) div 2 ^ (k + 2) \<le> (n' - 2 ^ (k + 7)) div 2 ^ (k + 2)"
    using assms(1) by (intro div_le_mono) simp
  ultimately show ?thesis using k(1) k'(1) by (auto simp: cls_le_def)
qed

text \<open>Rounding up before the search.\<close>

definition round_up :: "nat \<Rightarrow> nat" where
  "round_up n = (if n < 128 then n else n + 2 ^ (lg n - 5) - 1)"

lemma round_up_ge: "n \<le> round_up n"
proof -
  have "1 \<le> (2::nat) ^ (lg n - 5)" by simp
  then have "n \<le> n + 2 ^ (lg n - 5) - 1" by linarith
  then show ?thesis by (simp add: round_up_def)
qed

lemma lg_eq7: "2 ^ (k + 7) \<le> n \<Longrightarrow> n < 2 ^ (k + 8) \<Longrightarrow> n < 2 ^ 32 \<Longrightarrow> lg n = k + 7"
  using lg_eq [of "k + 7" n] by (simp add: add.commute [of k])

lemma round_up_fits:
  assumes "n mod 4 = 0" "round_up n < 2 ^ 32" "cls (round_up n) = (fl, sl)"
  shows "n \<le> lo fl sl"
proof (cases "n < 128")
  case True
  then show ?thesis using assms by (auto simp: round_up_def cls_def lo_def)
next
  case False
  have n: "n < 2 ^ 32" using assms(2) round_up_ge [of n] by simp
  obtain k where k: "lg n = k + 7" "2 ^ (k + 7) \<le> n" "n < 2 ^ (k + 8)"
    using cls_large [of n] False n by auto
  define t where "t = n + 2 ^ (k + 2) - 1"
  have r: "round_up n = t" using k(1) False by (simp add: round_up_def t_def)
  have "1 \<le> (2::nat) ^ (k + 2)" by simp
  then have "n \<le> t" unfolding t_def by linarith
  then have "128 \<le> t" using False by simp
  then obtain j where j: "cls t = (j + 1, (t - 2 ^ (j + 7)) div 2 ^ (j + 2))" "2 ^ (j + 7) \<le> t" "t < 2 ^ (j + 8)"
    using cls_large [of t] r assms(2) by auto
  show ?thesis
  proof (cases "n + 2 ^ (k + 2) - 1 < 2 ^ (k + 8)")
    case True
    have "2 ^ (k + 7) \<le> t" using k(2) \<open>n \<le> t\<close> by simp
    then have "lg t = k + 7" using True r assms(2) by (intro lg_eq7) (simp_all add: t_def)
    moreover have "lg t = j + 7" using j(2,3) r assms(2) by (intro lg_eq7) simp_all
    ultimately have "j = k" by simp
    moreover have "n - 2 ^ (k + 7) \<le> (t - 2 ^ (k + 7)) div 2 ^ (k + 2) * 2 ^ (k + 2)"
    proof -
      define d where "d = n - 2 ^ (k + 7)"
      have "t - 2 ^ (k + 7) = d + (2 ^ (k + 2) - 1)" using k(2) by (simp add: t_def d_def)
      moreover have "d \<le> (d + (p - 1)) div p * p" if "0 < p" for p :: nat
        using that div_mult_mod_eq [of "d + (p - 1)" p] mod_less_divisor [OF that, of "d + (p - 1)"] by linarith
      ultimately show ?thesis unfolding d_def by simp
    qed
    ultimately show ?thesis using assms(3) r j(1) k(2) by (auto simp: lo_def add.commute [of 7])
  next
    case False
    have "(2::nat) ^ (k + 8) < 2 ^ (j + 8)" using False j(3) unfolding t_def by linarith
    then have "k + 8 < j + 8" by (rule power_less_imp_less_exp [rotated]) simp
    then have "k < j" by simp
    then have "(2::nat) ^ (k + 8) \<le> 2 ^ (j + 7)" by (intro power_increasing) auto
    then have "n \<le> 2 ^ (j + 7)" using k(3) by linarith
    then show ?thesis using assms(3) r j(1) by (auto simp: lo_def add.commute [of 7])
  qed
qed

section \<open>What the search computes\<close>

lemmas mm_consts = MAX_MM_BIT_def MAX_MM_SIZE_def DEF_FIX_BLK_SIZE_def MIN_FLT_BIT_def MIN_FLT_SIZE_def MAX_LOG2_SLT_def
  SLT_SIZE_def FLT_SIZE_def MM_ALIGN_MASK_def RHINO_MM_BLKSIZE_MASK_def RHINO_MM_PRESTAT_MASK_def RHINO_MM_FREE_def
  RHINO_MM_PREVFREE_def MIN_FREE_MEMORY_SIZE_def RHINO_CONFIG_MM_TLF_BLK_SIZE_def AOS_MM_TLF_ALLOC_MIN_LENGTH_def
  sizeof_mm_list_def sizeof_region_info_def sizeof_mm_head_def sizeof_mblk_pool_def MMLIST_HEAD_SIZE_def

lemma search_values:
  assumes "128 \<le> t" "t < 2 ^ 32"
  shows "unat (of_nat (lg t) - of_nat MIN_FLT_BIT + 1 :: 32 word) = fst (cls t)"
    "unat (drop_bit (unat (of_nat (lg t) - of_nat MAX_LOG2_SLT :: 32 word)) (of_nat t - push_bit (lg t) 1 :: 32 word)) = snd (cls t)"
proof -
  obtain k where k: "lg t = k + 7" "cls t = (k + 1, (t - 2 ^ (k + 7)) div 2 ^ (k + 2))" "2 ^ (k + 7) \<le> t"
    using cls_large [OF assms] by metis
  have l: "k + 7 < 32" using first_bit_lg(2) [of t] assms k(1) by simp
  have "of_nat (lg t) - of_nat MIN_FLT_BIT + 1 = (of_nat (k + 1) :: 32 word)" by (simp add: k(1) mm_consts)
  then show "unat (of_nat (lg t) - of_nat MIN_FLT_BIT + 1 :: 32 word) = fst (cls t)"
    using l k(2) unat_of_nat_small [of "k + 1"] by (simp del: of_nat_add of_nat_Suc)
  have "of_nat (lg t) - of_nat MAX_LOG2_SLT = (of_nat (k + 2) :: 32 word)" by (simp add: k(1) mm_consts)
  then have a: "unat (of_nat (lg t) - of_nat MAX_LOG2_SLT :: 32 word) = k + 2"
    using l unat_of_nat_small [of "k + 2"] by (simp del: of_nat_add of_nat_Suc)
  have "push_bit (lg t) 1 = (of_nat (2 ^ (k + 7)) :: 32 word)" by (simp add: k(1) push_bit_eq_mult)
  then have b: "of_nat t - push_bit (lg t) 1 = (of_nat (t - 2 ^ (k + 7)) :: 32 word)"
    using k(3) by (simp only: of_nat_diff)
  show "unat (drop_bit (unat (of_nat (lg t) - of_nat MAX_LOG2_SLT :: 32 word)) (of_nat t - push_bit (lg t) 1 :: 32 word)) = snd (cls t)"
    unfolding a b using assms(2) k(2) by (simp only: unat_drop_bit_eq) (simp add: drop_bit_eq_div)
qed

lemma small_class:
  assumes "n < 128"
  shows "(of_nat n :: 32 word) < MIN_FLT_SIZE" "unat (drop_bit (MIN_FLT_BIT - MAX_LOG2_SLT) (of_nat n :: 32 word)) = n div 4"
proof -
  have u: "unat (of_nat n :: 32 word) = n" using assms by simp
  show "(of_nat n :: 32 word) < MIN_FLT_SIZE" using assms u by (simp add: word_less_nat_alt mm_consts)
  show "unat (drop_bit (MIN_FLT_BIT - MAX_LOG2_SLT) (of_nat n :: 32 word)) = n div 4"
    by (simp only: unat_drop_bit_eq u) (simp add: drop_bit_eq_div mm_consts)
qed

lemma bitmap_search_insert:
  assumes "n < 2 ^ 20"
  shows "bitmap_search (of_nat n) ACTION_INSERT = Inr (RHINO_SUCCESS, cls n)"
proof -
  have r: "fst (cls n) < 14" "snd (cls n) < 32" using fst_cls_less snd_cls_less assms by simp_all
  show ?thesis
  proof (cases "n < 128")
    case True
    then show ?thesis using small_class [OF True] r by (simp add: bitmap_search_def cls_def FLT_SIZE_def SLT_SIZE_def)
  next
    case False
    have "\<not> (of_nat n :: 32 word) < MIN_FLT_SIZE" using False assms by (simp add: word_less_nat_alt mm_consts)
    moreover have "krhino_find_first_bit [of_nat n] = Inr (31 - lg n)" "31 - (31 - lg n) = lg n"
      using first_bit_lg [of n] False assms by simp_all
    ultimately show ?thesis
      using search_values [of n] r False assms
      by (simp add: bitmap_search_def Let_def FLT_SIZE_def SLT_SIZE_def case_prod_unfold del: krhino_find_first_bit.simps)
  qed
qed

lemma bitmap_search_get:
  assumes "round_up n < 2 ^ 32"
  shows "bitmap_search (of_nat n) ACTION_GET =
    Inr (if fst (cls (round_up n)) < 14 then RHINO_SUCCESS else RHINO_MM_FREE_ADDR_ERR, cls (round_up n))"
proof (cases "n < 128")
  case True
  then show ?thesis
    using small_class [OF True] by (auto simp: bitmap_search_def cls_def round_up_def FLT_SIZE_def SLT_SIZE_def)
next
  case False
  define t where "t = round_up n"
  have "7 \<le> lg n" using lg_ge [of n] round_up_ge [of n] False assms by simp
  then have k: "lg n = (lg n - 5) + 5" by simp
  have n: "n \<le> t" "t < 2 ^ 32" "t = n + 2 ^ (lg n - 5) - 1" using assms False round_up_ge by (simp_all add: t_def) (simp add: round_up_def)
  then have s: "snd (cls t) < 32" using snd_cls_less by simp
  have "\<not> (of_nat n :: 32 word) < MIN_FLT_SIZE" using False n by (simp add: word_less_nat_alt mm_consts)
  moreover have "krhino_find_first_bit [of_nat n] = Inr (31 - lg n)" "31 - (31 - lg n) = lg n"
    using first_bit_lg [of n] False n by simp_all
  moreover have "of_nat n + (push_bit (lg n - MAX_LOG2_SLT) 1 - 1) = (of_nat t :: 32 word)"
  proof -
    have "1 \<le> n + 2 ^ (lg n - 5)" using False by simp
    then show ?thesis unfolding n(3) by (simp only: of_nat_diff) (simp add: push_bit_eq_mult mm_consts)
  qed
  moreover have "krhino_find_first_bit [of_nat t] = Inr (31 - lg t)" "31 - (31 - lg t) = lg t"
    using first_bit_lg [of t] False n by simp_all
  ultimately show ?thesis
    using search_values [of t] s False n(1,2) unfolding t_def [symmetric]
    by (simp add: bitmap_search_def Let_def FLT_SIZE_def SLT_SIZE_def case_prod_unfold
        del: krhino_find_first_bit.simps diff_diff_left push_bit_of_1)
qed

end
