(* ===== verification/MmLists.thy ===== *)
theory MmLists
  imports MmClass
begin

unbundle bit_operations_syntax

text \<open>
  The free lists of the heap in memory. The words of block headers are separate when the headers are spaced
  (\<open>spaced\<close>), so that the fields behave like those of records. The lists are doubly linked through the first words
  of the free blocks, the tables hold their heads, and the bitmaps mark those that are not empty.
\<close>

section \<open>Separate headers\<close>

text \<open>Addresses of headers at least 16 bytes apart: their four words do not overlap.\<close>

definition spaced :: "nat set \<Rightarrow> bool" where
  "spaced D \<longleftrightarrow> (\<forall>a \<in> D. 0 < a \<and> a + 16 \<le> 2 ^ 32) \<and> (\<forall>a \<in> D. \<forall>b \<in> D. a < b \<longrightarrow> a + 16 \<le> b)"

definition apart :: "32 word \<Rightarrow> 32 word \<Rightarrow> bool" where
  "apart a b \<longleftrightarrow> (\<forall>i \<in> {0, 4, 8, 12}. \<forall>j \<in> {0, 4, 8, 12}. a + i \<noteq> b + j)"

lemma of_nat_eq_small: "a < 2 ^ 32 \<Longrightarrow> b < 2 ^ 32 \<Longrightarrow> (of_nat a :: 32 word) = of_nat b \<longleftrightarrow> a = b"
  by (metis unat_of_nat_small)

lemma apart_sym: "apart a b \<Longrightarrow> apart b a"
  unfolding apart_def by metis

lemma apart_of_nat:
  assumes "a + 16 \<le> b" "b + 16 \<le> 2 ^ 32"
  shows "apart (of_nat a) (of_nat b)"
proof -
  have *: "of_nat a + i \<noteq> of_nat b + j" if "unat i < 16" "unat j < 16" for i j :: "32 word"
  proof -
    have "of_nat (a + unat i) \<noteq> (of_nat (b + unat j) :: 32 word)" using assms that by (subst of_nat_eq_small) auto
    then show ?thesis by simp
  qed
  show ?thesis unfolding apart_def by (intro ballI *) auto
qed

lemma spaced_apart:
  assumes "spaced D" "a \<in> D" "b \<in> D" "a \<noteq> b"
  shows "apart (of_nat a) (of_nat b)"
proof (cases "a < b")
  case True
  then show ?thesis using assms apart_of_nat by (simp add: spaced_def)
next
  case False
  then have "b < a" using assms(4) by simp
  then show ?thesis using assms by (intro apart_sym [OF apart_of_nat]) (auto simp: spaced_def)
qed

lemma spaced_nonzero: "spaced D \<Longrightarrow> a \<in> D \<Longrightarrow> of_nat a \<noteq> (0 :: 32 word)"
  by (rule of_nat_nonzero) (auto simp: spaced_def)

lemma spaced_inj: "spaced D \<Longrightarrow> a \<in> D \<Longrightarrow> b \<in> D \<Longrightarrow> (of_nat a :: 32 word) = of_nat b \<longleftrightarrow> a = b"
  by (rule of_nat_eq_small) (auto simp: spaced_def)

lemmas field_defs = k_prev_def k_size_def f_prev_def f_next_def set_k_prev_def set_k_size_def set_f_prev_def set_f_next_def

lemma field_same [simp]:
  "k_prev (set_k_prev b v m) b = v" "k_prev (set_k_size b v m) b = k_prev m b" "k_prev (set_f_prev b v m) b = k_prev m b"
  "k_prev (set_f_next b v m) b = k_prev m b" "k_size (set_k_prev b v m) b = k_size m b" "k_size (set_k_size b v m) b = v"
  "k_size (set_f_prev b v m) b = k_size m b" "k_size (set_f_next b v m) b = k_size m b"
  "f_prev (set_k_prev b v m) b = f_prev m b" "f_prev (set_k_size b v m) b = f_prev m b" "f_prev (set_f_prev b v m) b = v"
  "f_prev (set_f_next b v m) b = f_prev m b" "f_next (set_k_prev b v m) b = f_next m b" "f_next (set_k_size b v m) b = f_next m b"
  "f_next (set_f_prev b v m) b = f_next m b" "f_next (set_f_next b v m) b = v"
  by (simp_all add: field_defs)

lemma field_apart:
  assumes "apart a b"
  shows "k_prev (set_k_prev b v m) a = k_prev m a" "k_prev (set_k_size b v m) a = k_prev m a" "k_prev (set_f_prev b v m) a = k_prev m a"
  "k_prev (set_f_next b v m) a = k_prev m a" "k_size (set_k_prev b v m) a = k_size m a" "k_size (set_k_size b v m) a = k_size m a"
  "k_size (set_f_prev b v m) a = k_size m a" "k_size (set_f_next b v m) a = k_size m a"
  "f_prev (set_k_prev b v m) a = f_prev m a" "f_prev (set_k_size b v m) a = f_prev m a" "f_prev (set_f_prev b v m) a = f_prev m a"
  "f_prev (set_f_next b v m) a = f_prev m a" "f_next (set_k_prev b v m) a = f_next m a" "f_next (set_k_size b v m) a = f_next m a"
  "f_next (set_f_prev b v m) a = f_next m a" "f_next (set_f_next b v m) a = f_next m a"
  using assms by (simp_all add: field_defs apart_def)

text \<open>Memories that agree outside of a set of addresses; the header words and the link words of blocks.\<close>

definition agree :: "32 word set \<Rightarrow> pmem \<Rightarrow> pmem \<Rightarrow> bool" where
  "agree A m m' \<longleftrightarrow> (\<forall>a. a \<notin> A \<longrightarrow> m' a = m a)"

definition hw :: "nat set \<Rightarrow> 32 word set" where
  "hw S = (\<Union>a \<in> S. {of_nat a, of_nat a + 4})"

definition fw :: "nat set \<Rightarrow> 32 word set" where
  "fw S = (\<Union>a \<in> S. {of_nat a + 8, of_nat a + 12})"

lemma fwI: "a \<in> S \<Longrightarrow> of_nat a + 8 \<in> fw S" "a \<in> S \<Longrightarrow> of_nat a + 12 \<in> fw S"
  by (auto simp: fw_def)

lemma hwI: "a \<in> S \<Longrightarrow> of_nat a \<in> hw S" "a \<in> S \<Longrightarrow> of_nat a + 4 \<in> hw S"
  by (auto simp: hw_def)

lemma fw_mono: "S \<subseteq> T \<Longrightarrow> fw S \<subseteq> fw T" "S \<subseteq> T \<Longrightarrow> hw S \<subseteq> hw T"
  by (auto simp: fw_def hw_def)

lemma agree_refl [simp]: "agree A m m"
  by (simp add: agree_def)

lemma agree_trans: "agree A m m' \<Longrightarrow> agree B m' m'' \<Longrightarrow> agree (A \<union> B) m m''"
  by (simp add: agree_def)

lemma agree_mono: "agree A m m' \<Longrightarrow> A \<subseteq> B \<Longrightarrow> agree B m m'"
  by (auto simp: agree_def)

lemma agree_set:
  "a \<in> S \<Longrightarrow> agree (hw S) m (set_k_prev (of_nat a) v m)" "a \<in> S \<Longrightarrow> agree (hw S) m (set_k_size (of_nat a) v m)"
  "a \<in> S \<Longrightarrow> agree (fw S) m (set_f_prev (of_nat a) v m)" "a \<in> S \<Longrightarrow> agree (fw S) m (set_f_next (of_nat a) v m)"
  by (auto simp: agree_def hw_def fw_def field_defs)

lemma agree_step:
  "agree A m m' \<Longrightarrow> of_nat a \<in> A \<Longrightarrow> agree A m (set_k_prev (of_nat a) v m')"
  "agree A m m' \<Longrightarrow> of_nat a + 4 \<in> A \<Longrightarrow> agree A m (set_k_size (of_nat a) v m')"
  "agree A m m' \<Longrightarrow> of_nat a + 8 \<in> A \<Longrightarrow> agree A m (set_f_prev (of_nat a) v m')"
  "agree A m m' \<Longrightarrow> of_nat a + 12 \<in> A \<Longrightarrow> agree A m (set_f_next (of_nat a) v m')"
  by (auto simp: agree_def field_defs)

lemma fw_hw:
  assumes "spaced D" "a \<in> D" "S \<subseteq> D"
  shows "of_nat a \<notin> fw S" "of_nat a + 4 \<notin> fw S" "a \<notin> S \<Longrightarrow> of_nat a + 8 \<notin> fw S" "a \<notin> S \<Longrightarrow> of_nat a + 12 \<notin> fw S"
    "of_nat a + 8 \<notin> hw S" "of_nat a + 12 \<notin> hw S" "a \<notin> S \<Longrightarrow> of_nat a \<notin> hw S" "a \<notin> S \<Longrightarrow> of_nat a + 4 \<notin> hw S"
proof -
  have x: "apart (of_nat a) (of_nat b)" if "b \<in> S" "a \<noteq> b" for b using spaced_apart assms that by blast
  show "of_nat a \<notin> fw S" "of_nat a + 4 \<notin> fw S" "a \<notin> S \<Longrightarrow> of_nat a + 8 \<notin> fw S" "a \<notin> S \<Longrightarrow> of_nat a + 12 \<notin> fw S"
    "of_nat a + 8 \<notin> hw S" "of_nat a + 12 \<notin> hw S" "a \<notin> S \<Longrightarrow> of_nat a \<notin> hw S" "a \<notin> S \<Longrightarrow> of_nat a + 4 \<notin> hw S"
    using x unfolding fw_def hw_def apart_def by force+
qed

lemma agree_links:
  assumes "spaced D" "a \<in> D" "S \<subseteq> D" "agree (fw S) m m'"
  shows "k_prev m' (of_nat a) = k_prev m (of_nat a)" "k_size m' (of_nat a) = k_size m (of_nat a)"
    "a \<notin> S \<Longrightarrow> f_prev m' (of_nat a) = f_prev m (of_nat a)" "a \<notin> S \<Longrightarrow> f_next m' (of_nat a) = f_next m (of_nat a)"
  using fw_hw [OF assms(1-3)] assms(4) by (simp_all add: agree_def field_defs)

lemma agree_headers:
  assumes "spaced D" "a \<in> D" "S \<subseteq> D" "agree (hw S) m m'"
  shows "f_prev m' (of_nat a) = f_prev m (of_nat a)" "f_next m' (of_nat a) = f_next m (of_nat a)"
    "a \<notin> S \<Longrightarrow> k_prev m' (of_nat a) = k_prev m (of_nat a)" "a \<notin> S \<Longrightarrow> k_size m' (of_nat a) = k_size m (of_nat a)"
  using fw_hw [OF assms(1-3)] assms(4) by (simp_all add: agree_def field_defs)

section \<open>Free lists\<close>

definition addr_hd :: "nat list \<Rightarrow> 32 word" where
  "addr_hd xs = (case xs of [] \<Rightarrow> 0 | x # _ \<Rightarrow> of_nat x)"

lemma addr_hd_simps [simp]: "addr_hd [] = 0" "addr_hd (x # xs) = of_nat x"
  by (simp_all add: addr_hd_def)

text \<open>\<open>dll m p xs n\<close>: the blocks \<open>xs\<close> are doubly linked, with \<open>p\<close> before and \<open>n\<close> behind them.\<close>

fun dll :: "pmem \<Rightarrow> 32 word \<Rightarrow> nat list \<Rightarrow> 32 word \<Rightarrow> bool" where
  "dll m p [] n = True"
| "dll m p (x # xs) n \<longleftrightarrow> f_prev m (of_nat x) = p \<and> f_next m (of_nat x) = (case xs of [] \<Rightarrow> n | y # _ \<Rightarrow> of_nat y) \<and>
     dll m (of_nat x) xs n"

type_synonym lists = "nat \<Rightarrow> nat \<Rightarrow> nat list"

definition bitmaps_ok :: "lists \<Rightarrow> k_mm_head \<Rightarrow> bool" where
  "bitmaps_ok F hh \<longleftrightarrow> (\<forall>fl < 14. \<forall>sl < 32. (bit (sl_bitmap hh fl) sl \<longleftrightarrow> F fl sl \<noteq> []) \<and> mm_tbl hh fl sl = addr_hd (F fl sl)) \<and>
     (\<forall>fl. bit (fl_bitmap hh) fl \<longleftrightarrow> fl < 14 \<and> sl_bitmap hh fl \<noteq> 0)"

lemma find_last_bit_ok:
  assumes "w \<noteq> 0"
  obtains k where "find_last_bit w = Inr k" "bit w k" "\<forall>i < k. \<not> bit w i" "k < 32"
proof -
  obtain j where "bit w j" using assms by (metis bit_0_eq bit_eqI bot_apply bot_bool_def)
  define k where "k = (LEAST i. bit w i)"
  have k: "bit w k" "\<forall>i < k. \<not> bit w i" using LeastI [of "bit w", OF \<open>bit w j\<close>] not_less_Least by (auto simp: k_def)
  note b = bit_lowest_isolated [OF k]
  then have nz: "w AND - w \<noteq> 0" by (metis bit_0_eq bot_apply bot_bool_def)
  note e = find_first_bit_word_single_bit [OF nz b]
  have "find_last_bit w = Inr k"
    using assms nz e by (auto simp: find_last_bit_def Let_def)
  then show ?thesis using that k e by blast
qed

lemma findblk_ok:
  assumes b: "bitmaps_ok F hh" and c: "fl < 14" "sl < 32"
  obtains (found) x xs fl' sl' where "findblk_byidx hh fl sl = Inr (of_nat x, fl', sl')" "F fl' sl' = x # xs"
      "cls_le (fl, sl) (fl', sl')" "fl' < 14" "sl' < 32"
  | (none) fl' sl' where "findblk_byidx hh fl sl = Inr (0, fl', sl')"
      "\<And>i j. cls_le (fl, sl) (i, j) \<Longrightarrow> i < 14 \<Longrightarrow> j < 32 \<Longrightarrow> F i j = []"
proof -
  define tmp where "tmp = sl_bitmap hh fl AND push_bit sl (-1)"
  have t: "bit tmp i \<longleftrightarrow> bit (sl_bitmap hh fl) i \<and> sl \<le> i" for i
    by (auto simp: tmp_def bit_simps not_le not_less Suc_le_eq dest: bit_imp_le_length)
  define flw where "flw = fl_bitmap hh AND push_bit (fl + 1) (-1)"
  have f: "bit flw i \<longleftrightarrow> bit (fl_bitmap hh) i \<and> fl < i" for i
    by (auto simp: flw_def bit_simps not_le not_less Suc_le_eq dest: bit_imp_le_length)
  have nonempty: "F i j \<noteq> []" "mm_tbl hh i j = of_nat (hd (F i j))" if "i < 14" "j < 32" "bit (sl_bitmap hh i) j" for i j
    using b that by (auto simp: bitmaps_ok_def addr_hd_def split: list.splits)
  note def = findblk_byidx_def [of hh fl sl, unfolded Let_def, folded tmp_def flw_def]
  show ?thesis
  proof (cases "tmp = 0")
    case False
    obtain k where k: "find_last_bit tmp = Inr k" "bit tmp k" "k < 32" using find_last_bit_ok [OF False] by blast
    then have n: "F fl k \<noteq> []" "mm_tbl hh fl k = of_nat (hd (F fl k))" using nonempty c(1) t by simp_all
    show ?thesis
      using found [of "hd (F fl k)" fl k "tl (F fl k)"] n c k(3) k(2) False
      by (simp add: def k(1) in_tbl_def FLT_SIZE_def SLT_SIZE_def cls_le_def t)
  next
    case True
    have e: "F fl j = []" if "sl \<le> j" "j < 32" for j
      using b c(1) that t [of j] True by (auto simp: bitmaps_ok_def)
    show ?thesis
    proof (cases "flw = 0")
      case z: True
      have "F i j = []" if "cls_le (fl, sl) (i, j)" "i < 14" "j < 32" for i j
      proof (cases "i = fl")
        case False
        then have "\<not> bit (fl_bitmap hh) i" using f [of i] z that(1) by (auto simp: cls_le_def)
        then have "sl_bitmap hh i = 0" using b that(2) by (simp add: bitmaps_ok_def)
        then show ?thesis using b that(2,3) by (auto simp: bitmaps_ok_def)
      qed (use e that in \<open>auto simp: cls_le_def\<close>)
      then show ?thesis
        using none [of 0 sl] True z by (simp add: def find_last_bit_def)
    next
      case False
      obtain k where k: "find_last_bit flw = Inr k" "bit flw k" using find_last_bit_ok [OF False] by blast
      then have k': "fl < k" "k < 14" "sl_bitmap hh k \<noteq> 0" using b f [of k] by (auto simp: bitmaps_ok_def)
      obtain j where j: "find_last_bit (sl_bitmap hh k) = Inr j" "bit (sl_bitmap hh k) j" "j < 32"
        using find_last_bit_ok [OF k'(3)] by blast
      then have n: "F k j \<noteq> []" "mm_tbl hh k j = of_nat (hd (F k j))" using nonempty k'(2) by simp_all
      show ?thesis
        using found [of "hd (F k j)" k j "tl (F k j)"] n k' j True k(1)
        by (simp add: def cls_le_def in_tbl_def FLT_SIZE_def SLT_SIZE_def)
    qed
  qed
qed

section \<open>Inserting and removing\<close>

lemma dll_append:
  "dll m p (us @ vs) n \<longleftrightarrow> dll m p us (case vs of [] \<Rightarrow> n | v # _ \<Rightarrow> of_nat v) \<and>
     dll m (if us = [] then p else of_nat (last us)) vs n"
  by (induction us arbitrary: p) (auto split: list.splits)

lemma dll_agree:
  assumes "spaced D" "set xs \<subseteq> D" "S \<subseteq> D" "set xs \<inter> S = {}" "agree (fw S) m m'"
  shows "dll m' p xs n = dll m p xs n"
  using assms(2,4) by (induction xs arbitrary: p) (auto simp: agree_links [OF assms(1) _ assms(3,5)])

lemma dll_headers:
  assumes "spaced D" "set xs \<subseteq> D" "S \<subseteq> D" "agree (hw S) m m'"
  shows "dll m' p xs n = dll m p xs n"
  using assms(2) by (induction xs arbitrary: p) (auto simp: agree_headers [OF assms(1) _ assms(3,4)])

lemma dll_set_prev:
  assumes "spaced D" "set (v # vs) \<subseteq> D" "distinct (v # vs)" "dll m p (v # vs) n"
  shows "dll (set_f_prev (of_nat v) q m) q (v # vs) n"
proof -
  have "dll (set_f_prev (of_nat v) q m) (of_nat v) vs n = dll m (of_nat v) vs n"
    using assms(2,3) by (intro dll_agree [OF assms(1), of _ "{v}"] agree_set) auto
  then show ?thesis using assms(4) by simp
qed

lemma dll_set_next:
  assumes "spaced D" "set us \<subseteq> D" "distinct us" "us \<noteq> []" "dll m p us n"
  shows "dll (set_f_next (of_nat (last us)) q m) p us q"
  using assms(2-)
proof (induction us arbitrary: p)
  case (Cons x us)
  show ?case
  proof (cases us)
    case Nil
    then show ?thesis using Cons.prems by simp
  next
    case (Cons y ys)
    have "last us \<in> set us" using Cons by simp
    then have "last us \<noteq> x" "x \<in> D" "last us \<in> D" using Cons.prems(1,2) by auto
    then have "apart (of_nat x) (of_nat (last us))" using spaced_apart [OF assms(1)] by blast
    then show ?thesis
      using Cons Cons.IH [of "of_nat x"] Cons.prems by (simp add: field_apart)
  qed
qed simp

definition lists_ok :: "nat set \<Rightarrow> lists \<Rightarrow> pmem \<Rightarrow> k_mm_head \<Rightarrow> bool" where
  "lists_ok D F m hh \<longleftrightarrow> bitmaps_ok F hh \<and>
     (\<forall>fl < 14. \<forall>sl < 32. dll m 0 (F fl sl) 0 \<and> distinct (F fl sl) \<and> set (F fl sl) \<subseteq> D) \<and>
     (\<forall>fl < 14. \<forall>sl < 32. \<forall>fl' < 14. \<forall>sl' < 32. (fl, sl) \<noteq> (fl', sl') \<longrightarrow> set (F fl sl) \<inter> set (F fl' sl') = {})"

definition members :: "lists \<Rightarrow> nat set" where
  "members F = (\<Union>fl \<in> {..<14}. \<Union>sl \<in> {..<32}. set (F fl sl))"

definition upd_list :: "nat \<Rightarrow> nat \<Rightarrow> nat list \<Rightarrow> lists \<Rightarrow> lists" where
  "upd_list fl sl xs F = F(fl := (F fl)(sl := xs))"

lemma upd_list_apply: "upd_list fl sl xs F i j = (if i = fl \<and> j = sl then xs else F i j)"
  by (simp add: upd_list_def)

text \<open>The fields of the head that the lists do not use.\<close>

definition same_info :: "k_mm_head \<Rightarrow> k_mm_head \<Rightarrow> bool" where
  "same_info hh hh' \<longleftrightarrow> regioninfo hh' = regioninfo hh \<and> fixedmblk hh' = fixedmblk hh \<and> used_size hh' = used_size hh \<and>
     maxused_size hh' = maxused_size hh \<and> free_size hh' = free_size hh \<and> mm_size_stats hh' = mm_size_stats hh"

lemma mark_ok:
  assumes "i < 32"
  obtains w' where "mark i w = Inr w'" "\<And>j. bit w' j \<longleftrightarrow> j = i \<or> bit w j"
proof -
  have "mark i w = Inr (w OR BITMAP_MASK (31 - i))" using assms by (simp add: mark_def krhino_bitmap_set_def)
  moreover have "bit (w OR BITMAP_MASK (31 - i)) j \<longleftrightarrow> j = i \<or> bit w j" for j
    using assms by (auto simp: bit_or_iff bit_BITMAP_MASK)
  ultimately show ?thesis using that by blast
qed

lemma unmark_ok:
  assumes "i < 32"
  obtains w' where "unmark i w = Inr w'" "\<And>j. bit w' j \<longleftrightarrow> j \<noteq> i \<and> bit w j"
proof -
  have "unmark i w = Inr (w AND NOT (BITMAP_MASK (31 - i)))" using assms by (simp add: unmark_def krhino_bitmap_clear_def)
  moreover have "bit (w AND NOT (BITMAP_MASK (31 - i))) j \<longleftrightarrow> j \<noteq> i \<and> bit w j" for j
    using assms by (auto simp: bit_and_iff bit_not_iff bit_BITMAP_MASK dest: bit_imp_le_length)
  ultimately show ?thesis using that by blast
qed

lemma bitmaps_insert:
  assumes "bitmaps_ok F hh" "fl < 14" "sl < 32" "\<And>j. bit sw j \<longleftrightarrow> j = sl \<or> bit (sl_bitmap hh fl) j"
    "\<And>j. bit fv j \<longleftrightarrow> j = fl \<or> bit (fl_bitmap hh) j"
  shows "bitmaps_ok (upd_list fl sl (x # F fl sl) F)
    ((set_tbl fl sl (of_nat x) hh)\<lparr>sl_bitmap := (sl_bitmap hh)(fl := sw), fl_bitmap := fv\<rparr>)"
proof -
  have "sw \<noteq> 0" using assms(4) [of sl] by (metis bit_0_eq bot_apply bot_bool_def)
  then show ?thesis using assms unfolding bitmaps_ok_def by (auto simp: set_tbl_def upd_list_apply)
qed

lemma lists_ok_upd:
  assumes l: "lists_ok D F m hh" and c: "fl < 14" "sl < 32" and b: "bitmaps_ok (upd_list fl sl xs F) hh'"
    and x: "dll m' 0 xs 0" "distinct xs" "set xs \<subseteq> D"
    and o: "\<And>i j. i < 14 \<Longrightarrow> j < 32 \<Longrightarrow> (i, j) \<noteq> (fl, sl) \<Longrightarrow> dll m' 0 (F i j) 0 \<and> set xs \<inter> set (F i j) = {}"
  shows "lists_ok D (upd_list fl sl xs F) m' hh'"
proof -
  have "dll m' 0 (upd_list fl sl xs F i j) 0 \<and> distinct (upd_list fl sl xs F i j) \<and> set (upd_list fl sl xs F i j) \<subseteq> D"
    if "i < 14" "j < 32" for i j
    using l x o [OF that] that by (auto simp: upd_list_apply lists_ok_def)
  moreover have "set (upd_list fl sl xs F i j) \<inter> set (upd_list fl sl xs F i' j') = {}"
    if "i < 14" "j < 32" "i' < 14" "j' < 32" "(i, j) \<noteq> (i', j')" for i j i' j'
  proof -
    have "set (F i j) \<inter> set (F i' j') = {}" using l that unfolding lists_ok_def by blast
    moreover have "i = fl \<Longrightarrow> j = sl \<Longrightarrow> set xs \<inter> set (F i' j') = {}" using o [OF that(3,4)] that(5) by blast
    moreover have "i' = fl \<Longrightarrow> j' = sl \<Longrightarrow> set (F i j) \<inter> set xs = {}" using o [OF that(1,2)] that(5) by blast
    ultimately show ?thesis using that(5) by (auto simp: upd_list_apply)
  qed
  ultimately show ?thesis using b unfolding lists_ok_def by blast
qed

lemma insert_block_ok:
  assumes D: "spaced D" and l: "lists_ok D F (hmem h) (hhead h)" and c: "fl < 14" "sl < 32" and x: "x \<in> D" "x \<notin> members F"
  obtains m' hh' where "insert_block (of_nat x) fl sl h = Inr (h\<lparr>hmem := m', hhead := hh'\<rparr>)"
    "lists_ok D (upd_list fl sl (x # F fl sl) F) m' hh'" "agree (fw (insert x (members F))) (hmem h) m'" "same_info (hhead h) hh'"
proof -
  define m where "m = hmem h"
  define hh where "hh = hhead h"
  define xs where "xs = F fl sl"
  have b: "bitmaps_ok F hh" "dll m 0 xs 0" "distinct xs" "set xs \<subseteq> D" "x \<notin> set xs" "mm_tbl hh fl sl = addr_hd xs"
    using l c x(2) by (auto simp: lists_ok_def bitmaps_ok_def members_def hh_def m_def xs_def)
  define m1 where "m1 = set_f_next (of_nat x) (addr_hd xs) (set_f_prev (of_nat x) 0 m)"
  define m2 where "m2 = (if addr_hd xs \<noteq> 0 then set_f_prev (addr_hd xs) (of_nat x) m1 else m1)"
  have sub: "set xs \<subseteq> members F" "members F \<subseteq> D" using c l by (auto simp: members_def xs_def lists_ok_def)
  have a1: "agree (fw {x}) m m1" unfolding m1_def by (auto intro!: agree_step simp: fw_def)
  have d1: "dll m1 0 xs 0" using dll_agree [OF D b(4), of "{x}" m m1] a1 x(1) b(2,5) by simp
  have x1: "f_prev m1 (of_nat x) = 0" "f_next m1 (of_nat x) = addr_hd xs" by (simp_all add: m1_def)
  have d2: "dll m2 0 (x # xs) 0"
  proof (cases xs)
    case Nil
    then show ?thesis using x1 by (simp add: m2_def)
  next
    case (Cons y ys)
    then have y: "of_nat y \<noteq> (0::32 word)" "apart (of_nat x) (of_nat y)" using b(4,5) x(1) spaced_nonzero [OF D] spaced_apart [OF D] by auto
    then have "dll m2 (of_nat x) xs 0" using dll_set_prev [OF D, of y ys] Cons b(3,4) d1 by (simp add: m2_def)
    then show ?thesis using x1 Cons y by (simp add: m2_def field_apart)
  qed
  have a2: "agree (fw (insert x (set xs))) m m2"
    using a1 agree_mono [OF a1] unfolding m2_def
    by (cases xs) (auto simp: fw_def intro!: agree_step intro: agree_mono)
  obtain sw where sw: "mark sl (sl_bitmap hh fl) = Inr sw" "\<And>j. bit sw j \<longleftrightarrow> j = sl \<or> bit (sl_bitmap hh fl) j"
    using mark_ok [OF c(2)] by metis
  have "fl < 32" using c(1) by simp
  then obtain fw' where fw': "mark fl (fl_bitmap hh) = Inr fw'" "\<And>j. bit fw' j \<longleftrightarrow> j = fl \<or> bit (fl_bitmap hh) j"
    using mark_ok by metis
  define hh' where "hh' = (set_tbl fl sl (of_nat x) hh)\<lparr>sl_bitmap := (sl_bitmap hh)(fl := sw), fl_bitmap := fw'\<rparr>"
  have "insert_block (of_nat x) fl sl h = Inr (h\<lparr>hmem := m2, hhead := hh'\<rparr>)"
    using c sw(1) fw'(1) unfolding insert_block_def hh_def [symmetric] m_def [symmetric]
    by (simp add: in_tbl_def FLT_SIZE_def SLT_SIZE_def b(6) Let_def m1_def m2_def hh'_def set_tbl_def)
  moreover have "lists_ok D (upd_list fl sl (x # xs) F) m2 hh'"
  proof (rule lists_ok_upd [OF l [folded m_def hh_def] c _ d2])
    show "bitmaps_ok (upd_list fl sl (x # xs) F) hh'" unfolding hh'_def xs_def using bitmaps_insert [OF b(1) c sw(2) fw'(2)] .
    show "dll m2 0 (F i j) 0 \<and> set (x # xs) \<inter> set (F i j) = {}" if "i < 14" "j < 32" "(i, j) \<noteq> (fl, sl)" for i j
    proof -
      have s: "set (F i j) \<subseteq> D" "set (F i j) \<inter> set xs = {}" "x \<notin> set (F i j)" "dll m 0 (F i j) 0"
        using l x(2) c that unfolding lists_ok_def xs_def m_def members_def by blast+
      show ?thesis using dll_agree [OF D s(1) _ _ a2] s b(4) x(1) by auto
    qed
  qed (use b x in auto)
  moreover have "agree (fw (insert x (members F))) m m2" using a2 sub(1) by (rule_tac agree_mono) (auto simp: fw_def)
  moreover have "same_info hh hh'" by (simp add: same_info_def hh'_def set_tbl_def)
  ultimately show ?thesis using that by (simp add: m_def hh_def xs_def)
qed

lemma clear_class_ok:
  assumes b: "bitmaps_ok F hh" and c: "fl < 14" "sl < 32"
  obtains hh' where "clear_class fl sl (set_tbl fl sl 0 hh) = Inr hh'" "bitmaps_ok (upd_list fl sl [] F) hh'" "same_info hh hh'"
proof -
  obtain sw where sw: "unmark sl (sl_bitmap hh fl) = Inr sw" "\<And>j. bit sw j \<longleftrightarrow> j \<noteq> sl \<and> bit (sl_bitmap hh fl) j"
    using unmark_ok [OF c(2)] by metis
  have "fl < 32" using c(1) by simp
  then obtain fv where fv: "unmark fl (fl_bitmap hh) = Inr fv" "\<And>j. bit fv j \<longleftrightarrow> j \<noteq> fl \<and> bit (fl_bitmap hh) j"
    using unmark_ok by metis
  show ?thesis
  proof (cases "sw = 0")
    case True
    let ?hh = "(set_tbl fl sl 0 hh)\<lparr>sl_bitmap := (sl_bitmap hh)(fl := sw), fl_bitmap := fv\<rparr>"
    have "bitmaps_ok (upd_list fl sl [] F) ?hh"
      using b sw(2) fv(2) True unfolding bitmaps_ok_def by (auto simp: set_tbl_def upd_list_apply)
    then show ?thesis using that [of ?hh] sw(1) fv(1) True by (simp add: clear_class_def same_info_def set_tbl_def)
  next
    case False
    let ?hh = "(set_tbl fl sl 0 hh)\<lparr>sl_bitmap := (sl_bitmap hh)(fl := sw)\<rparr>"
    have nz: "sl_bitmap hh fl \<noteq> 0" using False sw(2) by (metis bit_0_eq bit_eqI bot_apply bot_bool_def)
    have "bitmaps_ok (upd_list fl sl [] F) ?hh"
      using b sw(2) nz False unfolding bitmaps_ok_def by (auto simp: set_tbl_def upd_list_apply)
    then show ?thesis using that [of ?hh] sw(1) False by (simp add: clear_class_def same_info_def set_tbl_def)
  qed
qed

text \<open>Taking a block out of the middle of a doubly linked list.\<close>

lemma unlink_ok:
  assumes D: "spaced D" and s: "set (us @ x # vs) \<subseteq> D" "distinct (us @ x # vs)" and d: "dll m 0 (us @ x # vs) 0"
  defines "P \<equiv> (if us = [] then 0 else of_nat (last us))"
  defines "m1 \<equiv> (if addr_hd vs \<noteq> 0 then set_f_prev (addr_hd vs) P m else m)"
  defines "m2 \<equiv> (if P \<noteq> 0 then set_f_next P (addr_hd vs) m1 else m1)"
  shows "f_prev m (of_nat x) = P" "f_next m (of_nat x) = addr_hd vs" "f_prev m1 (of_nat x) = P" "f_next m1 (of_nat x) = addr_hd vs"
    "f_next m2 (of_nat x) = addr_hd vs"
    "dll (set_f_next (of_nat x) 0 (set_f_prev (of_nat x) 0 m2)) 0 (us @ vs) 0"
    "agree (fw (set (us @ x # vs))) m (set_f_next (of_nat x) 0 (set_f_prev (of_nat x) 0 m2))"
proof -
  have d0: "dll m 0 us (of_nat x)" "f_prev m (of_nat x) = P" "dll m (of_nat x) vs 0"
    and nx: "f_next m (of_nat x) = addr_hd vs"
    using d by (auto simp: dll_append P_def addr_hd_def)
  have mem: "x \<in> D" "set us \<subseteq> D" "set vs \<subseteq> D" "x \<notin> set us" "x \<notin> set vs" "set us \<inter> set vs = {}" "distinct us" "distinct vs"
    using s by auto
  have P: "P = 0 \<longleftrightarrow> us = []" "us \<noteq> [] \<Longrightarrow> last us \<in> set us"
    using spaced_nonzero [OF D subsetD [OF mem(2) last_in_set [of us]]] by (auto simp: P_def)
  have V: "addr_hd vs = 0 \<longleftrightarrow> vs = []" using spaced_nonzero [OF D] mem(3) by (auto simp: addr_hd_def split: list.splits)
  have a1: "agree (fw (set vs)) m m1" by (cases vs) (auto simp: m1_def fw_def intro!: agree_step)
  have d1: "dll m1 0 us (of_nat x)" using dll_agree [OF D mem(2,3) _ a1] mem(6) d0(1) by simp
  have v1: "dll m1 P vs 0"
    using dll_set_prev [OF D, of "hd vs" "tl vs" m "of_nat x" 0 P] V mem(3,8) d0(3)
    by (cases vs) (simp_all add: m1_def)
  have x1: "f_prev m1 (of_nat x) = P" "f_next m1 (of_nat x) = addr_hd vs"
    using agree_links(3,4) [OF D mem(1,3) a1 mem(5)] d0(2) nx by simp_all
  have a2: "agree (fw (set us)) m1 m2" using P by (cases "us = []") (auto simp: m2_def P_def intro!: agree_step fwI)
  have d2: "dll m2 0 us (addr_hd vs)"
    using dll_set_next [OF D mem(2,7) _ d1] P(1) by (cases "us = []") (simp_all add: m2_def P_def)
  have v2: "dll m2 P vs 0" using dll_agree [OF D mem(3,2) _ a2] mem(6) v1 by auto
  have x2: "f_next m2 (of_nat x) = addr_hd vs" using agree_links(4) [OF D mem(1,2) a2 mem(4)] x1(2) by simp
  define m3 where "m3 = set_f_next (of_nat x) 0 (set_f_prev (of_nat x) 0 m2)"
  have a3: "agree (fw {x}) m2 m3" unfolding m3_def by (auto simp: fw_def intro!: agree_step)
  have "dll m3 0 us (addr_hd vs)" "dll m3 P vs 0"
    using dll_agree [OF D mem(2) _ _ a3] dll_agree [OF D mem(3) _ _ a3] mem d2 v2 by simp_all
  then have e: "dll m3 0 (us @ vs) 0" by (simp add: dll_append P_def addr_hd_def)
  show "f_prev m (of_nat x) = P" "f_next m (of_nat x) = addr_hd vs" "f_prev m1 (of_nat x) = P" "f_next m1 (of_nat x) = addr_hd vs"
    "f_next m2 (of_nat x) = addr_hd vs" "dll m3 0 (us @ vs) 0" by (fact d0 nx x1 x2 e)+
  show "agree (fw (set (us @ x # vs))) m m3"
    using agree_trans [OF agree_trans [OF a1 a2] a3] by (rule agree_mono) (auto simp: fw_def)
qed

lemma get_block_ok:
  assumes D: "spaced D" and l: "lists_ok D F (hmem h) (hhead h)" and c: "fl < 14" "sl < 32" and x: "x \<in> set (F fl sl)"
  obtains m' hh' where "get_block (of_nat x) fl sl h = Inr (h\<lparr>hmem := m', hhead := hh'\<rparr>)"
    "lists_ok D (upd_list fl sl (remove1 x (F fl sl)) F) m' hh'" "agree (fw (members F)) (hmem h) m'" "same_info (hhead h) hh'"
proof -
  obtain us vs where f: "F fl sl = us @ x # vs" using x by (meson split_list)
  define m where "m = hmem h"
  define hh where "hh = hhead h"
  have b: "bitmaps_ok F hh" "dll m 0 (us @ x # vs) 0" "distinct (us @ x # vs)" "set (us @ x # vs) \<subseteq> D"
    "mm_tbl hh fl sl = addr_hd (us @ x # vs)"
    using l c unfolding f [symmetric] hh_def m_def by (simp_all add: lists_ok_def bitmaps_ok_def)
  have r: "remove1 x (F fl sl) = us @ vs" using f b(3) by (simp add: remove1_append)
  define P where "P = (if us = [] then 0 else of_nat (last us) :: 32 word)"
  define m1 where "m1 = (if addr_hd vs \<noteq> 0 then set_f_prev (addr_hd vs) P m else m)"
  define m2 where "m2 = (if P \<noteq> 0 then set_f_next P (addr_hd vs) m1 else m1)"
  define m3 where "m3 = set_f_next (of_nat x) 0 (set_f_prev (of_nat x) 0 m2)"
  note u = unlink_ok [OF D b(4,3,2), folded P_def, folded m1_def, folded m2_def, folded m3_def]
  have first: "mm_tbl hh fl sl = of_nat x \<longleftrightarrow> us = []"
    using b(3,4,5) spaced_inj [OF D] by (cases us) auto
  obtain hh' where hh': "(if mm_tbl hh fl sl = of_nat x
      then (let hh = set_tbl fl sl (addr_hd vs) hh in if mm_tbl hh fl sl = 0 then clear_class fl sl hh else Inr hh)
      else Inr hh) = Inr hh'" "bitmaps_ok (upd_list fl sl (us @ vs) F) hh'" "same_info hh hh'"
  proof (cases "us = []")
    case True
    have V: "addr_hd vs = 0 \<longleftrightarrow> vs = []" using spaced_nonzero [OF D] b(4) by (auto simp: addr_hd_def split: list.splits)
    show ?thesis
    proof (cases "vs = []")
      case v: True
      obtain hh' where "clear_class fl sl (set_tbl fl sl 0 hh) = Inr hh'" "bitmaps_ok (upd_list fl sl [] F) hh'" "same_info hh hh'"
        using clear_class_ok [OF b(1) c] .
      then show ?thesis using that True first v by (simp add: Let_def set_tbl_def)
    next
      case False
      have "bitmaps_ok (upd_list fl sl vs F) (set_tbl fl sl (addr_hd vs) hh)"
        using b(1) f False c True unfolding bitmaps_ok_def by (auto simp: set_tbl_def upd_list_apply)
      then show ?thesis using that [of "set_tbl fl sl (addr_hd vs) hh"] True first V False by (simp add: Let_def set_tbl_def same_info_def)
    qed
  next
    case False
    have "addr_hd (us @ vs) = addr_hd (us @ x # vs)" using False by (cases us) auto
    then have "bitmaps_ok (upd_list fl sl (us @ vs) F) hh"
      using b(1) f False c unfolding bitmaps_ok_def by (auto simp: upd_list_apply)
    then show ?thesis using that [of hh] False first by (simp add: same_info_def)
  qed
  have "get_block (of_nat x) fl sl h = Inr (h\<lparr>hmem := m3, hhead := hh'\<rparr>)"
    using c hh'(1) unfolding get_block_def Let_def hh_def [symmetric] m_def [symmetric] u(1,2) m1_def [symmetric] u(3,4)
      m2_def [symmetric] u(5) m3_def [symmetric]
    by (simp add: in_tbl_def FLT_SIZE_def SLT_SIZE_def)
  moreover have "lists_ok D (upd_list fl sl (us @ vs) F) m3 hh'"
  proof (rule lists_ok_upd [OF l [folded m_def hh_def] c hh'(2) u(6)])
    show "dll m3 0 (F i j) 0 \<and> set (us @ vs) \<inter> set (F i j) = {}" if "i < 14" "j < 32" "(i, j) \<noteq> (fl, sl)" for i j
    proof -
      have s: "set (F i j) \<subseteq> D" "set (F i j) \<inter> set (us @ x # vs) = {}" "dll m 0 (F i j) 0"
        using l c that unfolding lists_ok_def f [symmetric] m_def by blast+
      show ?thesis using dll_agree [OF D s(1) b(4) s(2) u(7)] s by auto
    qed
  qed (use b in auto)
  moreover have "agree (fw (members F)) m m3"
    using u(7) c unfolding f [symmetric] by (rule_tac agree_mono) (auto simp: members_def intro!: fw_mono)
  ultimately show ?thesis using that hh'(3) r by (simp add: m_def hh_def)
qed

lemma take_first_get:
  assumes "f_prev (hmem h) b = 0" "mm_tbl (hhead h) fl sl = b" "f_next (hmem h) b \<noteq> 0 \<Longrightarrow> apart b (f_next (hmem h) b)"
  shows "take_first fl sl b h = get_block b fl sl h"
proof (cases "f_next (hmem h) b = 0")
  case True
  then show ?thesis
    using assms(1,2) by (cases "clear_class fl sl (set_tbl fl sl 0 (hhead h))") (auto simp: take_first_def get_block_def Let_def in_tbl_def set_tbl_def)
next
  case False
  then have "apart b (f_next (hmem h) b)" using assms(3) by simp
  then show ?thesis
    using assms(1,2) False by (auto simp: take_first_def get_block_def Let_def in_tbl_def set_tbl_def field_apart)
qed

end
