(* ===== verification/MmLayout.thy ===== *)
theory MmLayout
  imports MmLists
begin

unbundle bit_operations_syntax

text \<open>
  Where the blocks of the heap lie. A layout maps the address of a block header to the size of the
  block, whether it is free, and the free block in front of it, if there is one. The blocks do not overlap, every block but the
  sentinel of a region is followed by another one, and two free blocks never touch.
\<close>

section \<open>Tags\<close>

record mblock =
  msz :: nat
  mfree :: bool
  mprev :: "nat option"

text \<open>The \<open>size\<close> field of a header: bit 0 for a free block, bit 1 when the block before is free.\<close>

definition tag :: "mblock \<Rightarrow> 32 word" where
  "tag B = of_nat (msz B) OR (if mfree B then 1 else 0) OR (if mprev B = None then 0 else 2)"

lemma low_bits:
  assumes "n mod 4 = 0"
  shows "\<not> bit (of_nat n :: 32 word) 0" "\<not> bit (of_nat n :: 32 word) (Suc 0)"
proof -
  have "n = push_bit 2 (n div 4)" using assms by (simp add: push_bit_eq_mult) presburger
  then have "(of_nat n :: 32 word) = push_bit 2 (of_nat (n div 4))" by (metis of_nat_push_bit)
  then show "\<not> bit (of_nat n :: 32 word) 0" "\<not> bit (of_nat n :: 32 word) (Suc 0)" by (simp_all add: bit_push_bit_iff)
qed

lemma bit_12 [simp]: "bit (1 :: 32 word) i \<longleftrightarrow> i = 0" "bit (2 :: 32 word) i \<longleftrightarrow> i = Suc 0" "bit (2 :: int) i \<longleftrightarrow> i = Suc 0"
  by (auto simp: bit_1_iff bit_2_iff)

lemma bit_tag:
  assumes "msz B mod 4 = 0"
  shows "bit (tag B) i \<longleftrightarrow> (if i = 0 then mfree B else if i = Suc 0 then mprev B \<noteq> None else bit (of_nat (msz B) :: 32 word) i)"
  using low_bits [OF assms] by (auto simp: tag_def bit_or_iff)

lemma bit_consts:
  "bit RHINO_MM_BLKSIZE_MASK i \<longleftrightarrow> i < 32 \<and> i \<noteq> 0 \<and> i \<noteq> Suc 0" "bit RHINO_MM_FREE i \<longleftrightarrow> i = 0"
  "bit RHINO_MM_PREVFREE i \<longleftrightarrow> i = Suc 0" "bit RHINO_MM_PRESTAT_MASK i \<longleftrightarrow> i = Suc 0"
proof -
  have e: "RHINO_MM_BLKSIZE_MASK = NOT (mask 2)" by (simp add: RHINO_MM_BLKSIZE_MASK_def MM_ALIGN_MASK_def mask_eq_exp_minus_1)
  have "bit RHINO_MM_BLKSIZE_MASK i \<longleftrightarrow> i < 32 \<and> \<not> i < 2" unfolding e by (auto simp: bit_not_iff bit_mask_iff)
  then show "bit RHINO_MM_BLKSIZE_MASK i \<longleftrightarrow> i < 32 \<and> i \<noteq> 0 \<and> i \<noteq> Suc 0" by auto
  show "bit RHINO_MM_FREE i \<longleftrightarrow> i = 0" "bit RHINO_MM_PREVFREE i \<longleftrightarrow> i = Suc 0" "bit RHINO_MM_PRESTAT_MASK i \<longleftrightarrow> i = Suc 0"
    by (auto simp: RHINO_MM_FREE_def RHINO_MM_PREVFREE_def RHINO_MM_PRESTAT_MASK_def)
qed

lemma tag_ops:
  assumes "msz B mod 4 = 0"
  shows "tag B AND RHINO_MM_BLKSIZE_MASK = of_nat (msz B)"
    "tag B AND RHINO_MM_FREE = (if mfree B then 1 else 0)"
    "tag B AND RHINO_MM_PREVFREE = (if mprev B = None then 0 else 2)"
    "tag B OR RHINO_MM_FREE = tag (B\<lparr>mfree := True\<rparr>)"
    "tag B AND NOT RHINO_MM_FREE = tag (B\<lparr>mfree := False\<rparr>)"
    "tag B OR RHINO_MM_PREVFREE = tag (B\<lparr>mprev := Some p\<rparr>)"
    "tag B AND NOT RHINO_MM_PREVFREE = tag (B\<lparr>mprev := None\<rparr>)"
proof -
  note l = low_bits [OF assms]
  note s = bit_tag assms bit_consts bit_and_iff bit_or_iff bit_not_iff
  show "tag B AND RHINO_MM_BLKSIZE_MASK = of_nat (msz B)" by (rule bit_word_eqI) (use l in \<open>auto simp: s\<close>)
  show "tag B AND RHINO_MM_FREE = (if mfree B then 1 else 0)" by (rule bit_word_eqI) (auto simp: s)
  show "tag B AND RHINO_MM_PREVFREE = (if mprev B = None then 0 else 2)" by (rule bit_word_eqI) (auto simp: s)
  show "tag B OR RHINO_MM_FREE = tag (B\<lparr>mfree := True\<rparr>)" by (rule bit_word_eqI) (auto simp: s)
  show "tag B AND NOT RHINO_MM_FREE = tag (B\<lparr>mfree := False\<rparr>)" by (rule bit_word_eqI) (auto simp: s)
  show "tag B OR RHINO_MM_PREVFREE = tag (B\<lparr>mprev := Some p\<rparr>)" by (rule bit_word_eqI) (auto simp: s)
  show "tag B AND NOT RHINO_MM_PREVFREE = tag (B\<lparr>mprev := None\<rparr>)" by (rule bit_word_eqI) (auto simp: s)
qed

lemma tag_new:
  assumes "n mod 4 = 0"
  shows "of_nat n OR RHINO_MM_FREE = tag \<lparr>msz = n, mfree = True, mprev = None\<rparr>"
    "msz B mod 4 = 0 \<Longrightarrow> of_nat n OR (tag B AND RHINO_MM_PRESTAT_MASK) = tag \<lparr>msz = n, mfree = False, mprev = mprev B\<rparr>"
    "of_nat n = tag \<lparr>msz = n, mfree = False, mprev = None\<rparr>"
proof -
  note l = low_bits [OF assms]
  note s = bit_tag assms bit_consts bit_and_iff bit_or_iff
  show "of_nat n OR RHINO_MM_FREE = tag \<lparr>msz = n, mfree = True, mprev = None\<rparr>"
    "of_nat n = tag \<lparr>msz = n, mfree = False, mprev = None\<rparr>" by (rule bit_word_eqI, use l in \<open>auto simp: s\<close>)+
  show "msz B mod 4 = 0 \<Longrightarrow> of_nat n OR (tag B AND RHINO_MM_PRESTAT_MASK) = tag \<lparr>msz = n, mfree = False, mprev = mprev B\<rparr>"
    by (rule bit_word_eqI) (use l in \<open>auto simp: s\<close>)
qed

lemma tag_add:
  assumes "msz B mod 4 = 0" "n mod 4 = 0"
  shows "tag B + of_nat n = tag (B\<lparr>msz := msz B + n\<rparr>)"
proof -
  have "tag B = of_nat (msz B) + ((if mfree B then 1 else 0) OR (if mprev B = None then 0 else 2))" if "msz B mod 4 = 0" for B
    unfolding tag_def using low_bits [OF that] by (subst disjunctive_add) (auto simp: bit_or_iff intro!: gr0I)
  moreover have "(msz B + n) mod 4 = 0" using assms by presburger
  ultimately show ?thesis using assms(1) by simp
qed

section \<open>Layouts\<close>

type_synonym layout = "nat \<rightharpoonup> mblock"

definition mblock_ok :: "layout \<Rightarrow> nat \<Rightarrow> mblock \<Rightarrow> bool" where
  "mblock_ok L a B \<longleftrightarrow> msz B mod 4 = 0 \<and> a mod 4 = 0 \<and> a + 8 + msz B < 2 ^ 32 \<and>
     (msz B = 0 \<and> \<not> mfree B \<or>
      8 \<le> msz B \<and> (\<exists>N. L (a + 8 + msz B) = Some N \<and> mprev N = (if mfree B then Some a else None) \<and> (mfree B \<longrightarrow> \<not> mfree N))) \<and>
     (\<forall>p. mprev B = Some p \<longrightarrow> (\<exists>P. L p = Some P \<and> mfree P \<and> p + 8 + msz P = a))"

definition layout_ok :: "layout \<Rightarrow> bool" where
  "layout_ok L \<longleftrightarrow> spaced (dom L) \<and> (\<forall>a B. L a = Some B \<longrightarrow> mblock_ok L a B) \<and>
     (\<forall>a b A. L a = Some A \<longrightarrow> b \<in> dom L \<longrightarrow> a < b \<longrightarrow> a + 8 + msz A \<le> b)"

definition headers :: "layout \<Rightarrow> pmem \<Rightarrow> bool" where
  "headers L m \<longleftrightarrow> (\<forall>a B. L a = Some B \<longrightarrow> k_size m (of_nat a) = tag B \<and>
     (\<forall>p. mprev B = Some p \<longrightarrow> k_prev m (of_nat a) = of_nat p))"

definition free_blocks :: "layout \<Rightarrow> nat set" where
  "free_blocks L = {a. \<exists>B. L a = Some B \<and> mfree B}"

text \<open>The blocks \<open>X\<close> are in the lists of their classes. All blocks lie in a window of \<open>MAX_MM_SIZE\<close> bytes, so that no free
  block is too large for the classes.\<close>

definition holds :: "nat set \<Rightarrow> layout \<Rightarrow> lists \<Rightarrow> bool" where
  "holds X L F \<longleftrightarrow> (\<forall>fl < 14. \<forall>sl < 32. set (F fl sl) = {a \<in> X. \<exists>B. L a = Some B \<and> cls (msz B) = (fl, sl)})"

definition near :: "layout \<Rightarrow> bool" where
  "near L \<longleftrightarrow> (\<forall>a \<in> dom L. \<forall>b \<in> dom L. b < a + 2 ^ 20)"

lemma layout_okD:
  assumes "layout_ok L" "L a = Some A"
  shows "0 < a" "a + 16 \<le> 2 ^ 32" "a mod 4 = 0" "msz A mod 4 = 0" "a + 8 + msz A < 2 ^ 32" "mblock_ok L a A"
    "b \<in> dom L \<Longrightarrow> a < b \<Longrightarrow> a + 16 \<le> b \<and> a + 8 + msz A \<le> b"
proof -
  have "a \<in> dom L" using assms(2) by blast
  then show "0 < a" "a + 16 \<le> 2 ^ 32" "a mod 4 = 0" "msz A mod 4 = 0" "a + 8 + msz A < 2 ^ 32" "mblock_ok L a A"
    "b \<in> dom L \<Longrightarrow> a < b \<Longrightarrow> a + 16 \<le> b \<and> a + 8 + msz A \<le> b"
    using assms unfolding layout_ok_def spaced_def mblock_ok_def by blast+
qed

lemma mblock_okI:
  assumes "msz B mod 4 = 0" "a mod 4 = 0" "a + 8 + msz B < 2 ^ 32"
    "msz B = 0 \<and> \<not> mfree B \<or> 8 \<le> msz B \<and> (\<exists>N. L (a + 8 + msz B) = Some N \<and> mprev N = (if mfree B then Some a else None) \<and> (mfree B \<longrightarrow> \<not> mfree N))"
    "\<And>p. mprev B = Some p \<Longrightarrow> \<exists>P. L p = Some P \<and> mfree P \<and> p + 8 + msz P = a"
  shows "mblock_ok L a B"
  using assms unfolding mblock_ok_def by blast

lemma next_block:
  assumes "layout_ok L" "L a = Some A" "msz A \<noteq> 0"
  obtains N where "L (a + 8 + msz A) = Some N" "mprev N = (if mfree A then Some a else None)" "mfree A \<longrightarrow> \<not> mfree N" "8 \<le> msz A"
  using layout_okD(6) [OF assms(1,2)] assms(3) unfolding mblock_ok_def by auto

lemma prev_block:
  assumes "layout_ok L" "L a = Some A" "mprev A = Some p"
  obtains P where "L p = Some P" "mfree P" "p + 8 + msz P = a"
  using layout_okD(6) [OF assms(1,2)] assms(3) unfolding mblock_ok_def by auto

lemma free_block:
  assumes "layout_ok L" "L a = Some A" "mfree A"
  shows "8 \<le> msz A" "mprev A = None"
proof -
  show "8 \<le> msz A" using layout_okD(6) [OF assms(1,2)] assms(3) by (auto simp: mblock_ok_def)
  show "mprev A = None"
  proof (rule ccontr)
    assume "mprev A \<noteq> None"
    then obtain p P where P: "mprev A = Some p" "L p = Some P" "mfree P" "p + 8 + msz P = a" using prev_block [OF assms(1,2)] by blast
    then have "msz P \<noteq> 0" using layout_okD(6) [OF assms(1) P(2)] by (auto simp: mblock_ok_def)
    then show False using next_block [OF assms(1) P(2)] P(3,4) assms(2,3) by auto
  qed
qed

text \<open>The blocks from \<open>s\<close> up to \<open>e\<close> become one.\<close>

definition join :: "nat \<Rightarrow> nat \<Rightarrow> bool \<Rightarrow> layout \<Rightarrow> layout" where
  "join s e f L = (\<lambda>x. if s < x \<and> x < e then None else L x)
     (s \<mapsto> \<lparr>msz = e - s - 8, mfree = f, mprev = mprev (the (L s))\<rparr>,
      e \<mapsto> (the (L e))\<lparr>mprev := if f then Some s else None\<rparr>)"

lemma join_apply:
  "s < e \<Longrightarrow> join s e f L x =
     (if x = s then Some \<lparr>msz = e - s - 8, mfree = f, mprev = mprev (the (L s))\<rparr>
      else if x = e then Some ((the (L e))\<lparr>mprev := if f then Some s else None\<rparr>)
      else if s < x \<and> x < e then None else L x)"
  by (simp add: join_def)

lemma join_ok:
  assumes l: "layout_ok L" and s: "L s = Some S" and e: "L e = Some E" and d: "s + 16 \<le> e"
    and f: "f \<Longrightarrow> \<not> mfree E \<and> mprev S = None"
  shows "layout_ok (join s e f L)"
proof -
  have se: "s < e" using d by simp
  note j = join_apply [OF se, of f L]
  have dm: "dom (join s e f L) = {x \<in> dom L. \<not> (s < x \<and> x < e)}" using s e se by (auto simp: j dom_def split: if_splits)
  then have sp: "spaced (dom (join s e f L))" using l unfolding layout_ok_def spaced_def by auto
  have up: "a + 8 + msz A \<le> b" if "L a = Some A" "b \<in> dom L" "a < b" for a A b using layout_okD(7) [OF l that(1,2,3)] by simp
  have m4: "s mod 4 = 0" "e mod 4 = 0" using layout_okD(3) l s e by blast+
  have "(e - s - 8) mod 4 = 0" using m4 d by presburger
  then have sz: "e - s - 8 + 8 + s = e" "(e - s - 8) mod 4 = 0" "8 \<le> e - s - 8" using d by simp_all
  have low: "\<exists>P. join s e f L p = Some P \<and> mfree P \<and> p + 8 + msz P = a"
    if A: "L a = Some A" "mprev A = Some p" "a \<le> s" for a A p
  proof -
    obtain P where "L p = Some P" "mfree P" "p + 8 + msz P = a" using prev_block [OF l A(1,2)] by blast
    moreover from this have "p < s" using A(3) by simp
    ultimately show ?thesis using se by (simp add: j)
  qed
  have blk: "mblock_ok (join s e f L) a B" if B: "join s e f L a = Some B" for a B
  proof -
    consider "a = s" | "a = e" | "a < s" "L a = Some B" | "e < a" "L a = Some B"
      using B se unfolding j by (auto split: if_splits)
    then show ?thesis
    proof cases
      case 1
      then have B: "B = \<lparr>msz = e - s - 8, mfree = f, mprev = mprev S\<rparr>" using B s by (simp add: j)
      show ?thesis
      proof (rule mblock_okI)
        show "\<exists>P. join s e f L p = Some P \<and> mfree P \<and> p + 8 + msz P = a" if "mprev B = Some p" for p
          using low [OF s, of p] that B 1 by simp
      qed (use B 1 sz se f layout_okD [OF l e] layout_okD(3) [OF l s] e in \<open>auto simp: j\<close>)
    next
      case 2
      then have B: "B = E\<lparr>mprev := if f then Some s else None\<rparr>" using B e se by (simp add: j)
      show ?thesis
      proof (rule mblock_okI)
        show "msz B = 0 \<and> \<not> mfree B \<or> 8 \<le> msz B \<and>
          (\<exists>N. join s e f L (a + 8 + msz B) = Some N \<and> mprev N = (if mfree B then Some a else None) \<and> (mfree B \<longrightarrow> \<not> mfree N))"
          using layout_okD(6) [OF l e] se B 2 by (auto simp: j mblock_ok_def)
      qed (use B 2 sz se layout_okD [OF l e] in \<open>auto simp: j split: if_splits\<close>)
    next
      case 3
      have n: "a + 8 + msz B \<le> s" using up [OF 3(2) _ 3(1)] s by blast
      show ?thesis
      proof (rule mblock_okI)
        show "msz B = 0 \<and> \<not> mfree B \<or> 8 \<le> msz B \<and>
          (\<exists>N. join s e f L (a + 8 + msz B) = Some N \<and> mprev N = (if mfree B then Some a else None) \<and> (mfree B \<longrightarrow> \<not> mfree N))"
          using layout_okD(6) [OF l 3(2)] n se s f by (auto simp: j mblock_ok_def)
        show "\<exists>P. join s e f L p = Some P \<and> mfree P \<and> p + 8 + msz P = a" if "mprev B = Some p" for p
          using low [OF 3(2) that] 3(1) by simp
      qed (use layout_okD [OF l 3(2)] in auto)
    next
      case 4
      show ?thesis
      proof (rule mblock_okI)
        show "msz B = 0 \<and> \<not> mfree B \<or> 8 \<le> msz B \<and>
          (\<exists>N. join s e f L (a + 8 + msz B) = Some N \<and> mprev N = (if mfree B then Some a else None) \<and> (mfree B \<longrightarrow> \<not> mfree N))"
          using layout_okD(6) [OF l 4(2)] 4(1) se by (auto simp: j mblock_ok_def)
        show "\<exists>P. join s e f L p = Some P \<and> mfree P \<and> p + 8 + msz P = a" if p: "mprev B = Some p" for p
        proof -
          obtain P where P: "L p = Some P" "mfree P" "p + 8 + msz P = a" using prev_block [OF l 4(2) p] by blast
          have "\<not> p < e" using up [OF P(1), of e] e P(3) 4(1) by auto
          then show ?thesis using P se e by (cases "p = e") (auto simp: j)
        qed
      qed (use layout_okD [OF l 4(2)] in auto)
    qed
  qed
  have "a + 8 + msz A \<le> b" if "join s e f L a = Some A" "b \<in> dom (join s e f L)" "a < b" for a b A
    using that up [of a A b] up [OF e, of b] s e se sz(1) unfolding dm j by (auto split: if_splits)
  then show ?thesis using sp blk unfolding layout_ok_def by blast
qed

text \<open>A block is cut after its first \<open>x\<close> bytes; the rest becomes a free block.\<close>

definition cut :: "nat \<Rightarrow> nat \<Rightarrow> layout \<Rightarrow> layout" where
  "cut s x L =
     (let S = the (L s); e = s + 8 + msz S
      in L(s \<mapsto> S\<lparr>msz := x\<rparr>, s + 8 + x \<mapsto> \<lparr>msz = msz S - x - 8, mfree = True, mprev = None\<rparr>,
           e \<mapsto> (the (L e))\<lparr>mprev := Some (s + 8 + x)\<rparr>))"

lemma cut_ok:
  assumes l: "layout_ok L" and s: "L s = Some S" "\<not> mfree S" and e: "L e = Some E" "\<not> mfree E" "e = s + 8 + msz S"
    and x: "8 \<le> x" "x mod 4 = 0" "x + 16 \<le> msz S"
  shows "layout_ok (cut s x L)" "L (s + 8 + x) = None"
    "cut s x L a = (if a = s then Some (S\<lparr>msz := x\<rparr>) else if a = s + 8 + x then Some \<lparr>msz = msz S - x - 8, mfree = True, mprev = None\<rparr>
       else if a = e then Some (E\<lparr>mprev := Some (s + 8 + x)\<rparr>) else L a)"
proof -
  define r where "r = s + 8 + x"
  have j: "cut s x L a = (if a = s then Some (S\<lparr>msz := x\<rparr>) else if a = r then Some \<lparr>msz = e - r - 8, mfree = True, mprev = None\<rparr>
       else if a = e then Some (E\<lparr>mprev := Some r\<rparr>) else L a)" for a
    using s(1) e x(3) by (simp add: cut_def r_def Let_def)
  have d: "s + 16 \<le> r" "r + 16 \<le> e" "msz S - x - 8 = e - r - 8" using x e(3) by (auto simp: r_def)
  show "cut s x L a = (if a = s then Some (S\<lparr>msz := x\<rparr>) else if a = s + 8 + x then Some \<lparr>msz = msz S - x - 8, mfree = True, mprev = None\<rparr>
       else if a = e then Some (E\<lparr>mprev := Some (s + 8 + x)\<rparr>) else L a)" using j d(3) unfolding r_def by simp
  have gap: "\<not> (s < a \<and> a < e)" if "a \<in> dom L" for a using layout_okD(7) [OF l s(1) that] e(3) by auto
  then show nr: "L (s + 8 + x) = None" using d unfolding r_def [symmetric] by (metis add_lessD1 domIff le_add1 less_le_trans not_less zero_less_numeral less_add_same_cancel1 le_trans nat_less_le add_le_imp_le_left)
  have m4: "s mod 4 = 0" "r mod 4 = 0" "e mod 4 = 0" "e < 2 ^ 32" "r < 2 ^ 32" "(e - r - 8) mod 4 = 0" "s + 8 + x < 2 ^ 32" "8 \<le> e - r - 8"
  proof -
    show a: "s mod 4 = 0" "e mod 4 = 0" "e < 2 ^ 32" using layout_okD [OF l s(1)] layout_okD(2,3) [OF l e(1)] by auto
    then show b: "r mod 4 = 0" using x(2) unfolding r_def by presburger
    show "(e - r - 8) mod 4 = 0" using a b d(2) by presburger
  qed (use d layout_okD(2) [OF l e(1)] in \<open>auto simp: r_def\<close>)
  have dm: "dom (cut s x L) = insert r (dom L)" using s e(1,2) by (auto simp: j split: if_splits)
  have sp: "spaced (dom (cut s x L))"
  proof -
    have "0 < r \<and> r + 16 \<le> 2 ^ 32" using d layout_okD(2) [OF l e(1)] by auto
    moreover have "(a < r \<longrightarrow> a + 16 \<le> r) \<and> (r < a \<longrightarrow> r + 16 \<le> a)" if "a \<in> dom L" for a
    proof -
      have "a < s \<or> a = s \<or> e \<le> a" using gap [OF that] by auto
      moreover have "a < s \<Longrightarrow> a + 16 \<le> s" using l that s(1) unfolding layout_ok_def spaced_def by blast
      ultimately show ?thesis using d by auto
    qed
    ultimately show ?thesis using l unfolding dm layout_ok_def spaced_def by auto
  qed
  have up: "a + 8 + msz A \<le> b" if "L a = Some A" "b \<in> dom L" "a < b" for a A b using layout_okD(7) [OF l that(1,2,3)] by simp
  have pv: "\<exists>P. cut s x L p = Some P \<and> mfree P \<and> p + 8 + msz P = a" if A: "L a = Some A" "mprev A = Some p" "a \<noteq> e" for a A p
  proof -
    obtain P where P: "L p = Some P" "mfree P" "p + 8 + msz P = a" using prev_block [OF l A(1,2)] by blast
    then have "p \<noteq> s" "p \<noteq> r" using s nr A(3) e(3) by (auto simp: r_def)
    then show ?thesis using P e(1,2) by (auto simp: j)
  qed
  have nx: "msz B = 0 \<and> \<not> mfree B \<or> 8 \<le> msz B \<and>
      (\<exists>N. cut s x L (a + 8 + msz B) = Some N \<and> mprev N = (if mfree B then Some a else None) \<and> (mfree B \<longrightarrow> \<not> mfree N))"
    if A: "L a = Some B" "a \<noteq> s" for a B
  proof -
    have "a + 8 + msz B \<noteq> e"
    proof
      assume q: "a + 8 + msz B = e"
      then have "a < s \<Longrightarrow> False" using up [OF A(1), of s] s(1) d by auto
      moreover have "s < a \<Longrightarrow> False" using gap [of a] A(1) q by auto
      ultimately show False using A(2) by linarith
    qed
    then show ?thesis using layout_okD(6) [OF l A(1)] s nr unfolding mblock_ok_def j r_def [symmetric] by auto
  qed
  have blk: "mblock_ok (cut s x L) a B" if B: "cut s x L a = Some B" for a B
  proof -
    consider "a = s" "B = S\<lparr>msz := x\<rparr>" | "a = r" "B = \<lparr>msz = e - r - 8, mfree = True, mprev = None\<rparr>"
      | "a = e" "B = E\<lparr>mprev := Some r\<rparr>" | "a \<noteq> s" "a \<noteq> e" "L a = Some B"
      using B unfolding j by (auto split: if_splits)
    then show ?thesis
    proof cases
      case 1
      show ?thesis using 1 m4 x d s(2) pv [OF s(1)] by (intro mblock_okI) (auto simp: j r_def)
    next
      case 2
      show ?thesis using 2 m4 d e(2) by (intro mblock_okI) (auto simp: j)
    next
      case 3
      show ?thesis using 3 m4 d nx [OF e(1)] layout_okD [OF l e(1)] by (intro mblock_okI) (auto simp: j)
    next
      case 4
      show ?thesis using nx [OF 4(3,1)] pv [OF 4(3) _ 4(2)] layout_okD [OF l 4(3)] by (intro mblock_okI) auto
    qed
  qed
  have "a + 8 + msz A \<le> b" if A: "cut s x L a = Some A" "b \<in> dom (cut s x L)" "a < b" for a b A
  proof -
    have "a \<in> dom (cut s x L)" using A(1) by blast
    moreover have "c = r \<or> c < s \<or> c = s \<or> e \<le> c" if "c \<in> insert r (dom L)" for c
      using that gap by (metis insertE linorder_neqE_nat not_less)
    ultimately have g: "b = r \<or> b < s \<or> b = s \<or> e \<le> b" "a = r \<or> a < s \<or> a = s \<or> e \<le> a" using A(2) dm by blast+
    have sd: "s \<in> dom L" using s(1) by blast
    show ?thesis using A g up [of a A b] up [OF _ sd, of a A] up [OF e(1), of b] d unfolding dm j
      by (auto split: if_splits simp: r_def)
  qed
  then show "layout_ok (cut s x L)" using sp blk unfolding layout_ok_def by blast
qed

end
