(* ===== verification/MmHeap.thy ===== *)
theory MmHeap
  imports MmLayout
begin

unbundle bit_operations_syntax

text \<open>
  Allocation and release of heap blocks. The heap represents a layout and its free lists; the operations change
  the layout by joining and cutting blocks and write to headers and link words only.
\<close>

section \<open>Representation\<close>

definition heap_rep :: "layout \<Rightarrow> lists \<Rightarrow> mheap \<Rightarrow> bool" where
  "heap_rep L F h \<longleftrightarrow> layout_ok L \<and> near L \<and> headers L (hmem h) \<and> lists_ok (dom L) F (hmem h) (hhead h) \<and> holds (free_blocks L) L F"

text \<open>The words the heap itself uses.\<close>

definition meta :: "layout \<Rightarrow> 32 word set" where
  "meta L = hw (dom L) \<union> fw (free_blocks L)"

lemma meta_sub:
  "S \<subseteq> dom L \<union> dom L' \<Longrightarrow> hw S \<subseteq> meta L \<union> meta L'"
  "S \<subseteq> free_blocks L \<union> free_blocks L' \<Longrightarrow> fw S \<subseteq> meta L \<union> meta L'"
  by (fastforce simp: meta_def hw_def fw_def)+

lemma span_small:
  assumes "near L" "a \<in> dom L" "e \<in> dom L"
  shows "e - a - 8 < 2 ^ 20"
proof -
  have "e < a + 2 ^ 20" using assms unfolding near_def by blast
  then show ?thesis by simp
qed

lemma size_small:
  assumes "layout_ok L" "near L" "L a = Some A"
  shows "msz A < 2 ^ 20"
proof (cases "msz A = 0")
  case False
  then obtain N where "L (a + 8 + msz A) = Some N" using next_block [OF assms(1,3)] by blast
  then have "(a + 8 + msz A) - a - 8 < 2 ^ 20" using assms(3) by (intro span_small [OF assms(2)]) auto
  then show ?thesis by simp
qed simp

lemma cls_in_tbl:
  assumes "n < 2 ^ 20"
  obtains fl sl where "cls n = (fl, sl)" "fl < 14" "sl < 32"
proof -
  have "n < 2 ^ 32" using assms by simp
  then show ?thesis using that [of "fst (cls n)" "snd (cls n)"] fst_cls_less [OF assms] snd_cls_less by simp
qed

lemma members_holds:
  assumes "holds X L F" "\<And>a. a \<in> X \<Longrightarrow> \<exists>B. L a = Some B \<and> msz B < 2 ^ 20"
  shows "members F = X"
proof
  show "members F \<subseteq> X" using assms(1) by (auto simp: members_def holds_def)
  show "X \<subseteq> members F"
  proof
    fix a assume a: "a \<in> X"
    obtain B where B: "L a = Some B" "msz B < 2 ^ 20" using assms(2) [OF a] by blast
    obtain fl sl where c: "cls (msz B) = (fl, sl)" "fl < 14" "sl < 32" using cls_in_tbl [OF B(2)] .
    then have "a \<in> set (F fl sl)" using assms(1) a B(1) unfolding holds_def by blast
    then show "a \<in> members F" using c(2,3) by (auto simp: members_def)
  qed
qed

lemma lists_ok_mono:
  assumes "lists_ok D F m hh" "members F \<subseteq> D'"
  shows "lists_ok D' F m hh"
proof -
  have "set (F fl sl) \<subseteq> D'" if "fl < 14" "sl < 32" for fl sl using assms(2) that by (auto simp: members_def)
  then show ?thesis using assms(1) by (simp add: lists_ok_def)
qed

lemma lists_ok_members: "lists_ok D F m hh \<Longrightarrow> members F \<subseteq> D"
  by (auto simp: lists_ok_def members_def)

lemma lists_ok_headers:
  assumes "spaced D" "lists_ok D F m hh" "S \<subseteq> D" "agree (hw S) m m'"
  shows "lists_ok D F m' hh"
proof -
  have "dll m' 0 (F fl sl) 0 = dll m 0 (F fl sl) 0" if "fl < 14" "sl < 32" for fl sl
    using assms(2) that by (intro dll_headers [OF assms(1) _ assms(3,4)]) (simp add: lists_ok_def)
  then show ?thesis using assms(2) by (simp add: lists_ok_def)
qed

lemma heap_spaced: "layout_ok L \<Longrightarrow> spaced (dom L)"
  by (simp add: layout_ok_def)

lemma headers_same:
  assumes "headers L m" "L' a = Some B" "L a = Some B" "k_size m' (of_nat a) = k_size m (of_nat a)" "k_prev m' (of_nat a) = k_prev m (of_nat a)"
  shows "k_size m' (of_nat a) = tag B \<and> (\<forall>p. mprev B = Some p \<longrightarrow> k_prev m' (of_nat a) = of_nat p)"
  using assms unfolding headers_def by metis

section \<open>Taking a free block out of its list\<close>

lemma blk_bytes_tag: "k_size m b = tag B \<Longrightarrow> msz B mod 4 = 0 \<Longrightarrow> blk_bytes m b = of_nat (msz B)"
  by (simp add: blk_bytes_def tag_ops)

lemma holds_remove:
  assumes "holds X L F" "L x = Some B" "cls (msz B) = (fl, sl)" "distinct (F fl sl)"
  shows "holds (X - {x}) L (upd_list fl sl (remove1 x (F fl sl)) F)"
  using assms unfolding holds_def by (auto simp: upd_list_apply set_remove1_eq)

lemma unlist_ok:
  assumes D: "spaced D" and l: "lists_ok D F (hmem h) (hhead h)" and X: "holds X L F" "x \<in> X"
    and B: "L x = Some B" "msz B < 2 ^ 20" "blk_bytes (hmem h) (of_nat x) = of_nat (msz B)"
  obtains m' hh' F' where "unlist (of_nat x) h = Inr (h\<lparr>hmem := m', hhead := hh'\<rparr>)" "lists_ok D F' m' hh'"
    "holds (X - {x}) L F'" "agree (fw (members F)) (hmem h) m'" "same_info (hhead h) hh'"
proof -
  obtain fl sl where c: "cls (msz B) = (fl, sl)" "fl < 14" "sl < 32" using cls_in_tbl [OF B(2)] .
  have x: "x \<in> set (F fl sl)" using X B(1) c unfolding holds_def by blast
  obtain m' hh' where g: "get_block (of_nat x) fl sl h = Inr (h\<lparr>hmem := m', hhead := hh'\<rparr>)"
    "lists_ok D (upd_list fl sl (remove1 x (F fl sl)) F) m' hh'" "agree (fw (members F)) (hmem h) m'" "same_info (hhead h) hh'"
    using get_block_ok [OF D l c(2,3) x] .
  have "unlist (of_nat x) h = Inr (h\<lparr>hmem := m', hhead := hh'\<rparr>)"
    using g(1) by (simp add: unlist_def B(3) bitmap_search_insert [OF B(2)] c(1))
  moreover have "distinct (F fl sl)" using l c(2,3) by (simp add: lists_ok_def)
  then have "holds (X - {x}) L (upd_list fl sl (remove1 x (F fl sl)) F)" using holds_remove [OF X(1) B(1) c(1)] by blast
  ultimately show ?thesis using that g(2-4) by blast
qed

lemma enlist_ok:
  assumes D: "spaced D" and l: "lists_ok D F (hmem h) (hhead h)" and X: "holds X L F" "x \<notin> X" "x \<in> D"
    and B: "L' x = Some B" "msz B < 2 ^ 20" and same: "\<forall>a \<in> X. map_option msz (L' a) = map_option msz (L a)"
  obtains m' hh' F' where "bnd (bitmap_search (of_nat (msz B)) ACTION_INSERT) (\<lambda>(e, fl, sl). insert_block (of_nat x) fl sl h) =
      Inr (h\<lparr>hmem := m', hhead := hh'\<rparr>)" "lists_ok D F' m' hh'"
    "holds (insert x X) L' F'" "agree (fw (insert x (members F))) (hmem h) m'" "same_info (hhead h) hh'"
proof -
  obtain fl sl where c: "cls (msz B) = (fl, sl)" "fl < 14" "sl < 32" using cls_in_tbl [OF B(2)] .
  have "x \<notin> members F" using X(1,2) by (auto simp: members_def holds_def)
  then obtain m' hh' where g: "insert_block (of_nat x) fl sl h = Inr (h\<lparr>hmem := m', hhead := hh'\<rparr>)"
    "lists_ok D (upd_list fl sl (x # F fl sl) F) m' hh'" "agree (fw (insert x (members F))) (hmem h) m'" "same_info (hhead h) hh'"
    using insert_block_ok [OF D l c(2,3) X(3)] by blast
  have *: "(\<exists>B. L' a = Some B \<and> cls (msz B) = q) \<longleftrightarrow> (\<exists>B. L a = Some B \<and> cls (msz B) = q)" if "a \<in> X" for a q
    using bspec [OF same that] by (cases "L a"; cases "L' a") auto
  have "set (upd_list fl sl (x # F fl sl) F i j) = {a \<in> insert x X. \<exists>B. L' a = Some B \<and> cls (msz B) = (i, j)}"
    if ij: "i < 14" "j < 32" for i j
  proof -
    have "{a \<in> X. \<exists>B. L' a = Some B \<and> cls (msz B) = (i, j)} = {a \<in> X. \<exists>B. L a = Some B \<and> cls (msz B) = (i, j)}"
      using * [of _ "(i, j)"] by blast
    then have "set (F i j) = {a \<in> X. \<exists>B. L' a = Some B \<and> cls (msz B) = (i, j)}"
      using X(1) ij unfolding holds_def by simp
    then show ?thesis using B(1) c(1) by (auto simp: upd_list_apply)
  qed
  then have "holds (insert x X) L' (upd_list fl sl (x # F fl sl) F)" unfolding holds_def by blast
  then show ?thesis using that g by (simp add: bitmap_search_insert [OF B(2)] c(1))
qed

section \<open>Cutting a block\<close>

lemma word_addrs:
  "buffer (of_nat a) = of_nat (a + 8)" "NEXT_MM_BLK (of_nat a) (of_nat n) = of_nat (a + n)"
  "of_nat (a + 8) - MMLIST_HEAD_SIZE = (of_nat a :: 32 word)" "(of_nat n :: 32 word) + MMLIST_HEAD_SIZE = of_nat (n + 8)"
  by (simp_all add: buffer_def NEXT_MM_BLK_def MMLIST_HEAD_SIZE_def sizeof_mm_list_def)

lemma word_diff: "b \<le> a \<Longrightarrow> of_nat a - of_nat b = (of_nat (a - b) :: 32 word)"
  by (simp add: of_nat_diff)

lemma head_diff: "8 \<le> a \<Longrightarrow> of_nat a - MMLIST_HEAD_SIZE = (of_nat (a - 8) :: 32 word)"
  using word_diff [of 8 a] by (simp add: MMLIST_HEAD_SIZE_def sizeof_mm_list_def)

lemma block_eta: "\<not> mfree S \<Longrightarrow> S\<lparr>msz := x\<rparr> = \<lparr>msz = x, mfree = False, mprev = mprev S\<rparr>"
  by (cases S) simp

lemma near_cut:
  assumes "near L" "s \<in> dom L" "e \<in> dom L" "s < r" "r < e" "dom L' = insert r (dom L)"
  shows "near L'"
proof -
  have *: "b < a + 2 ^ 20" if "a \<in> dom L" "b \<in> dom L" for a b using assms(1) that unfolding near_def by blast
  have "b < a + 2 ^ 20" if "a \<in> insert r (dom L)" "b \<in> insert r (dom L)" for a b
  proof -
    have "b \<le> r \<or> b \<in> dom L" "a = r \<or> a \<in> dom L" "r < e" using that assms(5) by auto
    moreover have "b \<in> dom L \<Longrightarrow> b < r + 2 ^ 20" using * [OF assms(2), of b] assms(4) by linarith
    moreover have "a \<in> dom L \<Longrightarrow> r < a + 2 ^ 20" using * [OF _ assms(3), of a] assms(5) by linarith
    ultimately show ?thesis using * [of a b] by (metis le_less_trans less_add_same_cancel1 zero_less_numeral zero_less_power)
  qed
  then show ?thesis unfolding near_def assms(6) by blast
qed

lemma split_free_ok:
  assumes l: "layout_ok L" "near L" and s: "L s = Some S" "\<not> mfree S" and e: "L e = Some E" "\<not> mfree E" "e = s + 8 + msz S"
    and x: "8 \<le> x" "x mod 4 = 0" "x + 16 \<le> msz S"
    and F: "lists_ok (dom L) F (hmem h) (hhead h)" "holds (free_blocks L) L F"
    and hdr: "\<And>a B. L a = Some B \<Longrightarrow> a \<noteq> s \<Longrightarrow> a \<noteq> e \<Longrightarrow> k_size (hmem h) (of_nat a) = tag B \<and>
        (\<forall>p. mprev B = Some p \<longrightarrow> k_prev (hmem h) (of_nat a) = of_nat p)"
    and hs: "\<And>p. mprev S = Some p \<Longrightarrow> k_prev (hmem h) (of_nat s) = of_nat p"
      "k_size (hmem h) (of_nat s) AND RHINO_MM_PRESTAT_MASK = tag S AND RHINO_MM_PRESTAT_MASK"
    and he: "(if mk then k_size (hmem h) (of_nat e) OR RHINO_MM_PREVFREE else k_size (hmem h) (of_nat e)) =
        tag (E\<lparr>mprev := Some (s + 8 + x)\<rparr>)"
  obtains m' hh' F' where "split_free (of_nat s) (of_nat x) (of_nat (msz S - x)) (of_nat e) mk h = Inr (h\<lparr>hmem := m', hhead := hh'\<rparr>)"
    "heap_rep (cut s x L) F' (h\<lparr>hmem := m', hhead := hh'\<rparr>)" "same_info (hhead h) hh'"
    "agree (hw {s, s + 8 + x, e} \<union> fw (insert (s + 8 + x) (free_blocks L))) (hmem h) m'"
proof -
  define r where "r = s + 8 + x"
  define y where "y = msz S - x - 8"
  define m where "m = hmem h"
  note c = cut_ok [OF l(1) s e x, folded r_def y_def]
  define D where "D = dom (cut s x L)"
  have D: "spaced D" using c(1) by (simp add: D_def layout_ok_def)
  have dm: "D = insert r (dom L)" using s(1) e(1) by (auto simp: D_def c(3) split: if_splits)
  have in_D: "s \<in> D" "r \<in> D" "e \<in> D" using s(1) e(1) by (auto simp: dm)
  have ne: "s \<noteq> r" "r \<noteq> e" "s \<noteq> e" "s < r" "r < e" using x e(3) by (auto simp: r_def)
  have ap: "apart (of_nat a) (of_nat b)" if "a \<in> D" "b \<in> D" "a \<noteq> b" for a b using spaced_apart [OF D] that by blast
  have y4: "y mod 4 = 0" using layout_okD(4) [OF l(1) s(1)] x(2,3) unfolding y_def by presburger
  have ylt: "y < 2 ^ 20" using size_small [OF l s(1)] by (simp add: y_def)
  define m1 where "m1 = set_k_prev (of_nat e) (of_nat r) (set_k_size (of_nat r) (of_nat y OR RHINO_MM_FREE) m)"
  define m2 where "m2 = (if mk then set_k_size (of_nat e) (k_size m1 (of_nat e) OR RHINO_MM_PREVFREE) m1 else m1)"
  have a2: "agree (hw {r, e}) m m2"
    unfolding m2_def m1_def by (auto intro!: agree_step hwI)
  have "members F = free_blocks L"
    using members_holds [OF F(2)] size_small [OF l] by (auto simp: free_blocks_def)
  moreover have "free_blocks L \<subseteq> dom L" by (auto simp: free_blocks_def)
  ultimately have mem: "members F = free_blocks L" "members F \<subseteq> D" by (auto simp: dm)
  have l2: "lists_ok D F m2 (hhead h)"
    using lists_ok_headers [OF D lists_ok_mono [OF F(1) mem(2)] _ a2 [unfolded m_def]] in_D by simp
  have rn: "r \<notin> free_blocks L" using c(2) by (simp add: free_blocks_def)
  have same: "\<forall>a \<in> free_blocks L. map_option msz (cut s x L a) = map_option msz (L a)"
    using s e rn by (auto simp: c(3) free_blocks_def)
  have cr: "cut s x L r = Some \<lparr>msz = y, mfree = True, mprev = None\<rparr>" using ne(1) by (simp add: c(3))
  have "lists_ok D F (hmem (h\<lparr>hmem := m2\<rparr>)) (hhead (h\<lparr>hmem := m2\<rparr>))" "msz \<lparr>msz = y, mfree = True, mprev = None\<rparr> < 2 ^ 20"
    using l2 ylt by simp_all
  note en = enlist_ok [OF D this(1) F(2) rn in_D(2) cr this(2) same]
  obtain m3 hh' F' where ins: "bnd (bitmap_search (of_nat y) ACTION_INSERT) (\<lambda>(e, fl, sl). insert_block (of_nat r) fl sl (h\<lparr>hmem := m2\<rparr>)) =
      Inr (h\<lparr>hmem := m3, hhead := hh'\<rparr>)" "lists_ok D F' m3 hh'"
    "holds (insert r (free_blocks L)) (cut s x L) F'" "agree (fw (insert r (members F))) m2 m3" "same_info (hhead h) hh'"
    by (rule en) (rule that, simp_all)
  have k3: "k_size m3 (of_nat a) = k_size m2 (of_nat a)" "k_prev m3 (of_nat a) = k_prev m2 (of_nat a)" if "a \<in> D" for a
    using agree_links(1,2) [OF D that _ ins(4)] mem(2) in_D by auto
  have k2: "k_size m2 (of_nat a) = k_size m (of_nat a)" "k_prev m2 (of_nat a) = k_prev m (of_nat a)" if "a \<in> D" "a \<noteq> r" "a \<noteq> e" for a
    using agree_headers(3,4) [OF D that(1) _ a2] in_D that(2,3) by auto
  have m1e: "k_size m1 (of_nat e) = k_size m (of_nat e)" "k_prev m1 (of_nat e) = of_nat r" "k_size m1 (of_nat r) = of_nat y OR RHINO_MM_FREE"
    using ap [of e r] ap [of r e] in_D ne by (simp_all add: m1_def field_apart)
  have m2e: "k_size m2 (of_nat e) = tag (E\<lparr>mprev := Some r\<rparr>)" "k_prev m2 (of_nat e) = of_nat r" "k_size m2 (of_nat r) = of_nat y OR RHINO_MM_FREE"
    using ap [of r e] in_D ne m1e he by (auto simp: m2_def field_apart r_def m_def)
  define v where "v = of_nat x OR (k_size m3 (of_nat s) AND RHINO_MM_PRESTAT_MASK)"
  have v: "v = tag (S\<lparr>msz := x\<rparr>)"
    using k3(1) [OF in_D(1)] k2(1) [OF in_D(1) ne(1,3)] hs(2) tag_new(2) [OF x(2) layout_okD(4) [OF l(1) s(1)]]
    by (simp add: v_def m_def block_eta [OF s(2)])
  define m4 where "m4 = set_k_size (of_nat s) v m3"
  have k4: "k_size m4 (of_nat a) = k_size m2 (of_nat a)" "k_prev m4 (of_nat a) = k_prev m2 (of_nat a)" if "a \<in> D" "a \<noteq> s" for a
    using ap [OF that(1) in_D(1) that(2)] k3 [OF that(1)] by (simp_all add: m4_def field_apart)
  have "headers (cut s x L) m4"
    unfolding headers_def
  proof (intro allI impI)
    fix a B assume B: "cut s x L a = Some B"
    then have aD: "a \<in> D" by (auto simp: D_def)
    consider "a = s" "B = S\<lparr>msz := x\<rparr>" | "a = r" "B = \<lparr>msz = y, mfree = True, mprev = None\<rparr>"
      | "a = e" "B = E\<lparr>mprev := Some r\<rparr>" | "a \<noteq> s" "a \<noteq> r" "a \<noteq> e" "L a = Some B"
      using B unfolding c(3) by (auto split: if_splits)
    then show "k_size m4 (of_nat a) = tag B \<and> (\<forall>p. mprev B = Some p \<longrightarrow> k_prev m4 (of_nat a) = of_nat p)"
    proof cases
      case 1
      then show ?thesis using hs(1) k3(2) [OF in_D(1)] k2(2) [OF in_D(1) ne(1,3)] v by (simp add: m4_def m_def)
    next
      case 2
      then show ?thesis using k4 [OF in_D(2)] ne(1) m2e(3) tag_new(1) [OF y4] by simp
    next
      case 3
      then show ?thesis using k4 [OF in_D(3)] ne(3) m2e by simp
    next
      case 4
      then show ?thesis using k4 [OF aD 4(1)] k2 [OF aD 4(2,3)] hdr [OF 4(4,1,3)] by (simp add: m_def)
    qed
  qed
  moreover have fb: "free_blocks (cut s x L) = insert r (free_blocks L)"
    using s e ne by (auto simp: free_blocks_def c(3) split: if_splits)
  moreover have "lists_ok D F' m4 hh'"
    using in_D(1) unfolding m4_def by (intro lists_ok_headers [OF D ins(2), of "{s}"] agree_set) auto
  moreover have "near (cut s x L)"
    using s(1) e(1) dm D_def by (intro near_cut [OF l(2) _ _ ne(4,5)]) auto
  ultimately have "heap_rep (cut s x L) F' (h\<lparr>hmem := m4, hhead := hh'\<rparr>)"
    using c(1) ins(3) by (simp add: heap_rep_def D_def)
  moreover have "split_free (of_nat s) (of_nat x) (of_nat (msz S - x)) (of_nat e) mk h = Inr (h\<lparr>hmem := m4, hhead := hh'\<rparr>)"
  proof -
    have w: "NEXT_MM_BLK (buffer (of_nat s)) (of_nat x) = of_nat r" "of_nat (msz S - x) - MMLIST_HEAD_SIZE = (of_nat y :: 32 word)"
      using x(3) by (simp_all only: word_addrs head_diff r_def y_def)
    from ins(1) show ?thesis
      unfolding split_free_def Let_def w m_def [symmetric] m1_def [symmetric] m2_def [symmetric]
      by (auto simp: case_prod_unfold bnd_eq_Inr m4_def v_def)
  qed
  moreover have "agree (hw {s, r, e} \<union> fw (insert r (free_blocks L))) m m4"
    using agree_trans [OF agree_trans [OF a2 ins(4)] agree_set(2) [of s "{s}" m3 v, folded m4_def]] mem(1)
    by (rule_tac agree_mono) (auto simp: hw_def)
  ultimately show ?thesis using that ins(5) by (simp add: r_def m_def)
qed

section \<open>Allocating a block\<close>

lemma tag_prev_cong: "tag (E\<lparr>mprev := Some p\<rparr>) = tag (E\<lparr>mprev := Some q\<rparr>)" "mprev E = Some q \<Longrightarrow> tag (E\<lparr>mprev := Some p\<rparr>) = tag E"
  by (simp_all add: tag_def)

lemma tag_prestat: "msz B mod 4 = 0 \<Longrightarrow> tag B AND RHINO_MM_PRESTAT_MASK = (if mprev B = None then 0 else 2)"
  using tag_ops(3) [of B] by (simp add: RHINO_MM_PREVFREE_def RHINO_MM_PRESTAT_MASK_def)

text \<open>The layout after \<open>n\<close> bytes of the free block \<open>x\<close> have been taken.\<close>

definition taken :: "nat \<Rightarrow> nat \<Rightarrow> layout \<Rightarrow> layout" where
  "taken x n L =
     (let B = the (L x); e = x + 8 + msz B; L' = join x e False L
      in if msz B \<ge> n + 16 then cut x n L' else L')"

lemma holds_cong:
  assumes "holds X L F" "\<forall>a \<in> X. map_option msz (L' a) = map_option msz (L a)"
  shows "holds X L' F"
proof -
  have "(\<exists>B. L' a = Some B \<and> cls (msz B) = q) \<longleftrightarrow> (\<exists>B. L a = Some B \<and> cls (msz B) = q)" if "a \<in> X" for a q
    using bspec [OF assms(2) that] by (cases "L a"; cases "L' a") auto
  then have "{a \<in> X. \<exists>B. L' a = Some B \<and> cls (msz B) = q} = {a \<in> X. \<exists>B. L a = Some B \<and> cls (msz B) = q}" for q by blast
  then show ?thesis using assms(1) unfolding holds_def by simp
qed

lemma near_sub: "near L \<Longrightarrow> dom L' \<subseteq> dom L \<Longrightarrow> near L'"
  unfolding near_def by blast

lemma use_block_ok:
  assumes l: "layout_ok L" "near L" "headers L (hmem h)" and B: "L x = Some B" "mfree B"
    and F: "lists_ok (dom L) F (hmem h) (hhead h)" "holds (free_blocks L - {x}) L F"
    and n: "8 \<le> n" "n mod 4 = 0" "n \<le> msz B"
  obtains m' hh' F' where "use_block (of_nat x) (of_nat n) h = Inr (h\<lparr>hmem := m', hhead := hh'\<rparr>)"
    "heap_rep (taken x n L) F' (h\<lparr>hmem := m', hhead := hh'\<rparr>)" "same_info (hhead h) hh'"
    "agree (meta L \<union> meta (taken x n L)) (hmem h) m'"
proof -
  define e where "e = x + 8 + msz B"
  have fb: "8 \<le> msz B" "mprev B = None" using free_block [OF l(1) B] by auto
  obtain E where E: "L e = Some E" "mprev E = Some x" "\<not> mfree E"
    using next_block [OF l(1) B(1)] fb(1) B(2) by (auto simp: e_def)
  have xe: "x < e" "x + 16 \<le> e" "e - x - 8 = msz B" using fb(1) by (auto simp: e_def)
  define L1 where "L1 = join x e False L"
  have j: "L1 a = (if a = x then Some \<lparr>msz = msz B, mfree = False, mprev = None\<rparr>
      else if a = e then Some (E\<lparr>mprev := None\<rparr>) else L a)" for a
    using layout_okD(7) [OF l(1) B(1), of a] xe B(1) E(1) fb(2)
    by (cases "a \<in> dom L") (auto simp: L1_def join_apply e_def)
  have l1: "layout_ok L1" unfolding L1_def by (rule join_ok [OF l(1) B(1) E(1) xe(2)]) simp
  have d1: "dom L1 = dom L" using B E by (auto simp: j split: if_splits)
  have n1: "near L1" using near_sub [OF l(2)] d1 by simp
  have f1: "free_blocks L1 = free_blocks L - {x}" using E(1,3) by (auto simp: free_blocks_def j split: if_splits)
  have h1: "holds (free_blocks L1) L1 F"
    unfolding f1 using E(1,3) by (intro holds_cong [OF F(2)]) (auto simp: j free_blocks_def)
  have ks: "k_size (hmem h) (of_nat x) = tag B" "k_size (hmem h) (of_nat e) = tag E" using l(3) B(1) E(1) by (simp_all add: headers_def)
  have m4: "msz B mod 4 = 0" "msz E mod 4 = 0" using layout_okD(4) l(1) B(1) E(1) by blast+
  have bb: "blk_bytes (hmem h) (of_nat x) = of_nat (msz B)" using blk_bytes_tag [OF ks(1) m4(1)] .
  have lt: "msz B < 2 ^ 20" using size_small [OF l(1,2) B(1)] .
  have w: "NEXT_MM_BLK (buffer (of_nat x)) (of_nat (msz B)) = of_nat e" "of_nat (msz B) - of_nat n = (of_nat (msz B - n) :: 32 word)"
    using n(3) by (simp_all only: word_addrs e_def word_diff)
  have ge: "(of_nat (msz B - n) :: 32 word) \<ge> sizeof_mm_list \<longleftrightarrow> msz B \<ge> n + 16"
    using lt by (simp add: word_le_nat_alt sizeof_mm_list_def) linarith
  have hdr: "k_size (hmem h) (of_nat a) = tag C \<and> (\<forall>p. mprev C = Some p \<longrightarrow> k_prev (hmem h) (of_nat a) = of_nat p)"
    if "L1 a = Some C" "a \<noteq> x" "a \<noteq> e" for a C
    using l(3) that by (simp add: headers_def j)
  have dd: "x \<in> dom L" "e \<in> dom L" using B(1) E(1) by auto
  show ?thesis
  proof (cases "msz B \<ge> n + 16")
    case True
    have S: "L1 x = Some \<lparr>msz = msz B, mfree = False, mprev = None\<rparr>" "L1 e = Some (E\<lparr>mprev := None\<rparr>)" using xe by (simp_all add: j)
    obtain m' hh' F' where sp: "split_free (of_nat x) (of_nat n) (of_nat (msz B - n)) (of_nat e) False h = Inr (h\<lparr>hmem := m', hhead := hh'\<rparr>)"
      "heap_rep (cut x n L1) F' (h\<lparr>hmem := m', hhead := hh'\<rparr>)" "same_info (hhead h) hh'"
      "agree (hw {x, x + 8 + n, e} \<union> fw (insert (x + 8 + n) (free_blocks L1))) (hmem h) m'"
    proof (rule split_free_ok [OF l1 n1 S(1) _ S(2), of n F h False])
      show "k_size (hmem h) (of_nat x) AND RHINO_MM_PRESTAT_MASK = tag \<lparr>msz = msz B, mfree = False, mprev = None\<rparr> AND RHINO_MM_PRESTAT_MASK"
        using m4(1) fb(2) by (simp add: ks(1) tag_prestat)
    qed (use E n True F(1) h1 hdr d1 ks(2) xe m4 fb e_def in \<open>auto simp: tag_prev_cong(2) [OF E(2)] intro: that\<close>)
    have t: "taken x n L = cut x n L1" using True by (simp add: taken_def Let_def B(1) L1_def e_def)
    have "cut x n L1 (x + 8 + n) = Some \<lparr>msz = msz B - n - 8, mfree = True, mprev = None\<rparr>"
      using cut_ok(3) [OF l1 S(1) _ S(2), of n "x + 8 + n"] E(3) n True by (simp add: e_def)
    then have "x + 8 + n \<in> free_blocks (cut x n L1)" "x + 8 + n \<in> dom (cut x n L1)" by (auto simp: free_blocks_def)
    then have "hw {x, x + 8 + n, e} \<union> fw (insert (x + 8 + n) (free_blocks L1)) \<subseteq> meta L \<union> meta (taken x n L)"
      using dd f1 unfolding t by (intro Un_least meta_sub) auto
    then have "agree (meta L \<union> meta (taken x n L)) (hmem h) m'" using agree_mono [OF sp(4)] by blast
    moreover have "use_block (of_nat x) (of_nat n) h = Inr (h\<lparr>hmem := m', hhead := hh'\<rparr>)"
      by (simp only: use_block_def Let_def bb w ge True if_True sp(1))
    ultimately show ?thesis using that sp(2,3) unfolding t by blast
  next
    case False
    define m1 where "m1 = set_k_size (of_nat e) (tag (E\<lparr>mprev := None\<rparr>)) (hmem h)"
    define m2 where "m2 = set_k_size (of_nat x) (tag (B\<lparr>mfree := False\<rparr>)) m1"
    have sp: "spaced (dom L)" using l(1) by (simp add: layout_ok_def)
    have ap: "apart (of_nat x) (of_nat e)" using spaced_apart [OF sp dd] xe by simp
    have a2: "agree (hw {x, e}) (hmem h) m2" unfolding m2_def m1_def by (auto intro!: agree_step hwI)
    have t: "taken x n L = L1" using False by (simp add: taken_def Let_def B(1) L1_def e_def)
    have "headers L1 m2"
      unfolding headers_def
    proof (intro allI impI)
      fix a C assume C: "L1 a = Some C"
      then have aD: "a \<in> dom L" using d1 by auto
      show "k_size m2 (of_nat a) = tag C \<and> (\<forall>p. mprev C = Some p \<longrightarrow> k_prev m2 (of_nat a) = of_nat p)"
      proof (cases "a = x \<or> a = e")
        case True
        then show ?thesis
          using C xe ap apart_sym [OF ap] fb(2) by (cases B) (auto simp: j m2_def m1_def field_apart)
      next
        case False
        then show ?thesis using hdr [OF C] agree_headers(3,4) [OF sp aD _ a2] dd by simp
      qed
    qed
    moreover have "lists_ok (dom L1) F m2 (hhead h)" using lists_ok_headers [OF sp F(1) _ a2] dd d1 by simp
    ultimately have "heap_rep L1 F (h\<lparr>hmem := m2, hhead := hhead h\<rparr>)" using l1 n1 h1 by (simp add: heap_rep_def)
    moreover have "use_block (of_nat x) (of_nat n) h = Inr (h\<lparr>hmem := m2, hhead := hhead h\<rparr>)"
    proof -
      have "k_size m1 (of_nat x) = tag B" using ks(1) ap by (simp add: m1_def field_apart)
      then show ?thesis
        using ge False tag_ops(7) [OF m4(2)] tag_ops(5) [OF m4(1)] ks
        by (simp add: use_block_def Let_def bb w flip: m1_def) (simp add: m2_def)
    qed
    moreover have "hw {x, e} \<subseteq> meta L" using dd by (auto simp: meta_def hw_def)
    then have "agree (meta L \<union> meta (taken x n L)) (hmem h) m2" using agree_mono [OF a2] by blast
    moreover have "same_info (hhead h) (hhead h)" by (simp add: same_info_def)
    ultimately show ?thesis using that unfolding t by blast
  qed
qed

text \<open>The number of bytes taken for a request of \<open>n\<close>.\<close>

definition ask :: "nat \<Rightarrow> nat" where
  "ask n = max 8 ((n + 3) div 4 * 4)"

lemma ask_props: "8 \<le> ask n" "n \<le> ask n" "ask n mod 4 = 0" "n \<le> 0xFC000000 \<Longrightarrow> ask n \<le> 0xFC000000"
  by (auto simp: ask_def max_def)

lemma align_down:
  assumes "k < 2 ^ 32"
  shows "(of_nat k :: 32 word) AND NOT MM_ALIGN_MASK = of_nat (k div 4 * 4)"
proof -
  have e: "MM_ALIGN_MASK = mask 2" by (simp add: MM_ALIGN_MASK_def mask_eq_exp_minus_1)
  have "w AND NOT (mask 2) = push_bit 2 (drop_bit 2 w)" for w :: "32 word"
    by (rule bit_word_eqI) (auto simp: bit_and_iff bit_not_iff bit_mask_iff bit_push_bit_iff bit_drop_bit_eq not_less
        Suc_diff_le [symmetric])
  then have "(of_nat k :: 32 word) AND NOT MM_ALIGN_MASK = push_bit 2 (drop_bit 2 (of_nat k))" unfolding e .
  also have "drop_bit 2 (of_nat k :: 32 word) = of_nat (k div 4)"
  proof -
    have "k div 4 < 2 ^ 32" using assms by simp
    then show ?thesis
      by (intro word_unat_eq_iff [THEN iffD2]) (simp only: unat_drop_bit_eq unat_of_nat_small [OF assms] unat_of_nat_small, simp add: drop_bit_eq_div)
  qed
  finally show ?thesis by (simp add: push_bit_eq_mult)
qed

lemma align_up: "k + 3 < 2 ^ 32 \<Longrightarrow> MM_ALIGN_UP (of_nat k) = of_nat ((k + 3) div 4 * 4)"
  using align_down [of "k + 3"] by (simp add: MM_ALIGN_UP_def) (simp add: MM_ALIGN_MASK_def)

lemma ask_word:
  assumes "n \<le> 0xFC000000"
  shows "(let sz = MM_ALIGN_UP (of_nat n) in if sz < AOS_MM_TLF_ALLOC_MIN_LENGTH then AOS_MM_TLF_ALLOC_MIN_LENGTH else sz) = of_nat (ask n)"
proof -
  have "(n + 3) div 4 * 4 < 2 ^ 32" using assms by simp
  then have "(of_nat ((n + 3) div 4 * 4) :: 32 word) < 8 \<longleftrightarrow> (n + 3) div 4 * 4 < 8"
    by (simp only: word_less_nat_alt unat_of_nat_small) simp
  moreover have "MM_ALIGN_UP (of_nat n) = of_nat ((n + 3) div 4 * 4)" using assms by (intro align_up) simp
  ultimately show ?thesis unfolding Let_def AOS_MM_TLF_ALLOC_MIN_LENGTH_def by (simp add: ask_def max_def)
qed

lemma round_up_small:
  assumes "n \<le> 0xFC000000"
  shows "round_up n < 2 ^ 32"
proof (cases "n < 128")
  case False
  have "lg n < 32" using first_bit_lg(2) [of n] False assms by simp
  then have "lg n - 5 \<le> 26" by simp
  then have "(2::nat) ^ (lg n - 5) \<le> 2 ^ 26" by (rule power_increasing) simp
  then show ?thesis using assms False by (simp add: round_up_def)
qed (simp add: round_up_def)

definition same_lists :: "k_mm_head \<Rightarrow> k_mm_head \<Rightarrow> bool" where
  "same_lists hh hh' \<longleftrightarrow> regioninfo hh' = regioninfo hh \<and> fixedmblk hh' = fixedmblk hh \<and> fl_bitmap hh' = fl_bitmap hh \<and>
     sl_bitmap hh' = sl_bitmap hh \<and> mm_tbl hh' = mm_tbl hh"

lemma lists_ok_same: "same_lists hh hh' \<Longrightarrow> lists_ok D F m hh' = lists_ok D F m hh"
  by (simp add: same_lists_def lists_ok_def bitmaps_ok_def)

lemma heap_rep_same: "same_lists hh hh' \<Longrightarrow> heap_rep L F (h\<lparr>hhead := hh'\<rparr>) = heap_rep L F (h\<lparr>hhead := hh\<rparr>)"
  by (simp add: heap_rep_def lists_ok_same)

lemma addsize_ok:
  assumes "2 \<le> n" "n < 2 ^ 32"
  obtains hh' where "addsize z (of_nat n) hh = Inr hh'" "same_lists hh hh'"
proof -
  have "of_nat n - 1 = (of_nat (n - 1) :: 32 word)" using assms(1) by (simp add: of_nat_diff)
  then have "krhino_find_first_bit [of_nat n - 1] = Inr (31 - lg (n - 1))" using first_bit_lg(1) [of "n - 1"] assms by simp
  then show ?thesis
    using that by (auto simp: addsize_def sizetoindex_def Let_def same_lists_def simp del: krhino_find_first_bit.simps)
qed

lemma removesize_same [simp]: "same_lists hh (removesize z hh)"
  by (simp add: same_lists_def removesize_def)

text \<open>What \<open>k_mm_alloc_blk\<close> returns: the buffer of a block cut from a free one that is large enough, or NULL when no
  free block has the rounded size.\<close>

definition alloc_result :: "layout \<Rightarrow> mheap \<Rightarrow> nat \<Rightarrow> 32 word \<Rightarrow> mheap \<Rightarrow> bool" where
  "alloc_result L h n p h' \<longleftrightarrow>
     (if p = 0 then h' = h \<and> (\<forall>x B. L x = Some B \<and> mfree B \<longrightarrow> msz B < round_up n)
      else \<exists>x B F'. L x = Some B \<and> mfree B \<and> n \<le> msz B \<and> p = of_nat (x + 8) \<and> heap_rep (taken x n L) F' h' \<and>
        agree (meta L \<union> meta (taken x n L)) (hmem h) (hmem h') \<and> fixedmblk (hhead h') = fixedmblk (hhead h) \<and>
        regioninfo (hhead h') = regioninfo (hhead h) \<and> hpool h' = hpool h \<and> mblkpool_head h' = mblkpool_head h)"

lemma take_first_ok:
  assumes r: "heap_rep L F h" and c: "fl < 14" "sl < 32" and x: "F fl sl = x # xs"
  obtains m' hh' F' where "take_first fl sl (of_nat x) h = Inr (h\<lparr>hmem := m', hhead := hh'\<rparr>)" "lists_ok (dom L) F' m' hh'"
    "holds (free_blocks L - {x}) L F'" "agree (fw (free_blocks L)) (hmem h) m'" "same_info (hhead h) hh'"
proof -
  have l: "layout_ok L" "near L" "lists_ok (dom L) F (hmem h) (hhead h)" "holds (free_blocks L) L F" using r by (simp_all add: heap_rep_def)
  have sp: "spaced (dom L)" using l(1) by (simp add: layout_ok_def)
  have xm: "x \<in> set (F fl sl)" using x by simp
  then obtain B where B: "L x = Some B" "mfree B" "x \<in> free_blocks L" using l(4) c unfolding holds_def free_blocks_def by blast
  have mem: "members F = free_blocks L" using members_holds [OF l(4)] size_small [OF l(1,2)] by (auto simp: free_blocks_def)
  have d: "dll (hmem h) 0 (x # xs) 0" "mm_tbl (hhead h) fl sl = of_nat x" "set (x # xs) \<subseteq> dom L" "distinct (x # xs)"
    using l(3) c x unfolding lists_ok_def bitmaps_ok_def by (metis, metis addr_hd_simps(2), metis, metis)
  have "apart (of_nat x) (f_next (hmem h) (of_nat x))" if "f_next (hmem h) (of_nat x) \<noteq> 0"
    using d that spaced_apart [OF sp, of x] by (cases xs) auto
  then have tg: "take_first fl sl (of_nat x) h = get_block (of_nat x) fl sl h" using d by (intro take_first_get) simp_all
  obtain m' hh' where g: "get_block (of_nat x) fl sl h = Inr (h\<lparr>hmem := m', hhead := hh'\<rparr>)"
    "lists_ok (dom L) (upd_list fl sl (remove1 x (F fl sl)) F) m' hh'" "agree (fw (members F)) (hmem h) m'" "same_info (hhead h) hh'"
    using get_block_ok [OF sp l(3) c xm] .
  have "cls (msz B) = (fl, sl)" using l(4) c xm B(1) unfolding holds_def by fastforce
  then have "holds (free_blocks L - {x}) L (upd_list fl sl (remove1 x (F fl sl)) F)"
    using holds_remove [OF l(4) B(1)] d(4) x by simp
  then show ?thesis using that g tg mem by simp
qed

lemma headers_links:
  assumes "layout_ok L" "headers L m" "S \<subseteq> dom L" "agree (fw S) m m'"
  shows "headers L m'"
  using assms(2) agree_links(1,2) [OF heap_spaced [OF assms(1)] _ assms(3,4)] unfolding headers_def by (metis domI)

text \<open>The request \<open>w\<close> asks for \<open>z\<close> bytes after rounding. What is left to do for a block that was found is to count it.\<close>

lemma k_mm_alloc_blk_cases:
  assumes r: "heap_rep L F h"
    and w: "(let sz = MM_ALIGN_UP w in if sz < AOS_MM_TLF_ALLOC_MIN_LENGTH then AOS_MM_TLF_ALLOC_MIN_LENGTH else sz) = of_nat z"
    and z: "8 \<le> z" "z mod 4 = 0" "round_up z < 2 ^ 32"
  obtains (none) "k_mm_alloc_blk w h = Inr (0, h)" "\<forall>x B. L x = Some B \<and> mfree B \<longrightarrow> msz B < round_up z"
  | (found) x B m' hh' F' where "L x = Some B" "mfree B" "z \<le> msz B"
    "k_mm_alloc_blk w h = bnd (addsize (blk_bytes m' (of_nat x) + MMLIST_HEAD_SIZE) w hh') (\<lambda>hh. Inr (of_nat (x + 8), h\<lparr>hmem := m', hhead := hh\<rparr>))"
    "heap_rep (taken x z L) F' (h\<lparr>hmem := m', hhead := hh'\<rparr>)" "agree (meta L \<union> meta (taken x z L)) (hmem h) m'" "same_info (hhead h) hh'"
proof -
  obtain fl sl where c: "cls (round_up z) = (fl, sl)" by fastforce
  have s32: "sl < 32" using snd_cls_less [OF z(3)] c by simp
  have l: "layout_ok L" "near L" "headers L (hmem h)" "lists_ok (dom L) F (hmem h) (hhead h)" "holds (free_blocks L) L F"
    using r by (simp_all add: heap_rep_def)
  have big: "cls_le (fl, sl) (cls (msz B))" "fst (cls (msz B)) < 14" "snd (cls (msz B)) < 32" "a \<in> set (F (fst (cls (msz B))) (snd (cls (msz B))))"
    if "L a = Some B" "mfree B" "round_up z \<le> msz B" for a B
  proof -
    have "msz B < 2 ^ 20" using size_small [OF l(1,2) that(1)] .
    then obtain i j where ij: "cls (msz B) = (i, j)" "i < 14" "j < 32" using cls_in_tbl by blast
    then show "fst (cls (msz B)) < 14" "snd (cls (msz B)) < 32" by simp_all
    show "cls_le (fl, sl) (cls (msz B))" using cls_mono [OF that(3)] \<open>msz B < 2 ^ 20\<close> c by simp
    have "a \<in> free_blocks L" using that by (auto simp: free_blocks_def)
    then show "a \<in> set (F (fst (cls (msz B))) (snd (cls (msz B))))" using l(5) ij that(1) unfolding holds_def by simp
  qed
  have def: "k_mm_alloc_blk w h = (if fst (cls (round_up z)) < 14
      then bnd (findblk_byidx (hhead h) fl sl) (\<lambda>(b, fl, sl).
        if b = 0 then Inr (0, h)
        else bnd (take_first fl sl b h) (\<lambda>h. bnd (use_block b (of_nat z) h) (\<lambda>h.
             bnd (addsize (blk_bytes (hmem h) b + MMLIST_HEAD_SIZE) w (hhead h)) (\<lambda>hh. Inr (buffer b, h\<lparr>hhead := hh\<rparr>)))))
      else Inr (0, h))"
    unfolding k_mm_alloc_blk_def w [unfolded Let_def] Let_def bitmap_search_get [OF z(3)] by (simp add: c)
  show ?thesis
  proof (cases "fl < 14")
    case False
    have "msz B < round_up z" if "L x = Some B" "mfree B" for x B
      using big(1,2) [OF that] False by (auto simp: cls_le_def not_le intro: ccontr)
    then show ?thesis using none def False c by auto
  next
    case True
    have b: "bitmaps_ok F (hhead h)" using l(4) by (simp add: lists_ok_def)
    show ?thesis
    proof (cases rule: findblk_ok [OF b True s32, case_names found none])
      case (none fl' sl')
      have "msz B < round_up z" if "L x = Some B" "mfree B" for x B
        using big [OF that] none(2) by (metis empty_iff list.set(1) not_le prod.collapse)
      then show ?thesis using that(1) def True c none(1) by auto
    next
      case (found x xs fl' sl')
      have "x \<in> set (F fl' sl')" using found(2) by simp
      then obtain B where B: "L x = Some B" "mfree B" "cls (msz B) = (fl', sl')"
        using l(5) found(4,5) unfolding holds_def free_blocks_def by fastforce
      have fit: "z \<le> msz B"
      proof -
        have "z \<le> lo fl sl" using round_up_fits [OF z(2,3) c] .
        also have "\<dots> \<le> lo fl' sl'" using lo_mono [OF found(3) s32] .
        also have "\<dots> \<le> msz B" using lo_cls [of "msz B"] size_small [OF l(1,2) B(1)] B(3) by simp
        finally show ?thesis .
      qed
      have nz: "of_nat x \<noteq> (0 :: 32 word)" using spaced_nonzero [OF heap_spaced [OF l(1)]] B(1) by blast
      obtain m1 hh1 F1 where t: "take_first fl' sl' (of_nat x) h = Inr (h\<lparr>hmem := m1, hhead := hh1\<rparr>)" "lists_ok (dom L) F1 m1 hh1"
        "holds (free_blocks L - {x}) L F1" "agree (fw (free_blocks L)) (hmem h) m1" "same_info (hhead h) hh1"
        using take_first_ok [OF r found(4,5,2)] .
      define h1 where "h1 = h\<lparr>hmem := m1, hhead := hh1\<rparr>"
      have "headers L (hmem h1)" using headers_links [OF l(1,3) _ t(4)] by (auto simp: h1_def free_blocks_def)
      moreover have "lists_ok (dom L) F1 (hmem h1) (hhead h1)" using t(2) by (simp add: h1_def)
      ultimately obtain m2 hh2 F2 where u: "use_block (of_nat x) (of_nat z) h1 = Inr (h1\<lparr>hmem := m2, hhead := hh2\<rparr>)"
        "heap_rep (taken x z L) F2 (h1\<lparr>hmem := m2, hhead := hh2\<rparr>)" "same_info (hhead h1) hh2"
        "agree (meta L \<union> meta (taken x z L)) (hmem h1) m2"
        using use_block_ok [OF l(1,2) _ B(1,2) _ t(3) z(1,2) fit] by blast
      have "k_mm_alloc_blk w h = bnd (addsize (blk_bytes m2 (of_nat x) + MMLIST_HEAD_SIZE) w hh2) (\<lambda>hh. Inr (of_nat (x + 8), h\<lparr>hmem := m2, hhead := hh\<rparr>))"
        using def True c found(1) nz t(1) u(1) unfolding word_addrs(1) [symmetric] by (simp add: h1_def)
      moreover have "heap_rep (taken x z L) F2 (h\<lparr>hmem := m2, hhead := hh2\<rparr>)" using u(2) by (simp add: h1_def)
      moreover have "agree (meta L \<union> meta (taken x z L)) (hmem h) m2"
        using agree_trans [OF t(4), of _ m2] u(4) by (rule_tac agree_mono) (auto simp: h1_def meta_def)
      moreover have "same_info (hhead h) hh2" using t(5) u(3) by (simp add: same_info_def h1_def)
      ultimately show ?thesis using that(2) B(1,2) fit by blast
    qed
  qed
qed

lemma k_mm_alloc_blk_asked:
  assumes r: "heap_rep L F h"
    and w: "(let sz = MM_ALIGN_UP (of_nat n) in if sz < AOS_MM_TLF_ALLOC_MIN_LENGTH then AOS_MM_TLF_ALLOC_MIN_LENGTH else sz) = of_nat z"
    and z: "8 \<le> z" "z mod 4 = 0" "round_up z < 2 ^ 32" and n: "2 \<le> n" "n < 2 ^ 32"
  shows "ok (k_mm_alloc_blk (of_nat n) h) (\<lambda>(p, h'). alloc_result L h z p h')"
proof (cases rule: k_mm_alloc_blk_cases [OF r w z, case_names none found])
  case none
  then show ?thesis by (simp add: alloc_result_def)
next
  case (found x B m' hh' F')
  obtain hh where a: "addsize (blk_bytes m' (of_nat x) + MMLIST_HEAD_SIZE) (of_nat n) hh' = Inr hh" "same_lists hh' hh" using addsize_ok [OF n] by blast
  have e: "k_mm_alloc_blk (of_nat n) h = Inr (of_nat (x + 8), h\<lparr>hmem := m', hhead := hh\<rparr>)" using found(4) a(1) by simp
  have "heap_rep (taken x z L) F' (h\<lparr>hmem := m', hhead := hh\<rparr>)" using found(5) heap_rep_same [OF a(2), of _ _ "h\<lparr>hmem := m'\<rparr>"] by simp
  moreover have "of_nat (x + 8) \<noteq> (0 :: 32 word)"
    using r layout_okD(2) [of L x B] found(1) by (intro of_nat_nonzero) (auto simp: heap_rep_def)
  ultimately have "alloc_result L h z (of_nat (x + 8)) (h\<lparr>hmem := m', hhead := hh\<rparr>)"
    unfolding alloc_result_def using found(1-3,6,7) a(2)
    by (simp only: if_False) (intro exI [of _ x] exI [of _ B] exI [of _ F'], simp add: same_info_def same_lists_def)
  then show ?thesis unfolding e by (simp only: ok.simps prod.case)
qed

lemma k_mm_alloc_blk_ok:
  assumes "heap_rep L F h" "2 \<le> n" "n \<le> 0xFC000000"
  shows "ok (k_mm_alloc_blk (of_nat n) h) (\<lambda>(p, h'). alloc_result L h (ask n) p h')"
  using ask_props [of n] assms(2,3) round_up_small [of "ask n"] by (intro k_mm_alloc_blk_asked [OF assms(1) ask_word]) auto

end
