(* ===== verification/MmFree.thy ===== *)
theory MmFree
  imports MmHeap
begin

unbundle bit_operations_syntax

text \<open>
  Releasing a block: it is joined with the free blocks before and behind it, and the result is put into the list of its class.
\<close>

definition hdr_ok :: "layout \<Rightarrow> pmem \<Rightarrow> nat \<Rightarrow> bool" where
  "hdr_ok L m a \<longleftrightarrow> (\<forall>B. L a = Some B \<longrightarrow> k_size m (of_nat a) = tag B \<and> (\<forall>p. mprev B = Some p \<longrightarrow> k_prev m (of_nat a) = of_nat p))"

lemma headers_hdr: "headers L m \<longleftrightarrow> (\<forall>a. hdr_ok L m a)"
  unfolding headers_def hdr_ok_def by blast

lemma hdr_ok_cong:
  "a \<in> dom L \<Longrightarrow> k_size m' (of_nat a) = k_size m (of_nat a) \<Longrightarrow> k_prev m' (of_nat a) = k_prev m (of_nat a) \<Longrightarrow> hdr_ok L m' a = hdr_ok L m a"
  unfolding hdr_ok_def by simp

lemma hdr_ok_none: "a \<notin> dom L \<Longrightarrow> hdr_ok L m a"
  by (auto simp: hdr_ok_def)

lemma hdr_ok_links:
  assumes "spaced (dom L)" "S \<subseteq> dom L" "agree (fw S) m m'"
  shows "hdr_ok L m' a = hdr_ok L m a"
  using agree_links(1,2) [OF assms(1) _ assms(2,3)] hdr_ok_cong hdr_ok_none by (cases "a \<in> dom L") blast+

lemma hdr_ok_headers:
  assumes "spaced (dom L)" "S \<subseteq> dom L" "agree (hw S) m m'" "a \<notin> S"
  shows "hdr_ok L m' a = hdr_ok L m a"
  using agree_headers(3,4) [OF assms(1) _ assms(2,3) assms(4)] hdr_ok_cong hdr_ok_none by (cases "a \<in> dom L") blast+

lemma holds_members:
  assumes "layout_ok L" "near L" "holds X L F" "X \<subseteq> dom L"
  shows "members F = X"
  using size_small [OF assms(1,2)] assms(4) by (intro members_holds [OF assms(3)]) blast

text \<open>The block \<open>b\<close> is being released: its header says that it reaches up to \<open>e\<close>; of the other free blocks, those up to \<open>e\<close> are
  off their lists. Whether the block at \<open>e\<close> knows already that the one before it is free does not matter.\<close>

definition releasing :: "layout \<Rightarrow> nat \<Rightarrow> nat \<Rightarrow> nat set \<Rightarrow> lists \<Rightarrow> pmem \<Rightarrow> k_mm_head \<Rightarrow> bool" where
  "releasing L b e X F m hh \<longleftrightarrow> layout_ok L \<and> near L \<and>
     (\<exists>E. L e = Some E \<and> \<not> mfree E \<and> k_size m (of_nat e) OR RHINO_MM_PREVFREE = tag (E\<lparr>mprev := Some b\<rparr>)) \<and> b + 16 \<le> e \<and> b \<in> dom L \<and>
     X = free_blocks L - {b..<e} \<and> lists_ok (dom L) F m hh \<and> holds X L F \<and>
     k_size m (of_nat b) = tag \<lparr>msz = e - b - 8, mfree = True, mprev = mprev (the (L b))\<rparr> \<and>
     (\<forall>p. mprev (the (L b)) = Some p \<longrightarrow> k_prev m (of_nat b) = of_nat p) \<and>
     (\<forall>a. a < b \<or> e < a \<longrightarrow> hdr_ok L m a)"

lemma span4:
  assumes "layout_ok L" "L b = Some B" "L e = Some E" "b + 16 \<le> e"
  shows "(e - b - 8) mod 4 = 0"
proof -
  have "b mod 4 = 0" "e mod 4 = 0" using layout_okD(3) assms(1-3) by blast+
  then show ?thesis using assms(4) by presburger
qed

lemma gap:
  assumes "layout_ok L" "L b = Some B" "a \<in> dom L" "b < a"
  shows "b + 8 + msz B \<le> a"
  using layout_okD(7) [OF assms] by simp

lemma free_next_ok:
  assumes l: "layout_ok L" "near L" "headers L m" and B: "L b = Some B" "\<not> mfree B" "msz B \<noteq> 0"
    and F: "lists_ok (dom L) F m (hhead h)" "holds (free_blocks L) L F"
    and m: "hmem h = set_k_size (of_nat b) (tag (B\<lparr>mfree := True\<rparr>)) m"
  obtains e X m' hh' F' where
    "(if k_size (hmem h) (of_nat (b + 8 + msz B)) AND RHINO_MM_FREE \<noteq> 0
      then bnd (unlist (of_nat (b + 8 + msz B)) h) (\<lambda>h. Inr (grow (of_nat b) (of_nat (b + 8 + msz B)) h)) else Inr h) =
       Inr (h\<lparr>hmem := m', hhead := hh'\<rparr>)"
    "releasing L b e X F' m' hh'" "agree (hw {b} \<union> fw (free_blocks L)) m m'" "same_info (hhead h) hh'"
    "e = b + 8 + msz B \<or> (\<exists>N. L (b + 8 + msz B) = Some N \<and> mfree N \<and> e = b + 8 + msz B + 8 + msz N)"
proof -
  define n where "n = b + 8 + msz B"
  obtain N where N: "L n = Some N" "mprev N = None" and B8: "8 \<le> msz B" using next_block [OF l(1) B(1,3)] B(2) by (auto simp: n_def)
  have sp: "spaced (dom L)" using heap_spaced [OF l(1)] .
  have dd: "b \<in> dom L" "n \<in> dom L" "b < n" "b \<noteq> n" using B(1) N(1) B8 by (auto simp: n_def)
  have ap: "apart (of_nat n) (of_nat b)" using spaced_apart [OF sp dd(2,1)] dd(4) by simp
  have a0: "agree (hw {b}) m (hmem h)" unfolding m by (rule agree_set) simp
  have h0: "hdr_ok L (hmem h) a" if "a \<noteq> b" for a
    using hdr_ok_headers [OF sp _ a0, of a] dd(1) that l(3) by (simp add: headers_hdr)
  have kb: "k_size (hmem h) (of_nat b) = tag (B\<lparr>mfree := True\<rparr>)" "k_prev (hmem h) (of_nat b) = k_prev m (of_nat b)" by (simp_all add: m)
  have pb: "k_prev m (of_nat b) = of_nat p" if "mprev B = Some p" for p using l(3) B(1) that by (simp add: headers_def)
  have kn: "k_size (hmem h) (of_nat n) = tag N" using h0 [of n] dd(4) N(1) by (simp add: hdr_ok_def)
  have m4: "msz B mod 4 = 0" "msz N mod 4 = 0" using layout_okD(4) l(1) B(1) N(1) by blast+
  have l0: "lists_ok (dom L) F (hmem h) (hhead h)" using lists_ok_headers [OF sp F(1) _ a0] dd(1) by simp
  have fb: "b \<notin> free_blocks L" using B(1,2) by (simp add: free_blocks_def)
  have eta: "B\<lparr>mfree := True\<rparr> = \<lparr>msz = msz B, mfree = True, mprev = mprev B\<rparr>" by (cases B) simp
  show ?thesis
  proof (cases "mfree N")
    case False
    have x: "free_blocks L = free_blocks L - {b..<n}"
      using gap [OF l(1) B(1)] fb by (fastforce simp: n_def free_blocks_def)
    have "releasing L b n (free_blocks L) F (hmem h) (hhead h)"
      unfolding releasing_def using l N False dd x l0 F(2) kb pb h0 B(1) B8 eta kn tag_ops(6) [OF m4(2)] by (auto simp: n_def)
    moreover have "k_size (hmem h) (of_nat n) AND RHINO_MM_FREE = 0" using kn tag_ops(2) [OF m4(2)] False by simp
    moreover have "agree (hw {b} \<union> fw (free_blocks L)) m (hmem h)" using agree_mono [OF a0] by blast
    ultimately show ?thesis
      using that [of "hhead h" "hmem h" n "free_blocks L" F] unfolding n_def [symmetric] by (simp add: same_info_def)
  next
    case True
    define e where "e = n + 8 + msz N"
    obtain E where E: "L e = Some E" "\<not> mfree E" and N8: "8 \<le> msz N"
      using next_block [OF l(1) N(1)] free_block(1) [OF l(1) N(1) True] True by (auto simp: e_def)
    have "blk_bytes (hmem h) (of_nat n) = of_nat (msz N)" using blk_bytes_tag [OF kn m4(2)] .
    moreover have nf: "n \<in> free_blocks L" using N(1) True by (simp add: free_blocks_def)
    ultimately obtain m1 hh1 F1 where u: "unlist (of_nat n) h = Inr (h\<lparr>hmem := m1, hhead := hh1\<rparr>)" "lists_ok (dom L) F1 m1 hh1"
      "holds (free_blocks L - {n}) L F1" "agree (fw (members F)) (hmem h) m1" "same_info (hhead h) hh1"
      using unlist_ok [OF sp l0 F(2) _ N(1) size_small [OF l(1,2) N(1)]] by blast
    have mem: "members F = free_blocks L" "free_blocks L \<subseteq> dom L"
      using holds_members [OF l(1,2) F(2)] by (auto simp: free_blocks_def)
    have k1: "k_size m1 (of_nat a) = k_size (hmem h) (of_nat a)" "k_prev m1 (of_nat a) = k_prev (hmem h) (of_nat a)" if "a \<in> dom L" for a
      using agree_links(1,2) [OF sp that _ u(4)] mem by simp_all
    define m2 where "m2 = set_k_size (of_nat b) (tag \<lparr>msz = e - b - 8, mfree = True, mprev = mprev B\<rparr>) m1"
    have g: "grow (of_nat b) (of_nat n) (h\<lparr>hmem := m1, hhead := hh1\<rparr>) = h\<lparr>hmem := m2, hhead := hh1\<rparr>"
    proof -
      have "blk_bytes m1 (of_nat n) + MMLIST_HEAD_SIZE = of_nat (msz N + 8)"
        using blk_bytes_tag [of m1 _ N] k1 [OF dd(2)] kn m4(2) by (simp only: word_addrs)
      moreover have sz: "e - b - 8 = msz B + (msz N + 8)" by (simp add: e_def n_def)
      have "(msz N + 8) mod 4 = 0" using m4(2) by presburger
      then have "tag (B\<lparr>mfree := True\<rparr>) + of_nat (msz N + 8) = tag \<lparr>msz = e - b - 8, mfree = True, mprev = mprev B\<rparr>"
        using tag_add [of "B\<lparr>mfree := True\<rparr>" "msz N + 8"] m4(1) unfolding eta sz by (simp only: mblock.simps mblock.update_convs)
      ultimately show ?thesis using k1(1) [OF dd(1)] kb(1) unfolding grow_def m2_def by simp
    qed
    have a2: "agree (hw {b}) m1 m2" unfolding m2_def by (rule agree_set) simp
    have x: "free_blocks L - {n} = free_blocks L - {b..<e}"
      using gap [OF l(1) B(1)] gap [OF l(1) N(1)] fb mem(2) dd(3) by (fastforce simp: e_def n_def [symmetric])
    have "releasing L b e (free_blocks L - {n}) F1 m2 hh1"
      unfolding releasing_def
    proof (intro conjI)
      show "lists_ok (dom L) F1 m2 hh1" using lists_ok_headers [OF sp u(2) _ a2] dd(1) by simp
      have hd: "hdr_ok L m2 a" if "a \<noteq> b" for a
        using hdr_ok_headers [OF sp _ a2] hdr_ok_links [OF sp _ u(4)] mem h0 dd(1) that by auto
      then show "\<forall>a. a < b \<or> e < a \<longrightarrow> hdr_ok L m2 a" using dd(3) N8 by (auto simp: e_def)
      have "k_size m2 (of_nat e) = tag E" using hd [of e] dd(3) N8 E(1) by (auto simp: e_def hdr_ok_def)
      then show "\<exists>E. L e = Some E \<and> \<not> mfree E \<and> k_size m2 (of_nat e) OR RHINO_MM_PREVFREE = tag (E\<lparr>mprev := Some b\<rparr>)"
        using E tag_ops(6) layout_okD(4) [OF l(1) E(1)] by auto
    qed (use l E x u(3) dd B pb k1(2) kb(2) N8 B8 in \<open>auto simp: m2_def e_def n_def\<close>)
    moreover have "agree (hw {b} \<union> fw (free_blocks L)) m m2"
      using agree_trans [OF agree_trans [OF a0 u(4)] a2] mem(1) by (rule_tac agree_mono) auto
    moreover have "(if k_size (hmem h) (of_nat n) AND RHINO_MM_FREE \<noteq> 0
      then bnd (unlist (of_nat n) h) (\<lambda>h. Inr (grow (of_nat b) (of_nat n) h)) else Inr h) = Inr (h\<lparr>hmem := m2, hhead := hh1\<rparr>)"
      using kn tag_ops(2) [OF m4(2)] True u(1) g by simp
    ultimately show ?thesis using that u(5) N(1) True unfolding n_def [symmetric] e_def by blast
  qed
qed

lemma free_prev_ok:
  assumes r: "releasing L b e X F (hmem h) (hhead h)" and B: "L b = Some B" "\<not> mfree B"
  obtains s S m' hh' F' where
    "(if k_size (hmem h) (of_nat b) AND RHINO_MM_PREVFREE \<noteq> 0
      then (let t = k_prev (hmem h) (of_nat b) in bnd (unlist t h) (\<lambda>h. Inr (t, grow t (of_nat b) h))) else Inr (of_nat b, h)) =
       Inr (of_nat s, h\<lparr>hmem := m', hhead := hh'\<rparr>)"
    "releasing L s e (free_blocks L - {s..<e}) F' m' hh'" "L s = Some S" "mprev S = None" "s = (case mprev B of None \<Rightarrow> b | Some p \<Rightarrow> p)"
    "agree (hw {s} \<union> fw X) (hmem h) m'" "same_info (hhead h) hh'"
proof -
  have l: "layout_ok L" "near L" "b + 16 \<le> e" "b \<in> dom L" "X = free_blocks L - {b..<e}" "lists_ok (dom L) F (hmem h) (hhead h)" "holds X L F"
    "k_size (hmem h) (of_nat b) = tag \<lparr>msz = e - b - 8, mfree = True, mprev = mprev B\<rparr>"
    and pb: "\<And>p. mprev B = Some p \<Longrightarrow> k_prev (hmem h) (of_nat b) = of_nat p"
    and ho: "\<And>a. a < b \<or> e < a \<Longrightarrow> hdr_ok L (hmem h) a" using r B(1) by (auto simp: releasing_def)
  obtain E where E: "L e = Some E" "\<not> mfree E" "k_size (hmem h) (of_nat e) OR RHINO_MM_PREVFREE = tag (E\<lparr>mprev := Some b\<rparr>)"
    using r by (auto simp: releasing_def)
  have sp: "spaced (dom L)" using heap_spaced [OF l(1)] .
  have q4: "(e - b - 8) mod 4 = 0" using span4 [OF l(1) B(1) E(1) l(3)] .
  show ?thesis
  proof (cases "mprev B")
    case None
    then have "k_size (hmem h) (of_nat b) AND RHINO_MM_PREVFREE = 0" using l(8) tag_ops(3) [of "\<lparr>msz = e - b - 8, mfree = True, mprev = mprev B\<rparr>"] q4 by simp
    then show ?thesis
      using that [of b "hhead h" "hmem h" F B] r B None by (simp add: l(5) same_info_def)
  next
    case (Some p)
    obtain P where P: "L p = Some P" "mfree P" "p + 8 + msz P = b" using prev_block [OF l(1) B(1) Some] .
    have pp: "p < b" "p \<in> dom L" "p \<noteq> b" "p \<in> X" "mprev P = None" using P l(5) free_block(2) [OF l(1) P(1,2)] by (auto simp: free_blocks_def)
    have kp: "k_size (hmem h) (of_nat p) = tag P" using ho [of p] pp(1) P(1) by (simp add: hdr_ok_def)
    have p4: "msz P mod 4 = 0" using layout_okD(4) [OF l(1) P(1)] .
    have "blk_bytes (hmem h) (of_nat p) = of_nat (msz P)" using blk_bytes_tag [OF kp p4] .
    then obtain m1 hh1 F1 where u: "unlist (of_nat p) h = Inr (h\<lparr>hmem := m1, hhead := hh1\<rparr>)" "lists_ok (dom L) F1 m1 hh1"
      "holds (X - {p}) L F1" "agree (fw (members F)) (hmem h) m1" "same_info (hhead h) hh1"
      using unlist_ok [OF sp l(6,7) pp(4) P(1) size_small [OF l(1,2) P(1)]] by blast
    have mem: "members F = X" "X \<subseteq> dom L" using holds_members [OF l(1,2,7)] l(5) by (auto simp: free_blocks_def)
    have k1: "k_size m1 (of_nat a) = k_size (hmem h) (of_nat a)" if "a \<in> dom L" for a
      using agree_links(2) [OF sp that _ u(4)] mem by simp
    define m2 where "m2 = set_k_size (of_nat p) (tag \<lparr>msz = e - p - 8, mfree = True, mprev = None\<rparr>) m1"
    have g: "grow (of_nat p) (of_nat b) (h\<lparr>hmem := m1, hhead := hh1\<rparr>) = h\<lparr>hmem := m2, hhead := hh1\<rparr>"
    proof -
      have "blk_bytes m1 (of_nat b) + MMLIST_HEAD_SIZE = of_nat (e - b - 8 + 8)"
        using blk_bytes_tag [of m1 _ "\<lparr>msz = e - b - 8, mfree = True, mprev = mprev B\<rparr>"] k1 [OF l(4)] l(8) q4 by (simp only: word_addrs mblock.simps)
      moreover have "(e - b - 8 + 8) mod 4 = 0" using q4 by presburger
      then have "tag P + of_nat (e - b - 8 + 8) = tag (P\<lparr>msz := msz P + (e - b - 8 + 8)\<rparr>)" by (rule tag_add [OF p4])
      moreover have "P\<lparr>msz := msz P + (e - b - 8 + 8)\<rparr> = \<lparr>msz = e - p - 8, mfree = True, mprev = None\<rparr>"
        using P pp(5) l(3) by (cases P) auto
      ultimately show ?thesis using k1 [OF pp(2)] kp unfolding grow_def m2_def by simp
    qed
    have a2: "agree (hw {p}) m1 m2" unfolding m2_def by (rule agree_set) simp
    have x: "X - {p} = free_blocks L - {p..<e}"
    proof -
      have "b \<le> a" if "a \<in> free_blocks L" "p < a" for a
        using gap [OF l(1) P(1) _ that(2)] that(1) P(3) by (auto simp: free_blocks_def)
      then have "a \<in> X - {p} \<longleftrightarrow> a \<in> free_blocks L - {p..<e}" for a
        using pp(1) l(3) unfolding l(5) by (cases "a = p"; cases "p < a") auto
      then show ?thesis by blast
    qed
    have "releasing L p e (free_blocks L - {p..<e}) F1 m2 hh1"
      unfolding releasing_def
    proof (intro conjI)
      show "lists_ok (dom L) F1 m2 hh1" using lists_ok_headers [OF sp u(2) _ a2] pp(2) by simp
      show "\<forall>a. a < p \<or> e < a \<longrightarrow> hdr_ok L m2 a"
        using hdr_ok_headers [OF sp _ a2] hdr_ok_links [OF sp _ u(4)] mem ho pp l(3) by auto
      have "k_size m2 (of_nat e) = k_size (hmem h) (of_nat e)"
        using agree_headers(4) [OF sp _ _ a2, of e] k1 [of e] E(1) pp l(3) by auto
      then show "\<exists>E. L e = Some E \<and> \<not> mfree E \<and> k_size m2 (of_nat e) OR RHINO_MM_PREVFREE = tag (E\<lparr>mprev := Some p\<rparr>)"
        using E tag_prev_cong(1) by auto
    qed (use l E u(3) x pp P in \<open>auto simp: m2_def\<close>)
    moreover have "(if k_size (hmem h) (of_nat b) AND RHINO_MM_PREVFREE \<noteq> 0
      then (let t = k_prev (hmem h) (of_nat b) in bnd (unlist t h) (\<lambda>h. Inr (t, grow t (of_nat b) h))) else Inr (of_nat b, h)) =
       Inr (of_nat p, h\<lparr>hmem := m2, hhead := hh1\<rparr>)"
      using l(8) tag_ops(3) [of "\<lparr>msz = e - b - 8, mfree = True, mprev = mprev B\<rparr>"] q4 Some pb [OF Some] u(1) g by simp
    moreover have "agree (hw {p} \<union> fw X) (hmem h) m2" using agree_trans [OF u(4) a2] mem(1) by (simp add: Un_commute)
    ultimately show ?thesis using that P(1) pp(5) Some u(5) by simp
  qed
qed

text \<open>The released block goes into its list and the block behind it is told.\<close>

lemma release_ok:
  assumes r: "releasing L s e (free_blocks L - {s..<e}) F (hmem h) (hhead h)" and S: "L s = Some S" "mprev S = None"
  obtains m' hh' F' where
    "bnd (bitmap_search (blk_bytes (hmem h) (of_nat s)) ACTION_INSERT) (\<lambda>(_, fl, sl).
         bnd (insert_block (of_nat s) fl sl h) (\<lambda>h.
           let t = NEXT_MM_BLK (buffer (of_nat s)) (blk_bytes (hmem h) (of_nat s));
               m = set_k_size t (k_size (hmem h) t OR RHINO_MM_PREVFREE) (hmem h)
           in Inr (h\<lparr>hmem := set_k_prev t (of_nat s) m\<rparr>))) = Inr (h\<lparr>hmem := m', hhead := hh'\<rparr>)"
    "heap_rep (join s e True L) F' (h\<lparr>hmem := m', hhead := hh'\<rparr>)"
    "agree (meta L \<union> meta (join s e True L)) (hmem h) m'" "same_info (hhead h) hh'"
proof -
  define X where "X = free_blocks L - {s..<e}"
  have l: "layout_ok L" "near L" "s + 16 \<le> e" "s \<in> dom L" "lists_ok (dom L) F (hmem h) (hhead h)" "holds X L F"
    "k_size (hmem h) (of_nat s) = tag \<lparr>msz = e - s - 8, mfree = True, mprev = None\<rparr>"
    and ho: "\<And>a. a < s \<or> e < a \<Longrightarrow> hdr_ok L (hmem h) a" using r S by (auto simp: releasing_def X_def)
  obtain E where E: "L e = Some E" "\<not> mfree E" "k_size (hmem h) (of_nat e) OR RHINO_MM_PREVFREE = tag (E\<lparr>mprev := Some s\<rparr>)"
    using r by (auto simp: releasing_def)
  have sp: "spaced (dom L)" using heap_spaced [OF l(1)] .
  have se: "s < e" "s \<noteq> e" using l(3) by auto
  define L' where "L' = join s e True L"
  have j: "L' a = (if a = s then Some \<lparr>msz = e - s - 8, mfree = True, mprev = None\<rparr>
      else if a = e then Some (E\<lparr>mprev := Some s\<rparr>) else if s < a \<and> a < e then None else L a)" for a
    using S E(1) by (simp add: L'_def join_apply [OF se(1)])
  have lo: "layout_ok L'" unfolding L'_def using E(2) S(2) by (intro join_ok [OF l(1) S(1) E(1) l(3)]) auto
  have d': "dom L' = dom L - {s<..<e}" using S E se by (auto simp: j split: if_splits)
  have f': "free_blocks L' = insert s X" using E se by (auto simp: free_blocks_def j X_def split: if_splits)
  have q: "e - s - 8 < 2 ^ 20" "(e - s - 8) mod 4 = 0" using span_small [OF l(2), of s e] span4 [OF l(1) S(1) E(1) l(3)] S E by auto
  have same: "\<forall>a \<in> X. map_option msz (L' a) = map_option msz (L a)" using E se by (auto simp: X_def free_blocks_def j)
  have Ls: "L' s = Some \<lparr>msz = e - s - 8, mfree = True, mprev = None\<rparr>" "msz \<lparr>msz = e - s - 8, mfree = True, mprev = None\<rparr> < 2 ^ 20" using q by (simp_all add: j)
  have "s \<notin> X" using se by (simp add: X_def)
  note en = enlist_ok [OF sp l(5,6) this l(4) Ls same]
  obtain m1 hh1 F1 where i: "bnd (bitmap_search (of_nat (e - s - 8)) ACTION_INSERT) (\<lambda>(e, fl, sl). insert_block (of_nat s) fl sl h) =
      Inr (h\<lparr>hmem := m1, hhead := hh1\<rparr>)" "lists_ok (dom L) F1 m1 hh1"
    "holds (insert s X) L' F1" "agree (fw (insert s (members F))) (hmem h) m1" "same_info (hhead h) hh1"
    by (rule en) (rule that, simp_all)
  have mem: "members F = X" "X \<subseteq> dom L" using holds_members [OF l(1,2,6)] by (auto simp: X_def free_blocks_def)
  have k1: "k_size m1 (of_nat a) = k_size (hmem h) (of_nat a)" "k_prev m1 (of_nat a) = k_prev (hmem h) (of_nat a)" if "a \<in> dom L" for a
    using agree_links(1,2) [OF sp that _ i(4)] mem l(4) by simp_all
  define m2 where "m2 = set_k_prev (of_nat e) (of_nat s) (set_k_size (of_nat e) (tag (E\<lparr>mprev := Some s\<rparr>)) m1)"
  have a2: "agree (hw {e}) m1 m2" unfolding m2_def by (intro agree_step agree_refl hwI) simp_all
  have eD: "e \<in> dom L" using E(1) by blast
  have k2: "k_size m2 (of_nat a) = k_size (hmem h) (of_nat a)" "k_prev m2 (of_nat a) = k_prev (hmem h) (of_nat a)" if "a \<in> dom L" "a \<noteq> e" for a
    using agree_headers(3,4) [OF sp that(1) _ a2] k1 [OF that(1)] eD that(2) by simp_all
  have "hdr_ok L' m2 a" for a
  proof -
    consider "a = s" | "a = e" | "a \<notin> dom L'" | "a < s \<or> e < a" "L' a = L a" "a \<in> dom L"
    proof (cases "a = s \<or> a = e \<or> a \<notin> dom L'")
      case False
      then have "a \<in> dom L" "a < s \<or> e < a" using d' by auto
      moreover from this have "L' a = L a" using False by (auto simp: j)
      ultimately show ?thesis using that(4) by blast
    qed (use that in blast)
    then show ?thesis
    proof cases
      case 1
      then show ?thesis using k2 [OF l(4) se(2)] l(7) by (simp add: hdr_ok_def j)
    next
      case 2
      then show ?thesis using se by (simp add: hdr_ok_def j m2_def)
    next
      case 4
      then show ?thesis using k2 [OF 4(3)] ho [of a] se by (auto simp: hdr_ok_def)
    qed (simp add: hdr_ok_none)
  qed
  moreover have "lists_ok (dom L') F1 m2 hh1"
  proof (rule lists_ok_mono)
    show "lists_ok (dom L) F1 m2 hh1" using lists_ok_headers [OF sp i(2) _ a2] eD by simp
    have "near L'" using near_sub [OF l(2)] d' by auto
    then have "members F1 = insert s X" using mem(2) l(4) d' se by (intro holds_members [OF lo _ i(3)]) (auto simp: X_def)
    then show "members F1 \<subseteq> dom L'" using mem(2) l(4) d' by (auto simp: X_def)
  qed
  moreover have "near L'" using near_sub [OF l(2)] d' by auto
  ultimately have "heap_rep L' F1 (h\<lparr>hmem := m2, hhead := hh1\<rparr>)" using lo i(3) by (simp add: heap_rep_def headers_hdr f')
  moreover have "agree (meta L \<union> meta L') (hmem h) m2"
  proof (rule agree_mono [OF agree_trans [OF i(4) a2]], intro Un_least)
    show "fw (insert s (members F)) \<subseteq> meta L \<union> meta L'" using f' mem(1) by (intro meta_sub(2)) auto
    show "hw {e} \<subseteq> meta L \<union> meta L'" using eD by (intro meta_sub(1)) auto
  qed
  moreover have "bnd (bitmap_search (blk_bytes (hmem h) (of_nat s)) ACTION_INSERT) (\<lambda>(_, fl, sl).
         bnd (insert_block (of_nat s) fl sl h) (\<lambda>h.
           let t = NEXT_MM_BLK (buffer (of_nat s)) (blk_bytes (hmem h) (of_nat s));
               m = set_k_size t (k_size (hmem h) t OR RHINO_MM_PREVFREE) (hmem h)
           in Inr (h\<lparr>hmem := set_k_prev t (of_nat s) m\<rparr>))) = Inr (h\<lparr>hmem := m2, hhead := hh1\<rparr>)"
  proof -
    have bb: "blk_bytes (hmem h) (of_nat s) = of_nat (e - s - 8)" "blk_bytes m1 (of_nat s) = of_nat (e - s - 8)"
      using blk_bytes_tag [of _ _ "\<lparr>msz = e - s - 8, mfree = True, mprev = None\<rparr>"] l(7) k1(1) [OF l(4)] q(2) by simp_all
    have nx: "NEXT_MM_BLK (buffer (of_nat s)) (of_nat (e - s - 8)) = of_nat e"
    proof -
      have "s + 8 + (e - s - 8) = e" using l(3) by simp
      then show ?thesis by (simp only: word_addrs)
    qed
    obtain z fl sl where b: "bitmap_search (of_nat (e - s - 8)) ACTION_INSERT = Inr (z, fl, sl)" "insert_block (of_nat s) fl sl h = Inr (h\<lparr>hmem := m1, hhead := hh1\<rparr>)"
      using i(1) unfolding bnd_eq_Inr by auto
    have "k_size m1 (of_nat e) OR RHINO_MM_PREVFREE = tag (E\<lparr>mprev := Some s\<rparr>)" using E(3) k1(1) [OF eD] by simp
    moreover have "hmem (h\<lparr>hmem := m1, hhead := hh1\<rparr>) = m1" by simp
    ultimately show ?thesis unfolding bb(1) b(1) bnd.simps prod.case b(2) Let_def by (simp only: bb(2) nx) (simp add: m2_def)
  qed
  ultimately show ?thesis using that i(5) unfolding L'_def by blast
qed

text \<open>The layout after the block \<open>b\<close> has been released.\<close>

definition freed :: "nat \<Rightarrow> layout \<Rightarrow> layout" where
  "freed b L =
     (let B = the (L b); n = b + 8 + msz B; N = the (L n);
          e = (if mfree N then n + 8 + msz N else n); s = (case mprev B of None \<Rightarrow> b | Some p \<Rightarrow> p)
      in join s e True L)"

lemma k_mm_free_blk_ok:
  assumes r: "heap_rep L F h" and B: "L b = Some B" "\<not> mfree B" "msz B \<noteq> 0"
  obtains m' hh' F' where "k_mm_free_blk (of_nat (b + 8)) h = Inr (h\<lparr>hmem := m', hhead := hh'\<rparr>)"
    "heap_rep (freed b L) F' (h\<lparr>hmem := m', hhead := hh'\<rparr>)" "agree (meta L \<union> meta (freed b L)) (hmem h) m'"
    "regioninfo hh' = regioninfo (hhead h)" "fixedmblk hh' = fixedmblk (hhead h)"
proof -
  have l: "layout_ok L" "near L" "headers L (hmem h)" "lists_ok (dom L) F (hmem h) (hhead h)" "holds (free_blocks L) L F"
    using r by (simp_all add: heap_rep_def)
  define m1 where "m1 = set_k_size (of_nat b) (tag (B\<lparr>mfree := True\<rparr>)) (hmem h)"
  define h1 where "h1 = h\<lparr>hmem := m1, hhead := removesize (of_nat (msz B + 8)) (hhead h)\<rparr>"
  have kb: "k_size (hmem h) (of_nat b) = tag B" using l(3) B(1) by (simp add: headers_def)
  have b4: "msz B mod 4 = 0" using layout_okD(4) [OF l(1) B(1)] .
  have bb: "blk_bytes m1 (of_nat b) = of_nat (msz B)"
    using blk_bytes_tag [of m1 "of_nat b" "B\<lparr>mfree := True\<rparr>"] b4 by (simp add: m1_def)
  have lf: "lists_ok (dom L) F (hmem h) (hhead h1)" using l(4) lists_ok_same [OF removesize_same] by (simp add: h1_def)
  have hm: "hmem h1 = set_k_size (of_nat b) (tag (B\<lparr>mfree := True\<rparr>)) (hmem h)" by (simp add: h1_def m1_def)
  obtain e X m2 hh2 F2 where n: "(if k_size (hmem h1) (of_nat (b + 8 + msz B)) AND RHINO_MM_FREE \<noteq> 0
      then bnd (unlist (of_nat (b + 8 + msz B)) h1) (\<lambda>h. Inr (grow (of_nat b) (of_nat (b + 8 + msz B)) h)) else Inr h1) =
       Inr (h1\<lparr>hmem := m2, hhead := hh2\<rparr>)"
    "releasing L b e X F2 m2 hh2" "agree (hw {b} \<union> fw (free_blocks L)) (hmem h) m2" "same_info (hhead h1) hh2"
    "e = b + 8 + msz B \<or> (\<exists>N. L (b + 8 + msz B) = Some N \<and> mfree N \<and> e = b + 8 + msz B + 8 + msz N)"
    using free_next_ok [OF l(1-3) B lf l(5) hm] .
  define h2 where "h2 = h1\<lparr>hmem := m2, hhead := hh2\<rparr>"
  have r2: "releasing L b e X F2 (hmem h2) (hhead h2)" using n(2) by (simp add: h2_def)
  obtain s S m3 hh3 F3 where p: "(if k_size (hmem h2) (of_nat b) AND RHINO_MM_PREVFREE \<noteq> 0
      then (let t = k_prev (hmem h2) (of_nat b) in bnd (unlist t h2) (\<lambda>h. Inr (t, grow t (of_nat b) h))) else Inr (of_nat b, h2)) =
       Inr (of_nat s, h2\<lparr>hmem := m3, hhead := hh3\<rparr>)"
    "releasing L s e (free_blocks L - {s..<e}) F3 m3 hh3" "L s = Some S" "mprev S = None" "s = (case mprev B of None \<Rightarrow> b | Some p \<Rightarrow> p)"
    "agree (hw {s} \<union> fw X) (hmem h2) m3" "same_info (hhead h2) hh3"
    by (rule free_prev_ok [OF r2 B(1,2)])
  define h3 where "h3 = h2\<lparr>hmem := m3, hhead := hh3\<rparr>"
  have r3: "releasing L s e (free_blocks L - {s..<e}) F3 (hmem h3) (hhead h3)" using p(2) by (simp add: h3_def)
  obtain m4 hh4 F4 where i: "bnd (bitmap_search (blk_bytes (hmem h3) (of_nat s)) ACTION_INSERT) (\<lambda>(_, fl, sl).
         bnd (insert_block (of_nat s) fl sl h3) (\<lambda>h.
           let t = NEXT_MM_BLK (buffer (of_nat s)) (blk_bytes (hmem h) (of_nat s));
               m = set_k_size t (k_size (hmem h) t OR RHINO_MM_PREVFREE) (hmem h)
           in Inr (h\<lparr>hmem := set_k_prev t (of_nat s) m\<rparr>))) = Inr (h3\<lparr>hmem := m4, hhead := hh4\<rparr>)"
    "heap_rep (join s e True L) F4 (h3\<lparr>hmem := m4, hhead := hh4\<rparr>)"
    "agree (meta L \<union> meta (join s e True L)) (hmem h3) m4" "same_info (hhead h3) hh4"
    by (rule release_ok [OF r3 p(3,4)])
  have fr: "join s e True L = freed b L"
    using n(5) n(2) B(1) p(5) by (auto simp: freed_def Let_def releasing_def)
  have w: "of_nat (b + 8) - MMLIST_HEAD_SIZE = (of_nat b :: 32 word)" "NEXT_MM_BLK (buffer (of_nat b)) (of_nat (msz B)) = of_nat (b + 8 + msz B)"
    "k_size (hmem h) (of_nat b) OR RHINO_MM_FREE = tag (B\<lparr>mfree := True\<rparr>)" "of_nat (msz B) + MMLIST_HEAD_SIZE = (of_nat (msz B + 8) :: 32 word)"
    using kb tag_ops(4) [OF b4] by (simp_all only: word_addrs)
  have "k_mm_free_blk (of_nat (b + 8)) h = Inr (h3\<lparr>hmem := m4, hhead := hh4\<rparr>)"
  proof -
    have hm: "hmem (h\<lparr>hmem := m1\<rparr>) = m1" "blk_bytes (hmem h1) (of_nat b) = of_nat (msz B)" using bb by (simp_all add: h1_def)
    have h1: "h\<lparr>hmem := m1\<rparr>\<lparr>hhead := removesize (of_nat (msz B + 8)) (hhead (h\<lparr>hmem := m1\<rparr>))\<rparr> = h1" by (simp add: h1_def)
    show ?thesis
      unfolding k_mm_free_blk_def Let_def w(1,3) m1_def [symmetric] hm bb w(4) h1 hm(2) w(2) n(1) [unfolded Let_def] bnd.simps
        h2_def [symmetric] p(1) [unfolded Let_def] prod.case h3_def [symmetric] i(1) [unfolded Let_def] ..
  qed
  moreover have "agree (meta L \<union> meta (freed b L)) (hmem h) m4"
  proof -
    have "b \<in> dom L" "s \<in> dom L" "X \<subseteq> free_blocks L" using B(1) p(3) n(2) by (auto simp: releasing_def)
    then have "hw {b} \<union> fw (free_blocks L) \<subseteq> meta L" "hw {s} \<union> fw X \<subseteq> meta L"
      using meta_sub(1) [of _ L L] meta_sub(2) [of _ L L] by simp_all
    then have "agree (meta L) (hmem h) m2" "agree (meta L) m2 m3" using agree_mono n(3) p(6) by (auto simp: h2_def)
    then show ?thesis using agree_trans [OF agree_trans] i(3) fr by (fastforce simp: h3_def intro: agree_mono)
  qed
  ultimately show ?thesis
    using that [of hh4 m4 F4] i(2,4) fr n(4) p(7) by (simp add: h1_def h2_def h3_def same_info_def removesize_def)
qed

end
