(* ===== verification/MmUsed.thy ===== *)
theory MmUsed
  imports MmFree
begin

unbundle bit_operations_syntax

text \<open>
  The heap seen by its clients: the map from the blocks in use to their sizes. Taking and releasing a block change this
  map at one place, and what lies in the other blocks stays as it was, because the heap writes to
  headers and to the links of free blocks only.
\<close>

section \<open>Blocks in use\<close>

definition in_use :: "layout \<Rightarrow> nat \<rightharpoonup> nat" where
  "in_use L a = (case L a of None \<Rightarrow> None | Some B \<Rightarrow> if mfree B then None else Some (msz B))"

lemma used_Some: "in_use L a = Some n \<longleftrightarrow> (\<exists>B. L a = Some B \<and> \<not> mfree B \<and> msz B = n)"
  by (auto simp: in_use_def split: option.splits)

lemma used_join:
  assumes "layout_ok L" "L s = Some S" "L e = Some E" "s < e" "\<not> mfree E" "\<forall>a \<in> dom (in_use L). s < a \<longrightarrow> e \<le> a"
  shows "in_use (join s e f L) = (in_use L)(s := if f then None else Some (e - s - 8))"
proof
  fix a
  have "in_use L a = None" if "s < a" "a < e" using assms(6) that by force
  then show "in_use (join s e f L) a = ((in_use L)(s := if f then None else Some (e - s - 8))) a"
    using assms(2-5) by (auto simp: in_use_def join_apply)
qed

lemma used_cut:
  assumes "layout_ok L" "L s = Some S" "\<not> mfree S" "L e = Some E" "\<not> mfree E" "e = s + 8 + msz S" "8 \<le> x" "x mod 4 = 0" "x + 16 \<le> msz S"
  shows "in_use (cut s x L) = (in_use L)(s \<mapsto> x)"
  using cut_ok(2,3) [OF assms] assms(2-5) by (auto simp: in_use_def fun_eq_iff)

lemma used_taken:
  assumes "layout_ok L" "L x = Some B" "mfree B" "8 \<le> n" "n mod 4 = 0" "n \<le> msz B"
  shows "\<exists>k \<ge> n. k < n + 16 \<and> in_use (taken x n L) = (in_use L)(x \<mapsto> k)"
proof -
  define e where "e = x + 8 + msz B"
  obtain E where E: "L e = Some E" "\<not> mfree E" using next_block [OF assms(1,2)] free_block(1) [OF assms(1-3)] assms(3) by (auto simp: e_def)
  have xe: "x < e" "e - x - 8 = msz B" "x + 16 \<le> e" using free_block(1) [OF assms(1-3)] by (auto simp: e_def)
  have u: "in_use (join x e False L) = (in_use L)(x \<mapsto> msz B)"
    using used_join [OF assms(1,2) E(1) xe(1) E(2), of False] gap [OF assms(1,2)] xe(2) by (force simp: e_def in_use_def split: option.splits)
  show ?thesis
  proof (cases "msz B \<ge> n + 16")
    case True
    have l: "layout_ok (join x e False L)" by (rule join_ok [OF assms(1,2) E(1) xe(3)]) simp
    have js: "join x e False L x = Some \<lparr>msz = msz B, mfree = False, mprev = mprev B\<rparr>" "join x e False L e = Some (E\<lparr>mprev := None\<rparr>)"
      using assms(2) E(1) xe(1,2) by (simp_all add: join_apply)
    have "in_use (cut x n (join x e False L)) = (in_use (join x e False L))(x \<mapsto> n)"
      using used_cut [OF l js(1) _ js(2)] E(2) True assms(4,5) by (simp add: e_def)
    then show ?thesis using True u assms(2) by (simp add: taken_def Let_def e_def [symmetric]) auto
  next
    case False
    then show ?thesis using u assms(2,6) by (simp add: taken_def Let_def e_def [symmetric]) auto
  qed
qed

text \<open>Where the released block begins and ends, with the free blocks around it.\<close>

lemma freed_bounds:
  assumes "layout_ok L" "L b = Some B" "\<not> mfree B" "msz B \<noteq> 0"
  obtains s S e E where "freed b L = join s e True L" "L s = Some S" "mprev S = None" "L e = Some E" "\<not> mfree E" "s \<le> b" "b + 16 \<le> e"
    "\<forall>a \<in> dom (in_use L). s < a \<longrightarrow> a = b \<or> e \<le> a" "mfree S \<or> s = b"
proof -
  define n where "n = b + 8 + msz B"
  obtain N where N: "L n = Some N" "8 \<le> msz B" using next_block [OF assms(1,2,4)] by (auto simp: n_def)
  define e where "e = (if mfree N then n + 8 + msz N else n)"
  define s where "s = (case mprev B of None \<Rightarrow> b | Some p \<Rightarrow> p)"
  obtain E where E: "L e = Some E" "\<not> mfree E"
  proof (cases "mfree N")
    case True
    then have "msz N \<noteq> 0" using free_block(1) [OF assms(1) N(1)] by auto
    then obtain E where "L (n + 8 + msz N) = Some E" "mfree N \<longrightarrow> \<not> mfree E" using next_block [OF assms(1) N(1)] by blast
    then show ?thesis using that True by (simp add: e_def)
  qed (use that N(1) in \<open>simp add: e_def\<close>)
  obtain S where S: "L s = Some S" "mprev S = None" "s \<le> b" "mfree S \<or> s = b" "s < b \<longrightarrow> s + 8 + msz S = b"
  proof (cases "mprev B")
    case None
    then show ?thesis using that assms(2) by (simp add: s_def)
  next
    case (Some p)
    then obtain P where P: "L p = Some P" "mfree P" "p + 8 + msz P = b" using prev_block [OF assms(1,2)] by blast
    then show ?thesis using that free_block(2) [OF assms(1) P(1,2)] Some by (simp add: s_def)
  qed
  have "a = b \<or> e \<le> a" if "a \<in> dom (in_use L)" "s < a" for a
  proof -
    have a: "a \<in> dom L" "a \<noteq> n \<or> \<not> mfree N" using that(1) N(1) by (auto simp: in_use_def split: option.splits if_splits)
    have "b \<le> a" using gap [OF assms(1) S(1) a(1) that(2)] S(3,5) by (cases "s = b") (use that(2) in auto)
    moreover have "n \<le> a" if "b < a" using gap [OF assms(1,2) a(1) that] by (simp add: n_def)
    moreover have "n + 8 + msz N \<le> a" if "n < a" using gap [OF assms(1) N(1) a(1) that] .
    ultimately show ?thesis using a(2) by (cases "a = b"; cases "a = n") (auto simp: e_def)
  qed
  moreover have "freed b L = join s e True L" using assms(2) N(1) by (simp add: freed_def Let_def n_def [symmetric] e_def s_def)
  moreover have "b + 16 \<le> e" using N(2) by (auto simp: e_def n_def)
  ultimately show ?thesis using that S E by blast
qed

lemma used_freed:
  assumes "layout_ok L" "L b = Some B" "\<not> mfree B" "msz B \<noteq> 0"
  shows "in_use (freed b L) = (in_use L)(b := None)"
proof -
  obtain s S e E where f: "freed b L = join s e True L" "L s = Some S" "mprev S = None" "L e = Some E" "\<not> mfree E" "s \<le> b" "b + 16 \<le> e"
    "\<forall>a \<in> dom (in_use L). s < a \<longrightarrow> a = b \<or> e \<le> a" "mfree S \<or> s = b"
    by (rule freed_bounds [OF assms])
  have j: "join s e True L x = (if x = s then Some \<lparr>msz = e - s - 8, mfree = True, mprev = mprev S\<rparr>
      else if x = e then Some (E\<lparr>mprev := Some s\<rparr>) else if s < x \<and> x < e then None else L x)" for x
    using f(2,4,6,7) by (simp add: join_apply)
  have "in_use (join s e True L) a = ((in_use L)(b := None)) a" for a
  proof (cases "s < a \<and> a < e \<and> a \<noteq> b")
    case True
    then have "in_use L a = None" using f(8) by force
    then show ?thesis using True by (simp add: in_use_def j)
  next
    case False
    have sb: "s = b \<or> in_use L s = None" using f(2,9) by (auto simp: in_use_def)
    consider "a = s" | "a = e" | "a = b" "s < b" | "a < s \<or> e < a" using False f(6) by linarith
    then show ?thesis
    proof cases
      case 1
      then show ?thesis using sb by (auto simp: in_use_def j)
    next
      case 2
      then show ?thesis using f(4-7) by (simp add: in_use_def j)
    next
      case 3
      then show ?thesis using f(7) by (simp add: in_use_def j)
    next
      case 4
      then show ?thesis using f(6,7) by (simp add: in_use_def j) linarith
    qed
  qed
  then show ?thesis using f(1) by auto
qed

text \<open>No block comes to lie outside of the range of the blocks there were before.\<close>

definition inside :: "layout \<Rightarrow> layout \<Rightarrow> bool" where
  "inside L L' \<longleftrightarrow> (\<forall>a \<in> dom L'. \<exists>c \<in> dom L. \<exists>d \<in> dom L. c \<le> a \<and> a \<le> d)"

lemma inside_sub: "dom L' \<subseteq> dom L \<Longrightarrow> inside L L'"
  unfolding inside_def by blast

lemma inside_trans: "inside L L' \<Longrightarrow> inside L' L'' \<Longrightarrow> inside L L''"
  unfolding inside_def by (meson le_trans)

lemma dom_join: "s \<in> dom L \<Longrightarrow> e \<in> dom L \<Longrightarrow> s < e \<Longrightarrow> dom (join s e f L) \<subseteq> dom L"
  by (auto simp: join_apply split: if_splits)

lemma inside_cut:
  assumes "L s = Some S" "L e = Some E" "e = s + 8 + msz S" "x \<le> msz S"
  shows "inside L (cut s x L)"
proof -
  have "a \<in> dom L \<or> s \<le> a \<and> a \<le> e" if "a \<in> dom (cut s x L)" for a
    using that assms by (auto simp: cut_def Let_def split: if_splits)
  moreover have "s \<in> dom L" "e \<in> dom L" using assms(1,2) by auto
  ultimately show ?thesis unfolding inside_def by blast
qed

lemma inside_taken:
  assumes "layout_ok L" "L x = Some B" "mfree B"
  shows "inside L (taken x n L)"
proof -
  define e where "e = x + 8 + msz B"
  obtain E where E: "L e = Some E" using next_block [OF assms(1,2)] free_block(1) [OF assms] by (auto simp: e_def)
  have xe: "x < e" "e - x - 8 = msz B" by (auto simp: e_def)
  have j: "inside L (join x e False L)" using assms(2) E xe(1) by (intro inside_sub dom_join) auto
  have "inside (join x e False L) (cut x n (join x e False L))" if "n + 16 \<le> msz B"
    using that assms(2) E xe by (intro inside_cut [of _ _ "\<lparr>msz = msz B, mfree = False, mprev = mprev B\<rparr>" e]) (auto simp: join_apply e_def)
  then show ?thesis using j inside_trans assms(2) by (auto simp: taken_def Let_def e_def [symmetric])
qed

lemma inside_freed:
  assumes "layout_ok L" "L b = Some B" "\<not> mfree B" "msz B \<noteq> 0"
  shows "inside L (freed b L)"
proof -
  obtain s S e E where f: "freed b L = join s e True L" "L s = Some S" "mprev S = None" "L e = Some E" "\<not> mfree E" "s \<le> b" "b + 16 \<le> e"
    "\<forall>a \<in> dom (in_use L). s < a \<longrightarrow> a = b \<or> e \<le> a" "mfree S \<or> s = b"
    by (rule freed_bounds [OF assms])
  show ?thesis unfolding f(1) using f(2,4,6,7) by (intro inside_sub dom_join) auto
qed

section \<open>What lies in the blocks\<close>

definition payload :: "nat \<Rightarrow> nat \<Rightarrow> 32 word set" where
  "payload a n = of_nat ` {a + 8 ..< a + 8 + n}"

lemma meta_cases:
  assumes "w \<in> meta L"
  obtains c d where "c \<in> dom L" "w = of_nat (c + d)" "d \<le> 4 \<or> d \<le> 12 \<and> c \<in> free_blocks L"
proof -
  consider (h) c where "c \<in> dom L" "w = of_nat c \<or> w = of_nat c + 4" | (f) c where "c \<in> free_blocks L" "w = of_nat c + 8 \<or> w = of_nat c + 12"
    using assms by (auto simp: meta_def hw_def fw_def)
  then show ?thesis
  proof cases
    case h
    then show ?thesis using that [of c 0] that [of c 4] by auto
  next
    case f
    then show ?thesis using that [of c 8] that [of c 12] by (auto simp: free_blocks_def)
  qed
qed

lemma payload_meta:
  assumes "layout_ok L" "in_use L a = Some n"
  shows "payload a n \<inter> meta L = {}"
proof -
  obtain B where B: "L a = Some B" "\<not> mfree B" "msz B = n" using assms(2) by (auto simp: used_Some)
  have e: "a + 8 + n < 2 ^ 32" using layout_okD(5) [OF assms(1) B(1)] B(3) by simp
  have "of_nat k \<notin> meta L" if k: "a + 8 \<le> k" "k < a + 8 + n" for k
  proof
    assume "of_nat k \<in> meta L"
    then obtain c d where c: "c \<in> dom L" "of_nat k = (of_nat (c + d) :: 32 word)" "d \<le> 4 \<or> d \<le> 12 \<and> c \<in> free_blocks L"
      by (rule meta_cases)
    then obtain C where C: "L c = Some C" by blast
    have "c + d < 2 ^ 32" using layout_okD(2) [OF assms(1) C] c(3) by auto
    then have kc: "k = c + d" using c(2) of_nat_eq_small [of k "c + d"] k e by simp
    have "a < c \<Longrightarrow> a + 8 + n \<le> c" using gap [OF assms(1) B(1) c(1)] B(3) by simp
    moreover have "c < a \<Longrightarrow> c + 8 + msz C \<le> a" using gap [OF assms(1) C] B(1) by auto
    moreover have "c \<in> free_blocks L \<Longrightarrow> 8 \<le> msz C \<and> c \<noteq> a" using free_block(1) [OF assms(1) C] C B by (auto simp: free_blocks_def)
    ultimately show False using c(3) k unfolding kc by (cases rule: linorder_cases [of a c]) linarith+
  qed
  then show ?thesis by (auto simp: payload_def)
qed

lemma payload_disjoint:
  assumes "layout_ok L" "in_use L a = Some n" "in_use L b = Some k" "a \<noteq> b"
  shows "payload a n \<inter> payload b k = {}"
proof -
  obtain A B where A: "L a = Some A" "msz A = n" "L b = Some B" "msz B = k" using assms(2,3) by (auto simp: used_Some)
  have e: "a + 8 + n < 2 ^ 32" "b + 8 + k < 2 ^ 32" using layout_okD(5) [OF assms(1)] A by auto
  have "a + 8 + n \<le> b \<or> b + 8 + k \<le> a" using gap [OF assms(1) A(1), of b] gap [OF assms(1) A(3), of a] A assms(4) by (cases "a < b") (simp_all add: domIff)
  then have "i \<noteq> j" if "i \<in> {a + 8 ..< a + 8 + n}" "j \<in> {b + 8 ..< b + 8 + k}" for i j using that by auto
  moreover have "i < 2 ^ 32" if "i \<in> {a + 8 ..< a + 8 + n} \<union> {b + 8 ..< b + 8 + k}" for i using that e by auto
  ultimately show ?thesis unfolding payload_def using of_nat_eq_small by fastforce
qed

lemma agree_payload:
  assumes "layout_ok L" "layout_ok L'" "agree (meta L \<union> meta L') m m'" "in_use L a = Some n" "in_use L' a = Some n" "p \<in> payload a n"
  shows "m' p = m p"
  using payload_meta [OF assms(1,4)] payload_meta [OF assms(2,5)] assms(3,6) unfolding agree_def by blast

text \<open>Writing into a block in use does not disturb the heap.\<close>

lemma meta_fields:
  "a \<in> dom L \<Longrightarrow> of_nat a \<in> meta L" "a \<in> dom L \<Longrightarrow> of_nat a + 4 \<in> meta L"
  "a \<in> free_blocks L \<Longrightarrow> of_nat a + 8 \<in> meta L" "a \<in> free_blocks L \<Longrightarrow> of_nat a + 12 \<in> meta L"
  by (simp_all add: meta_def hwI fwI)

lemma dll_cong:
  "\<forall>x \<in> set xs. f_prev m' (of_nat x) = f_prev m (of_nat x) \<and> f_next m' (of_nat x) = f_next m (of_nat x) \<Longrightarrow> dll m' p xs n = dll m p xs n"
  by (induction xs arbitrary: p) auto

lemma heap_rep_frame:
  assumes r: "heap_rep L F h" and a: "agree A (hmem h) m'" "A \<inter> meta L = {}"
  shows "heap_rep L F (h\<lparr>hmem := m'\<rparr>)"
proof -
  have l: "layout_ok L" "near L" "headers L (hmem h)" "lists_ok (dom L) F (hmem h) (hhead h)" "holds (free_blocks L) L F"
    using r by (simp_all add: heap_rep_def)
  have same: "m' p = hmem h p" if "p \<in> meta L" for p using a that by (auto simp: agree_def)
  have "headers L m'" using l(3) same meta_fields(1,2) [of _ L] unfolding headers_def field_defs by (metis domI)
  moreover have "members F = free_blocks L" using holds_members [OF l(1,2,5)] by (auto simp: free_blocks_def)
  then have "dll m' p (F fl sl) 0 = dll (hmem h) p (F fl sl) 0" if "fl < 14" "sl < 32" for p fl sl
    using that same meta_fields(3,4) [of _ L] by (intro dll_cong) (auto simp: members_def field_defs)
  then have "lists_ok (dom L) F m' (hhead h)" using l(4) by (simp add: lists_ok_def)
  ultimately show ?thesis using l by (simp add: heap_rep_def)
qed

end
