(* ===== verification/MmClient.thy ===== *)
theory MmClient
  imports MmUsed
begin

unbundle bit_operations_syntax

text \<open>
  The whole allocator: the heap together with the pool of small blocks in one of its blocks. The abstract
  state is the map from the buffers handed out to their sizes.
\<close>

section \<open>The pool of small blocks\<close>

definition bytes :: "nat \<Rightarrow> nat \<Rightarrow> 32 word set" where
  "bytes p n = of_nat ` {p ..< p + n}"

lemma payload_bytes: "payload a n = bytes (a + 8) n"
  by (simp add: payload_def bytes_def)

definition small_blks :: "nat \<Rightarrow> nat set" where
  "small_blks q = (\<lambda>i. q + 40 + 32 * i) ` {..<128}"

text \<open>Of the blocks of the pool in block \<open>q\<close>, those in \<open>S\<close> are free: they form the chain of the control block.\<close>

definition small_rep :: "nat \<Rightarrow> nat set \<Rightarrow> pmem \<Rightarrow> mblk_pool \<Rightarrow> bool" where
  "small_rep q S m p \<longleftrightarrow> pool_obj_type p = RHINO_MM_BLK_OBJ_TYPE \<and> S \<subseteq> small_blks q \<and>
     (\<exists>bl. set bl = S \<and> distinct bl \<and> chain m (avail_list p) (map of_nat bl) \<and> unat (blk_avail p) = length bl)"

definition fixed_ok :: "layout \<Rightarrow> nat option \<Rightarrow> nat set \<Rightarrow> mheap \<Rightarrow> bool" where
  "fixed_ok L po S h \<longleftrightarrow>
     (case po of
        None \<Rightarrow> fixedmblk (hhead h) = 0 \<and> S = {}
      | Some q \<Rightarrow> fixedmblk (hhead h) = of_nat q \<and> (\<exists>n \<ge> 4128. in_use L q = Some n) \<and> small_rep q S (hmem h) (hpool h))"

definition mm_inv :: "layout \<Rightarrow> lists \<Rightarrow> nat option \<Rightarrow> nat set \<Rightarrow> mheap \<Rightarrow> bool" where
  "mm_inv L F po S h \<longleftrightarrow> heap_rep L F h \<and> fixed_ok L po S h"

text \<open>The buffers handed out: those of blocks in use, except the one with the pool, and the small blocks that are not free.\<close>

definition client :: "layout \<Rightarrow> nat option \<Rightarrow> nat set \<Rightarrow> nat \<rightharpoonup> nat" where
  "client L po S p =
     (if p < 8 then None
      else case po of
        None \<Rightarrow> in_use L (p - 8)
      | Some q \<Rightarrow> if p \<in> small_blks q then (if p \<in> S then None else Some 32)
                  else if p = q + 8 then None else in_use L (p - 8))"

definition keeps :: "(nat \<rightharpoonup> nat) \<Rightarrow> pmem \<Rightarrow> pmem \<Rightarrow> bool" where
  "keeps A m m' \<longleftrightarrow> (\<forall>p n. A p = Some n \<longrightarrow> (\<forall>w \<in> bytes p n. m' w = m w))"

lemma keeps_refl [simp]: "keeps A m m"
  by (simp add: keeps_def)

lemma keeps_trans: "keeps A m m' \<Longrightarrow> keeps A m' m'' \<Longrightarrow> keeps A m m''"
  by (simp add: keeps_def)

lemma small_bounds:
  assumes "p \<in> small_blks q"
  shows "q + 40 \<le> p" "p + 32 \<le> q + 8 + 4128"
  using assms by (auto simp: small_blks_def)

lemma small_step: "p \<in> small_blks q \<Longrightarrow> r \<in> small_blks q \<Longrightarrow> p < r \<Longrightarrow> p + 32 \<le> r"
  by (auto simp: small_blks_def)

lemma mm_layout: "mm_inv L F po S h \<Longrightarrow> layout_ok L"
  by (simp add: mm_inv_def heap_rep_def)

text \<open>Every buffer handed out lies in the payload of a block in use.\<close>

lemma client_home:
  assumes "mm_inv L F po S h" "client L po S p = Some n"
  obtains c k where "in_use L c = Some k" "bytes p n \<subseteq> payload c k" "c + 8 \<le> p" "p + n \<le> c + 8 + k"
    "po = Some c \<and> p \<in> small_blks c \<and> n = 32 \<or> p = c + 8 \<and> n = k \<and> po \<noteq> Some c"
proof -
  consider q where "po = Some q" "p \<in> small_blks q" "n = 32" | "in_use L (p - 8) = Some n" "8 \<le> p" "po \<noteq> Some (p - 8)"
  proof (cases po)
    case None
    then show ?thesis using that(2) assms(2) by (simp add: client_def split: if_splits)
  next
    case (Some q)
    show ?thesis
    proof (cases "p \<in> small_blks q")
      case True
      then show ?thesis using that(1) [OF Some] assms(2) Some by (simp add: client_def split: if_splits)
    next
      case False
      then show ?thesis using that(2) assms(2) Some by (simp add: client_def split: if_splits)
    qed
  qed
  then show ?thesis
  proof cases
    case (1 q)
    then obtain k where k: "in_use L q = Some k" "4128 \<le> k" using assms(1) by (auto simp: mm_inv_def fixed_ok_def)
    moreover have "p + n \<le> q + 8 + k" "q + 8 \<le> p" using small_bounds [OF 1(2)] 1(3) k(2) by auto
    moreover from this have "bytes p n \<subseteq> payload q k" by (auto simp: bytes_def payload_def)
    ultimately show ?thesis using that 1 by blast
  next
    case 2
    have "bytes p n \<subseteq> payload (p - 8) n" "p - 8 + 8 = p" using 2(2) by (simp_all add: payload_bytes)
    then show ?thesis using that [of "p - 8" n] 2 by simp
  qed
qed

text \<open>The buffers handed out do not overlap.\<close>

lemma client_disjoint:
  assumes i: "mm_inv L F po S h" and a: "client L po S p = Some n" "client L po S r = Some k" "p \<noteq> r"
  shows "bytes p n \<inter> bytes r k = {}"
proof -
  obtain c x where c: "in_use L c = Some x" "bytes p n \<subseteq> payload c x" "c + 8 \<le> p" "p + n \<le> c + 8 + x"
    "po = Some c \<and> p \<in> small_blks c \<and> n = 32 \<or> p = c + 8 \<and> n = x \<and> po \<noteq> Some c"
    using client_home [OF i a(1)] .
  obtain d y where d: "in_use L d = Some y" "bytes r k \<subseteq> payload d y" "d + 8 \<le> r" "r + k \<le> d + 8 + y"
    "po = Some d \<and> r \<in> small_blks d \<and> k = 32 \<or> r = d + 8 \<and> k = y \<and> po \<noteq> Some d"
    using client_home [OF i a(2)] .
  show ?thesis
  proof (cases "c = d")
    case True
    then have s: "p \<in> small_blks c" "r \<in> small_blks c" "n = 32" "k = 32" using c(5) d(5) a(3) by auto
    then have "p + 32 \<le> r \<or> r + 32 \<le> p" using small_step a(3) by (meson linorder_neqE_nat)
    moreover have "c + 8 + x < 2 ^ 32" using layout_okD(5) [OF mm_layout [OF i]] c(1) by (auto simp: used_Some)
    ultimately show ?thesis using c(4) d(4) True c(1) d(1) s(3,4) of_nat_eq_small unfolding bytes_def by fastforce
  next
    case False
    then show ?thesis using payload_disjoint [OF mm_layout [OF i] c(1) d(1)] c(2) d(2) by blast
  qed
qed

text \<open>A write into a buffer handed out keeps the invariant.\<close>

lemma chain_cong: "\<forall>b \<in> set bs. m' b = m b \<Longrightarrow> chain m' p bs = chain m p bs"
  by (induction bs arbitrary: p) auto

lemma small_rep_cong: "small_rep q S m p \<Longrightarrow> \<forall>b \<in> S. m' (of_nat b) = m (of_nat b) \<Longrightarrow> small_rep q S m' p"
  unfolding small_rep_def using chain_cong [of _ m' m "avail_list p"] by (metis imageE set_map)

lemma client_write:
  assumes i: "mm_inv L F po S h" and a: "client L po S p = Some n" "agree (bytes p n) (hmem h) m'"
  shows "mm_inv L F po S (h\<lparr>hmem := m'\<rparr>)"
proof -
  obtain c x where c: "in_use L c = Some x" "bytes p n \<subseteq> payload c x" "c + 8 \<le> p" "p + n \<le> c + 8 + x"
    "po = Some c \<and> p \<in> small_blks c \<and> n = 32 \<or> p = c + 8 \<and> n = x \<and> po \<noteq> Some c"
    using client_home [OF i a(1)] .
  have "heap_rep L F (h\<lparr>hmem := m'\<rparr>)"
    using i c(2) payload_meta [OF mm_layout [OF i] c(1)] by (intro heap_rep_frame [OF _ a(2)]) (auto simp: mm_inv_def)
  moreover have "fixed_ok L po S (h\<lparr>hmem := m'\<rparr>)"
  proof (cases po)
    case (Some q)
    then obtain k where k: "in_use L q = Some k" "4128 \<le> k" "small_rep q S (hmem h) (hpool h)" "fixedmblk (hhead h) = of_nat q"
      using i by (auto simp: mm_inv_def fixed_ok_def)
    have "of_nat b \<notin> bytes p n" if b: "b \<in> S" for b
    proof
      assume w: "of_nat b \<in> bytes p n"
      have bs: "b \<in> small_blks q" using k(3) b by (auto simp: small_rep_def)
      have bb: "of_nat b \<in> payload q k" "q + 8 \<le> b" "b < q + 8 + k" using small_bounds [OF bs] k(2) by (auto simp: payload_def)
      then have cq: "c = q" using payload_disjoint [OF mm_layout [OF i] c(1) k(1)] w c(2) by blast
      then have s: "p \<in> small_blks q" "n = 32" using c(5) Some by auto
      have pS: "p \<notin> S" "p \<noteq> b" using a(1) s(1) Some b small_bounds [OF s(1)] by (auto simp: client_def split: if_splits)
      have e: "q + 8 + k < 2 ^ 32" using layout_okD(5) [OF mm_layout [OF i]] k(1) by (auto simp: used_Some)
      obtain j where j: "p \<le> j" "j < p + 32" "of_nat b = (of_nat j :: 32 word)" using w s(2) by (auto simp: bytes_def)
      then have "b = j" using of_nat_eq_small [of b j] bb(3) e c(4) cq s(2) k(1) c(1) by simp
      then show False using small_step [OF s(1) bs] small_step [OF bs s(1)] j(1,2) pS(2) by linarith
    qed
    then have "small_rep q S m' (hpool h)" using small_rep_cong [OF k(3)] a(2) by (simp add: agree_def)
    then show ?thesis using k Some by (auto simp: fixed_ok_def)
  qed (use i in \<open>simp add: mm_inv_def fixed_ok_def\<close>)
  ultimately show ?thesis by (simp add: mm_inv_def)
qed

end
