(* ===== verification/MmRefine.thy ===== *)
theory MmRefine
  imports MmClient
begin

unbundle bit_operations_syntax

text \<open>
  Allocation and release on the whole allocator refine the update of the map of buffers: allocation adds one buffer
  that was not handed out, release removes one, and all other buffers keep their contents.
\<close>

section \<open>Allocation\<close>

lemma small_head:
  assumes "small_rep q S m p" "0 < blk_avail p"
  obtains b p' where "krhino_mblk_alloc m (Some p) False = (RHINO_SUCCESS, Some (of_nat b), Some p')" "b \<in> S" "small_rep q (S - {b}) m p'"
proof -
  obtain bl where bl: "set bl = S" "distinct bl" "chain m (avail_list p) (map of_nat bl)" "unat (blk_avail p) = length bl"
    and t: "pool_obj_type p = RHINO_MM_BLK_OBJ_TYPE" "S \<subseteq> small_blks q" using assms(1) by (auto simp: small_rep_def)
  have "bl \<noteq> []" using assms(2) bl(4) by (auto simp: unat_eq_zero)
  then obtain b bs where c: "bl = b # bs" by (cases bl) auto
  define p' where "p' = p\<lparr>avail_list := m (avail_list p), blk_avail := blk_avail p - 1\<rparr>"
  have "unat (blk_avail p - 1) = length bs" using bl(4) c assms(2) by (simp add: unat_minus_one word_gt_0)
  then have "small_rep q (S - {b}) m p'"
    unfolding small_rep_def using bl c t by (intro conjI exI [of _ bs]) (auto simp: p'_def)
  moreover have "krhino_mblk_alloc m (Some p) False = (RHINO_SUCCESS, Some (of_nat b), Some p')"
    using bl(3) c t assms(2) by (simp add: krhino_mblk_alloc_def p'_def)
  ultimately show ?thesis using that bl(1) c by auto
qed

lemma client_taken:
  assumes "in_use L' = (in_use L)(x \<mapsto> k)" "in_use L x = None" "\<forall>q. po = Some q \<longrightarrow> x + 8 \<notin> small_blks q \<and> x \<noteq> q"
  shows "client L' po S = (client L po S)(x + 8 \<mapsto> k)" "client L po S (x + 8) = None"
  using assms by (auto simp: client_def fun_eq_iff split: option.splits)

lemma fixed_ok_step:
  assumes "fixed_ok L po S h" "\<And>q n. po = Some q \<Longrightarrow> in_use L q = Some n \<Longrightarrow> in_use L' q = Some n"
    "layout_ok L" "layout_ok L'" "agree (meta L \<union> meta L') (hmem h) (hmem h')"
    "fixedmblk (hhead h') = fixedmblk (hhead h)" "hpool h' = hpool h"
  shows "fixed_ok L' po S h'"
proof (cases po)
  case (Some q)
  then obtain n where n: "in_use L q = Some n" "4128 \<le> n" "small_rep q S (hmem h) (hpool h)" using assms(1) by (auto simp: fixed_ok_def)
  have "hmem h' (of_nat b) = hmem h (of_nat b)" if "b \<in> S" for b
  proof -
    have "b \<in> small_blks q" using n(3) that by (auto simp: small_rep_def)
    then have "of_nat b \<in> payload q n" using small_bounds [of b q] n(2) by (auto simp: payload_def)
    then show ?thesis using agree_payload [OF assms(3-5) n(1) assms(2) [OF Some n(1)]] by blast
  qed
  then have "small_rep q S (hmem h') (hpool h')" using small_rep_cong [OF n(3)] assms(7) by simp
  then show ?thesis using assms(1,2,6) n Some by (auto simp: fixed_ok_def)
qed (use assms(1,6) in \<open>simp add: fixed_ok_def\<close>)

lemma keeps_step:
  assumes i: "mm_inv L F po S h" and l: "layout_ok L'" "agree (meta L \<union> meta L') (hmem h) m'"
    and u: "\<And>c k. in_use L c = Some k \<Longrightarrow> c \<notin> X \<Longrightarrow> in_use L' c = Some k"
    and A: "\<And>p n. A p = Some n \<Longrightarrow> client L po S p = Some n \<and> (8 \<le> p \<longrightarrow> p - 8 \<notin> X)" and X: "\<forall>q. po = Some q \<longrightarrow> q \<notin> X"
  shows "keeps A (hmem h) m'"
  unfolding keeps_def
proof (intro allI impI ballI)
  fix p n w assume p: "A p = Some n" and w: "w \<in> bytes p n"
  obtain c k where c: "in_use L c = Some k" "bytes p n \<subseteq> payload c k" "c + 8 \<le> p" "p + n \<le> c + 8 + k"
    "po = Some c \<and> p \<in> small_blks c \<and> n = 32 \<or> p = c + 8 \<and> n = k \<and> po \<noteq> Some c"
    using client_home [OF i, of p n] A [OF p] by blast
  then have "c \<notin> X" using A [OF p] X by auto
  then show "m' w = hmem h w" using agree_payload [OF mm_layout [OF i] l c(1) u [OF c(1)]] c(2) w by blast
qed

lemma in_pool_block:
  assumes "mm_inv L F (Some q) S h" "x \<in> dom L" "x \<noteq> q"
  shows "x + 8 \<notin> small_blks q"
proof
  assume s: "x + 8 \<in> small_blks q"
  obtain n Q where n: "L q = Some Q" "msz Q = n" "4128 \<le> n" using assms(1) by (auto simp: mm_inv_def fixed_ok_def used_Some)
  have "q < x \<Longrightarrow> q + 8 + n \<le> x" using gap [OF mm_layout [OF assms(1)] n(1) assms(2)] n(2) by simp
  then show False using small_bounds [OF s] n(3) assms(3) by linarith
qed

text \<open>What a block taken from the heap means for the buffers.\<close>

lemma alloc_result_client:
  assumes i: "mm_inv L F po S h" and r: "alloc_result L h z p h'" "p \<noteq> 0" and z: "8 \<le> z" "z mod 4 = 0"
  shows "\<exists>a k L' F'. p = of_nat a \<and> a < 2 ^ 32 \<and> client L po S a = None \<and> z \<le> k \<and> k < z + 16 \<and> mm_inv L' F' po S h' \<and>
    client L' po S = (client L po S)(a \<mapsto> k) \<and> inside L L' \<and> keeps (client L po S) (hmem h) (hmem h')"
proof -
  have l: "layout_ok L" "fixed_ok L po S h" using i by (simp_all add: mm_inv_def heap_rep_def)
  obtain x B F' where x: "L x = Some B" "mfree B" "z \<le> msz B" "p = of_nat (x + 8)" "heap_rep (taken x z L) F' h'"
    "agree (meta L \<union> meta (taken x z L)) (hmem h) (hmem h')" "fixedmblk (hhead h') = fixedmblk (hhead h)" "hpool h' = hpool h"
    using r by (auto simp: alloc_result_def)
  define L' where "L' = taken x z L"
  obtain k where k: "z \<le> k" "k < z + 16" "in_use L' = (in_use L)(x \<mapsto> k)" using used_taken [OF l(1) x(1,2) z x(3)] by (auto simp: L'_def)
  have ux: "in_use L x = None" using x(1,2) by (simp add: in_use_def)
  have xq: "\<forall>q. po = Some q \<longrightarrow> x + 8 \<notin> small_blks q \<and> x \<noteq> q"
  proof (intro allI impI)
    fix q assume q: "po = Some q"
    then have "x \<noteq> q" using l(2) ux by (auto simp: fixed_ok_def)
    then show "x + 8 \<notin> small_blks q \<and> x \<noteq> q" using in_pool_block [of L F q S h x] i q x(1) by auto
  qed
  have l': "layout_ok L'" using x(5) by (simp add: heap_rep_def L'_def)
  have u: "in_use L' c = Some y" if "in_use L c = Some y" for c y using that k(3) ux by auto
  have "mm_inv L' F' po S h'"
    using x(5) fixed_ok_step [OF l(2) u l(1) l' x(6) [folded L'_def] x(7,8)] by (simp add: mm_inv_def L'_def)
  moreover have "keeps (client L po S) (hmem h) (hmem h')"
    using u by (intro keeps_step [OF i l' x(6) [folded L'_def], of "{}"]) auto
  moreover have "inside L L'" unfolding L'_def by (rule inside_taken [OF l(1) x(1,2)])
  moreover have "x + 8 < 2 ^ 32" using layout_okD(2) [OF l(1) x(1)] by simp
  ultimately show ?thesis
    using k(1,2) x(4) client_taken [OF k(3) ux xq, of S]
    by (intro exI [of _ "x + 8"] exI [of _ k] exI [of _ L'] exI [of _ F'] conjI)
qed

lemma k_mm_alloc_ok:
  assumes i: "mm_inv L F po S h" and n: "2 \<le> n" "n \<le> 0xFC000000"
  shows "ok (k_mm_alloc (of_nat n) h) (\<lambda>(p, h').
    if p = 0 then h' = h \<and> (\<forall>x B. L x = Some B \<and> mfree B \<longrightarrow> msz B < round_up (ask n))
    else \<exists>a k L' F' S'. p = of_nat a \<and> a < 2 ^ 32 \<and> client L po S a = None \<and> n \<le> k \<and> mm_inv L' F' po S' h' \<and>
      client L' po S' = (client L po S)(a \<mapsto> k) \<and> inside L L' \<and> keeps (client L po S) (hmem h) (hmem h'))"
proof -
  have l: "layout_ok L" "heap_rep L F h" "fixed_ok L po S h" using i by (simp_all add: mm_inv_def heap_rep_def)
  have nz: "of_nat n \<noteq> (0 :: 32 word)" using n by (intro of_nat_nonzero) auto
  show ?thesis
  proof (cases "fixedmblk (hhead h) \<noteq> 0 \<and> of_nat n \<le> DEF_FIX_BLK_SIZE \<and> 0 < blk_avail (hpool h)")
    case True
    then obtain q where q: "po = Some q" "small_rep q S (hmem h) (hpool h)" using l(3) by (auto simp: fixed_ok_def split: option.splits)
    obtain k where k: "in_use L q = Some k" "4128 \<le> k" using l(3) q(1) by (auto simp: fixed_ok_def)
    obtain b p' where b: "krhino_mblk_alloc (hmem h) (Some (hpool h)) False = (RHINO_SUCCESS, Some (of_nat b), Some p')" "b \<in> S"
      "small_rep q (S - {b}) (hmem h) p'" using small_head [OF q(2)] True by blast
    have n32: "n \<le> 32" using True n(2) by (simp add: word_le_nat_alt DEF_FIX_BLK_SIZE_def)
    obtain hh' where a: "addsize DEF_FIX_BLK_SIZE (of_nat n) (hhead h) = Inr hh'" "same_lists (hhead h) hh'" using addsize_ok [of n] n by auto
    have bs: "b \<in> small_blks q" using q(2) b(2) by (auto simp: small_rep_def)
    have "q + 8 + k < 2 ^ 32" using layout_okD(5) [OF l(1)] k(1) by (auto simp: used_Some)
    then have b32: "0 < b" "b < 2 ^ 32" "8 \<le> b" using small_bounds [OF bs] k(2) by auto
    have "of_nat b \<noteq> (0 :: 32 word)" using of_nat_nonzero b32 by blast
    then have e: "k_mm_alloc (of_nat n) h = Inr (of_nat b, h\<lparr>hpool := p', hhead := hh'\<rparr>)"
      using True nz a(1) b(1) by (simp add: k_mm_alloc_def k_mm_smallblk_alloc_def)
    have "mm_inv L F po (S - {b}) (h\<lparr>hpool := p', hhead := hh'\<rparr>)"
      using l(2,3) a(2) b(3) q(1) k heap_rep_same [OF a(2), of L F h] by (auto simp: mm_inv_def fixed_ok_def heap_rep_def same_lists_def)
    moreover have "client L po (S - {b}) = (client L po S)(b \<mapsto> 32)" "client L po S b = None"
      using bs b(2) b32 q(1) by (auto simp: client_def fun_eq_iff)
    moreover have "inside L L" by (simp add: inside_sub)
    ultimately show ?thesis unfolding e using \<open>of_nat b \<noteq> 0\<close> b32(2) n32 by fastforce
  next
    case False
    then have e: "k_mm_alloc (of_nat n) h = k_mm_alloc_blk (of_nat n) h" using nz by (auto simp: k_mm_alloc_def)
    have "if p = 0 then h' = h \<and> (\<forall>x B. L x = Some B \<and> mfree B \<longrightarrow> msz B < round_up (ask n))
      else \<exists>a k L' F' S'. p = of_nat a \<and> a < 2 ^ 32 \<and> client L po S a = None \<and> n \<le> k \<and> mm_inv L' F' po S' h' \<and>
        client L' po S' = (client L po S)(a \<mapsto> k) \<and> inside L L' \<and> keeps (client L po S) (hmem h) (hmem h')"
      if r: "alloc_result L h (ask n) p h'" for p h'
    proof (cases "p = 0")
      case True
      then show ?thesis using r by (auto simp: alloc_result_def)
    next
      case False
      obtain a k L' F' where a: "p = of_nat a" "a < 2 ^ 32" "client L po S a = None" "ask n \<le> k" "mm_inv L' F' po S h'"
        "client L' po S = (client L po S)(a \<mapsto> k)" "inside L L'" "keeps (client L po S) (hmem h) (hmem h')"
        using alloc_result_client [OF i r False] ask_props [of n] by auto
      have "n \<le> k" using a(4) ask_props(2) [of n] by simp
      then show ?thesis
        unfolding if_not_P [OF False] using a by (intro exI [of _ a] exI [of _ k] exI [of _ L'] exI [of _ F'] exI [of _ S] conjI)
    qed
    then show ?thesis unfolding e by (rule_tac ok_mono [OF k_mm_alloc_blk_ok [OF l(2) n]]) (simp only: case_prod_unfold)
  qed
qed

section \<open>Release\<close>

lemma tag_word: "msz B mod 4 = 0 \<Longrightarrow> \<not> mfree B \<Longrightarrow> tag B = of_nat (msz B + (if mprev B = None then 0 else 2))"
  unfolding tag_def using low_bits [of "msz B"] by (simp, subst disjunctive_add) auto

text \<open>\<open>ISFIXEDBLK\<close> tells the small blocks from the blocks of the heap.\<close>

lemma ISFIXEDBLK_ok:
  assumes i: "mm_inv L F po S h" and p: "client L po S p = Some n"
  shows "ISFIXEDBLK h (of_nat p) \<longleftrightarrow> (\<exists>q. po = Some q \<and> p \<in> small_blks q)"
proof (cases po)
  case None
  then show ?thesis using i by (simp add: mm_inv_def fixed_ok_def ISFIXEDBLK_def)
next
  case (Some q)
  have l: "layout_ok L" "headers L (hmem h)" using i by (simp_all add: mm_inv_def heap_rep_def)
  obtain Q where Q: "L q = Some Q" "\<not> mfree Q" "4128 \<le> msz Q" "fixedmblk (hhead h) = of_nat q"
    using i Some by (auto simp: mm_inv_def fixed_ok_def used_Some)
  obtain N where N: "L (q + 8 + msz Q) = Some N" using next_block [OF l(1) Q(1)] Q(3) by auto
  have e: "q + 8 + msz Q + 16 \<le> 2 ^ 32" using layout_okD(2) [OF l(1) N] .
  obtain c k where c: "in_use L c = Some k" "bytes p n \<subseteq> payload c k" "c + 8 \<le> p" "p + n \<le> c + 8 + k"
    "po = Some c \<and> p \<in> small_blks c \<and> n = 32 \<or> p = c + 8 \<and> n = k \<and> po \<noteq> Some c"
    using client_home [OF i p] .
  obtain C where C: "L c = Some C" "msz C = k" using c(1) by (auto simp: used_Some)
  have p32: "p < 2 ^ 32" using layout_okD(2,5) [OF l(1) C(1)] C(2) c(4,5) by auto
  define x where "x = msz Q + (if mprev Q = None then 0 else 2)"
  have "k_size (hmem h) (of_nat q) = tag Q" using l(2) Q(1) by (simp add: headers_def)
  then have kq: "k_size (hmem h) (of_nat q) = of_nat x" using tag_word [OF layout_okD(4) [OF l(1) Q(1)] Q(2)] by (simp add: x_def)
  have x: "msz Q \<le> x" "x \<le> msz Q + 2" by (auto simp: x_def)
  have w: "buffer (of_nat q) = of_nat (q + 8)" "of_nat (q + 8) + of_nat x = (of_nat (q + 8 + x) :: 32 word)" by (simp_all add: word_addrs)
  have b: "q + 8 < 2 ^ 32" "q + 8 + x < 2 ^ 32" using e x by auto
  have q0: "of_nat q \<noteq> (0 :: 32 word)" using spaced_nonzero [OF heap_spaced [OF l(1)]] Q(1) by blast
  have *: "ISFIXEDBLK h (of_nat p) \<longleftrightarrow> q + 8 < p \<and> p < q + 8 + x"
    unfolding ISFIXEDBLK_def Q(4) kq w using q0 by (simp only: word_less_nat_alt unat_of_nat_small b p32) simp
  show ?thesis
  proof (cases "p \<in> small_blks q")
    case True
    then show ?thesis using * small_bounds [OF True] Q(3) x(1) Some by auto
  next
    case False
    then have pc: "p = c + 8" "c \<noteq> q" using c(5) Some by auto
    have "q < c \<Longrightarrow> q + 8 + msz Q \<le> c" using gap [OF l(1) Q(1), of c] C(1) by auto
    then have "\<not> (q + 8 < p \<and> p < q + 8 + x)" using pc x(2) by auto
    then show ?thesis using * False Some by simp
  qed
qed

lemma k_mm_free_ok:
  assumes i: "mm_inv L F po S h" and p: "client L po S p = Some n" "n \<noteq> 0"
  shows "ok (k_mm_free (of_nat p) h) (\<lambda>h'. \<exists>L' F' S'. mm_inv L' F' po S' h' \<and>
    client L' po S' = (client L po S)(p := None) \<and> inside L L' \<and> keeps ((client L po S)(p := None)) (hmem h) (hmem h'))"
proof -
  have l: "layout_ok L" "heap_rep L F h" "fixed_ok L po S h" using i by (simp_all add: mm_inv_def heap_rep_def)
  obtain c k where c: "in_use L c = Some k" "bytes p n \<subseteq> payload c k" "c + 8 \<le> p" "p + n \<le> c + 8 + k"
    "po = Some c \<and> p \<in> small_blks c \<and> n = 32 \<or> p = c + 8 \<and> n = k \<and> po \<noteq> Some c"
    using client_home [OF i p(1)] .
  obtain C where C: "L c = Some C" "\<not> mfree C" "msz C = k" using c(1) by (auto simp: used_Some)
  have p32: "p < 2 ^ 32" "0 < p" using layout_okD(2,5) [OF l(1) C(1)] C(3) c(3-5) by auto
  then have nz: "of_nat p \<noteq> (0 :: 32 word)" using of_nat_nonzero by blast
  note fixd = ISFIXEDBLK_ok [OF i p(1)]
  show ?thesis
  proof (cases "po = Some c \<and> p \<in> small_blks c")
    case True
    then have q: "small_rep c S (hmem h) (hpool h)" using l(3) by (simp add: fixed_ok_def)
    have pS: "p \<notin> S" using p(1) True c(3) by (auto simp: client_def split: if_splits)
    obtain bl where bl: "set bl = S" "distinct bl" "chain (hmem h) (avail_list (hpool h)) (map of_nat bl)"
      "unat (blk_avail (hpool h)) = length bl" "S \<subseteq> small_blks c" and t: "pool_obj_type (hpool h) = RHINO_MM_BLK_OBJ_TYPE"
      using q by (auto simp: small_rep_def)
    define m' where "m' = (hmem h)(of_nat p := avail_list (hpool h))"
    define p' where "p' = (hpool h)\<lparr>avail_list := of_nat p, blk_avail := blk_avail (hpool h) + 1\<rparr>"
    have le: "length bl \<le> 128" using bl(1,2,5) card_mono [of "small_blks c" S] distinct_card [of bl] card_image_le [of "{..<128}" "\<lambda>i. c + 40 + 32 * i"]
      by (simp add: small_blks_def)
    then have "unat (blk_avail (hpool h) + 1) = Suc (length bl)" using unat_add_lt [of "blk_avail (hpool h)" 1] bl(4) by simp
    moreover have "of_nat p \<notin> set (map of_nat bl :: 32 word list)"
    proof
      assume "of_nat p \<in> set (map of_nat bl :: 32 word list)"
      then obtain b where b: "b \<in> S" "of_nat p = (of_nat b :: 32 word)" using bl(1) by auto
      have "b + 32 \<le> c + 8 + k" using small_bounds [of b c] bl(5) b(1) l(3) True c(1) by (auto simp: fixed_ok_def)
      then have "b < 2 ^ 32" using layout_okD(5) [OF l(1) C(1)] C(3) by simp
      then show False using b of_nat_eq_small p32(1) pS by metis
    qed
    ultimately have "small_rep c (insert p S) m' p'"
      unfolding small_rep_def using bl t True nz by (intro conjI exI [of _ "p # bl"]) (auto simp: m'_def p'_def pS)
    moreover have w: "agree (bytes p n) (hmem h) m'" using p(2) by (auto simp: agree_def m'_def bytes_def)
    moreover have h: "mm_inv L F po S (h\<lparr>hmem := m'\<rparr>)" using client_write [OF i p(1) w] .
    moreover define h' where "h' = h\<lparr>hmem := m', hpool := p', hhead := removesize DEF_FIX_BLK_SIZE (hhead h)\<rparr>"
    ultimately have "mm_inv L F po (insert p S) h'"
      using True by (auto simp: mm_inv_def fixed_ok_def heap_rep_def lists_ok_same [OF removesize_same] h'_def) (simp_all add: removesize_def)
    moreover have "client L po (insert p S) = (client L po S)(p := None)" using True c(3) by (auto simp: client_def fun_eq_iff)
    moreover have "keeps ((client L po S)(p := None)) (hmem h) (hmem h')"
      using w client_disjoint [OF i p(1)] by (auto simp: keeps_def agree_def h'_def)
    moreover have "k_mm_free (of_nat p) h = Inr h'"
      using nz fixd True t by (simp add: k_mm_free_def k_mm_smallblk_free_def krhino_mblk_free_def h'_def m'_def p'_def)
    moreover have "inside L L" by (simp add: inside_sub)
    ultimately show ?thesis by auto
  next
    case False
    then have pc: "p = c + 8" "n = k" "po \<noteq> Some c" using c(5) by auto
    have nf: "\<not> ISFIXEDBLK h (of_nat p)" using fixd in_pool_block [of L F _ S h c] i C(1) pc(1,3) by auto
    have k0: "msz C \<noteq> 0" using C(3) p(2) pc(2) by simp
    obtain m' hh' F' where f: "k_mm_free_blk (of_nat (c + 8)) h = Inr (h\<lparr>hmem := m', hhead := hh'\<rparr>)"
      "heap_rep (freed c L) F' (h\<lparr>hmem := m', hhead := hh'\<rparr>)" "agree (meta L \<union> meta (freed c L)) (hmem h) m'"
      "fixedmblk hh' = fixedmblk (hhead h)"
      using k_mm_free_blk_ok [OF l(2) C(1,2) k0] by blast
    define L' where "L' = freed c L"
    define h' where "h' = h\<lparr>hmem := m', hhead := hh'\<rparr>"
    have u: "in_use L' = (in_use L)(c := None)" unfolding L'_def by (rule used_freed [OF l(1) C(1,2) k0])
    have l': "layout_ok L'" using f(2) by (simp add: heap_rep_def L'_def)
    have fx: "fixed_ok L' po S h'"
      using f(3,4) u pc(3) by (intro fixed_ok_step [OF l(3) _ l(1) l']) (auto simp: h'_def L'_def)
    then have "mm_inv L' F' po S h'" using f(2) by (simp add: mm_inv_def h'_def L'_def)
    moreover have "client L' po S = (client L po S)(p := None)"
      using u pc in_pool_block [of L F _ S h c] i C(1) by (auto simp: client_def fun_eq_iff split: option.splits)
    moreover have "keeps ((client L po S)(p := None)) (hmem h) m'"
      using u pc f(3) by (intro keeps_step [OF i l', of _ "{c}"]) (auto simp: L'_def split: if_splits)
    moreover have "k_mm_free (of_nat p) h = Inr h'" using nz nf f(1) by (simp add: k_mm_free_def h'_def pc(1) del: of_nat_add)
    moreover have "inside L L'" unfolding L'_def by (rule inside_freed [OF l(1) C(1,2) k0])
    ultimately show ?thesis by (auto simp: h'_def)
  qed
qed

end
