(* ===== verification/MmInit.thy ===== *)
theory MmInit
  imports MmRefine
begin

unbundle bit_operations_syntax

text \<open>
  Initialisation: a region is laid out as an information block, one free block and a sentinel, and the pool of small blocks is cut from
  the free block when it fits.
\<close>

section \<open>A fresh region\<close>

lemma region_consts: "MM_ALIGN_UP sizeof_region_info = of_nat 8" "MMREGION_USED_SIZE = of_nat 32" "MM_ALIGN_UP sizeof_mm_head = of_nat 1952"
  "MM_ALIGN_UP sizeof_mblk_pool = of_nat 32" "RHINO_CONFIG_MM_TLF_BLK_SIZE + MM_ALIGN_UP sizeof_mblk_pool = of_nat 4128"
  using align_up [of 8] align_up [of 1952] align_up [of 32]
  by (simp_all add: sizeof_region_info_def sizeof_mm_head_def sizeof_mblk_pool_def MMREGION_USED_SIZE_def MMLIST_HEAD_SIZE_def
      sizeof_mm_list_def RHINO_CONFIG_MM_TLF_BLK_SIZE_def)

definition fresh :: "nat \<Rightarrow> nat \<Rightarrow> layout" where
  "fresh r R = [r \<mapsto> \<lparr>msz = 8, mfree = False, mprev = None\<rparr>, r + 16 \<mapsto> \<lparr>msz = R - 32, mfree = False, mprev = None\<rparr>,
     r + R - 8 \<mapsto> \<lparr>msz = 0, mfree = False, mprev = None\<rparr>]"

lemma fresh_ok:
  assumes "0 < r" "r mod 4 = 0" "R mod 4 = 0" "48 \<le> R" "R \<le> 2 ^ 20" "r + R + 8 \<le> 2 ^ 32"
  shows "layout_ok (fresh r R)" "near (fresh r R)" "dom (fresh r R) = {r, r + 16, r + R - 8}" "free_blocks (fresh r R) = {}"
    "in_use (fresh r R) = [r \<mapsto> 8, r + 16 \<mapsto> R - 32, r + R - 8 \<mapsto> 0]"
proof -
  show d: "dom (fresh r R) = {r, r + 16, r + R - 8}" by (auto simp: fresh_def)
  have f: "fresh r R a = (if a = r + R - 8 then Some \<lparr>msz = 0, mfree = False, mprev = None\<rparr>
      else if a = r + 16 then Some \<lparr>msz = R - 32, mfree = False, mprev = None\<rparr>
      else if a = r then Some \<lparr>msz = 8, mfree = False, mprev = None\<rparr> else None)" for a by (simp add: fresh_def)
  show "free_blocks (fresh r R) = {}" by (auto simp: free_blocks_def f split: if_splits)
  show "in_use (fresh r R) = [r \<mapsto> 8, r + 16 \<mapsto> R - 32, r + R - 8 \<mapsto> 0]" by (auto simp: in_use_def f fun_eq_iff)
  show "near (fresh r R)" unfolding near_def d using assms(4,5) by auto
  have m4: "(r + R - 8) mod 4 = 0" "(r + 16) mod 4 = 0" "(R - 32) mod 4 = 0" using assms(2-4) by presburger+
  have "spaced {r, r + 16, r + R - 8}" using assms(1,4,6) by (auto simp: spaced_def)
  moreover have "mblock_ok (fresh r R) a B" if fa: "fresh r R a = Some B" for a B
  proof -
    consider "a = r + R - 8" "B = \<lparr>msz = 0, mfree = False, mprev = None\<rparr>" | "a = r + 16" "B = \<lparr>msz = R - 32, mfree = False, mprev = None\<rparr>"
      | "a = r" "B = \<lparr>msz = 8, mfree = False, mprev = None\<rparr>" using fa by (auto simp: f split: if_splits)
    then show ?thesis
    proof cases
      case 1
      then show ?thesis using m4 assms(6) by (simp add: mblock_ok_def)
    next
      case 2
      have "r + 16 + 8 + (R - 32) = r + R - 8" using assms(4) by simp
      moreover have "r + R - 8 < 2 ^ 32" "8 \<le> R - 32" using assms(4,6) by simp_all
      ultimately show ?thesis using 2 m4 by (simp add: mblock_ok_def f)
    next
      case 3
      moreover have "r + 16 \<noteq> r + R - 8" "r + 16 < 2 ^ 32" using assms(4,6) by simp_all
      ultimately show ?thesis using assms(2) by (simp add: mblock_ok_def f add.commute)
    qed
  qed
  moreover have "a + 8 + msz A \<le> b" if "fresh r R a = Some A" "b \<in> dom (fresh r R)" "a < b" for a b A
    using that assms(4) unfolding d f by (auto split: if_splits)
  ultimately show "layout_ok (fresh r R)" unfolding layout_ok_def d by blast
qed

lemma init_mm_region_ok:
  assumes r: "0 < r" "r mod 4 = 0" "R mod 4 = 0" "48 \<le> R" "R \<le> 2 ^ 20" "r + R + 8 \<le> 2 ^ 32"
  obtains m' where "init_mm_region (of_nat r) (of_nat R) m = (of_nat r, m')" "k_size m' (of_nat r) = of_nat 8"
    "k_size m' (of_nat (r + 16)) = of_nat (R - 32)" "k_size m' (of_nat (r + R - 8)) = 2"
proof -
  define c where "c = r + 16"
  define e where "e = r + R - 8"
  have sp: "spaced {r, c, e}" using heap_spaced [OF fresh_ok(1) [OF r]] fresh_ok(3) [OF r] by (simp add: c_def e_def)
  have ap: "apart (of_nat a) (of_nat b)" if "a \<in> {r, c, e}" "b \<in> {r, c, e}" "a \<noteq> b" for a b using spaced_apart [OF sp] that by blast
  have ne: "r \<noteq> c" "r \<noteq> e" "c \<noteq> e" using r(4) by (auto simp: c_def e_def)
  have al: "MM_ALIGN_DOWN (of_nat R - MMREGION_USED_SIZE) = of_nat (R - 32)"
  proof -
    have "(R - 32) div 4 * 4 = R - 32" using r(3,4) by presburger
    moreover have "of_nat R - MMREGION_USED_SIZE = (of_nat (R - 32) :: 32 word)" using word_diff [of 32 R] r(4) by (simp only: region_consts)
    moreover have "R - 32 < 2 ^ 32" using r(5) by simp
    ultimately show ?thesis unfolding MM_ALIGN_DOWN_def using align_down by metis
  qed
  have R4: "(R - 32) mod 4 = 0" using r(3,4) by presburger
  define m1 where "m1 = set_k_size (of_nat r) (of_nat 8) m"
  have b1: "blk_bytes m1 (of_nat r) = of_nat 8"
    using blk_bytes_tag [of m1 "of_nat r" "\<lparr>msz = 8, mfree = False, mprev = None\<rparr>"] tag_new(3) [of 8] by (simp add: m1_def)
  have c1: "buffer (of_nat r) + of_nat 8 = of_nat c" by (simp add: word_addrs c_def)
  define m2 where "m2 = set_f_prev (of_nat c) 0 (set_f_next (of_nat c) 0 (set_k_size (of_nat c) (of_nat (R - 32)) m1))"
  have k2: "k_size m2 (of_nat c) = of_nat (R - 32)" "k_size m2 (of_nat r) = of_nat 8"
    using ap [of r c] ap [of c r] ne by (simp_all add: m2_def m1_def field_apart)
  have b2: "blk_bytes m2 (of_nat c) = of_nat (R - 32)"
    using blk_bytes_tag [of m2 "of_nat c" "\<lparr>msz = R - 32, mfree = False, mprev = None\<rparr>"] tag_new(3) [OF R4] k2(1) R4 by simp
  have e1: "NEXT_MM_BLK (buffer (of_nat c)) (of_nat (R - 32)) = of_nat e"
  proof -
    have "c + 8 + (R - 32) = e" using r(4) by (simp add: c_def e_def)
    then show ?thesis by (simp only: word_addrs)
  qed
  define m3 where "m3 = set_f_prev (of_nat r) (of_nat e) (set_f_next (of_nat r) 0 (set_k_size (of_nat e) RHINO_MM_PREVFREE (set_k_prev (of_nat e) (of_nat c) m2)))"
  have "buffer (of_nat r) + 4 = of_nat r + 12" "buffer (of_nat r) = of_nat r + 8"
    by (simp_all add: buffer_def MMLIST_HEAD_SIZE_def sizeof_mm_list_def)
  then have "init_mm_region (of_nat r) (of_nat R) m = (of_nat r, m3)"
    unfolding init_mm_region_def Let_def region_consts(1) al m1_def [symmetric] b1 c1 m2_def [symmetric] b2 e1
    by (simp add: m3_def set_f_prev_def set_f_next_def add.commute)
  moreover have "k_size m3 (of_nat r) = of_nat 8" "k_size m3 (of_nat c) = of_nat (R - 32)" "k_size m3 (of_nat e) = 2"
    using k2 ap [of r e] ap [of c e] ap [of c r] ap [of e r] ne by (simp_all add: m3_def field_apart RHINO_MM_PREVFREE_def)
  ultimately show ?thesis using that by (simp add: c_def e_def)
qed

text \<open>Releasing the block of a fresh region gives a heap with one free block.\<close>

lemma release_fresh:
  assumes r: "0 < r" "r mod 4 = 0" "R mod 4 = 0" "48 \<le> R" "R \<le> 2 ^ 20" "r + R + 8 \<le> 2 ^ 32"
    and k: "k_size (hmem h) (of_nat r) = of_nat 8" "k_size (hmem h) (of_nat (r + 16)) = of_nat (R - 32)" "k_size (hmem h) (of_nat (r + R - 8)) = 2"
    and z: "same_lists (zero_head\<lparr>regioninfo := g\<rparr>) (hhead h)"
  obtains m' hh' F' where "k_mm_free (of_nat (r + 24)) h = Inr (h\<lparr>hmem := m', hhead := hh'\<rparr>)"
    "heap_rep (join (r + 16) (r + R - 8) True (fresh r R)) F' (h\<lparr>hmem := m', hhead := hh'\<rparr>)" "fixedmblk hh' = 0"
proof -
  define L where "L = fresh r R"
  note L = fresh_ok [OF r, folded L_def]
  define c where "c = r + 16"
  define e where "e = r + R - 8"
  let ?C = "\<lparr>msz = R - 32, mfree = True, mprev = None\<rparr>"
  have R4: "(R - 32) mod 4 = 0" using r(3,4) by presburger
  have ce: "c + 16 \<le> e" "r < c" "e - c - 8 = R - 32" "c + 8 + (R - 32) = e" using r(4) by (auto simp: c_def e_def)
  have dL: "dom L = {r, c, e}" using L(3) by (simp add: c_def e_def)
  have Lx: "L r = Some \<lparr>msz = 8, mfree = False, mprev = None\<rparr>" "L c = Some \<lparr>msz = R - 32, mfree = False, mprev = None\<rparr>"
    "L e = Some \<lparr>msz = 0, mfree = False, mprev = None\<rparr>" using ce by (auto simp: L_def fresh_def c_def e_def)
  have sp: "spaced (dom L)" using heap_spaced [OF L(1)] .
  define m1 where "m1 = set_k_size (of_nat c) (tag ?C) (hmem h)"
  define h1 where "h1 = h\<lparr>hmem := m1, hhead := removesize (of_nat (R - 32) + MMLIST_HEAD_SIZE) (hhead h)\<rparr>"
  have ap: "apart (of_nat r) (of_nat c)" "apart (of_nat e) (of_nat c)"
    by (rule spaced_apart [OF sp]; use dL ce(1,2) in simp)+
  have k1: "k_size m1 (of_nat c) = tag ?C" "k_size m1 (of_nat r) = of_nat 8" "k_size m1 (of_nat e) = 2"
    using k ap by (simp_all add: m1_def field_apart e_def)
  have z1: "same_lists (zero_head\<lparr>regioninfo := g\<rparr>) (hhead h1)" using z by (simp add: h1_def same_lists_def removesize_def)
  have bb: "blk_bytes m1 (of_nat c) = of_nat (R - 32)" using blk_bytes_tag [OF k1(1)] R4 by simp
  have "lists_ok (dom L) (\<lambda>_ _. []) m1 (zero_head\<lparr>regioninfo := g\<rparr>)" by (simp add: lists_ok_def bitmaps_ok_def zero_head_def)
  then have lo: "lists_ok (dom L) (\<lambda>_ _. []) m1 (hhead h1)" using lists_ok_same [OF z1] by simp
  have "tag \<lparr>msz = 0, mfree = False, mprev = Some c\<rparr> = 2" by (simp add: tag_def)
  moreover have "hdr_ok L m1 a" if "a < c \<or> e < a" for a
    using that k1(2) Lx(1) ce tag_new(3) [of 8] dL by (cases "a = r") (auto simp: hdr_ok_def intro: hdr_ok_none)
  ultimately have rel: "releasing L c e (free_blocks L - {c..<e}) (\<lambda>_ _. []) (hmem h1) (hhead h1)"
    unfolding releasing_def using L(1,2,4) Lx ce k1 lo by (auto simp: h1_def holds_def RHINO_MM_PREVFREE_def)
  have "mprev \<lparr>msz = R - 32, mfree = False, mprev = None\<rparr> = None" by simp
  from release_ok [OF rel Lx(2) this] obtain m' hh' F' where rl:
    "bnd (bitmap_search (blk_bytes (hmem h1) (of_nat c)) ACTION_INSERT) (\<lambda>(_, fl, sl).
         bnd (insert_block (of_nat c) fl sl h1) (\<lambda>h.
           let t = NEXT_MM_BLK (buffer (of_nat c)) (blk_bytes (hmem h) (of_nat c));
               m = set_k_size t (k_size (hmem h) t OR RHINO_MM_PREVFREE) (hmem h)
           in Inr (h\<lparr>hmem := set_k_prev t (of_nat c) m\<rparr>))) = Inr (h1\<lparr>hmem := m', hhead := hh'\<rparr>)"
    "heap_rep (join c e True L) F' (h1\<lparr>hmem := m', hhead := hh'\<rparr>)" "same_info (hhead h1) hh'" .
  have h1': "h1\<lparr>hmem := m', hhead := hh'\<rparr> = h\<lparr>hmem := m', hhead := hh'\<rparr>" by (simp add: h1_def)
  have "fixedmblk (hhead h) = 0" using z by (simp add: same_lists_def zero_head_def)
  moreover have "of_nat (c + 8) \<noteq> (0 :: 32 word)" using r(6) ce by (intro of_nat_nonzero) (auto simp: c_def)
  ultimately have "k_mm_free (of_nat (c + 8)) h = k_mm_free_blk (of_nat (c + 8)) h" by (simp add: k_mm_free_def ISFIXEDBLK_def del: of_nat_add)
  also have "\<dots> = Inr (h\<lparr>hmem := m', hhead := hh'\<rparr>)"
  proof -
    have w: "of_nat (c + 8) - MMLIST_HEAD_SIZE = (of_nat c :: 32 word)" "NEXT_MM_BLK (buffer (of_nat c)) (of_nat (R - 32)) = of_nat e"
      by (simp_all only: word_addrs flip: ce(4)) 
    have "k_size (hmem h) (of_nat c) OR RHINO_MM_FREE = tag ?C" using k(2) tag_new(1) [OF R4] by (simp add: c_def)
    moreover have "hmem (h\<lparr>hmem := m1\<rparr>) = m1" "hmem h1 = m1" by (simp_all add: h1_def)
    moreover have "h\<lparr>hmem := m1\<rparr>\<lparr>hhead := removesize (of_nat (R - 32) + MMLIST_HEAD_SIZE) (hhead (h\<lparr>hmem := m1\<rparr>))\<rparr> = h1" by (simp add: h1_def)
    moreover have "(k_size m1 (of_nat e) AND RHINO_MM_FREE \<noteq> 0) = False" by (simp add: k1(3) RHINO_MM_FREE_def)
    moreover have "(k_size m1 (of_nat c) AND RHINO_MM_PREVFREE \<noteq> 0) = False" using tag_ops(3) [of ?C] R4 by (simp add: k1(1))
    ultimately show ?thesis
      using rl(1) unfolding h1' k_mm_free_blk_def Let_def w(1)
      by (simp only: m1_def [symmetric] bb w(2) if_False bnd.simps prod.case)
  qed
  finally show ?thesis
    using that rl(2,3) z1 unfolding h1' by (simp add: c_def e_def L_def same_info_def same_lists_def zero_head_def add.commute)
qed

section \<open>The pool of small blocks\<close>

lemma pool_addrs: "block_addrs (of_nat (q + 40)) 32 128 = map of_nat (map (\<lambda>i. q + 40 + 32 * i) [0..<128])"
  by (simp add: block_addrs_def mult.commute)

lemma pool_params_aligned:
  assumes "0 < s" "s + 4096 + 32 < 2 ^ 32" "s mod 4 = 0"
  shows "pool_params (of_nat s) 32 4096"
proof -
  have e: "(3 :: 32 word) = mask 2" by (simp add: mask_eq_exp_minus_1)
  have "(of_nat s :: 32 word) AND 3 = 0"
    unfolding e by (rule bit_word_eqI) (use low_bits [OF assms(3)] in \<open>auto simp: bit_and_iff bit_mask_iff numeral_2_eq_2 less_Suc_eq\<close>)
  then show ?thesis using assms(1,2) of_nat_nonzero [of s] by (simp add: pool_params_def)
qed

lemma small_pool:
  assumes "pool_params (of_nat (x + 40)) 32 4096"
  obtains m' q where "krhino_mblk_pool_init m pools self (Some p) (Some name) (of_nat (x + 40)) 32 4096 =
      Inr (RHINO_SUCCESS, m', pools @ [self], Some q)" "small_rep x (small_blks x) m' q" "\<forall>w. w \<notin> of_nat ` small_blks x \<longrightarrow> m' w = m w"
proof -
  let ?bl = "map (\<lambda>i. x + 40 + 32 * i) [0..<128]"
  have n: "unat (4096 :: 32 word) div unat (32 :: 32 word) = 128" "unat (4096 :: 32 word) mod unat (32 :: 32 word) = 0" by simp_all
  obtain m' q rest where c: "krhino_mblk_pool_init m pools self (Some p) (Some name) (of_nat (x + 40)) 32 4096 =
      Inr (RHINO_SUCCESS, m', pools @ [self], Some q)" "unat (blk_avail q) = 128" "pool_obj_type q = RHINO_MM_BLK_OBJ_TYPE"
    "chain m' (avail_list q) (block_addrs (of_nat (x + 40)) 32 128 @ rest)"
    "\<forall>w. w \<notin> set (block_addrs (of_nat (x + 40)) 32 128 @ rest) \<longrightarrow> m' w = m w" "rest = []"
    by (rule mblk_pool_init_chain [OF assms, of m pools self p name, unfolded n]) auto
  have s: "set ?bl = small_blks x" by (auto simp: small_blks_def)
  have "distinct ?bl" by (simp add: distinct_map inj_on_def)
  then have "small_rep x (small_blks x) m' q"
    unfolding small_rep_def using c(2-4,6) s by (intro conjI exI [of _ ?bl]) (simp_all only: pool_addrs append_Nil2, simp_all)
  moreover have "\<forall>w. w \<notin> of_nat ` small_blks x \<longrightarrow> m' w = m w" using c(5,6) s by (simp only: pool_addrs append_Nil2 set_map [of of_nat]) 
  ultimately show ?thesis using that c(1) by blast
qed

lemma lists_ok_fixedmblk: "lists_ok D F m (hh\<lparr>fixedmblk := v\<rparr>) = lists_ok D F m hh"
  by (simp add: lists_ok_def bitmaps_ok_def)

lemma init_fixedmblk_ok:
  assumes r: "heap_rep L F h" "fixedmblk (hhead h) = 0" and top: "e \<in> dom L" "\<forall>a \<in> dom L. a \<le> e" "e + 64 \<le> 2 ^ 32"
  shows "ok (init_fixedmblk h) (\<lambda>h'. \<exists>L' F' po S'. mm_inv L' F' po S' h' \<and> client L' po S' = client L None {} \<and> inside L L')"
proof -
  have l: "layout_ok L" using r(1) by (simp add: heap_rep_def)
  have nz: "of_nat 4128 \<noteq> (0 :: 32 word)" by simp
  have e: "k_mm_alloc (of_nat 4128) h = k_mm_alloc_blk (of_nat 4128) h" using r(2) nz by (simp add: k_mm_alloc_def)
  have "ok (k_mm_alloc_blk (of_nat 4128) h) (\<lambda>(p, h'). alloc_result L h (ask 4128) p h')" by (rule k_mm_alloc_blk_ok [OF r(1)]) auto
  then obtain p h1 where a: "k_mm_alloc (of_nat 4128) h = Inr (p, h1)" "alloc_result L h 4128 p h1"
    unfolding e by (auto simp: ok_iff ask_def)
  show ?thesis
  proof (cases "p = 0")
    case True
    then have "init_fixedmblk h = Inr h" using a unfolding init_fixedmblk_def region_consts(5) by (auto simp: alloc_result_def)
    moreover have "mm_inv L F None {} h" "inside L L" using r by (simp_all add: mm_inv_def fixed_ok_def inside_sub)
    ultimately show ?thesis by auto
  next
    case False
    then obtain x B F1 where x: "L x = Some B" "mfree B" "4128 \<le> msz B" "p = of_nat (x + 8)" "heap_rep (taken x 4128 L) F1 h1"
      "fixedmblk (hhead h1) = 0" using a(2) r(2) by (auto simp: alloc_result_def)
    define L1 where "L1 = taken x 4128 L"
    have l1: "layout_ok L1" using x(5) by (simp add: heap_rep_def L1_def)
    obtain k where k: "4128 \<le> k" "in_use L1 = (in_use L)(x \<mapsto> k)" using used_taken [OF l x(1,2) _ _ x(3)] by (auto simp: L1_def)
    have xe: "x + 8 + msz B \<le> e" using gap [OF l x(1) top(1)] top(2) x(1,2) next_block [OF l x(1)] x(3)
      by (metis domI le_eq_less_or_eq not_numeral_le_zero)
    have x4: "x mod 4 = 0" "0 < x" using layout_okD [OF l x(1)] by auto
    have xs: "x + 40 + 4096 + 32 < 2 ^ 32" "(x + 40) mod 4 = 0" using xe x(3) top(3) x4(1) by (simp_all, presburger)
    have p8: "p - MMLIST_HEAD_SIZE = of_nat x" "p + MM_ALIGN_UP sizeof_mblk_pool = of_nat (x + 40)"
      unfolding x(4) region_consts by (simp only: word_addrs, simp)
    have "pool_params (of_nat (x + 40)) 32 4096" by (rule pool_params_aligned [OF _ xs]) simp
    then obtain pm' q' where i: "krhino_mblk_pool_init (hmem h1) (mblkpool_head h1) (unat p) (Some (hpool h1)) (Some ''fixed_mm_blk'')
        (of_nat (x + 40)) 32 4096 = Inr (RHINO_SUCCESS, pm', mblkpool_head h1 @ [unat p], Some q')"
      "small_rep x (small_blks x) pm' q'" "\<forall>w. w \<notin> of_nat ` small_blks x \<longrightarrow> pm' w = hmem h1 w"
      by (rule small_pool)
    define h2 where "h2 = h1\<lparr>hmem := pm', mblkpool_head := mblkpool_head h1 @ [unat p], hpool := q',
      hhead := removesize RHINO_CONFIG_MM_TLF_BLK_SIZE ((hhead h1)\<lparr>fixedmblk := of_nat x\<rparr>)\<rparr>"
    have "of_nat ` small_blks x \<subseteq> payload x k" using small_bounds [of _ x] k(1) by (fastforce simp: payload_def)
    then have "agree (payload x k) (hmem h1) pm'" using i(3) unfolding agree_def by blast
    then have "heap_rep L1 F1 (h1\<lparr>hmem := pm'\<rparr>)"
      using x(5) payload_meta [OF l1, of x k] k(2) by (intro heap_rep_frame [of L1 F1 h1]) (simp_all add: L1_def)
    then have "mm_inv L1 F1 (Some x) (small_blks x) h2"
      using i(2) k by (auto simp: mm_inv_def fixed_ok_def heap_rep_def h2_def lists_ok_same [OF removesize_same] lists_ok_fixedmblk) (simp add: removesize_def)
    moreover have "client L1 (Some x) (small_blks x) = client L None {}"
    proof
      fix a
      have "in_use L (a - 8) = None" if "a \<in> small_blks x"
        using gap [OF l x(1), of "a - 8"] small_bounds [OF that] x(3) by (fastforce simp: in_use_def domIff split: option.splits)
      moreover have "in_use L x = None" using x(1,2) by (simp add: in_use_def)
      ultimately show "client L1 (Some x) (small_blks x) a = client L None {} a" using k(2) by (auto simp: client_def)
    qed
    moreover have "inside L L1" unfolding L1_def by (rule inside_taken [OF l x(1,2)])
    moreover have "init_fixedmblk h = Inr h2"
      using False i(1) unfolding init_fixedmblk_def region_consts(5) a(1) bnd.simps prod.case p8 Let_def
      by (simp add: DEF_FIX_BLK_SIZE_def RHINO_CONFIG_MM_TLF_BLK_SIZE_def h2_def)
    ultimately show ?thesis by auto
  qed
qed

section \<open>The head of the heap\<close>

text \<open>The heap that is made of \<open>n\<close> bytes at \<open>o\<close>: where it starts and how long it is after alignment.\<close>

definition base :: "nat \<Rightarrow> nat" where
  "base a = (a + 3) div 4 * 4"

definition span :: "nat \<Rightarrow> nat \<Rightarrow> nat" where
  "span a n = (n - (base a - a)) div 4 * 4"

lemma base_props: "a \<le> base a" "base a \<le> a + 3" "base a mod 4 = 0" "span a n mod 4 = 0" "span a n \<le> n"
  by (auto simp: base_def span_def)

lemma align_down_fix: "k < 2 ^ 32 \<Longrightarrow> k mod 4 = 0 \<Longrightarrow> MM_ALIGN_DOWN (of_nat k) = of_nat k"
  using align_down [of k] by (simp add: MM_ALIGN_DOWN_def mod_eq_0_iff_dvd)

lemma of_nat_le_small: "a < 2 ^ 32 \<Longrightarrow> b < 2 ^ 32 \<Longrightarrow> (of_nat a :: 32 word) \<le> of_nat b \<longleftrightarrow> a \<le> b"
  by (simp only: word_le_nat_alt unat_of_nat_small)

lemma head_words:
  assumes "0 < a" "a + n + 64 \<le> 2 ^ 32" "5120 \<le> span a n"
  shows "MM_ALIGN_UP (of_nat a) = of_nat (base a)" "MM_ALIGN_DOWN (of_nat n - (of_nat (base a) - of_nat a)) = of_nat (span a n)"
    "(of_nat (base a) :: 32 word) AND MM_ALIGN_MASK = 0" "MM_ALIGN_DOWN (of_nat (span a n)) = of_nat (span a n)"
    "MM_ALIGN_DOWN (of_nat (span a n) - sizeof_mm_head) = of_nat (span a n - 1952)"
proof -
  note b = base_props [of a]
  have s: "span a n < 2 ^ 32" "5120 \<le> n" using base_props(5) [of a n] assms(2,3) by auto
  show "MM_ALIGN_UP (of_nat a) = of_nat (base a)" using align_up [of a] assms(2) s(2) by (simp add: base_def)
  have "of_nat n - (of_nat (base a) - of_nat a) = (of_nat (n - (base a - a)) :: 32 word)"
    using b(1,2) s(2) by (simp only: word_diff [OF b(1)], intro word_diff) simp
  then show "MM_ALIGN_DOWN (of_nat n - (of_nat (base a) - of_nat a)) = of_nat (span a n)"
    using align_down [of "n - (base a - a)"] assms(2) unfolding MM_ALIGN_DOWN_def by (simp only: span_def)
  have e: "MM_ALIGN_MASK = mask 2" by (simp add: MM_ALIGN_MASK_def mask_eq_exp_minus_1)
  show "(of_nat (base a) :: 32 word) AND MM_ALIGN_MASK = 0"
    unfolding e by (rule bit_word_eqI) (use low_bits [OF b(3)] in \<open>auto simp: bit_and_iff bit_mask_iff numeral_2_eq_2 less_Suc_eq\<close>)
  show "MM_ALIGN_DOWN (of_nat (span a n)) = of_nat (span a n)" by (rule align_down_fix [OF s(1) b(4)])
  have "of_nat (span a n) - sizeof_mm_head = (of_nat (span a n - 1952) :: 32 word)"
    using word_diff [of 1952 "span a n"] assms(3) by (simp add: sizeof_mm_head_def)
  moreover have "(span a n - 1952) mod 4 = 0" using b(4) [of n] assms(3) by presburger
  ultimately show "MM_ALIGN_DOWN (of_nat (span a n) - sizeof_mm_head) = of_nat (span a n - 1952)"
    using align_down_fix [of "span a n - 1952"] s(1) by (simp only:)
qed

lemma krhino_init_mm_head_ok:
  assumes a: "0 < a" "a + n + 64 \<le> 2 ^ 32" "5120 \<le> span a n" "span a n \<le> 2 ^ 20"
  shows "ok (krhino_init_mm_head False (of_nat a) (of_nat n) h) (\<lambda>(st, hd, h'). st = RHINO_SUCCESS \<and> hd = Some (of_nat (base a)) \<and>
    (\<exists>L F po S. mm_inv L F po S h' \<and> client L po S = [base a + 1960 \<mapsto> 8, base a + span a n \<mapsto> 0] \<and>
      dom L \<subseteq> {base a .. base a + span a n - 8}))"
proof -
  define r where "r = base a + 1952"
  define R where "R = span a n - 1952"
  note w = head_words [OF a(1-3)]
  note b = base_props [of a]
  have r: "0 < r" "r mod 4 = 0" "R mod 4 = 0" "48 \<le> R" "R \<le> 2 ^ 20" "r + R + 8 \<le> 2 ^ 32" "r + R = base a + span a n" "r + R + 56 \<le> 2 ^ 32"
  proof -
    show "r mod 4 = 0" using b(3) by (simp add: r_def mod_add_eq [symmetric])
    show "R mod 4 = 0" using b(4) [of n] a(3) unfolding R_def by presburger
    show rR: "r + R = base a + span a n" using a(3) by (simp add: r_def R_def)
    have "base a + span a n \<le> a + n" using b(1,2) a(1,3) by (simp add: span_def)
    then show "r + R + 8 \<le> 2 ^ 32" "r + R + 56 \<le> 2 ^ 32" using rR a(2) by simp_all
  qed (use a in \<open>auto simp: r_def R_def\<close>)
  obtain m where m: "init_mm_region (of_nat r) (of_nat R) (hmem h) = (of_nat r, m)" "k_size m (of_nat r) = of_nat 8"
    "k_size m (of_nat (r + 16)) = of_nat (R - 32)" "k_size m (of_nat (r + R - 8)) = 2"
    using init_mm_region_ok [OF r(1-6)] .
  define h1 where "h1 = h\<lparr>hmem := m, hhead := zero_head\<lparr>regioninfo := buffer (of_nat r)\<rparr>\<rparr>"
  have z: "same_lists (zero_head\<lparr>regioninfo := buffer (of_nat r)\<rparr>) (hhead h1)" by (simp add: h1_def same_lists_def)
  have "hmem h1 = m" by (simp add: h1_def)
  note k = m(2-4) [folded this]
  obtain m' hh' F' where f: "k_mm_free (of_nat (r + 24)) h1 = Inr (h1\<lparr>hmem := m', hhead := hh'\<rparr>)"
    "heap_rep (join (r + 16) (r + R - 8) True (fresh r R)) F' (h1\<lparr>hmem := m', hhead := hh'\<rparr>)" "fixedmblk hh' = 0"
    by (rule release_fresh [OF r(1-6) k z])
  define L where "L = join (r + 16) (r + R - 8) True (fresh r R)"
  define v where "v = blk_bytes m' (of_nat (r + 16))"
  define h2 where "h2 = h1\<lparr>hmem := m', hhead := hh'\<lparr>free_size := v, used_size := of_nat (span a n) - v, maxused_size := of_nat (span a n) - v, fixedmblk := 0\<rparr>\<rparr>"
  have j: "L x = (if x = r + 16 then Some \<lparr>msz = R - 32, mfree = True, mprev = None\<rparr> else if x = r + R - 8 then Some \<lparr>msz = 0, mfree = False, mprev = Some (r + 16)\<rparr>
      else if x = r then Some \<lparr>msz = 8, mfree = False, mprev = None\<rparr> else None)" for x
    using r(4) by (auto simp: L_def join_apply fresh_def)
  have h2: "heap_rep L F' h2" "fixedmblk (hhead h2) = 0"
    using f(2) by (simp_all add: h2_def L_def heap_rep_def lists_ok_def bitmaps_ok_def)
  have dL: "dom L = {r, r + 16, r + R - 8}" by (auto simp: j split: if_splits)
  have "ok (init_fixedmblk h2) (\<lambda>h'. \<exists>L' F' po S'. mm_inv L' F' po S' h' \<and> client L' po S' = client L None {} \<and> inside L L')"
    using r(4,8) by (intro init_fixedmblk_ok [OF h2, of "r + R - 8"]) (auto simp: dL)
  moreover have "client L None {} = [base a + 1960 \<mapsto> 8, base a + span a n \<mapsto> 0]"
  proof -
    have "in_use L = [r \<mapsto> 8, r + R - 8 \<mapsto> 0]" using r(4) by (auto simp: in_use_def j fun_eq_iff)
    moreover have "r + 8 = base a + 1960" "r + R - 8 + 8 = base a + span a n" using r(4,7) by (auto simp: r_def)
    ultimately show ?thesis using r(4) by (auto simp: client_def fun_eq_iff)
  qed
  moreover have "krhino_init_mm_head False (of_nat a) (of_nat n) h = bnd (init_fixedmblk h2) (\<lambda>h. Inr (RHINO_SUCCESS, Some (of_nat (base a)), h))"
  proof -
    have a0: "of_nat a \<noteq> (0 :: 32 word)" using a(1,2) by (intro of_nat_nonzero) auto
    have s: "span a n < 2 ^ 32" using a(4) by simp
    have c: "MIN_FREE_MEMORY_SIZE + RHINO_CONFIG_MM_TLF_BLK_SIZE = of_nat 5120" "MAX_MM_SIZE = of_nat (2 ^ 20)"
      by (simp_all add: MIN_FREE_MEMORY_SIZE_def RHINO_CONFIG_MM_TLF_BLK_SIZE_def MAX_MM_SIZE_def MAX_MM_BIT_def push_bit_eq_mult)
    have sz: "\<not> (of_nat (span a n) = (0 :: 32 word) \<or> of_nat (span a n) < MIN_FREE_MEMORY_SIZE + RHINO_CONFIG_MM_TLF_BLK_SIZE \<or> of_nat (span a n) > MAX_MM_SIZE)"
      unfolding c not_le [symmetric] using a(3,4) s of_nat_nonzero [of "span a n"] of_nat_le_small [of 5120 "span a n"] of_nat_le_small [of "span a n" "2 ^ 20"] by auto
    have rw: "of_nat (base a) + MM_ALIGN_UP sizeof_mm_head = (of_nat r :: 32 word)" by (simp add: region_consts r_def)
    have nx: "NEXT_MM_BLK (buffer (of_nat r)) (blk_bytes m (of_nat r)) = of_nat (r + 16)" "buffer (of_nat (r + 16)) = of_nat (r + 24)"
      using blk_bytes_tag [of m "of_nat r" "\<lparr>msz = 8, mfree = False, mprev = None\<rparr>"] tag_new(3) [of 8] m(2)
      by (simp_all add: buffer_def NEXT_MM_BLK_def MMLIST_HEAD_SIZE_def sizeof_mm_list_def)
    show ?thesis
      unfolding krhino_init_mm_head_def Let_def w(1,2) if_not_P [OF sz] w(5) R_def [symmetric] rw m(1) prod.case nx h1_def [symmetric] f(1) bnd.simps
      using a0 w(3,4) by (simp add: h2_def v_def)
  qed
  moreover have "dom L' \<subseteq> {base a .. base a + span a n - 8}" if ins: "inside L L'" for L'
  proof
    fix x assume "x \<in> dom L'"
    then obtain c d where "c \<in> dom L" "d \<in> dom L" "c \<le> x" "x \<le> d" using ins unfolding inside_def by blast
    then show "x \<in> {base a .. base a + span a n - 8}" using r(4,7) unfolding dL by (auto simp: r_def)
  qed
  ultimately show ?thesis
    by simp (erule ok_mono, blast)
qed

end
