(* ===== verification/MmRealloc.thy ===== *)
theory MmRealloc
  imports MmInit
begin

unbundle bit_operations_syntax

text \<open>
  Changing the size of a block: in place, when the block alone or together with the free block behind it is large enough, and
  otherwise by moving it. The first bytes of the buffer are the same before and after.
\<close>

section \<open>In place\<close>

text \<open>What a change of size in place leaves: the block \<open>b\<close> has another size, of at least \<open>x\<close> bytes.\<close>

definition resized :: "layout \<Rightarrow> mheap \<Rightarrow> nat \<Rightarrow> nat \<Rightarrow> mheap \<Rightarrow> bool" where
  "resized L h b x h' \<longleftrightarrow> (\<exists>L' F' k. heap_rep L' F' h' \<and> in_use L' = (in_use L)(b \<mapsto> k) \<and> x \<le> k \<and> inside L L' \<and>
     agree (meta L \<union> meta L') (hmem h) (hmem h') \<and> fixedmblk (hhead h') = fixedmblk (hhead h) \<and> hpool h' = hpool h)"

lemma cut_meta:
  assumes "layout_ok L1" "L1 s = Some S" "\<not> mfree S" "L1 e = Some E" "\<not> mfree E" "e = s + 8 + msz S" "8 \<le> x" "x mod 4 = 0" "x + 16 \<le> msz S"
    and "s \<in> dom L" "e \<in> dom L" "free_blocks L1 \<subseteq> free_blocks L"
  shows "hw {s, s + 8 + x, e} \<union> fw (insert (s + 8 + x) (free_blocks L1)) \<subseteq> meta L \<union> meta (cut s x L1)"
proof -
  have "cut s x L1 (s + 8 + x) = Some \<lparr>msz = msz S - x - 8, mfree = True, mprev = None\<rparr>" using cut_ok(3) [OF assms(1-9), of "s + 8 + x"] by simp
  then have "s + 8 + x \<in> free_blocks (cut s x L1)" "s + 8 + x \<in> dom (cut s x L1)" by (auto simp: free_blocks_def)
  then show ?thesis using assms(10-12) by (intro Un_least meta_sub) auto
qed

text \<open>The rest of a block behind its first \<open>x\<close> bytes is given back, if it is large enough for a block of its own.\<close>

lemma trim_ok:
  assumes r: "heap_rep L F h" and B: "L b = Some B" "\<not> mfree B" and N: "L (b + 8 + msz B) = Some N" "\<not> mfree N"
    and x: "8 \<le> x" "x mod 4 = 0" "x \<le> msz B"
  shows "ok (if of_nat (msz B) - of_nat x \<ge> sizeof_mm_list
      then split_free (of_nat b) (of_nat x) (of_nat (msz B) - of_nat x) (of_nat (b + 8 + msz B)) True h else Inr h)
    (\<lambda>h'. resized L h b x h')"
proof -
  define e where "e = b + 8 + msz B"
  have l: "layout_ok L" "near L" "headers L (hmem h)" "lists_ok (dom L) F (hmem h) (hhead h)" "holds (free_blocks L) L F"
    using r by (simp_all add: heap_rep_def)
  have w: "of_nat (msz B) - of_nat x = (of_nat (msz B - x) :: 32 word)" using word_diff [OF x(3)] .
  have ge: "(of_nat (msz B - x) :: 32 word) \<ge> sizeof_mm_list \<longleftrightarrow> x + 16 \<le> msz B"
    using size_small [OF l(1,2) B(1)] by (simp add: word_le_nat_alt sizeof_mm_list_def) linarith
  have E: "L e = Some N" using N(1) by (simp add: e_def)
  show ?thesis
  proof (cases "x + 16 \<le> msz B")
    case True
    have he: "(if True then k_size (hmem h) (of_nat e) OR RHINO_MM_PREVFREE else k_size (hmem h) (of_nat e)) = tag (N\<lparr>mprev := Some (b + 8 + x)\<rparr>)"
      using l(3) E tag_ops(6) layout_okD(4) [OF l(1) E] by (simp add: headers_def)
    obtain m' hh' F' where s: "split_free (of_nat b) (of_nat x) (of_nat (msz B - x)) (of_nat e) True h = Inr (h\<lparr>hmem := m', hhead := hh'\<rparr>)"
      "heap_rep (cut b x L) F' (h\<lparr>hmem := m', hhead := hh'\<rparr>)" "same_info (hhead h) hh'"
      "agree (hw {b, b + 8 + x, e} \<union> fw (insert (b + 8 + x) (free_blocks L))) (hmem h) m'"
      by (rule split_free_ok [OF l(1,2) B E N(2) e_def x(1,2) True l(4,5) _ _ _ he]) (use l(3) B(1) in \<open>auto simp: headers_def\<close>)
    have "in_use (cut b x L) = (in_use L)(b \<mapsto> x)" using used_cut [OF l(1) B E N(2) e_def x(1,2) True] .
    moreover have "agree (meta L \<union> meta (cut b x L)) (hmem h) m'"
      using cut_meta [OF l(1) B E N(2) e_def x(1,2) True, of L] B(1) E by (intro agree_mono [OF s(4)]) auto
    moreover have "inside L (cut b x L)" using x(3) by (intro inside_cut [OF B(1) E e_def])
    ultimately have "resized L h b x (h\<lparr>hmem := m', hhead := hh'\<rparr>)"
      unfolding resized_def using s(2,3) by (intro exI [of _ "cut b x L"] exI [of _ F'] exI [of _ x]) (simp add: same_info_def)
    then show ?thesis using s(1) ge True unfolding w e_def [symmetric] by simp
  next
    case False
    have "in_use L = (in_use L)(b \<mapsto> msz B)" using B by (auto simp: in_use_def fun_eq_iff)
    then have "resized L h b x h" unfolding resized_def using r x(3) agree_refl inside_sub [OF order_refl] by metis
    then show ?thesis using ge False unfolding w by simp
  qed
qed

text \<open>A block in use takes in the free block behind it.\<close>

lemma absorb:
  assumes l: "layout_ok L" "near L" and B: "L b = Some B" "\<not> mfree B" "msz B \<noteq> 0" and N: "L n = Some N" "n = b + 8 + msz B" "mfree N"
    and F: "holds (free_blocks L - {n}) L F" "lists_ok (dom L) F m hh"
  obtains e E where "e = n + 8 + msz N" "L e = Some E" "\<not> mfree E" "e \<noteq> b" "mprev E = Some n"
    "layout_ok (join b e False L)" "near (join b e False L)" "dom (join b e False L) = dom L - {n}" "free_blocks (join b e False L) = free_blocks L - {n}"
    "holds (free_blocks L - {n}) (join b e False L) F" "lists_ok (dom L - {n}) F m hh"
    "\<forall>a. join b e False L a = (if a = b then Some \<lparr>msz = msz B + 8 + msz N, mfree = False, mprev = mprev B\<rparr>
        else if a = e then Some (E\<lparr>mprev := None\<rparr>) else if a = n then None else L a)"
    "in_use (join b e False L) = (in_use L)(b \<mapsto> msz B + 8 + msz N)"
proof -
  define e where "e = n + 8 + msz N"
  have N8: "8 \<le> msz N" using free_block(1) [OF l(1) N(1,3)] .
  then obtain E where E: "L e = Some E" "\<not> mfree E" "mprev E = Some n" using next_block [OF l(1) N(1)] N(3) by (auto simp: e_def)
  have B8: "8 \<le> msz B" using next_block [OF l(1) B(1,3)] by blast
  have be: "b < n" "n < e" "b + 16 \<le> e" "e - b - 8 = msz B + 8 + msz N" using B8 N8 N(2) by (auto simp: e_def)
  have mid: "a = n" if "a \<in> dom L" "b < a" "a < e" for a
    using gap [OF l(1) B(1) that(1,2)] gap [OF l(1) N(1) that(1)] that(3) N(2) by (auto simp: e_def intro: ccontr)
  have j: "join b e False L a = (if a = b then Some \<lparr>msz = msz B + 8 + msz N, mfree = False, mprev = mprev B\<rparr>
        else if a = e then Some (E\<lparr>mprev := None\<rparr>) else if a = n then None else L a)" for a
    using mid [of a] be B(1) E(1) by (cases "L a") (auto simp: join_apply)
  have d: "dom (join b e False L) = dom L - {n}" using be B(1) E(1) by (auto simp: j split: if_splits)
  have f: "free_blocks (join b e False L) = free_blocks L - {n}" using B E be by (auto simp: free_blocks_def j split: if_splits)
  have lo: "layout_ok (join b e False L)" by (rule join_ok [OF l(1) B(1) E(1) be(3)]) simp
  have "near (join b e False L)" using near_sub [OF l(2)] d by auto
  moreover have h': "holds (free_blocks L - {n}) (join b e False L) F"
    using B E by (intro holds_cong [OF F(1)]) (auto simp: j free_blocks_def)
  moreover have "members F = free_blocks L - {n}" by (rule holds_members [OF l F(1)]) (auto simp: free_blocks_def)
  then have "lists_ok (dom L - {n}) F m hh" by (intro lists_ok_mono [OF F(2)]) (auto simp: free_blocks_def)
  moreover have "in_use (join b e False L) = (in_use L)(b \<mapsto> msz B + 8 + msz N)" using B E be N by (auto simp: in_use_def j fun_eq_iff)
  ultimately show ?thesis using that [OF e_def E(1,2) _ E(3) lo _ d f] j be by auto
qed

lemma resized_size:
  assumes "resized L h b x h'" "2 \<le> req" "req < 2 ^ 32"
  shows "ok (bnd (addsize z (of_nat req) (hhead h')) (\<lambda>hh. Inr (buffer (of_nat b), h'\<lparr>hhead := hh\<rparr>)))
    (\<lambda>(p, h'). p = of_nat (b + 8) \<and> resized L h b x h')"
proof -
  obtain hh where a: "addsize z (of_nat req) (hhead h') = Inr hh" "same_lists (hhead h') hh" using addsize_ok [OF assms(2,3)] by blast
  then have "resized L h b x (h'\<lparr>hhead := hh\<rparr>)"
    using assms(1) heap_rep_same [OF a(2), of _ _ h'] by (auto simp: resized_def same_lists_def)
  then show ?thesis using a(1) by (simp add: word_addrs(1))
qed

text \<open>The counters of the head have no influence.\<close>

lemma resized_same:
  assumes "resized L (h\<lparr>hhead := hh\<rparr>) b x h'" "fixedmblk hh = fixedmblk (hhead h)"
  shows "resized L h b x h'"
  using assms by (auto simp: resized_def)

lemma free_next:
  assumes l: "layout_ok L" "near L" "headers L (hmem h)" "lists_ok (dom L) F (hmem h) (hhead h)" "holds (free_blocks L) L F"
    and N: "L n = Some N" "mfree N"
  obtains m' hh' F' where "unlist (of_nat n) h = Inr (h\<lparr>hmem := m', hhead := hh'\<rparr>)" "lists_ok (dom L) F' m' hh'"
    "holds (free_blocks L - {n}) L F'" "agree (fw (free_blocks L)) (hmem h) m'" "same_info (hhead h) hh'" "headers L m'"
proof -
  have "k_size (hmem h) (of_nat n) = tag N" using l(3) N(1) by (simp add: headers_def)
  note blk_bytes_tag [OF this layout_okD(4) [OF l(1) N(1)]]
  moreover have "n \<in> free_blocks L" using N by (simp add: free_blocks_def)
  ultimately obtain m' hh' F' where u: "unlist (of_nat n) h = Inr (h\<lparr>hmem := m', hhead := hh'\<rparr>)" "lists_ok (dom L) F' m' hh'"
    "holds (free_blocks L - {n}) L F'" "agree (fw (members F)) (hmem h) m'" "same_info (hhead h) hh'"
    using unlist_ok [OF heap_spaced [OF l(1)] l(4,5) _ N(1) size_small [OF l(1,2) N(1)]] by blast
  have "free_blocks L \<subseteq> dom L" by (auto simp: free_blocks_def)
  moreover from this have "members F = free_blocks L" using holds_members [OF l(1,2,5)] by blast
  ultimately show ?thesis using that u headers_links [OF l(1,3)] by metis
qed

lemma realloc_shrink_ok:
  assumes r: "heap_rep L F h" and B: "L b = Some B" "\<not> mfree B" and x: "8 \<le> x" "x mod 4 = 0" "x \<le> msz B" and q: "2 \<le> req" "req < 2 ^ 32"
  shows "ok (realloc_shrink (of_nat b) (of_nat x) (of_nat req) h) (\<lambda>(p, h'). p = of_nat (b + 8) \<and> resized L h b x h')"
proof -
  define z where "z = (of_nat (msz B) + MMLIST_HEAD_SIZE :: 32 word)"
  define h1 where "h1 = h\<lparr>hhead := removesize z (hhead h)\<rparr>"
  have r1: "heap_rep L F h1" using r by (simp add: h1_def heap_rep_def lists_ok_same [OF removesize_same])
  have l: "layout_ok L" "near L" "headers L (hmem h1)" "lists_ok (dom L) F (hmem h1) (hhead h1)" "holds (free_blocks L) L F"
    using r1 by (simp_all add: heap_rep_def)
  have hm: "hmem h1 = hmem h" by (simp add: h1_def)
  have fx: "fixedmblk (removesize z (hhead h)) = fixedmblk (hhead h)" by (simp add: removesize_def)
  define n where "n = b + 8 + msz B"
  obtain N where N: "L n = Some N" using next_block [OF l(1) B(1)] x(1,3) by (auto simp: n_def)
  have kb: "k_size (hmem h) (of_nat b) = tag B" "k_size (hmem h) (of_nat n) = tag N" using l(3) B(1) N by (simp_all add: headers_def hm)
  have m4: "msz B mod 4 = 0" "msz N mod 4 = 0" using layout_okD(4) [OF l(1)] B(1) N by auto
  have bb: "blk_bytes (hmem h) (of_nat b) = of_nat (msz B)" using blk_bytes_tag [OF kb(1) m4(1)] .
  have nx: "NEXT_MM_BLK (buffer (of_nat b)) (of_nat (msz B)) = of_nat n" by (simp only: word_addrs n_def)
  note fin = resized_size [OF resized_same [OF _ fx] q, folded h1_def]
  show ?thesis
  proof (cases "mfree N")
    case False
    have "(k_size (hmem h) (of_nat n) AND RHINO_MM_FREE \<noteq> 0) = False" using tag_ops(2) [OF m4(2)] False by (simp add: kb(2))
    then have e: "realloc_shrink (of_nat b) (of_nat x) (of_nat req) h =
        bnd (if of_nat (msz B) - of_nat x \<ge> sizeof_mm_list then split_free (of_nat b) (of_nat x) (of_nat (msz B) - of_nat x) (of_nat n) True h1 else Inr h1)
          (\<lambda>h. bnd (addsize (blk_bytes (hmem h) (of_nat b) + MMLIST_HEAD_SIZE) (of_nat req) (hhead h)) (\<lambda>hh. Inr (buffer (of_nat b), h\<lparr>hhead := hh\<rparr>)))"
      unfolding realloc_shrink_def Let_def bb z_def [symmetric] h1_def [symmetric] hm nx by simp
    have "ok (if of_nat (msz B) - of_nat x \<ge> sizeof_mm_list then split_free (of_nat b) (of_nat x) (of_nat (msz B) - of_nat x) (of_nat n) True h1 else Inr h1)
        (\<lambda>h'. resized L h1 b x h')" unfolding n_def by (rule trim_ok [OF r1 B _ False x]) (use N in \<open>simp add: n_def\<close>)
    then show ?thesis unfolding e ok_bnd by (rule ok_mono) (use fin in simp)
  next
    case True
    obtain m2 hh2 F2 where u: "unlist (of_nat n) h1 = Inr (h1\<lparr>hmem := m2, hhead := hh2\<rparr>)" "lists_ok (dom L) F2 m2 hh2"
      "holds (free_blocks L - {n}) L F2" "agree (fw (free_blocks L)) (hmem h1) m2" "same_info (hhead h1) hh2" "headers L m2"
      using free_next [OF l N True] .
    define h2 where "h2 = h1\<lparr>hmem := m2, hhead := hh2\<rparr>"
    have b0: "msz B \<noteq> 0" using x by auto
    obtain e E where e: "e = n + 8 + msz N" "L e = Some E" "\<not> mfree E" "e \<noteq> b" "mprev E = Some n"
      "layout_ok (join b e False L)" "near (join b e False L)" "dom (join b e False L) = dom L - {n}" "free_blocks (join b e False L) = free_blocks L - {n}"
      "holds (free_blocks L - {n}) (join b e False L) F2" "lists_ok (dom L - {n}) F2 m2 hh2"
      "\<forall>a. join b e False L a = (if a = b then Some \<lparr>msz = msz B + 8 + msz N, mfree = False, mprev = mprev B\<rparr>
          else if a = e then Some (E\<lparr>mprev := None\<rparr>) else if a = n then None else L a)"
      "in_use (join b e False L) = (in_use L)(b \<mapsto> msz B + 8 + msz N)"
      by (rule absorb [OF l(1,2) B b0 N n_def True u(3,2)])
    define L1 where "L1 = join b e False L"
    note e = e(1-11) [folded L1_def] e(12) [folded L1_def, rule_format] e(13) [folded L1_def]
    let ?S = "\<lparr>msz = msz B + 8 + msz N, mfree = False, mprev = mprev B\<rparr>"
    have N8: "8 \<le> msz N" using free_block(1) [OF l(1) N True] .
    have S: "L1 b = Some ?S" "\<not> mfree ?S" "L1 e = Some (E\<lparr>mprev := None\<rparr>)" "\<not> mfree (E\<lparr>mprev := None\<rparr>)" "e = b + 8 + msz ?S" "x + 16 \<le> msz ?S"
      using e(1,3,4,12) N8 x(3) by (auto simp: n_def)
    have ke: "k_size m2 (of_nat e) = tag E" "k_size m2 (of_nat b) = tag B" "k_size m2 (of_nat n) = tag N" using u(6) e(2) B(1) N by (auto simp: headers_def)
    have E4: "msz E mod 4 = 0" using layout_okD(4) [OF l(1) e(2)] .
    have he: "(if True then k_size (hmem h2) (of_nat e) OR RHINO_MM_PREVFREE else k_size (hmem h2) (of_nat e)) = tag (E\<lparr>mprev := None\<rparr>\<lparr>mprev := Some (b + 8 + x)\<rparr>)"
      using ke(1) tag_ops(6) [OF E4] by (simp add: h2_def)
    have lh: "lists_ok (dom L1) F2 (hmem h2) (hhead h2)" "holds (free_blocks L1) L1 F2" using e(8-11) by (simp_all add: h2_def)
    have hdr: "k_size (hmem h2) (of_nat a) = tag A \<and> (\<forall>p. mprev A = Some p \<longrightarrow> k_prev (hmem h2) (of_nat a) = of_nat p)"
      if "L1 a = Some A" "a \<noteq> b" "a \<noteq> e" for a A using that u(6) e(12) [of a] by (auto simp: h2_def headers_def split: if_splits)
    have hb: "mprev ?S = Some p \<Longrightarrow> k_prev (hmem h2) (of_nat b) = of_nat p"
      "k_size (hmem h2) (of_nat b) AND RHINO_MM_PRESTAT_MASK = tag ?S AND RHINO_MM_PRESTAT_MASK" for p
      using u(6) B(1) ke(2) tag_prestat [OF m4(1)] tag_prestat [of ?S] layout_okD(4) [OF e(6) S(1)] by (simp_all add: h2_def headers_def)
    obtain m' hh' F' where s: "split_free (of_nat b) (of_nat x) (of_nat (msz ?S - x)) (of_nat e) True h2 = Inr (h2\<lparr>hmem := m', hhead := hh'\<rparr>)"
      "heap_rep (cut b x L1) F' (h2\<lparr>hmem := m', hhead := hh'\<rparr>)" "same_info (hhead h2) hh'"
      "agree (hw {b, b + 8 + x, e} \<union> fw (insert (b + 8 + x) (free_blocks L1))) (hmem h2) m'"
      by (rule split_free_ok [OF e(6,7) S(1-5) x(1,2) S(6) lh hdr hb he])
    have "in_use (cut b x L1) = (in_use L)(b \<mapsto> x)" using used_cut [OF e(6) S(1-5) x(1,2) S(6)] e(13) by simp
    moreover have "agree (meta L \<union> meta (cut b x L1)) (hmem h) m'"
    proof (rule agree_mono [OF agree_trans [OF u(4) [unfolded hm] s(4) [unfolded h2_def, simplified]]])
      have "fw (free_blocks L) \<subseteq> meta L" by (auto simp: meta_def)
      moreover have "hw {b, b + 8 + x, e} \<union> fw (insert (b + 8 + x) (free_blocks L1)) \<subseteq> meta L \<union> meta (cut b x L1)"
        using cut_meta [OF e(6) S(1-5) x(1,2) S(6), of L] B(1) e(2,9) by auto
      ultimately show "fw (free_blocks L) \<union> (hw {b, b + 8 + x, e} \<union> fw (insert (b + 8 + x) (free_blocks L1))) \<subseteq> meta L \<union> meta (cut b x L1)" by blast
    qed
    moreover have "inside L (cut b x L1)"
      using inside_trans [OF inside_sub [of L1 L] inside_cut [OF S(1,3,5)]] e(8) S(6) by auto
    ultimately have "resized L h1 b x (h2\<lparr>hmem := m', hhead := hh'\<rparr>)"
      unfolding resized_def using s(2,3) u(5) by (intro exI [of _ "cut b x L1"] exI [of _ F'] exI [of _ x]) (simp add: same_info_def h2_def hm)
    note fin = fin [OF this]
    have bn: "blk_bytes m2 (of_nat n) = of_nat (msz N)" using blk_bytes_tag [OF ke(3) m4(2)] .
    have sum: "of_nat (msz B) + (of_nat (msz N) + MMLIST_HEAD_SIZE) - of_nat x = (of_nat (msz ?S - x) :: 32 word)"
      using word_diff [of x "msz ?S"] S(6) by (simp add: MMLIST_HEAD_SIZE_def sizeof_mm_list_def add_ac)
    have nn: "NEXT_MM_BLK (buffer (of_nat n)) (of_nat (msz N)) = of_nat e" by (simp only: word_addrs e(1))
    have ge: "sizeof_mm_list \<le> (of_nat (msz ?S - x) :: 32 word)"
      using size_small [OF e(6,7) S(1)] S(6) of_nat_le_small [of 16 "msz ?S - x"] by (simp add: sizeof_mm_list_def del: of_nat_diff)
    have "(k_size (hmem h) (of_nat n) AND RHINO_MM_FREE \<noteq> 0) = True" using tag_ops(2) [OF m4(2)] True by (simp add: kb(2))
    moreover have "hmem (h1\<lparr>hmem := m2, hhead := hh2\<rparr>) = m2" by simp
    ultimately have "realloc_shrink (of_nat b) (of_nat x) (of_nat req) h =
        bnd (addsize (blk_bytes (hmem (h2\<lparr>hmem := m', hhead := hh'\<rparr>)) (of_nat b) + MMLIST_HEAD_SIZE) (of_nat req) (hhead (h2\<lparr>hmem := m', hhead := hh'\<rparr>)))
          (\<lambda>hh. Inr (buffer (of_nat b), (h2\<lparr>hmem := m', hhead := hh'\<rparr>)\<lparr>hhead := hh\<rparr>))"
      unfolding realloc_shrink_def Let_def bb z_def [symmetric] h1_def [symmetric] hm nx
      by (simp only: if_True u(1) bnd.simps bn nn prod.case sum ge s(1) h2_def [symmetric])
    then show ?thesis using fin by simp
  qed
qed

lemma resized_trans:
  assumes "heap_rep L1 F1 h1" "resized L1 h1 b x h'" "in_use L1 = (in_use L)(b \<mapsto> k)" "agree (meta L) (hmem h) (hmem h1)" "dom L1 \<subseteq> dom L" "free_blocks L1 \<subseteq> free_blocks L"
    "fixedmblk (hhead h1) = fixedmblk (hhead h)" "hpool h1 = hpool h"
  shows "resized L h b x h'"
proof -
  obtain L' F' k' where r: "heap_rep L' F' h'" "in_use L' = (in_use L1)(b \<mapsto> k')" "x \<le> k'" "inside L1 L'" "agree (meta L1 \<union> meta L') (hmem h1) (hmem h')"
    "fixedmblk (hhead h') = fixedmblk (hhead h1)" "hpool h' = hpool h1" using assms(2) by (auto simp: resized_def)
  have "meta L1 \<subseteq> meta L" unfolding meta_def using assms(5,6) by (intro Un_mono fw_mono)
  then have "agree (meta L \<union> meta L') (hmem h) (hmem h')" by (intro agree_mono [OF agree_trans [OF assms(4) r(5)]]) blast
  moreover have "inside L L'" using inside_trans [OF inside_sub [OF assms(5)] r(4)] .
  ultimately show ?thesis unfolding resized_def using r assms(3,7,8) by (intro exI [of _ L'] exI [of _ F'] exI [of _ k']) simp
qed

lemma realloc_extend_ok:
  assumes r: "heap_rep L F h" and B: "L b = Some B" "\<not> mfree B" and x: "8 \<le> x" "x mod 4 = 0" and q: "2 \<le> req" "req < 2 ^ 32"
    and N: "L (b + 8 + msz B) = Some N" "mfree N" "x \<le> msz B + msz N" "msz B \<noteq> 0"
  shows "ok (realloc_extend (of_nat b) (of_nat x) (of_nat req) h) (\<lambda>(p, h'). p = of_nat (b + 8) \<and> resized L h b x h')"
proof -
  define z where "z = (of_nat (msz B) + MMLIST_HEAD_SIZE :: 32 word)"
  define h1 where "h1 = h\<lparr>hhead := removesize z (hhead h)\<rparr>"
  have r1: "heap_rep L F h1" using r by (simp add: h1_def heap_rep_def lists_ok_same [OF removesize_same])
  have l: "layout_ok L" "near L" "headers L (hmem h1)" "lists_ok (dom L) F (hmem h1) (hhead h1)" "holds (free_blocks L) L F"
    using r1 by (simp_all add: heap_rep_def)
  have hm: "hmem h1 = hmem h" by (simp add: h1_def)
  have fx: "fixedmblk (removesize z (hhead h)) = fixedmblk (hhead h)" by (simp add: removesize_def)
  define n where "n = b + 8 + msz B"
  note Nn = N(1) [folded n_def]
  have m4: "msz B mod 4 = 0" "msz N mod 4 = 0" using layout_okD(4) [OF l(1)] B(1) Nn by auto
  have kb: "k_size (hmem h) (of_nat b) = tag B" using l(3) B(1) by (simp add: headers_def hm)
  have bb: "blk_bytes (hmem h) (of_nat b) = of_nat (msz B)" using blk_bytes_tag [OF kb m4(1)] .
  have nx: "NEXT_MM_BLK (buffer (of_nat b)) (of_nat (msz B)) = of_nat n" by (simp only: word_addrs n_def)
  note fin = resized_size [OF resized_same [OF _ fx] q, folded h1_def]
  obtain m2 hh2 F2 where u: "unlist (of_nat n) h1 = Inr (h1\<lparr>hmem := m2, hhead := hh2\<rparr>)" "lists_ok (dom L) F2 m2 hh2"
    "holds (free_blocks L - {n}) L F2" "agree (fw (free_blocks L)) (hmem h1) m2" "same_info (hhead h1) hh2" "headers L m2"
    using free_next [OF l Nn N(2)] .
  obtain e E where e: "e = n + 8 + msz N" "L e = Some E" "\<not> mfree E" "e \<noteq> b" "mprev E = Some n"
    "layout_ok (join b e False L)" "near (join b e False L)" "dom (join b e False L) = dom L - {n}" "free_blocks (join b e False L) = free_blocks L - {n}"
    "holds (free_blocks L - {n}) (join b e False L) F2" "lists_ok (dom L - {n}) F2 m2 hh2"
    "\<forall>a. join b e False L a = (if a = b then Some \<lparr>msz = msz B + 8 + msz N, mfree = False, mprev = mprev B\<rparr>
        else if a = e then Some (E\<lparr>mprev := None\<rparr>) else if a = n then None else L a)"
    "in_use (join b e False L) = (in_use L)(b \<mapsto> msz B + 8 + msz N)"
    by (rule absorb [OF l(1,2) B N(4) Nn n_def N(2) u(3,2)])
  define L1 where "L1 = join b e False L"
  note e = e(1-11) [folded L1_def] e(12) [folded L1_def, rule_format] e(13) [folded L1_def]
  let ?S = "\<lparr>msz = msz B + 8 + msz N, mfree = False, mprev = mprev B\<rparr>"
  have S: "L1 b = Some ?S" "\<not> mfree ?S" "L1 (b + 8 + msz ?S) = Some (E\<lparr>mprev := None\<rparr>)" "\<not> mfree (E\<lparr>mprev := None\<rparr>)" "x \<le> msz ?S"
    using e(3,4) N(3) e(12) by (auto simp: e(1) n_def add_ac)
  have be: "b + 8 + msz ?S = e" by (simp add: e(1) n_def)
  have S4: "msz ?S mod 4 = 0" using layout_okD(4) [OF e(6) S(1)] .
  have k2: "k_size m2 (of_nat e) = tag E" "k_size m2 (of_nat b) = tag B" "k_size m2 (of_nat n) = tag N" using u(6) e(2) B(1) Nn by (auto simp: headers_def)
  have E4: "msz E mod 4 = 0" using layout_okD(4) [OF l(1) e(2)] .
  define m3 where "m3 = set_k_size (of_nat b) (tag ?S) m2"
  define m4' where "m4' = set_k_size (of_nat e) (tag (E\<lparr>mprev := None\<rparr>)) (set_k_prev (of_nat e) (of_nat b) m3)"
  define h3 where "h3 = h1\<lparr>hmem := m4', hhead := hh2\<rparr>"
  have sp: "spaced (dom L)" using heap_spaced [OF l(1)] .
  have dd: "b \<in> dom L" "e \<in> dom L" using B(1) e(2) by auto
  have ap: "apart (of_nat b) (of_nat e)" using spaced_apart [OF sp dd] e(4) by simp
  have a4: "agree (hw {b, e}) m2 m4'" unfolding m4'_def m3_def by (intro agree_step agree_refl hwI) simp_all
  have k4: "k_size m4' (of_nat a) = k_size m2 (of_nat a)" "k_prev m4' (of_nat a) = k_prev m2 (of_nat a)" if "a \<in> dom L" "a \<noteq> b" "a \<noteq> e" for a
    using agree_headers(3,4) [OF sp that(1) _ a4] dd that(2,3) by auto
  have kb4: "k_size m4' (of_nat b) = tag ?S" "k_prev m4' (of_nat b) = k_prev m2 (of_nat b)" "k_size m4' (of_nat e) = tag (E\<lparr>mprev := None\<rparr>)"
    using ap by (simp_all add: m4'_def m3_def field_apart)
  have "headers L1 m4'"
    unfolding headers_def
  proof (intro allI impI)
    fix a A assume A: "L1 a = Some A"
    show "k_size m4' (of_nat a) = tag A \<and> (\<forall>p. mprev A = Some p \<longrightarrow> k_prev m4' (of_nat a) = of_nat p)"
    proof (cases "a = b \<or> a = e")
      case True
      then show ?thesis using A e(12) [of a] kb4 u(6) B(1) e(4) by (auto simp: headers_def)
    next
      case False
      then have "L a = Some A" using A e(12) [of a] by (auto split: if_splits)
      moreover from this have "a \<in> dom L" by blast
      ultimately show ?thesis using u(6) k4 [of a] False by (simp add: headers_def)
    qed
  qed
  moreover have "lists_ok (dom L1) F2 m4' hh2"
  proof -
    have "{b, e} \<subseteq> dom L1" using S(1) S(3) [unfolded be] by blast
    then show ?thesis using lists_ok_headers [OF heap_spaced [OF e(6)] e(11) [folded e(8)] _ a4] by blast
  qed
  ultimately have r3: "heap_rep L1 F2 h3" using e(6,7,9,10) by (simp add: heap_rep_def h3_def)
  have "agree (meta L) (hmem h1) (hmem h3)"
    using agree_trans [OF u(4) a4] dd by (rule_tac agree_mono) (auto simp: h3_def meta_def hw_def)
  then have tr: "resized L h1 b x h'" if "resized L1 h3 b x h'" for h'
    using e(8,9) u(5) by (intro resized_trans [OF r3 that e(13)]) (auto simp: h3_def same_info_def)
  have b3: "blk_bytes m4' (of_nat b) = of_nat (msz ?S)" "blk_bytes m3 (of_nat b) = of_nat (msz ?S)"
    using blk_bytes_tag [OF kb4(1) S4] blk_bytes_tag [of m3 "of_nat b" ?S] S4 by (simp_all add: m3_def)
  have g: "grow (of_nat b) (of_nat n) (h1\<lparr>hmem := m2, hhead := hh2\<rparr>) = h1\<lparr>hmem := m3, hhead := hh2\<rparr>"
  proof -
    have "blk_bytes m2 (of_nat n) + MMLIST_HEAD_SIZE = of_nat (msz N + 8)" using blk_bytes_tag [OF k2(3) m4(2)] by (simp only: word_addrs)
    moreover have "(msz N + 8) mod 4 = 0" using m4(2) by presburger
    then have "tag B + of_nat (msz N + 8) = tag (B\<lparr>msz := msz B + (msz N + 8)\<rparr>)" by (rule tag_add [OF m4(1)])
    moreover have "B\<lparr>msz := msz B + (msz N + 8)\<rparr> = ?S" using B(2) by (cases B) simp
    ultimately show ?thesis unfolding grow_def m3_def using k2(2) by simp
  qed
  have en: "NEXT_MM_BLK (buffer (of_nat b)) (of_nat (msz ?S)) = of_nat e" by (simp only: word_addrs be)
  have ke: "k_size (set_k_prev (of_nat e) (of_nat b) m3) (of_nat e) AND NOT RHINO_MM_PREVFREE = tag (E\<lparr>mprev := None\<rparr>)"
    using k2(1) tag_ops(7) [OF E4] apart_sym [OF ap] by (simp add: m3_def field_apart)
  have hx: "hmem (h1\<lparr>hmem := m3, hhead := hh2\<rparr>) = m3" "h1\<lparr>hmem := m3, hhead := hh2\<rparr>\<lparr>hmem := m4'\<rparr> = h3" by (simp_all add: h3_def)
  have eq: "realloc_extend (of_nat b) (of_nat x) (of_nat req) h =
      bnd (if of_nat (msz ?S) - of_nat x \<ge> sizeof_mm_list then split_free (of_nat b) (of_nat x) (of_nat (msz ?S) - of_nat x) (of_nat e) True h3 else Inr h3)
        (\<lambda>h. bnd (addsize (blk_bytes (hmem h) (of_nat b) + MMLIST_HEAD_SIZE) (of_nat req) (hhead h)) (\<lambda>hh. Inr (buffer (of_nat b), h\<lparr>hhead := hh\<rparr>)))"
    unfolding realloc_extend_def Let_def bb z_def [symmetric] h1_def [symmetric] hm nx u(1) bnd.simps g hx(1) b3(2) en ke m4'_def [symmetric] hx(2) b3(1) ..
  have "ok (if of_nat (msz ?S) - of_nat x \<ge> sizeof_mm_list then split_free (of_nat b) (of_nat x) (of_nat (msz ?S) - of_nat x) (of_nat e) True h3 else Inr h3)
      (\<lambda>h'. resized L1 h3 b x h')" using trim_ok [OF r3 S(1-4) x S(5)] unfolding be .
  then show ?thesis unfolding eq ok_bnd by (rule ok_mono) (use fin tr in simp)
qed

section \<open>By moving\<close>

text \<open>What \<open>k_mm_realloc\<close> promises for the buffer \<open>p\<close>: NULL, and nothing has changed, or a buffer of at least \<open>s\<close> bytes in its place
  that begins with the first \<open>c\<close> bytes of the old one.\<close>

definition reallocated :: "layout \<Rightarrow> nat option \<Rightarrow> nat set \<Rightarrow> mheap \<Rightarrow> nat \<Rightarrow> nat \<Rightarrow> nat \<Rightarrow> 32 word \<Rightarrow> mheap \<Rightarrow> bool" where
  "reallocated L po S h p s c r h' \<longleftrightarrow>
     (if r = 0 then h' = h
      else \<exists>a k L' F' S'. r = of_nat a \<and> a < 2 ^ 32 \<and> s \<le> k \<and> (a = p \<or> client L po S a = None) \<and> mm_inv L' F' po S' h' \<and>
        client L' po S' = (client L po S)(p := None, a \<mapsto> k) \<and> inside L L' \<and> keeps ((client L po S)(p := None)) (hmem h) (hmem h') \<and>
        (\<forall>i < c. hmem h' (of_nat (a + i)) = hmem h (of_nat (p + i))))"

lemma reallocatedI:
  assumes "of_nat a \<noteq> (0 :: 32 word)" "a < 2 ^ 32" "s \<le> k" "a = p \<or> client L po S a = None" "mm_inv L' F' po S' h'"
    "client L' po S' = (client L po S)(p := None, a \<mapsto> k)" "inside L L'" "keeps ((client L po S)(p := None)) (hmem h) (hmem h')"
    "\<forall>i < c. hmem h' (of_nat (a + i)) = hmem h (of_nat (p + i))"
  shows "reallocated L po S h p s c (of_nat a) h'"
  unfolding reallocated_def if_not_P [OF assms(1)] using assms(2-9)
  by (intro exI [of _ a] exI [of _ k] exI [of _ L'] exI [of _ F'] exI [of _ S'] conjI) (rule refl)

lemma reallocated_mono:
  assumes "reallocated L po S h p s c r h'" "s' \<le> s" "c' \<le> c"
  shows "reallocated L po S h p s' c' r h'"
proof (cases "r = 0")
  case False
  then obtain a k L' F' S' where "r = of_nat a" "a < 2 ^ 32" "s \<le> k" "a = p \<or> client L po S a = None" "mm_inv L' F' po S' h'"
    "client L' po S' = (client L po S)(p := None, a \<mapsto> k)" "inside L L'" "keeps ((client L po S)(p := None)) (hmem h) (hmem h')"
    "\<forall>i < c. hmem h' (of_nat (a + i)) = hmem h (of_nat (p + i))"
    using assms(1) unfolding reallocated_def by (auto simp: if_splits)
  then show ?thesis using reallocatedI [of a s' k p L po S L' F' S' h' h c'] False assms(2,3) by auto
qed (use assms(1) in \<open>simp add: reallocated_def\<close>)

lemma bytesI: "i < n \<Longrightarrow> of_nat (p + i) \<in> bytes p n"
  unfolding bytes_def by (rule image_eqI [OF refl]) simp

lemma copy_words_at: "i < c \<Longrightarrow> c < 2 ^ 32 \<Longrightarrow> copy_words (of_nat a) (of_nat p) (of_nat c) m (of_nat (a + i)) = m (of_nat (p + i))"
  by (simp add: copy_words_def word_less_nat_alt)

lemma copy_words_agree:
  assumes "c \<le> k" "c < 2 ^ 32"
  shows "agree (bytes a k) m (copy_words (of_nat a) q (of_nat c) m)"
proof -
  have "w \<in> bytes a k" if "w - of_nat a < of_nat c" for w :: "32 word"
  proof -
    have "unat (w - of_nat a) < c" using that assms(2) by (simp add: word_less_nat_alt)
    then have "a + unat (w - of_nat a) \<in> {a ..< a + k}" using assms(1) by simp
    moreover have "w = of_nat (a + unat (w - of_nat a))" by simp
    ultimately show ?thesis unfolding bytes_def by (rule_tac image_eqI)
  qed
  then show ?thesis by (auto simp: agree_def copy_words_def)
qed

lemma move_ok:
  assumes i: "mm_inv L F po S h" and p: "client L po S p = Some n" "n \<noteq> 0" and s: "2 \<le> s" "s \<le> 0xFC000000" and c: "c \<le> n" "c \<le> s"
    and cf: "\<And>L1 F1 S1 h1. mm_inv L1 F1 po S1 h1 \<Longrightarrow> client L1 po S1 p = Some n \<Longrightarrow> cf h1 = of_nat c \<and> fr h1 = k_mm_free (of_nat p) h1"
  shows "ok (bnd (k_mm_alloc (of_nat s) h) (\<lambda>(q, h). if q = 0 then Inr (0, h)
      else bnd (fr (h\<lparr>hmem := copy_words q (of_nat p) (cf h) (hmem h)\<rparr>)) (\<lambda>h. Inr (q, h))))
    (\<lambda>(q, h'). reallocated L po S h p s c q h')"
proof -
  obtain q h1 where a: "k_mm_alloc (of_nat s) h = Inr (q, h1)" "if q = 0 then h1 = h \<and> (\<forall>x B. L x = Some B \<and> mfree B \<longrightarrow> msz B < round_up (ask s))
    else \<exists>a k L' F' S'. q = of_nat a \<and> a < 2 ^ 32 \<and> client L po S a = None \<and> s \<le> k \<and> mm_inv L' F' po S' h1 \<and>
      client L' po S' = (client L po S)(a \<mapsto> k) \<and> inside L L' \<and> keeps (client L po S) (hmem h) (hmem h1)"
    using k_mm_alloc_ok [OF i s] unfolding ok_iff by force
  show ?thesis
  proof (cases "q = 0")
    case True
    then show ?thesis using a by (simp add: reallocated_def)
  next
    case False
    then obtain a k L1 F1 S1 where a1: "q = of_nat a" "a < 2 ^ 32" "client L po S a = None" "s \<le> k" "mm_inv L1 F1 po S1 h1"
      "client L1 po S1 = (client L po S)(a \<mapsto> k)" "keeps (client L po S) (hmem h) (hmem h1)" "inside L L1" using a(2) by auto
    have ap: "a \<noteq> p" using a1(3) p(1) by auto
    have c32: "c < 2 ^ 32" using c(2) s(2) by simp
    define m2 where "m2 = copy_words (of_nat a) (of_nat p) (of_nat c) (hmem h1)"
    have cp: "client L1 po S1 p = Some n" "client L1 po S1 a = Some k" using a1(6) ap p(1) by auto
    have ag: "agree (bytes a k) (hmem h1) m2" unfolding m2_def using c a1(4) c32 by (intro copy_words_agree) auto
    have i2: "mm_inv L1 F1 po S1 (h1\<lparr>hmem := m2\<rparr>)" using client_write [OF a1(5) cp(2) ag] .
    obtain h' L2 F2 S2 where f: "k_mm_free (of_nat p) (h1\<lparr>hmem := m2\<rparr>) = Inr h'" "mm_inv L2 F2 po S2 h'" "client L2 po S2 = (client L1 po S1)(p := None)"
      "inside L1 L2" "keeps ((client L1 po S1)(p := None)) m2 (hmem h')" using k_mm_free_ok [OF i2 cp(1) p(2)] unfolding ok_iff by auto
    have e: "bnd (k_mm_alloc (of_nat s) h) (\<lambda>(q, h). if q = 0 then Inr (0, h)
      else bnd (fr (h\<lparr>hmem := copy_words q (of_nat p) (cf h) (hmem h)\<rparr>)) (\<lambda>h. Inr (q, h))) = Inr (q, h')"
      using a(1) False f(1) cf [OF a1(5) cp(1)] cf [OF i2 cp(1)] unfolding m2_def by (simp add: a1(1))
    have "reallocated L po S h p s c (of_nat a) h'"
    proof (rule reallocatedI [OF _ a1(2,4) _ f(2)])
      show "inside L L2" using inside_trans [OF a1(8) f(4)] .
      show "client L2 po S2 = (client L po S)(p := None, a \<mapsto> k)" using f(3) a1(6) ap by (simp add: fun_upd_twist)
      show "keeps ((client L po S)(p := None)) (hmem h) (hmem h')"
        unfolding keeps_def
      proof (intro allI impI ballI)
        fix r j w assume r: "((client L po S)(p := None)) r = Some j" and w: "w \<in> bytes r j"
        have rr: "r \<noteq> p" "r \<noteq> a" "client L po S r = Some j" using r a1(3) by (auto split: if_splits)
        then have "client L1 po S1 r = Some j" using a1(6) by simp
        then have "w \<notin> bytes a k" using client_disjoint [OF a1(5) _ cp(2) rr(2)] w by blast
        then have "m2 w = hmem h1 w" using ag by (simp add: agree_def)
        moreover have "hmem h1 w = hmem h w" using a1(7) rr(3) w unfolding keeps_def by blast
        moreover have "((client L1 po S1)(p := None)) r = Some j" using rr a1(6) by simp
        then have "hmem h' w = m2 w" using f(5) w unfolding keeps_def by blast
        ultimately show "hmem h' w = hmem h w" by simp
      qed
      show "\<forall>i < c. hmem h' (of_nat (a + i)) = hmem h (of_nat (p + i))"
      proof (intro allI impI)
        fix i assume i: "i < c"
        have ik: "i < k" "i < n" using i c a1(4) by auto
        note bytesI [OF this(1), of a] bytesI [OF this(2), of p]
        then have "hmem h' (of_nat (a + i)) = m2 (of_nat (a + i))" "hmem h1 (of_nat (p + i)) = hmem h (of_nat (p + i))"
          using f(5) [unfolded keeps_def, rule_format, of a k] cp(2) ap a1(7) [unfolded keeps_def, rule_format, OF p(1)] by simp_all
        then show "hmem h' (of_nat (a + i)) = hmem h (of_nat (p + i))" using copy_words_at [OF i c32, of a p "hmem h1"] by (simp only: m2_def)
      qed
    qed (use False a1(1,3) in auto)
    then show ?thesis unfolding e by (simp add: a1(1))
  qed
qed

section \<open>All of \<open>k_mm_realloc\<close>\<close>

lemma resized_realloc:
  assumes i: "mm_inv L F po S h" and b: "in_use L b = Some n" "po \<noteq> Some b" and r: "resized L h b s h'"
  shows "reallocated L po S h (b + 8) s (min n s) (of_nat (b + 8)) h'"
proof -
  have l: "layout_ok L" "fixed_ok L po S h" using i by (simp_all add: mm_inv_def heap_rep_def)
  obtain L' F' k where r: "heap_rep L' F' h'" "in_use L' = (in_use L)(b \<mapsto> k)" "s \<le> k" "agree (meta L \<union> meta L') (hmem h) (hmem h')"
    "fixedmblk (hhead h') = fixedmblk (hhead h)" "hpool h' = hpool h" "inside L L'" using r by (auto simp: resized_def)
  have l': "layout_ok L'" using r(1) by (simp add: heap_rep_def)
  obtain B where B: "L b = Some B" using b(1) by (auto simp: used_Some)
  have xq: "\<forall>q. po = Some q \<longrightarrow> b + 8 \<notin> small_blks q" using in_pool_block [of L F _ S h b] i b(2) B by auto
  show ?thesis
  proof (rule reallocatedI [OF _ _ r(3)])
    show "b + 8 < 2 ^ 32" using layout_okD(2) [OF l(1) B] by simp
    then show "of_nat (b + 8) \<noteq> (0 :: 32 word)" by (rule_tac of_nat_nonzero) simp
    show "mm_inv L' F' po S h'"
      unfolding mm_inv_def using r(1,2) b(2) by (intro conjI fixed_ok_step [OF l(2) _ l(1) l' r(4-6)]) auto
    show "inside L L'" using r(7) .
    show "client L' po S = (client L po S)(b + 8 := None, b + 8 \<mapsto> k)"
      using r(2) xq b(2) by (auto simp: client_def fun_eq_iff split: option.splits)
    show "keeps ((client L po S)(b + 8 := None)) (hmem h) (hmem h')"
      using r(2) b(2) by (intro keeps_step [OF i l' r(4), of "{b}"]) (auto split: if_splits)
    show "\<forall>j < min n s. hmem h' (of_nat (b + 8 + j)) = hmem h (of_nat (b + 8 + j))"
    proof (intro allI impI)
      fix j assume j: "j < min n s"
      have "of_nat (b + 8 + j) \<in> payload b n" "of_nat (b + 8 + j) \<in> payload b k" using j r(3) by (auto simp: payload_bytes simp del: of_nat_add intro!: bytesI)
      moreover have "payload b k \<inter> meta L' = {}" using r(2) by (intro payload_meta [OF l']) simp
      ultimately show "hmem h' (of_nat (b + 8 + j)) = hmem h (of_nat (b + 8 + j))"
        using payload_meta [OF l(1) b(1)] r(4) unfolding agree_def by blast
    qed
  qed simp
qed

definition ask2 :: "nat \<Rightarrow> nat" where
  "ask2 n = max 16 ((n + 3) div 4 * 4)"

lemma ask2_props: "16 \<le> ask2 n" "n \<le> ask2 n" "ask2 n mod 4 = 0" "n \<le> 0xFC000000 \<Longrightarrow> ask2 n \<le> 0xFC000000"
  by (auto simp: ask2_def max_def)

lemma ask2_word:
  assumes "n \<le> 0xFC000000"
  shows "(if of_nat n < sizeof_mm_list then sizeof_mm_list else MM_ALIGN_UP (of_nat n)) = of_nat (ask2 n)"
proof -
  have "(of_nat n :: 32 word) < sizeof_mm_list \<longleftrightarrow> n < 16" using assms by (simp add: word_less_nat_alt sizeof_mm_list_def)
  moreover have "MM_ALIGN_UP (of_nat n) = of_nat ((n + 3) div 4 * 4)" using assms by (intro align_up) simp
  moreover have "n < 16 \<Longrightarrow> ask2 n = 16" "\<not> n < 16 \<Longrightarrow> ask2 n = (n + 3) div 4 * 4" by (auto simp: ask2_def max_def)
  ultimately show ?thesis by (cases "n < 16") (auto simp: sizeof_mm_list_def)
qed

lemma realloc_small_ok:
  assumes i: "mm_inv L F (Some q) S h" and p: "client L (Some q) S p = Some n" "p \<in> small_blks q" and s: "2 \<le> s" "s \<le> 0xFC000000"
  shows "ok (realloc_fixed (of_nat p) (of_nat s) h) (\<lambda>(r, h'). reallocated L (Some q) S h p s (min n s) r h')"
proof -
  have n: "n = 32" using p small_bounds [OF p(2)] by (auto simp: client_def split: if_splits)
  obtain c k where c: "in_use L c = Some k" "bytes p n \<subseteq> payload c k" "c + 8 \<le> p" "p + n \<le> c + 8 + k" using client_home [OF i p(1)] by blast
  moreover obtain C where "L c = Some C" "msz C = k" using c(1) by (auto simp: used_Some)
  ultimately have "p < 2 ^ 32" "0 < p" using layout_okD(5) [OF mm_layout [OF i], of c C] by auto
  then have nz: "of_nat p \<noteq> (0 :: 32 word)" "p < 2 ^ 32" using of_nat_nonzero by blast+
  have le: "of_nat s \<le> DEF_FIX_BLK_SIZE \<longleftrightarrow> s \<le> 32" using s(2) by (simp add: word_le_nat_alt DEF_FIX_BLK_SIZE_def)
  show ?thesis
  proof (cases "s \<le> 32")
    case True
    have "reallocated L (Some q) S h p s (min n s) (of_nat p) h"
      using p(1) n by (intro reallocatedI [OF nz True [folded n] _ i]) (auto simp: fun_eq_iff inside_sub)
    then show ?thesis using le True by (simp add: realloc_fixed_def)
  next
    case False
    have sm: "k_mm_smallblk_free (of_nat p) h2 = k_mm_free (of_nat p) h2" if "mm_inv L2 F2 (Some q) S2 h2" "client L2 (Some q) S2 p = Some n" for L2 F2 S2 h2
      using ISFIXEDBLK_ok [OF that] p(2) nz(1) by (simp add: k_mm_free_def)
    have "ok (bnd (k_mm_alloc (of_nat s) h) (\<lambda>(r, h). if r = 0 then Inr (0, h)
        else bnd (k_mm_smallblk_free (of_nat p) (h\<lparr>hmem := copy_words r (of_nat p) DEF_FIX_BLK_SIZE (hmem h)\<rparr>)) (\<lambda>h. Inr (r, h))))
      (\<lambda>(r, h'). reallocated L (Some q) S h p s (min n s) r h')"
      using False n sm by (intro move_ok [OF i p(1) _ s, where cf = "\<lambda>h. DEF_FIX_BLK_SIZE"]) (auto simp: DEF_FIX_BLK_SIZE_def)
    moreover have "realloc_fixed (of_nat p) (of_nat s) h = bnd (k_mm_alloc (of_nat s) h) (\<lambda>(r, h). if r = 0 then Inr (0, h)
        else bnd (k_mm_smallblk_free (of_nat p) (h\<lparr>hmem := copy_words r (of_nat p) DEF_FIX_BLK_SIZE (hmem h)\<rparr>)) (\<lambda>h. Inr (r, h)))"
      using le False unfolding realloc_fixed_def by (intro if_not_P [THEN trans] arg_cong2 [of _ _ _ _ bnd]) auto
    ultimately show ?thesis by simp
  qed
qed

lemma k_mm_realloc_ok:
  assumes i: "mm_inv L F po S h" and p: "client L po S p = Some n" "n \<noteq> 0" and s: "2 \<le> s" "s \<le> 0xFC000000"
  shows "ok (k_mm_realloc (of_nat p) (of_nat s) h) (\<lambda>(r, h'). reallocated L po S h p s (min n s) r h')"
proof -
  have l: "layout_ok L" "near L" "headers L (hmem h)" "heap_rep L F h" using i by (simp_all add: mm_inv_def heap_rep_def)
  have s32: "s < 2 ^ 32" using s(2) by simp
  obtain b k where b: "in_use L b = Some k" "bytes p n \<subseteq> payload b k" "b + 8 \<le> p" "p + n \<le> b + 8 + k"
    "po = Some b \<and> p \<in> small_blks b \<and> n = 32 \<or> p = b + 8 \<and> n = k \<and> po \<noteq> Some b"
    using client_home [OF i p(1)] .
  obtain B where B: "L b = Some B" "\<not> mfree B" "msz B = k" using b(1) by (auto simp: used_Some)
  have "p < 2 ^ 32" "0 < p" using layout_okD(2,5) [OF l(1) B(1)] B(3) b(3-5) by auto
  then have nz: "of_nat p \<noteq> (0 :: 32 word)" "of_nat s \<noteq> (0 :: 32 word)" using of_nat_nonzero [of p] of_nat_nonzero [OF _ s32] s(1) by auto
  note fixd = ISFIXEDBLK_ok [OF i p(1)]
  show ?thesis
  proof (cases "po = Some b \<and> p \<in> small_blks b")
    case True
    then have "k_mm_realloc (of_nat p) (of_nat s) h = realloc_fixed (of_nat p) (of_nat s) h" using nz fixd by (simp add: k_mm_realloc_def)
    then show ?thesis using realloc_small_ok [of L F b S h p n s] i p(1) s True by simp
  next
    case False
    then have pb: "p = b + 8" "n = k" "po \<noteq> Some b" using b(5) by auto
    have nf: "\<not> ISFIXEDBLK h (of_nat p)" using fixd in_pool_block [of L F _ S h b] i B(1) pb(1,3) by auto
    define x where "x = ask2 s"
    have x: "8 \<le> x" "s \<le> x" "x mod 4 = 0" "x \<le> 0xFC000000" "x < 2 ^ 32" "2 \<le> x" using ask2_props [of s] s(2) by (auto simp: x_def)
    have kb: "blk_bytes (hmem h1) (of_nat b) = of_nat n" if "mm_inv L1 F1 po S1 h1" "client L1 po S1 p = Some n" for L1 F1 S1 h1
    proof -
      have "\<forall>q. po = Some q \<longrightarrow> p \<notin> small_blks q" using in_pool_block [of L F _ S h b] i B(1) pb(1,3) by auto
      then have "in_use L1 b = Some n" using that(2) pb by (auto simp: client_def split: if_splits option.splits)
      then obtain C where C: "L1 b = Some C" "msz C = n" by (auto simp: used_Some)
      then have "k_size (hmem h1) (of_nat b) = tag C" using that(1) by (simp add: mm_inv_def heap_rep_def headers_def)
      then show ?thesis using blk_bytes_tag layout_okD(4) [OF mm_layout [OF that(1)] C(1)] C(2) by metis
    qed
    have n0: "msz B \<noteq> 0" "msz B = n" using B(3) p(2) pb(2) by auto
    obtain N where N: "L (b + 8 + n) = Some N" using next_block [OF l(1) B(1) n0(1)] n0(2) by auto
    have kN: "k_size (hmem h) (of_nat (b + 8 + n)) = tag N" using l(3) N unfolding headers_def by blast
    have N4: "msz N mod 4 = 0" using layout_okD(4) [OF l(1) N] .
    have bN: "blk_bytes (hmem h) (of_nat (b + 8 + n)) = of_nat (msz N)" using blk_bytes_tag [OF kN N4] .
    have fN: "k_size (hmem h) (of_nat (b + 8 + n)) AND RHINO_MM_FREE \<noteq> 0 \<longleftrightarrow> mfree N" unfolding kN tag_ops(2) [OF N4] by simp
    have sm: "n < 2 ^ 20" "msz N < 2 ^ 20" using size_small [OF l(1,2)] B(1) N n0(2) by auto
    have le: "(of_nat x :: 32 word) \<le> of_nat n \<longleftrightarrow> x \<le> n" "(of_nat x :: 32 word) \<le> of_nat n + of_nat (msz N) \<longleftrightarrow> x \<le> n + msz N"
      using of_nat_le_small [OF x(5), of n] of_nat_le_small [OF x(5), of "n + msz N"] sm by auto
    define g where "g = (if x \<le> n then realloc_shrink (of_nat b) (of_nat x) (of_nat s) h
      else if mfree N \<and> x \<le> n + msz N then realloc_extend (of_nat b) (of_nat x) (of_nat s) h else Inr (0, h))"
    have w: "of_nat p - MMLIST_HEAD_SIZE = (of_nat b :: 32 word)" "NEXT_MM_BLK (buffer (of_nat b)) (of_nat n) = of_nat (b + 8 + n)"
      by (simp_all only: word_addrs pb(1))
    have eq: "k_mm_realloc (of_nat p) (of_nat s) h = bnd g (\<lambda>(r, h). if r \<noteq> 0 then Inr (r, h) else bnd (k_mm_alloc (of_nat x) h) (\<lambda>(r, h).
        if r = 0 then Inr (0, h) else bnd (k_mm_free (of_nat p) (h\<lparr>hmem := copy_words r (of_nat p)
          (if blk_bytes (hmem h) (of_nat b) > of_nat x then of_nat x else blk_bytes (hmem h) (of_nat b)) (hmem h)\<rparr>)) (\<lambda>h. Inr (r, h))))"
      unfolding k_mm_realloc_def if_not_P [OF nz(1)] if_not_P [OF nz(2)] if_not_P [OF nf] Let_def w(1) kb [OF i p(1)] w(2) ask2_word [OF s(2)] x_def [symmetric] bN fN le g_def ..
    have ip: "ok (realloc_shrink (of_nat b) (of_nat x) (of_nat s) h) (\<lambda>(r, h'). r = of_nat (b + 8) \<and> resized L h b x h')" if "x \<le> n"
      using realloc_shrink_ok [OF l(4) B(1,2) x(1,3) _ s(1) s32] that n0(2) by simp
    have ie: "ok (realloc_extend (of_nat b) (of_nat x) (of_nat s) h) (\<lambda>(r, h'). r = of_nat (b + 8) \<and> resized L h b x h')" if "mfree N" "x \<le> n + msz N"
      using realloc_extend_ok [OF l(4) B(1,2) x(1,3) s(1) s32] that N n0 by simp
    show ?thesis
    proof (cases "x \<le> n \<or> mfree N \<and> x \<le> n + msz N")
      case True
      then have "ok g (\<lambda>(r, h'). r = of_nat (b + 8) \<and> resized L h b x h')" using ip ie by (auto simp: g_def)
      then obtain h' where h': "g = Inr (of_nat (b + 8), h')" "resized L h b x h'" unfolding ok_iff by auto
      have "reallocated L po S h p s (min n s) (of_nat p) h'"
        using reallocated_mono [OF resized_realloc [OF i b(1) pb(3) h'(2)] x(2), of "min n s"] pb x(2) by simp
      then show ?thesis unfolding eq h'(1) using nz(1) pb(1) by (simp del: of_nat_add)
    next
      case False
      then have g: "g = Inr (0, h)" by (auto simp: g_def)
      have "ok (bnd (k_mm_alloc (of_nat x) h) (\<lambda>(r, h). if r = 0 then Inr (0, h) else bnd (k_mm_free (of_nat p) (h\<lparr>hmem := copy_words r (of_nat p)
          (if blk_bytes (hmem h) (of_nat b) > of_nat x then of_nat x else blk_bytes (hmem h) (of_nat b)) (hmem h)\<rparr>)) (\<lambda>h. Inr (r, h))))
        (\<lambda>(r, h'). reallocated L po S h p x n r h')"
        using False le(1) by (intro move_ok [OF i p x(6,4), where cf = "\<lambda>h. if blk_bytes (hmem h) (of_nat b) > of_nat x then of_nat x else blk_bytes (hmem h) (of_nat b)"])
          (auto simp: kb not_less)
      then show ?thesis unfolding eq g bnd.simps prod.case using reallocated_mono [OF _ x(2), of L po S h p n _ _ "min n s"] by (auto elim!: ok_mono)
    qed
  qed
qed

end
