(* ===== verification/MmSpec.thy ===== *)
theory MmSpec
  imports MmRealloc
begin

unbundle bit_operations_syntax

text \<open>
  The contract of the heap and its clients. The contract says what allocation, release and change of size do to the map of the
  buffers handed out; from it follows, once for every heap that keeps it, that a client that works on its own buffers only finds
  in them what it has written. The kernel's heap keeps the contract.
\<close>

section \<open>Clients of a heap\<close>

text \<open>A client allocates, releases, resizes and writes aligned words. It records for each of its buffers the address, the
  size it asked for and the words it has written. A request has from 2 to \<open>0xFC000000\<close> bytes; other requests are not made.\<close>

definition mm_request :: "nat \<Rightarrow> bool" where
  "mm_request n \<longleftrightarrow> 2 \<le> n \<and> n \<le> 0xFC000000"

datatype heap_op = HAlloc nat | HFree nat | HResize nat nat | HWrite nat nat "32 word"

record owned =
  optr :: nat
  osize :: nat
  odata :: "nat \<rightharpoonup> 32 word"

definition at_end :: "nat \<Rightarrow> nat \<Rightarrow> owned list \<Rightarrow> owned list" where
  "at_end p n own = (if p = 0 then own else own @ [\<lparr>optr = p, osize = n, odata = Map.empty\<rparr>])"

definition moved :: "nat \<Rightarrow> nat \<Rightarrow> nat \<Rightarrow> owned list \<Rightarrow> owned list" where
  "moved i p n own =
     (if p = 0 then own else own[i := \<lparr>optr = p, osize = n, odata = odata (own ! i) |` {j. j + 4 \<le> n}\<rparr>])"

fun heap_run :: "(nat \<Rightarrow> 's \<Rightarrow> (nat \<times> 's) outcome) \<Rightarrow> (nat \<Rightarrow> 's \<Rightarrow> 's outcome) \<Rightarrow> (nat \<Rightarrow> nat \<Rightarrow> 's \<Rightarrow> (nat \<times> 's) outcome)
    \<Rightarrow> (nat \<Rightarrow> 32 word \<Rightarrow> 's \<Rightarrow> 's) \<Rightarrow> 's \<Rightarrow> owned list \<Rightarrow> heap_op list \<Rightarrow> ('s \<times> owned list) outcome" where
  "heap_run alloc free resize put s own [] = Inr (s, own)"
| "heap_run alloc free resize put s own (HAlloc n # ops) =
     (if mm_request n
      then bnd (alloc n s) (\<lambda>(p, s). heap_run alloc free resize put s (at_end p n own) ops)
      else heap_run alloc free resize put s own ops)"
| "heap_run alloc free resize put s own (HFree i # ops) =
     (if i < length own
      then bnd (free (optr (own ! i)) s) (\<lambda>s. heap_run alloc free resize put s (take i own @ drop (Suc i) own) ops)
      else heap_run alloc free resize put s own ops)"
| "heap_run alloc free resize put s own (HResize i n # ops) =
     (if i < length own \<and> mm_request n
      then bnd (resize (optr (own ! i)) n s) (\<lambda>(p, s). heap_run alloc free resize put s (moved i p n own) ops)
      else heap_run alloc free resize put s own ops)"
| "heap_run alloc free resize put s own (HWrite i j v # ops) =
     (if i < length own \<and> j mod 4 = 0 \<and> j + 4 \<le> osize (own ! i)
      then heap_run alloc free resize put (put (optr (own ! i) + j) v s)
             (own[i := (own ! i)\<lparr>odata := (odata (own ! i))(j \<mapsto> v)\<rparr>]) ops
      else heap_run alloc free resize put s own ops)"

lemma remove_nth_map:
  assumes "i < length xs" "distinct (map f xs)"
  shows "distinct (map f (take i xs @ drop (Suc i) xs))" "y \<in> set (take i xs @ drop (Suc i) xs) \<Longrightarrow> y \<in> set xs \<and> f y \<noteq> f (xs ! i)"
proof -
  have x: "xs = take i xs @ xs ! i # drop (Suc i) xs" using assms(1) by (rule id_take_nth_drop)
  then have d: "distinct (map f (take i xs @ xs ! i # drop (Suc i) xs))" using assms(2) by metis
  then show "distinct (map f (take i xs @ drop (Suc i) xs))" by auto
  show "y \<in> set xs \<and> f y \<noteq> f (xs ! i)" if "y \<in> set (take i xs @ drop (Suc i) xs)"
  proof -
    have "f y \<in> f ` set (take i xs) \<union> f ` set (drop (Suc i) xs)" using that by auto
    moreover have "f (xs ! i) \<notin> f ` set (take i xs) \<union> f ` set (drop (Suc i) xs)" using d by simp
    ultimately have "f y \<noteq> f (xs ! i)" by metis
    moreover have "y \<in> set xs" using that by (auto dest: in_set_takeD in_set_dropD)
    ultimately show ?thesis by blast
  qed
qed

lemma update_nth_map:
  assumes "i < length xs" "distinct (map f xs)" "y \<in> set (xs[i := x])"
  shows "y = x \<or> y \<in> set xs \<and> f y \<noteq> f (xs ! i)"
proof -
  obtain k where k: "k < length xs" "y = xs[i := x] ! k" using assms(3) by (auto simp: in_set_conv_nth)
  have "f (xs ! k) \<noteq> f (xs ! i)" if "k \<noteq> i" using that assms(1,2) k(1) nth_eq_iff_index_eq [of "map f xs" k i] by simp
  then show ?thesis using k assms(1) by (cases "k = i") auto
qed

lemma distinct_update:
  assumes "i < length xs" "distinct (map f xs)" "f x = f (xs ! i) \<or> f x \<notin> f ` set xs"
  shows "distinct (map f (xs[i := x]))"
proof (cases "f x = f (xs ! i)")
  case True
  have "(map f xs)[i := f (xs ! i)] = map f xs" using assms(1) list_update_id [of "map f xs" i] by simp
  then show ?thesis using True assms(2) by (simp add: map_update)
next
  case False
  then show ?thesis using assms by (auto simp: map_update intro!: distinct_list_update)
qed

section \<open>The contract\<close>

definition same_words :: "('s \<Rightarrow> nat \<Rightarrow> 32 word) \<Rightarrow> (nat \<rightharpoonup> nat) \<Rightarrow> 's \<Rightarrow> 's \<Rightarrow> bool" where
  "same_words get A s s' \<longleftrightarrow> (\<forall>p n j. A p = Some n \<longrightarrow> j < n \<longrightarrow> get s' (p + j) = get s (p + j))"

text \<open>The client's records are right: its buffers are different, handed out, and hold the words it has written.\<close>

definition good :: "('s \<Rightarrow> nat \<Rightarrow> 32 word) \<Rightarrow> (nat \<rightharpoonup> nat) \<Rightarrow> 's \<Rightarrow> owned \<Rightarrow> bool" where
  "good get A s x \<longleftrightarrow> optr x \<noteq> 0 \<and> 2 \<le> osize x \<and> (\<exists>k \<ge> osize x. A (optr x) = Some k) \<and>
     (\<forall>j v. odata x j = Some v \<longrightarrow> j + 4 \<le> osize x \<and> get s (optr x + j) = v)"

definition client_ok :: "('s \<Rightarrow> (nat \<rightharpoonup> nat) \<Rightarrow> bool) \<Rightarrow> ('s \<Rightarrow> nat \<Rightarrow> 32 word) \<Rightarrow> 's \<Rightarrow> owned list \<Rightarrow> bool" where
  "client_ok rep get s own \<longleftrightarrow> (\<exists>A. rep s A \<and> distinct (map optr own) \<and> (\<forall>x \<in> set own. good get A s x))"

locale heap_contract =
  fixes rep :: "'s \<Rightarrow> (nat \<rightharpoonup> nat) \<Rightarrow> bool" and get :: "'s \<Rightarrow> nat \<Rightarrow> 32 word" and put :: "nat \<Rightarrow> 32 word \<Rightarrow> 's \<Rightarrow> 's"
    and alloc :: "nat \<Rightarrow> 's \<Rightarrow> (nat \<times> 's) outcome" and free :: "nat \<Rightarrow> 's \<Rightarrow> 's outcome"
    and resize :: "nat \<Rightarrow> nat \<Rightarrow> 's \<Rightarrow> (nat \<times> 's) outcome"
  assumes alloc_new: "rep s A \<Longrightarrow> mm_request n \<Longrightarrow> ok (alloc n s) (\<lambda>(p, s'). if p = 0 then s' = s
      else A p = None \<and> (\<exists>k \<ge> n. rep s' (A(p \<mapsto> k))) \<and> same_words get A s s')"
    and free_old: "rep s A \<Longrightarrow> A p = Some k \<Longrightarrow> 0 < k \<Longrightarrow> ok (free p s) (\<lambda>s'. rep s' (A(p := None)) \<and> same_words get (A(p := None)) s s')"
    and resize_old: "rep s A \<Longrightarrow> A p = Some k \<Longrightarrow> 0 < k \<Longrightarrow> mm_request n \<Longrightarrow> ok (resize p n s) (\<lambda>(q, s'). if q = 0 then s' = s
      else (q = p \<or> A q = None) \<and> (\<exists>k \<ge> n. rep s' (A(p := None, q \<mapsto> k))) \<and> same_words get (A(p := None)) s s' \<and>
        (\<forall>j < min k n. get s' (q + j) = get s (p + j)))"
    and put_inside: "rep s A \<Longrightarrow> A p = Some k \<Longrightarrow> j < k \<Longrightarrow> rep (put (p + j) v s) A \<and> get (put (p + j) v s) (p + j) = v \<and>
      (\<forall>q n i. A q = Some n \<longrightarrow> i < n \<longrightarrow> (q, i) \<noteq> (p, j) \<longrightarrow> get (put (p + j) v s) (q + i) = get s (q + i))"
begin

lemma good_same:
  assumes "good get A s x" "same_words get A' s s'" "A' (optr x) = A (optr x)" "A'' (optr x) = A (optr x)"
  shows "good get A'' s' x"
proof -
  obtain k where k: "osize x \<le> k" "A (optr x) = Some k" using assms(1) by (auto simp: good_def)
  have "get s' (optr x + j) = get s (optr x + j)" if "j + 4 \<le> osize x" for j
    using that k assms(2,3) unfolding same_words_def by (metis add_leD1 le_trans less_add_same_cancel1 less_le_trans zero_less_numeral)
  then show ?thesis using assms(1,4) k unfolding good_def by metis
qed

lemma client_ok_alloc:
  assumes "client_ok rep get s own" "mm_request n"
  shows "ok (alloc n s) (\<lambda>(p, s'). client_ok rep get s' (at_end p n own))"
proof -
  obtain A where A: "rep s A" "distinct (map optr own)" "\<forall>x \<in> set own. good get A s x" using assms(1) by (auto simp: client_ok_def)
  have "client_ok rep get s' (at_end p n own)" if p: "if p = 0 then s' = s else A p = None \<and> (\<exists>k \<ge> n. rep s' (A(p \<mapsto> k))) \<and> same_words get A s s'" for p s'
  proof (cases "p = 0")
    case True
    then show ?thesis using p assms(1) by (simp add: at_end_def)
  next
    case False
    then obtain k where k: "A p = None" "n \<le> k" "rep s' (A(p \<mapsto> k))" "same_words get A s s'" using p by auto
    have ne: "optr x \<noteq> p" if "x \<in> set own" for x using that A(3) k(1) by (auto simp: good_def)
    have "good get (A(p \<mapsto> k)) s' x" if "x \<in> set own" for x using good_same [OF bspec [OF A(3) that] k(4)] ne [OF that] by simp
    moreover have "good get (A(p \<mapsto> k)) s' \<lparr>optr = p, osize = n, odata = Map.empty\<rparr>" using False k(2) assms(2) by (simp add: good_def mm_request_def)
    ultimately show ?thesis unfolding client_ok_def using k(3) A(2) False ne by (intro exI [of _ "A(p \<mapsto> k)"]) (auto simp: at_end_def)
  qed
  then show ?thesis by (intro ok_mono [OF alloc_new [OF A(1) assms(2)]]) (simp add: case_prod_unfold)
qed

lemma client_ok_free:
  assumes "client_ok rep get s own" "i < length own"
  shows "ok (free (optr (own ! i)) s) (\<lambda>s'. client_ok rep get s' (take i own @ drop (Suc i) own))"
proof -
  obtain A where A: "rep s A" "distinct (map optr own)" "\<forall>x \<in> set own. good get A s x" using assms(1) by (auto simp: client_ok_def)
  define p where "p = optr (own ! i)"
  have "good get A s (own ! i)" using A(3) assms(2) by simp
  then obtain k where k: "A p = Some k" "0 < k" by (force simp: good_def p_def)
  have "client_ok rep get s' (take i own @ drop (Suc i) own)" if s': "rep s' (A(p := None))" "same_words get (A(p := None)) s s'" for s'
  proof -
    have "good get (A(p := None)) s' x" if "x \<in> set (take i own @ drop (Suc i) own)" for x
    proof -
      have x: "x \<in> set own" "optr x \<noteq> p" using remove_nth_map(2) [OF assms(2) A(2) that] by (simp_all add: p_def)
      show ?thesis using good_same [OF bspec [OF A(3) x(1)] s'(2)] x(2) by simp
    qed
    then show ?thesis unfolding client_ok_def using s'(1) remove_nth_map(1) [OF assms(2) A(2)] by blast
  qed
  then show ?thesis unfolding p_def [symmetric] by (intro ok_mono [OF free_old [OF A(1) k]]) blast
qed

lemma client_ok_resize:
  assumes "client_ok rep get s own" "i < length own" "mm_request n"
  shows "ok (resize (optr (own ! i)) n s) (\<lambda>(p, s'). client_ok rep get s' (moved i p n own))"
proof -
  obtain A where A: "rep s A" "distinct (map optr own)" "\<forall>x \<in> set own. good get A s x" using assms(1) by (auto simp: client_ok_def)
  define p where "p = optr (own ! i)"
  have gi: "good get A s (own ! i)" using A(3) assms(2) by simp
  then obtain k where k: "A p = Some k" "0 < k" "osize (own ! i) \<le> k" by (force simp: good_def p_def)
  have "client_ok rep get s' (moved i q n own)"
    if q: "if q = 0 then s' = s else (q = p \<or> A q = None) \<and> (\<exists>k \<ge> n. rep s' (A(p := None, q \<mapsto> k))) \<and> same_words get (A(p := None)) s s' \<and>
        (\<forall>j < min k n. get s' (q + j) = get s (p + j))" for q s'
  proof (cases "q = 0")
    case True
    then show ?thesis using q assms(1) by (simp add: moved_def)
  next
    case False
    then obtain m where m: "q = p \<or> A q = None" "n \<le> m" "rep s' (A(p := None, q \<mapsto> m))" "same_words get (A(p := None)) s s'"
      "\<forall>j < min k n. get s' (q + j) = get s (p + j)" using q by auto
    define y where "y = \<lparr>optr = q, osize = n, odata = odata (own ! i) |` {j. j + 4 \<le> n}\<rparr>"
    have ne: "optr x \<noteq> q" if "x \<in> set own" "optr x \<noteq> p" for x using that A(3) m(1) by (auto simp: good_def)
    have "good get (A(p := None, q \<mapsto> m)) s' x" if "x \<in> set own" "optr x \<noteq> p" for x
      using good_same [OF bspec [OF A(3) that(1)] m(4)] that(2) ne [OF that] by simp
    moreover have "good get (A(p := None, q \<mapsto> m)) s' y"
    proof -
      have "get s' (q + j) = v" if "odata (own ! i) j = Some v" "j + 4 \<le> n" for j v
      proof -
        have "j + 4 \<le> osize (own ! i)" "get s (p + j) = v" using gi that(1) unfolding good_def p_def by blast+
        moreover from this have "j < min k n" using k(3) that(2) by simp
        ultimately show ?thesis using m(5) by simp
      qed
      then show ?thesis using False m(2) assms(3) by (auto simp: good_def y_def mm_request_def restrict_map_def split: if_splits)
    qed
    ultimately have "\<forall>x \<in> set (own[i := y]). good get (A(p := None, q \<mapsto> m)) s' x"
      using update_nth_map [OF assms(2) A(2)] unfolding p_def by blast
    moreover have "distinct (map optr (own[i := y]))"
      using m(1) A(3) by (intro distinct_update [OF assms(2) A(2)]) (auto simp: y_def p_def good_def)
    ultimately show ?thesis unfolding client_ok_def using m(3) False by (auto simp: moved_def y_def)
  qed
  then show ?thesis unfolding p_def [symmetric] by (intro ok_mono [OF resize_old [OF A(1) k(1,2) assms(3)]]) (simp add: case_prod_unfold)
qed

lemma client_ok_put:
  assumes "client_ok rep get s own" "i < length own" "j + 4 \<le> osize (own ! i)"
  shows "client_ok rep get (put (optr (own ! i) + j) v s) (own[i := (own ! i)\<lparr>odata := (odata (own ! i))(j \<mapsto> v)\<rparr>])"
proof -
  obtain A where A: "rep s A" "distinct (map optr own)" "\<forall>x \<in> set own. good get A s x" using assms(1) by (auto simp: client_ok_def)
  define p where "p = optr (own ! i)"
  define y where "y = (own ! i)\<lparr>odata := (odata (own ! i))(j \<mapsto> v)\<rparr>"
  have gi: "good get A s (own ! i)" using A(3) assms(2) by simp
  then obtain k where k: "A p = Some k" "osize (own ! i) \<le> k" by (force simp: good_def p_def)
  have jk: "j < k" using k(2) assms(3) by simp
  note pt = put_inside [OF A(1) k(1) jk, of v]
  have keep: "get (put (p + j) v s) (optr x + l) = get s (optr x + l)" if g: "good get A s x" and l: "l + 4 \<le> osize x" "(optr x, l) \<noteq> (p, j)" for x l
  proof -
    obtain n where "A (optr x) = Some n" "osize x \<le> n" using g by (auto simp: good_def)
    then show ?thesis using pt l by (metis add_leD1 le_trans less_add_same_cancel1 less_le_trans zero_less_numeral)
  qed
  have data: "l + 4 \<le> osize x" "get (put (p + j) v s) (optr x + l) = w" if "good get A s x" "odata x l = Some w" "(optr x, l) \<noteq> (p, j)" for x l w
  proof -
    show "l + 4 \<le> osize x" using that(1,2) by (simp add: good_def)
    then show "get (put (p + j) v s) (optr x + l) = w" using keep [OF that(1) _ that(3)] that(1,2) by (simp add: good_def)
  qed
  have "good get A (put (p + j) v s) x" if "x \<in> set own" "optr x \<noteq> p" for x
    unfolding good_def using bspec [OF A(3) that(1)] data [OF bspec [OF A(3) that(1)]] that(2) by (simp add: good_def)
  moreover have "good get A (put (p + j) v s) y"
    using gi data [OF gi] pt assms(3) by (simp add: good_def y_def p_def)
  ultimately have "\<forall>x \<in> set (own[i := y]). good get A (put (p + j) v s) x" using update_nth_map [OF assms(2) A(2)] unfolding p_def by blast
  moreover have "distinct (map optr (own[i := y]))" by (intro distinct_update [OF assms(2) A(2)]) (simp add: y_def)
  ultimately show ?thesis unfolding client_ok_def y_def [symmetric] p_def [symmetric] using pt by blast
qed

lemma heap_run_ok: "client_ok rep get s own \<Longrightarrow> ok (heap_run alloc free resize put s own ops) (\<lambda>(s', own'). client_ok rep get s' own')"
proof (induction ops arbitrary: s own)
  case (Cons c ops)
  show ?case
  proof (cases c)
    case (HAlloc n)
    then show ?thesis using Cons.IH Cons.prems client_ok_alloc [OF Cons.prems, of n] by (auto simp: case_prod_unfold elim!: ok_mono)
  next
    case (HFree i)
    then show ?thesis using Cons.IH Cons.prems client_ok_free [OF Cons.prems, of i] by (auto elim!: ok_mono)
  next
    case (HResize i n)
    then show ?thesis using Cons.IH Cons.prems client_ok_resize [OF Cons.prems, of i n] by (auto simp: case_prod_unfold elim!: ok_mono)
  next
    case (HWrite i j v)
    then show ?thesis using Cons.IH Cons.prems client_ok_put [OF Cons.prems, of i j v] by auto
  qed
qed simp

end

section \<open>The kernel's heap keeps the contract\<close>

definition mm_rep :: "nat set \<Rightarrow> mheap option \<Rightarrow> (nat \<rightharpoonup> nat) \<Rightarrow> bool" where
  "mm_rep D g A \<longleftrightarrow> (\<exists>h L F po S. g = Some h \<and> mm_inv L F po S h \<and> A = client L po S \<and> (\<forall>a \<in> dom L. \<exists>c \<in> D. \<exists>d \<in> D. c \<le> a \<and> a \<le> d))"

definition mm_get :: "mheap option \<Rightarrow> nat \<Rightarrow> 32 word" where
  "mm_get g a = hmem (the g) (of_nat a)"

definition mm_put :: "nat \<Rightarrow> 32 word \<Rightarrow> mheap option \<Rightarrow> mheap option" where
  "mm_put a v g = map_option (\<lambda>h. h\<lparr>hmem := (hmem h)(of_nat a := v)\<rparr>) g"

definition mm_alloc :: "nat \<Rightarrow> mheap option \<Rightarrow> (nat \<times> mheap option) outcome" where
  "mm_alloc n g = bnd (krhino_mm_alloc (of_nat n) g) (\<lambda>(p, g). Inr (unat p, g))"

definition mm_free :: "nat \<Rightarrow> mheap option \<Rightarrow> mheap option outcome" where
  "mm_free p g = krhino_mm_free (of_nat p) g"

definition mm_resize :: "nat \<Rightarrow> nat \<Rightarrow> mheap option \<Rightarrow> (nat \<times> mheap option) outcome" where
  "mm_resize p n g = bnd (krhino_mm_realloc (of_nat p) (of_nat n) g) (\<lambda>(p, g). Inr (unat p, g))"

lemma mm_repI:
  assumes "mm_inv L F po S h" "A = client L po S" "inside L0 L" "\<forall>a \<in> dom L0. \<exists>c \<in> D. \<exists>d \<in> D. c \<le> a \<and> a \<le> d"
  shows "mm_rep D (Some h) A"
proof -
  have "\<forall>a \<in> dom L. \<exists>c \<in> D. \<exists>d \<in> D. c \<le> a \<and> a \<le> d" using assms(3,4) unfolding inside_def by (meson le_trans)
  then show ?thesis unfolding mm_rep_def using assms(1,2) by blast
qed

lemma keeps_words: "keeps A (hmem h) (hmem h') \<Longrightarrow> same_words mm_get A (Some h) (Some h')"
  unfolding keeps_def same_words_def mm_get_def using bytesI by (metis option.sel)

lemma mm_alloc_step:
  assumes "mm_rep D g A" "mm_request n"
  shows "ok (mm_alloc n g) (\<lambda>(p, g'). if p = 0 then g' = g else A p = None \<and> (\<exists>k \<ge> n. mm_rep D g' (A(p \<mapsto> k))) \<and> same_words mm_get A g g')"
proof -
  obtain h L F po S where g: "g = Some h" "mm_inv L F po S h" "A = client L po S" "\<forall>a \<in> dom L. \<exists>c \<in> D. \<exists>d \<in> D. c \<le> a \<and> a \<le> d"
    using assms(1) unfolding mm_rep_def by blast
  have n: "2 \<le> n" "n \<le> 0xFC000000" using assms(2) by (simp_all add: mm_request_def)
  have nz: "of_nat n \<noteq> (0 :: 32 word)" using n by (intro of_nat_nonzero) auto
  define Q where "Q = (\<lambda>(p, g'). if p = 0 then g' = g else A p = None \<and> (\<exists>k \<ge> n. mm_rep D g' (A(p \<mapsto> k))) \<and> same_words mm_get A g g')"
  have "Q (unat p, Some h')" if r: "if p = 0 then h' = h \<and> (\<forall>x B. L x = Some B \<and> mfree B \<longrightarrow> msz B < round_up (ask n))
    else \<exists>a k L' F' S'. p = of_nat a \<and> a < 2 ^ 32 \<and> client L po S a = None \<and> n \<le> k \<and> mm_inv L' F' po S' h' \<and>
      client L' po S' = (client L po S)(a \<mapsto> k) \<and> inside L L' \<and> keeps (client L po S) (hmem h) (hmem h')" for p :: "32 word" and h'
  proof (cases "p = 0")
    case True
    then show ?thesis using r g(1) by (simp add: Q_def)
  next
    case False
    then obtain a k L' F' S' where a: "p = of_nat a" "a < 2 ^ 32" "client L po S a = None" "n \<le> k" "mm_inv L' F' po S' h'"
      "client L' po S' = (client L po S)(a \<mapsto> k)" "inside L L'" "keeps (client L po S) (hmem h) (hmem h')" using r by auto
    have "mm_rep D (Some h') (A(a \<mapsto> k))" using mm_repI [OF a(5) _ a(7) g(4)] a(6) g(3) by simp
    moreover have "same_words mm_get A g (Some h')" using keeps_words [OF a(8)] g(1,3) by simp
    moreover have "unat p = a" "a \<noteq> 0" using unat_of_nat_small [OF a(2)] a(1) False by (simp, intro notI, simp)
    ultimately show ?thesis unfolding Q_def prod.case using a(3,4) g(3) by auto
  qed
  then have "ok (k_mm_alloc (of_nat n) h) (\<lambda>(p, h'). Q (unat p, Some h'))"
    by (intro ok_mono [OF k_mm_alloc_ok [OF g(2) n]]) (simp only: case_prod_unfold)
  then show ?thesis unfolding Q_def [symmetric] using nz by (simp add: mm_alloc_def krhino_mm_alloc_def g(1) case_prod_unfold)
qed

lemma mm_free_step:
  assumes "mm_rep D g A" "A p = Some k" "0 < k"
  shows "ok (mm_free p g) (\<lambda>g'. mm_rep D g' (A(p := None)) \<and> same_words mm_get (A(p := None)) g g')"
proof -
  obtain h L F po S where g: "g = Some h" "mm_inv L F po S h" "A = client L po S" "\<forall>a \<in> dom L. \<exists>c \<in> D. \<exists>d \<in> D. c \<le> a \<and> a \<le> d"
    using assms(1) unfolding mm_rep_def by blast
  have k: "client L po S p = Some k" "k \<noteq> 0" using assms(2,3) g(3) by auto
  have "mm_rep D (Some h') (A(p := None)) \<and> same_words mm_get (A(p := None)) g (Some h')"
    if r: "\<exists>L' F' S'. mm_inv L' F' po S' h' \<and> client L' po S' = (client L po S)(p := None) \<and> inside L L' \<and>
      keeps ((client L po S)(p := None)) (hmem h) (hmem h')" for h'
  proof -
    obtain L' F' S' where f: "mm_inv L' F' po S' h'" "client L' po S' = (client L po S)(p := None)" "inside L L'"
      "keeps ((client L po S)(p := None)) (hmem h) (hmem h')" using r by blast
    then show ?thesis using mm_repI [OF f(1) _ f(3) g(4)] keeps_words [OF f(4)] g(1,3) by simp
  qed
  then have "ok (k_mm_free (of_nat p) h) (\<lambda>h'. mm_rep D (Some h') (A(p := None)) \<and> same_words mm_get (A(p := None)) g (Some h'))"
    by (intro ok_mono [OF k_mm_free_ok [OF g(2) k]]) blast
  then show ?thesis by (simp add: mm_free_def krhino_mm_free_def g(1))
qed

lemma mm_resize_step:
  assumes "mm_rep D g A" "A p = Some k" "0 < k" "mm_request n"
  shows "ok (mm_resize p n g) (\<lambda>(q, g'). if q = 0 then g' = g
    else (q = p \<or> A q = None) \<and> (\<exists>k \<ge> n. mm_rep D g' (A(p := None, q \<mapsto> k))) \<and> same_words mm_get (A(p := None)) g g' \<and>
      (\<forall>j < min k n. mm_get g' (q + j) = mm_get g (p + j)))"
proof -
  obtain h L F po S where g: "g = Some h" "mm_inv L F po S h" "A = client L po S" "\<forall>a \<in> dom L. \<exists>c \<in> D. \<exists>d \<in> D. c \<le> a \<and> a \<le> d"
    using assms(1) unfolding mm_rep_def by blast
  have n: "2 \<le> n" "n \<le> 0xFC000000" using assms(4) by (simp_all add: mm_request_def)
  have k: "client L po S p = Some k" "k \<noteq> 0" using assms(2,3) g(3) by auto
  define Q where "Q = (\<lambda>(q, g'). if q = 0 then g' = g
    else (q = p \<or> A q = None) \<and> (\<exists>k \<ge> n. mm_rep D g' (A(p := None, q \<mapsto> k))) \<and> same_words mm_get (A(p := None)) g g' \<and>
      (\<forall>j < min k n. mm_get g' (q + j) = mm_get g (p + j)))"
  have "Q (unat r, Some h')" if rr: "reallocated L po S h p n (min k n) r h'" for r h'
  proof (cases "r = 0")
    case True
    then show ?thesis using rr g(1) by (simp add: Q_def reallocated_def)
  next
    case False
    then obtain a m L' F' S' where a: "r = of_nat a" "a < 2 ^ 32" "n \<le> m" "a = p \<or> client L po S a = None" "mm_inv L' F' po S' h'"
      "client L' po S' = (client L po S)(p := None, a \<mapsto> m)" "inside L L'" "keeps ((client L po S)(p := None)) (hmem h) (hmem h')"
      "\<forall>i < min k n. hmem h' (of_nat (a + i)) = hmem h (of_nat (p + i))"
      using rr unfolding reallocated_def if_not_P [OF False] by blast
    have "mm_rep D (Some h') (A(p := None, a \<mapsto> m))" using mm_repI [OF a(5) _ a(7) g(4)] a(6) g(3) by simp
    moreover have "same_words mm_get (A(p := None)) g (Some h')" using keeps_words [OF a(8)] g(1,3) by simp
    moreover have "unat r = a" "a \<noteq> 0" using unat_of_nat_small [OF a(2)] a(1) False by (simp, intro notI, simp)
    moreover have "\<forall>j < min k n. mm_get (Some h') (a + j) = mm_get g (p + j)" using a(9) g(1) by (simp only: mm_get_def option.sel)
    ultimately show ?thesis unfolding Q_def prod.case using a(3,4) g(3) by auto
  qed
  then have "ok (k_mm_realloc (of_nat p) (of_nat n) h) (\<lambda>(r, h'). Q (unat r, Some h'))"
    by (intro ok_mono [OF k_mm_realloc_ok [OF g(2) k n]]) (simp only: case_prod_unfold)
  then show ?thesis unfolding Q_def [symmetric] by (simp add: mm_resize_def krhino_mm_realloc_def g(1) case_prod_unfold)
qed

lemma mm_put_step:
  assumes "mm_rep D g A" "A p = Some k" "j < k"
  shows "mm_rep D (mm_put (p + j) v g) A" "mm_get (mm_put (p + j) v g) (p + j) = v"
    "A q = Some n \<Longrightarrow> i < n \<Longrightarrow> (q, i) \<noteq> (p, j) \<Longrightarrow> mm_get (mm_put (p + j) v g) (q + i) = mm_get g (q + i)"
proof -
  obtain h L F po S where g: "g = Some h" "mm_inv L F po S h" "A = client L po S" "\<forall>a \<in> dom L. \<exists>c \<in> D. \<exists>d \<in> D. c \<le> a \<and> a \<le> d"
    using assms(1) unfolding mm_rep_def by blast
  have w: "of_nat (p + j) \<in> bytes p k" using bytesI [OF assms(3)] .
  then have "agree (bytes p k) (hmem h) ((hmem h)(of_nat (p + j) := v))" by (auto simp: agree_def simp del: of_nat_add)
  then have "mm_inv L F po S (h\<lparr>hmem := (hmem h)(of_nat (p + j) := v)\<rparr>)" using client_write [OF g(2)] assms(2) g(3) by blast
  then show "mm_rep D (mm_put (p + j) v g) A" using g unfolding mm_rep_def mm_put_def by auto
  show "mm_get (mm_put (p + j) v g) (p + j) = v" by (simp add: mm_get_def mm_put_def g(1))
  show "mm_get (mm_put (p + j) v g) (q + i) = mm_get g (q + i)" if "A q = Some n" "i < n" "(q, i) \<noteq> (p, j)"
  proof -
    have "of_nat (q + i) \<noteq> (of_nat (p + j) :: 32 word)"
    proof (cases "q = p")
      case True
      obtain c x where c: "in_use L c = Some x" "bytes p k \<subseteq> payload c x" "c + 8 \<le> p" "p + k \<le> c + 8 + x"
        using client_home [OF g(2)] assms(2) g(3) by blast
      then have "c + 8 + x < 2 ^ 32" using layout_okD(5) [OF mm_layout [OF g(2)]] by (auto simp: used_Some)
      then show ?thesis using True that c(4) assms(2,3) of_nat_eq_small [of "p + i" "p + j"] by (auto simp del: of_nat_add)
    next
      case False
      then have "bytes q n \<inter> bytes p k = {}" using client_disjoint [OF g(2)] that(1) assms(2) g(3) by blast
      then show ?thesis using w bytesI [OF that(2)] by (metis disjoint_iff)
    qed
    then show ?thesis by (simp add: mm_get_def mm_put_def g(1) del: of_nat_add)
  qed
qed

interpretation mmh: heap_contract "mm_rep D" mm_get mm_put mm_alloc mm_free mm_resize for D
proof
  fix s A n p k j v
  show "ok (mm_alloc n s) (\<lambda>(p, s'). if p = 0 then s' = s else A p = None \<and> (\<exists>k \<ge> n. mm_rep D s' (A(p \<mapsto> k))) \<and> same_words mm_get A s s')"
    if "mm_rep D s A" "mm_request n" using mm_alloc_step [OF that] .
  show "ok (mm_free p s) (\<lambda>s'. mm_rep D s' (A(p := None)) \<and> same_words mm_get (A(p := None)) s s')"
    if "mm_rep D s A" "A p = Some k" "0 < k" using mm_free_step [OF that] .
  show "ok (mm_resize p n s) (\<lambda>(q, s'). if q = 0 then s' = s
      else (q = p \<or> A q = None) \<and> (\<exists>k \<ge> n. mm_rep D s' (A(p := None, q \<mapsto> k))) \<and> same_words mm_get (A(p := None)) s s' \<and>
        (\<forall>j < min k n. mm_get s' (q + j) = mm_get s (p + j)))"
    if "mm_rep D s A" "A p = Some k" "0 < k" "mm_request n" using mm_resize_step [OF that] .
  show "mm_rep D (mm_put (p + j) v s) A \<and> mm_get (mm_put (p + j) v s) (p + j) = v \<and>
      (\<forall>q n i. A q = Some n \<longrightarrow> i < n \<longrightarrow> (q, i) \<noteq> (p, j) \<longrightarrow> mm_get (mm_put (p + j) v s) (q + i) = mm_get s (q + i))"
    if "mm_rep D s A" "A p = Some k" "j < k" using mm_put_step [OF that] by blast
qed

end
