(* ===== verification/Heap.thy ===== *)
theory Heap
  imports MmSpec
begin

unbundle bit_operations_syntax

text \<open>
  The theorems about the kernel's heap: initialisation, allocation, release, change of size, the search for a size class, what a
  client sees, and the requests for which the code goes wrong.
\<close>

section \<open>Where the buffers lie\<close>

definition region_ok :: "nat \<Rightarrow> nat \<Rightarrow> bool" where
  "region_ok a n \<longleftrightarrow> 0 < a \<and> a + n + 64 \<le> 2 ^ 32 \<and> 5120 \<le> span a n \<and> span a n \<le> 2 ^ 20"

lemma client_range:
  assumes "mm_inv L F po S h" "client L po S p = Some n" "\<forall>a \<in> dom L. low \<le> a \<and> a \<le> hi"
  shows "low \<le> p" "p + n \<le> hi + 8" "p mod 4 = 0"
proof -
  obtain c k where c: "in_use L c = Some k" "bytes p n \<subseteq> payload c k" "c + 8 \<le> p" "p + n \<le> c + 8 + k"
    "po = Some c \<and> p \<in> small_blks c \<and> n = 32 \<or> p = c + 8 \<and> n = k \<and> po \<noteq> Some c"
    using client_home [OF assms(1,2)] .
  obtain C where C: "L c = Some C" "msz C = k" using c(1) by (auto simp: used_Some)
  have l: "layout_ok L" using mm_layout [OF assms(1)] .
  have lc: "low \<le> c" "c \<le> hi" using assms(3) C(1) by blast+
  then show "low \<le> p" using c(3) by simp
  show "p + n \<le> hi + 8"
  proof (cases "k = 0")
    case False
    then obtain N where "L (c + 8 + k) = Some N" using next_block [OF l C(1)] C(2) by blast
    then have "c + 8 + k \<le> hi" using assms(3) by blast
    then show ?thesis using c(4) by simp
  qed (use c(4) lc in simp)
  have "c mod 4 = 0" using layout_okD(3) [OF l C(1)] .
  then show "p mod 4 = 0" using c(5) by (auto simp: small_blks_def)
qed

section \<open>An example\<close>

definition heap0 :: mheap where
  "heap0 = \<lparr>hmem = (\<lambda>a. 0), hhead = zero_head, hpool = pool_zero, mblkpool_head = []\<rparr>"

lemma region_example: "region_ok 0x20000001 0x4000"
  by (simp add: region_ok_def span_def base_def)

text \<open>A heap with one free block of 3136 bytes and no pool, and one with a buffer in use.\<close>

lemma example_heap:
  obtains L F h x B where "mm_inv L F None {} h" "L x = Some B" "mfree B" "msz B = 3136"
proof -
  let ?r = "0x20000000 :: nat" and ?R = "3168 :: nat"
  obtain m where m: "init_mm_region (of_nat ?r) (of_nat ?R) (hmem heap0) = (of_nat ?r, m)" "k_size m (of_nat ?r) = of_nat 8"
    "k_size m (of_nat (?r + 16)) = of_nat (?R - 32)" "k_size m (of_nat (?r + ?R - 8)) = 2"
    by (rule init_mm_region_ok [of ?r ?R]) simp_all
  define h where "h = heap0\<lparr>hmem := m\<rparr>"
  have z: "same_lists (zero_head\<lparr>regioninfo := 0\<rparr>) (hhead h)" by (simp add: h_def heap0_def same_lists_def zero_head_def)
  have k: "k_size (hmem h) (of_nat ?r) = of_nat 8" "k_size (hmem h) (of_nat (?r + 16)) = of_nat (?R - 32)" "k_size (hmem h) (of_nat (?r + ?R - 8)) = 2"
    using m by (simp_all add: h_def)
  obtain m' hh' F' where f: "k_mm_free (of_nat (?r + 24)) h = Inr (h\<lparr>hmem := m', hhead := hh'\<rparr>)"
    "heap_rep (join (?r + 16) (?r + ?R - 8) True (fresh ?r ?R)) F' (h\<lparr>hmem := m', hhead := hh'\<rparr>)" "fixedmblk hh' = 0"
    by (rule release_fresh [OF _ _ _ _ _ _ k z]) simp_all
  then have "mm_inv (join (?r + 16) (?r + ?R - 8) True (fresh ?r ?R)) F' None {} (h\<lparr>hmem := m', hhead := hh'\<rparr>)" by (simp add: mm_inv_def fixed_ok_def)
  moreover have "join (?r + 16) (?r + ?R - 8) True (fresh ?r ?R) (?r + 16) = Some \<lparr>msz = 3136, mfree = True, mprev = None\<rparr>"
    by (simp add: join_apply fresh_def)
  ultimately show ?thesis using that by fastforce
qed

lemma example_buffer:
  obtains L F S h p k where "mm_inv L F None S h" "client L None S p = Some k" "100 \<le> k"
proof -
  obtain L F h x B where e: "mm_inv L F None {} h" "L x = Some B" "mfree B" "msz B = 3136" by (rule example_heap)
  have lg100: "round_up (ask 100) = 100" by (simp add: round_up_def ask_def)
  obtain r where r: "k_mm_alloc (of_nat 100) h = Inr r" "case r of (p, h') \<Rightarrow> if p = 0 then h' = h \<and> (\<forall>x B. L x = Some B \<and> mfree B \<longrightarrow> msz B < round_up (ask 100))
    else \<exists>a k L' F' S'. p = of_nat a \<and> a < 2 ^ 32 \<and> client L None {} a = None \<and> 100 \<le> k \<and> mm_inv L' F' None S' h' \<and>
      client L' None S' = (client L None {})(a \<mapsto> k) \<and> inside L L' \<and> keeps (client L None {}) (hmem h) (hmem h')"
    using k_mm_alloc_ok [OF e(1), of 100] unfolding ok_iff by auto
  obtain p h' where ph: "r = (p, h')" by fastforce
  have "p \<noteq> 0" using r(2) e lg100 unfolding ph by fastforce
  then obtain a k L' F' S' where "100 \<le> k" "mm_inv L' F' None S' h'" "client L' None S' = (client L None {})(a \<mapsto> k)"
    using r(2) unfolding ph by auto
  then show ?thesis using that by (metis fun_upd_same)
qed

section \<open>Theorems\<close>

text \<open>
  C4. A client of a freshly initialised heap that allocates, releases, resizes and writes only its own buffers never makes the
  heap fault; its buffers are aligned, lie inside of the region, do not overlap, and hold what the client has written there last, however the heap
  moves, joins and splits blocks in between.
\<close>

theorem heap_client_data:
  assumes "region_ok a n"
  shows "ok (bnd (k_mm_init [(of_nat a, of_nat n)] h) (\<lambda>g. heap_run mm_alloc mm_free mm_resize mm_put g [] ops)) (\<lambda>(g, own).
    (\<forall>x \<in> set own. base a \<le> optr x \<and> optr x + osize x \<le> base a + span a n \<and> optr x mod 4 = 0 \<and>
      (\<forall>j v. odata x j = Some v \<longrightarrow> mm_get g (optr x + j) = v)) \<and>
    (\<forall>i < length own. \<forall>j < i. bytes (optr (own ! i)) (osize (own ! i)) \<inter> bytes (optr (own ! j)) (osize (own ! j)) = {}))"
proof -
  define D where "D = {base a, base a + span a n - 8}"
  have r: "0 < a" "a + n + 64 \<le> 2 ^ 32" "5120 \<le> span a n" "span a n \<le> 2 ^ 20" using assms by (simp_all add: region_ok_def)
  have "ok (k_mm_init [(of_nat a, of_nat n)] h) (\<lambda>g. client_ok (mm_rep D) mm_get g [])"
  proof -
    have "client_ok (mm_rep D) mm_get (Some h') []" if "mm_inv L F po S h'" "dom L \<subseteq> {base a .. base a + span a n - 8}" for h' L F po S
      using that mm_repI [OF that(1) refl inside_sub [OF order_refl], of D] by (fastforce simp: client_ok_def D_def)
    then show ?thesis using krhino_init_mm_head_ok [OF r, of h] by (auto simp: k_mm_init_def elim!: ok_mono)
  qed
  then have run: "ok (bnd (k_mm_init [(of_nat a, of_nat n)] h) (\<lambda>g. heap_run mm_alloc mm_free mm_resize mm_put g [] ops))
      (\<lambda>(g, own). client_ok (mm_rep D) mm_get g own)" using mmh.heap_run_ok [of D] by (auto elim: ok_mono)
  show ?thesis
  proof (rule ok_mono [OF run], clarify, intro conjI)
    fix g own assume "client_ok (mm_rep D) mm_get g own"
    then obtain h L F po S where g: "g = Some h" "mm_inv L F po S h" "\<forall>a \<in> dom L. \<exists>c \<in> D. \<exists>d \<in> D. c \<le> a \<and> a \<le> d" "distinct (map optr own)"
      "\<forall>x \<in> set own. good mm_get (client L po S) g x" unfolding client_ok_def mm_rep_def by blast
    have b: "\<forall>x \<in> dom L. base a \<le> x \<and> x \<le> base a + span a n - 8"
    proof
      fix x assume "x \<in> dom L"
      then obtain c d where "c \<in> D" "d \<in> D" "c \<le> x" "x \<le> d" using g(3) by blast
      then show "base a \<le> x \<and> x \<le> base a + span a n - 8" using r(3) by (auto simp: D_def)
    qed
    show "\<forall>x \<in> set own. base a \<le> optr x \<and> optr x + osize x \<le> base a + span a n \<and> optr x mod 4 = 0 \<and>
        (\<forall>j v. odata x j = Some v \<longrightarrow> mm_get g (optr x + j) = v)"
    proof
      fix x assume "x \<in> set own"
      then have x: "good mm_get (client L po S) g x" using g(5) by blast
      then obtain k where k: "osize x \<le> k" "client L po S (optr x) = Some k" by (auto simp: good_def)
      show "base a \<le> optr x \<and> optr x + osize x \<le> base a + span a n \<and> optr x mod 4 = 0 \<and> (\<forall>j v. odata x j = Some v \<longrightarrow> mm_get g (optr x + j) = v)"
        using client_range [OF g(2) k(2) b] k(1) r(3) x by (simp add: good_def)
    qed
    show "\<forall>i < length own. \<forall>j < i. bytes (optr (own ! i)) (osize (own ! i)) \<inter> bytes (optr (own ! j)) (osize (own ! j)) = {}"
    proof (intro allI impI)
      fix i j assume ij: "i < length own" "j < i"
      have gd: "good mm_get (client L po S) g (own ! i)" "good mm_get (client L po S) g (own ! j)" using g(5) ij by auto
      have ne: "optr (own ! i) \<noteq> optr (own ! j)" using g(4) ij nth_eq_iff_index_eq [of "map optr own" i j] by simp
      obtain k l where k: "osize (own ! i) \<le> k" "client L po S (optr (own ! i)) = Some k" "osize (own ! j) \<le> l" "client L po S (optr (own ! j)) = Some l"
        using gd unfolding good_def by blast
      have "bytes p x \<subseteq> bytes p y" if "x \<le> y" for p x y using that by (auto simp: bytes_def)
      then show "bytes (optr (own ! i)) (osize (own ! i)) \<inter> bytes (optr (own ! j)) (osize (own ! j)) = {}"
        using client_disjoint [OF g(2) k(2,4) ne] k(1,3) by blast
    qed
  qed
qed

theorem heap_client_data_witness:
  "ok (bnd (k_mm_init [(0x20000001, 0x4000)] heap0) (\<lambda>g. heap_run mm_alloc mm_free mm_resize mm_put g []
      [HAlloc 100, HAlloc 8, HWrite 0 4 7, HResize 0 300, HFree 1]))
    (\<lambda>(g, own). \<forall>x \<in> set own. optr x mod 4 = 0 \<and> optr x + osize x \<le> 0x20004000)"
  using heap_client_data [OF region_example, of heap0 "[HAlloc 100, HAlloc 8, HWrite 0 4 7, HResize 0 300, HFree 1]"]
  by (auto simp: base_def span_def elim!: ok_mono)

text \<open>
  C10. Allocation of 2 to \<open>0xFC000000\<close> bytes hands out a buffer of at least that size that was not handed out before, small
  requests from the pool as long as it has blocks, and leaves all other buffers and their contents as they were. It returns NULL, and changes nothing, only if
  no free block has the request rounded up to a size class.
\<close>

theorem heap_alloc_refines:
  assumes "mm_inv L F po S h" "2 \<le> n" "n \<le> 0xFC000000"
  shows "ok (k_mm_alloc (of_nat n) h) (\<lambda>(p, h').
    if p = 0 then h' = h \<and> (\<forall>x B. L x = Some B \<and> mfree B \<longrightarrow> msz B < round_up (ask n))
    else \<exists>a k L' F' S'. p = of_nat a \<and> a < 2 ^ 32 \<and> client L po S a = None \<and> n \<le> k \<and> mm_inv L' F' po S' h' \<and>
      client L' po S' = (client L po S)(a \<mapsto> k) \<and> inside L L' \<and> keeps (client L po S) (hmem h) (hmem h'))"
  by (rule k_mm_alloc_ok [OF assms])

theorem heap_alloc_refines_witness:
  "\<exists>L F h. mm_inv L F None {} h \<and> ok (k_mm_alloc (of_nat 100) h) (\<lambda>(p, h'). p \<noteq> 0)"
proof -
  obtain L F h x B where e: "mm_inv L F None {} h" "L x = Some B" "mfree B" "msz B = 3136" by (rule example_heap)
  have r: "round_up (ask 100) = 100" by (simp add: round_up_def ask_def)
  have "ok (k_mm_alloc (of_nat 100) h) (\<lambda>(p, h'). p \<noteq> 0)"
    by (rule ok_mono [OF heap_alloc_refines [OF e(1), of 100]]) (use e r in \<open>fastforce split: if_splits\<close>)+
  then show ?thesis using e(1) by blast
qed

text \<open>
  C12. Releasing a buffer that was handed out succeeds, takes exactly this buffer back, whether it is a small block or a block of the heap that
  is joined with its free neighbours, and leaves all other buffers and their contents as they were.
\<close>

theorem heap_free_refines:
  assumes "mm_inv L F po S h" "client L po S p = Some n" "n \<noteq> 0"
  shows "ok (k_mm_free (of_nat p) h) (\<lambda>h'. \<exists>L' F' S'. mm_inv L' F' po S' h' \<and>
    client L' po S' = (client L po S)(p := None) \<and> inside L L' \<and> keeps ((client L po S)(p := None)) (hmem h) (hmem h'))"
  by (rule k_mm_free_ok [OF assms])

theorem heap_free_refines_witness:
  "\<exists>L F S h p. mm_inv L F None S h \<and> client L None S p \<noteq> None \<and>
    ok (k_mm_free (of_nat p) h) (\<lambda>h'. \<exists>L' F' S'. mm_inv L' F' None S' h' \<and> client L' None S' p = None)"
proof -
  obtain L F S h p k where e: "mm_inv L F None S h" "client L None S p = Some k" "100 \<le> k" by (rule example_buffer)
  have "ok (k_mm_free (of_nat p) h) (\<lambda>h'. \<exists>L' F' S'. mm_inv L' F' None S' h' \<and> client L' None S' p = None)"
    by (rule ok_mono [OF heap_free_refines [OF e(1,2)]]) (use e(3) in \<open>auto, metis fun_upd_same\<close>)
  then show ?thesis using e by blast
qed

text \<open>
  C13. Changing the size of a buffer to 2 to \<open>0xFC000000\<close> bytes gives, in the same place, with the free block behind it or elsewhere, a
  buffer of at least that size that begins with the contents of the old one, takes the old one back, and leaves all others as they were; or it returns
  NULL and changes nothing.
\<close>

theorem heap_realloc_refines:
  assumes "mm_inv L F po S h" "client L po S p = Some n" "n \<noteq> 0" "2 \<le> s" "s \<le> 0xFC000000"
  shows "ok (k_mm_realloc (of_nat p) (of_nat s) h) (\<lambda>(r, h').
    if r = 0 then h' = h
    else \<exists>a k L' F' S'. r = of_nat a \<and> a < 2 ^ 32 \<and> s \<le> k \<and> (a = p \<or> client L po S a = None) \<and> mm_inv L' F' po S' h' \<and>
      client L' po S' = (client L po S)(p := None, a \<mapsto> k) \<and> inside L L' \<and> keeps ((client L po S)(p := None)) (hmem h) (hmem h') \<and>
      (\<forall>i < min n s. hmem h' (of_nat (a + i)) = hmem h (of_nat (p + i))))"
  using k_mm_realloc_ok [OF assms] unfolding reallocated_def .

theorem heap_realloc_refines_witness:
  "\<exists>L F S h p k. mm_inv L F None S h \<and> client L None S p = Some k \<and> 100 \<le> k \<and>
    ok (k_mm_realloc (of_nat p) (of_nat 200) h) (\<lambda>(r, h'). r = 0 \<longrightarrow> h' = h)"
proof -
  obtain L F S h p k where e: "mm_inv L F None S h" "client L None S p = Some k" "100 \<le> k" by (rule example_buffer)
  have "ok (k_mm_realloc (of_nat p) (of_nat 200) h) (\<lambda>(r, h'). r = 0 \<longrightarrow> h' = h)"
    by (rule ok_mono [OF heap_realloc_refines [OF e(1,2), of 200]]) (use e(3) in \<open>auto split: if_splits\<close>)
  then show ?thesis using e by blast
qed

text \<open>
  C14. Initialising the heap on a region of a size it accepts succeeds, places the head at the aligned start, and leaves a heap inside of the region from
  which nothing is handed out but the information block and the sentinel of the region; the pool of small blocks is set up if it fits.
\<close>

theorem heap_init_establishes:
  assumes "region_ok a n"
  shows "ok (krhino_init_mm_head False (of_nat a) (of_nat n) h) (\<lambda>(st, hd, h'). st = RHINO_SUCCESS \<and> hd = Some (of_nat (base a)) \<and>
    (\<exists>L F po S. mm_inv L F po S h' \<and> client L po S = [base a + 1960 \<mapsto> 8, base a + span a n \<mapsto> 0] \<and>
      dom L \<subseteq> {base a .. base a + span a n - 8}))"
  using assms by (intro krhino_init_mm_head_ok) (simp_all add: region_ok_def)

theorem heap_init_establishes_witness:
  "ok (krhino_init_mm_head False 0x20000001 0x4000 heap0) (\<lambda>(st, hd, h'). st = RHINO_SUCCESS \<and> hd = Some 0x20000004)"
  using heap_init_establishes [OF region_example, of heap0] by (auto simp: base_def elim!: ok_mono)

text \<open>
  C35. The two-level search: every block in the class that is searched for a request, or in a later one, is large enough for the request, and a block with a
  32nd of the request to spare is always in such a class.
\<close>

theorem bitmap_search_good_fit:
  assumes "n mod 4 = 0" "n \<le> 0xFC000000" "m < 2 ^ 20"
  shows "\<exists>st c d. bitmap_search (of_nat n) ACTION_GET = Inr (st, c) \<and> bitmap_search (of_nat m) ACTION_INSERT = Inr (RHINO_SUCCESS, d) \<and>
    fst d < FLT_SIZE \<and> snd d < SLT_SIZE \<and> (cls_le c d \<longrightarrow> n \<le> m) \<and> (n + n div 32 \<le> m \<longrightarrow> cls_le c d)"
proof -
  have r: "round_up n < 2 ^ 32" using round_up_small [OF assms(2)] .
  have m32: "m < 2 ^ 32" using assms(3) by simp
  obtain fl sl where c: "cls (round_up n) = (fl, sl)" by fastforce
  obtain i j where d: "cls m = (i, j)" "i < 14" "j < 32" using cls_in_tbl [OF assms(3)] .
  have s32: "sl < 32" using snd_cls_less [OF r] c by simp
  have "n \<le> m" if "cls_le (fl, sl) (i, j)"
    using round_up_fits [OF assms(1) r c] lo_mono [OF that s32] lo_cls [OF m32] d(1) by simp
  moreover have "cls_le (fl, sl) (i, j)" if "n + n div 32 \<le> m"
  proof -
    have "round_up n \<le> n + n div 32"
    proof (cases "n < 128")
      case False
      have l: "2 ^ lg n \<le> n" "7 \<le> lg n" using lg_bounds(1) [of n] lg_ge [of n] False assms(2) by auto
      then have "(2::nat) ^ (lg n - 5) * 32 = 2 ^ lg n" using power_add [of "2::nat" "lg n - 5" 5] by simp
      then have "2 ^ (lg n - 5) \<le> n div 32" using l(1) by simp
      then show ?thesis using False by (simp add: round_up_def)
    qed (simp add: round_up_def)
    then show ?thesis using cls_mono [of "round_up n" m] that m32 c d(1) by simp
  qed
  ultimately show ?thesis using bitmap_search_get [OF r] bitmap_search_insert [OF assms(3)] c d by (simp add: FLT_SIZE_def SLT_SIZE_def)
qed

theorem bitmap_search_good_fit_witness:
  "\<exists>st c d. bitmap_search (of_nat 200) ACTION_GET = Inr (st, c) \<and> bitmap_search (of_nat 208) ACTION_INSERT = Inr (RHINO_SUCCESS, d) \<and> cls_le c d"
  using bitmap_search_good_fit [of 200 208] by auto

text \<open>
  A request of one of the last three sizes below \<open>2 ^ 32\<close> wraps around to zero when it is aligned: the heap hands out a buffer of less than 24 bytes for
  it, instead of refusing it.
\<close>

theorem heap_alloc_wraps:
  assumes "mm_inv L F po S h" "2 ^ 32 - 3 \<le> n" "n < 2 ^ 32" "L x = Some B" "mfree B"
  shows "ok (k_mm_alloc (of_nat n) h) (\<lambda>(p, h'). p \<noteq> 0 \<and>
    (\<exists>a k L' F'. p = of_nat a \<and> k < 24 \<and> mm_inv L' F' po S h' \<and> client L' po S = (client L po S)(a \<mapsto> k)))"
proof -
  have l: "layout_ok L" "heap_rep L F h" using assms(1) by (simp_all add: mm_inv_def heap_rep_def)
  have "n = 4294967293 \<or> n = 4294967294 \<or> n = 4294967295" using assms(2,3) by auto
  then have w: "MM_ALIGN_UP (of_nat n) = 0" "\<not> (of_nat n :: 32 word) \<le> 32" "of_nat n \<noteq> (0 :: 32 word)" by (auto simp: MM_ALIGN_UP_def MM_ALIGN_MASK_def)
  then have sz: "(let sz = MM_ALIGN_UP (of_nat n) in if sz < AOS_MM_TLF_ALLOC_MIN_LENGTH then AOS_MM_TLF_ALLOC_MIN_LENGTH else sz) = of_nat 8"
    by (simp add: AOS_MM_TLF_ALLOC_MIN_LENGTH_def)
  have e: "k_mm_alloc (of_nat n) h = k_mm_alloc_blk (of_nat n) h" using w(2,3) by (simp add: k_mm_alloc_def DEF_FIX_BLK_SIZE_def)
  have "ok (k_mm_alloc_blk (of_nat n) h) (\<lambda>(p, h'). alloc_result L h 8 p h')"
    using assms(2,3) by (intro k_mm_alloc_blk_asked [OF l(2) sz]) (auto simp: round_up_def)
  moreover have "p \<noteq> 0 \<and> (\<exists>a k L' F'. p = of_nat a \<and> k < 24 \<and> mm_inv L' F' po S h' \<and> client L' po S = (client L po S)(a \<mapsto> k))"
    if r: "alloc_result L h 8 p h'" for p h'
  proof -
    have p0: "p \<noteq> 0" using r assms(4,5) free_block(1) [OF l(1) assms(4,5)] by (fastforce simp: alloc_result_def round_up_def)
    then show ?thesis using alloc_result_client [OF assms(1) r] by auto
  qed
  ultimately show ?thesis unfolding e by (auto elim!: ok_mono)
qed

theorem heap_alloc_wraps_witness:
  "\<exists>L F h. mm_inv L F None {} h \<and> ok (k_mm_alloc 0xFFFFFFFF h) (\<lambda>(p, h'). p \<noteq> 0)"
proof -
  obtain L F h x B where e: "mm_inv L F None {} h" "L x = Some B" "mfree B" "msz B = 3136" by (rule example_heap)
  have "ok (k_mm_alloc (of_nat 0xFFFFFFFF) h) (\<lambda>(p, h'). p \<noteq> 0)"
    by (rule ok_mono [OF heap_alloc_wraps [OF e(1) _ _ e(2,3)]]) auto
  then show ?thesis using e(1) by auto
qed

text \<open>
  C40. A request of one byte makes the statistics look for the highest bit of zero, and the search for a set bit runs past the word it was given.
\<close>

theorem heap_alloc_one_byte:
  assumes "mm_inv L F po S h" "L x = Some B" "mfree B"
  shows "k_mm_alloc 1 h = Inl BadAccess"
proof -
  have l: "layout_ok L" "heap_rep L F h" "fixed_ok L po S h" using assms(1) by (simp_all add: mm_inv_def heap_rep_def)
  have a: "addsize z 1 hh = Inl BadAccess" for z hh by (simp add: addsize_def sizetoindex_def Let_def)
  show ?thesis
  proof (cases "fixedmblk (hhead h) \<noteq> 0 \<and> 0 < blk_avail (hpool h)")
    case True
    then obtain q where q: "small_rep q S (hmem h) (hpool h)" using l(3) by (auto simp: fixed_ok_def split: option.splits)
    obtain b p' where "krhino_mblk_alloc (hmem h) (Some (hpool h)) False = (RHINO_SUCCESS, Some (of_nat b), Some p')"
      using small_head [OF q] True by blast
    then show ?thesis using True a by (simp add: k_mm_alloc_def k_mm_smallblk_alloc_def DEF_FIX_BLK_SIZE_def)
  next
    case False
    have w: "(let sz = MM_ALIGN_UP 1 in if sz < AOS_MM_TLF_ALLOC_MIN_LENGTH then AOS_MM_TLF_ALLOC_MIN_LENGTH else sz) = of_nat 8"
      by (simp add: MM_ALIGN_UP_def MM_ALIGN_MASK_def AOS_MM_TLF_ALLOC_MIN_LENGTH_def)
    have "k_mm_alloc_blk 1 h = Inl BadAccess"
    proof (cases rule: k_mm_alloc_blk_cases [OF l(2) w, case_names _ _ _ none found])
      case none
      then show ?thesis using assms(2,3) free_block(1) [OF l(1) assms(2,3)] by (fastforce simp: round_up_def)
    next
      case (found x B m' hh' F')
      then show ?thesis using a by simp
    qed (simp_all add: round_up_def)
    then show ?thesis using False by (auto simp: k_mm_alloc_def)
  qed
qed

theorem heap_alloc_one_byte_witness: "\<exists>L F h. mm_inv L F None {} h \<and> k_mm_alloc 1 h = Inl BadAccess"
proof -
  obtain L F h x B where e: "mm_inv L F None {} h" "L x = Some B" "mfree B" "msz B = 3136" by (rule example_heap)
  show ?thesis using heap_alloc_one_byte [OF e(1-3)] e(1) by blast
qed

end
