(* ===== verification/Boot.thy ===== *)
theory Boot
  imports Calls Heap
begin

text \<open>
  From reset to the first task: \<^verbatim>\<open>krhino_init\<close> sets up the heap on the memory between the linker's
  symbols, creates the kernel's own objects and tasks, and \<^verbatim>\<open>krhino_start\<close> runs the best of them in a
  state that satisfies the kernel invariant, so everything proved of the running kernel and of its heap
  holds from there on.
\<close>

section \<open>Definitions\<close>

text \<open>The object lists; the list of memory pools is kept with the heap.\<close>

definition kobj_list_init :: "kstate \<Rightarrow> mheap \<Rightarrow> kstate \<times> mheap" where
  "kobj_list_init s h =
     (s\<lparr>g_kobj_list := \<lparr>task_head = [], mutex_head = [], sem_head = [], queue_head = [], event_head = [],
        buf_queue_head = []\<rparr>\<rparr>, h\<lparr>mblkpool_head := []\<rparr>)"

text \<open>The regions of the heap (start and length) as they are linked, and the hook that fills in the length.\<close>

definition g_mm_region :: "boot_env \<Rightarrow> (32 word \<times> 32 word) list" where
  "g_mm_region e = [(heap_start e, 0)]"

definition krhino_init_hook :: "boot_env \<Rightarrow> (32 word \<times> 32 word) list \<Rightarrow> (32 word \<times> 32 word) list" where
  "krhino_init_hook e regions = regions[0 := (fst (regions ! 0), heap_end e - heap_start e)]"

text \<open>\<open>h\<close> is the memory of the heap before the start; the last component of the result is the heap at \<open>g_kmm_head\<close>.\<close>

definition krhino_init :: "boot_env \<Rightarrow> tstate \<Rightarrow> mheap \<Rightarrow> (kstat \<times> tstate \<times> mheap option) outcome" where
  "krhino_init e x h =
     (let s = (kern x)\<lparr>g_sys_stat := RHINO_STOPPED\<rparr>;
          regions = krhino_init_hook e (g_mm_region e);
          s = s\<lparr>g_ready_queue := runqueue_init (g_ready_queue s)\<rparr>;
          s = tick_list_init s;
          (s, h) = kobj_list_init s h
      in bnd (k_mm_init regions h) (\<lambda>g.
         let s = s\<lparr>g_res_list := []\<rparr>;
             s = snd (krhino_sem_create (Some g_res_sem) (Some ''res_sem'') 0 s)
         in bnd (dyn_mem_proc_task_start e s) (\<lambda>s.
            bnd (krhino_task_create (Some g_idle_task) (Some ''idle_task'') RHINO_IDLE_PRI 0
                   (Some (idle_stack e)) (idle_stack_size e) False True s) (\<lambda>(r, s).
            bnd (ktimer_init e (x\<lparr>kern := s\<rparr>)) (\<lambda>x.
            bnd (cpu_usage_stats_start e (kern x)) (\<lambda>s.
              Inr (RHINO_SUCCESS, x\<lparr>kern := s\<rparr>, g)))))))"

section \<open>The state before the start\<close>

text \<open>The static memory of the kernel as the C start-up code leaves it.\<close>

definition at_reset :: "kstate \<Rightarrow> bool" where
  "at_reset s \<longleftrightarrow> (\<forall>p. cur_list_item (g_ready_queue s) p = []) \<and> task_bit_map (g_ready_queue s) = [0, 0] \<and>
     g_idle_task_spawned s = 0 \<and> g_sched_lock s = 0 \<and> g_intrpt_nested_level s = 0 \<and>
     (\<forall>b. bl s b = [] \<and> ty s b = RHINO_OBJ_TYPE_NONE)"

text \<open>While the system is stopped all tasks are ready and nobody waits for anything.\<close>

definition boot_inv :: "kstate \<Rightarrow> bool" where
  "boot_inv s \<longleftrightarrow> g_sys_stat s = RHINO_STOPPED \<and> g_sched_lock s = 0 \<and> g_intrpt_nested_level s = 0 \<and> g_tick_head s = [] \<and>
     rq_inv (g_ready_queue s) \<and> distinct (task_head (g_kobj_list s)) \<and>
     (\<forall>p t. t \<in> set (cur_list_item (g_ready_queue s) p) \<longleftrightarrow> t \<in> live s \<and> pri s t = p) \<and>
     (\<forall>t \<in> live s. st s t = K_RDY \<and> pri s t < 62 \<and> b_prio (tasks s t) < 62 \<and> held s t = [] \<and> \<not> tkh s t) \<and>
     (\<forall>b. bl s b = [] \<and> ty s b \<noteq> RHINO_MUTEX_OBJ_TYPE)"

lemma boot_create:
  assumes b: "boot_inv s" and t: "t \<notin> live s" and p: "p < 62" "sz \<noteq> 0" "p = 61 \<Longrightarrow> g_idle_task_spawned s = 0"
  shows "ok (krhino_task_create (Some t) (Some name) p n (Some sb) sz False True s) (\<lambda>(e, s'). e = RHINO_SUCCESS \<and> boot_inv s' \<and>
    live s' = insert t (live s) \<and> pri s' = (pri s)(t := p) \<and> (p \<noteq> 61 \<longrightarrow> g_idle_task_spawned s' = g_idle_task_spawned s))"
proof -
  define s0 where "s0 = (if p = RHINO_IDLE_PRI then s\<lparr>g_idle_task_spawned := 1\<rparr> else s)"
  define k where "k = new_task (Some name) p n sb sz True K_OBJ_STATIC_ALLOC"
  note kf = new_task_fields [of "Some name" p n sb sz True K_OBJ_STATIC_ALLOC, folded k_def]
  have v: "st s0 = st s" "pri s0 = pri s" "held s0 = held s" "tkh s0 = tkh s" "bl s0 = bl s" "ty s0 = ty s" "live s0 = live s"
    "tasks s0 = tasks s" "g_ready_queue s0 = g_ready_queue s" "g_tick_head s0 = g_tick_head s" "g_sys_stat s0 = g_sys_stat s"
    "g_sched_lock s0 = g_sched_lock s" "g_intrpt_nested_level s0 = g_intrpt_nested_level s"
    by (simp_all add: s0_def view_defs live_def fun_eq_iff)
  have d: "g_sys_stat s = RHINO_STOPPED" "g_intrpt_nested_level s = 0" "rq_inv (g_ready_queue s)"
    "\<And>p t. t \<in> set (cur_list_item (g_ready_queue s) p) \<longleftrightarrow> t \<in> live s \<and> pri s t = p"
    using b by (simp_all add: boot_inv_def)
  obtain q where q: "ready_list_add_tail_rq (g_ready_queue s) t p = Inr q" "rq_inv q"
    "cur_list_item q = (cur_list_item (g_ready_queue s))(p := cur_list_item (g_ready_queue s) p @ [t])"
    using rq.add_tail [OF d(3), of p t] p(1) t d(4) by (auto simp: ok_iff)
  let ?s = "(task_added t k s0)\<lparr>g_ready_queue := q\<rparr>"
  have "ready_list_add_tail t (task_added t k s0) = Inr ?s"
    using q(1) by (simp add: ready_list_add_tail_def with_rq_def kf v)
  then have e: "krhino_task_create (Some t) (Some name) p n (Some sb) sz False True s = Inr (RHINO_SUCCESS, ?s)"
    unfolding krhino_task_create_def using p d
    by (subst task_create_eq; simp only: Let_def s0_def [symmetric] k_def [symmetric]) (simp_all add: v)
  have "g_idle_task_spawned ?s = g_idle_task_spawned s" if "p \<noteq> 61"
    using that by (simp add: s0_def task_added_def upd_kobj_def upd_task_def)
  moreover have "task_head (g_kobj_list ?s) = task_head (g_kobj_list s) @ [t]"
    by (simp add: s0_def task_added_def upd_kobj_def upd_task_def)
  then have "boot_inv ?s" using b t p(1) q(2,3) kf by (auto simp: boot_inv_def v live_def [of s])
  ultimately show ?thesis by (simp add: e v kf)
qed

text \<open>Creating a semaphore or a queue only gives a block object its type.\<close>

lemma boot_obj:
  assumes "boot_inv s" "same_sched (s\<lparr>blks := (blks s)(b := (blks s b)\<lparr>obj_type := x, blk_policy := y\<rparr>)\<rparr>) s'"
    "x \<noteq> RHINO_MUTEX_OBJ_TYPE" "g_sys_stat s' = g_sys_stat s"
  shows "boot_inv s'" "live s' = live s" "pri s' = pri s"
proof -
  let ?s = "s\<lparr>blks := (blks s)(b := (blks s b)\<lparr>obj_type := x, blk_policy := y\<rparr>)\<rparr>"
  have v: "st ?s = st s" "pri ?s = pri s" "held ?s = held s" "tkh ?s = tkh s" "bl ?s = bl s" "ty ?s = (ty s)(b := x)" "tasks ?s = tasks s"
    by (simp_all add: view_defs fun_eq_iff)
  show "live s' = live s" "pri s' = pri s" using assms(2) by (simp_all add: same_sched_def v live_def)
  then show "boot_inv s'" using assms by (simp add: boot_inv_def same_sched_def v)
qed

section \<open>Start\<close>

lemma boot_ready:
  assumes "boot_inv s" "g_idle_task \<in> live s" "pri s g_idle_task = 61"
  shows "ok (krhino_start s) (\<lambda>(r, s'). r = Pending \<and> kernel_inv s' \<and> no_deadlock s' \<and> g_sys_stat s' = RHINO_RUNNING \<and>
    live s' = live s \<and> pri s' = pri s \<and> st s' = st s \<and> distinct (task_head (g_kobj_list s')) \<and>
    (\<exists>a. g_active_task s' = Some a \<and> best_ready (live s) s' a))"
proof -
  have k: "kinv (live s) s"
    using assms by (auto simp: boot_inv_def kinv_def core_inv_def)
  obtain t where t: "preferred_of (g_ready_queue s) = Inr t" "best_ready (live s) s t" using preferred_ok [OF k] by blast
  let ?s = "s\<lparr>g_preferred_ready_task := Some t, g_active_task := Some t, g_sys_stat := RHINO_RUNNING\<rparr>"
  have v: "st ?s = st s" "pri ?s = pri s" "bo ?s = bo s" "held ?s = held s" "tkh ?s = tkh s" "tkm ?s = tkm s" "bl ?s = bl s"
    "pol ?s = pol s" "ty ?s = ty s" "own ?s = own s" "live ?s = live s" "rem ?s = rem s"
    by (simp_all add: view_defs live_def rem_def fun_eq_iff)
  have b: "best_ready (live s) ?s t" using t(2) by (simp add: best_ready_def v)
  have "mutex_ok (live s) ?s" using assms(1) by (auto simp: boot_inv_def mutex_ok_def v)
  moreover have "tick_ok (live s) ?s" "inherit_ok ?s" "none_due ?s"
    using assms(1) by (auto simp: boot_inv_def tick_ok_def inherit_ok_def none_due_def waiting_state_def v)
  moreover have "active_ok (live s) ?s" using t(2) by (auto simp: active_ok_def best_ready_def v)
  ultimately have "kernel_inv ?s" using k by (simp add: kernel_inv_def struct_inv_def v kinv_def)
  moreover have "wait_rel ?s = {}" using assms(1) by (auto simp: wait_rel_def boot_inv_def v)
  then have "no_deadlock ?s" by (simp add: no_deadlock_def acyclic_def)
  ultimately show ?thesis
    using assms(1) t(1) b by (simp add: krhino_start_def preferred_cpu_ready_task_get_def boot_inv_def v)
qed

section \<open>Initialisation\<close>

lemma boot_sem:
  assumes "boot_inv s"
  shows "boot_inv (snd (krhino_sem_create (Some b) (Some name) n s))" "live (snd (krhino_sem_create (Some b) (Some name) n s)) = live s"
    "g_idle_task_spawned (snd (krhino_sem_create (Some b) (Some name) n s)) = g_idle_task_spawned s"
proof -
  let ?s = "snd (krhino_sem_create (Some b) (Some name) n s)"
  have e: "bl s b = []" using assms by (simp add: boot_inv_def)
  have "same_sched (s\<lparr>blks := (blks s)(b := (blks s b)\<lparr>obj_type := RHINO_SEM_OBJ_TYPE, blk_policy := BLK_POLICY_PRI\<rparr>)\<rparr>) ?s"
    using e by (auto simp: krhino_sem_create_def sem_create_def Let_def same_sched_def upd_sem_def upd_blk_def upd_kobj_def
        view_defs fun_eq_iff)
  moreover have "g_sys_stat ?s = g_sys_stat s" "g_idle_task_spawned ?s = g_idle_task_spawned s"
    by (simp_all add: krhino_sem_create_def sem_create_def Let_def upd_sem_def upd_blk_def upd_kobj_def)
  ultimately show "boot_inv ?s" "live ?s = live s" "g_idle_task_spawned ?s = g_idle_task_spawned s"
    using boot_obj [OF assms] by auto
qed

lemma boot_queue:
  assumes "boot_inv s"
  shows "boot_inv (snd (krhino_fix_buf_queue_create (Some b) (Some name) (Some buf) m n s)) \<and>
    live (snd (krhino_fix_buf_queue_create (Some b) (Some name) (Some buf) m n s)) = live s \<and>
    pri (snd (krhino_fix_buf_queue_create (Some b) (Some name) (Some buf) m n s)) = pri s"
proof (cases "m = 0 \<or> (m * n) mod 2 ^ 32 = 0")
  case True
  then show ?thesis using assms by (auto simp: krhino_fix_buf_queue_create_def buf_queue_create_def)
next
  case False
  let ?s = "snd (krhino_fix_buf_queue_create (Some b) (Some name) (Some buf) m n s)"
  have e: "bl s b = []" using assms by (simp add: boot_inv_def)
  have "same_sched (s\<lparr>blks := (blks s)(b := (blks s b)\<lparr>obj_type := RHINO_BUF_QUEUE_OBJ_TYPE, blk_policy := BLK_POLICY_PRI\<rparr>)\<rparr>) ?s"
    using e False by (auto simp: krhino_fix_buf_queue_create_def buf_queue_create_def Let_def same_sched_def upd_bq_def upd_blk_def
        upd_kobj_def view_defs fun_eq_iff)
  moreover have "g_sys_stat ?s = g_sys_stat s"
    using False by (simp add: krhino_fix_buf_queue_create_def buf_queue_create_def Let_def upd_bq_def upd_blk_def upd_kobj_def)
  ultimately show ?thesis using boot_obj [OF assms] by auto
qed

text \<open>The lists of ready tasks, of waiting tasks and of objects are emptied first.\<close>

lemma boot_clear:
  assumes "at_reset s"
  shows "boot_inv ((fst (kobj_list_init (tick_list_init (s\<lparr>g_sys_stat := RHINO_STOPPED, g_ready_queue := runqueue_init (g_ready_queue s)\<rparr>)) h))\<lparr>g_res_list := []\<rparr>)"
    (is "boot_inv ?s")
proof -
  have v: "bl ?s = bl s" "ty ?s = ty s" "live ?s = {}"
    by (simp_all add: kobj_list_init_def tick_list_init_def view_defs live_def fun_eq_iff)
  have "\<not> bitmap_test [0, 0 :: 32 word] p" for p by (auto simp: bitmap_test_def nth_Cons split: nat.split)
  then have "rq_inv (runqueue_init (g_ready_queue s))"
    using assms by (simp add: at_reset_def rq_inv_def runqueue_init_def)
  moreover have "cur_list_item (runqueue_init (g_ready_queue s)) p = []" for p
    using assms by (simp add: at_reset_def runqueue_init_def)
  ultimately show ?thesis
    using assms unfolding boot_inv_def v by (simp add: at_reset_def kobj_list_init_def tick_list_init_def)
qed

text \<open>A memory and a set of stacks to start with.\<close>

definition ex_reset :: tstate where
  "ex_reset = \<lparr>kern = ex_state\<lparr>g_ready_queue := \<lparr>cur_list_item = (\<lambda>_. []), task_bit_map = [0, 0], highest_pri = 0\<rparr>,
       g_idle_task_spawned := 0, blks := (\<lambda>_. ex_blk RHINO_OBJ_TYPE_NONE [])\<rparr>,
     g_timer_head = [], g_timer_count = 0,
     timers = (\<lambda>_. \<lparr>to_head = False, tm_name = None, tm_cb = 0, timer_cb_arg = 0, tm_match = 0, tm_remain = 0, init_count = 0,
       round_ticks = 0, tm_obj_type = RHINO_OBJ_TYPE_NONE, tm_state = TIMER_DEACTIVE, tm_alloc_flag = 0\<rparr>)\<rparr>"

definition ex_env :: boot_env where
  "ex_env = \<lparr>dyn_stack = 4096, dyn_stack_size = 256, idle_stack = 8192, idle_stack_size = 200, timer_stack = 12288,
     timer_stack_size = 300, cpu_usage_stack = 16384, cpu_usage_stack_size = 200, timer_queue_buf = 20480, timer_cb_size = 32,
     timer_msg_num = 20, heap_start = 0x20000001, heap_end = 0x20004001\<rparr>"

lemma ex_reset_ok: "at_reset (kern ex_reset)"
  by (simp add: at_reset_def ex_reset_def bl_def ty_def ex_blk_def)

definition stacks_ok :: "boot_env \<Rightarrow> bool" where
  "stacks_ok e \<longleftrightarrow> dyn_stack_size e \<noteq> 0 \<and> idle_stack_size e \<noteq> 0 \<and> timer_stack_size e \<noteq> 0 \<and> cpu_usage_stack_size e \<noteq> 0"

text \<open>The memory between the linker's symbols is one the heap accepts.\<close>

definition heap_space_ok :: "boot_env \<Rightarrow> bool" where
  "heap_space_ok e \<longleftrightarrow> region_ok (unat (heap_start e)) (unat (heap_end e - heap_start e))"

lemma ex_env_ok: "stacks_ok ex_env" "heap_space_ok ex_env"
  using region_example by (simp_all add: stacks_ok_def heap_space_ok_def ex_env_def)

text \<open>The heap as it is handed over: in order, with nothing handed out but the bookkeeping of the region.\<close>

definition heap_ready :: "boot_env \<Rightarrow> mheap option \<Rightarrow> bool" where
  "heap_ready e g \<longleftrightarrow> (let a = unat (heap_start e); n = unat (heap_end e - heap_start e)
     in \<exists>h L F po S. g = Some h \<and> mm_inv L F po S h \<and> client L po S = [base a + 1960 \<mapsto> 8, base a + span a n \<mapsto> 0] \<and>
        dom L \<subseteq> {base a .. base a + span a n - 8})"

lemma init_heap:
  assumes "heap_space_ok e"
  shows "ok (k_mm_init (krhino_init_hook e (g_mm_region e)) h) (heap_ready e)"
proof -
  let ?a = "unat (heap_start e)" and ?n = "unat (heap_end e - heap_start e)"
  have r: "0 < ?a" "?a + ?n + 64 \<le> 2 ^ 32" "5120 \<le> span ?a ?n" "span ?a ?n \<le> 2 ^ 20"
    using assms by (simp_all add: heap_space_ok_def region_ok_def)
  show ?thesis
    using krhino_init_mm_head_ok [OF r, of h]
    by (auto simp: k_mm_init_def krhino_init_hook_def g_mm_region_def heap_ready_def Let_def elim!: ok_mono) blast
qed

lemma init_ok:
  assumes "at_reset (kern x)" "stacks_ok e" "heap_space_ok e"
  shows "ok (krhino_init e x h) (\<lambda>(r, x', g). r = RHINO_SUCCESS \<and> boot_inv (kern x') \<and>
    live (kern x') = {g_dyn_task, g_idle_task, g_timer_task, g_cpu_usage_task} \<and>
    pri (kern x') g_idle_task = 61 \<and> pri (kern x') g_timer_task = 5 \<and> pri (kern x') g_dyn_task = 60 \<and>
    pri (kern x') g_cpu_usage_task = 60 \<and> heap_ready e g)"
proof -
  obtain g where g: "k_mm_init (krhino_init_hook e (g_mm_region e)) (h\<lparr>mblkpool_head := []\<rparr>) = Inr g" "heap_ready e g"
    using init_heap [OF assms(3)] unfolding ok_iff by blast
  define s00 where "s00 = fst (kobj_list_init (tick_list_init ((kern x)\<lparr>g_sys_stat := RHINO_STOPPED, g_ready_queue := runqueue_init (g_ready_queue (kern x))\<rparr>)) h)"
  define s0 where "s0 = s00\<lparr>g_res_list := []\<rparr>"
  define s1 where "s1 = snd (krhino_sem_create (Some g_res_sem) (Some ''res_sem'') 0 s0)"
  have b0: "boot_inv s0" using boot_clear [OF assms(1)] by (simp add: s0_def s00_def)
  have "live s0 = {}" "g_idle_task_spawned s0 = 0"
    using assms(1) by (simp_all add: s0_def s00_def kobj_list_init_def tick_list_init_def live_def at_reset_def)
  then have b1: "boot_inv s1" "live s1 = {}" "g_idle_task_spawned s1 = 0" using boot_sem [OF b0] by (simp_all add: s1_def)
  note ids = g_dyn_task_def g_idle_task_def g_timer_task_def g_cpu_usage_task_def
  obtain s2 where s2: "dyn_mem_proc_task_start e s1 = Inr s2" "boot_inv s2" "live s2 = {g_dyn_task}" "pri s2 g_dyn_task = 60"
    "g_idle_task_spawned s2 = 0"
    using boot_create [OF b1(1), of g_dyn_task 60 "dyn_stack_size e" "''dyn_mem''" 0 "dyn_stack e"] assms(2) b1(2,3)
    by (auto simp: dyn_mem_proc_task_start_def ok_iff stacks_ok_def)
  obtain s3 where s3: "krhino_task_create (Some g_idle_task) (Some ''idle_task'') RHINO_IDLE_PRI 0 (Some (idle_stack e))
      (idle_stack_size e) False True s2 = Inr (RHINO_SUCCESS, s3)" "boot_inv s3" "live s3 = {g_idle_task, g_dyn_task}"
    "pri s3 g_dyn_task = 60" "pri s3 g_idle_task = 61"
    using boot_create [OF s2(2), of g_idle_task 61 "idle_stack_size e" "''idle_task''" 0 "idle_stack e"] assms(2) s2(3-5)
    by (auto simp: ok_iff stacks_ok_def ids)
  define s4 where "s4 = snd (krhino_fix_buf_queue_create (Some g_timer_queue) (Some ''timer_queue'')
    (Some (timer_queue_buf e)) (timer_cb_size e) (timer_msg_num e) s3)"
  have s4: "boot_inv s4" "live s4 = {g_idle_task, g_dyn_task}" "pri s4 g_dyn_task = 60" "pri s4 g_idle_task = 61"
    using boot_queue [OF s3(2)] s3(3-5) by (simp_all add: s4_def)
  obtain s5 where s5: "krhino_task_create (Some g_timer_task) (Some ''timer_task'') 5 0 (Some (timer_stack e))
      (timer_stack_size e) False True s4 = Inr (RHINO_SUCCESS, s5)" "boot_inv s5" "live s5 = {g_timer_task, g_idle_task, g_dyn_task}"
    "pri s5 g_dyn_task = 60" "pri s5 g_idle_task = 61" "pri s5 g_timer_task = 5"
    using boot_create [OF s4(1), of g_timer_task 5 "timer_stack_size e" "''timer_task''" 0 "timer_stack e"] assms(2) s4(2-4)
    by (auto simp: ok_iff stacks_ok_def ids)
  obtain s6 where s6: "cpu_usage_stats_start e s5 = Inr s6" "boot_inv s6"
    "live s6 = {g_cpu_usage_task, g_timer_task, g_idle_task, g_dyn_task}"
    "pri s6 = (pri s5)(g_cpu_usage_task := 60)"
    using boot_create [OF s5(2), of g_cpu_usage_task 60 "cpu_usage_stack_size e" "''cpu_stats''" 0 "cpu_usage_stack e"] assms(2) s5(3)
    by (auto simp: cpu_usage_stats_start_def ok_iff stacks_ok_def ids)
  have "ktimer_init e (x\<lparr>kern := s3\<rparr>) = Inr (x\<lparr>kern := s5, g_timer_head := []\<rparr>)"
    using s5(1) by (simp add: ktimer_init_def Let_def flip: s4_def)
  moreover have "kobj_list_init (tick_list_init ((kern x)\<lparr>g_sys_stat := RHINO_STOPPED, g_ready_queue := runqueue_init (g_ready_queue (kern x))\<rparr>)) h
      = (s00, h\<lparr>mblkpool_head := []\<rparr>)"
    by (simp add: s00_def kobj_list_init_def)
  ultimately have "krhino_init e x h = Inr (RHINO_SUCCESS, x\<lparr>kern := s6, g_timer_head := []\<rparr>, g)"
    using s2(1) s3(1) s6(1) g(1) by (simp add: krhino_init_def Let_def flip: s0_def s1_def)
  then show ?thesis using s6 s5(4-6) g(2) by (auto simp: ids)
qed

text \<open>
  C1. From reset, initialisation and start succeed: the hook gives the heap the memory between the linker's
  symbols, on which it is set up with nothing handed out but the bookkeeping of the region, the four kernel
  tasks exist, the timer task, which has the highest priority of them, runs first, and the kernel invariant
  holds. Whatever sequence of allowed calls, interrupts and ticks follows, it holds ever after and no allowed
  call faults.
\<close>

theorem boot_fault_free:
  assumes "at_reset (kern x)" "stacks_ok e" "heap_space_ok e"
  shows "ok (krhino_init e x h) (\<lambda>(r, x', g). r = RHINO_SUCCESS \<and> heap_ready e g \<and> ok (krhino_start (kern x')) (\<lambda>(r, s).
    kernel_inv s \<and> no_deadlock s \<and> live s = {g_dyn_task, g_idle_task, g_timer_task, g_cpu_usage_task} \<and>
    g_active_task s = Some g_timer_task \<and> g_sys_stat s = RHINO_RUNNING \<and>
    (\<forall>cs s'. steps exec allowed s cs s' \<longrightarrow> kernel_inv s' \<and> no_deadlock s' \<and>
      (\<forall>c. allowed c s' \<longrightarrow> (\<exists>s''. exec c s' = Inr s'')))))"
proof (rule ok_mono [OF init_ok [OF assms]], clarify, intro conjI refl, assumption)
  fix x' assume b: "boot_inv (kern x')" "live (kern x') = {g_dyn_task, g_idle_task, g_timer_task, g_cpu_usage_task}"
    "pri (kern x') g_idle_task = 61" "pri (kern x') g_timer_task = 5" "pri (kern x') g_dyn_task = 60" "pri (kern x') g_cpu_usage_task = 60"
  show "ok (krhino_start (kern x')) (\<lambda>(r, s).
    kernel_inv s \<and> no_deadlock s \<and> live s = {g_dyn_task, g_idle_task, g_timer_task, g_cpu_usage_task} \<and>
    g_active_task s = Some g_timer_task \<and> g_sys_stat s = RHINO_RUNNING \<and>
    (\<forall>cs s'. steps exec allowed s cs s' \<longrightarrow> kernel_inv s' \<and> no_deadlock s' \<and>
      (\<forall>c. allowed c s' \<longrightarrow> (\<exists>s''. exec c s' = Inr s''))))"
  proof (rule ok_mono [OF boot_ready [OF b(1) _ b(3)]], use b(2) in simp, clarify, intro conjI allI impI)
    fix s a assume s: "kernel_inv s" "no_deadlock s" "live s = live (kern x')" "g_active_task s = Some a" "best_ready (live (kern x')) s a"
      "pri s = pri (kern x')" "st s = st (kern x')" "g_sys_stat s = RHINO_RUNNING" "distinct (task_head (g_kobj_list s))"
    show "live s = {g_dyn_task, g_idle_task, g_timer_task, g_cpu_usage_task}" using s(3) b(2) by simp
    have "st s g_timer_task = K_RDY" using s(7) b(1,2) by (auto simp: boot_inv_def)
    then have "a = g_timer_task" using s(5) b(2-6) by (auto simp: best_ready_def s(6))
    then show "g_active_task s = Some g_timer_task" using s(4) by simp
    fix cs s' assume "steps exec allowed s cs s'"
    then have "steady s'" using kernel.steps_inv steadyI [OF s(1,2,9)] by blast
    then show "kernel_inv s'" "no_deadlock s'" "\<And>c. allowed c s' \<Longrightarrow> \<exists>s''. exec c s' = Inr s''"
      using kernel.keeps [of s'] steadyD [of s'] by (auto simp: ok_iff)
  qed
qed

theorem boot_fault_free_witness:
  "ok (krhino_init ex_env ex_reset heap0) (\<lambda>(r, x', g). heap_ready ex_env g \<and> ok (krhino_start (kern x')) (\<lambda>(r, s).
     kernel_inv s \<and> g_active_task s = Some g_timer_task))"
  using boot_fault_free [OF ex_reset_ok ex_env_ok, of heap0] by (auto simp: ok_iff)

end
