(* ===== verification/Csi.thy ===== *)
theory Csi
  imports Boot Heap
begin

unbundle bit_operations_syntax

text \<open>
  The CSI adapter (\<^verbatim>\<open>csi_rhino.c\<close>), through which applications use the kernel, and the allocation functions of
  the C library above it (\<^verbatim>\<open>libc/malloc.c\<close>). A handle is an optional identifier, NULL is \<open>None\<close>; \<open>int32_t\<close> and
  \<open>uint32_t\<close> are words of 32 bits, read by \<open>sint\<close> where they are signed, statuses and enumerations are integers. As in the
  kernel, creation takes the answer of the heap as an argument, and a call that blocks returns \<open>CPending\<close>; its status
  when it is resumed is given by \<open>csi_wait_status\<close>. Power management and back traces are configured off.
\<close>

section \<open>Constants and statuses\<close>

definition EPERM :: int where "EPERM = 1"
definition EINVAL :: int where "EINVAL = 22"
definition EOPNOTSUPP :: int where "EOPNOTSUPP = 95"
definition ETIMEDOUT :: int where "ETIMEDOUT = 110"

definition KSCHED_ST_INACTIVE :: int where "KSCHED_ST_INACTIVE = 0"
definition KSCHED_ST_RUNNING :: int where "KSCHED_ST_RUNNING = 2"
definition KSCHED_ST_ERROR :: int where "KSCHED_ST_ERROR = 5"

datatype (plugins only: code size) k_task_stat =
  KTASK_ST_INACTIVE | KTASK_ST_READY | KTASK_ST_RUNNING | KTASK_ST_BLOCKED | KTASK_ST_TERMINATED | KTASK_ST_ERROR

datatype (plugins only: code size) k_timer_stat = KTIMER_ST_INACTIVE | KTIMER_ST_ACTIVE

definition KPRIO_IDLE :: int where "KPRIO_IDLE = 0"
definition KPRIO_REALTIME7 :: int where "KPRIO_REALTIME7 = 48"
definition KPRIO_ERROR :: int where "KPRIO_ERROR = 50"
definition RHINO_CONFIG_USER_PRI_MAX :: nat where "RHINO_CONFIG_USER_PRI_MAX = RHINO_CONFIG_PRI_MAX - 2"
definition KTIMER_TYPE_ONCE :: int where "KTIMER_TYPE_ONCE = 0"
definition KEVENT_OPT_SET_ANY :: int where "KEVENT_OPT_SET_ANY = 0"
definition KEVENT_OPT_SET_ALL :: int where "KEVENT_OPT_SET_ALL = 1"
definition KEVENT_OPT_CLR_ANY :: int where "KEVENT_OPT_CLR_ANY = 2"
definition KEVENT_OPT_CLR_ALL :: int where "KEVENT_OPT_CLR_ALL = 3"
definition TMR_ONE_SHOT_DLY :: tick where "TMR_ONE_SHOT_DLY = 10"
definition TMR_PERIODIC_PERIOD :: tick where "TMR_PERIODIC_PERIOD = 10"
definition RHINO_OS_MS_PERIOD_TICK :: nat where "RHINO_OS_MS_PERIOD_TICK = 1000 div RHINO_CONFIG_TICKS_PER_SECOND"

text \<open>How most of the adapter reports a status of the kernel, and how it does for calls that wait.\<close>

definition csi_status :: "kstat \<Rightarrow> int" where
  "csi_status ret = (if ret = RHINO_SUCCESS then 0 else - EPERM)"

definition csi_wait_status :: "kstat \<Rightarrow> int" where
  "csi_wait_status ret = (if ret = RHINO_SUCCESS then 0 else if ret = RHINO_BLK_TIMEOUT then - ETIMEDOUT else - EPERM)"

datatype (plugins only: code size) csi_ret = CRet int | CPending

fun csi_kret :: "(kstat \<Rightarrow> int) \<Rightarrow> kret \<Rightarrow> csi_ret" where
  "csi_kret f (Ret r) = CRet (f r)"
| "csi_kret f Pending = CPending"

text \<open>The time to wait: negative is for ever.\<close>

definition csi_timeout :: "32 word \<Rightarrow> tick" where
  "csi_timeout timeout = (if sint timeout < 0 then RHINO_WAIT_FOREVER else ucast timeout)"

text \<open>A service that returns a status, as the adapter passes it on.\<close>

definition csi_call_status :: "(kstat \<times> 's) outcome \<Rightarrow> (int \<times> 's) outcome" where
  "csi_call_status r = bnd r (\<lambda>(ret, s). Inr (csi_status ret, s))"

section \<open>Kernel\<close>

definition csi_kernel_init :: "boot_env \<Rightarrow> tstate \<Rightarrow> mheap \<Rightarrow> (int \<times> tstate \<times> mheap option) outcome" where
  "csi_kernel_init e x h = csi_call_status (krhino_init e x h)"

definition csi_kernel_start :: "kstate \<Rightarrow> (csi_ret \<times> kstate) outcome" where
  "csi_kernel_start s = bnd (krhino_start s) (\<lambda>(r, s). Inr (csi_kret csi_status r, s))"

definition csi_kernel_get_stat :: "kstate \<Rightarrow> int" where
  "csi_kernel_get_stat s =
     (if g_sys_stat s = RHINO_STOPPED then KSCHED_ST_INACTIVE
      else if g_sys_stat s = RHINO_RUNNING then KSCHED_ST_RUNNING else KSCHED_ST_ERROR)"

definition csi_kernel_sched_lock :: int where "csi_kernel_sched_lock = - EOPNOTSUPP"
definition csi_kernel_sched_unlock :: int where "csi_kernel_sched_unlock = - EOPNOTSUPP"
definition csi_kernel_sched_restore_lock :: "int \<Rightarrow> int" where "csi_kernel_sched_restore_lock lock = - EOPNOTSUPP"

definition csi_kernel_sched_suspend :: "kstate \<Rightarrow> 32 word \<times> kstate" where
  "csi_kernel_sched_suspend s = (if g_sys_stat s \<noteq> RHINO_RUNNING then (0, s) else (0, snd (krhino_sched_disable s)))"

definition csi_kernel_sched_resume :: "kstate \<Rightarrow> kstate outcome" where
  "csi_kernel_sched_resume s =
     (if g_sys_stat s \<noteq> RHINO_RUNNING then Inr s else bnd (krhino_sched_enable s) (\<lambda>(_, s). Inr s))"

text \<open>What \<open>malloc\<close> and \<open>free\<close> (below, \<open>csi_kernel_malloc\<close> and \<open>csi_kernel_free\<close>) do to the kernel: the heap is worked on
  while the scheduler is suspended. The calls of the adapter that take memory for their own records make this step; the answer of the heap is an
  argument of theirs. When the resume switches to another task, the rest of such a call runs once the caller is back; the model
  runs it without the other task in between.\<close>

definition csi_heap_call :: "kstate \<Rightarrow> kstate outcome" where
  "csi_heap_call s = csi_kernel_sched_resume (snd (csi_kernel_sched_suspend s))"

section \<open>Tasks\<close>

text \<open>The last component is what is stored at \<open>*task_handle\<close>, if anything.\<close>

definition csi_kernel_task_new ::
  "bool \<Rightarrow> string option \<Rightarrow> int \<Rightarrow> 32 word \<Rightarrow> bool \<Rightarrow> 32 word \<Rightarrow> bool \<Rightarrow> (nat \<times> tid) option \<Rightarrow> kstate
    \<Rightarrow> (int \<times> tid option \<times> kstate) outcome" where
  "csi_kernel_task_new task_null name p time_quanta stack_null ssize handle_null alloc s =
     (if handle_null \<or> ssize mod 4 \<noteq> 0 \<or> (ssize = 0 \<and> stack_null) \<or> p \<le> KPRIO_IDLE \<or> p > KPRIO_REALTIME7
      then Inr (- EINVAL, None, s)
      else (let prio_trans = nat (int RHINO_CONFIG_USER_PRI_MAX - p);
                s = snd (csi_kernel_sched_suspend s)
            in bnd (krhino_task_dyn_create handle_null alloc (case name of None \<Rightarrow> Some ''user_task'' | Some n \<Rightarrow> Some n)
                      prio_trans (ucast time_quanta) (unat (ssize div 4)) task_null True s) (\<lambda>(ret, h, s).
               bnd (csi_kernel_sched_resume s) (\<lambda>s. Inr (csi_status ret, h, s)))))"

definition csi_kernel_task_del :: "tid option \<Rightarrow> kstate \<Rightarrow> (int \<times> kstate) outcome" where
  "csi_kernel_task_del task_handle s =
     (if task_handle = None then Inr (- EINVAL, s) else csi_call_status (krhino_task_dyn_del task_handle s))"

definition csi_kernel_task_get_cur :: "kstate \<Rightarrow> tid option" where
  "csi_kernel_task_get_cur s = g_active_task s"

definition csi_kernel_task_get_stat :: "tid option \<Rightarrow> kstate \<Rightarrow> k_task_stat" where
  "csi_kernel_task_get_stat task_handle s =
     (case task_handle of
        None \<Rightarrow> KTASK_ST_ERROR
      | Some t \<Rightarrow>
          if csi_kernel_task_get_cur s = Some t then KTASK_ST_RUNNING
          else (case task_state (tasks s t) of
                  K_PEND \<Rightarrow> KTASK_ST_BLOCKED | K_SUSPENDED \<Rightarrow> KTASK_ST_BLOCKED | K_PEND_SUSPENDED \<Rightarrow> KTASK_ST_BLOCKED
                | K_SLEEP \<Rightarrow> KTASK_ST_BLOCKED | K_SLEEP_SUSPENDED \<Rightarrow> KTASK_ST_BLOCKED
                | K_DELETED \<Rightarrow> KTASK_ST_TERMINATED | K_RDY \<Rightarrow> KTASK_ST_READY | _ \<Rightarrow> KTASK_ST_ERROR))"

definition csi_kernel_task_set_prio :: "tid option \<Rightarrow> int \<Rightarrow> kstate \<Rightarrow> (int \<times> kstate) outcome" where
  "csi_kernel_task_set_prio task_handle p s =
     (if task_handle = None \<or> p \<le> KPRIO_IDLE \<or> p > KPRIO_REALTIME7 then Inr (- EINVAL, s)
      else bnd (krhino_task_pri_change task_handle (nat (int RHINO_CONFIG_USER_PRI_MAX - p)) False s)
             (\<lambda>(ret, old, s). Inr (csi_status ret, s)))"

definition csi_kernel_task_get_prio :: "tid option \<Rightarrow> kstate \<Rightarrow> int" where
  "csi_kernel_task_get_prio task_handle s =
     (case task_handle of
        None \<Rightarrow> KPRIO_ERROR
      | Some t \<Rightarrow>
          (let ret = prio (tasks s t)
           in if ret \<le> RHINO_CONFIG_USER_PRI_MAX then int (RHINO_CONFIG_USER_PRI_MAX - ret)
              else (int RHINO_CONFIG_PRI_MAX - int ret) mod 2 ^ 8))"

definition csi_kernel_task_get_name :: "tid option \<Rightarrow> kstate \<Rightarrow> string option" where
  "csi_kernel_task_get_name task_handle s = (case task_handle of None \<Rightarrow> None | Some t \<Rightarrow> task_name (tasks s t))"

definition csi_kernel_task_suspend :: "tid option \<Rightarrow> kstate \<Rightarrow> (int \<times> kstate) outcome" where
  "csi_kernel_task_suspend task_handle s =
     (if task_handle = None then Inr (- EINVAL, s) else csi_call_status (krhino_task_suspend task_handle s))"

definition csi_kernel_task_resume :: "tid option \<Rightarrow> kstate \<Rightarrow> (int \<times> kstate) outcome" where
  "csi_kernel_task_resume task_handle s =
     (if task_handle = None then Inr (- EINVAL, s) else csi_call_status (krhino_task_resume task_handle s))"

definition csi_kernel_task_terminate :: "tid option \<Rightarrow> kstate \<Rightarrow> (int \<times> kstate) outcome" where
  "csi_kernel_task_terminate task_handle s = csi_kernel_task_del task_handle s"

definition csi_kernel_task_exit :: "kstate \<Rightarrow> kstate outcome" where
  "csi_kernel_task_exit s = bnd (csi_kernel_task_del (csi_kernel_task_get_cur s) s) (\<lambda>(_, s). Inr s)"

definition csi_kernel_task_yield :: "kstate \<Rightarrow> (int \<times> kstate) outcome" where
  "csi_kernel_task_yield s = csi_call_status (krhino_task_yield s)"

text \<open>The walk over the list of all tasks that counts them.\<close>

fun count_tasks :: "tid list \<Rightarrow> 32 word \<Rightarrow> 32 word" where
  "count_tasks [] n = n"
| "count_tasks (t # ts) n = count_tasks ts (n + 1)"

definition csi_kernel_task_get_count :: "kstate \<Rightarrow> 32 word" where
  "csi_kernel_task_get_count s = count_tasks (task_head (g_kobj_list s)) 0"

definition csi_kernel_task_get_stack_size :: "tid option \<Rightarrow> kstate \<Rightarrow> 32 word" where
  "csi_kernel_task_get_stack_size task_handle s =
     (case task_handle of None \<Rightarrow> 0 | Some t \<Rightarrow> 4 * of_nat (stack_size (tasks s t)))"

text \<open>The second walk stores the handles: the array of the caller is a list, a store behind its end a bad access.\<close>

fun store_tasks :: "32 word \<Rightarrow> tid list \<Rightarrow> nat \<Rightarrow> tid list \<Rightarrow> tid list outcome" where
  "store_tasks real_tsk_num [] k arr = Inr arr"
| "store_tasks real_tsk_num (t # ts) k arr =
     (if real_tsk_num \<ge> 1
      then (if k < length arr then store_tasks real_tsk_num ts (Suc k) (arr[k := t]) else Inl BadAccess)
      else Inr arr)"

definition csi_kernel_task_list :: "tid list option \<Rightarrow> 32 word \<Rightarrow> kstate \<Rightarrow> (32 word \<times> tid list option) outcome" where
  "csi_kernel_task_list task_array array_items s =
     (case task_array of
        None \<Rightarrow> Inr (0, None)
      | Some arr \<Rightarrow>
          if array_items = 0 then Inr (0, task_array)
          else (let n = count_tasks (task_head (g_kobj_list s)) 0;
                    n = (if array_items < n then array_items else n)
                in bnd (store_tasks n (task_head (g_kobj_list s)) 0 arr) (\<lambda>arr. Inr (n, Some arr))))"

section \<open>Interrupts and time\<close>

definition csi_kernel_intrpt_enter :: "kstate \<Rightarrow> (int \<times> kstate) outcome" where
  "csi_kernel_intrpt_enter s = csi_call_status (krhino_intrpt_enter s)"

definition csi_kernel_intrpt_exit :: "kstate \<Rightarrow> (int \<times> kstate) outcome" where
  "csi_kernel_intrpt_exit s = bnd (krhino_intrpt_exit s) (\<lambda>s. Inr (0, s))"

definition csi_kernel_delay :: "32 word \<Rightarrow> kstate \<Rightarrow> (csi_ret \<times> kstate) outcome" where
  "csi_kernel_delay ticks s = bnd (krhino_task_sleep (ucast ticks) s) (\<lambda>(r, s). Inr (csi_kret csi_status r, s))"

definition csi_kernel_delay_until :: "tick \<Rightarrow> int" where "csi_kernel_delay_until ticks = - EOPNOTSUPP"

definition csi_kernel_tick2ms :: "32 word \<Rightarrow> 64 word" where
  "csi_kernel_tick2ms ticks = ucast ticks * of_nat RHINO_OS_MS_PERIOD_TICK"

definition csi_kernel_ms2tick :: "32 word \<Rightarrow> 64 word" where
  "csi_kernel_ms2tick ms =
     (if ms < of_nat RHINO_OS_MS_PERIOD_TICK then 0 else ucast ms div of_nat RHINO_OS_MS_PERIOD_TICK)"

definition csi_kernel_delay_ms :: "32 word \<Rightarrow> kstate \<Rightarrow> (csi_ret \<times> kstate) outcome" where
  "csi_kernel_delay_ms ms s =
     (let ms_get = (if ms < of_nat RHINO_OS_MS_PERIOD_TICK \<and> ms \<noteq> 0 then of_nat RHINO_OS_MS_PERIOD_TICK else ms)
      in bnd (krhino_task_sleep (csi_kernel_ms2tick ms_get) s) (\<lambda>(r, s). Inr (csi_kret csi_status r, s)))"

definition csi_kernel_get_ticks :: "kstate \<Rightarrow> tick" where
  "csi_kernel_get_ticks s = krhino_sys_tick_get s"

definition csi_kernel_suspend_tick :: "64 word" where "csi_kernel_suspend_tick = 0"

text \<open>\<open>g_sys_tick_count\<close> is a counter of the driver beside the tick count of the kernel.\<close>

definition csi_kernel_update_tick :: "32 word \<Rightarrow> 64 word \<Rightarrow> 64 word" where
  "csi_kernel_update_tick ms g_sys_tick_count =
     (let ticks = ms * of_nat RHINO_CONFIG_TICKS_PER_SECOND div 1000 in g_sys_tick_count + ucast ticks)"

definition csi_kernel_get_tick_freq :: "32 word" where
  "csi_kernel_get_tick_freq = of_nat RHINO_CONFIG_TICKS_PER_SECOND"

section \<open>Timers\<close>

record tmr_arg =
  ta_arg :: nat
  ta_func :: "nat option"

text \<open>\<open>call\<close> runs a function of the application; the records at the arguments of the timers are the map \<open>targs\<close>.\<close>

definition tmr_adapt_cb ::
  "(nat \<Rightarrow> nat \<Rightarrow> tstate \<Rightarrow> tstate) \<Rightarrow> (nat \<Rightarrow> tmr_arg) \<Rightarrow> nat \<Rightarrow> nat \<Rightarrow> tstate \<Rightarrow> tstate" where
  "tmr_adapt_cb call targs timer arg x =
     (let arg_above = targs (timer_cb_arg (timers x timer))
      in case ta_func arg_above of None \<Rightarrow> x | Some f \<Rightarrow> call f (ta_arg arg_above) x)"

text \<open>\<open>adapt_cb\<close> is the address of \<open>tmr_adapt_cb\<close>, \<open>get_arg\<close> the answer of \<open>malloc\<close>.\<close>

definition csi_kernel_timer_new ::
  "(k_timer_queue_cb \<Rightarrow> nat \<Rightarrow> byte) \<Rightarrow> nat \<Rightarrow> k_timer_queue_cb \<Rightarrow> nat \<Rightarrow> nat option \<Rightarrow> int \<Rightarrow> nat \<Rightarrow> nat option \<Rightarrow> nat option
    \<Rightarrow> (nat \<Rightarrow> tmr_arg) \<Rightarrow> tstate \<Rightarrow> (nat option \<times> (nat \<Rightarrow> tmr_arg) \<times> tstate) outcome" where
  "csi_kernel_timer_new cb_image cb_size junk adapt_cb func type arg get_arg alloc targs x =
     (if type < 0 \<or> type > 1 \<or> func = None then Inr (None, targs, x)
      else (let first = TMR_ONE_SHOT_DLY; rnd = (if type = KTIMER_TYPE_ONCE then 0 else TMR_PERIODIC_PERIOD)
            in bnd (csi_heap_call (kern x)) (\<lambda>s.
               let x = x\<lparr>kern := s\<rparr>
               in case get_arg of
                 None \<Rightarrow> Inr (None, targs, x)
               | Some g \<Rightarrow>
                   (let targs = targs(g := \<lparr>ta_arg = arg, ta_func = func\<rparr>)
                    in bnd (krhino_timer_dyn_create cb_image cb_size junk False alloc (Some ''UserTmr'') (Some adapt_cb) first rnd g
                              False x) (\<lambda>(ret, tmr, x).
                       if ret = RHINO_SUCCESS then Inr (tmr, targs, x)
                       else bnd (csi_heap_call (kern x)) (\<lambda>s. Inr (None, targs, x\<lparr>kern := s\<rparr>)))))))"

text \<open>The last component is the address handed to \<open>free\<close>, if any.\<close>

definition csi_kernel_timer_del ::
  "(k_timer_queue_cb \<Rightarrow> nat \<Rightarrow> byte) \<Rightarrow> nat \<Rightarrow> k_timer_queue_cb \<Rightarrow> nat option \<Rightarrow> tstate \<Rightarrow> (int \<times> tstate \<times> nat option) outcome" where
  "csi_kernel_timer_del cb_image cb_size junk timer_handle x =
     (case timer_handle of
        None \<Rightarrow> Inr (- EINVAL, x, None)
      | Some t \<Rightarrow>
          bnd (krhino_timer_dyn_del cb_image cb_size junk timer_handle x) (\<lambda>(ret, x).
            if ret = RHINO_SUCCESS
            then bnd (csi_heap_call (kern x)) (\<lambda>s. Inr (0, x\<lparr>kern := s\<rparr>, Some (timer_cb_arg (timers x t))))
            else Inr (- EPERM, x, None)))"

definition csi_kernel_timer_start ::
  "(k_timer_queue_cb \<Rightarrow> nat \<Rightarrow> byte) \<Rightarrow> nat \<Rightarrow> k_timer_queue_cb \<Rightarrow> nat option \<Rightarrow> 32 word \<Rightarrow> tstate \<Rightarrow> (int \<times> tstate) outcome" where
  "csi_kernel_timer_start cb_image cb_size junk timer_handle ticks x =
     (case timer_handle of
        None \<Rightarrow> Inr (- EINVAL, x)
      | Some t \<Rightarrow>
          if ticks = 0 then Inr (- EINVAL, x)
          else (let rnd = round_ticks (timers x t); tf = ucast ticks; tr = (if rnd \<noteq> 0 then ucast ticks else 0)
                in bnd (krhino_timer_change cb_image cb_size junk timer_handle tf tr x) (\<lambda>(ret1, x).
                   if ret1 = RHINO_SUCCESS
                   then csi_call_status (krhino_timer_start cb_image cb_size junk timer_handle x)
                   else Inr (- EPERM, x))))"

definition csi_kernel_timer_stop ::
  "(k_timer_queue_cb \<Rightarrow> nat \<Rightarrow> byte) \<Rightarrow> nat \<Rightarrow> k_timer_queue_cb \<Rightarrow> nat option \<Rightarrow> tstate \<Rightarrow> (int \<times> tstate) outcome" where
  "csi_kernel_timer_stop cb_image cb_size junk timer_handle x =
     (if timer_handle = None then Inr (- EINVAL, x) else csi_call_status (krhino_timer_stop cb_image cb_size junk timer_handle x))"

definition csi_kernel_timer_get_stat :: "nat option \<Rightarrow> tstate \<Rightarrow> k_timer_stat" where
  "csi_kernel_timer_get_stat timer_handle x =
     (case timer_handle of
        None \<Rightarrow> KTIMER_ST_INACTIVE
      | Some t \<Rightarrow> if tm_state (timers x t) = TIMER_DEACTIVE then KTIMER_ST_INACTIVE else KTIMER_ST_ACTIVE)"

section \<open>Event flags\<close>

definition csi_kernel_event_new :: "oid option \<Rightarrow> kstate \<Rightarrow> oid option \<times> kstate" where
  "csi_kernel_event_new alloc s =
     (case krhino_event_dyn_create False alloc (Some ''UserEvent'') 0 s of
        (ret, h, s) \<Rightarrow> (if ret = RHINO_SUCCESS then h else None, s))"

definition csi_kernel_event_del :: "oid option \<Rightarrow> kstate \<Rightarrow> (int \<times> kstate) outcome" where
  "csi_kernel_event_del ev_handle s =
     (if ev_handle = None then Inr (- EINVAL, s) else csi_call_status (krhino_event_dyn_del ev_handle s))"

text \<open>The third component is what is stored at \<open>*ret_flags\<close>, if anything.\<close>

definition csi_kernel_event_set ::
  "oid option \<Rightarrow> 32 word \<Rightarrow> bool \<Rightarrow> kstate \<Rightarrow> (int \<times> 32 word option \<times> kstate) outcome" where
  "csi_kernel_event_set ev_handle fl ret_null s =
     (case ev_handle of
        None \<Rightarrow> Inr (- EINVAL, None, s)
      | Some b \<Rightarrow>
          if ret_null then Inr (- EINVAL, None, s)
          else bnd (krhino_event_set ev_handle fl RHINO_OR s) (\<lambda>(ret, s).
                 if ret = RHINO_SUCCESS then Inr (0, Some (flags (events s b)), s) else Inr (- EPERM, None, s)))"

definition csi_kernel_event_clear :: "oid option \<Rightarrow> 32 word \<Rightarrow> int" where
  "csi_kernel_event_clear ev_handle fl = - EOPNOTSUPP"

definition csi_kernel_event_get :: "oid option \<Rightarrow> bool \<Rightarrow> kstate \<Rightarrow> int \<times> 32 word option" where
  "csi_kernel_event_get ev_handle ret_null s =
     (case ev_handle of
        None \<Rightarrow> (- EINVAL, None)
      | Some b \<Rightarrow> if ret_null then (- EINVAL, None) else (0, Some (flags (events s b))))"

definition csi_kernel_event_wait ::
  "oid option \<Rightarrow> 32 word \<Rightarrow> int \<Rightarrow> 8 word \<Rightarrow> nat option \<Rightarrow> 32 word \<Rightarrow> kstate \<Rightarrow> (csi_ret \<times> kstate) outcome" where
  "csi_kernel_event_wait ev_handle fl options clr_on_exit actl_flags timeout s =
     (if ev_handle = None \<or> actl_flags = None \<or> (clr_on_exit \<noteq> 0 \<and> clr_on_exit \<noteq> 1) then Inr (CRet (- EINVAL), s)
      else if options = KEVENT_OPT_CLR_ANY \<or> options = KEVENT_OPT_CLR_ALL then Inr (CRet (- EOPNOTSUPP), s)
      else (let opt = (if options = KEVENT_OPT_SET_ANY then (if clr_on_exit = 1 then RHINO_OR_CLEAR else RHINO_OR)
                       else if options = KEVENT_OPT_SET_ALL then (if clr_on_exit = 1 then RHINO_AND_CLEAR else RHINO_AND)
                       else 0)
            in bnd (krhino_event_get ev_handle fl opt actl_flags (csi_timeout timeout) s)
                 (\<lambda>(r, s). Inr (csi_kret csi_wait_status r, s))))"

section \<open>Mutexes\<close>

definition csi_kernel_mutex_new :: "oid option \<Rightarrow> kstate \<Rightarrow> oid option \<times> kstate" where
  "csi_kernel_mutex_new alloc s =
     (case krhino_mutex_dyn_create False alloc (Some ''UserMutex'') s of
        (ret, h, s) \<Rightarrow> (if ret = RHINO_SUCCESS then h else None, s))"

definition csi_kernel_mutex_del :: "oid option \<Rightarrow> kstate \<Rightarrow> (int \<times> kstate) outcome" where
  "csi_kernel_mutex_del mutex_handle s =
     (if mutex_handle = None then Inr (- EINVAL, s) else csi_call_status (krhino_mutex_dyn_del mutex_handle s))"

definition csi_nested_status :: "(kstat \<Rightarrow> int) \<Rightarrow> kstat \<Rightarrow> int" where
  "csi_nested_status f ret = (if ret = RHINO_MUTEX_OWNER_NESTED then 0 else f ret)"

definition csi_kernel_mutex_lock :: "oid option \<Rightarrow> 32 word \<Rightarrow> kstate \<Rightarrow> (csi_ret \<times> kstate) outcome" where
  "csi_kernel_mutex_lock mutex_handle timeout s =
     (if mutex_handle = None then Inr (CRet (- EINVAL), s)
      else bnd (krhino_mutex_lock mutex_handle (csi_timeout timeout) s)
             (\<lambda>(r, s). Inr (csi_kret (csi_nested_status csi_wait_status) r, s)))"

definition csi_kernel_mutex_unlock :: "oid option \<Rightarrow> kstate \<Rightarrow> (int \<times> kstate) outcome" where
  "csi_kernel_mutex_unlock mutex_handle s =
     (if mutex_handle = None then Inr (- EINVAL, s)
      else bnd (krhino_mutex_unlock mutex_handle s) (\<lambda>(ret, s). Inr (csi_nested_status csi_status ret, s)))"

definition csi_kernel_mutex_get_owner :: "oid option \<Rightarrow> kstate \<Rightarrow> tid option" where
  "csi_kernel_mutex_get_owner mutex_handle s = (case mutex_handle of None \<Rightarrow> None | Some b \<Rightarrow> mutex_task (mutexes s b))"

section \<open>Semaphores\<close>

definition csi_kernel_sem_new :: "oid option \<Rightarrow> 32 word \<Rightarrow> 32 word \<Rightarrow> kstate \<Rightarrow> oid option \<times> kstate" where
  "csi_kernel_sem_new alloc max_count initial_count s =
     (if sint max_count \<le> 0 \<or> sint initial_count < 0 then (None, s)
      else if sint max_count < sint initial_count then (None, s)
      else (case krhino_sem_dyn_create False alloc (Some ''UserSem'') initial_count s of
              (ret, h, s) \<Rightarrow> (if ret = RHINO_SUCCESS then h else None, s)))"

definition csi_kernel_sem_del :: "oid option \<Rightarrow> kstate \<Rightarrow> (int \<times> kstate) outcome" where
  "csi_kernel_sem_del sem_handle s =
     (if sem_handle = None then Inr (- EINVAL, s) else csi_call_status (krhino_sem_dyn_del sem_handle s))"

definition csi_kernel_sem_wait :: "oid option \<Rightarrow> 32 word \<Rightarrow> kstate \<Rightarrow> (csi_ret \<times> kstate) outcome" where
  "csi_kernel_sem_wait sem_handle timeout s =
     (if sem_handle = None then Inr (CRet (- EINVAL), s)
      else bnd (krhino_sem_take sem_handle (csi_timeout timeout) s) (\<lambda>(r, s). Inr (csi_kret csi_wait_status r, s)))"

definition csi_kernel_sem_post :: "oid option \<Rightarrow> kstate \<Rightarrow> (int \<times> kstate) outcome" where
  "csi_kernel_sem_post sem_handle s =
     (if sem_handle = None then Inr (- EINVAL, s) else csi_call_status (krhino_sem_give sem_handle s))"

definition csi_kernel_sem_get_count :: "oid option \<Rightarrow> kstate \<Rightarrow> int" where
  "csi_kernel_sem_get_count sem_handle s =
     (if sem_handle = None then - EINVAL
      else (case krhino_sem_count_get sem_handle False s of
              (ret, cnt) \<Rightarrow> if ret = RHINO_SUCCESS then (case cnt of None \<Rightarrow> 0 | Some c \<Rightarrow> sint c) else - EPERM))"

section \<open>Message queues\<close>

text \<open>A handle is the adapter's record of the queue; it does not change once it is made.\<close>

record mq_adapter =
  buf_q :: oid
  mq_msg_size :: "32 word"
  mq_msg_count :: "32 word"

text \<open>\<open>handle\<close> says whether \<open>malloc\<close> returned a record, \<open>alloc\<close> and \<open>alloc_buf\<close> are the answers for the queue and its buffer.\<close>

definition csi_kernel_msgq_new ::
  "bool \<Rightarrow> oid option \<Rightarrow> nat option \<Rightarrow> 32 word \<Rightarrow> 32 word \<Rightarrow> kstate \<Rightarrow> (mq_adapter option \<times> kstate) outcome" where
  "csi_kernel_msgq_new handle alloc alloc_buf msg_count msg_size s =
     (if sint msg_count \<le> 0 \<or> sint msg_size \<le> 0 then Inr (None, s)
      else bnd (csi_heap_call s) (\<lambda>s.
        if \<not> handle then Inr (None, s)
        else (case krhino_buf_queue_dyn_create False alloc alloc_buf (Some ''UserMsgQ'') (unat (msg_size * (msg_count + 1)))
                     (unat msg_size) s of
                (ret, q, s) \<Rightarrow>
                  if ret = RHINO_SUCCESS
                  then Inr (map_option (\<lambda>b. \<lparr>buf_q = b, mq_msg_size = msg_size, mq_msg_count = msg_count\<rparr>) q, s)
                  else bnd (csi_heap_call s) (\<lambda>s. Inr (None, s)))))"

definition csi_kernel_msgq_del :: "mq_adapter option \<Rightarrow> kstate \<Rightarrow> (int \<times> kstate) outcome" where
  "csi_kernel_msgq_del mq_handle s =
     (case mq_handle of
        None \<Rightarrow> Inr (- EINVAL, s)
      | Some h \<Rightarrow>
          bnd (krhino_buf_queue_dyn_del (Some (buf_q h)) s) (\<lambda>(ret, s).
            if ret = RHINO_SUCCESS then bnd (csi_heap_call s) (\<lambda>s. Inr (0, s)) else Inr (- EPERM, s)))"

definition csi_kernel_msgq_put ::
  "mq_adapter option \<Rightarrow> (nat \<Rightarrow> byte) option \<Rightarrow> 8 word \<Rightarrow> 32 word \<Rightarrow> kstate \<Rightarrow> (int \<times> kstate) outcome" where
  "csi_kernel_msgq_put mq_handle msg_ptr front_or_back timeout s =
     (case mq_handle of
        None \<Rightarrow> Inr (- EINVAL, s)
      | Some h \<Rightarrow>
          if msg_ptr = None \<or> (front_or_back \<noteq> 0 \<and> front_or_back \<noteq> 1) then Inr (- EINVAL, s)
          else if front_or_back = 0
          then csi_call_status (krhino_buf_queue_send (Some (buf_q h)) msg_ptr (unat (mq_msg_size h)) s)
          else csi_call_status (krhino_buf_queue_send (Some (buf_q h)) msg_ptr (unat (mq_msg_size h)) s))"

definition csi_kernel_msgq_get ::
  "mq_adapter option \<Rightarrow> nat option \<Rightarrow> 32 word \<Rightarrow> kstate \<Rightarrow> (csi_ret \<times> kstate) outcome" where
  "csi_kernel_msgq_get mq_handle msg_ptr timeout s =
     (case mq_handle of
        None \<Rightarrow> Inr (CRet (- EINVAL), s)
      | Some h \<Rightarrow>
          if msg_ptr = None then Inr (CRet (- EINVAL), s)
          else bnd (krhino_buf_queue_recv (Some (buf_q h)) (csi_timeout timeout) msg_ptr False s)
                 (\<lambda>(r, size, s). Inr (csi_kret csi_wait_status r, s)))"

definition csi_kernel_msgq_get_count :: "mq_adapter option \<Rightarrow> kstate \<Rightarrow> int" where
  "csi_kernel_msgq_get_count mq_handle s =
     (case mq_handle of
        None \<Rightarrow> - EINVAL
      | Some h \<Rightarrow>
          (case krhino_buf_queue_info_get (Some (buf_q h)) False s of
             (ret, info) \<Rightarrow>
               if ret = RHINO_SUCCESS then (case info of None \<Rightarrow> 0 | Some i \<Rightarrow> sint (of_nat (bi_cur_num i) :: 32 word))
               else - EPERM))"

definition csi_kernel_msgq_get_capacity :: "mq_adapter option \<Rightarrow> 32 word" where
  "csi_kernel_msgq_get_capacity mq_handle = (case mq_handle of None \<Rightarrow> 0 | Some h \<Rightarrow> mq_msg_count h)"

definition csi_kernel_msgq_get_msg_size :: "mq_adapter option \<Rightarrow> kstate \<Rightarrow> 32 word" where
  "csi_kernel_msgq_get_msg_size mq_handle s =
     (case mq_handle of None \<Rightarrow> 0 | Some h \<Rightarrow> of_nat (max_msg_size (buf_queues s (buf_q h))))"

definition csi_kernel_msgq_flush :: "mq_adapter option \<Rightarrow> kstate \<Rightarrow> int \<times> kstate" where
  "csi_kernel_msgq_flush mq_handle s =
     (case mq_handle of
        None \<Rightarrow> (- EINVAL, s)
      | Some h \<Rightarrow> (case krhino_buf_queue_flush (Some (buf_q h)) s of (ret, s) \<Rightarrow> (csi_status ret, s)))"

section \<open>Memory pools\<close>

text \<open>The pool of the caller: its blocks in memory and its control block, \<open>None\<close> for a NULL handle. \<open>handle\<close> is the
  control block \<open>malloc\<close> returned, if any; it is the result when the call succeeds.\<close>

definition csi_kernel_mpool_new ::
  "pmem \<Rightarrow> nat list \<Rightarrow> nat \<Rightarrow> mblk_pool option \<Rightarrow> 32 word \<Rightarrow> 32 word \<Rightarrow> 32 word \<Rightarrow> kstate
    \<Rightarrow> (mblk_pool option \<times> pmem \<times> nat list \<times> kstate) outcome" where
  "csi_kernel_mpool_new pm pools self handle p_addr block_count block_size s =
     (if p_addr = 0 \<or> sint block_count < 0 \<or> sint block_size \<le> 0 \<or> block_size mod 4 \<noteq> 0 then Inr (None, pm, pools, s)
      else bnd (csi_heap_call s) (\<lambda>s.
        if handle = None then Inr (None, pm, pools, s)
        else bnd (krhino_mblk_pool_init pm pools self handle (Some ''UserMp'') p_addr block_size (block_count * block_size))
               (\<lambda>(ret, pm, hd, p). Inr (if ret = RHINO_SUCCESS then p else None, pm, hd, s))))"

text \<open>The second component is the control block as it is when its memory is released.\<close>

definition csi_kernel_mpool_del :: "mblk_pool option \<Rightarrow> kstate \<Rightarrow> (int \<times> mblk_pool option \<times> kstate) outcome" where
  "csi_kernel_mpool_del mp_handle s =
     (if mp_handle = None then Inr (- EINVAL, None, s)
      else bnd (csi_heap_call s) (\<lambda>s.
        Inr (0, Some \<lparr>pool_name = None, blk_whole = 0, blk_avail = 0, blk_size = 0, avail_list = 0,
                      pool_obj_type = RHINO_OBJ_TYPE_NONE\<rparr>, s)))"

definition csi_kernel_mpool_alloc :: "pmem \<Rightarrow> mblk_pool option \<Rightarrow> 32 word \<times> mblk_pool option" where
  "csi_kernel_mpool_alloc pm mp_handle =
     (if mp_handle = None then (0, None)
      else (case krhino_mblk_alloc pm mp_handle False of
              (ret, blk, p) \<Rightarrow> (if ret = RHINO_SUCCESS then (case blk of None \<Rightarrow> 0 | Some b \<Rightarrow> b) else 0, p)))"

definition csi_kernel_mpool_free :: "pmem \<Rightarrow> mblk_pool option \<Rightarrow> 32 word \<Rightarrow> int \<times> pmem \<times> mblk_pool option" where
  "csi_kernel_mpool_free pm mp_handle block =
     (if mp_handle = None \<or> block = 0 then (- EINVAL, pm, mp_handle)
      else (case krhino_mblk_free pm mp_handle block of (ret, pm, p) \<Rightarrow> (csi_status ret, pm, p)))"

definition csi_kernel_mpool_get_count :: "mblk_pool option \<Rightarrow> int" where
  "csi_kernel_mpool_get_count mp_handle = (case mp_handle of None \<Rightarrow> 0 | Some p \<Rightarrow> sint (blk_whole p - blk_avail p))"

definition csi_kernel_mpool_get_capacity :: "mblk_pool option \<Rightarrow> 32 word" where
  "csi_kernel_mpool_get_capacity mp_handle = (case mp_handle of None \<Rightarrow> 0 | Some p \<Rightarrow> blk_whole p)"

definition csi_kernel_mpool_get_block_size :: "mblk_pool option \<Rightarrow> 32 word" where
  "csi_kernel_mpool_get_block_size mp_handle = (case mp_handle of None \<Rightarrow> 0 | Some p \<Rightarrow> blk_size p)"

section \<open>Heap\<close>

text \<open>The kernel and the heap of the kernel, which is guarded by the lock of the scheduler.\<close>

definition csi_kernel_malloc :: "32 word \<Rightarrow> kstate \<times> mheap option \<Rightarrow> (32 word \<times> kstate \<times> mheap option) outcome" where
  "csi_kernel_malloc sz x =
     (case x of (s, g) \<Rightarrow>
        if sint sz < 1 then Inr (0, s, g)
        else (let s = snd (csi_kernel_sched_suspend s)
              in bnd (krhino_mm_alloc sz g) (\<lambda>(ret, g).
                 bnd (csi_kernel_sched_resume s) (\<lambda>s. Inr (ret, s, g)))))"

definition csi_kernel_free :: "32 word \<Rightarrow> kstate \<times> mheap option \<Rightarrow> (kstate \<times> mheap option) outcome" where
  "csi_kernel_free ptr x =
     (case x of (s, g) \<Rightarrow>
        let s = snd (csi_kernel_sched_suspend s)
        in bnd (krhino_mm_free ptr g) (\<lambda>g. bnd (csi_kernel_sched_resume s) (\<lambda>s. Inr (s, g))))"

definition csi_kernel_realloc :: "32 word \<Rightarrow> 32 word \<Rightarrow> mheap option \<Rightarrow> (32 word \<times> mheap option) outcome" where
  "csi_kernel_realloc ptr sz g = krhino_mm_realloc ptr sz g"

definition csi_kernel_get_mminfo :: "mheap option \<Rightarrow> (int \<times> 32 word \<times> 32 word \<times> 32 word \<times> 32 word) outcome" where
  "csi_kernel_get_mminfo g =
     bnd (deref g) (\<lambda>h. Inr (0, used_size (hhead h) + free_size (hhead h), used_size (hhead h), free_size (hhead h),
       maxused_size (hhead h)))"

section \<open>The C library\<close>

text \<open>The allocation functions of \<^verbatim>\<open>malloc.c\<close>. \<open>memcpy\<close> and \<open>memset\<close> may end inside of a word (the bytes of a word are
  stored from the lowest to the highest): \<open>low_bytes n\<close> selects its first \<open>n\<close> bytes.\<close>

definition low_bytes :: "32 word \<Rightarrow> 32 word" where
  "low_bytes n = (if n < 4 then push_bit (8 * unat n) 1 - 1 else - 1)"

definition copy_bytes :: "32 word \<Rightarrow> 32 word \<Rightarrow> 32 word \<Rightarrow> pmem \<Rightarrow> pmem" where
  "copy_bytes dst src n m =
     (\<lambda>a. if a - dst < n
          then (let k = low_bytes (n - (a - dst)) in (m (src + (a - dst)) AND k) OR (m a AND NOT k)) else m a)"

definition zero_bytes :: "32 word \<Rightarrow> 32 word \<Rightarrow> pmem \<Rightarrow> pmem" where
  "zero_bytes dst n m = (\<lambda>a. if a - dst < n then m a AND NOT (low_bytes (n - (a - dst))) else m a)"

definition malloc :: "32 word \<Rightarrow> kstate \<times> mheap option \<Rightarrow> (32 word \<times> kstate \<times> mheap option) outcome" where
  "malloc sz x = csi_kernel_malloc sz x"

definition free :: "32 word \<Rightarrow> kstate \<times> mheap option \<Rightarrow> (kstate \<times> mheap option) outcome" where
  "free ptr x = csi_kernel_free ptr x"

definition realloc :: "32 word \<Rightarrow> 32 word \<Rightarrow> kstate \<times> mheap option \<Rightarrow> (32 word \<times> kstate \<times> mheap option) outcome" where
  "realloc ptr sz x =
     bnd (csi_kernel_malloc sz x) (\<lambda>(new_ptr, s, g).
       if new_ptr = 0 then Inr (new_ptr, s, g)
       else if ptr \<noteq> 0
       then bnd (csi_kernel_free ptr (s, map_option (\<lambda>h. h\<lparr>hmem := copy_bytes new_ptr ptr sz (hmem h)\<rparr>) g))
              (\<lambda>x. Inr (new_ptr, x))
       else Inr (new_ptr, s, g))"

definition calloc :: "32 word \<Rightarrow> 32 word \<Rightarrow> kstate \<times> mheap option \<Rightarrow> (32 word \<times> kstate \<times> mheap option) outcome" where
  "calloc nmemb sz x =
     bnd (csi_kernel_malloc (sz * nmemb) x) (\<lambda>(ptr, s, g).
       if ptr \<noteq> 0
       then Inr (ptr, s, map_option (\<lambda>h. h\<lparr>hmem := zero_bytes ptr (sz * nmemb) (hmem h)\<rparr>) g)
       else Inr (ptr, s, g))"

section \<open>The step of the heap\<close>

text \<open>\<open>csi_heap_call\<close> is the part of \<open>malloc\<close> and \<open>free\<close> that concerns the kernel, whatever the heap answers.\<close>

lemma malloc_heap_call:
  assumes "1 \<le> sint sz" "krhino_mm_alloc sz g = Inr (p, g')"
  shows "malloc sz (s, g) = bnd (csi_heap_call s) (\<lambda>s'. Inr (p, s', g'))"
  using assms by (simp add: malloc_def csi_kernel_malloc_def csi_heap_call_def Let_def)

lemma free_heap_call:
  assumes "krhino_mm_free p g = Inr g'"
  shows "free p (s, g) = bnd (csi_heap_call s) (\<lambda>s'. Inr (s', g'))"
  using assms by (simp add: free_def csi_kernel_free_def csi_heap_call_def Let_def)

end
