(* ===== verification/Dyn.thy ===== *)
theory Dyn
  imports Calls
begin

text \<open>
  Objects and tasks in memory of the heap: the services that create and delete them are as safe as their static
  counterparts. The deletion of a task hands its stack to the memory task, by giving the semaphore this task waits for.
\<close>

section \<open>Objects\<close>

lemma dyn_create_safe:
  assumes "safe s" "pred_option (unused s) a"
  shows "safe (snd (snd (krhino_sem_dyn_create nul a name n s)))" "safe (snd (snd (krhino_mutex_dyn_create nul a name s)))"
    "safe (snd (snd (krhino_event_dyn_create nul a name n s)))" "safe (snd (snd (krhino_buf_queue_dyn_create nul a buf name sz mx s)))"
proof -
  have u: "unused (upd_bq b f s) b" "safe (upd_bq b f s)" if "a = Some b" for b f
    using assms that by (simp_all add: safe_bq unused_def)
  show "safe (snd (snd (krhino_sem_dyn_create nul a name n s)))"
    using assms sem_create_flag_safe [OF assms(1)] by (cases a) (auto simp: krhino_sem_dyn_create_def case_prod_unfold)
  show "safe (snd (snd (krhino_mutex_dyn_create nul a name s)))"
    using assms mutex_create_flag_safe [OF assms(1)] by (cases a) (auto simp: krhino_mutex_dyn_create_def case_prod_unfold)
  show "safe (snd (snd (krhino_event_dyn_create nul a name n s)))"
    using assms event_create_flag_safe [OF assms(1)] by (cases a) (auto simp: krhino_event_dyn_create_def case_prod_unfold)
  show "safe (snd (snd (krhino_buf_queue_dyn_create nul a buf name sz mx s)))"
    using assms u buf_queue_create_flag_safe [OF u(2,1)]
    by (cases a) (auto simp: krhino_buf_queue_dyn_create_def case_prod_unfold Let_def)
qed

lemma dyn_create_heads:
  "heads (snd (snd (krhino_sem_dyn_create nul a name n s))) = heads s" "heads (snd (snd (krhino_mutex_dyn_create nul a name s))) = heads s"
  "heads (snd (snd (krhino_event_dyn_create nul a name n s))) = heads s"
  "heads (snd (snd (krhino_buf_queue_dyn_create nul a buf name sz mx s))) = heads s"
  by (auto simp: krhino_sem_dyn_create_def sem_create_def krhino_mutex_dyn_create_def mutex_create_def krhino_event_dyn_create_def
      event_create_def krhino_buf_queue_dyn_create_def buf_queue_create_def Let_def heads_simps split: option.splits)

lemma dyn_del_safe:
  assumes "safe s"
  shows "ok (krhino_sem_dyn_del b s) (\<lambda>(r, s'). safe s')" "ok (krhino_mutex_dyn_del b s) (\<lambda>(r, s'). safe s')"
    "ok (krhino_event_dyn_del b s) (\<lambda>(r, s'). safe s')" "ok (krhino_buf_queue_dyn_del b s) (\<lambda>(r, s'). safe s')"
  using assms sem_del_body_safe [OF assms] mutex_del_body_safe [OF assms] event_del_body_safe [OF assms] buf_queue_del_body_safe [OF assms]
  by (cases b; simp add: krhino_sem_dyn_del_def krhino_mutex_dyn_del_def krhino_event_dyn_del_def krhino_buf_queue_dyn_del_def ty_def)+

lemma dyn_del_heads:
  "krhino_sem_dyn_del b s = Inr (r, s') \<Longrightarrow> heads s' = heads s" "krhino_mutex_dyn_del b s = Inr (r, s') \<Longrightarrow> heads s' = heads s"
  "krhino_event_dyn_del b s = Inr (r, s') \<Longrightarrow> heads s' = heads s" "krhino_buf_queue_dyn_del b s = Inr (r, s') \<Longrightarrow> heads s' = heads s"
  by (auto simp: krhino_sem_dyn_del_def sem_del_body_def krhino_mutex_dyn_del_def mutex_del_body_def krhino_event_dyn_del_def
      event_del_body_def krhino_buf_queue_dyn_del_def buf_queue_del_body_def Let_def bnd_eq_Inr heads_simps
      split: option.splits if_splits dest!: heads_dest)

section \<open>Tasks\<close>

lemma task_dyn_create_steady:
  assumes "steady s" "g_sys_stat s = RHINO_RUNNING" "pred_option (\<lambda>x. snd x \<notin> live s) a"
  shows "ok (krhino_task_dyn_create nul a name p n sz f r s) (\<lambda>(e, x, s'). steady s')"
proof (cases a)
  case None
  then show ?thesis using assms(1) by (simp add: krhino_task_dyn_create_def task_dyn_create_def)
next
  case (Some y)
  obtain sb t where y: "y = (sb, t)" by fastforce
  have s: "safe s" "distinct (heads s)" "t \<notin> live s" using assms(1,3) Some y by (simp_all add: steady_def)
  obtain e s' where c: "task_create (Some t) name p n (Some sb) sz f r K_OBJ_DYN_ALLOC s = Inr (e, s')" "safe s'"
    using task_create_flag_safe [OF s(1,3) assms(2)] unfolding ok_iff by fast
  have "steady s'" using heads_create [OF c(1)] s(2,3) c(2) by (auto simp: steady_def live_def heads_def)
  then show ?thesis using assms(1) Some y c(1) by (simp add: krhino_task_dyn_create_def task_dyn_create_def)
qed

text \<open>The semaphore of the memory task is in use and not at its limit, and the lock of the scheduler can be counted up.\<close>

definition res_sem_ok :: "kstate \<Rightarrow> bool" where
  "res_sem_ok s \<longleftrightarrow> sem_ok s g_res_sem \<and> count (sems s g_res_sem) \<noteq> -1 \<and> g_sched_lock s \<noteq> -1"

text \<open>Giving a semaphore while the scheduler is locked: the active task stays.\<close>

lemma sem_give_locked:
  assumes s: "safe s" "sem_ok s b" "count (sems s b) \<noteq> -1" and l: "g_sched_lock s > 0"
  shows "ok (krhino_sem_give (Some b) s) (\<lambda>(r, s'). r = RHINO_SUCCESS \<and> safe s' \<and> g_active_task s' = g_active_task s \<and>
    g_sched_lock s' = g_sched_lock s \<and> g_intrpt_nested_level s' = g_intrpt_nested_level s \<and> g_kobj_list s' = g_kobj_list s)"
proof (cases "bl s b")
  case Nil
  have e: "g_active_task (upd_sem b f s) = g_active_task s" "g_sched_lock (upd_sem b f s) = g_sched_lock s"
    "g_intrpt_nested_level (upd_sem b f s) = g_intrpt_nested_level s" "g_kobj_list (upd_sem b f s) = g_kobj_list s" for f s
    by (simp_all add: upd_sem_def)
  show ?thesis
    using Nil s safe_same [OF sem_upd_same_sched]
    by (auto simp: krhino_sem_give_def sem_give_def sem_ok_def Let_def e bl_def ty_def)
next
  case (Cons t ts)
  have k: "kernel_inv s" using s(1) by (simp add: safe_def)
  obtain s' q where g: "krhino_sem_give (Some b) s = Inr (RHINO_SUCCESS, s')" "kernel_inv s'"
    and d: "sched_done (wake_result BLK_FINISH t q s) s'"
    using sem_give_wake [OF k s(2) Cons] by (auto simp: ok_iff)
  have "no_deadlock s'"
    using s(1) no_deadlock_subset [OF wait_rel_wake [of BLK_FINISH t q s]] safe_sched_done [OF d] by (simp add: safe_def)
  moreover have "g_active_task s' = g_active_task s" using d l by (auto simp: sched_done_def)
  ultimately show ?thesis using g by (simp add: safe_def sched_done_frame [OF d])
qed

lemma task_dyn_del_safe:
  assumes "steady s" "pred_option (\<lambda>t. t \<in> live s) x" "res_sem_ok s"
  shows "ok (krhino_task_dyn_del x s) (\<lambda>(r, s'). safe s')"
proof -
  have s: "safe s" "kinv (live s) s" "distinct (task_head (g_kobj_list s))"
    using assms(1) by (auto simp: steady_def safe_def kernel_inv_def struct_inv_def heads_def)
  obtain a where a: "g_active_task s = Some a" "a \<in> live s" using s(1) by (rule safe_active)
  define t where "t = (case x of None \<Rightarrow> a | Some t \<Rightarrow> t)"
  have tl: "t \<in> live s" using assms(2) a(2) by (cases x) (simp_all add: t_def)
  have e: "(case x of None \<Rightarrow> active s | Some t \<Rightarrow> Inr t) = Inr t" using a by (cases x) (simp_all add: t_def active_eq)
  show ?thesis
  proof (cases "g_intrpt_nested_level s > 0 \<or> pri s t = RHINO_IDLE_PRI \<or> t_mm_alloc_flag (tasks s t) \<noteq> K_OBJ_DYN_ALLOC \<or>
      (Some t = g_active_task s \<and> g_sched_lock s > 0) \<or> st s t = K_DELETED")
    case True
    then show ?thesis unfolding krhino_task_dyn_del_def e using s(1) by auto
  next
    case False
    then have n0: "g_intrpt_nested_level s = 0" and tn: "t \<noteq> g_idle_task" using kinv_D(7) [OF s(2)] by (auto simp: word_gt_0)
    define s1 where "s1 = s\<lparr>g_sched_lock := g_sched_lock s + 1,
      g_res_list := g_res_list s @ [\<lparr>res_cnt = 1, res = [task_stack_base (tasks s t)]\<rparr>]\<rparr>"
    have "safe (s\<lparr>g_sched_lock := g_sched_lock s + 1\<rparr>)"
      using n0 by (intro level_inv [OF s(1)]) (auto intro: active_ready [OF s(1)])
    moreover have "same_sched (s\<lparr>g_sched_lock := g_sched_lock s + 1\<rparr>) s1" by (simp add: s1_def same_sched_def view_defs fun_eq_iff)
    ultimately have i1: "safe s1" using safe_same by blast
    have v1: "g_sched_lock s1 = g_sched_lock s + 1" "g_active_task s1 = g_active_task s" "g_intrpt_nested_level s1 = 0"
      "g_kobj_list s1 = g_kobj_list s" "sem_ok s1 g_res_sem" "count (sems s1 g_res_sem) \<noteq> -1" "g_sched_lock s1 > 0"
      using n0 assms(3) by (auto simp: s1_def res_sem_ok_def sem_ok_def view_defs word_gt_0 eq_neg_iff_add_eq_0 add.commute)
    obtain s2 where g: "krhino_sem_give (Some g_res_sem) s1 = Inr (RHINO_SUCCESS, s2)" "safe s2" "g_active_task s2 = g_active_task s"
      "g_sched_lock s2 = g_sched_lock s + 1" "g_intrpt_nested_level s2 = 0" "g_kobj_list s2 = g_kobj_list s"
      using sem_give_locked [OF i1 v1(5-7)] by (auto simp: ok_iff v1)
    define s3 where "s3 = s2\<lparr>g_sched_lock := g_sched_lock s2 - 1\<rparr>"
    have i3: "safe s3" using g(5) by (intro level_inv [OF g(2)]) (auto simp: s3_def intro: active_ready [OF g(2)])
    have v3: "live s3 = live s" "distinct (task_head (g_kobj_list s3))" "g_active_task s3 = g_active_task s" "g_sched_lock s3 = g_sched_lock s"
      "g_intrpt_nested_level s3 = 0"
      using g s(3) by (simp_all add: s3_def live_def)
    have "kernel_inv s3" "no_deadlock s3" using i3 by (simp_all add: safe_def)
    from task_del_body [OF this _ v3(2) tn v3(5), of RHINO_SUCCESS] False tl v3 obtain s4 s5
      where "task_mutex_free t s3 = Inr s4" "task_del_state t s4 = Inr (Some s5)"
        "ok (exit_sched RHINO_SUCCESS (task_stats_rm t s5)) (\<lambda>(r, s'). safe s')"
      by (auto simp: word_gt_0 safe_def ok_iff)
    moreover have "krhino_task_dyn_del x s = bnd (task_mutex_free t s3) (\<lambda>s. bnd (task_del_state t s) (\<lambda>r.
        exit_sched RHINO_SUCCESS (task_stats_rm t (case r of None \<Rightarrow> s | Some s' \<Rightarrow> s'))))"
      unfolding krhino_task_dyn_del_def e using False g(1) by (auto simp: Let_def s3_def s1_def)
    ultimately show ?thesis by simp
  qed
qed

lemma task_dyn_del_heads: "krhino_task_dyn_del x s = Inr (r, s') \<Longrightarrow> distinct (heads s) \<Longrightarrow> distinct (heads s')"
proof -
  have st: "heads w = heads s" if "task_del_state t s = Inr (Some w)" for t s w
    using that by (auto simp: task_del_state_def bnd_eq_Inr heads_simps split: task_stat.splits dest!: heads_dest)
  have rm: "heads (task_stats_rm t w) = remove1 t (heads w)" for t w by (simp add: heads_def task_stats_rm_def upd_kobj_def)
  have rl: "heads (s\<lparr>g_res_list := l\<rparr>) = heads s" for l s by (simp add: heads_def)
  assume "krhino_task_dyn_del x s = Inr (r, s')" "distinct (heads s)"
  then show ?thesis
    by (auto simp: krhino_task_dyn_del_def krhino_sem_give_def bnd_eq_Inr task_mutex_free_def Let_def split: if_splits option.splits
        dest!: heads_free st heads_dest heads_sem(3) simp: rm rl heads_simps)
qed

end
