(* ===== verification/CsiSafe.thy ===== *)
theory CsiSafe
  imports Csi Dyn
begin

text \<open>
  The adapter as a transition system: any sequence of its calls, interrupts and ticks runs without a fault. This is the
  second interpretation of the locale \<open>fault_free\<close>. Unlike the services of the kernel, the adapter cannot be given a timeout
  beyond half the range of the tick counter.
\<close>

section \<open>The calls\<close>

datatype (plugins only: code size) csi_call =
    CsiSchedSuspend
  | CsiSchedResume
  | CsiTaskNew bool "string option" int "32 word" bool "32 word" bool "(nat \<times> tid) option"
  | CsiTaskDel "tid option"
  | CsiTaskSetPrio "tid option" int
  | CsiTaskSuspend "tid option"
  | CsiTaskResume "tid option"
  | CsiTaskExit
  | CsiTaskYield
  | CsiIntrptEnter
  | CsiIntrptExit
  | CsiTick
  | CsiDelay "32 word"
  | CsiDelayMs "32 word"
  | CsiTimerNew nat "nat option" int nat "nat option" "nat option" "nat \<Rightarrow> tmr_arg"
  | CsiTimerDel "nat option"
  | CsiTimerStart "nat option" "32 word"
  | CsiTimerStop "nat option"
  | CsiEventNew "oid option"
  | CsiEventDel "oid option"
  | CsiEventSet "oid option" "32 word" bool
  | CsiEventWait "oid option" "32 word" int "8 word" "nat option" "32 word"
  | CsiMutexNew "oid option"
  | CsiMutexDel "oid option"
  | CsiMutexLock "oid option" "32 word"
  | CsiMutexUnlock "oid option"
  | CsiSemNew "oid option" "32 word" "32 word"
  | CsiSemDel "oid option"
  | CsiSemWait "oid option" "32 word"
  | CsiSemPost "oid option"
  | CsiMsgqNew bool "oid option" "nat option" "32 word" "32 word"
  | CsiMsgqDel "mq_adapter option"
  | CsiMsgqPut "mq_adapter option" "(nat \<Rightarrow> byte) option" "8 word" "32 word"
  | CsiMsgqGet "mq_adapter option" "nat option" "32 word"
  | CsiMsgqFlush "mq_adapter option"
  | CsiHeap

text \<open>The calls that leave the data of the timer task alone, and all calls. The byte images of timer commands are
  arguments, as for the timer services. \<open>CsiHeap\<close> is what the kernel sees of a call of \<open>malloc\<close>, \<open>free\<close> or of the creation
  or deletion of a memory pool.\<close>

fun csi_kexec :: "csi_call \<Rightarrow> kstate \<Rightarrow> kstate outcome" where
  "csi_kexec CsiSchedSuspend s = Inr (snd (csi_kernel_sched_suspend s))"
| "csi_kexec CsiSchedResume s = csi_kernel_sched_resume s"
| "csi_kexec (CsiTaskNew nul name p q sn sz hn a) s = left3 (csi_kernel_task_new nul name p q sn sz hn a s)"
| "csi_kexec (CsiTaskDel t) s = left (csi_kernel_task_del t s)"
| "csi_kexec (CsiTaskSetPrio t p) s = left (csi_kernel_task_set_prio t p s)"
| "csi_kexec (CsiTaskSuspend t) s = left (csi_kernel_task_suspend t s)"
| "csi_kexec (CsiTaskResume t) s = left (csi_kernel_task_resume t s)"
| "csi_kexec CsiTaskExit s = csi_kernel_task_exit s"
| "csi_kexec CsiTaskYield s = left (csi_kernel_task_yield s)"
| "csi_kexec CsiIntrptEnter s = left (csi_kernel_intrpt_enter s)"
| "csi_kexec CsiIntrptExit s = left (csi_kernel_intrpt_exit s)"
| "csi_kexec CsiTick s = krhino_tick_proc s"
| "csi_kexec (CsiDelay n) s = left (csi_kernel_delay n s)"
| "csi_kexec (CsiDelayMs n) s = left (csi_kernel_delay_ms n s)"
| "csi_kexec (CsiEventNew a) s = Inr (snd (csi_kernel_event_new a s))"
| "csi_kexec (CsiEventDel b) s = left (csi_kernel_event_del b s)"
| "csi_kexec (CsiEventSet b fl nul) s = left3 (csi_kernel_event_set b fl nul s)"
| "csi_kexec (CsiEventWait b fl opt clr out n) s = left (csi_kernel_event_wait b fl opt clr out n s)"
| "csi_kexec (CsiMutexNew a) s = Inr (snd (csi_kernel_mutex_new a s))"
| "csi_kexec (CsiMutexDel b) s = left (csi_kernel_mutex_del b s)"
| "csi_kexec (CsiMutexLock b n) s = left (csi_kernel_mutex_lock b n s)"
| "csi_kexec (CsiMutexUnlock b) s = left (csi_kernel_mutex_unlock b s)"
| "csi_kexec (CsiSemNew a mx n) s = Inr (snd (csi_kernel_sem_new a mx n s))"
| "csi_kexec (CsiSemDel b) s = left (csi_kernel_sem_del b s)"
| "csi_kexec (CsiSemWait b n) s = left (csi_kernel_sem_wait b n s)"
| "csi_kexec (CsiSemPost b) s = left (csi_kernel_sem_post b s)"
| "csi_kexec (CsiMsgqNew hn a buf n sz) s = left (csi_kernel_msgq_new hn a buf n sz s)"
| "csi_kexec (CsiMsgqDel h) s = left (csi_kernel_msgq_del h s)"
| "csi_kexec (CsiMsgqPut h m fb n) s = left (csi_kernel_msgq_put h m fb n s)"
| "csi_kexec (CsiMsgqGet h m n) s = left (csi_kernel_msgq_get h m n s)"
| "csi_kexec (CsiMsgqFlush h) s = Inr (snd (csi_kernel_msgq_flush h s))"
| "csi_kexec CsiHeap s = csi_heap_call s"
| "csi_kexec _ s = Inr s"

fun csi_exec :: "(k_timer_queue_cb \<Rightarrow> nat \<Rightarrow> byte) \<Rightarrow> nat \<Rightarrow> k_timer_queue_cb \<Rightarrow> csi_call \<Rightarrow> tstate \<Rightarrow> tstate outcome" where
  "csi_exec img sz junk (CsiTimerNew cb f k arg g a targs) x =
     bnd (csi_kernel_timer_new img sz junk cb f k arg g a targs x) (\<lambda>(_, _, x). Inr x)"
| "csi_exec img sz junk (CsiTimerDel t) x = bnd (csi_kernel_timer_del img sz junk t x) (\<lambda>(_, x, _). Inr x)"
| "csi_exec img sz junk (CsiTimerStart t n) x = bnd (csi_kernel_timer_start img sz junk t n x) (\<lambda>(_, x). Inr x)"
| "csi_exec img sz junk (CsiTimerStop t) x = bnd (csi_kernel_timer_stop img sz junk t x) (\<lambda>(_, x). Inr x)"
| "csi_exec img sz junk c x = bnd (csi_kexec c (kern x)) (\<lambda>s. Inr (x\<lparr>kern := s\<rparr>))"

text \<open>What the application has to observe: the heap returns memory that is not in use, task handles belong to live tasks, the
  idle task does not wait, no lock closes a circle of waiting tasks, and interrupt exits match their entries. The semaphore
  of the memory task is the kernel's own.\<close>

fun csi_allowed :: "csi_call \<Rightarrow> kstate \<Rightarrow> bool" where
  "csi_allowed (CsiTaskNew nul name p q sn sz hn a) s = (g_sys_stat s = RHINO_RUNNING \<and> pred_option (\<lambda>x. snd x \<notin> live s) a)"
| "csi_allowed (CsiTaskDel t) s = (pred_option (\<lambda>x. x \<in> live s) t \<and> res_sem_ok s)"
| "csi_allowed CsiTaskExit s = res_sem_ok s"
| "csi_allowed (CsiTaskSetPrio t p) s = pred_option (\<lambda>x. x \<in> live s) t"
| "csi_allowed (CsiTaskSuspend t) s = pred_option (\<lambda>x. x \<in> live s) t"
| "csi_allowed (CsiTaskResume t) s = pred_option (\<lambda>x. x \<in> live s) t"
| "csi_allowed CsiTaskYield s = (g_intrpt_nested_level s = 0)"
| "csi_allowed CsiIntrptEnter s = (g_intrpt_nested_level s < RHINO_CONFIG_INTRPT_MAX_NESTED_LEVEL)"
| "csi_allowed CsiIntrptExit s = (g_intrpt_nested_level s > 0)"
| "csi_allowed (CsiDelay n) s = (g_active_task s \<noteq> Some g_idle_task)"
| "csi_allowed (CsiDelayMs n) s = (g_active_task s \<noteq> Some g_idle_task)"
| "csi_allowed (CsiEventNew a) s = pred_option (unused s) a"
| "csi_allowed (CsiMutexNew a) s = pred_option (unused s) a"
| "csi_allowed (CsiSemNew a mx n) s = pred_option (unused s) a"
| "csi_allowed (CsiMsgqNew hn a buf n sz) s = pred_option (unused s) a"
| "csi_allowed (CsiEventWait b fl opt clr out n) s = (g_active_task s \<noteq> Some g_idle_task)"
| "csi_allowed (CsiMutexLock b n) s = (g_active_task s \<noteq> Some g_idle_task \<and>
     (\<forall>x u. b = Some x \<and> own s x = Some u \<longrightarrow>
       (if g_active_task s = Some u then owner_nested (mutexes s x) \<noteq> -1
        else \<forall>a. g_active_task s = Some a \<longrightarrow> (u, a) \<notin> (wait_rel s)\<^sup>*)))"
| "csi_allowed (CsiSemWait b n) s = (g_active_task s \<noteq> Some g_idle_task)"
| "csi_allowed (CsiMsgqGet h m n) s = (g_active_task s \<noteq> Some g_idle_task)"
| "csi_allowed _ s = True"

section \<open>Every call is safe\<close>

lemma csi_timeout_ok: "timeout_ok (csi_timeout n)"
proof (cases "sint n < 0")
  case True
  have "0 < (- 1 :: tick)" by (simp add: word_gt_0)
  then show ?thesis using True by (auto simp: csi_timeout_def timeout_ok_def good_timeout_def RHINO_WAIT_FOREVER_def)
next
  case False
  have l: "unat n < 2 ^ 32" using unsigned_less [of n] by simp
  then have "unat (ucast n :: 64 word) = unat n" by (simp add: unsigned_ucast_eq take_bit_nat_eq_self_iff)
  with l show ?thesis
    using False by (auto simp: csi_timeout_def timeout_ok_def good_timeout_def RHINO_NO_WAIT_def word_gt_0)
qed

lemma steady_result:
  assumes "steady s" "ok m (\<lambda>(r, s'). safe s')" "\<And>r s'. m = Inr (r, s') \<Longrightarrow> heads s' = heads s"
  shows "ok m (\<lambda>(r, s'). steady s')"
  using assms by (cases m) (auto simp: steady_def)

lemma steady_kernel:
  assumes "steady s" "allowed c s"
  shows "exec c s = left m \<Longrightarrow> ok m (\<lambda>(r, s'). steady s')" "exec c s = left3 m' \<Longrightarrow> ok m' (\<lambda>(r, x, s'). steady s')"
    "exec c s = Inr s' \<Longrightarrow> steady s'"
  using kernel.keeps [OF assms] by (simp_all add: left_ok)

lemma suspend_steady: "steady s \<Longrightarrow> steady (snd (csi_kernel_sched_suspend s))"
  using steady_kernel(3) [of s SchedDisable] by (simp add: csi_kernel_sched_suspend_def)

lemma resume_steady: "steady s \<Longrightarrow> ok (csi_kernel_sched_resume s) steady"
  using steady_kernel(1) [of s SchedEnable "krhino_sched_enable s"] by (simp add: csi_kernel_sched_resume_def case_prod_unfold)

lemma heap_call_safe:
  assumes "safe s"
  shows "ok (csi_heap_call s) (\<lambda>s'. safe s' \<and> heads s' = heads s \<and> blks s' = blks s)"
proof -
  let ?s = "snd (csi_kernel_sched_suspend s)"
  have i: "safe ?s" using sched_disable_safe [OF assms] assms by (simp add: csi_kernel_sched_suspend_def)
  have v: "heads ?s = heads s" "blks ?s = blks s" by (simp_all add: csi_kernel_sched_suspend_def krhino_sched_disable_def heads_def)
  have "heads s' = heads w \<and> blks s' = blks w" if "krhino_sched_enable w = Inr (r, s')" for w r s'
    using that by (auto simp: krhino_sched_enable_def exit_sched_def core_sched_def preferred_cpu_ready_task_get_def cpu_task_switch_def
        heads_def Let_def bnd_eq_Inr split: if_splits)
  then show ?thesis
    using sched_enable_safe [OF i] i v unfolding csi_heap_call_def csi_kernel_sched_resume_def by (fastforce simp: ok_iff)
qed

lemma heap_call_steady: "steady s \<Longrightarrow> ok (csi_heap_call s) (\<lambda>s'. steady s' \<and> unused s' = unused s)"
  using heap_call_safe [of s] by (auto simp: steady_def unused_def ty_def bl_def fun_eq_iff elim!: ok_mono)

lemma suspend_keeps:
  "g_sys_stat (snd (csi_kernel_sched_suspend s)) = g_sys_stat s" "live (snd (csi_kernel_sched_suspend s)) = live s"
  by (simp_all add: csi_kernel_sched_suspend_def krhino_sched_disable_def live_def)

lemma csi_task_new_steady:
  assumes "steady s" "g_sys_stat s = RHINO_RUNNING" "pred_option (\<lambda>x. snd x \<notin> live s) a"
  shows "ok (csi_kernel_task_new nul name p q sn sz hn a s) (\<lambda>(r, h, s'). steady s')"
proof -
  let ?s = "snd (csi_kernel_sched_suspend s)"
  have "steady ?s" "g_sys_stat ?s = RHINO_RUNNING" "pred_option (\<lambda>x. snd x \<notin> live ?s) a"
    using suspend_steady [OF assms(1)] assms(2,3) by (simp_all add: suspend_keeps)
  note c = task_dyn_create_steady [OF this]
  show ?thesis
    unfolding csi_kernel_task_new_def Let_def
    using assms(1) by (auto intro!: ok_mono [OF c] intro: ok_mono [OF resume_steady])
qed

lemma csi_task_del_steady:
  assumes "steady s" "pred_option (\<lambda>t. t \<in> live s) x" "res_sem_ok s"
  shows "ok (csi_kernel_task_del x s) (\<lambda>(r, s'). steady s')"
proof -
  have "ok (krhino_task_dyn_del x s) (\<lambda>(r, s'). steady s')"
    using task_dyn_del_safe [OF assms] task_dyn_del_heads [of x s] assms(1) by (auto simp: steady_def ok_iff)
  then show ?thesis using assms(1) by (simp add: csi_kernel_task_del_def csi_call_status_def case_prod_unfold)
qed

lemma csi_new_steady:
  assumes "steady s" "pred_option (unused s) a"
  shows "steady (snd (csi_kernel_event_new a s))" "steady (snd (csi_kernel_mutex_new a s))"
    "steady (snd (csi_kernel_sem_new a mx n s))"
  using assms dyn_create_safe [of s a] dyn_create_heads
  by (auto simp: steady_def csi_kernel_event_new_def csi_kernel_mutex_new_def csi_kernel_sem_new_def case_prod_unfold)

lemma csi_msgq_new_steady:
  assumes "steady s" "pred_option (unused s) a"
  shows "ok (csi_kernel_msgq_new hn a buf m sz s) (\<lambda>(r, s'). steady s')"
proof -
  have c: "steady (snd (snd (krhino_buf_queue_dyn_create False a buf name l k s')))" if "steady s'" "unused s' = unused s" for s' name l k
    using that assms(2) dyn_create_safe [of s' a] dyn_create_heads by (auto simp: steady_def)
  show ?thesis
    unfolding csi_kernel_msgq_new_def
    using assms(1) by (auto simp: case_prod_unfold intro!: ok_mono [OF heap_call_steady] c)
qed

lemma csi_del_steady:
  assumes "steady s"
  shows "ok (csi_kernel_event_del b s) (\<lambda>(r, s'). steady s')" "ok (csi_kernel_mutex_del b s) (\<lambda>(r, s'). steady s')"
    "ok (csi_kernel_sem_del b s) (\<lambda>(r, s'). steady s')" "ok (csi_kernel_msgq_del h s) (\<lambda>(r, s'). steady s')"
proof -
  have "safe s" using assms by (simp add: steady_def)
  note d = dyn_del_safe [OF this, THEN steady_result [OF assms]]
  show "ok (csi_kernel_event_del b s) (\<lambda>(r, s'). steady s')" "ok (csi_kernel_mutex_del b s) (\<lambda>(r, s'). steady s')"
    "ok (csi_kernel_sem_del b s) (\<lambda>(r, s'). steady s')"
    using assms d(1-3) dyn_del_heads(1-3)
    by (simp_all add: csi_kernel_event_del_def csi_kernel_mutex_del_def csi_kernel_sem_del_def csi_call_status_def case_prod_unfold)
  show "ok (csi_kernel_msgq_del h s) (\<lambda>(r, s'). steady s')"
  proof (cases h)
    case None
    then show ?thesis using assms by (simp add: csi_kernel_msgq_del_def)
  next
    case (Some q)
    have "ok (krhino_buf_queue_dyn_del (Some (buf_q q)) s) (\<lambda>(r, s'). steady s')" using d(4) dyn_del_heads(4) by blast
    then show ?thesis
      using Some by (auto simp: csi_kernel_msgq_del_def intro: ok_mono [OF heap_call_steady] elim!: ok_mono)
  qed
qed

lemmas csi_simps = left_ok csi_call_status_def case_prod_unfold csi_timeout_ok

lemma csi_task_calls_steady:
  assumes s: "steady s" and t: "pred_option (\<lambda>x. x \<in> live s) t"
  shows "ok (csi_kernel_task_set_prio t p s) (\<lambda>(r, s'). steady s')" "ok (csi_kernel_task_suspend t s) (\<lambda>(r, s'). steady s')"
    "ok (csi_kernel_task_resume t s) (\<lambda>(r, s'). steady s')"
  using s t steady_kernel(2) [OF s, of "TaskPriChange t _ False" "krhino_task_pri_change t _ False s"]
    steady_kernel(1) [OF s, of "TaskSuspend t" "krhino_task_suspend t s"] steady_kernel(1) [OF s, of "TaskResume t" "krhino_task_resume t s"]
  by (simp_all add: csi_kernel_task_set_prio_def csi_kernel_task_suspend_def csi_kernel_task_resume_def csi_simps)

lemma csi_task_exit_steady:
  assumes "steady s" "res_sem_ok s"
  shows "ok (csi_kernel_task_exit s) steady"
proof -
  obtain a where "g_active_task s = Some a" "a \<in> live s" using assms(1) safe_active by (auto simp: steady_def)
  then show ?thesis
    using csi_task_del_steady [OF assms(1) _ assms(2), of "Some a"]
    by (simp add: csi_kernel_task_exit_def csi_kernel_task_get_cur_def case_prod_unfold)
qed

lemma csi_yield_steady:
  assumes s: "steady s"
  shows "g_intrpt_nested_level s = 0 \<Longrightarrow> ok (csi_kernel_task_yield s) (\<lambda>(r, s'). steady s')"
    "g_intrpt_nested_level s < RHINO_CONFIG_INTRPT_MAX_NESTED_LEVEL \<Longrightarrow> ok (csi_kernel_intrpt_enter s) (\<lambda>(r, s'). steady s')"
    "g_intrpt_nested_level s > 0 \<Longrightarrow> ok (csi_kernel_intrpt_exit s) (\<lambda>(r, s'). steady s')"
    "ok (krhino_tick_proc s) steady"
  using s steady_kernel(1) [OF s, of TaskYield "krhino_task_yield s"] steady_kernel(1) [OF s, of IntrptEnter "krhino_intrpt_enter s"]
    kernel.keeps [OF s, of IntrptExit] kernel.keeps [OF s, of TickProc]
  by (simp_all add: csi_kernel_task_yield_def csi_kernel_intrpt_enter_def csi_kernel_intrpt_exit_def csi_simps)

lemma csi_delay_range:
  "unat (ucast n :: tick) < 2 ^ 63" "unat (csi_kernel_ms2tick n) < 2 ^ 63" for n :: "32 word"
proof -
  have l: "unat n < 2 ^ 32" using unsigned_less [of n] by simp
  then have "unat (ucast n :: tick) = unat n" by (simp add: unsigned_ucast_eq take_bit_nat_eq_self_iff)
  then show u: "unat (ucast n :: tick) < 2 ^ 63" using l by simp
  have "unat ((ucast n :: tick) div d) \<le> unat (ucast n :: tick)" for d by (simp add: unat_div_distrib)
  then show "unat (csi_kernel_ms2tick n) < 2 ^ 63" using u le_less_trans unfolding csi_kernel_ms2tick_def by auto
qed

lemma csi_delay_steady:
  assumes s: "steady s" and a: "g_active_task s \<noteq> Some g_idle_task"
  shows "ok (csi_kernel_delay n s) (\<lambda>(r, s'). steady s')" "ok (csi_kernel_delay_ms n s) (\<lambda>(r, s'). steady s')"
proof -
  have "ok (krhino_task_sleep m s) (\<lambda>(r, s'). steady s')" if "unat m < 2 ^ 63" for m
    using a that steady_kernel(1) [OF s, of "TaskSleep m" "krhino_task_sleep m s"] by simp
  then show "ok (csi_kernel_delay n s) (\<lambda>(r, s'). steady s')" "ok (csi_kernel_delay_ms n s) (\<lambda>(r, s'). steady s')"
    using csi_delay_range by (simp_all add: csi_kernel_delay_def csi_kernel_delay_ms_def Let_def csi_simps)
qed

lemma csi_wait_steady:
  assumes s: "steady s" and a: "g_active_task s \<noteq> Some g_idle_task"
  shows "ok (csi_kernel_event_wait b fl opt clr out n s) (\<lambda>(r, s'). steady s')" "ok (csi_kernel_sem_wait b n s) (\<lambda>(r, s'). steady s')"
    "ok (csi_kernel_msgq_get h out n s) (\<lambda>(r, s'). steady s')"
proof -
  show "ok (csi_kernel_event_wait b fl opt clr out n s) (\<lambda>(r, s'). steady s')" "ok (csi_kernel_sem_wait b n s) (\<lambda>(r, s'). steady s')"
    using s a steady_kernel(1) [OF s, of "EventGet b fl _ out (csi_timeout n)" "krhino_event_get b fl _ out (csi_timeout n) s"]
      steady_kernel(1) [OF s, of "SemTake b (csi_timeout n)" "krhino_sem_take b (csi_timeout n) s"]
    by (simp_all add: csi_kernel_event_wait_def csi_kernel_sem_wait_def Let_def csi_simps)
  show "ok (csi_kernel_msgq_get h out n s) (\<lambda>(r, s'). steady s')"
    using s a steady_kernel(2) [OF s, of "BufQueueRecv _ (csi_timeout n) out False" "krhino_buf_queue_recv _ (csi_timeout n) out False s"]
    by (cases h) (simp_all add: csi_kernel_msgq_get_def csi_simps)
qed

lemma csi_lock_steady:
  assumes s: "steady s" and a: "csi_allowed (CsiMutexLock b n) s"
  shows "ok (csi_kernel_mutex_lock b n s) (\<lambda>(r, s'). steady s')"
proof -
  have "allowed (MutexLock b (csi_timeout n)) s" using a csi_timeout_ok unfolding csi_allowed.simps allowed.simps by blast
  from steady_kernel(1) [OF s this, of "krhino_mutex_lock b (csi_timeout n) s"] show ?thesis
    using s by (simp add: csi_kernel_mutex_lock_def csi_simps)
qed

lemma buf_send_steady:
  assumes s: "steady s"
  shows "ok (krhino_buf_queue_send b m n s) (\<lambda>(r, s'). steady s')"
  using s send_calls_safe(7) [of s b m n] by (intro steady_result [OF s]) (auto simp: steady_def dest: heads_bq(3))

lemma csi_send_steady:
  assumes s: "steady s"
  shows "ok (csi_kernel_event_set b fl nul s) (\<lambda>(r, x, s'). steady s')" "ok (csi_kernel_mutex_unlock b s) (\<lambda>(r, s'). steady s')"
    "ok (csi_kernel_sem_post b s) (\<lambda>(r, s'). steady s')" "ok (csi_kernel_msgq_put h m fb n s) (\<lambda>(r, s'). steady s')"
    "steady (snd (csi_kernel_msgq_flush h s))"
proof -
  show "ok (csi_kernel_event_set b fl nul s) (\<lambda>(r, x, s'). steady s')"
    using s steady_kernel(1) [OF s, of "EventSet b fl RHINO_OR" "krhino_event_set b fl RHINO_OR s"]
    by (cases b) (auto simp: csi_kernel_event_set_def csi_simps elim!: ok_mono)
  show "ok (csi_kernel_mutex_unlock b s) (\<lambda>(r, s'). steady s')" "ok (csi_kernel_sem_post b s) (\<lambda>(r, s'). steady s')"
    using s steady_kernel(1) [OF s, of "MutexUnlock b" "krhino_mutex_unlock b s"] steady_kernel(1) [OF s, of "SemGive b" "krhino_sem_give b s"]
    by (simp_all add: csi_kernel_mutex_unlock_def csi_kernel_sem_post_def csi_simps)
  show "ok (csi_kernel_msgq_put h m fb n s) (\<lambda>(r, s'). steady s')"
    using s buf_send_steady [OF s] by (cases h) (simp_all add: csi_kernel_msgq_put_def csi_simps)
  show "steady (snd (csi_kernel_msgq_flush h s))"
    using s steady_kernel(3) [OF s, of "BufQueueFlush _"] by (cases h) (simp_all add: csi_kernel_msgq_flush_def case_prod_unfold)
qed

lemma csi_kexec_steady:
  assumes "steady s" "csi_allowed c s"
  shows "ok (csi_kexec c s) steady"
proof (cases c)
  case (CsiMutexLock b n)
  then show ?thesis using csi_lock_steady [OF assms(1)] assms(2) by (simp add: left_ok del: csi_allowed.simps)
qed (use assms in \<open>simp_all add: left_ok suspend_steady resume_steady csi_task_new_steady csi_task_del_steady csi_task_calls_steady
  csi_task_exit_steady csi_yield_steady csi_delay_steady csi_wait_steady csi_send_steady csi_new_steady csi_msgq_new_steady csi_del_steady ok_mono [OF heap_call_steady]\<close>)

section \<open>Timers\<close>

lemma timer_send_steady: "steady (kern x) \<Longrightarrow> ok (timer_send img sz cb x) (\<lambda>(r, x'). steady (kern x'))"
  using buf_send_steady by (simp add: timer_send_def case_prod_unfold)

lemma csi_timer_steady:
  assumes x: "steady (kern x)"
  shows "ok (csi_kernel_timer_new img sz junk cb f k arg g a targs x) (\<lambda>(r, ta, x'). steady (kern x'))"
    "ok (csi_kernel_timer_del img sz junk t x) (\<lambda>(r, x', d). steady (kern x'))"
    "ok (csi_kernel_timer_start img sz junk t n x) (\<lambda>(r, x'). steady (kern x'))"
    "ok (csi_kernel_timer_stop img sz junk t x) (\<lambda>(r, x'). steady (kern x'))"
proof -
  note snd = timer_send_steady [of _ img sz]
  have cmd: "ok (timer_simple_cmd img sz junk c t x) (\<lambda>(r, x'). steady (kern x'))" if "steady (kern x)" for c t x
    using that snd by (cases t) (simp_all add: timer_simple_cmd_def)
  show "ok (csi_kernel_timer_new img sz junk cb f k arg g a targs x) (\<lambda>(r, ta, x'). steady (kern x'))"
    using x by (cases g; cases a) (auto simp: csi_kernel_timer_new_def krhino_timer_dyn_create_def timer_create_def upd_timer_def Let_def
        intro!: ok_mono [OF heap_call_steady])
  show "ok (csi_kernel_timer_del img sz junk t x) (\<lambda>(r, x', d). steady (kern x'))"
    using x cmd [OF x, of TIMER_CMD_DYN_DEL t]
    by (cases t) (auto simp: csi_kernel_timer_del_def krhino_timer_dyn_del_def intro: ok_mono [OF heap_call_steady] elim!: ok_mono)
  show "ok (csi_kernel_timer_stop img sz junk t x) (\<lambda>(r, x'). steady (kern x'))"
    using x cmd [OF x, of TIMER_CMD_STOP t] by (simp add: csi_kernel_timer_stop_def krhino_timer_stop_def csi_simps)
  show "ok (csi_kernel_timer_start img sz junk t n x) (\<lambda>(r, x'). steady (kern x'))"
  proof (cases t)
    case None
    then show ?thesis using x by (simp add: csi_kernel_timer_start_def)
  next
    case (Some i)
    define tr :: tick where "tr = (if round_ticks (timers x i) \<noteq> 0 then ucast n else 0)"
    have "ok (krhino_timer_change img sz junk t (ucast n) tr x) (\<lambda>(r, x'). steady (kern x'))"
      using x snd Some by (simp add: krhino_timer_change_def)
    then obtain r y where "krhino_timer_change img sz junk t (ucast n) tr x = Inr (r, y)" "steady (kern y)" by (auto simp: ok_iff)
    moreover have "ok (csi_call_status (krhino_timer_start img sz junk t x')) (\<lambda>(r, x'). steady (kern x'))" if "steady (kern x')" for x'
      using cmd [OF that] by (simp add: krhino_timer_start_def csi_simps)
    ultimately show ?thesis
      using Some x by (simp add: csi_kernel_timer_start_def Let_def flip: tr_def)
  qed
qed

section \<open>No fault\<close>

interpretation csi: fault_free "csi_exec img sz junk" "\<lambda>c x. csi_allowed c (kern x)" "\<lambda>x :: tstate. steady (kern x)" for img sz junk
proof
  fix x :: tstate and c assume "steady (kern x)" "csi_allowed c (kern x)"
  then show "ok (csi_exec img sz junk c x) (\<lambda>x. steady (kern x))"
    using csi_kexec_steady [of "kern x" c] csi_timer_steady [of x img sz junk]
    by (cases c) (simp_all add: case_prod_unfold del: csi_allowed.simps csi_kexec.simps)
qed

end
