(* ===== verification/CsiApi.thy ===== *)
theory CsiApi
  imports CsiSafe
begin

text \<open>
  Theorems on the adapter: freedom from faults from the reset on, memory allocation under the lock of the scheduler, priorities,
  the room in message queues, the list of tasks and the deletion of timers.
\<close>

section \<open>From reset\<close>

text \<open>
  C2. Through the adapter, from reset: initialisation succeeds and hands over a heap in order, start hands over to the first
  task, and whatever sequence of adapter calls (those that take or release memory, with their suspension of the scheduler,
  among them), interrupts and ticks follows that observes \<open>csi_allowed\<close>, the kernel invariant holds ever after, no
  tasks wait for each other in a circle, and no allowed call faults.
\<close>

theorem csi_fault_free:
  assumes "at_reset (kern x)" "stacks_ok e" "heap_space_ok e"
  shows "ok (csi_kernel_init e x h) (\<lambda>(r, x', g). r = 0 \<and> heap_ready e g \<and> ok (csi_kernel_start (kern x')) (\<lambda>(r, s). r = CPending \<and>
    csi_kernel_get_stat s = KSCHED_ST_RUNNING \<and>
    (\<forall>img sz junk cs y. steps (csi_exec img sz junk) (\<lambda>c x. csi_allowed c (kern x)) (x'\<lparr>kern := s\<rparr>) cs y \<longrightarrow>
      kernel_inv (kern y) \<and> no_deadlock (kern y) \<and>
      (\<forall>c. csi_allowed c (kern y) \<longrightarrow> (\<exists>y'. csi_exec img sz junk c y = Inr y')))))"
proof -
  have s: "ok (csi_kernel_start (kern x')) (\<lambda>(r, s). r = CPending \<and> csi_kernel_get_stat s = KSCHED_ST_RUNNING \<and> steady s)"
    if "boot_inv (kern x')" "g_idle_task \<in> live (kern x')" "pri (kern x') g_idle_task = 61" for x'
    using boot_ready [OF that] by (auto simp: csi_kernel_start_def csi_kernel_get_stat_def steadyI elim!: ok_mono)
  have c: "kernel_inv (kern y) \<and> no_deadlock (kern y) \<and> (\<forall>c. csi_allowed c (kern y) \<longrightarrow> (\<exists>y'. csi_exec img sz junk c y = Inr y'))"
    if "steady (kern z)" "steps (csi_exec img sz junk) (\<lambda>c x. csi_allowed c (kern x)) z cs y" for z y img sz junk cs
    using csi.steps_inv [OF that(2,1)] csi.keeps [of y] steadyD [of "kern y"] unfolding ok_iff by blast
  show ?thesis
    unfolding csi_kernel_init_def csi_call_status_def ok_bnd
  proof (rule ok_mono [OF init_ok [OF assms]], clarsimp simp: csi_status_def)
    fix x' :: tstate
    assume b: "boot_inv (kern x')" "live (kern x') = {g_dyn_task, g_idle_task, g_timer_task, g_cpu_usage_task}" "pri (kern x') g_idle_task = 61"
    show "ok (csi_kernel_start (kern x')) (\<lambda>(r, s). r = CPending \<and> csi_kernel_get_stat s = KSCHED_ST_RUNNING \<and>
      (\<forall>img sz junk cs y. steps (csi_exec img sz junk) (\<lambda>c x. csi_allowed c (kern x)) (x'\<lparr>kern := s\<rparr>) cs y \<longrightarrow>
        kernel_inv (kern y) \<and> no_deadlock (kern y) \<and> (\<forall>c. csi_allowed c (kern y) \<longrightarrow> (\<exists>y'. csi_exec img sz junk c y = Inr y'))))"
      by (rule ok_mono [OF s [OF b(1) _ b(3)]], simp add: b(2), clarify)
        (rule conjI, simp, rule conjI, assumption, intro allI impI, rule c [rotated], assumption, simp)
  qed
qed

theorem csi_fault_free_witness:
  "ok (csi_kernel_init ex_env ex_reset heap0) (\<lambda>(r, x', g). r = 0 \<and> heap_ready ex_env g \<and> ok (csi_kernel_start (kern x')) (\<lambda>(r, s). csi_kernel_get_stat s = 2))"
  using csi_fault_free [OF ex_reset_ok ex_env_ok, of heap0] by (auto simp: ok_iff KSCHED_ST_RUNNING_def)

section \<open>Memory\<close>

lemma suspend_resume:
  assumes "safe s" "g_sched_lock s < SCHED_MAX_LOCK_COUNT"
  shows "ok (csi_kernel_sched_resume (snd (csi_kernel_sched_suspend s))) (\<lambda>s'. safe s' \<and> g_sched_lock s' = g_sched_lock s \<and> tasks s' = tasks s)"
proof (cases "g_sys_stat s = RHINO_RUNNING \<and> g_intrpt_nested_level s = 0")
  case False
  then show ?thesis
    using assms(1) by (auto simp: csi_kernel_sched_resume_def csi_kernel_sched_suspend_def krhino_sched_disable_def krhino_sched_enable_def word_gt_0)
next
  case True
  have "g_sched_lock s \<noteq> -1" using assms(2) by (auto simp: SCHED_MAX_LOCK_COUNT_def)
  then have l: "g_sched_lock s + 1 \<noteq> 0" by (simp add: eq_neg_iff_add_eq_0)
  have "s\<lparr>g_sched_lock := g_sched_lock s\<rparr> = s" by simp
  then show ?thesis
  proof (cases "g_sched_lock s = 0")
    case z: True
    then have e: "s\<lparr>g_sched_lock := 0\<rparr> = s" by simp
    obtain s' where "exit_sched RHINO_SUCCESS s = Inr (RHINO_SUCCESS, s')" "kernel_inv s'" and d: "sched_done s s'"
      using kernel_exit [of s] assms(1) by (auto simp: ok_iff safe_def)
    then show ?thesis
      using True z l assms safe_sched_done [OF d]
      by (auto simp: csi_kernel_sched_resume_def csi_kernel_sched_suspend_def krhino_sched_disable_def krhino_sched_enable_def Let_def e
          sched_done_frame [OF d] safe_def not_le)
  qed (use True l assms in \<open>auto simp: csi_kernel_sched_resume_def csi_kernel_sched_suspend_def krhino_sched_disable_def
    krhino_sched_enable_def Let_def word_gt_0 not_le\<close>)
qed

text \<open>At the largest depth of the lock the suspension is refused, which \<open>malloc\<close> and \<open>free\<close> do not notice, and the resume still counts
  down: the caller has lost one level of its lock.\<close>

lemma heap_call_unbalanced:
  assumes "g_sys_stat s = RHINO_RUNNING" "g_intrpt_nested_level s = 0" "g_sched_lock s = SCHED_MAX_LOCK_COUNT"
  shows "csi_heap_call s = Inr (s\<lparr>g_sched_lock := SCHED_MAX_LOCK_COUNT - 1\<rparr>)"
  using assms by (simp add: csi_heap_call_def csi_kernel_sched_resume_def csi_kernel_sched_suspend_def krhino_sched_disable_def
      krhino_sched_enable_def Let_def SCHED_MAX_LOCK_COUNT_def)

lemma sint_nonneg:
  fixes n :: "32 word"
  assumes "0 \<le> sint n"
  shows "sint n = int (unat n)" "unat n < 2 ^ 31"
proof -
  have u: "0 \<le> uint n" "uint n < 2 ^ 32" using unsigned_less [of n] by simp_all
  have s: "sint n = signed_take_bit 31 (uint n)" by (simp add: sint_uint)
  have "uint n < 2 ^ 31"
  proof (rule ccontr)
    assume "\<not> uint n < 2 ^ 31"
    then have "signed_take_bit 31 (uint n - 2 ^ 32) = uint n - 2 ^ 32" using u by (intro signed_take_bit_int_eq_self) auto
    moreover have "signed_take_bit 31 (uint n - 2 ^ 32) = signed_take_bit 31 (uint n)"
      by (simp add: signed_take_bit_eq_iff_take_bit_eq take_bit_eq_mod mod_diff_eq)
    ultimately have "sint n = uint n - 2 ^ 32" using s by simp
    then show False using assms u(2) by linarith
  qed
  then have "int (unat n) < 2 ^ 31" by simp
  then show "unat n < 2 ^ 31" using of_nat_less_iff [of "unat n" "2 ^ 31", where 'a = int] by simp
  have "signed_take_bit 31 (uint n) = uint n" using \<open>uint n < 2 ^ 31\<close> u(1)
    by (intro signed_take_bit_int_eq_self) (auto intro: order_trans [of _ 0])
  then show "sint n = int (unat n)" unfolding s by simp
qed


text \<open>
  C11. Allocation through the adapter: a positive request of at least two bytes gives a buffer of at least that size that was not
  handed out before and leaves all others as they are, or NULL and no change when no free block is large enough; the lock of the
  scheduler is as deep afterwards as before and the kernel invariant is kept. Every request the adapter
  passes on is within the limits of the heap.
\<close>

theorem csi_malloc_refines:
  assumes "kernel_inv s" "no_deadlock s" "g_sched_lock s < SCHED_MAX_LOCK_COUNT" "mm_inv L F po S h" "2 \<le> sint n"
  shows "ok (csi_kernel_malloc n (s, Some h)) (\<lambda>(p, s', g). kernel_inv s' \<and> no_deadlock s' \<and> g_sched_lock s' = g_sched_lock s \<and> tasks s' = tasks s \<and>
    (\<exists>h'. g = Some h' \<and>
      (if p = 0 then h' = h \<and> (\<forall>x B. L x = Some B \<and> mfree B \<longrightarrow> msz B < round_up (ask (unat n)))
       else \<exists>a k L' F' S'. p = of_nat a \<and> a < 2 ^ 32 \<and> client L po S a = None \<and> sint n \<le> int k \<and> mm_inv L' F' po S' h' \<and>
         client L' po S' = (client L po S)(a \<mapsto> k) \<and> inside L L' \<and> keeps (client L po S) (hmem h) (hmem h'))))"
proof -
  have n: "sint n = int (unat n)" "unat n < 2 ^ 31" using sint_nonneg [of n] assms(5) by simp_all
  have "int 2 \<le> int (unat n)" using assms(5) n(1) by simp
  then have "2 \<le> unat n" unfolding of_nat_le_iff .
  moreover from this have "n \<noteq> 0" by auto
  ultimately have l: "2 \<le> unat n" "unat n \<le> 0xFC000000" "n \<noteq> 0" using n(2) by simp_all
  have s: "safe s" using assms(1,2) by (simp add: safe_def)
  obtain s' where s': "csi_kernel_sched_resume (snd (csi_kernel_sched_suspend s)) = Inr s'" "safe s'" "g_sched_lock s' = g_sched_lock s" "tasks s' = tasks s"
    using suspend_resume [OF s assms(3)] by (auto simp: ok_iff)
  have e: "csi_kernel_malloc n (s, Some h) = bnd (k_mm_alloc (of_nat (unat n)) h) (\<lambda>(p, h'). Inr (p, s', Some h'))"
    using s'(1) assms(5) l(3) by (cases "k_mm_alloc n h") (auto simp: csi_kernel_malloc_def krhino_mm_alloc_def Let_def)
  have le: "sint n \<le> int k \<longleftrightarrow> unat n \<le> k" for k unfolding n(1) of_nat_le_iff ..
  show ?thesis
    unfolding e ok_bnd le
  proof (rule ok_mono [OF k_mm_alloc_ok [OF assms(4) l(1,2)]], clarify)
    fix p :: "32 word" and h' assume "if p = 0 then h' = h \<and> (\<forall>x B. L x = Some B \<and> mfree B \<longrightarrow> msz B < round_up (ask (unat n)))
      else \<exists>a k L' F' S'. p = of_nat a \<and> a < 2 ^ 32 \<and> client L po S a = None \<and> unat n \<le> k \<and> mm_inv L' F' po S' h' \<and>
        client L' po S' = (client L po S)(a \<mapsto> k) \<and> inside L L' \<and> keeps (client L po S) (hmem h) (hmem h')"
    then show "ok (Inr (p, s', Some h')) (\<lambda>(p, s', g). kernel_inv s' \<and> no_deadlock s' \<and> g_sched_lock s' = g_sched_lock s \<and> tasks s' = tasks s \<and>
      (\<exists>h'. g = Some h' \<and> (if p = 0 then h' = h \<and> (\<forall>x B. L x = Some B \<and> mfree B \<longrightarrow> msz B < round_up (ask (unat n)))
        else \<exists>a k L' F' S'. p = of_nat a \<and> a < 2 ^ 32 \<and> client L po S a = None \<and> unat n \<le> k \<and> mm_inv L' F' po S' h' \<and>
          client L' po S' = (client L po S)(a \<mapsto> k) \<and> inside L L' \<and> keeps (client L po S) (hmem h) (hmem h'))))"
      using s' by (auto simp: safe_def split del: if_split)
  qed
qed

theorem csi_malloc_refines_witness:
  "\<exists>L F h. mm_inv L F None {} h \<and> ok (csi_kernel_malloc 100 (ex_state, Some h)) (\<lambda>(p, s', g). p \<noteq> 0 \<and> kernel_inv s')"
proof -
  obtain L F h x B where e: "mm_inv L F None {} h" "L x = Some B" "mfree B" "msz B = 3136" by (rule example_heap)
  have r: "round_up (ask (unat (100 :: 32 word))) = 100" by (simp add: round_up_def ask_def)
  have l: "g_sched_lock ex_state < SCHED_MAX_LOCK_COUNT" by (simp add: SCHED_MAX_LOCK_COUNT_def)
  have "ok (csi_kernel_malloc 100 (ex_state, Some h)) (\<lambda>(p, s', g). p \<noteq> 0 \<and> kernel_inv s')"
    by (rule ok_mono [OF csi_malloc_refines [OF ex_kernel_inv ex_no_deadlock l e(1), of 100]])
      (use e r in \<open>fastforce split: if_splits\<close>)+
  then show ?thesis using e(1) by blast
qed

section \<open>Priorities\<close>

lemma finite_donated: "finite (donated rel t s)"
proof (rule finite_subset)
  show "donated rel t s \<subseteq> pri s ` (\<Union>b \<in> set (held s t). set (bl s b))" by (auto simp: donated_def)
qed simp

text \<open>
  C16. Priorities of the adapter: setting one of its priorities of a task succeeds, and reading it back gives this priority, or
  the highest priority of the tasks that wait for mutexes of the task, if that is higher; without such
  tasks it is exactly the priority that was set.
\<close>

theorem csi_prio_round_trip:
  assumes "kernel_inv s" "no_deadlock s" "t \<in> live s" "pri s t < RHINO_IDLE_PRI" "g_intrpt_nested_level s = 0"
    "KPRIO_IDLE < p" "p \<le> KPRIO_REALTIME7"
  shows "ok (csi_kernel_task_set_prio (Some t) p s) (\<lambda>(r, s'). r = 0 \<and> kernel_inv s' \<and> no_deadlock s' \<and>
    csi_kernel_task_get_prio (Some t) s' = Max (insert p ((\<lambda>q. 60 - int q) ` donated None t s)))"
proof -
  define q where "q = nat (60 - p)"
  have q: "q < RHINO_IDLE_PRI" "int q = 60 - p" "q \<le> 60"
    using assms(6,7) by (auto simp: q_def KPRIO_IDLE_def KPRIO_REALTIME7_def)
  define D where "D = donated None t s"
  have f: "finite D" by (simp add: D_def finite_donated)
  have m: "Min (insert q D) \<le> 60" using q(3) f by (meson Min_le finite.insertI insertI1 le_trans)
  have x: "Max (insert p ((\<lambda>q. 60 - int q) ` D)) = 60 - int (Min (insert q D))"
  proof (rule Max_eqI)
    have "Min (insert q D) \<in> insert q D" using f by (intro Min_in) auto
    then show "60 - int (Min (insert q D)) \<in> insert p ((\<lambda>q. 60 - int q) ` D)" using q(2) by auto
    fix y assume "y \<in> insert p ((\<lambda>q. 60 - int q) ` D)"
    moreover have "p = 60 - int q" using q(2) by simp
    ultimately obtain z where z: "z \<in> insert q D" "y = 60 - int z" by blast
    then have "Min (insert q D) \<le> z" using f by simp
    then show "y \<le> 60 - int (Min (insert q D))" using z(2) by simp
  qed (use f in simp)
  show ?thesis
    using pri_change_ok [OF assms(1-4) q(1) assms(5)] assms(6,7) m x
    by (auto simp: csi_kernel_task_set_prio_def csi_kernel_task_get_prio_def RHINO_CONFIG_USER_PRI_MAX_def csi_status_def
        pri_def of_nat_diff simp flip: q_def D_def elim!: ok_mono)
qed

theorem csi_prio_round_trip_witness:
  "ok (csi_kernel_task_set_prio (Some 5) 17 ex_state) (\<lambda>(r, s'). r = 0 \<and> csi_kernel_task_get_prio (Some 5) s' = 30)"
proof -
  have "donated None 5 ex_state = {30}" by (auto simp: donated_def)
  then show ?thesis
    using csi_prio_round_trip [OF ex_kernel_inv ex_no_deadlock, of 5 17]
    by (auto simp: KPRIO_IDLE_def KPRIO_REALTIME7_def elim!: ok_mono)
qed

section \<open>Message queues\<close>

text \<open>Putting one message after the other.\<close>

fun put_all :: "mq_adapter \<Rightarrow> byte list list \<Rightarrow> kstate \<Rightarrow> (int list \<times> kstate) outcome" where
  "put_all h [] s = Inr ([], s)"
| "put_all h (m # ms) s =
     bnd (csi_kernel_msgq_put (Some h) (Some ((!) m)) 0 0 s) (\<lambda>(r, s). bnd (put_all h ms s) (\<lambda>(rs, s). Inr (r # rs, s)))"

lemma put_one:
  assumes "kernel_inv s" "bq_rep s (buf_q h) (qs, [])" "m \<noteq> []" "length m = unat (mq_msg_size h)" "max_msg_size (buf_queues s (buf_q h)) = length m"
    "\<forall>q \<in> set qs. length q = length m" "length qs * msg_space (length m) \<le> c" "c = cap (bq_ringbuf (buf_queues s (buf_q h)))"
  shows "ok (csi_kernel_msgq_put (Some h) (Some ((!) m)) 0 0 s) (\<lambda>(r, s'). kernel_inv s' \<and> c = cap (bq_ringbuf (buf_queues s' (buf_q h))) \<and>
    max_msg_size (buf_queues s' (buf_q h)) = length m \<and>
    (if length qs < c div msg_space (length m) then r = 0 \<and> bq_rep s' (buf_q h) (qs @ [m], [])
     else r = - EPERM \<and> bq_rep s' (buf_q h) (qs, [])))"
proof -
  have "map (\<lambda>q. msg_space (length q)) qs = replicate (length qs) (msg_space (length m))" using assms(6) by (induction qs) auto
  then have "bq_free c qs = c - length qs * msg_space (length m)" by (simp add: bq_free_def sum_list_replicate)
  moreover have "0 < msg_space (length m)" using assms(3) by (simp add: msg_space_def)
  ultimately have f: "bq_free c qs < msg_space (length m) \<longleftrightarrow> \<not> length qs < c div msg_space (length m)"
    using assms(7) by (auto simp: less_eq_div_iff_mult_less_eq Suc_le_eq [symmetric])
  show ?thesis
    using bq_send_store [OF assms(1-3), of "(!) m"] assms(4,5,8) f
    by (auto simp: csi_kernel_msgq_put_def krhino_buf_queue_send_def csi_call_status_def csi_status_def elim!: ok_mono split: if_splits)
qed

lemma put_all_ok:
  assumes "kernel_inv s" "bq_rep s (buf_q h) (qs, [])" "0 < k" "k = unat (mq_msg_size h)" "max_msg_size (buf_queues s (buf_q h)) = k"
    "\<forall>q \<in> set qs. length q = k" "length qs * msg_space k \<le> c" "c = cap (bq_ringbuf (buf_queues s (buf_q h)))" "\<forall>m \<in> set ms. length m = k"
    "f = min (length ms) (c div msg_space k - length qs)"
  shows "ok (put_all h ms s) (\<lambda>(rs, s'). rs = replicate f 0 @ replicate (length ms - f) (- EPERM) \<and>
    (\<exists>qs'. bq_rep s' (buf_q h) (qs', []) \<and> length qs' = length qs + f))"
  using assms
proof (induction ms arbitrary: s qs f)
  case (Cons m ms)
  have m: "m \<noteq> []" "length m = k" using Cons.prems(3,9) by auto
  obtain r s1 where p: "csi_kernel_msgq_put (Some h) (Some ((!) m)) 0 0 s = Inr (r, s1)" "kernel_inv s1"
    "c = cap (bq_ringbuf (buf_queues s1 (buf_q h)))" "max_msg_size (buf_queues s1 (buf_q h)) = k"
    "if length qs < c div msg_space k then r = 0 \<and> bq_rep s1 (buf_q h) (qs @ [m], []) else r = - EPERM \<and> bq_rep s1 (buf_q h) (qs, [])"
    using put_one [of s h qs m c] Cons.prems m by (auto simp: ok_iff)
  show ?case
  proof (cases "length qs < c div msg_space k")
    case True
    have sp: "0 < msg_space k" using Cons.prems(3) by (simp add: msg_space_def)
    have "Suc (length qs) * msg_space k \<le> c" using True sp by (simp add: Suc_le_eq [symmetric] less_eq_div_iff_mult_less_eq)
    then have "ok (put_all h ms s1) (\<lambda>(rs, s'). rs = replicate (f - 1) 0 @ replicate (length ms - (f - 1)) (- EPERM) \<and>
        (\<exists>qs'. bq_rep s' (buf_q h) (qs', []) \<and> length qs' = length (qs @ [m]) + (f - 1)))"
      using True p Cons.prems m by (intro Cons.IH) auto
    moreover have "f = Suc (f - 1)" using True Cons.prems(10) by simp
    moreover from this have "length (m # ms) - f = length ms - (f - 1)" by (metis diff_Suc_Suc length_Cons)
    ultimately show ?thesis
      using True p(1,5) by (auto simp: ok_iff) (metis append_Cons replicate_Suc, metis add_Suc_right add_Suc)
  next
    case False
    then have f: "f = 0" using Cons.prems(10) by simp
    have "ok (put_all h ms s1) (\<lambda>(rs, s'). rs = replicate 0 0 @ replicate (length ms - 0) (- EPERM) \<and>
        (\<exists>qs'. bq_rep s' (buf_q h) (qs', []) \<and> length qs' = length qs + 0))"
      using False p Cons.prems by (intro Cons.IH) auto
    then show ?thesis using False p(1,5) f by (auto simp: ok_iff)
  qed
qed auto

lemma of_nat_int32:
  assumes "x < 2 ^ 31"
  shows "unat (of_nat x :: 32 word) = x" "sint (of_nat x :: 32 word) = int x"
proof -
  show "unat (of_nat x :: 32 word) = x" using assms by (simp add: unsigned_of_nat take_bit_nat_eq_self)
  have "int x < 2 ^ 31" using assms by simp
  then show "sint (of_nat x :: 32 word) = int x"
    by (simp add: signed_of_nat) (rule signed_take_bit_int_eq_self; simp)
qed

lemma msgq_new_fresh:
  assumes "kernel_inv s" "no_deadlock s" "unused s b" "0 < n" "0 < k" "k \<le> 0x3fffff" "k * (n + 1) < 2 ^ 31"
  defines "h \<equiv> \<lparr>buf_q = b, mq_msg_size = of_nat k, mq_msg_count = of_nat n\<rparr>"
  shows "\<exists>s1. csi_kernel_msgq_new True (Some b) (Some buf) (of_nat n) (of_nat k) s = Inr (Some h, s1) \<and> kernel_inv s1 \<and>
    bq_rep s1 b ([], []) \<and> cap (bq_ringbuf (buf_queues s1 b)) = k * (n + 1) \<and> max_msg_size (buf_queues s1 b) = k"
proof -
  have "1 * (n + 1) \<le> k * (n + 1)" "k * 1 \<le> k * (n + 1)" using assms(5) by (intro mult_le_mono; simp)+
  then have r: "n < 2 ^ 31" "k < 2 ^ 31" using assms(7) by simp_all
  have p: "unat (of_nat k * (of_nat n + 1) :: 32 word) = k * (n + 1)"
    using of_nat_int32(1) [OF assms(7)] by (simp add: algebra_simps)
  have w: "ring_wf (ringbuf_init rb buf (k * (n + 1)) RINGBUF_TYPE_DYN k)" "used (ringbuf_init rb buf (k * (n + 1)) RINGBUF_TYPE_DYN k) = 0" for rb
    using assms(5) by (simp_all add: ring_wf_def ringbuf_init_def ringbuf_reset_def cap_def used_def)
  then have d: "dyn_rep (mm, ringbuf_init rb buf (k * (n + 1)) RINGBUF_TYPE_DYN k) []" for mm rb
    by (simp add: dyn_rep_def contents_def) (simp add: ringbuf_init_def ringbuf_reset_def)
  obtain s0 where s0: "csi_heap_call s = Inr s0" "safe s0" "blks s0 = blks s"
    using heap_call_safe [of s] assms(1,2) by (auto simp: safe_def ok_iff)
  define s1 where "s1 = snd (snd (krhino_buf_queue_dyn_create False (Some b) (Some buf) (Some ''UserMsgQ'') (k * (n + 1)) k s0))"
  have e: "csi_kernel_msgq_new True (Some b) (Some buf) (of_nat n) (of_nat k) s = Inr (Some h, s1)"
    using assms(4,5) r p s0(1) unfolding s1_def
    by (simp add: csi_kernel_msgq_new_def of_nat_int32 krhino_buf_queue_dyn_create_def buf_queue_create_def h_def Let_def)
  have "unused s0 b" using assms(3) s0(3) by (simp add: unused_def ty_def bl_def)
  then have "safe s1" using dyn_create_safe(4) [OF s0(2), of "Some b"] unfolding s1_def by simp
  moreover have "bl s1 b = []" "ty s1 b = RHINO_BUF_QUEUE_OBJ_TYPE" "pol s1 b = BLK_POLICY_PRI" "bq_cur_num (buf_queues s1 b) = 0"
    "max_msg_size (buf_queues s1 b) = k" "\<exists>rb. bq_ringbuf (buf_queues s1 b) = ringbuf_init rb buf (k * (n + 1)) RINGBUF_TYPE_DYN k"
    using assms(4,5) unfolding s1_def
    by (auto simp: krhino_buf_queue_dyn_create_def buf_queue_create_def Let_def
        upd_blk_def upd_bq_def upd_kobj_def view_defs)
  moreover have "cap (ringbuf_init rb buf (k * (n + 1)) RINGBUF_TYPE_DYN k) = k * (n + 1)" for rb
    by (simp add: cap_def ringbuf_init_def ringbuf_reset_def)
  ultimately show ?thesis using e d assms(6) by (auto simp: safe_def bq_rep_def)
qed

text \<open>
  C28. The room in a message queue: of messages of \<open>k\<close> bytes put into a new queue for \<open>n\<close> messages of that size, exactly
  the first \<open>k * (n + 1) div msg_space k\<close> are accepted, where \<open>msg_space k\<close> is \<open>k\<close> and the length of the header a message gets;
  the others are refused. The capacity the adapter reports is \<open>n\<close> all the same.
\<close>

theorem csi_msgq_room:
  assumes "kernel_inv s" "no_deadlock s" "unused s b" "0 < n" "0 < k" "k \<le> 0x3fffff" "k * (n + 1) < 2 ^ 31" "\<forall>m \<in> set ms. length m = k"
    "f = min (length ms) (k * (n + 1) div msg_space k)"
  shows "\<exists>h s1. csi_kernel_msgq_new True (Some b) (Some buf) (of_nat n) (of_nat k) s = Inr (Some h, s1) \<and>
    csi_kernel_msgq_get_capacity (Some h) = of_nat n \<and>
    ok (put_all h ms s1) (\<lambda>(rs, s'). rs = replicate f 0 @ replicate (length ms - f) (- EPERM) \<and>
      csi_kernel_msgq_get_count (Some h) s' = int f)"
proof -
  define h where "h = \<lparr>buf_q = b, mq_msg_size = of_nat k, mq_msg_count = of_nat n :: 32 word\<rparr>"
  obtain s1 where s1: "csi_kernel_msgq_new True (Some b) (Some buf) (of_nat n) (of_nat k) s = Inr (Some h, s1)" "kernel_inv s1"
    "bq_rep s1 b ([], [])" "cap (bq_ringbuf (buf_queues s1 b)) = k * (n + 1)" "max_msg_size (buf_queues s1 b) = k"
    using msgq_new_fresh [OF assms(1-7), of buf] by (auto simp: h_def)
  have k: "k < 2 ^ 31" using assms(6) by simp
  have f: "f < 2 ^ 31" using assms(7,9) div_le_dividend [of "k * (n + 1)" "msg_space k"] by linarith
  have "ok (put_all h ms s1) (\<lambda>(rs, s'). rs = replicate f 0 @ replicate (length ms - f) (- EPERM) \<and>
      (\<exists>qs'. bq_rep s' (buf_q h) (qs', []) \<and> length qs' = length ([] :: byte list list) + f))"
    using s1(2-5) assms(5,8,9) by (intro put_all_ok [where c = "k * (n + 1)"]) (simp_all add: h_def of_nat_int32 [OF k])
  then have "ok (put_all h ms s1) (\<lambda>(rs, s'). rs = replicate f 0 @ replicate (length ms - f) (- EPERM) \<and>
      csi_kernel_msgq_get_count (Some h) s' = int f)"
    by (rule ok_mono) (use of_nat_int32(2) [OF f] in
      \<open>auto simp: csi_kernel_msgq_get_count_def krhino_buf_queue_info_get_def bq_rep_def ty_def Let_def\<close>)
  then show ?thesis using s1(1) by (auto simp: csi_kernel_msgq_get_capacity_def h_def)
qed

theorem csi_msgq_room_witness:
  "\<exists>h s1. csi_kernel_msgq_new True (Some 20) (Some 4096) (of_nat 4) (of_nat 1) ex_state = Inr (Some h, s1) \<and>
    csi_kernel_msgq_get_capacity (Some h) = of_nat 4 \<and>
    ok (put_all h [[1], [2], [3], [4]] s1) (\<lambda>(rs, s'). rs = [0, 0, -1, -1])"
proof -
  let ?ms = "[[1], [2], [3], [4]] :: byte list list"
  have sp: "msg_space 1 = 2" by (simp add: msg_space_def COMPRESS_LEN_def)
  have "unused ex_state 20" by (simp add: unused_def)
  note c = csi_msgq_room [OF ex_kernel_inv ex_no_deadlock this, of 4 1 ?ms 2 4096]
  have "2 = min (length ?ms) (1 * (4 + 1) div msg_space 1)" unfolding sp by simp
  from c [OF _ _ _ _ _ this] obtain h s1 where h: "csi_kernel_msgq_new True (Some 20) (Some 4096) (of_nat 4) (of_nat 1) ex_state = Inr (Some h, s1)"
    "csi_kernel_msgq_get_capacity (Some h) = of_nat 4"
    and o: "ok (put_all h ?ms s1) (\<lambda>(rs, s'). rs = replicate 2 0 @ replicate (length ?ms - 2) (- EPERM) \<and> csi_kernel_msgq_get_count (Some h) s' = int 2)"
    by auto
  have "ok (put_all h ?ms s1) (\<lambda>(rs, s'). rs = [0, 0, -1, -1])"
    by (rule ok_mono [OF o]) (auto simp: EPERM_def numeral_2_eq_2)
  then show ?thesis using h by blast
qed

section \<open>The list of tasks\<close>

lemma count_tasks_length: "count_tasks ts n = n + of_nat (length ts)"
  by (induction ts arbitrary: n) simp_all

lemma store_tasks_eq:
  assumes "n \<noteq> 0" "k \<le> length arr"
  shows "store_tasks n ts k arr =
    (if k + length ts \<le> length arr then Inr (take k arr @ ts @ drop (k + length ts) arr) else Inl BadAccess)"
  using assms(2)
proof (induction ts arbitrary: k arr)
  case (Cons t ts)
  have n: "1 \<le> n" using assms(1) by (simp add: word_le_nat_alt unat_gt_0 Suc_le_eq)
  show ?case
  proof (cases "k < length arr")
    case True
    then have "take (Suc k) (arr[k := t]) = take k arr @ [t]" by (simp add: take_Suc_conv_app_nth)
    moreover have "drop (Suc k + length ts) (arr[k := t]) = drop (Suc k + length ts) arr" by simp
    ultimately show ?thesis using True n Cons.IH [of "Suc k" "arr[k := t]"] by (auto simp: not_le)
  next
    case False
    then show ?thesis using n Cons.prems by (auto simp: not_le)
  qed
qed simp

text \<open>
  C39. The list of tasks: with an array of \<open>n\<close> elements, as many as the caller says, the call fills in the handles of all tasks and returns
  their number if there are at most \<open>n\<close> of them; if there are more, it writes behind the end of the array, although the caller has given its length.
\<close>

theorem csi_task_list_overrun:
  assumes "length arr = unat n" "n \<noteq> 0" "task_head (g_kobj_list s) \<noteq> []" "length (task_head (g_kobj_list s)) < 2 ^ 32"
  shows "csi_kernel_task_list (Some arr) n s =
    (if length (task_head (g_kobj_list s)) \<le> unat n
     then Inr (of_nat (length (task_head (g_kobj_list s))),
       Some (task_head (g_kobj_list s) @ drop (length (task_head (g_kobj_list s))) arr))
     else Inl BadAccess)"
proof -
  let ?l = "length (task_head (g_kobj_list s))"
  have u: "unat (of_nat ?l :: 32 word) = ?l" using assms(4) by (simp add: unsigned_of_nat take_bit_nat_eq_self)
  then have "n < of_nat ?l \<longleftrightarrow> unat n < ?l" "(of_nat ?l :: 32 word) \<noteq> 0" using assms(3) by (auto simp: word_less_nat_alt)
  then show ?thesis
    using assms(1,2) store_tasks_eq [of _ 0 arr "task_head (g_kobj_list s)"]
    by (auto simp: csi_kernel_task_list_def count_tasks_length Let_def not_le)
qed

theorem csi_task_list_overrun_witness:
  "csi_kernel_task_list (Some [0, 0]) 2 ex_state = Inl BadAccess"
  using csi_task_list_overrun [of "[0, 0]" 2 ex_state] by (simp add: ex_state_def)

section \<open>Deleting a timer\<close>

text \<open>Deleting a timer that runs: the call reports success and the argument record of the timer is released, but the command is
  ignored by the timer task, in every state in which the timer has not changed, so the timer goes on running with the released
  record.\<close>

lemma csi_timer_del_running:
  assumes "kernel_inv (kern x)" "no_deadlock (kern x)" "tm_state (timers x t) = TIMER_ACTIVE"
  shows "ok (csi_kernel_timer_del img sz junk (Some t) x) (\<lambda>(r, x', released). timers x' = timers x \<and> g_timer_head x' = g_timer_head x \<and>
    (if r = 0 then released = Some (timer_cb_arg (timers x t)) \<and>
       (\<forall>y. timers y t = timers x t \<longrightarrow> timer_cmd_proc (junk\<lparr>cb_timer := t, cb_num := TIMER_CMD_DYN_DEL\<rparr>) y = Inr y)
     else r = - EPERM \<and> released = None))"
proof -
  define cb where "cb = junk\<lparr>cb_timer := t, cb_num := TIMER_CMD_DYN_DEL\<rparr>"
  have "ok (krhino_buf_queue_send (Some g_timer_queue) (Some (img cb)) sz (kern x)) (\<lambda>(r, s'). safe s')"
    using send_calls_safe(7) assms(1,2) by (simp add: safe_def)
  moreover have "ok (csi_heap_call s) (\<lambda>s'. True)" if "safe s" for s
    using heap_call_safe [OF that] by (rule ok_mono) simp
  moreover have "timer_cmd_proc cb y = Inr y" if "timers y t = timers x t" for y
    using that assms(3) by (simp add: cb_def timer_cmd_proc_def cmd_proc_def Let_def)
  ultimately show ?thesis
    by (auto simp: csi_kernel_timer_del_def krhino_timer_dyn_del_def timer_simple_cmd_def timer_send_def EPERM_def
        simp flip: cb_def elim!: ok_mono)
qed

end
