(* ===== verification/Spec2Isabelle.thy ===== *)
theory Spec2Isabelle
  imports KList Fifo TimerInv CsiApi
begin

text \<open>
  Verification of the Rhino real-time kernel of the wujian100 SDK (\<^verbatim>\<open>src/sdk/csi_kernel/rhino\<close>).

  \<^bold>\<open>The program.\<close> Rhino is a preemptive kernel with fixed priorities for one CPU (priorities 0 to 61, 61 is
  the idle task). Tasks wait for semaphores, mutexes with priority inheritance, event flags, message and
  buffer queues, or for time to pass; every blocking call takes a timeout in ticks. A ready queue holds the ready
  tasks by priority, each object a list of the tasks it blocks, and one time list all tasks with a timeout. Interrupt
  handlers and the tick call the same services. Software timers are run by a task of their own that is fed
  through a buffer queue; another task frees the memory of deleted objects. A heap with two-level
  size classes (TLSF), a fixed-size block pool, a byte FIFO and a ring buffer stand beside the kernel and are used by it.

  \<^bold>\<open>The model\<close> follows the configuration of \<^verbatim>\<open>k_config.h\<close>: one CPU, software bitmap search, statistics lists on,
  tracing and lock-time measurement off. The functions keep the names of the source. A function that may
  run into a fatal error, a bad pointer or an endless loop returns an \<open>outcome\<close> (theory \<open>Prelude\<close>): \<open>Inl\<close>
  with the fault, or \<open>Inr\<close> with the result; \<open>k_err_proc\<close> is the fault \<open>Halt\<close> because the handler
  installed by \<^verbatim>\<open>yoc_impl.c\<close> never returns. Status codes are the constructors of \<open>kstat\<close>. A call that blocks
  returns \<open>Pending\<close> with the state the next task starts in, and \<open>pend_state_end_proc\<close> gives the status when it is
  resumed. A critical section is one step: what interrupts could do happens between the calls.

  \<^item> \<open>Prelude\<close>: status codes (\<^verbatim>\<open>k_err.h\<close>), fault outcomes with their rules (\<open>ok\<close>, \<open>bnd\<close>), ordered insertion.
  \<^item> \<open>KList\<close>: \<^verbatim>\<open>k_list.h\<close> at the level of its pointers. Insertion, removal and the ordered walk refine
    operations on HOL lists; this justifies the lists in the rest of the model.
  \<^item> \<open>Bitmap\<close>: \<^verbatim>\<open>k_bitmap.h\<close>, \<^verbatim>\<open>k_ffs.c\<close>; the search by halves finds the least set bit.
  \<^item> \<open>Ring\<close>, \<open>RingBuf\<close>, \<open>Fifo\<close>: byte memory, \<^verbatim>\<open>k_ringbuf.c\<close> and \<^verbatim>\<open>k_fifo.c\<close>. The ring buffer is, in each of its two modes, an
    interpretation of the locale \<open>msg_fifo\<close> (a bounded store that returns in order what was put in), the FIFO one of
    \<open>byte_stream\<close> (a bounded queue of bytes, written and read in pieces of any length).
  \<^item> \<open>MmBlk\<close>: \<^verbatim>\<open>k_mm_blk.c\<close>, an interpretation of the locale \<open>block_pool\<close> (no block is handed out twice).
  \<^item> \<open>Mm\<close>: \<^verbatim>\<open>k_mm.c\<close> and \<^verbatim>\<open>k_mm.h\<close>. Blocks live in a memory of 32-bit words at 32-bit addresses, with their headers, flags and
    links where the source has them, so all arithmetic on sizes and addresses wraps; the head of the heap (bitmaps,
    table of free lists, statistics) is the record \<open>k_mm_head\<close> apart from this memory, as is the control block of the pool of
    small blocks, which is the one of \<open>MmBlk\<close>. \<open>krhino_mm_alloc\<close> and its companions work on the heap of the kernel.
  \<^item> \<open>KState\<close>: the object structs and globals (\<^verbatim>\<open>k_obj.c\<close>, \<^verbatim>\<open>k_task.h\<close> and the object headers) as records; tasks and
    objects are found in total maps by identifiers that stand for their addresses.
  \<^item> \<open>Sched\<close>: \<^verbatim>\<open>k_sched.c\<close>; the ready queue is an interpretation of the locale \<open>ready_queue\<close>.
  \<^item> \<open>Pend\<close>, \<open>MutexPri\<close>: \<^verbatim>\<open>k_pend.c\<close>, the priority look-up and the change of priorities along the chain of owners.
  \<^item> \<open>Sem\<close>, \<open>Mutex\<close>, \<open>Event\<close>, \<open>Queue\<close>, \<open>BufQueue\<close>, \<open>Tick\<close>, \<open>Task\<close>, \<open>Timer\<close>, \<open>Sys\<close>: the services of
    \<^verbatim>\<open>k_sem.c\<close> and \<^verbatim>\<open>k_task_sem.c\<close>, \<^verbatim>\<open>k_mutex.c\<close>, \<^verbatim>\<open>k_event.c\<close>, \<^verbatim>\<open>k_queue.c\<close>, \<^verbatim>\<open>k_buf_queue.c\<close>, \<^verbatim>\<open>k_tick.c\<close> and
    \<^verbatim>\<open>k_time.c\<close>, \<^verbatim>\<open>k_task.c\<close>, \<^verbatim>\<open>k_timer.c\<close>, and \<^verbatim>\<open>k_sys.c\<close> with \<^verbatim>\<open>k_stats.c\<close> and \<^verbatim>\<open>k_dyn_mem_proc.c\<close>. \<open>Boot\<close> has
    \<open>krhino_init\<close>, which also runs the initialisation hook (\<^verbatim>\<open>hook_impl.c\<close>, it sets the length of the heap's region of \<^verbatim>\<open>yoc_impl.c\<close>)
    and \<open>k_mm_init\<close>; its state is the kernel, the timers and the heap.
  \<^item> \<open>Csi\<close>: the adapter \<^verbatim>\<open>csi_rhino.c\<close>, the interface applications use, and \<^verbatim>\<open>libc/malloc.c\<close> above it. Handles are
    optional identifiers, statuses integers; allocation works on the kernel and the heap together. The calls that take or
    release memory for records of the adapter (timers, message queues, pools) suspend and resume the scheduler as \<open>malloc\<close> and \<open>free\<close> do
    (\<open>csi_heap_call\<close>).

  \<^bold>\<open>The invariant\<close> (theory \<open>KInv\<close>) is \<open>kernel_inv\<close>: every live task is on exactly the list its state says (ready
  queue, block list of the object it waits for, time list), block lists under the priority policy are
  sorted, the bitmap marks the non-empty ready lists, the time list is sorted by remaining time and nobody on it
  is due, mutexes and their owners' chains agree, owners run at least at the priority of the tasks they
  block, and the active task is a live one that is ready, unless an interrupt handler has suspended it. That
  the scheduler then runs the first task of the highest ready priority is part of the theorems on the services.
  \<open>PendInv\<close> shows that blocking and waking keep it and \<open>PriInv\<close> that the change of priorities along a chain of owners
  does and ends, given \<open>no_deadlock\<close> (the relation "waits for a mutex of" is acyclic). \<open>KExample\<close> has
  a concrete state with all of this, used by the witnesses.

  \<^bold>\<open>What is shown.\<close>
  \<^item> For each service all branches, as refinements of abstract objects where there is one (a semaphore as a
    count with a queue of waiters, queues as bounded lists of messages, the mutex as owner and donors), with the
    invariant kept: the \<open>_refines\<close>, \<open>_cases\<close>, \<open>_releases\<close> theorems of the service theories.
  \<^item> A tick wakes exactly the tasks whose time has come; round robin; conversions of time without overflow.
  \<^item> \<open>TimerInv\<close>: timers that are not overdue are served exactly once each in order; an overdue one can be missed.
  \<^item> \<open>Safety\<close>, \<open>TaskDel\<close>, \<open>Heads\<close>: every service keeps the invariant and freedom from deadlock
    whatever its arguments; deletion of a task hands over its mutexes, leaves the waits of all other tasks alone and
    drops the owner it waited for to its due priority; the list of all tasks has no duplicates.
  \<^item> \<open>Calls\<close>: the calls as moves of a transition system (locale \<open>fault_free\<close>): in any sequence of allowed calls,
    interrupts and ticks no call faults. \<open>allowed\<close> is the discipline the kernel does not check:
    no object is created on top of one in use, the idle task does not block, timeouts are below
    \<open>2 ^ 63\<close> or endless, a lock closes no cycle of waiting, task arguments are live tasks, interrupt exits match entries.
  \<^item> The heap. \<open>MmClass\<close>: the two-level size classes, found by bit searches, are monotone and of bounded width. \<open>MmLists\<close>: the
    free lists and the bitmaps that mark the non-empty ones, and their search. \<open>MmLayout\<close>: the blocks of a region as a
    list without gaps, with joining and cutting of neighbours. \<open>MmHeap\<close>: the representation \<open>heap_rep\<close> (layout, flags,
    links and free lists agree; no two free neighbours) and allocation. \<open>MmFree\<close>: release. \<open>MmUsed\<close>: blocks in use, their
    payloads, and what a change of headers leaves alone. \<open>MmClient\<close>: the buffers handed out, small
    blocks included. \<open>MmRefine\<close>, \<open>MmRealloc\<close>, \<open>MmInit\<close>: the entry points refine a map from buffers to sizes.
    \<open>MmSpec\<close>: the locale \<open>heap_contract\<close> of an allocator, with the theorem on all runs of its client, interpreted on
    \<open>krhino_mm_alloc\<close>, \<open>krhino_mm_free\<close> and \<open>krhino_mm_realloc\<close>. \<open>Heap\<close>: the theorems. They hold for one region of at most \<open>MAX_MM_SIZE\<close>
    bytes and requests of 2 to \<open>0xFC000000\<close> bytes; \<open>heap_alloc_one_byte\<close> and \<open>heap_alloc_wraps\<close> show what happens outside.
  \<^item> \<open>Boot\<close>: initialisation and start lead from zeroed memory to a state where the above applies, with a heap in order.
  \<^item> \<open>Dyn\<close>: objects and tasks in memory of the heap are created and deleted as safely as static ones. \<open>CsiSafe\<close>: the
    calls of the adapter as a second interpretation of \<open>fault_free\<close>; its timeouts are always in range. \<open>CsiApi\<close>: no
    faults from reset on, allocation under the lock of the scheduler, priorities that are set are read back, and
    where the adapter falls short of its interface (room in message queues, the list of tasks, deleted timers).

  \<^bold>\<open>Fuel.\<close> Loops over lists that shrink are recursive functions with a bound equal to the length of the
  list; the change of priorities has \<open>pri_change_fuel\<close>, one more than the number of tasks; the service of timers
  the number of timers; joining of heap regions the number of regions. Running out is the fault \<open>Diverge\<close>; the theorems show that it does not happen.

  \<^bold>\<open>Not modelled.\<close> The services that allocate memory take the answer of the heap as an argument; the dynamic creation of an object
  and the heap are not one state, and of the heap's work only the suspension of the scheduler shows in the kernel. When a resume inside of a call of
  the adapter switches tasks, what other tasks do before the caller goes on is not interleaved. The other hooks are empty or save power in the idle loop. \<open>krhino_add_mm_region\<close> (more than one region) is modelled without theorems.
  The dumps of \<^verbatim>\<open>k_mm_debug.c\<close> and the guard words of blocks are configured off. Stack contents
  and the context switch itself (assembly); the switch is the change of the active task. Work queues and tracing
  are compiled out. Of the adapter only the stack watermark, the heap dump and the timer frequency are left out. Drivers, C library, mbedtls, applications and the
  hardware description are outside of the kernel. Statistics of lock times are configured off.
\<close>

end
